(* ===== verification/Prelude.thy ===== *)
theory Prelude
  imports Main "HOL-Library.Word" "HOL-Library.Multiset" "HOL-Library.Monad_Syntax"
begin

text \<open>
  Shared vocabulary of the development: the machine types of the 32-bit target, the result
  of a call that may not return, the comparison-function contract that the container code of
  the kernel library relies on, and generic lemmas on lists and words.

  A kernel call either returns or stops the machine (a failed \<^verbatim>\<open>ASSERT\<close>, a \<^verbatim>\<open>PANIC\<close>, a
  processor fault); a loop may also run forever. All of these are the value \<^term>\<open>None\<close>, so a
  theorem that a call yields \<open>Some\<close> result says that it terminates and passes every assertion.
\<close>

section \<open>Machine types\<close>

type_synonym u8 = "8 word"
type_synonym u16 = "16 word"
type_synonym u32 = "32 word"
type_synonym u64 = "64 word"

text \<open>Addresses are natural numbers, and the null pointer is 0.\<close>

type_synonym ptr = nat

abbreviation (input) NULL :: ptr where
  "NULL \<equiv> 0"

section \<open>Calls that may stop the machine\<close>

definition ASSERT :: "bool \<Rightarrow> unit option" where
  "ASSERT b = (if b then Some () else None)"

lemma ASSERT_simps [simp]:
  "ASSERT True = Some ()" "ASSERT False = None"
  by (simp_all add: ASSERT_def)

lemma ASSERT_eq_Some [simp]: "ASSERT b = Some u \<longleftrightarrow> b"
  by (simp add: ASSERT_def)

lemma bind_ASSERT_eq_Some [simp]:
  "(ASSERT b \<bind> f) = Some x \<longleftrightarrow> b \<and> f () = Some x"
  by (simp add: ASSERT_def)

named_theorems defs \<open>definitions of operations, unfolded in the component proofs\<close>

section \<open>Comparison functions\<close>

text \<open>
  \<^verbatim>\<open>list_less_func\<close> and \<^verbatim>\<open>hash_less_func\<close> compare two elements and return true iff the first is
  less. Every container relies on the comparison being a strict weak order.
\<close>

locale less_func =
  fixes less :: "'a \<Rightarrow> 'a \<Rightarrow> bool"
  assumes asym: "less a b \<Longrightarrow> \<not> less b a"
    and le_trans: "\<not> less b a \<Longrightarrow> \<not> less c b \<Longrightarrow> \<not> less c a"
begin

lemma irrefl [simp]: "\<not> less a a"
  using asym by blast

lemma less_trans: "less a b \<Longrightarrow> less b c \<Longrightarrow> less a c"
  using asym le_trans by blast

lemma less_le_trans: "less a b \<Longrightarrow> \<not> less c b \<Longrightarrow> less a c"
  using le_trans by blast

lemma le_less_trans: "\<not> less b a \<Longrightarrow> less b c \<Longrightarrow> less a c"
  using le_trans by blast

lemma sorted_wrt_Cons2:
  "sorted_wrt (\<lambda>x y. \<not> less y x) (a # b # xs) \<longleftrightarrow>
     \<not> less b a \<and> sorted_wrt (\<lambda>x y. \<not> less y x) (b # xs)"
  using le_trans by (auto simp del: sorted_wrt.simps simp: sorted_wrt2 transp_def)

lemma sorted_insert_ordered:
  assumes "sorted_wrt (\<lambda>a b. \<not> less b a) xs"
  shows "sorted_wrt (\<lambda>a b. \<not> less b a)
     (takeWhile (\<lambda>x. \<not> less e x) xs @ e # dropWhile (\<lambda>x. \<not> less e x) xs)"
  using assms
proof (induction xs)
  case (Cons x xs)
  show ?case
  proof (cases "less e x")
    case True
    then show ?thesis
      using Cons.prems asym [OF True] asym less_le_trans [OF True] by auto
  next
    case False
    have "set (takeWhile (\<lambda>x. \<not> less e x) xs) \<union> set (dropWhile (\<lambda>x. \<not> less e x) xs) = set xs"
      by (metis set_append takeWhile_dropWhile_id)
    then show ?thesis
      using False Cons by auto
  qed
qed simp

lemma dropWhile_less:
  "sorted_wrt (\<lambda>a b. \<not> less b a) xs \<Longrightarrow> b \<in> set (dropWhile (\<lambda>x. \<not> less e x) xs) \<Longrightarrow> less e b"
  by (induction xs) (auto split: if_splits intro: less_le_trans)

text \<open>The scan returns the first of the greatest elements: all before it are less, none is greater.\<close>

lemma foldl_max:
  "\<exists>as bs. x # xs = as @ foldl (\<lambda>m e. if less m e then e else m) x xs # bs
     \<and> (\<forall>a \<in> set as. less a (foldl (\<lambda>m e. if less m e then e else m) x xs))
     \<and> (\<forall>b \<in> set bs. \<not> less (foldl (\<lambda>m e. if less m e then e else m) x xs) b)"
proof (induction xs rule: rev_induct)
  case (snoc y xs)
  let ?m = "foldl (\<lambda>m e. if less m e then e else m) x xs"
  from snoc obtain as bs where IH: "x # xs = as @ ?m # bs" "\<forall>a \<in> set as. less a ?m"
    "\<forall>b \<in> set bs. \<not> less ?m b"
    by blast
  show ?case
  proof (cases "less ?m y")
    case True
    have "less a y" if "a \<in> set (x # xs)" for a
    proof -
      from that IH(1) have "a \<in> set as \<or> a = ?m \<or> a \<in> set bs" by auto
      with IH(2,3) True show ?thesis
        by (elim disjE) (blast intro: less_trans le_less_trans)+
    qed
    then show ?thesis
      using True by (intro exI [of _ "x # xs"] exI [of _ "[]"]) simp
  next
    case False
    then show ?thesis
      using IH by (intro exI [of _ as] exI [of _ "bs @ [y]"]) (simp flip: append_Cons)
  qed
qed (rule exI [of _ "[]"], simp)

end

text \<open>
  What \<^verbatim>\<open>list_max\<close> and \<^verbatim>\<open>list_insert_ordered\<close> compute on the sequence of elements.
\<close>

definition first_max :: "('a \<Rightarrow> 'a \<Rightarrow> bool) \<Rightarrow> 'a list \<Rightarrow> 'a option" where
  "first_max lt xs = (case xs of [] \<Rightarrow> None | x # ys \<Rightarrow> Some (foldl (\<lambda>m e. if lt m e then e else m) x ys))"

definition insert_ordered :: "('a \<Rightarrow> 'a \<Rightarrow> bool) \<Rightarrow> 'a \<Rightarrow> 'a list \<Rightarrow> 'a list" where
  "insert_ordered lt e xs = takeWhile (\<lambda>x. \<not> lt e x) xs @ e # dropWhile (\<lambda>x. \<not> lt e x) xs"

lemma first_max_None [simp]: "first_max lt xs = None \<longleftrightarrow> xs = []"
  by (simp add: first_max_def split: list.splits)

lemma first_max_Nil [simp]: "first_max lt [] = None"
  by simp

lemma set_insert_ordered [simp]: "set (insert_ordered lt e xs) = insert e (set xs)"
  unfolding insert_ordered_def by (metis Un_insert_right list.simps(15) set_append takeWhile_dropWhile_id)

lemma distinct_insert_ordered [simp]:
  "distinct (insert_ordered lt e xs) \<longleftrightarrow> e \<notin> set xs \<and> distinct xs"
proof -
  have "mset (insert_ordered lt e xs) = mset (e # xs)"
    unfolding insert_ordered_def by (metis (no_types) mset_append mset.simps(2) takeWhile_dropWhile_id union_mset_add_mset_right)
  then have "distinct (insert_ordered lt e xs) \<longleftrightarrow> distinct (e # xs)"
    by (metis mset_eq_imp_distinct_iff)
  then show ?thesis by simp
qed

lemma first_max_correct:
  assumes "less_func lt" "first_max lt xs = Some m"
  shows "\<exists>as bs. xs = as @ m # bs \<and> (\<forall>a \<in> set as. lt a m) \<and> (\<forall>b \<in> set bs. \<not> lt m b)"
  using assms less_func.foldl_max [OF assms(1)]
  by (cases xs) (fastforce simp: first_max_def)+

text \<open>A comparison by a key in a linear order is such a comparison.\<close>

lemma less_func_key: "less_func (\<lambda>a b. key a < (key b :: 'k :: linorder))"
  by unfold_locales auto

section \<open>First-in first-out queues\<close>

text \<open>
  What a client of a queue relies on, whatever holds the elements (a linked list in shared
  memory, a ring buffer): \<open>rep s xs\<close> says that the state \<open>s\<close> holds \<open>xs\<close>, oldest first, and
  \<open>ok xs x\<close> that \<open>x\<close> may be added to a queue that holds \<open>xs\<close>.
\<close>

locale fifo_queue =
  fixes rep :: "'s \<Rightarrow> 'a list \<Rightarrow> bool"
    and ok :: "'a list \<Rightarrow> 'a \<Rightarrow> bool"
    and enq :: "'s \<Rightarrow> 'a \<Rightarrow> 's option"
    and deq :: "'s \<Rightarrow> ('s \<times> 'a) option"
  assumes enq: "rep s xs \<Longrightarrow> ok xs x \<Longrightarrow> \<exists>s'. enq s x = Some s' \<and> rep s' (xs @ [x])"
    and deq: "rep s (x # xs) \<Longrightarrow> \<exists>s'. deq s = Some (s', x) \<and> rep s' xs"
begin

lemma enq_all:
  "rep s xs \<Longrightarrow> \<forall>i < length ys. ok (xs @ take i ys) (ys ! i) \<Longrightarrow>
     \<exists>s'. foldl (\<lambda>s y. s \<bind> (\<lambda>s. enq s y)) (Some s) ys = Some s' \<and> rep s' (xs @ ys)"
proof (induction ys rule: rev_induct)
  case (snoc y ys)
  have "\<forall>i < length ys. ok (xs @ take i ys) (ys ! i)"
  proof (intro allI impI)
    fix i assume "i < length ys"
    with snoc.prems(2) [rule_format, of i] show "ok (xs @ take i ys) (ys ! i)"
      by (simp add: nth_append)
  qed
  from snoc.IH [OF snoc.prems(1) this] obtain s' where
    "foldl (\<lambda>s y. s \<bind> (\<lambda>s. enq s y)) (Some s) ys = Some s'" "rep s' (xs @ ys)"
    by blast
  moreover from snoc.prems(2) [rule_format, of "length ys"] have "ok (xs @ ys) y" by simp
  ultimately show ?case
    using enq by fastforce
qed simp

lemma deq_all:
  "rep s ys \<Longrightarrow>
     \<exists>s'. foldl (\<lambda>r _. do { (s, out) \<leftarrow> r; (s, y) \<leftarrow> deq s; Some (s, out @ [y]) }) (Some (s, out)) ys
         = Some (s', out @ ys) \<and> rep s' []"
proof (induction ys arbitrary: s out)
  case (Cons y ys)
  from deq [OF Cons.prems] obtain s1 where s1: "deq s = Some (s1, y)" "rep s1 ys"
    by blast
  from Cons.IH [OF s1(2), of "out @ [y]"] s1(1) show ?case by auto
qed simp

end

section \<open>Lists\<close>

lemma in_set_tlD: "x \<in> set (tl xs) \<Longrightarrow> x \<in> set xs"
  by (cases xs) auto

lemma hd_notin_tl: "distinct xs \<Longrightarrow> xs \<noteq> [] \<Longrightarrow> hd xs \<notin> set (tl xs)"
  by (cases xs) auto

lemma last_notin_butlast: "distinct xs \<Longrightarrow> xs \<noteq> [] \<Longrightarrow> last xs \<notin> set (butlast xs)"
  by (cases xs rule: rev_cases) auto

end
