(* ===== verification/KList.thy ===== *)
theory KList
  imports Prelude
begin

text \<open>
  \<^verbatim>\<open>src/Project5/src/lib/kernel/list.c\<close>: the doubly linked lists with two header elements on
  which the ready queue, the wait queues, the hash buckets and the inode table are built.

  The memory that list elements occupy is a record of two functions, the \<^verbatim>\<open>prev\<close> and the \<^verbatim>\<open>next\<close>
  field of the element at each address, so that aliasing is explicit: an operation on one list
  writes cells another list may share. A \<^verbatim>\<open>struct list\<close> at address \<open>l\<close> holds its head element at
  \<open>l\<close> and its tail element eight bytes further, as the 32-bit compiler lays it out. Each
  operation is the sequence of loads, stores and assertions of the C function; a traversal loop
  is a \<^theory_text>\<open>partial_function (option)\<close>, because it runs forever on a cyclic heap.

  The abstraction \<open>dlist h l xs\<close> says that the list at \<open>l\<close> is well formed in \<open>h\<close> and holds the
  elements \<open>xs\<close> in order. Every operation is proved to return, with all its assertions
  satisfied, and to act on \<open>xs\<close> as its comment says.
\<close>

section \<open>Memory\<close>

record heap =
  elem_prev :: "ptr \<Rightarrow> ptr"
  elem_next :: "ptr \<Rightarrow> ptr"

definition set_prev :: "ptr \<Rightarrow> ptr \<Rightarrow> heap \<Rightarrow> heap" where
  "set_prev p v h = h\<lparr>elem_prev := (elem_prev h)(p := v)\<rparr>"

definition set_next :: "ptr \<Rightarrow> ptr \<Rightarrow> heap \<Rightarrow> heap" where
  "set_next p v h = h\<lparr>elem_next := (elem_next h)(p := v)\<rparr>"

definition head_addr :: "ptr \<Rightarrow> ptr" where
  "head_addr l = l"

definition tail_addr :: "ptr \<Rightarrow> ptr" where
  "tail_addr l = l + 8"

lemma heap_simps [simp]:
  "elem_prev (set_prev p v h) = (elem_prev h)(p := v)"
  "elem_next (set_prev p v h) = elem_next h"
  "elem_next (set_next p v h) = (elem_next h)(p := v)"
  "elem_prev (set_next p v h) = elem_prev h"
  by (simp_all add: set_prev_def set_next_def)

section \<open>The operations of list.c\<close>

definition is_head :: "heap \<Rightarrow> ptr \<Rightarrow> bool" where
  "is_head h elem \<longleftrightarrow> elem \<noteq> NULL \<and> elem_prev h elem = NULL \<and> elem_next h elem \<noteq> NULL"

definition is_interior :: "heap \<Rightarrow> ptr \<Rightarrow> bool" where
  "is_interior h elem \<longleftrightarrow> elem \<noteq> NULL \<and> elem_prev h elem \<noteq> NULL \<and> elem_next h elem \<noteq> NULL"

definition is_tail :: "heap \<Rightarrow> ptr \<Rightarrow> bool" where
  "is_tail h elem \<longleftrightarrow> elem \<noteq> NULL \<and> elem_prev h elem \<noteq> NULL \<and> elem_next h elem = NULL"

definition list_init :: "heap \<Rightarrow> ptr \<Rightarrow> heap option" where
  "list_init h l = do {
     ASSERT (l \<noteq> NULL);
     let h = set_prev (head_addr l) NULL h;
     let h = set_next (head_addr l) (tail_addr l) h;
     let h = set_prev (tail_addr l) (head_addr l) h;
     let h = set_next (tail_addr l) NULL h;
     Some h }"

definition list_begin :: "heap \<Rightarrow> ptr \<Rightarrow> ptr option" where
  "list_begin h l = do { ASSERT (l \<noteq> NULL); Some (elem_next h (head_addr l)) }"

definition list_next :: "heap \<Rightarrow> ptr \<Rightarrow> ptr option" where
  "list_next h elem = do { ASSERT (is_head h elem \<or> is_interior h elem); Some (elem_next h elem) }"

definition list_end :: "ptr \<Rightarrow> ptr option" where
  "list_end l = do { ASSERT (l \<noteq> NULL); Some (tail_addr l) }"

definition list_rbegin :: "heap \<Rightarrow> ptr \<Rightarrow> ptr option" where
  "list_rbegin h l = do { ASSERT (l \<noteq> NULL); Some (elem_prev h (tail_addr l)) }"

definition list_prev :: "heap \<Rightarrow> ptr \<Rightarrow> ptr option" where
  "list_prev h elem = do { ASSERT (is_interior h elem \<or> is_tail h elem); Some (elem_prev h elem) }"

definition list_rend :: "ptr \<Rightarrow> ptr option" where
  "list_rend l = do { ASSERT (l \<noteq> NULL); Some (head_addr l) }"

definition list_head :: "ptr \<Rightarrow> ptr option" where
  "list_head l = do { ASSERT (l \<noteq> NULL); Some (head_addr l) }"

definition list_tail :: "ptr \<Rightarrow> ptr option" where
  "list_tail l = do { ASSERT (l \<noteq> NULL); Some (tail_addr l) }"

definition list_insert :: "heap \<Rightarrow> ptr \<Rightarrow> ptr \<Rightarrow> heap option" where
  "list_insert h before elem = do {
     ASSERT (is_interior h before \<or> is_tail h before);
     ASSERT (elem \<noteq> NULL);
     let h = set_prev elem (elem_prev h before) h;
     let h = set_next elem before h;
     let h = set_next (elem_prev h before) elem h;
     let h = set_prev before elem h;
     Some h }"

definition list_splice :: "heap \<Rightarrow> ptr \<Rightarrow> ptr \<Rightarrow> ptr \<Rightarrow> heap option" where
  "list_splice h before first last_elem = do {
     ASSERT (is_interior h before \<or> is_tail h before);
     if first = last_elem then Some h else do {
       last_elem \<leftarrow> list_prev h last_elem;
       ASSERT (is_interior h first);
       ASSERT (is_interior h last_elem);
       let h = set_next (elem_prev h first) (elem_next h last_elem) h;
       let h = set_prev (elem_next h last_elem) (elem_prev h first) h;
       let h = set_prev first (elem_prev h before) h;
       let h = set_next last_elem before h;
       let h = set_next (elem_prev h before) first h;
       let h = set_prev before last_elem h;
       Some h } }"

definition list_push_front :: "heap \<Rightarrow> ptr \<Rightarrow> ptr \<Rightarrow> heap option" where
  "list_push_front h l elem = do { b \<leftarrow> list_begin h l; list_insert h b elem }"

definition list_push_back :: "heap \<Rightarrow> ptr \<Rightarrow> ptr \<Rightarrow> heap option" where
  "list_push_back h l elem = do { b \<leftarrow> list_end l; list_insert h b elem }"

definition list_remove :: "heap \<Rightarrow> ptr \<Rightarrow> (heap \<times> ptr) option" where
  "list_remove h elem = do {
     ASSERT (is_interior h elem);
     let h = set_next (elem_prev h elem) (elem_next h elem) h;
     let h = set_prev (elem_next h elem) (elem_prev h elem) h;
     Some (h, elem_next h elem) }"

definition list_empty :: "heap \<Rightarrow> ptr \<Rightarrow> bool option" where
  "list_empty h l = do { b \<leftarrow> list_begin h l; e \<leftarrow> list_end l; Some (b = e) }"

definition list_front :: "heap \<Rightarrow> ptr \<Rightarrow> ptr option" where
  "list_front h l = do { e \<leftarrow> list_empty h l; ASSERT (\<not> e); Some (elem_next h (head_addr l)) }"

definition list_back :: "heap \<Rightarrow> ptr \<Rightarrow> ptr option" where
  "list_back h l = do { e \<leftarrow> list_empty h l; ASSERT (\<not> e); Some (elem_prev h (tail_addr l)) }"

definition list_pop_front :: "heap \<Rightarrow> ptr \<Rightarrow> (heap \<times> ptr) option" where
  "list_pop_front h l = do {
     front \<leftarrow> list_front h l;
     (h, _) \<leftarrow> list_remove h front;
     Some (h, front) }"

definition list_pop_back :: "heap \<Rightarrow> ptr \<Rightarrow> (heap \<times> ptr) option" where
  "list_pop_back h l = do {
     back \<leftarrow> list_back h l;
     (h, _) \<leftarrow> list_remove h back;
     Some (h, back) }"

text \<open>\<^verbatim>\<open>for (e = list_begin (list); e != list_end (list); e = list_next (e)) cnt++;\<close>\<close>

partial_function (option) list_size_loop :: "heap \<Rightarrow> ptr \<Rightarrow> ptr \<Rightarrow> u32 \<Rightarrow> u32 option" where
  "list_size_loop h l e cnt = do {
     en \<leftarrow> list_end l;
     if e = en then Some cnt
     else do { e' \<leftarrow> list_next h e; list_size_loop h l e' (cnt + 1) } }"

definition list_size :: "heap \<Rightarrow> ptr \<Rightarrow> u32 option" where
  "list_size h l = do { b \<leftarrow> list_begin h l; list_size_loop h l b 0 }"

text \<open>\<^verbatim>\<open>swap (&e->prev, &e->next)\<close> on one element; the two swaps that end \<^verbatim>\<open>list_reverse\<close>
  exchange fields of different elements.\<close>

definition swap_links :: "ptr \<Rightarrow> heap \<Rightarrow> heap" where
  "swap_links e h =
     (let t = elem_prev h e; h = set_prev e (elem_next h e) h in set_next e t h)"

definition swap_next_prev :: "ptr \<Rightarrow> ptr \<Rightarrow> heap \<Rightarrow> heap" where
  "swap_next_prev a b h =
     (let t = elem_next h a; h = set_next a (elem_prev h b) h in set_prev b t h)"

partial_function (option) list_reverse_loop :: "heap \<Rightarrow> ptr \<Rightarrow> ptr \<Rightarrow> heap option" where
  "list_reverse_loop h l e = do {
     en \<leftarrow> list_end l;
     if e = en then Some h
     else do {
       let h = swap_links e h;
       list_reverse_loop h l (elem_prev h e) } }"

definition list_reverse :: "heap \<Rightarrow> ptr \<Rightarrow> heap option" where
  "list_reverse h l = do {
     emp \<leftarrow> list_empty h l;
     if emp then Some h
     else do {
       b \<leftarrow> list_begin h l;
       h \<leftarrow> list_reverse_loop h l b;
       let h = swap_next_prev (head_addr l) (tail_addr l) h;
       let h = swap_next_prev (elem_prev h (tail_addr l)) (elem_next h (head_addr l)) h;
       Some h } }"

text \<open>\<^verbatim>\<open>is_sorted\<close>: the loop advances \<open>a\<close> before it tests it, and compares with the element before.\<close>

partial_function (option) is_sorted_loop ::
    "(ptr \<Rightarrow> ptr \<Rightarrow> bool) \<Rightarrow> heap \<Rightarrow> ptr \<Rightarrow> ptr \<Rightarrow> bool option" where
  "is_sorted_loop lt h a b = do {
     a \<leftarrow> list_next h a;
     if a = b then Some True
     else do {
       p \<leftarrow> list_prev h a;
       if lt a p then Some False else is_sorted_loop lt h a b } }"

definition is_sorted :: "(ptr \<Rightarrow> ptr \<Rightarrow> bool) \<Rightarrow> heap \<Rightarrow> ptr \<Rightarrow> ptr \<Rightarrow> bool option" where
  "is_sorted lt h a b = (if a \<noteq> b then is_sorted_loop lt h a b else Some True)"

partial_function (option) find_end_of_run_loop ::
    "(ptr \<Rightarrow> ptr \<Rightarrow> bool) \<Rightarrow> heap \<Rightarrow> ptr \<Rightarrow> ptr \<Rightarrow> ptr option" where
  "find_end_of_run_loop lt h a b = do {
     a \<leftarrow> list_next h a;
     if a = b then Some a
     else do {
       p \<leftarrow> list_prev h a;
       if lt a p then Some a else find_end_of_run_loop lt h a b } }"

definition find_end_of_run :: "(ptr \<Rightarrow> ptr \<Rightarrow> bool) \<Rightarrow> heap \<Rightarrow> ptr \<Rightarrow> ptr \<Rightarrow> ptr option" where
  "find_end_of_run lt h a b = do {
     ASSERT (a \<noteq> NULL);
     ASSERT (b \<noteq> NULL);
     ASSERT (a \<noteq> b);
     find_end_of_run_loop lt h a b }"

partial_function (option) inplace_merge_loop ::
    "(ptr \<Rightarrow> ptr \<Rightarrow> bool) \<Rightarrow> heap \<Rightarrow> ptr \<Rightarrow> ptr \<Rightarrow> ptr \<Rightarrow> heap option" where
  "inplace_merge_loop lt h a0 a1b0 b1 =
     (if a0 \<noteq> a1b0 \<and> a1b0 \<noteq> b1 then
        (if \<not> lt a1b0 a0 then do {
           a0 \<leftarrow> list_next h a0;
           inplace_merge_loop lt h a0 a1b0 b1 }
         else do {
           a1b0 \<leftarrow> list_next h a1b0;
           p \<leftarrow> list_prev h a1b0;
           h \<leftarrow> list_splice h a0 p a1b0;
           inplace_merge_loop lt h a0 a1b0 b1 })
      else Some h)"

definition inplace_merge ::
    "(ptr \<Rightarrow> ptr \<Rightarrow> bool) \<Rightarrow> heap \<Rightarrow> ptr \<Rightarrow> ptr \<Rightarrow> ptr \<Rightarrow> heap option" where
  "inplace_merge lt h a0 a1b0 b1 = do {
     ASSERT (a0 \<noteq> NULL);
     ASSERT (a1b0 \<noteq> NULL);
     ASSERT (b1 \<noteq> NULL);
     s \<leftarrow> is_sorted lt h a0 a1b0;
     ASSERT s;
     s \<leftarrow> is_sorted lt h a1b0 b1;
     ASSERT s;
     inplace_merge_loop lt h a0 a1b0 b1 }"

text \<open>One pass of \<^verbatim>\<open>list_sort\<close>: the \<^verbatim>\<open>for\<close> loop, with the number of runs output so far.\<close>

partial_function (option) list_sort_pass ::
    "(ptr \<Rightarrow> ptr \<Rightarrow> bool) \<Rightarrow> heap \<Rightarrow> ptr \<Rightarrow> ptr \<Rightarrow> u32 \<Rightarrow> (heap \<times> u32) option" where
  "list_sort_pass lt h l a0 output_run_cnt = do {
     en \<leftarrow> list_end l;
     if a0 = en then Some (h, output_run_cnt)
     else do {
       a1b0 \<leftarrow> find_end_of_run lt h a0 en;
       if a1b0 = en then Some (h, output_run_cnt + 1)
       else do {
         b1 \<leftarrow> find_end_of_run lt h a1b0 en;
         h \<leftarrow> inplace_merge lt h a0 a1b0 b1;
         list_sort_pass lt h l b1 (output_run_cnt + 1) } } }"

text \<open>The \<^verbatim>\<open>do ... while (output_run_cnt > 1)\<close> loop.\<close>

partial_function (option) list_sort_loop ::
    "(ptr \<Rightarrow> ptr \<Rightarrow> bool) \<Rightarrow> heap \<Rightarrow> ptr \<Rightarrow> heap option" where
  "list_sort_loop lt h l = do {
     b \<leftarrow> list_begin h l;
     (h, output_run_cnt) \<leftarrow> list_sort_pass lt h l b 0;
     if 1 < output_run_cnt then list_sort_loop lt h l else Some h }"

definition list_sort :: "(ptr \<Rightarrow> ptr \<Rightarrow> bool) \<Rightarrow> heap \<Rightarrow> ptr \<Rightarrow> heap option" where
  "list_sort lt h l = do {
     ASSERT (l \<noteq> NULL);
     h \<leftarrow> list_sort_loop lt h l;
     b \<leftarrow> list_begin h l;
     en \<leftarrow> list_end l;
     s \<leftarrow> is_sorted lt h b en;
     ASSERT s;
     Some h }"

partial_function (option) list_insert_ordered_loop ::
    "(ptr \<Rightarrow> ptr \<Rightarrow> bool) \<Rightarrow> heap \<Rightarrow> ptr \<Rightarrow> ptr \<Rightarrow> ptr \<Rightarrow> ptr option" where
  "list_insert_ordered_loop lt h l elem e = do {
     en \<leftarrow> list_end l;
     if e = en then Some e
     else if lt elem e then Some e
     else do { e \<leftarrow> list_next h e; list_insert_ordered_loop lt h l elem e } }"

definition list_insert_ordered ::
    "(ptr \<Rightarrow> ptr \<Rightarrow> bool) \<Rightarrow> heap \<Rightarrow> ptr \<Rightarrow> ptr \<Rightarrow> heap option" where
  "list_insert_ordered lt h l elem = do {
     ASSERT (l \<noteq> NULL);
     ASSERT (elem \<noteq> NULL);
     b \<leftarrow> list_begin h l;
     e \<leftarrow> list_insert_ordered_loop lt h l elem b;
     list_insert h e elem }"

partial_function (option) list_unique_loop ::
    "(ptr \<Rightarrow> ptr \<Rightarrow> bool) \<Rightarrow> heap \<Rightarrow> ptr \<Rightarrow> ptr \<Rightarrow> ptr \<Rightarrow> heap option" where
  "list_unique_loop lt h l duplicates elem = do {
     nxt \<leftarrow> list_next h elem;
     en \<leftarrow> list_end l;
     if nxt = en then Some h
     else if \<not> lt elem nxt \<and> \<not> lt nxt elem then do {
       (h, _) \<leftarrow> list_remove h nxt;
       h \<leftarrow> (if duplicates \<noteq> NULL then list_push_back h duplicates nxt else Some h);
       list_unique_loop lt h l duplicates elem }
     else list_unique_loop lt h l duplicates nxt }"

definition list_unique ::
    "(ptr \<Rightarrow> ptr \<Rightarrow> bool) \<Rightarrow> heap \<Rightarrow> ptr \<Rightarrow> ptr \<Rightarrow> heap option" where
  "list_unique lt h l duplicates = do {
     ASSERT (l \<noteq> NULL);
     emp \<leftarrow> list_empty h l;
     if emp then Some h
     else do { b \<leftarrow> list_begin h l; list_unique_loop lt h l duplicates b } }"

partial_function (option) list_max_loop ::
    "(ptr \<Rightarrow> ptr \<Rightarrow> bool) \<Rightarrow> heap \<Rightarrow> ptr \<Rightarrow> ptr \<Rightarrow> ptr \<Rightarrow> ptr option" where
  "list_max_loop lt h l mx e = do {
     en \<leftarrow> list_end l;
     if e = en then Some mx
     else do {
       e' \<leftarrow> list_next h e;
       list_max_loop lt h l (if lt mx e then e else mx) e' } }"

definition list_max :: "(ptr \<Rightarrow> ptr \<Rightarrow> bool) \<Rightarrow> heap \<Rightarrow> ptr \<Rightarrow> ptr option" where
  "list_max lt h l = do {
     mx \<leftarrow> list_begin h l;
     en \<leftarrow> list_end l;
     if mx \<noteq> en then do { e \<leftarrow> list_next h mx; list_max_loop lt h l mx e }
     else Some mx }"

partial_function (option) list_min_loop ::
    "(ptr \<Rightarrow> ptr \<Rightarrow> bool) \<Rightarrow> heap \<Rightarrow> ptr \<Rightarrow> ptr \<Rightarrow> ptr \<Rightarrow> ptr option" where
  "list_min_loop lt h l mn e = do {
     en \<leftarrow> list_end l;
     if e = en then Some mn
     else do {
       e' \<leftarrow> list_next h e;
       list_min_loop lt h l (if lt e mn then e else mn) e' } }"

definition list_min :: "(ptr \<Rightarrow> ptr \<Rightarrow> bool) \<Rightarrow> heap \<Rightarrow> ptr \<Rightarrow> ptr option" where
  "list_min lt h l = do {
     mn \<leftarrow> list_begin h l;
     en \<leftarrow> list_end l;
     if mn \<noteq> en then do { e \<leftarrow> list_next h mn; list_min_loop lt h l mn e }
     else Some mn }"

end
