(* ===== verification/KListRefine.thy ===== *)
theory KListRefine
  imports KList
begin

text \<open>
  The list operations refine operations on HOL lists: the abstraction \<open>dlist h l xs\<close>, its
  preservation by each operation, and the frame property that a list that shares no cell with
  the operation's footprint is unchanged.
\<close>

section \<open>Chains of linked cells\<close>

fun chain :: "heap \<Rightarrow> ptr list \<Rightarrow> bool" where
  "chain h (x # y # zs) \<longleftrightarrow> elem_next h x = y \<and> elem_prev h y = x \<and> chain h (y # zs)"
| "chain h _ \<longleftrightarrow> True"

lemma chain_append:
  "chain h (xs @ y # ys) \<longleftrightarrow> chain h (xs @ [y]) \<and> chain h (y # ys)"
proof (induction xs)
  case (Cons x xs)
  then show ?case by (cases xs) auto
qed simp

lemma chain_append_Cons2 [simp]:
  "chain h (xs @ y # z # zs) \<longleftrightarrow> chain h (xs @ [y]) \<and> chain h (y # z # zs)"
  by (rule chain_append)

lemma chain_set_next: "p \<notin> set (butlast xs) \<Longrightarrow> chain (set_next p v h) xs = chain h xs"
  by (induction h xs rule: chain.induct) auto

lemma chain_set_prev: "p \<notin> set (tl xs) \<Longrightarrow> chain (set_prev p v h) xs = chain h xs"
  by (induction h xs rule: chain.induct) auto

lemma chain_set_next_simps [simp]:
  "p \<notin> set xs \<Longrightarrow> chain (set_next p v h) xs = chain h xs"
  "p \<notin> set xs \<Longrightarrow> chain (set_next p v h) (xs @ [p]) = chain h (xs @ [p])"
  by (auto intro!: chain_set_next dest: in_set_butlastD)

lemma chain_set_prev_simps [simp]:
  "p \<notin> set xs \<Longrightarrow> chain (set_prev p v h) xs = chain h xs"
  "p \<notin> set xs \<Longrightarrow> chain (set_prev p v h) (p # xs) = chain h (p # xs)"
proof -
  assume "p \<notin> set xs"
  then have "p \<notin> set (tl xs)" by (cases xs) auto
  then show "chain (set_prev p v h) xs = chain h xs" by (rule chain_set_prev)
qed (simp add: chain_set_prev)

lemma chain_cong:
  assumes "\<And>x. x \<in> set (butlast xs) \<Longrightarrow> elem_next h' x = elem_next h x"
    and "\<And>x. x \<in> set (tl xs) \<Longrightarrow> elem_prev h' x = elem_prev h x"
  shows "chain h' xs = chain h xs"
  using assms
proof (induction h xs rule: chain.induct)
  case (1 h x y zs)
  have "chain h' (y # zs) = chain h (y # zs)"
    by (rule "1.IH") (use "1.prems" in auto)
  then show ?case
    using "1.prems"(1) [of x] "1.prems"(2) [of y] by simp
qed auto

lemma chain_snoc2:
  "chain h (xs @ [y, z]) \<longleftrightarrow> chain h (xs @ [y]) \<and> elem_next h y = z \<and> elem_prev h z = y"
  by (subst chain_append) simp

lemma chain_append2:
  assumes "xs \<noteq> []" "ys \<noteq> []"
  shows "chain h (xs @ ys) \<longleftrightarrow>
    chain h xs \<and> chain h ys \<and> elem_next h (last xs) = hd ys \<and> elem_prev h (hd ys) = last xs"
  using assms(1)
proof (induction xs rule: rev_induct)
  case (snoc x xs)
  show ?case
    using assms(2) chain_append [of h xs x ys] by (cases ys) auto
qed simp

lemma chain_rev:
  assumes "chain h xs" "\<And>x. x \<in> set (tl xs) \<Longrightarrow> elem_next h' x = elem_prev h x"
    and "\<And>x. x \<in> set (butlast xs) \<Longrightarrow> elem_prev h' x = elem_next h x"
  shows "chain h' (rev xs)"
  using assms
proof (induction h xs rule: chain.induct)
  case (1 h x y zs)
  from "1.prems" have "chain h' (rev (y # zs))"
    by (intro "1.IH") auto
  then show ?case
    using "1.prems"(1) "1.prems"(2) [of y] "1.prems"(3) [of x] chain_snoc2 [of h' "rev zs" y x]
    by simp
qed auto

section \<open>Well-formed lists\<close>

text \<open>The cells of a list with elements \<open>xs\<close>: its head, its elements and its tail.\<close>

abbreviation cells :: "ptr \<Rightarrow> ptr list \<Rightarrow> ptr list" where
  "cells l xs \<equiv> head_addr l # xs @ [tail_addr l]"

definition dlist :: "heap \<Rightarrow> ptr \<Rightarrow> ptr list \<Rightarrow> bool" where
  "dlist h l xs \<longleftrightarrow> l \<noteq> NULL \<and> distinct (NULL # cells l xs) \<and> chain h (cells l xs)
     \<and> elem_prev h (head_addr l) = NULL \<and> elem_next h (tail_addr l) = NULL"

text \<open>
  The cell at which an iteration over \<open>ys\<close> stands (the tail after the last element), and the
  cell before it when \<open>xs\<close> have been passed (the head before the first element).
\<close>

definition cur :: "ptr \<Rightarrow> ptr list \<Rightarrow> ptr" where
  "cur l ys = hd (ys @ [tail_addr l])"

definition pre :: "ptr \<Rightarrow> ptr list \<Rightarrow> ptr" where
  "pre l xs = last (head_addr l # xs)"

lemma cur_simps [simp]: "cur l [] = tail_addr l" "cur l (y # ys) = y"
  by (simp_all add: cur_def)

lemma pre_simps [simp]: "pre l [] = head_addr l" "pre l (xs @ [x]) = x" "pre l [x] = x"
  by (simp_all add: pre_def)

lemma cells_split:
  obtains A B where "head_addr l # xs = A @ [pre l xs]" "ys @ [tail_addr l] = cur l ys # B"
proof
  show "head_addr l # xs = butlast (head_addr l # xs) @ [pre l xs]"
    unfolding pre_def by (rule append_butlast_last_id [symmetric]) simp
  show "ys @ [tail_addr l] = cur l ys # tl (ys @ [tail_addr l])"
    by (simp add: cur_def)
qed

lemma dlist_nonnull: "dlist h l xs \<Longrightarrow> l \<noteq> NULL"
  by (simp add: dlist_def)

text \<open>\<open>same_outside S h h'\<close>: the operation wrote no cell outside \<open>S\<close>.\<close>

definition same_outside :: "ptr set \<Rightarrow> heap \<Rightarrow> heap \<Rightarrow> bool" where
  "same_outside S h h' \<longleftrightarrow>
     (\<forall>c. c \<notin> S \<longrightarrow> elem_next h' c = elem_next h c \<and> elem_prev h' c = elem_prev h c)"

lemma same_outside_refl [simp]: "same_outside S h h"
  by (simp add: same_outside_def)

lemma same_outside_trans:
  "same_outside S h h' \<Longrightarrow> same_outside T h' h'' \<Longrightarrow> S \<union> T \<subseteq> U \<Longrightarrow> same_outside U h h''"
  unfolding same_outside_def by (metis UnCI subsetD)

lemma dlist_frame:
  assumes "dlist h l xs" "same_outside S h h'" "S \<inter> set (cells l xs) = {}"
  shows "dlist h' l xs"
proof -
  have "elem_next h' c = elem_next h c \<and> elem_prev h' c = elem_prev h c" if "c \<in> set (cells l xs)" for c
    using assms(2,3) that unfolding same_outside_def by blast
  then show ?thesis
    using assms(1) chain_cong [of "cells l xs" h' h] by (auto simp: dlist_def dest: in_set_butlastD)
qed

lemma dlist_distinct: "dlist h l xs \<Longrightarrow> distinct xs \<and> NULL \<notin> set xs \<and> l \<notin> set xs \<and> tail_addr l \<notin> set xs"
  by (auto simp: dlist_def head_addr_def)

section \<open>The three pointer surgeries\<close>

lemma chain_link_in:
  assumes "chain h (A @ p # q # B)" "distinct (A @ p # q # B)" "e \<notin> set (A @ p # q # B)"
  shows "chain (set_prev q e (set_next p e (set_next e q (set_prev e p h)))) (A @ p # e # q # B)"
  using assms
  by auto

lemma chain_link_out:
  assumes "chain h (A @ p # e # q # B)" "distinct (A @ p # e # q # B)"
  shows "chain (set_prev q p (set_next p q h)) (A @ p # q # B)"
  using assms
  by auto

section \<open>Where an element stands\<close>

text \<open>Its links, and the iterator assertions it passes.\<close>

lemma dlist_cur:
  assumes "dlist h l (xs @ ys)"
  shows "elem_prev h (cur l ys) = pre l xs" and "elem_next h (pre l xs) = cur l ys"
    and "pre l xs \<noteq> NULL" and "cur l ys \<noteq> NULL"
proof -
  obtain A B where "head_addr l # xs = A @ [pre l xs]" "ys @ [tail_addr l] = cur l ys # B"
    by (rule cells_split)
  then have c: "cells l (xs @ ys) = A @ pre l xs # cur l ys # B"
    by (metis append.assoc append_Cons append_Nil)
  then show "elem_prev h (cur l ys) = pre l xs" "elem_next h (pre l xs) = cur l ys"
    "pre l xs \<noteq> NULL" "cur l ys \<noteq> NULL"
    using assms unfolding dlist_def c by auto
qed

lemma dlist_elem:
  assumes "dlist h l (xs @ y # ys)"
  shows "elem_next h y = cur l ys" and "elem_prev h y = pre l xs"
    and "is_interior h y" and "list_next h y = Some (cur l ys)"
    and "list_prev h y = Some (pre l xs)"
proof -
  have "dlist h l ((xs @ [y]) @ ys)"
    using assms by simp
  note right = dlist_cur [OF this] and left = dlist_cur [OF assms]
  show "elem_next h y = cur l ys" "elem_prev h y = pre l xs" "is_interior h y"
    "list_next h y = Some (cur l ys)" "list_prev h y = Some (pre l xs)"
    using left right by (simp_all add: is_interior_def list_next_def list_prev_def)
qed

lemma dlist_tail:
  assumes "dlist h l xs"
  shows "is_tail h (tail_addr l)" and "list_prev h (tail_addr l) = Some (pre l xs)"
  using dlist_cur [of h l xs "[]"] assms
  by (auto simp: is_tail_def list_prev_def dlist_def)

lemma dlist_cur_ok:
  assumes "dlist h l (xs @ ys)"
  shows "is_interior h (cur l ys) \<or> is_tail h (cur l ys)"
    and "list_prev h (cur l ys) = Some (pre l xs)"
  using assms dlist_elem [of h l xs "hd ys" "tl ys"] dlist_tail [of h l xs]
  by (cases ys; simp)+

lemma dlist_begin:
  assumes "dlist h l xs"
  shows "list_begin h l = Some (cur l xs)" and "list_end l = Some (tail_addr l)"
    and "elem_next h (head_addr l) = cur l xs" and "elem_prev h (tail_addr l) = pre l xs"
    and "list_empty h l = Some (xs = [])"
proof -
  have "elem_next h (head_addr l) = cur l xs"
    using dlist_cur(2) [of h l "[]" xs] assms by simp
  moreover have "cur l xs = tail_addr l \<longleftrightarrow> xs = []"
    using dlist_distinct [OF assms] by (cases xs) auto
  ultimately show "list_begin h l = Some (cur l xs)" "list_end l = Some (tail_addr l)"
    "elem_next h (head_addr l) = cur l xs" "list_empty h l = Some (xs = [])"
    using dlist_nonnull [OF assms] by (auto simp: list_begin_def list_end_def list_empty_def)
  show "elem_prev h (tail_addr l) = pre l xs"
    using dlist_cur(1) [of h l xs "[]"] assms by simp
qed

lemma cur_neq_tail: "dlist h l (xs @ y # ys) \<Longrightarrow> y \<noteq> tail_addr l"
  using dlist_distinct by fastforce

lemma dlist_ends:
  assumes "dlist h l (xs @ ys)"
  shows "head_addr l \<noteq> cur l ys" and "tail_addr l \<noteq> pre l xs"
  by (use assms in \<open>cases ys; auto simp: dlist_def\<close>,
      use assms in \<open>cases xs rule: rev_cases; auto simp: dlist_def\<close>)

section \<open>Each operation\<close>

lemma list_init_dlist: "l \<noteq> NULL \<Longrightarrow> \<exists>h'. list_init h l = Some h' \<and> dlist h' l []"
  by (auto simp: list_init_def dlist_def head_addr_def tail_addr_def Let_def)

lemma list_insert_dlist:
  assumes "dlist h l (xs @ ys)" "e \<notin> set (NULL # cells l (xs @ ys))"
  shows "\<exists>h'. list_insert h (cur l ys) e = Some h' \<and> dlist h' l (xs @ e # ys)
     \<and> same_outside (set (e # cells l (xs @ ys))) h h'"
proof -
  obtain A B where A: "head_addr l # xs = A @ [pre l xs]" and B: "ys @ [tail_addr l] = cur l ys # B"
    by (rule cells_split)
  then have c: "cells l (xs @ ys) = A @ pre l xs # cur l ys # B"
    and c': "cells l (xs @ e # ys) = A @ pre l xs # e # cur l ys # B"
    by (metis append.assoc append_Cons append_Nil)+
  let ?h = "set_prev (cur l ys) e (set_next (pre l xs) e (set_next e (cur l ys) (set_prev e (pre l xs) h)))"
  have d: "distinct (NULL # A @ pre l xs # cur l ys # B)" "chain h (A @ pre l xs # cur l ys # B)"
    "e \<notin> set (NULL # A @ pre l xs # cur l ys # B)"
    using assms unfolding dlist_def c by auto
  have "head_addr l \<noteq> cur l ys" "tail_addr l \<noteq> pre l xs"
    by (rule dlist_ends [OF assms(1)])+
  then have ends: "elem_prev ?h (head_addr l) = NULL" "elem_next ?h (tail_addr l) = NULL"
    using assms unfolding dlist_def by auto
  have "list_insert h (cur l ys) e = Some ?h"
    using dlist_cur [OF assms(1)] dlist_cur_ok(1) [OF assms(1)] d(3)
    by (auto simp: list_insert_def Let_def c)
  moreover have "dlist ?h l (xs @ e # ys)"
    using ends chain_link_in [OF d(2)] d assms(1)
    unfolding dlist_def c' by auto
  moreover have "same_outside (set (e # cells l (xs @ ys))) h ?h"
    unfolding same_outside_def c by auto
  ultimately show ?thesis by blast
qed

lemma list_remove_dlist:
  assumes "dlist h l (xs @ e # ys)"
  shows "\<exists>h'. list_remove h e = Some (h', cur l ys) \<and> dlist h' l (xs @ ys)
     \<and> same_outside (set (cells l (xs @ ys))) h h'"
proof -
  obtain A B where A: "head_addr l # xs = A @ [pre l xs]" and B: "ys @ [tail_addr l] = cur l ys # B"
    by (rule cells_split)
  then have c: "cells l (xs @ e # ys) = A @ pre l xs # e # cur l ys # B"
    and c': "cells l (xs @ ys) = A @ pre l xs # cur l ys # B"
    by (metis append.assoc append_Cons append_Nil)+
  let ?h = "set_prev (cur l ys) (pre l xs) (set_next (pre l xs) (cur l ys) h)"
  have d: "distinct (NULL # A @ pre l xs # e # cur l ys # B)" "chain h (A @ pre l xs # e # cur l ys # B)"
    using assms unfolding dlist_def c by auto
  have "head_addr l \<noteq> cur l ys" "tail_addr l \<noteq> pre l xs"
    using dlist_ends(1) [of h l "xs @ [e]" ys] dlist_ends(2) [OF assms] assms by simp_all
  then have ends: "elem_prev ?h (head_addr l) = NULL" "elem_next ?h (tail_addr l) = NULL"
    using assms unfolding dlist_def by auto
  have "pre l xs \<noteq> e" "cur l ys \<noteq> e"
    using d(1) by auto
  then have "list_remove h e = Some (?h, cur l ys)"
    using dlist_elem [OF assms] by (simp add: list_remove_def Let_def)
  moreover have "dlist ?h l (xs @ ys)"
    using ends chain_link_out [OF d(2)] d assms(1) unfolding dlist_def c' by auto
  moreover have "same_outside (set (cells l (xs @ ys))) h ?h"
    unfolding same_outside_def c' by auto
  ultimately show ?thesis by blast
qed

lemma list_push_back_dlist:
  assumes "dlist h l xs" "e \<notin> set (NULL # cells l xs)"
  shows "\<exists>h'. list_push_back h l e = Some h' \<and> dlist h' l (xs @ [e])
     \<and> same_outside (set (e # cells l xs)) h h'"
  using list_insert_dlist [of h l xs "[]" e] assms dlist_begin(2) [OF assms(1)]
  by (simp add: list_push_back_def)

lemma list_push_front_dlist:
  assumes "dlist h l xs" "e \<notin> set (NULL # cells l xs)"
  shows "\<exists>h'. list_push_front h l e = Some h' \<and> dlist h' l (e # xs)
     \<and> same_outside (set (e # cells l xs)) h h'"
  using list_insert_dlist [of h l "[]" xs e] assms dlist_begin(1) [OF assms(1)]
  by (simp add: list_push_front_def)

lemma list_pop_front_dlist:
  assumes "dlist h l (x # xs)"
  shows "\<exists>h'. list_pop_front h l = Some (h', x) \<and> dlist h' l xs
     \<and> same_outside (set (cells l xs)) h h'"
  using list_remove_dlist [of h l "[]" x xs] assms dlist_begin [OF assms]
  by (auto simp: list_pop_front_def list_front_def)

lemma list_pop_back_dlist:
  assumes "dlist h l (xs @ [x])"
  shows "\<exists>h'. list_pop_back h l = Some (h', x) \<and> dlist h' l xs
     \<and> same_outside (set (cells l xs)) h h'"
  using list_remove_dlist [of h l xs x "[]"] assms dlist_begin [OF assms]
  by (auto simp: list_pop_back_def list_back_def)

text \<open>Popping an empty list stops the machine: the assertion of \<^verbatim>\<open>list_front\<close> fails.\<close>

lemma list_pop_empty:
  assumes "dlist h l []"
  shows "list_pop_front h l = None" "list_pop_back h l = None"
  using dlist_begin(5) [OF assms]
  by (simp_all add: list_pop_front_def list_pop_back_def list_front_def list_back_def)

lemma list_size_loop_dlist:
  "dlist h l (xs @ ys) \<Longrightarrow> list_size_loop h l (cur l ys) cnt = Some (cnt + of_nat (length ys))"
proof (induction ys arbitrary: xs cnt)
  case Nil
  then show ?case
    by (simp add: list_size_loop.simps dlist_begin(2))
next
  case (Cons y ys)
  from Cons.prems have "dlist h l ((xs @ [y]) @ ys)" by simp
  from Cons.IH [OF this] show ?case
    using dlist_elem(4) [OF Cons.prems] dlist_begin(2) [OF Cons.prems] cur_neq_tail [OF Cons.prems]
    by (subst list_size_loop.simps) (simp add: algebra_simps)
qed

lemma list_size_dlist: "dlist h l xs \<Longrightarrow> list_size h l = Some (of_nat (length xs))"
  using list_size_loop_dlist [of h l "[]" xs 0] dlist_begin(1) by (simp add: list_size_def)

text \<open>Reversal: the loop exchanges the links of every element it passes.\<close>

lemma list_reverse_loop_dlist:
  assumes "dlist h0 l (xs @ ys)"
    and "\<And>y. y \<in> set ys \<Longrightarrow> elem_next h y = elem_next h0 y \<and> elem_prev h y = elem_prev h0 y"
  shows "\<exists>h'. list_reverse_loop h l (cur l ys) = Some h'
    \<and> (\<forall>c. elem_next h' c = (if c \<in> set ys then elem_prev h c else elem_next h c))
    \<and> (\<forall>c. elem_prev h' c = (if c \<in> set ys then elem_next h c else elem_prev h c))"
  using assms
proof (induction ys arbitrary: xs h)
  case Nil
  then show ?case
    by (simp add: list_reverse_loop.simps dlist_begin(2))
next
  case (Cons y ys)
  let ?h = "swap_links y h"
  have y: "y \<notin> set ys"
    using dlist_distinct [OF Cons.prems(1)] by simp
  have sw: "elem_next ?h = (elem_next h)(y := elem_prev h y)"
    "elem_prev ?h = (elem_prev h)(y := elem_next h y)"
    by (simp_all add: swap_links_def Let_def)
  from Cons.prems have "dlist h0 l ((xs @ [y]) @ ys)" by simp
  moreover have "elem_next ?h z = elem_next h0 z \<and> elem_prev ?h z = elem_prev h0 z" if "z \<in> set ys" for z
    using Cons.prems(2) [of z] that y by (auto simp: sw)
  ultimately obtain h' where h': "list_reverse_loop ?h l (cur l ys) = Some h'"
    "\<forall>c. elem_next h' c = (if c \<in> set ys then elem_prev ?h c else elem_next ?h c)"
    "\<forall>c. elem_prev h' c = (if c \<in> set ys then elem_next ?h c else elem_prev ?h c)"
    using Cons.IH by blast
  have "elem_prev ?h y = cur l ys"
    using Cons.prems(2) [of y] dlist_elem(1) [OF Cons.prems(1)] by (simp add: sw)
  then have "list_reverse_loop h l (cur l (y # ys)) = Some h'"
    using h'(1) dlist_begin(2) [OF Cons.prems(1)] cur_neq_tail [OF Cons.prems(1)]
    by (subst list_reverse_loop.simps) (simp add: Let_def)
  then show ?case
    using h'(2,3) y by (auto simp: sw)
qed

lemma list_reverse_dlist:
  assumes "dlist h l xs"
  shows "\<exists>h'. list_reverse h l = Some h' \<and> dlist h' l (rev xs) \<and> same_outside (set (cells l xs)) h h'"
proof (cases "xs = []")
  case True
  then show ?thesis
    using assms dlist_begin(5) [OF assms] by (simp add: list_reverse_def)
next
  case False
  let ?f = "hd xs" and ?b = "last xs"
  obtain h1 where h1: "list_reverse_loop h l (cur l xs) = Some h1"
    "\<And>c. elem_next h1 c = (if c \<in> set xs then elem_prev h c else elem_next h c)"
    "\<And>c. elem_prev h1 c = (if c \<in> set xs then elem_next h c else elem_prev h c)"
    using list_reverse_loop_dlist [of h l "[]" xs h] assms by auto
  have c: "cur l xs = ?f" "pre l xs = ?b"
    using False by (cases xs; simp add: pre_def)+
  have d: "distinct xs" "head_addr l \<notin> set xs" "tail_addr l \<notin> set xs" "head_addr l \<noteq> tail_addr l"
    using assms by (auto simp: dlist_def)
  have ends: "elem_prev h ?f = head_addr l" "elem_next h ?b = tail_addr l"
    "elem_next h (head_addr l) = ?f" "elem_prev h (tail_addr l) = ?b"
    using dlist_cur(1) [of h l "[]" xs] dlist_cur(2) [of h l xs "[]"] dlist_begin [OF assms] assms c
    by simp_all
  have fb: "?f \<in> set xs" "?b \<in> set xs" "?f \<notin> set (tl xs)" "?b \<notin> set (butlast xs)"
    using False d(1) by (simp_all add: hd_notin_tl last_notin_butlast)
  define h2 where "h2 = swap_next_prev (head_addr l) (tail_addr l) h1"
  define h3 where "h3 = swap_next_prev (elem_prev h2 (tail_addr l)) (elem_next h2 (head_addr l)) h2"
  have n3: "elem_next h3 = (elem_next h1)(head_addr l := ?b, ?f := tail_addr l)"
    and p3: "elem_prev h3 = (elem_prev h1)(tail_addr l := ?f, ?b := head_addr l)"
    using d fb ends unfolding h3_def h2_def
    by (auto simp: swap_next_prev_def Let_def h1(2,3) fun_eq_iff)
  have run: "list_reverse h l = Some h3"
    using h1(1) False c dlist_begin [OF assms]
    by (simp add: list_reverse_def h2_def h3_def Let_def)
  have "chain h xs"
    using assms chain_append2 [of xs "[tail_addr l]" h] chain_append2 [of "[head_addr l]" "xs @ [tail_addr l]" h] False
    by (auto simp: dlist_def)
  then have "chain h3 (rev xs)"
  proof (rule chain_rev)
    show "elem_next h3 x = elem_prev h x" if "x \<in> set (tl xs)" for x
      using that fb(3) d(2) False by (auto simp: n3 h1(2) dest: list.set_sel(2))
    show "elem_prev h3 x = elem_next h x" if "x \<in> set (butlast xs)" for x
      using that fb(4) d(3) by (auto simp: p3 h1(3) dest: in_set_butlastD)
  qed
  moreover have "elem_next h3 (head_addr l) = ?b" "elem_prev h3 ?b = head_addr l"
    "elem_next h3 ?f = tail_addr l" "elem_prev h3 (tail_addr l) = ?f"
    using d fb by (auto simp: n3 p3)
  ultimately have "chain h3 (cells l (rev xs))"
    using False chain_append2 [of "rev xs" "[tail_addr l]" h3] chain_append2 [of "[head_addr l]" "rev xs @ [tail_addr l]" h3]
    by (simp add: hd_rev last_rev)
  moreover have "elem_prev h3 (head_addr l) = NULL" "elem_next h3 (tail_addr l) = NULL"
    using assms d fb by (auto simp: n3 p3 h1(2,3) dlist_def)
  ultimately have "dlist h3 l (rev xs)"
    using assms by (simp add: dlist_def)
  moreover have "same_outside (set (cells l xs)) h h3"
    using fb by (auto simp: same_outside_def n3 p3 h1(2,3))
  ultimately show ?thesis using run by blast
qed

end
