(* ===== verification/KListSort.thy ===== *)
theory KListSort
  imports KListRefine
begin

text \<open>
  The ordered operations of \<^verbatim>\<open>list.c\<close>: \<^verbatim>\<open>list_sort\<close> (a natural merge sort that splices runs in
  place), \<^verbatim>\<open>list_insert_ordered\<close>, \<^verbatim>\<open>list_unique\<close>, \<^verbatim>\<open>list_max\<close> and \<^verbatim>\<open>list_min\<close>. Each loop over the
  heap is shown equal to a recursive function on the abstract list, and the ordering properties
  are proved of those functions inside the comparison contract \<open>less_func\<close>.
\<close>

section \<open>Splicing\<close>

lemma splice_chain_within:
  assumes "chain h (A @ [p] @ as @ bs @ q # B)" "distinct (A @ [p] @ as @ bs @ q # B)"
    and "as \<noteq> []" "bs \<noteq> []"
    and "h' = set_prev (hd as) (last bs) (set_next p (hd bs) (set_next (last bs) (hd as)
            (set_prev (hd bs) p (set_prev q (last as) (set_next (last as) q h)))))"
  shows "chain h' (A @ [p] @ bs @ as @ q # B)"
proof -
  let ?A = "A @ [p]" and ?B = "q # B"
  have c: "chain h ?A" "chain h as" "chain h bs" "chain h ?B"
    using assms(1,3,4) chain_append2 [of ?A "as @ bs @ ?B" h] chain_append2 [of as "bs @ ?B" h]
      chain_append2 [of bs ?B h] by simp_all
  define a y b z where ends: "a = hd as" "y = last as" "b = hd bs" "z = last bs"
  have mem: "a \<notin> set (tl as)" "y \<notin> set (butlast as)" "b \<notin> set (tl bs)" "z \<notin> set (butlast bs)"
    "a \<in> set as" "y \<in> set as" "b \<in> set bs" "z \<in> set bs"
    using assms(2-4) by (simp_all add: ends hd_notin_tl last_notin_butlast)
  have n: "elem_next h' = (elem_next h)(y := q, z := a, p := b)"
    and p: "elem_prev h' = (elem_prev h)(q := y, b := p, a := z)"
    unfolding assms(5) by (simp_all add: ends)
  have out: "a \<notin> set A" "y \<notin> set A" "b \<notin> set A" "z \<notin> set A" "q \<notin> set A" "p \<notin> set A"
    "b \<notin> set as" "z \<notin> set as" "q \<notin> set as" "p \<notin> set as"
    "a \<notin> set bs" "y \<notin> set bs" "q \<notin> set bs" "p \<notin> set bs"
    "a \<notin> set B" "y \<notin> set B" "b \<notin> set B" "z \<notin> set B" "q \<notin> set B" "p \<notin> set B" "p \<noteq> q"
    using assms(2) mem(5-8) by auto
  note inD = in_set_butlastD in_set_tlD
  have "chain h' ?A = chain h ?A" "chain h' bs = chain h bs"
    by (intro chain_cong; use mem out in \<open>auto simp: n p dest: inD dest!: in_set_tlD [of _ "A @ [p]"]\<close>)+
  moreover have "chain h' as = chain h as" "chain h' ?B = chain h ?B"
    by (intro chain_cong; use mem out in \<open>auto simp: n p dest: inD split: if_splits\<close>)+
  moreover have "elem_next h' p = b" "elem_prev h' b = p" "elem_next h' z = a" "elem_prev h' a = z"
    "elem_next h' y = q" "elem_prev h' q = y"
    unfolding n p using assms(2) mem by auto
  ultimately show ?thesis
    using c assms(3,4) chain_append2 [of ?A "bs @ as @ ?B" h'] chain_append2 [of bs "as @ ?B" h']
      chain_append2 [of as ?B h'] by (simp add: ends)
qed

text \<open>Moving the elements \<open>bs\<close> of a list in front of the elements \<open>as\<close> that precede them.\<close>

lemma list_splice_dlist:
  assumes "dlist h l (xs @ as @ bs @ ys)" "as \<noteq> []" "bs \<noteq> []"
  shows "\<exists>h'. list_splice h (hd as) (hd bs) (cur l ys) = Some h' \<and> dlist h' l (xs @ bs @ as @ ys)
     \<and> same_outside (set (cells l (xs @ as @ bs @ ys))) h h'"
proof -
  obtain A B where A: "head_addr l # xs = A @ [pre l xs]" and B: "ys @ [tail_addr l] = cur l ys # B"
    by (rule cells_split)
  let ?p = "pre l xs" and ?q = "cur l ys"
  from A B have c: "cells l (xs @ as @ bs @ ys) = A @ [?p] @ as @ bs @ ?q # B"
    and c': "cells l (xs @ bs @ as @ ys) = A @ [?p] @ bs @ as @ ?q # B"
    by (metis append.assoc append_Cons)+
  have d: "distinct (A @ [?p] @ as @ bs @ ?q # B)" "NULL \<notin> set (A @ [?p] @ as @ bs @ ?q # B)"
    and ch: "chain h (A @ [?p] @ as @ bs @ ?q # B)"
    using assms(1) unfolding dlist_def c by auto
  define h' where "h' = set_prev (hd as) (last bs) (set_next ?p (hd bs) (set_next (last bs) (hd as)
            (set_prev (hd bs) ?p (set_prev ?q (last as) (set_next (last as) ?q h)))))"
  have mem: "hd as \<in> set as" "last as \<in> set as" "hd bs \<in> set bs" "last bs \<in> set bs"
    using assms(2,3) by simp_all
  have split: "dlist h l (xs @ hd as # tl as @ bs @ ys)"
    "dlist h l ((xs @ as) @ hd bs # tl bs @ ys)"
    "dlist h l ((xs @ as @ butlast bs) @ last bs # ys)"
    using assms by (simp_all flip: append_Cons append_assoc) (metis append.assoc append_butlast_last_id append_Cons append_Nil)
  have pre: "pre l (xs @ as) = last as" "pre l (xs @ as @ bs) = last bs"
    using assms(2,3) by (simp_all add: pre_def)
  have e: "elem_prev h (hd bs) = last as" "is_interior h (hd bs)" "elem_prev h (hd as) = ?p" "is_interior h (hd as)"
    "elem_next h (last bs) = ?q" "is_interior h (last bs)" "list_prev h ?q = Some (last bs)"
    using dlist_elem [OF split(1)] dlist_elem [OF split(2)] dlist_elem [OF split(3)] pre
      dlist_cur_ok(2) [of h l "xs @ as @ bs" ys] assms(1) by simp_all
  have ne: "hd bs \<noteq> ?q" "?q \<noteq> hd as" "hd as \<noteq> hd bs" "last as \<noteq> last bs" "last as \<noteq> hd bs" "?q \<noteq> hd bs" "last as \<noteq> ?q"
    using d(1) mem by auto
  have "list_splice h (hd as) (hd bs) ?q = Some h'"
    using e ne by (simp add: list_splice_def Let_def h'_def)
  moreover have "chain h' (A @ [?p] @ bs @ as @ ?q # B)"
    by (rule splice_chain_within [OF ch d(1) assms(2,3) h'_def])
  moreover have "head_addr l \<noteq> ?q" "head_addr l \<notin> set (as @ bs)" "tail_addr l \<notin> set (as @ bs)" "tail_addr l \<noteq> ?p"
    using dlist_ends(1) [of h l "xs @ as @ bs" ys] dlist_ends(2) [OF assms(1)] assms(1)
    by (auto simp: dlist_def)
  then have "elem_prev h' (head_addr l) = NULL" "elem_next h' (tail_addr l) = NULL"
    using assms(1) mem unfolding dlist_def h'_def by auto
  ultimately have "dlist h' l (xs @ bs @ as @ ys)"
    using assms(1) d unfolding dlist_def c' by auto
  moreover have "same_outside (set (cells l (xs @ as @ bs @ ys))) h h'"
    using mem unfolding same_outside_def h'_def c by auto
  ultimately show ?thesis
    using \<open>list_splice h (hd as) (hd bs) ?q = Some h'\<close> by blast
qed

section \<open>Reference functions on lists\<close>

fun run_of :: "('a \<Rightarrow> 'a \<Rightarrow> bool) \<Rightarrow> 'a list \<Rightarrow> 'a list" where
  "run_of lt (x # y # zs) = (if lt y x then [x] else x # run_of lt (y # zs))"
| "run_of lt xs = xs"

abbreviation after_run :: "('a \<Rightarrow> 'a \<Rightarrow> bool) \<Rightarrow> 'a list \<Rightarrow> 'a list" where
  "after_run lt xs \<equiv> drop (length (run_of lt xs)) xs"

lemma run_of_append: "run_of lt xs @ after_run lt xs = xs"
  by (induction lt xs rule: run_of.induct) auto

lemma run_of_eq_Nil [simp]: "run_of lt xs = [] \<longleftrightarrow> xs = []"
  by (cases "(lt, xs)" rule: run_of.cases) auto

lemma length_after_run [simp]: "xs \<noteq> [] \<Longrightarrow> length (after_run lt xs) < length xs"
  by (cases xs) auto

lemma successively_run_of: "successively (\<lambda>a b. \<not> lt b a) (run_of lt xs)"
proof (induction lt xs rule: run_of.induct)
  case (1 lt x y zs)
  then show ?case by (cases zs) auto
qed auto

fun merge_runs :: "('a \<Rightarrow> 'a \<Rightarrow> bool) \<Rightarrow> 'a list \<Rightarrow> 'a list \<Rightarrow> 'a list" where
  "merge_runs lt [] ys = ys"
| "merge_runs lt xs [] = xs"
| "merge_runs lt (x # xs) (y # ys) =
     (if \<not> lt y x then x # merge_runs lt xs (y # ys) else y # merge_runs lt (x # xs) ys)"

lemma merge_runs_Nil2 [simp]: "merge_runs lt xs [] = xs"
  by (cases xs) auto

lemma mset_merge_runs [simp]: "mset (merge_runs lt xs ys) = mset xs + mset ys"
  by (induction lt xs ys rule: merge_runs.induct) auto

lemma set_merge_runs [simp]: "set (merge_runs lt xs ys) = set xs \<union> set ys"
  by (metis mset_merge_runs set_mset_mset set_mset_union)

lemma length_merge_runs [simp]: "length (merge_runs lt xs ys) = length xs + length ys"
  by (metis mset_merge_runs size_mset size_union)

text \<open>One pass: merge the first two runs, then go on behind them; and the number of runs output.\<close>

function merge_pass :: "('a \<Rightarrow> 'a \<Rightarrow> bool) \<Rightarrow> 'a list \<Rightarrow> 'a list \<times> nat" where
  "merge_pass lt xs =
     (if xs = [] then ([], 0)
      else let ys = after_run lt xs in
        if ys = [] then (xs, 1)
        else let (zs, n) = merge_pass lt (after_run lt ys)
             in (merge_runs lt (run_of lt xs) (run_of lt ys) @ zs, Suc n))"
  by pat_completeness auto
termination
proof (relation "measure (\<lambda>(lt, xs). length xs)")
  fix lt :: "'a \<Rightarrow> 'a \<Rightarrow> bool" and xs ys :: "'a list"
  assume "xs \<noteq> []" "ys = after_run lt xs" "ys \<noteq> []"
  then show "((lt, after_run lt ys), lt, xs) \<in> measure (\<lambda>(lt, xs). length xs)"
    using length_after_run [of ys lt] length_after_run [of xs lt] by simp
qed simp

declare merge_pass.simps [simp del]

lemma merge_pass_cases [case_names Nil One Two]:
  assumes "xs = [] \<Longrightarrow> merge_pass lt xs = ([], 0) \<Longrightarrow> P"
    and "xs \<noteq> [] \<Longrightarrow> after_run lt xs = [] \<Longrightarrow> merge_pass lt xs = (xs, 1) \<Longrightarrow> P"
    and "\<And>ys zs n. xs \<noteq> [] \<Longrightarrow> ys = after_run lt xs \<Longrightarrow> ys \<noteq> [] \<Longrightarrow>
        merge_pass lt (after_run lt ys) = (zs, n) \<Longrightarrow>
        merge_pass lt xs = (merge_runs lt (run_of lt xs) (run_of lt ys) @ zs, Suc n) \<Longrightarrow> P"
  shows P
  using assms(1,2) assms(3) [of "after_run lt xs"] merge_pass.simps [of lt xs]
  by (cases "xs = []"; cases "after_run lt xs = []"; cases "merge_pass lt (after_run lt (after_run lt xs))")
     (simp_all add: Let_def)

section \<open>The loops over the heap compute the reference functions\<close>

lemma cur_neq: "dlist h l (xs @ y # ys @ zs) \<Longrightarrow> y \<noteq> cur l zs"
  by (cases zs) (auto simp: dlist_def)

lemma cur_append_eq: "dlist h l (xs @ as @ zs) \<Longrightarrow> cur l (as @ zs) = cur l zs \<longleftrightarrow> as = []"
  using cur_neq by (cases as) fastforce+

text \<open>One step of a forward iteration from \<open>y\<close>.\<close>

lemma dlist_step:
  assumes "dlist h l (xs @ y # z # zs)"
  shows "list_next h y = Some z" "list_prev h z = Some y" "z \<noteq> tail_addr l"
proof -
  have "dlist h l ((xs @ [y]) @ z # zs)"
    using assms by simp
  from dlist_elem(5) [OF this] cur_neq_tail [OF this] dlist_elem(4) [OF assms]
  show "list_next h y = Some z" "list_prev h z = Some y" "z \<noteq> tail_addr l"
    by simp_all
qed

lemma find_end_of_run_loop_dlist:
  "dlist h l (xs @ y # ys) \<Longrightarrow>
     find_end_of_run_loop lt h y (tail_addr l) = Some (cur l (after_run lt (y # ys)))"
proof (induction ys arbitrary: xs y)
  case Nil
  then show ?case
    using dlist_elem(4) [OF Nil] by (simp add: find_end_of_run_loop.simps)
next
  case (Cons z zs)
  have "dlist h l ((xs @ [y]) @ z # zs)"
    using Cons.prems by simp
  from Cons.IH [OF this] show ?case
    using dlist_step [OF Cons.prems] by (subst find_end_of_run_loop.simps) simp
qed

lemma find_end_of_run_dlist:
  assumes "dlist h l (xs @ ys)" "ys \<noteq> []"
  shows "find_end_of_run lt h (cur l ys) (tail_addr l) = Some (cur l (after_run lt ys))"
proof -
  obtain y ys' where ys: "ys = y # ys'"
    using assms(2) by (cases ys) auto
  with assms(1) have d: "dlist h l (xs @ y # ys')" by simp
  have "y \<noteq> NULL" "tail_addr l \<noteq> NULL"
    using dlist_cur(4) [OF d] by (auto simp: tail_addr_def)
  then show ?thesis
    using find_end_of_run_loop_dlist [OF d] cur_neq_tail [OF d] by (simp add: ys find_end_of_run_def)
qed

lemma is_sorted_loop_dlist:
  "dlist h l (xs @ y # ys @ zs) \<Longrightarrow>
     is_sorted_loop lt h y (cur l zs) = Some (successively (\<lambda>a b. \<not> lt b a) (y # ys))"
proof (induction ys arbitrary: xs y)
  case Nil
  then show ?case
    using dlist_elem(4) [of h l xs y zs] by (simp add: is_sorted_loop.simps)
next
  case (Cons z ys)
  have d: "dlist h l ((xs @ [y]) @ z # ys @ zs)"
    using Cons.prems by simp
  from Cons.IH [OF this] show ?case
    using dlist_step [of h l xs y z "ys @ zs"] cur_neq [OF d] Cons.prems
    by (subst is_sorted_loop.simps) auto
qed

lemma is_sorted_dlist:
  assumes "dlist h l (xs @ as @ zs)"
  shows "is_sorted lt h (cur l (as @ zs)) (cur l zs) = Some (successively (\<lambda>a b. \<not> lt b a) as)"
  using assms is_sorted_loop_dlist [of h l xs "hd as" "tl as" zs lt] cur_append_eq [OF assms]
  by (cases as) (auto simp: is_sorted_def)

text \<open>The in-place merge: \<open>P\<close> is already merged, \<open>as\<close> and \<open>bs\<close> remain, \<open>zs\<close> lies behind them.\<close>

lemma inplace_merge_loop_dlist:
  "dlist h l (P @ as @ bs @ zs) \<Longrightarrow>
     \<exists>h'. inplace_merge_loop lt h (cur l (as @ bs @ zs)) (cur l (bs @ zs)) (cur l zs) = Some h'
       \<and> dlist h' l (P @ merge_runs lt as bs @ zs)
       \<and> same_outside (set (cells l (P @ as @ bs @ zs))) h h'"
proof (induction lt as bs arbitrary: P h rule: merge_runs.induct)
  case (1 lt ys)
  then show ?case by (auto simp: inplace_merge_loop.simps)
next
  case (2 lt x xs)
  then show ?case by (auto simp: inplace_merge_loop.simps)
next
  case (3 lt x xs y ys)
  have ne: "x \<noteq> y" "y \<noteq> cur l zs"
    using "3.prems" cur_neq [of h l "P @ x # xs" y ys zs] by (auto simp: dlist_def)
  show ?case
  proof (cases "lt y x")
    case False
    have "dlist h l ((P @ [x]) @ xs @ (y # ys) @ zs)"
      using "3.prems" by simp
    from "3.IH"(1) [OF False this] show ?thesis
      using False ne dlist_elem(4) [of h l P x "xs @ y # ys @ zs"] "3.prems"
      by (subst inplace_merge_loop.simps) (simp add: ac_simps insert_commute)
  next
    case True
    obtain h1 where h1: "list_splice h x y (cur l (ys @ zs)) = Some h1"
      "dlist h1 l ((P @ [y]) @ (x # xs) @ ys @ zs)"
      "same_outside (set (cells l (P @ (x # xs) @ (y # ys) @ zs))) h h1"
      using list_splice_dlist [of h l P "x # xs" "[y]" "ys @ zs"] "3.prems" by auto
    from "3.IH"(2) [OF _ h1(2)] True obtain h2 where
      h2: "inplace_merge_loop lt h1 x (cur l (ys @ zs)) (cur l zs) = Some h2"
      "dlist h2 l (P @ (y # merge_runs lt (x # xs) ys) @ zs)"
      "same_outside (set (cells l ((P @ [y]) @ (x # xs) @ ys @ zs))) h1 h2"
      by auto
    have d: "dlist h l ((P @ x # xs) @ y # ys @ zs)" "dlist h l ((P @ x # xs @ [y]) @ ys @ zs)"
      using "3.prems" by simp_all
    have "list_next h y = Some (cur l (ys @ zs))" "list_prev h (cur l (ys @ zs)) = Some y"
      using dlist_elem(4) [OF d(1)] dlist_cur_ok(2) [OF d(2)]
      by (simp_all add: pre_def)
    then have "inplace_merge_loop lt h (cur l ((x # xs) @ (y # ys) @ zs)) (cur l ((y # ys) @ zs)) (cur l zs) = Some h2"
      using True ne h1(1) h2(1) by (subst inplace_merge_loop.simps) simp
    moreover have "same_outside (set (cells l (P @ (x # xs) @ (y # ys) @ zs))) h h2"
      by (rule same_outside_trans [OF h1(3) h2(3)]) auto
    ultimately show ?thesis
      using h2(2) True by auto
  qed
qed

lemma inplace_merge_dlist:
  assumes "dlist h l (P @ as @ bs @ zs)"
    and "successively (\<lambda>a b. \<not> lt b a) as" "successively (\<lambda>a b. \<not> lt b a) bs"
  shows "\<exists>h'. inplace_merge lt h (cur l (as @ bs @ zs)) (cur l (bs @ zs)) (cur l zs) = Some h'
       \<and> dlist h' l (P @ merge_runs lt as bs @ zs)
       \<and> same_outside (set (cells l (P @ as @ bs @ zs))) h h'"
proof -
  have "cur l (as @ bs @ zs) \<noteq> NULL" "cur l (bs @ zs) \<noteq> NULL" "cur l zs \<noteq> NULL"
    using dlist_cur(4) [of h l P "as @ bs @ zs"] dlist_cur(4) [of h l "P @ as" "bs @ zs"]
      dlist_cur(4) [of h l "P @ as @ bs" zs] assms(1) by simp_all
  then show ?thesis
    using inplace_merge_loop_dlist [OF assms(1), of lt] is_sorted_dlist [of h l P as "bs @ zs" lt]
      is_sorted_dlist [of h l "P @ as" bs zs lt] assms
    by (simp add: inplace_merge_def)
qed

lemma mset_merge_pass [simp]: "mset (fst (merge_pass lt xs)) = mset xs"
proof (induction lt xs rule: merge_pass.induct)
  case (1 lt xs)
  show ?case
  proof (cases rule: merge_pass_cases [of xs lt])
    case (Two ys zs n)
    with 1 [OF Two(1) Two(2) Two(3)] have "mset zs = mset (after_run lt ys)"
      by simp
    moreover have "mset xs = mset (run_of lt xs) + mset (run_of lt ys) + mset (after_run lt ys)"
      using run_of_append [of lt xs] run_of_append [of lt ys] Two(2)
      by (metis mset_append union_assoc)
    ultimately show ?thesis using Two by simp
  qed simp_all
qed

lemma length_merge_pass [simp]: "length (fst (merge_pass lt xs)) = length xs"
  by (metis mset_merge_pass size_mset)

lemma set_merge_pass [simp]: "set (fst (merge_pass lt xs)) = set xs"
  by (metis mset_merge_pass set_mset_mset)

lemma list_sort_pass_dlist:
  "dlist h l (P @ xs) \<Longrightarrow>
     \<exists>h'. list_sort_pass lt h l (cur l xs) cnt = Some (h', cnt + of_nat (snd (merge_pass lt xs)))
       \<and> dlist h' l (P @ fst (merge_pass lt xs)) \<and> same_outside (set (cells l (P @ xs))) h h'"
proof (induction lt xs arbitrary: P h cnt rule: merge_pass.induct)
  case (1 lt xs)
  note b = dlist_begin(2) [OF "1.prems"]
  show ?case
  proof (cases rule: merge_pass_cases [of xs lt])
    case Nil
    then show ?thesis
      using b "1.prems" by (subst list_sort_pass.simps) simp
  next
    case One
    then show ?thesis
      using b "1.prems" cur_append_eq [of h l P xs "[]"] find_end_of_run_dlist [OF "1.prems", of lt]
      by (subst list_sort_pass.simps) simp
  next
    case (Two ys zs n)
    let ?r = "run_of lt xs" and ?s = "run_of lt ys" and ?z = "after_run lt ys"
    have xs: "?r @ ?s @ ?z = xs" "?s @ ?z = ys" "?r @ ys = xs"
      using run_of_append [of lt xs] run_of_append [of lt ys] Two(2) by simp_all
    have d: "dlist h l (P @ ?r @ ?s @ ?z)" "dlist h l ((P @ ?r) @ ys)"
      using "1.prems" xs by simp_all
    obtain h1 where h1: "inplace_merge lt h (cur l xs) (cur l ys) (cur l ?z) = Some h1"
      "dlist h1 l ((P @ merge_runs lt ?r ?s) @ ?z)" "same_outside (set (cells l (P @ xs))) h h1"
      using inplace_merge_dlist [OF d(1) successively_run_of successively_run_of] xs by auto
    from Two(2,3) "1.IH" [OF Two(1) Two(2) Two(3) h1(2), of "cnt + 1"] Two(4) obtain h2 where
      h2: "list_sort_pass lt h1 l (cur l ?z) (cnt + 1) = Some (h2, cnt + 1 + of_nat n)"
      "dlist h2 l (P @ merge_runs lt ?r ?s @ zs)"
      "same_outside (set (cells l ((P @ merge_runs lt ?r ?s) @ ?z))) h1 h2"
      by auto
    have ne: "cur l xs \<noteq> tail_addr l" "cur l ys \<noteq> tail_addr l"
      using cur_append_eq [of h l P xs "[]"] cur_append_eq [of h l "P @ ?r" ys "[]"] "1.prems" d(2) Two
      by simp_all
    have run: "find_end_of_run lt h (cur l xs) (tail_addr l) = Some (cur l ys)"
      "find_end_of_run lt h (cur l ys) (tail_addr l) = Some (cur l ?z)"
      using find_end_of_run_dlist [OF "1.prems" Two(1)] find_end_of_run_dlist [OF d(2) Two(3)] Two(2)
      by simp_all
    have "list_sort_pass lt h l (cur l xs) cnt = Some (h2, cnt + of_nat (Suc n))"
      using b run ne h1(1) h2(1) by (subst list_sort_pass.simps) (simp add: add.assoc)
    moreover have "set (cells l ((P @ merge_runs lt ?r ?s) @ ?z)) = set (cells l (P @ xs))"
      using xs(1) by (metis (no_types, lifting) Un_assoc set_append set_merge_runs list.simps(15) append_assoc)
    then have "same_outside (set (cells l (P @ xs))) h h2"
      using same_outside_trans [OF h1(3) h2(3)] by auto
    ultimately show ?thesis
      using h2(2) Two(5) by auto
  qed
qed

section \<open>Order, stability and termination\<close>

fun nruns :: "('a \<Rightarrow> 'a \<Rightarrow> bool) \<Rightarrow> 'a list \<Rightarrow> nat" where
  "nruns lt [] = 0"
| "nruns lt [x] = 1"
| "nruns lt (x # y # zs) = (if lt y x then 1 else 0) + nruns lt (y # zs)"

lemma nruns_after_run: "xs \<noteq> [] \<Longrightarrow> nruns lt xs = Suc (nruns lt (after_run lt xs))"
  by (induction lt xs rule: nruns.induct) auto

lemma snd_merge_pass: "snd (merge_pass lt xs) = (nruns lt xs + 1) div 2"
proof (induction lt xs rule: merge_pass.induct)
  case (1 lt xs)
  show ?case
  proof (cases rule: merge_pass_cases [of xs lt])
    case (Two ys zs n)
    with 1 [OF Two(1) Two(2) Two(3)] show ?thesis
      using nruns_after_run [of xs lt] nruns_after_run [of ys lt] by simp
  qed (simp_all add: nruns_after_run)
qed

lemma nruns_append: "nruns lt (xs @ ys) \<le> nruns lt xs + nruns lt ys"
proof (induction lt xs rule: nruns.induct)
  case (2 lt x)
  then show ?case by (cases ys) auto
qed auto

lemma successively_nruns: "successively (\<lambda>a b. \<not> lt b a) xs \<longleftrightarrow> nruns lt xs \<le> 1"
proof (induction lt xs rule: nruns.induct)
  case (3 lt x y zs)
  have "0 < nruns lt (y # zs)"
    using nruns_after_run [of "y # zs" lt] by simp
  with 3 show ?case by auto
qed auto

context less_func
begin

lemma successively_sorted: "successively (\<lambda>a b. \<not> less b a) xs \<longleftrightarrow> sorted_wrt (\<lambda>a b. \<not> less b a) xs"
  using le_trans by (intro successively_conv_sorted_wrt) (auto simp: transp_on_def)

lemma sorted_merge_runs:
  "sorted_wrt (\<lambda>a b. \<not> less b a) xs \<Longrightarrow> sorted_wrt (\<lambda>a b. \<not> less b a) ys \<Longrightarrow>
     sorted_wrt (\<lambda>a b. \<not> less b a) (merge_runs less xs ys)"
proof (induction xs arbitrary: ys)
  case (Cons x xs)
  note IH = Cons.IH and prems = Cons.prems
  from Cons.prems(2) show ?case
  proof (induction ys)
    case (Cons y ys)
    show ?case
    proof (cases "less y x")
      case False
      have "\<not> less z x" if "z \<in> set xs \<union> set (y # ys)" for z
        using that False prems(1) Cons.prems le_trans by auto
      then show ?thesis
        using False IH [of "y # ys"] prems(1) Cons.prems by auto
    next
      case True
      have "\<not> less z y" if "z \<in> set (x # xs) \<union> set ys" for z
      proof (cases "z \<in> set ys")
        case False
        with that prems(1) have "\<not> less z x" by auto
        with True have "less y z" by (rule less_le_trans)
        then show ?thesis by (rule asym)
      qed (use Cons.prems in simp)
      then show ?thesis
        using True Cons.IH Cons.prems by auto
    qed
  qed (use prems in simp)
qed simp

text \<open>Merging two sorted runs keeps equivalent elements in their order (stability).\<close>

lemma filter_merge_runs:
  assumes "sorted_wrt (\<lambda>a b. \<not> less b a) xs"
  shows "filter (\<lambda>b. \<not> less k b \<and> \<not> less b k) (merge_runs less xs ys) =
     filter (\<lambda>b. \<not> less k b \<and> \<not> less b k) xs @ filter (\<lambda>b. \<not> less k b \<and> \<not> less b k) ys"
  using assms
proof (induction xs arbitrary: ys)
  case (Cons x xs)
  note IH = Cons.IH and prems = Cons.prems
  show ?case
  proof (induction ys)
    case (Cons y ys)
    have "filter (\<lambda>b. \<not> less k b \<and> \<not> less b k) (x # xs) = []"
      if "less y x" "\<not> less y k"
    proof (unfold filter_empty_conv, intro ballI notI, elim conjE)
      fix z
      assume z: "z \<in> set (x # xs)" "\<not> less k z"
      with prems have "\<not> less z x" by auto
      with that(1) have "less y z" by (rule less_le_trans)
      then show False using le_trans [OF z(2) that(2)] by simp
    qed
    then show ?case
      using IH [of "y # ys"] prems Cons by (auto split: if_splits)
  qed simp
qed simp

lemma sorted_run_of: "sorted_wrt (\<lambda>a b. \<not> less b a) (run_of less xs)"
  using successively_run_of successively_sorted by blast

lemma nruns_sorted: "sorted_wrt (\<lambda>a b. \<not> less b a) xs \<longleftrightarrow> nruns less xs \<le> 1"
  using successively_nruns successively_sorted by blast

lemma nruns_merge_pass: "nruns less (fst (merge_pass less xs)) \<le> snd (merge_pass less xs)"
proof (induction "length xs" arbitrary: xs rule: less_induct)
  case less
  show ?case
  proof (cases rule: merge_pass_cases [of xs less])
    case One
    then show ?thesis by (simp add: nruns_after_run)
  next
    case (Two ys zs n)
    have "length (after_run less ys) < length xs"
      using length_after_run [of xs less] length_after_run [of ys less] Two by simp
    from less [OF this] have "nruns less zs \<le> n"
      using Two(4) by simp
    moreover have "nruns less (merge_runs less (run_of less xs) (run_of less ys)) \<le> 1"
      using nruns_sorted sorted_merge_runs sorted_run_of by blast
    ultimately show ?thesis
      using Two(5) nruns_append [of less "merge_runs less (run_of less xs) (run_of less ys)" zs] by simp
  qed simp
qed

lemma filter_merge_pass:
  "filter (\<lambda>b. \<not> less k b \<and> \<not> less b k) (fst (merge_pass less xs)) =
     filter (\<lambda>b. \<not> less k b \<and> \<not> less b k) xs"
proof (induction "length xs" arbitrary: xs rule: less_induct)
  case less
  let ?f = "filter (\<lambda>b. \<not> less k b \<and> \<not> less b k)"
  show ?case
  proof (cases rule: merge_pass_cases [of xs less])
    case (Two ys zs n)
    have "length (after_run less ys) < length xs"
      using length_after_run [of xs less] length_after_run [of ys less] Two by simp
    from less [OF this] have "?f zs = ?f (after_run less ys)"
      using Two(4) by simp
    moreover have "xs = run_of less xs @ run_of less ys @ after_run less ys"
      using run_of_append [of less xs] run_of_append [of less ys] Two(2) by simp
    then have "?f xs = ?f (run_of less xs) @ ?f (run_of less ys) @ ?f (after_run less ys)"
      by (metis filter_append)
    ultimately show ?thesis
      using Two(5) filter_merge_runs [OF sorted_run_of] by simp
  qed simp_all
qed

end

text \<open>
  A comparison of list elements reads the structures around the elements, so it is a comparison
  of their addresses.
\<close>

locale elem_less = less_func less for less :: "ptr \<Rightarrow> ptr \<Rightarrow> bool"
begin

lemma list_sort_loop_dlist:
  assumes "dlist h l xs" "length xs < 2 ^ 32"
  shows "\<exists>h' ys. list_sort_loop less h l = Some h' \<and> dlist h' l ys \<and> mset ys = mset xs
     \<and> sorted_wrt (\<lambda>a b. \<not> less b a) ys
     \<and> (\<forall>k. filter (\<lambda>b. \<not> less k b \<and> \<not> less b k) ys = filter (\<lambda>b. \<not> less k b \<and> \<not> less b k) xs)
     \<and> same_outside (set (cells l xs)) h h'"
  using assms
proof (induction "nruns less xs" arbitrary: h xs rule: less_induct)
  case less
  let ?ys = "fst (merge_pass less xs)" and ?n = "snd (merge_pass less xs)"
  obtain h1 where h1: "list_sort_pass less h l (cur l xs) 0 = Some (h1, of_nat ?n)"
    "dlist h1 l ?ys" "same_outside (set (cells l xs)) h h1"
    using list_sort_pass_dlist [of h l "[]" xs less 0] less.prems(1) by auto
  have "?n \<le> length xs"
    unfolding snd_merge_pass by (induction less xs rule: nruns.induct) auto
  then have cnt: "1 < (of_nat ?n :: u32) \<longleftrightarrow> 1 < ?n"
    using less.prems(2) by (simp add: word_less_nat_alt unat_of_nat take_bit_nat_eq_self)
  note unfold = list_sort_loop.simps [of less h l] and b = dlist_begin(1) [OF less.prems(1)]
  show ?case
  proof (cases "1 < ?n")
    case False
    then have "sorted_wrt (\<lambda>a b. \<not> less b a) ?ys"
      using nruns_merge_pass [of xs] nruns_sorted by simp
    then show ?thesis
      using False h1 b cnt by (auto simp: unfold filter_merge_pass)
  next
    case True
    then have "nruns less ?ys < nruns less xs"
      using nruns_merge_pass [of xs] by (simp add: snd_merge_pass)
    from less.hyps [OF this h1(2)] less.prems(2) obtain h2 ys where h2: "list_sort_loop less h1 l = Some h2" "dlist h2 l ys"
      "mset ys = mset xs" "sorted_wrt (\<lambda>a b. \<not> less b a) ys"
      "\<forall>k. filter (\<lambda>b. \<not> less k b \<and> \<not> less b k) ys = filter (\<lambda>b. \<not> less k b \<and> \<not> less b k) xs"
      "same_outside (set (cells l ?ys)) h1 h2"
      by (auto simp: filter_merge_pass)
    have "same_outside (set (cells l xs)) h h2"
      by (rule same_outside_trans [OF h1(3) h2(6)]) simp
    then show ?thesis
      using True h1(1) h2 b cnt by (auto simp: unfold)
  qed
qed

theorem list_sort_dlist:
  assumes "dlist h l xs" "length xs < 2 ^ 32"
  shows "\<exists>h' ys. list_sort less h l = Some h' \<and> dlist h' l ys \<and> mset ys = mset xs
     \<and> sorted_wrt (\<lambda>a b. \<not> less b a) ys
     \<and> (\<forall>k. filter (\<lambda>b. \<not> less k b \<and> \<not> less b k) ys = filter (\<lambda>b. \<not> less k b \<and> \<not> less b k) xs)
     \<and> same_outside (set (cells l xs)) h h'"
proof -
  from list_sort_loop_dlist [OF assms] obtain h' ys where
    h': "list_sort_loop less h l = Some h'" "dlist h' l ys" "mset ys = mset xs"
      "sorted_wrt (\<lambda>a b. \<not> less b a) ys"
      "\<forall>k. filter (\<lambda>b. \<not> less k b \<and> \<not> less b k) ys = filter (\<lambda>b. \<not> less k b \<and> \<not> less b k) xs"
      "same_outside (set (cells l xs)) h h'"
    by blast
  have "is_sorted less h' (cur l ys) (tail_addr l) = Some True"
    using is_sorted_dlist [of h' l "[]" ys "[]" less] h'(2,4) successively_sorted by simp
  then have "list_sort less h l = Some h'"
    using h'(1) dlist_begin [OF h'(2)] dlist_nonnull [OF assms(1)] by (simp add: list_sort_def)
  with h' show ?thesis by blast
qed

end

end
