(* ===== verification/KListOrdered.thy ===== *)
theory KListOrdered
  imports KListSort
begin

text \<open>
  The remaining ordered operations of \<^verbatim>\<open>list.c\<close>: \<^verbatim>\<open>list_insert_ordered\<close>, \<^verbatim>\<open>list_max\<close>,
  \<^verbatim>\<open>list_min\<close> and \<^verbatim>\<open>list_unique\<close>.
\<close>

section \<open>Ordered insertion\<close>

lemma list_insert_ordered_loop_dlist:
  "dlist h l (xs @ ys) \<Longrightarrow>
     list_insert_ordered_loop lt h l e (cur l ys) = Some (cur l (dropWhile (\<lambda>x. \<not> lt e x) ys))"
proof (induction ys arbitrary: xs)
  case Nil
  then show ?case
    by (simp add: list_insert_ordered_loop.simps dlist_begin(2))
next
  case (Cons y ys)
  have "dlist h l ((xs @ [y]) @ ys)"
    using Cons.prems by simp
  from Cons.IH [OF this] show ?case
    using dlist_elem(4) [OF Cons.prems] dlist_begin(2) [OF Cons.prems] cur_neq_tail [OF Cons.prems]
    by (subst list_insert_ordered_loop.simps) simp
qed

lemma list_insert_ordered_dlist:
  assumes "dlist h l xs" "e \<notin> set (NULL # cells l xs)"
  shows "\<exists>h'. list_insert_ordered lt h l e = Some h'
     \<and> dlist h' l (takeWhile (\<lambda>x. \<not> lt e x) xs @ e # dropWhile (\<lambda>x. \<not> lt e x) xs)
     \<and> same_outside (set (e # cells l xs)) h h'"
  using list_insert_dlist [of h l "takeWhile (\<lambda>x. \<not> lt e x) xs" "dropWhile (\<lambda>x. \<not> lt e x) xs" e]
    list_insert_ordered_loop_dlist [of h l "[]" xs lt e] assms dlist_begin(1) [OF assms(1)]
    dlist_nonnull [OF assms(1)]
  by (auto simp: list_insert_ordered_def)

section \<open>Extrema\<close>

lemma list_max_loop_dlist:
  "dlist h l (xs @ ys) \<Longrightarrow>
     list_max_loop lt h l mx (cur l ys) = Some (foldl (\<lambda>m e. if lt m e then e else m) mx ys)"
proof (induction ys arbitrary: xs mx)
  case Nil
  then show ?case
    by (simp add: list_max_loop.simps dlist_begin(2))
next
  case (Cons y ys)
  have "dlist h l ((xs @ [y]) @ ys)"
    using Cons.prems by simp
  from Cons.IH [OF this] show ?case
    using dlist_elem(4) [OF Cons.prems] dlist_begin(2) [OF Cons.prems] cur_neq_tail [OF Cons.prems]
    by (subst list_max_loop.simps) simp
qed

lemma list_min_loop_dlist:
  "dlist h l (xs @ ys) \<Longrightarrow>
     list_min_loop lt h l mn (cur l ys) = Some (foldl (\<lambda>m e. if lt e m then e else m) mn ys)"
proof (induction ys arbitrary: xs mn)
  case Nil
  then show ?case
    by (simp add: list_min_loop.simps dlist_begin(2))
next
  case (Cons y ys)
  have "dlist h l ((xs @ [y]) @ ys)"
    using Cons.prems by simp
  from Cons.IH [OF this] show ?case
    using dlist_elem(4) [OF Cons.prems] dlist_begin(2) [OF Cons.prems] cur_neq_tail [OF Cons.prems]
    by (subst list_min_loop.simps) simp
qed

lemma list_max_dlist:
  assumes "dlist h l xs"
  shows "list_max lt h l = Some (case xs of [] \<Rightarrow> tail_addr l
     | x # ys \<Rightarrow> foldl (\<lambda>m e. if lt m e then e else m) x ys)"
  using dlist_begin [OF assms] list_max_loop_dlist [of h l "[hd xs]" "tl xs" lt] assms
    cur_neq_tail [of h l "[]" "hd xs" "tl xs"] dlist_elem(4) [of h l "[]" "hd xs" "tl xs"]
  by (cases xs) (simp_all add: list_max_def)

lemma list_min_dlist:
  assumes "dlist h l xs"
  shows "list_min lt h l = Some (case xs of [] \<Rightarrow> tail_addr l
     | x # ys \<Rightarrow> foldl (\<lambda>m e. if lt e m then e else m) x ys)"
  using dlist_begin [OF assms] list_min_loop_dlist [of h l "[hd xs]" "tl xs" lt] assms
    cur_neq_tail [of h l "[]" "hd xs" "tl xs"] dlist_elem(4) [of h l "[]" "hd xs" "tl xs"]
  by (cases xs) (simp_all add: list_min_def)

section \<open>Removing adjacent duplicates\<close>

text \<open>The elements \<^verbatim>\<open>list_unique\<close> keeps after \<open>x\<close>, and those it takes out.\<close>

fun uniq_from :: "('a \<Rightarrow> 'a \<Rightarrow> bool) \<Rightarrow> 'a \<Rightarrow> 'a list \<Rightarrow> 'a list" where
  "uniq_from lt x [] = []"
| "uniq_from lt x (y # ys) =
     (if \<not> lt x y \<and> \<not> lt y x then uniq_from lt x ys else y # uniq_from lt y ys)"

fun dups_from :: "('a \<Rightarrow> 'a \<Rightarrow> bool) \<Rightarrow> 'a \<Rightarrow> 'a list \<Rightarrow> 'a list" where
  "dups_from lt x [] = []"
| "dups_from lt x (y # ys) =
     (if \<not> lt x y \<and> \<not> lt y x then y # dups_from lt x ys else dups_from lt y ys)"

lemma mset_uniq_dups: "mset (uniq_from lt x ys) + mset (dups_from lt x ys) = mset ys"
  by (induction lt x ys rule: uniq_from.induct) auto

text \<open>The list and the list of duplicates share no cell.\<close>

definition separate :: "ptr \<Rightarrow> ptr list \<Rightarrow> ptr \<Rightarrow> ptr list \<Rightarrow> bool" where
  "separate l xs d ds \<longleftrightarrow> set (cells l xs) \<inter> set (cells d ds) = {}"

lemma list_unique_loop_null:
  "dlist h l (P @ x # ys) \<Longrightarrow>
     \<exists>h'. list_unique_loop lt h l NULL x = Some h' \<and> dlist h' l (P @ x # uniq_from lt x ys)"
proof (induction lt x ys arbitrary: h P rule: uniq_from.induct)
  case (1 lt x)
  then show ?case
    using dlist_elem(4) [OF 1] dlist_begin(2) [OF 1]
    by (auto simp: list_unique_loop.simps)
next
  case (2 lt x y ys)
  note step = dlist_step [OF "2.prems"] dlist_begin(2) [OF "2.prems"] list_unique_loop.simps [of lt h l NULL x]
  show ?case
  proof (cases "\<not> lt x y \<and> \<not> lt y x")
    case True
    obtain h1 where h1: "list_remove h y = Some (h1, cur l ys)" "dlist h1 l (P @ x # ys)"
      using list_remove_dlist [of h l "P @ [x]" y ys] "2.prems" by auto
    from "2.IH"(1) [OF True h1(2)] show ?thesis
      using True h1(1) step by auto
  next
    case False
    have "dlist h l ((P @ [x]) @ y # ys)"
      using "2.prems" by simp
    from "2.IH"(2) [OF False this] show ?thesis
      using False step by auto
  qed
qed

lemma list_unique_loop_dlist:
  "dlist h l (P @ x # ys) \<Longrightarrow> dlist h d ds \<Longrightarrow> separate l (P @ x # ys) d ds \<Longrightarrow>
     \<exists>h'. list_unique_loop lt h l d x = Some h' \<and> dlist h' l (P @ x # uniq_from lt x ys)
       \<and> dlist h' d (ds @ dups_from lt x ys)"
proof (induction lt x ys arbitrary: h P ds rule: uniq_from.induct)
  case (1 lt x)
  then show ?case
    using dlist_elem(4) [OF "1.prems"(1)] dlist_begin(2) [OF "1.prems"(1)]
    by (auto simp: list_unique_loop.simps)
next
  case (2 lt x y ys)
  note step = dlist_step [OF "2.prems"(1)] dlist_begin(2) [OF "2.prems"(1)] list_unique_loop.simps [of lt h l d x]
  show ?case
  proof (cases "\<not> lt x y \<and> \<not> lt y x")
    case True
    obtain h1 where h1: "list_remove h y = Some (h1, cur l ys)" "dlist h1 l (P @ x # ys)"
      "same_outside (set (cells l (P @ x # ys))) h h1"
      using list_remove_dlist [of h l "P @ [x]" y ys] "2.prems"(1) by auto
    have sep: "set (cells l (P @ x # ys)) \<inter> set (cells d ds) = {}" "y \<notin> set (NULL # cells d ds)"
      "y \<notin> set (cells l (P @ x # ys))"
      using "2.prems" by (auto simp: separate_def dlist_def)
    have d1: "dlist h1 d ds"
      by (rule dlist_frame [OF "2.prems"(2) h1(3) sep(1)])
    obtain h2 where h2: "list_push_back h1 d y = Some h2" "dlist h2 d (ds @ [y])"
      "same_outside (set (y # cells d ds)) h1 h2"
      using list_push_back_dlist [OF d1 sep(2)] by blast
    have "dlist h2 l (P @ x # ys)"
      by (rule dlist_frame [OF h1(2) h2(3)]) (use sep in auto)
    moreover have "separate l (P @ x # ys) d (ds @ [y])"
      using "2.prems"(3) sep by (auto simp: separate_def)
    ultimately obtain h3 where "list_unique_loop lt h2 l d x = Some h3"
      "dlist h3 l (P @ x # uniq_from lt x ys)" "dlist h3 d ((ds @ [y]) @ dups_from lt x ys)"
      using "2.IH"(1) [OF True _ h2(2)] by blast
    then show ?thesis
      using True h1(1) h2(1) step dlist_nonnull [OF "2.prems"(2)] by auto
  next
    case False
    have "dlist h l ((P @ [x]) @ y # ys)" "separate l ((P @ [x]) @ y # ys) d ds"
      using "2.prems" by simp_all
    from "2.IH"(2) [OF False this(1) "2.prems"(2) this(2)] show ?thesis
      using False step by auto
  qed
qed

text \<open>The elements kept: neighbours are no longer equivalent.\<close>

lemma uniq_from_successively:
  "successively (\<lambda>a b. lt a b \<or> lt b a) (x # uniq_from lt x ys)"
  by (induction lt x ys rule: uniq_from.induct) auto

section \<open>A list used as a queue\<close>

interpretation lq: fifo_queue "\<lambda>h. dlist h l" "\<lambda>xs e. e \<notin> set (NULL # cells l xs)"
  "\<lambda>h. list_push_back h l" "\<lambda>h. list_pop_front h l" for l
  by unfold_locales (use list_push_back_dlist list_pop_front_dlist in blast)+

section \<open>Properties\<close>

text \<open>Two concrete memories: an empty list at address 100, and one with two elements.\<close>

definition heap0 :: heap where
  "heap0 = \<lparr>elem_prev = (\<lambda>_. 0)(108 := 100), elem_next = (\<lambda>_. 0)(100 := 108)\<rparr>"

definition heap2 :: heap where
  "heap2 = \<lparr>elem_prev = (\<lambda>_. 0)(200 := 100, 300 := 200, 108 := 300),
      elem_next = (\<lambda>_. 0)(100 := 200, 200 := 300, 300 := 108)\<rparr>"

lemma dlist_heap0: "dlist heap0 100 []" and dlist_heap2: "dlist heap2 100 [200, 300]"
  by (simp_all add: dlist_def heap0_def heap2_def head_addr_def tail_addr_def)

text \<open>
  C7: \<^verbatim>\<open>list_sort\<close> on a well-formed list returns (it terminates and all its assertions hold), and
  leaves the same elements in an order sorted by the comparison, with equivalent elements in
  their old order, and no cell outside the list written.
\<close>

theorem list_sort_correct:
  assumes "less_func lt" "dlist h l xs" "length xs < 2 ^ 32"
  shows "\<exists>h' ys. list_sort lt h l = Some h' \<and> dlist h' l ys \<and> mset ys = mset xs
     \<and> sorted_wrt (\<lambda>a b. \<not> lt b a) ys
     \<and> (\<forall>k. filter (\<lambda>b. \<not> lt k b \<and> \<not> lt b k) ys = filter (\<lambda>b. \<not> lt k b \<and> \<not> lt b k) xs)
     \<and> same_outside (set (cells l xs)) h h'"
  using elem_less.list_sort_dlist [of lt h l xs] assms by (simp add: elem_less_def)

theorem list_sort_correct_witness:
  "\<exists>h' ys. list_sort (\<lambda>a b. b < a) heap2 100 = Some h' \<and> dlist h' 100 ys \<and> mset ys = {#200, 300#}
     \<and> sorted_wrt (\<lambda>a b. \<not> a < b) ys"
proof -
  have "less_func (\<lambda>a b. b < (a :: ptr))"
    by unfold_locales auto
  then show ?thesis
    using list_sort_correct [OF _ dlist_heap2, of "\<lambda>a b. b < a"] by auto
qed

text \<open>
  C21: used as a queue, a list is first-in first-out: appending any distinct elements that are in
  no list and then removing as many from the front returns them in the order of insertion, and
  every assertion on the way holds.
\<close>

theorem list_fifo:
  assumes "dlist h l []" "distinct es" "set es \<inter> {NULL, head_addr l, tail_addr l} = {}"
  shows "\<exists>h1 h2. foldl (\<lambda>h e. h \<bind> (\<lambda>h. list_push_back h l e)) (Some h) es = Some h1
     \<and> dlist h1 l es
     \<and> foldl (\<lambda>r _. do { (h, out) \<leftarrow> r; (h, e) \<leftarrow> list_pop_front h l; Some (h, out @ [e]) })
         (Some (h1, [])) es = Some (h2, es)
     \<and> dlist h2 l []"
proof -
  have "\<forall>i < length es. es ! i \<notin> set (NULL # cells l ([] @ take i es))"
    using assms(2,3) by (fastforce simp: in_set_conv_nth nth_eq_iff_index_eq disjoint_iff)
  from lq.enq_all [OF assms(1) this] obtain h1 where
    h1: "foldl (\<lambda>h e. h \<bind> (\<lambda>h. list_push_back h l e)) (Some h) es = Some h1" "dlist h1 l es"
    by auto
  with lq.deq_all [OF h1(2), of "[]"] show ?thesis by auto
qed

theorem list_fifo_witness:
  "\<exists>h1 h2. foldl (\<lambda>h e. h \<bind> (\<lambda>h. list_push_back h 100 e)) (Some heap0) [300, 200] = Some h1
     \<and> foldl (\<lambda>r _. do { (h, out) \<leftarrow> r; (h, e) \<leftarrow> list_pop_front h 100; Some (h, out @ [e]) })
         (Some (h1, [])) [300, 200] = Some (h2, [300, 200 :: ptr])"
proof -
  from list_fifo [OF dlist_heap0, of "[300, 200]"] show ?thesis
    by (auto simp: head_addr_def tail_addr_def)
qed

text \<open>
  C24: \<^verbatim>\<open>list_insert_ordered\<close> inserts the element behind all elements that are not greater than it,
  so that a sorted list stays sorted, and changes nothing else.
\<close>

theorem list_insert_ordered_correct:
  assumes "less_func lt" "dlist h l xs" "e \<notin> set (NULL # cells l xs)" "sorted_wrt (\<lambda>a b. \<not> lt b a) xs"
  shows "\<exists>h' as bs. list_insert_ordered lt h l e = Some h' \<and> xs = as @ bs \<and> dlist h' l (as @ e # bs)
     \<and> (\<forall>a \<in> set as. \<not> lt e a) \<and> (\<forall>b \<in> set bs. lt e b)
     \<and> sorted_wrt (\<lambda>a b. \<not> lt b a) (as @ e # bs)
     \<and> same_outside (set (e # cells l xs)) h h'"
proof -
  let ?as = "takeWhile (\<lambda>x. \<not> lt e x) xs" and ?bs = "dropWhile (\<lambda>x. \<not> lt e x) xs"
  obtain h' where "list_insert_ordered lt h l e = Some h'" "dlist h' l (?as @ e # ?bs)"
    "same_outside (set (e # cells l xs)) h h'"
    using list_insert_ordered_dlist [OF assms(2,3), of lt] by blast
  moreover have "xs = ?as @ ?bs" "\<forall>a \<in> set ?as. \<not> lt e a"
    by (auto dest: set_takeWhileD)
  moreover have "\<forall>b \<in> set ?bs. lt e b" "sorted_wrt (\<lambda>a b. \<not> lt b a) (?as @ e # ?bs)"
    using less_func.dropWhile_less [OF assms(1,4)] less_func.sorted_insert_ordered [OF assms(1,4)] by blast+
  ultimately show ?thesis by blast
qed

theorem list_insert_ordered_correct_witness:
  "\<exists>h' as bs. list_insert_ordered (<) heap2 100 250 = Some h' \<and> [200, 300] = as @ bs
     \<and> dlist h' 100 (as @ 250 # bs)
     \<and> (\<forall>a \<in> set as. \<not> 250 < a) \<and> (\<forall>b \<in> set bs. 250 < b)
     \<and> sorted_wrt (\<lambda>a b. \<not> b < a) (as @ 250 # bs)
     \<and> same_outside (set (250 # cells 100 [200, 300])) heap2 h'"
proof (rule list_insert_ordered_correct)
  show "less_func ((<) :: ptr \<Rightarrow> ptr \<Rightarrow> bool)"
    by unfold_locales auto
qed (simp_all add: dlist_heap2 head_addr_def tail_addr_def)

text \<open>
  \<^verbatim>\<open>list_max\<close> of a nonempty list returns the first of its greatest elements, the choice the
  priority scheduler relies on for round-robin among equals; of an empty list, its tail.
\<close>

theorem list_max_first:
  assumes "less_func lt" "dlist h l xs"
  shows "if xs = [] then list_max lt h l = Some (tail_addr l)
     else \<exists>m as bs. list_max lt h l = Some m \<and> xs = as @ m # bs
       \<and> (\<forall>a \<in> set as. lt a m) \<and> (\<forall>b \<in> set bs. \<not> lt m b)"
proof (cases xs)
  case Nil
  then show ?thesis
    using list_max_dlist [OF assms(2), of lt] by simp
next
  case (Cons x ys)
  then have "list_max lt h l = Some (foldl (\<lambda>m e. if lt m e then e else m) x ys)"
    using list_max_dlist [OF assms(2), of lt] by simp
  then show ?thesis
    using less_func.foldl_max [OF assms(1), of x ys] Cons by (simp only: list.distinct if_False) blast
qed

theorem list_max_first_witness:
  "if [200, 300] = ([] :: ptr list) then list_max (<) heap2 100 = Some (tail_addr 100)
     else \<exists>m as bs. list_max (<) heap2 100 = Some m \<and> [200, 300] = as @ m # bs
       \<and> (\<forall>a \<in> set as. a < m) \<and> (\<forall>b \<in> set bs. \<not> m < b)"
proof (rule list_max_first)
  show "less_func ((<) :: ptr \<Rightarrow> ptr \<Rightarrow> bool)"
    by unfold_locales auto
qed (rule dlist_heap2)

text \<open>
  \<^verbatim>\<open>list_unique\<close> leaves a list in which no two neighbours are equivalent, moves every element
  it takes out to the end of the list of duplicates, and loses none.
\<close>

theorem list_unique_correct:
  assumes "dlist h l xs" "dlist h d ds" "separate l xs d ds"
  shows "\<exists>h' ys es. list_unique lt h l d = Some h' \<and> dlist h' l ys \<and> dlist h' d (ds @ es)
     \<and> mset ys + mset es = mset xs \<and> successively (\<lambda>a b. lt a b \<or> lt b a) ys"
proof (cases xs)
  case Nil
  then have "list_unique lt h l d = Some h"
    using assms(1) dlist_begin(5) [OF assms(1)] dlist_nonnull by (simp add: list_unique_def)
  then show ?thesis
    using Nil assms by (intro exI [of _ h] exI [of _ "[]"]) simp
next
  case (Cons x ys)
  then obtain h' where "list_unique_loop lt h l d x = Some h'" "dlist h' l (x # uniq_from lt x ys)"
    "dlist h' d (ds @ dups_from lt x ys)"
    using list_unique_loop_dlist [of h l "[]" x ys d ds lt] assms by auto
  moreover from this(1) have "list_unique lt h l d = Some h'"
    using Cons dlist_begin [OF assms(1)] dlist_nonnull [OF assms(1)] by (simp add: list_unique_def)
  moreover have "mset (x # uniq_from lt x ys) + mset (dups_from lt x ys) = mset xs"
    using mset_uniq_dups [of lt x ys] Cons by simp
  moreover note uniq_from_successively [of lt x ys]
  ultimately show ?thesis by (intro exI conjI)
qed

theorem list_unique_correct_witness:
  "\<exists>h' ys es. list_unique (\<lambda>a b. a < b - 100) (heap2\<lparr>elem_prev := (elem_prev heap2)(408 := 400),
       elem_next := (elem_next heap2)(400 := 408)\<rparr>) 100 400 = Some h'
     \<and> dlist h' 100 ys \<and> dlist h' 400 es \<and> mset ys + mset es = {#200, 300#}"
proof -
  let ?h = "heap2\<lparr>elem_prev := (elem_prev heap2)(408 := 400), elem_next := (elem_next heap2)(400 := 408)\<rparr>"
  have "dlist ?h 100 [200, 300]" "dlist ?h 400 []" "separate 100 [200, 300] 400 []"
    by (simp_all add: dlist_def heap2_def head_addr_def tail_addr_def separate_def)
  from list_unique_correct [OF this, of "\<lambda>a b. a < b - 100"] show ?thesis by auto
qed

end
