(* ===== verification/Arithmetic.thy ===== *)
theory Arithmetic
  imports Prelude "HOL-Library.Signed_Division"
begin

unbundle bit_operations_syntax

text \<open>
  \<^verbatim>\<open>src/Project5/src/lib/arithmetic.c\<close>: the 64-bit division routines the compiler calls on the
  32-bit target. The values are machine words; \<^verbatim>\<open>divl\<close> is the processor's division of a 64-bit
  by a 32-bit number, which faults (\<^term>\<open>None\<close>) on a zero divisor and on a quotient that does
  not fit in 32 bits. \<open>int64_t\<close> values are 64-bit words read with \<^const>\<open>sint\<close>.
\<close>

section \<open>The routines\<close>

definition divl :: "u64 \<Rightarrow> u32 \<Rightarrow> u32 option" where
  "divl n d = (if d = 0 \<or> 2 ^ 32 \<le> unat n div unat d then None
     else Some (word_of_nat (unat n div unat d)))"

definition nlz :: "u32 \<Rightarrow> nat" where
  "nlz x =
     (let n = 0;
          (n, x) = (if x \<le> 0x0000FFFF then (n + 16, push_bit 16 x) else (n, x));
          (n, x) = (if x \<le> 0x00FFFFFF then (n + 8, push_bit 8 x) else (n, x));
          (n, x) = (if x \<le> 0x0FFFFFFF then (n + 4, push_bit 4 x) else (n, x));
          (n, x) = (if x \<le> 0x3FFFFFFF then (n + 2, push_bit 2 x) else (n, x))
      in if x \<le> 0x7FFFFFFF then n + 1 else n)"

definition udiv64 :: "u64 \<Rightarrow> u64 \<Rightarrow> u64 option" where
  "udiv64 n d =
     (if drop_bit 32 d = 0 then
        let b = push_bit 32 1 :: u64;
            n1 = ucast (drop_bit 32 n) :: u32;
            n0 = ucast n :: u32;
            d0 = ucast d :: u32
        in do {
          ASSERT (d0 \<noteq> 0); \<comment> \<open>the processor faults on \<^verbatim>\<open>n1 % d0\<close> and \<^verbatim>\<open>n1 / d0\<close>\<close>
          q \<leftarrow> divl (b * ucast (n1 mod d0) + ucast n0) d0;
          Some (ucast q + b * ucast (n1 div d0)) }
      else if n < d then Some 0
      else
        let d1 = ucast (drop_bit 32 d) :: u32;
            s = nlz d1
        in do {
          q \<leftarrow> divl (drop_bit 1 n) (ucast (drop_bit 32 (push_bit s d)));
          let q = (ucast (drop_bit (31 - s) q) :: u64);
          Some (if n - (q - 1) * d < d then q - 1 else q) })"

definition umod64 :: "u64 \<Rightarrow> u64 \<Rightarrow> u32 option" where
  "umod64 n d = do { q \<leftarrow> udiv64 n d; Some (ucast (n - d * q)) }"

definition sdiv64 :: "u64 \<Rightarrow> u64 \<Rightarrow> u64 option" where
  "sdiv64 n d = do {
     let n_abs = (if 0 \<le> sint n then n else - n);
     let d_abs = (if 0 \<le> sint d then d else - d);
     q_abs \<leftarrow> udiv64 n_abs d_abs;
     Some (if (sint n < 0) = (sint d < 0) then q_abs else - q_abs) }"

definition smod64 :: "u64 \<Rightarrow> u64 \<Rightarrow> u32 option" where
  "smod64 n d = do { q \<leftarrow> sdiv64 n d; Some (ucast (n - d * q)) }"

text \<open>The entry points: the \<^verbatim>\<open>uint32_t\<close> and \<^verbatim>\<open>int32_t\<close> remainders widen to 64 bits again.\<close>

definition divdi3 :: "u64 \<Rightarrow> u64 \<Rightarrow> u64 option" where
  "divdi3 n d = sdiv64 n d"

definition moddi3 :: "u64 \<Rightarrow> u64 \<Rightarrow> u64 option" where
  "moddi3 n d = map_option scast (smod64 n d)"

definition udivdi3 :: "u64 \<Rightarrow> u64 \<Rightarrow> u64 option" where
  "udivdi3 n d = udiv64 n d"

definition umoddi3 :: "u64 \<Rightarrow> u64 \<Rightarrow> u64 option" where
  "umoddi3 n d = map_option ucast (umod64 n d)"

section \<open>Leading zeros\<close>

text \<open>Each stage shifts out leading zeros only; \<open>nlz\<close> normalises its argument.\<close>

lemma unat_push_bit:
  fixes x :: "'a :: len word"
  assumes "unat x * 2 ^ k < 2 ^ LENGTH('a)"
  shows "unat (push_bit k x) = unat x * 2 ^ k"
  using assms unfolding unsigned_push_bit_eq by (simp add: take_bit_eq_mod push_bit_eq_mult)

lemma shift_word:
  fixes x :: u32
  assumes "unat x < 2 ^ (32 - k)" "k \<le> 32"
  shows "unat (push_bit k x) = unat x * 2 ^ k"
proof -
  have "unat x * 2 ^ k < 2 ^ (32 - k) * 2 ^ k"
    using assms(1) by simp
  also have "\<dots> = 2 ^ 32"
    using assms(2) by (simp flip: power_add)
  finally show ?thesis
    by (intro unat_push_bit) simp
qed

lemma nlz_normalises:
  fixes x :: u32
  assumes "0 < unat x"
  shows "nlz x \<le> 31" and "2 ^ 31 \<le> unat x * 2 ^ nlz x" and "unat x * 2 ^ nlz x < 2 ^ 32"
  using assms unsigned_less [of x] unfolding nlz_def Let_def
  by (auto simp: word_le_nat_alt shift_word split: if_splits)

section \<open>Unsigned division\<close>

lemma unat_drop_bit [simp]: "unat (drop_bit k w) = unat w div 2 ^ k" for w :: "'a :: len word"
  unfolding unat_drop_bit_eq by (rule drop_bit_eq_div)

lemma unat_ucast_mod: "unat (ucast w :: 'b :: len word) = unat w mod 2 ^ LENGTH('b)"
  for w :: "'a :: len word"
  by (simp add: unsigned_ucast_eq take_bit_eq_mod)

lemma high_word_eq_0: "drop_bit 32 d = 0 \<longleftrightarrow> unat d < 2 ^ 32" for d :: u64
proof -
  have "drop_bit 32 d = 0 \<longleftrightarrow> unat (drop_bit 32 d) = 0"
    by (metis unat_0 unat_eq_zero)
  then show ?thesis
    by (simp only: unat_drop_bit div_eq_0_iff) simp
qed

lemma divl_Some:
  "d \<noteq> 0 \<Longrightarrow> unat n div unat d < 2 ^ 32 \<Longrightarrow> \<exists>q. divl n d = Some q \<and> unat q = unat n div unat d"
  by (auto simp: divl_def unat_of_nat)

text \<open>The short case, as the comment in the source proves it.\<close>

lemma udiv64_short:
  assumes "unat d < 2 ^ 32" "d \<noteq> 0"
  shows "\<exists>q. udiv64 n d = Some q \<and> unat q = unat n div unat d"
proof -
  define N D where "N = unat n" and "D = unat d"
  define n1 n0 where "n1 = N div 2 ^ 32" and "n0 = N mod 2 ^ 32"
  have b: "N < 2 ^ 64" "0 < D" "D < 2 ^ 32" "n1 < 2 ^ 32" "n0 < 2 ^ 32" "N = 2 ^ 32 * n1 + n0"
    using assms unsigned_less [of n]
    by (auto simp: N_def D_def n1_def n0_def word_gt_0 unat_gt_0 div_less_iff_less_mult)
  let ?b = "push_bit 32 1 :: u64"
  define w1 w0 wd where ws: "w1 = (ucast (drop_bit 32 n) :: u32)" "w0 = (ucast n :: u32)" "wd = (ucast d :: u32)"
  have w: "unat ?b = 2 ^ 32" "unat w1 = n1" "unat w0 = n0" "unat wd = D"
    using b by (simp_all add: ws unat_push_bit unat_ucast_mod n1_def n0_def N_def D_def)
  have r: "n1 mod D < D" "2 ^ 32 * (n1 mod D) + n0 < 2 ^ 32 * D"
  proof -
    show "n1 mod D < D" using b by simp
    then have "2 ^ 32 * (n1 mod D) + 2 ^ 32 \<le> 2 ^ 32 * D"
      using mult_le_mono2 [of "Suc (n1 mod D)" D "2 ^ 32"] by simp
    then show "2 ^ 32 * (n1 mod D) + n0 < 2 ^ 32 * D" using b by simp
  qed
  have "2 ^ 32 * (n1 mod D) + n0 < 2 ^ 64"
    using r(2) b(3) by simp
  then have m: "unat (?b * ucast (w1 mod wd) + ucast w0) = 2 ^ 32 * (n1 mod D) + n0"
    using le_less_trans [OF mod_less_eq_dividend b(4)]
    by (simp add: unat_word_ariths unat_ucast_mod unat_mod w)
  have split: "N div D = (2 ^ 32 * (n1 mod D) + n0) div D + 2 ^ 32 * (n1 div D)"
  proof -
    have "N = (2 ^ 32 * (n1 mod D) + n0) + D * (2 ^ 32 * (n1 div D))"
      using b(6) mult_div_mod_eq [of D n1]
      by (metis add.assoc add.commute distrib_left mult.left_commute)
    then show ?thesis using b(2) by simp
  qed
  have "wd \<noteq> 0"
    using w(4) b(2) by auto
  moreover have "(2 ^ 32 * (n1 mod D) + n0) div D < 2 ^ 32"
    using r(2) b(2) by (simp add: div_less_iff_less_mult mult.commute)
  ultimately obtain q where q: "divl (?b * ucast (w1 mod wd) + ucast w0) wd = Some q"
    "unat q = (2 ^ 32 * (n1 mod D) + n0) div D"
    using divl_Some [of wd "?b * ucast (w1 mod wd) + ucast w0"] m w(4) by auto
  have "N div D < 2 ^ 64"
    using b(1) div_le_dividend le_less_trans by blast
  then have "unat (ucast q + ?b * ucast (w1 div wd)) = N div D"
    using split q(2) unsigned_less [of q]
      le_less_trans [OF div_le_dividend b(4)]
    by (simp add: unat_word_ariths unat_ucast_mod unat_div w)
  moreover have "drop_bit 32 d = 0"
    using assms(1) by (simp only: high_word_eq_0)
  ultimately show ?thesis
    using q(1) \<open>wd \<noteq> 0\<close> by (simp add: udiv64_def Let_def N_def D_def flip: ws)
qed

text \<open>
  The long case: dividing by the leading 32 bits of the divisor gives an estimate that is right or
  one too large.
\<close>

lemma estimate:
  fixes n d e :: nat
  assumes "e \<le> d" "0 < e" "n * (d - e) < d * e"
  shows "n div d \<le> n div e" and "n div e \<le> Suc (n div d)"
proof -
  show "n div d \<le> n div e"
    using assms(1,2) by (rule div_le_mono2 [rotated])
  have lt: "n < Suc (n div d) * d"
    using assms(1,2) by (metis dividend_less_div_times le_0_eq not_gr_zero mult_Suc add.commute)
  have "n * d = n * e + n * (d - e)"
    using assms(1) by (simp flip: distrib_left)
  also have "\<dots> < n * e + d * e"
    using assms(3) by simp
  also have "\<dots> = (n + d) * e"
    by (simp add: distrib_right)
  also have "\<dots> < (Suc (n div d) * d + d) * e"
    using lt assms(2) by simp
  also have "\<dots> = (Suc (Suc (n div d)) * e) * d"
    by (simp add: algebra_simps)
  finally have "n < Suc (Suc (n div d)) * e"
    by simp
  then show "n div e \<le> Suc (n div d)"
    using assms(2) by (simp add: div_less_iff_less_mult less_Suc_eq_le flip: less_Suc_eq_le)
qed

lemma leading_bits:
  fixes D s :: nat
  assumes "2 ^ 31 \<le> D div 2 ^ 32 * 2 ^ s" "D div 2 ^ 32 * 2 ^ s < 2 ^ 32" "s \<le> 31"
  shows "D * 2 ^ s < 2 ^ 64" and "D * 2 ^ s div 2 ^ 32 = D div 2 ^ (32 - s)"
    and "2 ^ 31 \<le> D div 2 ^ (32 - s)" and "D div 2 ^ (32 - s) < 2 ^ 32"
proof -
  have p: "(2 :: nat) ^ 32 = 2 ^ (32 - s) * 2 ^ s"
    using assms(3) by (simp flip: power_add)
  have "D div 2 ^ 32 < 2 ^ (32 - s)"
    using assms(2) unfolding p by simp
  then have "D < 2 ^ (32 - s) * 2 ^ 32"
    by (simp add: div_less_iff_less_mult)
  then have "D * 2 ^ s < 2 ^ (32 - s) * 2 ^ 32 * 2 ^ s"
    by (simp only: mult_less_mono1 zero_less_power zero_less_numeral)
  also have "\<dots> = 2 ^ 64"
    using assms(3) by (simp flip: power_add)
  finally show D: "D * 2 ^ s < 2 ^ 64" .
  show v: "D * 2 ^ s div 2 ^ 32 = D div 2 ^ (32 - s)"
    unfolding p by simp
  have "D div 2 ^ 32 * 2 ^ s \<le> D * 2 ^ s div 2 ^ 32"
    by (simp add: div_times_less_eq_dividend less_eq_div_iff_mult_less_eq)
  then show "2 ^ 31 \<le> D div 2 ^ (32 - s)"
    using assms(1) v by linarith
  show "D div 2 ^ (32 - s) < 2 ^ 32"
    using D v by (metis div_less_iff_less_mult zero_less_numeral zero_less_power power_add numeral_Bit0 add_numeral_left)
qed

lemma estimate_error:
  fixes N D s :: nat
  assumes "N < 2 ^ 64" "s \<le> 31" "2 ^ 31 \<le> D div 2 ^ (32 - s)"
  defines "e \<equiv> D div 2 ^ (32 - s) * 2 ^ (32 - s)"
  shows "e \<le> D" and "0 < e" and "N * (D - e) < D * e"
proof -
  show le: "e \<le> D"
    by (simp add: e_def)
  have "63 - s = 31 + (32 - s)"
    using assms(2) by simp
  then have "(2 :: nat) ^ (63 - s) = 2 ^ 31 * 2 ^ (32 - s)"
    by (simp only: power_add)
  also have "\<dots> \<le> e"
    unfolding e_def using assms(3) by simp
  finally have e: "2 ^ (63 - s) \<le> e" .
  then show "0 < e"
    by (metis gr_zeroI le_zero_eq power_not_zero zero_neq_numeral)
  have "(2 :: nat) ^ (63 - s) * 2 ^ (63 - s) \<le> D * e"
    using e le by (intro mult_le_mono) auto
  then have De: "2 ^ (126 - 2 * s) \<le> D * e"
    using assms(2) by (simp flip: power_add add: mult_2)
  have diff: "D - e < 2 ^ (32 - s)"
    unfolding e_def by (simp add: minus_div_mult_eq_mod)
  show "N * (D - e) < D * e"
  proof (cases "s = 31")
    case True
    then have "N * (D - e) \<le> N * 1"
      using diff by (intro mult_le_mono) auto
    also have "\<dots> < 2 ^ 64"
      using assms(1) by simp
    also have "\<dots> \<le> D * e"
      using De True by simp
    finally show ?thesis .
  next
    case False
    have "N * (D - e) \<le> N * 2 ^ (32 - s)"
      using diff by simp
    also have "\<dots> < 2 ^ 64 * 2 ^ (32 - s)"
      using assms(1) by simp
    also have "\<dots> = 2 ^ (96 - s)"
    proof -
      have "96 - s = 64 + (32 - s)" using assms(2) by simp
      then show ?thesis by (simp only: power_add)
    qed
    also have "\<dots> \<le> 2 ^ (126 - 2 * s)"
      using False assms(2) by (intro power_increasing) auto
    finally show ?thesis
      using De by simp
  qed
qed

lemma unat_minus_mult:
  fixes n a d :: "'a :: len word"
  assumes "unat a * unat d + r = unat n"
  shows "unat (n - a * d) = r"
proof -
  have "n = word_of_nat (unat a * unat d + r)"
    unfolding assms by simp
  then have "n - a * d = word_of_nat r"
    by simp
  moreover have "r < 2 ^ LENGTH('a)"
    using assms unsigned_less [of n, where 'a = nat] by linarith
  ultimately show ?thesis
    by (simp add: unat_of_nat)
qed

lemma udiv64_long:
  assumes "2 ^ 32 \<le> unat d" "unat d \<le> unat n"
  shows "\<exists>q. udiv64 n d = Some q \<and> unat q = unat n div unat d"
proof -
  define N D where ND: "N = unat n" "D = unat d"
  define d1 where "d1 = (ucast (drop_bit 32 d) :: u32)"
  define s where "s = nlz d1"
  have b: "N < 2 ^ 64" "D < 2 ^ 64" "2 ^ 32 \<le> D" "D \<le> N"
    using assms unsigned_less [of n] unsigned_less [of d] by (simp_all add: ND)
  have d1: "unat d1 = D div 2 ^ 32"
    using b(2) by (simp add: d1_def unat_ucast_mod ND div_less_iff_less_mult)
  then have "0 < unat d1"
    using b(3) by (simp add: div_greater_zero_iff)
  from nlz_normalises [OF this] have s: "s \<le> 31" "2 ^ 31 \<le> D div 2 ^ 32 * 2 ^ s" "D div 2 ^ 32 * 2 ^ s < 2 ^ 32"
    by (simp_all add: s_def d1)
  define v where "v = D div 2 ^ (32 - s)"
  note lead = leading_bits [OF s(2,3,1), folded v_def]
  define e where "e = v * 2 ^ (32 - s)"
  note err = estimate_error [OF b(1) s(1) lead(3) [unfolded v_def], folded v_def, folded e_def]
  define dv where "dv = (ucast (drop_bit 32 (push_bit s d)) :: u32)"
  have dv: "unat dv = v"
    using lead(1,2,4) by (simp add: dv_def unat_ucast_mod unat_push_bit ND)
  have "dv \<noteq> 0"
    using dv lead(3) by auto
  moreover have "N div 2 div v < 2 ^ 32"
  proof -
    have "N div 2 < 2 ^ 32 * 2 ^ 31"
      using b(1) by simp
    also have "\<dots> \<le> 2 ^ 32 * v"
      using lead(3) by simp
    finally show ?thesis
      using lead(3) by (simp add: div_less_iff_less_mult)
  qed
  ultimately obtain q1 where q1: "divl (drop_bit 1 n) dv = Some q1" "unat q1 = N div 2 div v"
    using divl_Some [of dv "drop_bit 1 n"] dv by (auto simp: ND)
  define q where "q = (ucast (drop_bit (31 - s) q1) :: u64)"
  have "32 - s = Suc (31 - s)"
    using s(1) by simp
  then have "N div 2 div v div 2 ^ (31 - s) = N div e"
    unfolding e_def by (simp add: mult.assoc mult.left_commute flip: div_mult2_eq)
  then have q: "unat q = N div e"
    using q1(2) b(1) le_less_trans [OF div_le_dividend b(1)]
    by (simp add: q_def unat_ucast_mod)
  have "drop_bit 32 d \<noteq> 0" "\<not> n < d"
    using assms by (simp_all add: high_word_eq_0 word_less_nat_alt)
  then have run: "udiv64 n d = Some (if n - (q - 1) * d < d then q - 1 else q)"
    unfolding udiv64_def Let_def d1_def [symmetric] s_def [symmetric] dv_def [symmetric] q1(1)
    by (simp flip: q_def)
  show ?thesis
  proof (cases "unat q = N div D")
    case True
    have "1 \<le> N div D"
      using b(3,4) by (metis One_nat_def Suc_leI div_greater_zero_iff le_trans not_le zero_less_numeral zero_less_power)
    then have "unat (q - 1) = N div D - 1"
      using True by (simp add: unat_sub_if' word_le_nat_alt)
    moreover have "(N div D - 1) * D + D + N mod D = N"
      using \<open>1 \<le> N div D\<close> div_mult_mod_eq [of N D] by (simp add: diff_mult_distrib)
    ultimately have "unat (n - (q - 1) * d) = D + N mod D"
      by (intro unat_minus_mult) (simp add: ND)
    then show ?thesis
      using run True by (simp add: word_less_nat_alt ND)
  next
    case False
    then have q': "unat q = Suc (N div D)"
      using estimate [OF err] q by linarith
    then have "unat (q - 1) = N div D"
      by (simp add: unat_sub_if' word_le_nat_alt)
    moreover from this have "unat (n - (q - 1) * d) = N mod D"
      by (intro unat_minus_mult) (simp add: ND)
    moreover have "N mod D < D"
      using b(3) by simp
    ultimately show ?thesis
      using run \<open>unat (q - 1) = N div D\<close> by (simp add: word_less_nat_alt ND)
  qed
qed

lemma udiv64_div:
  assumes "d \<noteq> 0"
  shows "udiv64 n d = Some (n div d)"
proof -
  have "\<exists>q. udiv64 n d = Some q \<and> unat q = unat n div unat d"
  proof (cases "unat d < 2 ^ 32")
    case True
    then show ?thesis using assms by (rule udiv64_short)
  next
    case False
    show ?thesis
    proof (cases "unat d \<le> unat n")
      case True
      with False show ?thesis by (intro udiv64_long) simp_all
    next
      case False': False
      have "drop_bit 32 d \<noteq> 0"
        using False by (simp add: high_word_eq_0)
      with False' show ?thesis
        by (simp add: udiv64_def word_less_nat_alt)
    qed
  qed
  then show ?thesis
    by (metis unat_div word_unat_eq_iff)
qed

lemma udiv64_zero: "udiv64 n 0 = None"
  by (simp add: udiv64_def)

section \<open>Signed division and the remainders\<close>

lemma word_eq_div_mod: "n - d * (n div d) = n mod d" for n d :: "'a :: len word"
  by (simp add: minus_mult_div_eq_mod)

lemma uint_word_of_int_id: "0 \<le> k \<Longrightarrow> k < 2 ^ 64 \<Longrightarrow> uint (word_of_int k :: u64) = k"
  by (simp add: uint_word_of_int)

lemma uint_abs: "uint (if 0 \<le> sint n then n else - n) = \<bar>sint n\<bar>" for n :: u64
proof -
  have "(if 0 \<le> sint n then n else - n) = word_of_int \<bar>sint n\<bar>"
    by (simp add: wi_hom_neg [symmetric] abs_if)
  moreover have "\<bar>sint n\<bar> < 2 ^ 64"
    using sint_ge [of n] sint_lt [of n] by simp
  ultimately show ?thesis
    by (simp only: uint_word_of_int_id abs_ge_zero)
qed

lemma sdiv64_div:
  assumes "d \<noteq> 0"
  shows "sdiv64 n d = Some (word_of_int (sint n sdiv sint d))"
proof -
  define n' d' where "n' = (if 0 \<le> sint n then n else - n)" and "d' = (if 0 \<le> sint d then d else - d)"
  have u: "uint n' = \<bar>sint n\<bar>" "uint d' = \<bar>sint d\<bar>"
    unfolding n'_def d'_def by (simp_all only: uint_abs)
  have "d' \<noteq> 0"
    using assms by (auto simp: d'_def)
  then have q: "udiv64 n' d' = Some (n' div d')"
    by (rule udiv64_div)
  have "n' div d' = word_of_int (\<bar>sint n\<bar> div \<bar>sint d\<bar>)"
    by (simp add: word_div_def u)
  moreover have "sint d \<noteq> 0"
    using assms by (metis sint_0 signed_word_eqI)
  ultimately show ?thesis
    unfolding sdiv64_def signed_divide_int_def Let_def n'_def [symmetric] d'_def [symmetric] q
    by (auto simp: sgn_if wi_hom_neg [symmetric])
qed

lemma ucast_wi: "(ucast (word_of_int k :: u64) :: u32) = word_of_int k"
  by (rule bit_word_eqI) (simp add: bit_simps)

lemma smod64_mod:
  assumes "d \<noteq> 0"
  shows "smod64 n d = Some (word_of_int (sint n smod sint d))"
proof -
  have "n - d * word_of_int (sint n sdiv sint d) = word_of_int (sint n smod sint d)"
  proof -
    have "sint n smod sint d = sint n - sint d * (sint n sdiv sint d)"
      by (simp add: minus_mult_sdiv_eq_smod)
    then show ?thesis by simp
  qed
  then show ?thesis
    using assms by (simp add: smod64_def sdiv64_div ucast_wi)
qed

section \<open>Properties\<close>

text \<open>
  C31: for every dividend and every nonzero divisor the unsigned 64-bit division routine returns,
  without a processor fault, exactly the 64-bit quotient.
\<close>

theorem udivdi3_correct:
  assumes "d \<noteq> 0"
  shows "udivdi3 n d = Some (n div d)"
  unfolding udivdi3_def using assms by (rule udiv64_div)

theorem udivdi3_correct_witness: "udivdi3 0xFFFFFFFFFFFFFFFF 0x100000001 = Some 0xFFFFFFFF"
proof -
  have "udivdi3 0xFFFFFFFFFFFFFFFF 0x100000001 = Some (0xFFFFFFFFFFFFFFFF div 0x100000001)"
    by (rule udivdi3_correct) simp
  then show ?thesis by simp
qed

text \<open>
  Signed 64-bit division returns the quotient truncated towards zero, with the one overflowing
  quotient (the least number divided by -1) wrapping around.
\<close>

theorem divdi3_correct:
  assumes "d \<noteq> 0"
  shows "divdi3 n d = Some (word_of_int (sint n sdiv sint d))"
  unfolding divdi3_def using assms by (rule sdiv64_div)

theorem divdi3_correct_witness: "divdi3 (- 7) 2 = Some (- 3)"
proof -
  have "divdi3 (- 7) 2 = Some (word_of_int (sint (- 7 :: u64) sdiv sint (2 :: u64)))"
    by (rule divdi3_correct) simp
  then show ?thesis by (simp add: signed_divide_int_def)
qed

text \<open>
  The unsigned remainder routine returns the low 32 bits of the remainder: it is the remainder
  exactly when the remainder fits in 32 bits.
\<close>

theorem umoddi3_truncates:
  assumes "d \<noteq> 0"
  shows "\<exists>r. umoddi3 n d = Some r \<and> unat r = unat (n mod d) mod 2 ^ 32 \<and>
             (r = n mod d \<longleftrightarrow> unat (n mod d) < 2 ^ 32)"
proof -
  define m where "m = n mod d"
  have "umoddi3 n d = Some (ucast (ucast m :: u32))"
    using assms by (simp add: umoddi3_def umod64_def udiv64_div word_eq_div_mod m_def)
  moreover have "unat (ucast (ucast m :: u32) :: u64) = unat m mod 2 ^ 32"
    by (simp add: unat_ucast_mod)
  ultimately show ?thesis
    unfolding m_def [symmetric] word_unat_eq_iff by (auto simp: mod_eq_self_iff_div_eq_0)
qed

theorem umoddi3_truncates_witness:
  "\<exists>r. umoddi3 0x100000000 0x200000000 = Some r \<and> r \<noteq> 0x100000000"
proof -
  have "\<exists>r. umoddi3 0x100000000 0x200000000 = Some r \<and>
      unat r = unat ((0x100000000 :: u64) mod 0x200000000) mod 2 ^ 32 \<and>
      (r = 0x100000000 mod 0x200000000 \<longleftrightarrow> unat ((0x100000000 :: u64) mod 0x200000000) < 2 ^ 32)"
    by (rule umoddi3_truncates) simp
  then show ?thesis by auto
qed

text \<open>
  The signed remainder routine is right whenever the remainder, which has the sign of the
  dividend, is in the range of a 32-bit signed number.
\<close>

theorem moddi3_correct:
  assumes "d \<noteq> 0" "- (2 ^ 31) \<le> sint n smod sint d" "sint n smod sint d < 2 ^ 31"
  shows "\<exists>r. moddi3 n d = Some r \<and> sint r = sint n smod sint d"
proof -
  define k where "k = sint n smod sint d"
  have s32: "sint (word_of_int k :: u32) = k"
    using assms(2,3) by (simp add: k_def sint_sbintrunc' signed_take_bit_int_eq_self)
  have "moddi3 n d = Some (scast (word_of_int k :: u32))"
    using assms(1) by (simp add: moddi3_def smod64_mod k_def)
  moreover have "sint (scast (word_of_int k :: u32) :: u64) = k"
    using assms(2,3) by (simp add: scast_eq s32 sint_sbintrunc' k_def signed_take_bit_int_eq_self)
  ultimately show ?thesis
    by (simp add: k_def)
qed

theorem moddi3_correct_witness: "\<exists>r. moddi3 (- 7) 5 = Some r \<and> sint r = - 2"
proof -
  have s: "sint (- 7 :: u64) smod sint (5 :: u64) = - 2"
    by (simp add: signed_modulo_int_def)
  have "\<exists>r. moddi3 (- 7) 5 = Some r \<and> sint r = sint (- 7 :: u64) smod sint (5 :: u64)"
    by (rule moddi3_correct) (simp_all add: s)
  then show ?thesis unfolding s .
qed

end
