(* ===== verification/FixedPoint.thy ===== *)
theory FixedPoint
  imports Prelude "HOL-Library.Signed_Division"
begin

text \<open>
  \<^verbatim>\<open>src/Project2/src/threads/fixed_point.h\<close>: the 17.14 fixed-point numbers of the advanced
  scheduler. A \<^verbatim>\<open>fixed_point\<close> is a C \<^verbatim>\<open>int\<close>; its operations are modelled on integers, with the
  conversion of every result to 32 bits written out (\<open>int32\<close>) and the 64-bit intermediate
  values of \<^verbatim>\<open>fixed_mul\<close> and \<^verbatim>\<open>fixed_div\<close> exact, since the product of two 32-bit numbers fits.
  Division truncates towards zero and faults (\<^term>\<open>None\<close>) on a zero divisor.
\<close>

section \<open>The operations\<close>

definition int32 :: "int \<Rightarrow> int" where
  "int32 k = signed_take_bit 31 k"

definition FRACTION_BITS :: nat where
  "FRACTION_BITS = 14"

definition int_to_fixed :: "int \<Rightarrow> int" where
  "int_to_fixed v = int32 (v * push_bit FRACTION_BITS 1)"

definition fixed_to_int :: "int \<Rightarrow> int" where
  "fixed_to_int v = int32 (v * drop_bit FRACTION_BITS 1)"

definition fixed_round_to_closest_int :: "int \<Rightarrow> int" where
  "fixed_round_to_closest_int v =
     int32 (v + (if v > 0 then 1 else - 1) * push_bit (FRACTION_BITS - 1) 1) sdiv push_bit FRACTION_BITS 1"

definition fixed_sum :: "int \<Rightarrow> int \<Rightarrow> int" where
  "fixed_sum a b = int32 (a + b)"

definition fixed_int_sum :: "int \<Rightarrow> int \<Rightarrow> int" where
  "fixed_int_sum f i = int32 (f + int_to_fixed i)"

definition int_fixed_sum :: "int \<Rightarrow> int \<Rightarrow> int" where
  "int_fixed_sum i f = fixed_int_sum f i"

definition fixed_sub :: "int \<Rightarrow> int \<Rightarrow> int" where
  "fixed_sub a b = int32 (a - b)"

definition fixed_int_sub :: "int \<Rightarrow> int \<Rightarrow> int" where
  "fixed_int_sub f i = int32 (f - int_to_fixed i)"

definition int_fixed_sub :: "int \<Rightarrow> int \<Rightarrow> int" where
  "int_fixed_sub i f = int32 (int_to_fixed i - f)"

definition fixed_mul :: "int \<Rightarrow> int \<Rightarrow> int" where
  "fixed_mul a b = int32 ((a * b) sdiv push_bit FRACTION_BITS 1)"

definition fixed_int_mul :: "int \<Rightarrow> int \<Rightarrow> int" where
  "fixed_int_mul f i = int32 (f * i)"

definition int_fixed_mul :: "int \<Rightarrow> int \<Rightarrow> int" where
  "int_fixed_mul i f = int32 (i * f)"

definition fixed_div :: "int \<Rightarrow> int \<Rightarrow> int option" where
  "fixed_div a b = (if b = 0 then None else Some (int32 ((a * push_bit FRACTION_BITS 1) sdiv b)))"

definition fixed_int_div :: "int \<Rightarrow> int \<Rightarrow> int option" where
  "fixed_int_div f i = (if i = 0 \<or> f = - (2 ^ 31) \<and> i = - 1 then None else Some (f sdiv i))"

definition int_fixed_div :: "int \<Rightarrow> int \<Rightarrow> int option" where
  "int_fixed_div i f = fixed_div i f"

section \<open>Ranges\<close>

lemma int32_id [simp]: "- (2 ^ 31) \<le> k \<Longrightarrow> k < 2 ^ 31 \<Longrightarrow> int32 k = k"
  by (simp add: int32_def signed_take_bit_int_eq_self)

lemma int32_range: "- (2 ^ 31) \<le> int32 k" "int32 k < 2 ^ 31"
  using signed_take_bit_int_greater_eq_minus_exp [of 31 k] signed_take_bit_int_less_exp [of 31 k]
  by (simp_all add: int32_def)

declare FRACTION_BITS_def [simp]

lemma sdiv_nonneg: "0 \<le> a \<Longrightarrow> 0 < b \<Longrightarrow> a sdiv b = a div b" for a b :: int
  by (auto simp: signed_divide_int_def sgn_if)

lemma sdiv_neg: "a < 0 \<Longrightarrow> 0 < b \<Longrightarrow> a sdiv b = - ((- a) div b)" for a b :: int
  by (auto simp: signed_divide_int_def sgn_if)

text \<open>Truncation moves a quotient towards zero by less than one.\<close>

lemma sdiv_bounds:
  fixes a b :: int
  assumes "0 < b"
  shows "\<bar>a sdiv b * b\<bar> \<le> \<bar>a\<bar>" and "\<bar>a - a sdiv b * b\<bar> < b"
proof -
  have m: "x div b * b + x mod b = x" "0 \<le> x mod b" "x mod b < b" for x
    using assms by simp_all
  have "0 \<le> x div b * b" if "0 \<le> x" for x
    using that assms by (simp add: pos_imp_zdiv_nonneg_iff)
  from this [of a] this [of "- a"] show "\<bar>a sdiv b * b\<bar> \<le> \<bar>a\<bar>" "\<bar>a - a sdiv b * b\<bar> < b"
    using m [of a] m [of "- a"] assms by (cases "a < 0"; simp add: sdiv_nonneg sdiv_neg; linarith)+
qed

lemma int_to_fixed_exact: "- (2 ^ 17) \<le> n \<Longrightarrow> n < 2 ^ 17 \<Longrightarrow> int_to_fixed n = n * 16384"
  by (simp add: int_to_fixed_def)

lemma sdiv_mono: "a \<le> a' \<Longrightarrow> 0 \<le> a \<Longrightarrow> 0 < b \<Longrightarrow> a sdiv b \<le> a' sdiv b" for a b :: int
  by (simp add: sdiv_nonneg zdiv_mono1)

lemma fixed_mul_nonneg:
  assumes "0 \<le> a" "0 \<le> b" "a * b \<le> M * 16384" "M < 2 ^ 31"
  shows "fixed_mul a b = a * b div 16384" and "0 \<le> fixed_mul a b" and "fixed_mul a b \<le> M"
proof -
  have b: "0 \<le> a * b div 16384" "a * b div 16384 \<le> M"
    using assms(1-3) zdiv_mono1 [of "a * b" "M * 16384" 16384] by (simp_all add: pos_imp_zdiv_nonneg_iff)
  then show "fixed_mul a b = a * b div 16384"
    using assms by (simp add: fixed_mul_def sdiv_nonneg)
  then show "0 \<le> fixed_mul a b" "fixed_mul a b \<le> M"
    using b by simp_all
qed

section \<open>Properties\<close>

text \<open>
  Rounding a fixed-point number that is not within half a unit of the ends of the 32-bit range
  gives a closest integer: the error is at most one half.
\<close>

theorem fixed_round_closest:
  assumes "- (2 ^ 31) + 8192 \<le> v" "v < 2 ^ 31 - 8192"
  shows "\<bar>fixed_round_to_closest_int v * 16384 - v\<bar> \<le> 8192"
proof -
  define w where "w = v + (if v > 0 then 1 else - 1) * 8192"
  have "int32 w = w"
    using assms by (intro int32_id) (auto simp: w_def)
  then have r: "fixed_round_to_closest_int v = w sdiv 16384"
    by (simp add: fixed_round_to_closest_int_def flip: w_def)
  show ?thesis
    using sdiv_bounds [of 16384 w] unfolding r w_def by (auto simp: abs_if split: if_splits)
qed

theorem fixed_round_closest_witness: "\<bar>fixed_round_to_closest_int (- 40000) * 16384 - (- 40000)\<bar> \<le> 8192"
  by (rule fixed_round_closest) simp_all

text \<open>
  Converting an integer of at most 17 bits to a fixed-point number and rounding back gives the
  integer, but \<^verbatim>\<open>fixed_to_int\<close>, which multiplies by \<^verbatim>\<open>1 >> FRACTION_BITS\<close>, is zero for
  every number.
\<close>

theorem fixed_roundtrip:
  assumes "- (2 ^ 17) < n" "n < 2 ^ 17 - 1"
  shows "fixed_round_to_closest_int (int_to_fixed n) = n \<and> fixed_to_int (int_to_fixed n) = 0"
proof -
  have "fixed_round_to_closest_int (n * 16384) = n"
    using assms by (auto simp: fixed_round_to_closest_int_def sdiv_nonneg sdiv_neg)
  then show ?thesis
    using assms by (simp add: int_to_fixed_exact fixed_to_int_def drop_bit_eq_div int32_def)
qed

theorem fixed_roundtrip_witness:
  "fixed_round_to_closest_int (int_to_fixed 59) = 59 \<and> fixed_to_int (int_to_fixed 59) = 0"
  by (rule fixed_roundtrip) simp_all

end
