(* ===== verification/Thread.thy ===== *)
theory Thread
  imports FixedPoint
begin

text \<open>
  \<^verbatim>\<open>src/Project2/src/threads/thread.c\<close>: threads, the ready queues of the priority scheduler and of
  the advanced (multi-level feedback queue) scheduler, sleeping threads, and priority donation.

  A thread is named by the address of its page. Every \<^verbatim>\<open>struct list\<close> of thread elements is its
  sequence of threads, filed under the identity of the list object: the queue laws proved for
  \<^verbatim>\<open>list.c\<close> make this exact as long as no element is linked into two lists at once, which is part
  of the invariant proved in the scheduler theory. Each definition is a region that the code runs
  with interrupts off, from the call to the point where it returns or gives up the processor: a
  switch makes another thread the running one, and what a thread still has to do after the switch
  is in its \<open>pending\<close> field (theory Synch). Reading memory that holds no such object (the
  element \<^verbatim>\<open>list_max\<close> returns for an empty list) is \<^term>\<open>None\<close>, as a failed assertion is.
\<close>

section \<open>State\<close>

datatype thread_status = THREAD_RUNNING | THREAD_READY | THREAD_BLOCKED | THREAD_DYING

text \<open>
  What a thread does when it next runs: it returns to its caller, or it is inside
  \<^verbatim>\<open>sema_down_donate\<close> just after \<^verbatim>\<open>thread_block\<close> (semaphore, owner lock, owner, and what follows), or
  it is between two calls of \<^verbatim>\<open>cond_wait\<close> or \<^verbatim>\<open>cond_broadcast\<close>.
\<close>

datatype after_down = Return | Take ptr | Reacquire ptr

datatype pending = Caller | In_down ptr ptr ptr after_down | Then_down ptr after_down
  | Broadcasting ptr ptr

record thread =
  magic :: u32
  tid :: int
  status :: thread_status
  base_priority :: int
  prior_don :: int
  ticks_left_to_sleep :: int
  nice :: int
  recent_cpu :: int
  lock_list :: "ptr list"
  locked_on :: ptr
  pending :: pending

datatype list_id = Ready_list | Equiprior nat | Sleepers | Waiters ptr

record kernel =
  thr :: "ptr \<Rightarrow> thread"
  lists :: "list_id \<Rightarrow> ptr list"
  all_list :: "ptr list"
  current :: ptr
  idle_thread :: ptr
  initial_thread :: ptr
  thread_mlfqs :: bool
  load_avg :: int
  ticks :: int
  thread_ticks :: u32
  idle_ticks :: int
  kernel_ticks :: int
  sema_value :: "ptr \<Rightarrow> u32"
  holder :: "ptr \<Rightarrow> ptr"
  cond_waiters :: "ptr \<Rightarrow> ptr list"

definition THREAD_MAGIC :: u32 where "THREAD_MAGIC = 0xcd6abf4b"
definition PRI_MIN :: int where "PRI_MIN = 0"
definition PRI_DEFAULT :: int where "PRI_DEFAULT = 31"
definition PRI_MAX :: int where "PRI_MAX = 63"
definition TIME_SLICE :: u32 where "TIME_SLICE = 4"
definition TIMER_FREQ :: int where "TIMER_FREQ = 100"

definition upd_thread :: "ptr \<Rightarrow> (thread \<Rightarrow> thread) \<Rightarrow> kernel \<Rightarrow> kernel" where
  "upd_thread t f s = s\<lparr>thr := (thr s)(t := f (thr s t))\<rparr>"

definition push_back :: "list_id \<Rightarrow> ptr \<Rightarrow> kernel \<Rightarrow> kernel" where
  "push_back l t s = s\<lparr>lists := (lists s)(l := lists s l @ [t])\<rparr>"

text \<open>\<^verbatim>\<open>list_remove\<close> takes the element out of whichever list it is in.\<close>

definition remove_elem :: "ptr \<Rightarrow> kernel \<Rightarrow> kernel" where
  "remove_elem t s = s\<lparr>lists := (\<lambda>l. removeAll t (lists s l))\<rparr>"

section \<open>Threads and the processor\<close>

definition is_thread :: "kernel \<Rightarrow> ptr \<Rightarrow> bool" where
  "is_thread s t \<longleftrightarrow> t \<noteq> NULL \<and> magic (thr s t) = THREAD_MAGIC"

definition thread_current :: "kernel \<Rightarrow> ptr option" where
  "thread_current s = do {
     ASSERT (is_thread s (current s));
     ASSERT (status (thr s (current s)) = THREAD_RUNNING);
     Some (current s) }"

definition thread_cmp :: "kernel \<Rightarrow> ptr \<Rightarrow> ptr \<Rightarrow> bool" where
  "thread_cmp s a b \<longleftrightarrow> prior_don (thr s a) < prior_don (thr s b)"

text \<open>The queue a thread is put into when it becomes ready.\<close>

definition ready_queue :: "kernel \<Rightarrow> ptr \<Rightarrow> list_id" where
  "ready_queue s t = (if thread_mlfqs s then Equiprior (nat (prior_don (thr s t) - PRI_MIN)) else Ready_list)"

definition thread_unblock :: "ptr \<Rightarrow> kernel \<Rightarrow> kernel option" where
  "thread_unblock t s = do {
     ASSERT (is_thread s t);
     ASSERT (status (thr s t) = THREAD_BLOCKED);
     let s = (if t \<noteq> idle_thread s then push_back (ready_queue s t) t s else s);
     Some (upd_thread t (\<lambda>r. r\<lparr>status := THREAD_READY\<rparr>) s) }"

text \<open>The scan over the queues of the advanced scheduler, from the highest priority down.\<close>

fun highest_queue :: "kernel \<Rightarrow> nat \<Rightarrow> ptr option" where
  "highest_queue s n = (case lists s (Equiprior n) of
     t # _ \<Rightarrow> Some t
   | [] \<Rightarrow> (if n = 0 then None else highest_queue s (n - 1)))"

declare highest_queue.simps [simp del]

definition get_next_thread_to_run :: "kernel \<Rightarrow> ptr option" where
  "get_next_thread_to_run s =
     (if \<not> thread_mlfqs s \<and> lists s Ready_list = [] then Some (idle_thread s)
      else if \<not> thread_mlfqs s then first_max (thread_cmp s) (lists s Ready_list)
      else case highest_queue s (nat (PRI_MAX - PRI_MIN)) of
        None \<Rightarrow> Some (idle_thread s)
      | Some t \<Rightarrow> do { ASSERT (t \<noteq> NULL); Some t })"

definition next_thread_to_run :: "kernel \<Rightarrow> (ptr \<times> kernel) option" where
  "next_thread_to_run s = do {
     nxt \<leftarrow> get_next_thread_to_run s;
     Some (nxt, if nxt \<noteq> idle_thread s \<and> status (thr s nxt) = THREAD_READY
                then remove_elem nxt s else s) }"

text \<open>\<^verbatim>\<open>palloc_free_page\<close> fills a page with \<^verbatim>\<open>0xcc\<close> bytes, so a freed page is no thread.\<close>

definition free_thread :: "ptr \<Rightarrow> kernel \<Rightarrow> kernel" where
  "free_thread t = upd_thread t (\<lambda>r. r\<lparr>magic := 0xcccccccc, prior_don := - 0x33333334, base_priority := - 0x33333334\<rparr>)"

definition thread_schedule_tail :: "ptr \<Rightarrow> kernel \<Rightarrow> kernel option" where
  "thread_schedule_tail prev s = do {
     let s = upd_thread (current s) (\<lambda>r. r\<lparr>status := THREAD_RUNNING\<rparr>) s;
     let s = s\<lparr>thread_ticks := 0\<rparr>;
     if prev \<noteq> NULL \<and> status (thr s prev) = THREAD_DYING \<and> prev \<noteq> initial_thread s then do {
       ASSERT (prev \<noteq> current s);
       Some (free_thread prev s) }
     else Some s }"

definition schedule :: "kernel \<Rightarrow> kernel option" where
  "schedule s = do {
     let cur = current s;
     (nxt, s) \<leftarrow> next_thread_to_run s;
     ASSERT (status (thr s cur) \<noteq> THREAD_RUNNING);
     ASSERT (is_thread s nxt);
     thread_schedule_tail (if cur \<noteq> nxt then cur else NULL) (s\<lparr>current := nxt\<rparr>) }"

definition thread_block :: "kernel \<Rightarrow> kernel option" where
  "thread_block s = do {
     cur \<leftarrow> thread_current s;
     schedule (upd_thread cur (\<lambda>r. r\<lparr>status := THREAD_BLOCKED\<rparr>) s) }"

definition thread_yield :: "kernel \<Rightarrow> kernel option" where
  "thread_yield s = do {
     cur \<leftarrow> thread_current s;
     if cur = idle_thread s then Some s
     else do {
       let s = push_back (ready_queue s cur) cur s;
       schedule (upd_thread cur (\<lambda>r. r\<lparr>status := THREAD_READY\<rparr>) s) } }"

definition thread_yield_if_needed :: "kernel \<Rightarrow> kernel option" where
  "thread_yield_if_needed s = do {
     cur \<leftarrow> thread_current s;
     nxt \<leftarrow> get_next_thread_to_run s;
     s \<leftarrow> (if cur = idle_thread s \<and> status (thr s cur) = THREAD_RUNNING then thread_yield s else Some s);
     if nxt = idle_thread s then Some s
     else do {
       ASSERT (cur \<noteq> NULL);
       ASSERT (nxt \<noteq> NULL);
       if status (thr s cur) \<noteq> THREAD_RUNNING then Some s
       else if cur \<noteq> nxt \<and> (prior_don (thr s cur) < prior_don (thr s nxt) \<or> status (thr s nxt) \<noteq> THREAD_READY)
       then thread_yield s
       else Some s } }"

definition thread_exit :: "kernel \<Rightarrow> kernel option" where
  "thread_exit s = do {
     cur \<leftarrow> thread_current s;
     let s = s\<lparr>all_list := removeAll cur (all_list s)\<rparr>;
     schedule (upd_thread cur (\<lambda>r. r\<lparr>status := THREAD_DYING\<rparr>) s) }"

section \<open>The advanced scheduler\<close>

definition thread_priority_update :: "ptr \<Rightarrow> kernel \<Rightarrow> kernel option" where
  "thread_priority_update t s = do {
     ASSERT (is_thread s t);
     if t = idle_thread s then Some s
     else do {
       q \<leftarrow> fixed_int_div (recent_cpu (thr s t)) 4;
       let p = int32 (PRI_MAX - fixed_round_to_closest_int q - nice (thr s t) * 2);
       let p = (if p > PRI_MAX then PRI_MAX else p);
       let p = (if p < PRI_MIN then PRI_MIN else p);
       Some (upd_thread t (\<lambda>r. r\<lparr>base_priority := p, prior_don := p\<rparr>) s) } }"

primrec thread_foreach :: "(ptr \<Rightarrow> kernel \<Rightarrow> kernel option) \<Rightarrow> ptr list \<Rightarrow> kernel \<Rightarrow> kernel option" where
  "thread_foreach func [] s = Some s"
| "thread_foreach func (t # ts) s = do { s \<leftarrow> func t s; thread_foreach func ts s }"

definition thread_priority_update_all :: "kernel \<Rightarrow> kernel option" where
  "thread_priority_update_all s = thread_foreach thread_priority_update (all_list s) s"

definition update_recent_cpu_of_thread :: "ptr \<Rightarrow> kernel \<Rightarrow> kernel option" where
  "update_recent_cpu_of_thread t s = do {
     coeff \<leftarrow> fixed_div (fixed_int_mul (load_avg s) 2) (fixed_int_sum (fixed_int_mul (load_avg s) 2) 1);
     let c = fixed_int_sum (fixed_mul coeff (recent_cpu (thr s t))) (nice (thr s t));
     Some (upd_thread t (\<lambda>r. r\<lparr>recent_cpu := c\<rparr>) s) }"

definition update_recent_cpu :: "kernel \<Rightarrow> kernel option" where
  "update_recent_cpu s = thread_foreach update_recent_cpu_of_thread (all_list s) s"

definition count_load_avg :: "kernel \<Rightarrow> kernel option" where
  "count_load_avg s =
     (if \<not> thread_mlfqs s then Some s
      else do {
        let cnt = sum_list (map (\<lambda>p. int (length (lists s (Equiprior p)))) [0..<64]);
        cur \<leftarrow> thread_current s;
        let cnt = (if cur \<noteq> idle_thread s \<and> status (thr s cur) = THREAD_RUNNING then cnt + 1 else cnt);
        a \<leftarrow> fixed_int_div (int_to_fixed 59) 60;
        b \<leftarrow> fixed_int_div (int_to_fixed 1) 60;
        Some (s\<lparr>load_avg := fixed_sum (fixed_mul a (load_avg s)) (fixed_int_mul b cnt)\<rparr>) })"

definition thread_get_load_avg :: "kernel \<Rightarrow> int" where
  "thread_get_load_avg s = fixed_round_to_closest_int (fixed_int_mul (load_avg s) 100)"

definition thread_get_recent_cpu :: "kernel \<Rightarrow> int option" where
  "thread_get_recent_cpu s = do {
     cur \<leftarrow> thread_current s;
     Some (fixed_round_to_closest_int (fixed_int_mul (recent_cpu (thr s cur)) 100)) }"

definition thread_set_nice :: "int \<Rightarrow> kernel \<Rightarrow> kernel option" where
  "thread_set_nice n s = do {
     cur \<leftarrow> thread_current s;
     s \<leftarrow> thread_priority_update cur (upd_thread cur (\<lambda>r. r\<lparr>nice := n\<rparr>) s);
     thread_yield_if_needed s }"

definition thread_get_nice :: "kernel \<Rightarrow> int option" where
  "thread_get_nice s = do { cur \<leftarrow> thread_current s; Some (nice (thr s cur)) }"

section \<open>Sleeping\<close>

definition sleepers_is_less_cmp :: "kernel \<Rightarrow> ptr \<Rightarrow> ptr \<Rightarrow> bool" where
  "sleepers_is_less_cmp s a b \<longleftrightarrow> ticks_left_to_sleep (thr s a) < ticks_left_to_sleep (thr s b)"

definition sleep_the_thread :: "int \<Rightarrow> kernel \<Rightarrow> kernel option" where
  "sleep_the_thread n s = do {
     cur \<leftarrow> thread_current s;
     let s = upd_thread cur (\<lambda>r. r\<lparr>ticks_left_to_sleep := n + ticks s\<rparr>) s;
     let s = s\<lparr>lists := (lists s)(Sleepers := insert_ordered (sleepers_is_less_cmp s) cur (lists s Sleepers))\<rparr>;
     thread_block s }"

primrec wake_sleepers :: "ptr list \<Rightarrow> kernel \<Rightarrow> kernel option" where
  "wake_sleepers [] s = Some s"
| "wake_sleepers (t # ts) s =
     (if ticks_left_to_sleep (thr s t) \<le> ticks s then do {
        let s = upd_thread t (\<lambda>r. r\<lparr>ticks_left_to_sleep := ticks s\<rparr>) s;
        s \<leftarrow> thread_unblock t (remove_elem t s);
        wake_sleepers ts s }
      else Some s)"

text \<open>The result also says whether the interrupt handler yields before it returns.\<close>

definition handle_tick_for_sleep_queue :: "kernel \<Rightarrow> (kernel \<times> bool) option" where
  "handle_tick_for_sleep_queue s =
     (if lists s Sleepers = [] then Some (s, False)
      else do { s \<leftarrow> wake_sleepers (lists s Sleepers) s; Some (s, True) })"

definition thread_tick :: "kernel \<Rightarrow> (kernel \<times> bool) option" where
  "thread_tick s = do {
     t \<leftarrow> thread_current s;
     let s = (if t = idle_thread s then s\<lparr>idle_ticks := idle_ticks s + 1\<rparr>
              else s\<lparr>kernel_ticks := kernel_ticks s + 1\<rparr>);
     let s = s\<lparr>thread_ticks := thread_ticks s + 1\<rparr>;
     Some (s, TIME_SLICE \<le> thread_ticks s) }"

definition timer_interrupt :: "kernel \<Rightarrow> kernel option" where
  "timer_interrupt s = do {
     let s = s\<lparr>ticks := ticks s + 1\<rparr>;
     (s, y1) \<leftarrow> thread_tick s;
     (s, y2) \<leftarrow> handle_tick_for_sleep_queue s;
     s \<leftarrow> (if thread_mlfqs s then do {
            cur \<leftarrow> thread_current s;
            let s = (if status (thr s cur) = THREAD_RUNNING
                     then upd_thread cur (\<lambda>r. r\<lparr>recent_cpu := fixed_int_sum (recent_cpu r) 1\<rparr>) s else s);
            s \<leftarrow> (if ticks s mod TIMER_FREQ = 0 then do { s \<leftarrow> count_load_avg s; update_recent_cpu s } else Some s);
            if ticks s mod 4 = 0 then thread_priority_update_all s else Some s }
          else Some s);
     if y1 \<or> y2 then thread_yield s else Some s }"

section \<open>Donation\<close>

partial_function (option) thread_donate :: "ptr \<Rightarrow> int \<Rightarrow> kernel \<Rightarrow> kernel option" where
  "thread_donate t priority s = do {
     ASSERT (t \<noteq> NULL);
     if \<not> is_thread s t then Some s
     else if prior_don (thr s t) < priority then do {
       let s = upd_thread t (\<lambda>r. r\<lparr>prior_don := priority\<rparr>) s;
       if locked_on (thr s t) \<noteq> NULL then thread_donate (holder s (locked_on (thr s t))) priority s
       else Some s }
     else Some s }"

text \<open>The semaphore is a member of the lock, twelve bytes into it.\<close>

definition lock_sema :: "ptr \<Rightarrow> ptr" where
  "lock_sema l = l + 12"

primrec donations_of_locks :: "ptr \<Rightarrow> ptr list \<Rightarrow> kernel \<Rightarrow> kernel option" where
  "donations_of_locks t [] s = Some s"
| "donations_of_locks t (l # ls) s = do {
     mx \<leftarrow> first_max (thread_cmp s) (lists s (Waiters (lock_sema l)));
     donations_of_locks t ls
       (if prior_don (thr s mx) > prior_don (thr s t)
        then upd_thread t (\<lambda>r. r\<lparr>prior_don := prior_don (thr s mx)\<rparr>) s else s) }"

partial_function (option) thread_update_donations :: "ptr \<Rightarrow> kernel \<Rightarrow> kernel option" where
  "thread_update_donations t s = do {
     ASSERT (t \<noteq> NULL);
     if \<not> is_thread s t then Some s
     else do {
       let start_priority = prior_don (thr s t);
       let s = upd_thread t (\<lambda>r. r\<lparr>prior_don := base_priority r\<rparr>) s;
       s \<leftarrow> donations_of_locks t (lock_list (thr s t)) s;
       if locked_on (thr s t) \<noteq> NULL \<and> prior_don (thr s t) \<noteq> start_priority
       then thread_update_donations (holder s (locked_on (thr s t))) s
       else Some s } }"

definition thread_set_priority :: "int \<Rightarrow> kernel \<Rightarrow> kernel option" where
  "thread_set_priority new_priority s = do {
     ASSERT (PRI_MIN \<le> new_priority \<and> new_priority \<le> PRI_MAX);
     cur \<leftarrow> thread_current s;
     let s = upd_thread cur (\<lambda>r. r\<lparr>base_priority := new_priority\<rparr>) s;
     s \<leftarrow> (if \<not> thread_mlfqs s then
            if prior_don (thr s cur) < new_priority
            then Some (upd_thread cur (\<lambda>r. r\<lparr>prior_don := new_priority\<rparr>) s)
            else thread_update_donations cur s
          else Some (upd_thread cur (\<lambda>r. r\<lparr>prior_don := base_priority r\<rparr>) s));
     thread_yield_if_needed s }"

definition thread_get_priority :: "kernel \<Rightarrow> int option" where
  "thread_get_priority s = do { cur \<leftarrow> thread_current s; Some (prior_don (thr s cur)) }"

section \<open>Creation\<close>

definition sema_init :: "ptr \<Rightarrow> u32 \<Rightarrow> kernel \<Rightarrow> kernel option" where
  "sema_init sema v s = do {
     ASSERT (sema \<noteq> NULL);
     Some (s\<lparr>sema_value := (sema_value s)(sema := v), lists := (lists s)(Waiters sema := [])\<rparr>) }"

definition lock_init :: "ptr \<Rightarrow> kernel \<Rightarrow> kernel option" where
  "lock_init lock s = do {
     ASSERT (lock \<noteq> NULL);
     sema_init (lock_sema lock) 1 (s\<lparr>holder := (holder s)(lock := NULL)\<rparr>) }"

text \<open>The lock embedded in the thread structure.\<close>

definition prior_lock :: "ptr \<Rightarrow> ptr" where
  "prior_lock t = t + 88"

text \<open>A new thread of the advanced scheduler inherits the niceness and processor use of its creator.\<close>

definition inherit_nice :: "ptr \<Rightarrow> kernel \<Rightarrow> kernel" where
  "inherit_nice t s =
     (if is_thread s (current s) \<and> t \<noteq> initial_thread s \<and> current s \<noteq> idle_thread s
      then upd_thread t (\<lambda>r. r\<lparr>nice := nice (thr s (current s)), recent_cpu := recent_cpu (thr s (current s))\<rparr>) s
      else upd_thread t (\<lambda>r. r\<lparr>nice := 0, recent_cpu := 0\<rparr>) s)"

definition init_thread :: "ptr \<Rightarrow> int \<Rightarrow> kernel \<Rightarrow> kernel option" where
  "init_thread t priority s = do {
     ASSERT (t \<noteq> NULL);
     ASSERT (PRI_MIN \<le> priority \<and> priority \<le> PRI_MAX);
     let s = upd_thread t (\<lambda>_. \<lparr>magic = THREAD_MAGIC, tid = 0, status = THREAD_BLOCKED,
       base_priority = priority, prior_don = priority, ticks_left_to_sleep = 0, nice = 0,
       recent_cpu = 0, lock_list = [], locked_on = NULL, pending = Caller\<rparr>) s;
     s \<leftarrow> lock_init (prior_lock t) s;
     s \<leftarrow> (if thread_mlfqs s then thread_priority_update t (inherit_nice t s) else Some s);
     Some (s\<lparr>all_list := all_list s @ [t]\<rparr>) }"

text \<open>
  The page that \<^verbatim>\<open>palloc_get_page\<close> returns (null when there is none) and the identifier that
  \<^verbatim>\<open>allocate_tid\<close> returns are arguments. The frames on the new stack make the thread start in its
  function, that is, with nothing pending.
\<close>

definition thread_create :: "ptr \<Rightarrow> int \<Rightarrow> int \<Rightarrow> kernel \<Rightarrow> (kernel \<times> int) option" where
  "thread_create page new_tid priority s =
     (if page = NULL then Some (s, - 1)
      else do {
        s \<leftarrow> init_thread page priority s;
        let s = upd_thread page (\<lambda>r. r\<lparr>tid := new_tid\<rparr>) s;
        s \<leftarrow> thread_unblock page s;
        s \<leftarrow> thread_yield s;
        Some (s, new_tid) })"

end
