(* ===== verification/Synch.thy ===== *)
theory Synch
  imports Thread
begin

text \<open>
  \<^verbatim>\<open>src/Project2/src/threads/synch.c\<close>: semaphores, locks with priority donation and condition
  variables. A call that gives up the processor in the middle records in the \<open>pending\<close> field of its
  thread what is left to do, and \<open>resume\<close> continues it when the thread runs again.
\<close>

section \<open>Semaphores\<close>

definition thread_less :: "kernel \<Rightarrow> ptr \<Rightarrow> ptr \<Rightarrow> bool" where
  "thread_less s a b \<longleftrightarrow> prior_don (thr s a) < prior_don (thr s b)"

definition highest_priority_locked_on :: "ptr \<Rightarrow> kernel \<Rightarrow> int option" where
  "highest_priority_locked_on sema s = do {
     ASSERT (lists s (Waiters sema) \<noteq> []);
     t \<leftarrow> first_max (thread_less s) (lists s (Waiters sema));
     Some (prior_don (thr s t)) }"

definition set_pending :: "ptr \<Rightarrow> pending \<Rightarrow> kernel \<Rightarrow> kernel" where
  "set_pending t k = upd_thread t (\<lambda>r. r\<lparr>pending := k\<rparr>)"

text \<open>The donation made on the way into \<^verbatim>\<open>thread_block\<close>.\<close>

definition down_donate :: "ptr \<Rightarrow> kernel \<Rightarrow> (kernel \<times> ptr) option" where
  "down_donate owner_lock s =
     (if owner_lock \<noteq> NULL \<and> \<not> thread_mlfqs s then
        let s = upd_thread (current s) (\<lambda>r. r\<lparr>locked_on := owner_lock\<rparr>) s
        in if holder s owner_lock \<noteq> NULL then do {
             p \<leftarrow> thread_get_priority s;
             s \<leftarrow> thread_donate (holder s owner_lock) p s;
             Some (s, holder s owner_lock) }
           else Some (s, NULL)
      else Some (s, NULL))"

text \<open>
  The head of the loop of \<^verbatim>\<open>sema_down_donate\<close>: take the semaphore, or wait for it, donating to the
  owner of the lock. The result says whether the semaphore has been taken.
\<close>

definition sema_down_test :: "ptr \<Rightarrow> ptr \<Rightarrow> after_down \<Rightarrow> kernel \<Rightarrow> (kernel \<times> bool) option" where
  "sema_down_test sema owner_lock k s = do {
     ASSERT (sema \<noteq> NULL);
     cur \<leftarrow> thread_current s;
     if sema_value s sema = 0 then do {
       (s, owner) \<leftarrow> down_donate owner_lock (push_back (Waiters sema) cur s);
       s \<leftarrow> thread_block (set_pending cur (In_down sema owner_lock owner k) s);
       Some (s, False) }
     else do {
       let s = set_pending cur Caller (upd_thread cur (\<lambda>r. r\<lparr>locked_on := NULL\<rparr>) s);
       Some (s\<lparr>sema_value := (sema_value s)(sema := sema_value s sema - 1)\<rparr>, True) } }"

definition sema_down :: "ptr \<Rightarrow> kernel \<Rightarrow> kernel option" where
  "sema_down sema s = map_option fst (sema_down_test sema NULL Return s)"

definition sema_try_down :: "ptr \<Rightarrow> kernel \<Rightarrow> (kernel \<times> bool) option" where
  "sema_try_down sema s = do {
     ASSERT (sema \<noteq> NULL);
     Some (if sema_value s sema > 0
           then (s\<lparr>sema_value := (sema_value s)(sema := sema_value s sema - 1)\<rparr>, True)
           else (s, False)) }"

primrec unblock_waiters :: "ptr \<Rightarrow> ptr list \<Rightarrow> kernel \<Rightarrow> (kernel \<times> bool) option" where
  "unblock_waiters sema [] s = Some (s, False)"
| "unblock_waiters sema (t # ts) s = do {
     let s = s\<lparr>lists := (lists s)(Waiters sema := ts)\<rparr>;
     s \<leftarrow> thread_unblock t s;
     let y = (prior_don (thr s (current s)) > base_priority (thr s (current s))
              \<and> prior_don (thr s (current s)) \<le> prior_don (thr s t));
     (s, ys) \<leftarrow> unblock_waiters sema ts s;
     Some (s, y \<or> ys) }"

definition sema_up :: "ptr \<Rightarrow> kernel \<Rightarrow> kernel option" where
  "sema_up sema s = do {
     ASSERT (sema \<noteq> NULL);
     _ \<leftarrow> thread_current s;
     (s, shouldYield) \<leftarrow> unblock_waiters sema (lists s (Waiters sema)) s;
     let s = s\<lparr>sema_value := (sema_value s)(sema := sema_value s sema + 1)\<rparr>;
     if shouldYield then thread_yield s else thread_yield_if_needed s }"

section \<open>Locks\<close>

definition lock_held_by_current_thread :: "ptr \<Rightarrow> kernel \<Rightarrow> bool option" where
  "lock_held_by_current_thread lock s = do {
     ASSERT (lock \<noteq> NULL);
     cur \<leftarrow> thread_current s;
     Some (holder s lock = cur) }"

text \<open>The end of \<^verbatim>\<open>lock_acquire\<close>, once the semaphore is down.\<close>

definition lock_take :: "ptr \<Rightarrow> kernel \<Rightarrow> kernel option" where
  "lock_take lock s = do {
     cur \<leftarrow> thread_current s;
     let s = s\<lparr>holder := (holder s)(lock := cur)\<rparr>;
     Some (if \<not> thread_mlfqs s then upd_thread cur (\<lambda>r. r\<lparr>lock_list := lock # lock_list r\<rparr>) s else s) }"

definition lock_acquire :: "ptr \<Rightarrow> kernel \<Rightarrow> kernel option" where
  "lock_acquire lock s = do {
     ASSERT (lock \<noteq> NULL);
     held \<leftarrow> lock_held_by_current_thread lock s;
     ASSERT (\<not> held);
     (s, taken) \<leftarrow> sema_down_test (lock_sema lock) (if \<not> thread_mlfqs s then lock else NULL) (Take lock) s;
     if taken then lock_take lock s else Some s }"

definition lock_try_acquire :: "ptr \<Rightarrow> kernel \<Rightarrow> (kernel \<times> bool) option" where
  "lock_try_acquire lock s = do {
     ASSERT (lock \<noteq> NULL);
     held \<leftarrow> lock_held_by_current_thread lock s;
     ASSERT (\<not> held);
     (s, success) \<leftarrow> sema_try_down (lock_sema lock) s;
     if success then do { s \<leftarrow> lock_take lock s; Some (s, True) } else Some (s, False) }"

text \<open>\<^verbatim>\<open>list_remove(&lock->elem)\<close> unlinks the lock from the list of its holder, the caller.\<close>

definition lock_release :: "ptr \<Rightarrow> kernel \<Rightarrow> kernel option" where
  "lock_release lock s = do {
     ASSERT (lock \<noteq> NULL);
     held \<leftarrow> lock_held_by_current_thread lock s;
     ASSERT held;
     let s = s\<lparr>holder := (holder s)(lock := NULL)\<rparr>;
     let s = (if \<not> thread_mlfqs s
              then upd_thread (current s) (\<lambda>r. r\<lparr>lock_list := removeAll lock (lock_list r)\<rparr>) s else s);
     sema_up (lock_sema lock) s }"

section \<open>Condition variables\<close>

text \<open>The semaphore of a \<^verbatim>\<open>struct semaphore_elem\<close>, eight bytes into it.\<close>

definition elem_sema :: "ptr \<Rightarrow> ptr" where
  "elem_sema w = w + 8"

definition cond_init :: "ptr \<Rightarrow> kernel \<Rightarrow> kernel option" where
  "cond_init cond s = do {
     ASSERT (cond \<noteq> NULL);
     Some (s\<lparr>cond_waiters := (cond_waiters s)(cond := [])\<rparr>) }"

text \<open>
  \<^verbatim>\<open>waiter\<close> is a local variable; its address on the caller's stack is an argument. After
  \<^verbatim>\<open>lock_release\<close>, which may yield, the caller goes on to \<^verbatim>\<open>sema_down\<close> and then to
  \<^verbatim>\<open>lock_acquire\<close>.
\<close>

definition cond_wait :: "ptr \<Rightarrow> ptr \<Rightarrow> ptr \<Rightarrow> kernel \<Rightarrow> kernel option" where
  "cond_wait waiter cond lock s = do {
     ASSERT (cond \<noteq> NULL);
     ASSERT (lock \<noteq> NULL);
     held \<leftarrow> lock_held_by_current_thread lock s;
     ASSERT held;
     s \<leftarrow> sema_init (elem_sema waiter) 0 s;
     let s = s\<lparr>cond_waiters := (cond_waiters s)(cond := cond_waiters s cond @ [waiter])\<rparr>;
     lock_release lock (set_pending (current s) (Then_down (elem_sema waiter) (Reacquire lock)) s) }"

definition semaphore_elem_less :: "kernel \<Rightarrow> ptr \<Rightarrow> ptr \<Rightarrow> bool" where
  "semaphore_elem_less s a b =
     (let li_a = lists s (Waiters (elem_sema a)); li_b = lists s (Waiters (elem_sema b))
      in case first_max (thread_less s) li_a of
           None \<Rightarrow> li_b \<noteq> []
         | Some t_a \<Rightarrow> (case first_max (thread_less s) li_b of
             None \<Rightarrow> False
           | Some t_b \<Rightarrow> prior_don (thr s t_a) < prior_don (thr s t_b)))"

definition cond_signal :: "ptr \<Rightarrow> ptr \<Rightarrow> kernel \<Rightarrow> kernel option" where
  "cond_signal cond lock s = do {
     ASSERT (cond \<noteq> NULL);
     held \<leftarrow> lock_held_by_current_thread lock s;
     ASSERT held;
     case first_max (semaphore_elem_less s) (cond_waiters s cond) of
       None \<Rightarrow> Some s
     | Some w \<Rightarrow> sema_up (elem_sema w) (s\<lparr>cond_waiters := (cond_waiters s)(cond := removeAll w (cond_waiters s cond))\<rparr>) }"

text \<open>One round of the loop of \<^verbatim>\<open>cond_broadcast\<close>; \<^verbatim>\<open>sema_up\<close> may yield between two rounds.\<close>

definition broadcast_round :: "ptr \<Rightarrow> ptr \<Rightarrow> kernel \<Rightarrow> kernel option" where
  "broadcast_round cond lock s = (case cond_waiters s cond of
     [] \<Rightarrow> Some (set_pending (current s) Caller s)
   | w # ws \<Rightarrow> sema_up (elem_sema w)
       (set_pending (current s) (Broadcasting cond lock) (s\<lparr>cond_waiters := (cond_waiters s)(cond := ws)\<rparr>)))"

definition cond_broadcast :: "ptr \<Rightarrow> ptr \<Rightarrow> kernel \<Rightarrow> kernel option" where
  "cond_broadcast cond lock s = do {
     ASSERT (cond \<noteq> NULL);
     held \<leftarrow> lock_held_by_current_thread lock s;
     ASSERT held;
     broadcast_round cond lock s }"

section \<open>Continuing after a switch\<close>

definition finish_down :: "after_down \<Rightarrow> kernel \<times> bool \<Rightarrow> kernel option" where
  "finish_down k r = (if \<not> snd r then Some (fst r)
     else case k of Return \<Rightarrow> Some (fst r) | Take lock \<Rightarrow> lock_take lock (fst r)
       | Reacquire lock \<Rightarrow> lock_acquire lock (fst r))"

text \<open>The rest of the loop body of \<^verbatim>\<open>sema_down_donate\<close> after \<^verbatim>\<open>thread_block\<close>.\<close>

definition after_block :: "ptr \<Rightarrow> kernel \<Rightarrow> kernel option" where
  "after_block owner s = do {
     p \<leftarrow> thread_get_priority s;
     if \<not> thread_mlfqs s \<and> owner \<noteq> NULL \<and> prior_don (thr s owner) \<le> p
     then thread_update_donations owner s else Some s }"

definition resume :: "kernel \<Rightarrow> kernel option" where
  "resume s = (case pending (thr s (current s)) of
     Caller \<Rightarrow> Some s
   | In_down sema owner_lock owner k \<Rightarrow> do {
       s \<leftarrow> after_block owner s;
       r \<leftarrow> sema_down_test sema owner_lock k s;
       finish_down k r }
   | Then_down sema k \<Rightarrow> do {
       r \<leftarrow> sema_down_test sema NULL k s;
       finish_down k r }
   | Broadcasting cond lock \<Rightarrow> broadcast_round cond lock s)"

end
