(* ===== verification/Sched.thy ===== *)
theory Sched
  imports Synch
begin

text \<open>
  The invariant of the thread system and its preservation by the scheduler: every thread element
  is linked into at most one list, ready threads are exactly those in the ready queues, waiting
  and sleeping threads are blocked, one thread runs, the sleep queue is sorted by wake-up time and
  priorities stay in range.
\<close>

section \<open>The invariant\<close>

fun is_ready :: "list_id \<Rightarrow> bool" where
  "is_ready Ready_list \<longleftrightarrow> True"
| "is_ready (Equiprior n) \<longleftrightarrow> True"
| "is_ready Sleepers \<longleftrightarrow> False"
| "is_ready (Waiters a) \<longleftrightarrow> False"

text \<open>No element is in two places.\<close>

definition linked_once :: "kernel \<Rightarrow> bool" where
  "linked_once s \<longleftrightarrow> (\<forall>l. distinct (lists s l)) \<and>
     (\<forall>l l' t. t \<in> set (lists s l) \<longrightarrow> t \<in> set (lists s l') \<longrightarrow> l = l')"

text \<open>The lists and the status of the threads agree; no ready thread is lost.\<close>

definition list_status :: "list_id \<Rightarrow> thread_status" where
  "list_status l = (if is_ready l then THREAD_READY else THREAD_BLOCKED)"

definition members_ok :: "kernel \<Rightarrow> bool" where
  "members_ok s \<longleftrightarrow> (\<forall>l t. t \<in> set (lists s l) \<longrightarrow>
     is_thread s t \<and> t \<noteq> idle_thread s \<and> status (thr s t) = list_status l)"

definition none_lost :: "kernel \<Rightarrow> bool" where
  "none_lost s \<longleftrightarrow> (\<forall>t. is_thread s t \<longrightarrow> status (thr s t) = THREAD_READY \<longrightarrow> t \<noteq> idle_thread s \<longrightarrow>
     (\<exists>l. is_ready l \<and> t \<in> set (lists s l)))"

definition idle_ok :: "kernel \<Rightarrow> bool" where
  "idle_ok s \<longleftrightarrow> is_thread s (idle_thread s) \<and> status (thr s (idle_thread s)) \<noteq> THREAD_DYING"

definition mode_ok :: "kernel \<Rightarrow> bool" where
  "mode_ok s \<longleftrightarrow> (lists s Ready_list \<noteq> [] \<longrightarrow> \<not> thread_mlfqs s) \<and>
     (\<forall>n. lists s (Equiprior n) \<noteq> [] \<longrightarrow> thread_mlfqs s \<and> n \<le> 63)"

definition sleep_sorted :: "kernel \<Rightarrow> bool" where
  "sleep_sorted s \<longleftrightarrow> sorted_wrt (\<lambda>a b. \<not> sleepers_is_less_cmp s b a) (lists s Sleepers)"

definition prio_ok :: "kernel \<Rightarrow> bool" where
  "prio_ok s \<longleftrightarrow> (\<forall>t. is_thread s t \<longrightarrow> prior_don (thr s t) \<in> {PRI_MIN..PRI_MAX} \<and>
     base_priority (thr s t) \<in> {PRI_MIN..PRI_MAX})"

definition all_ok :: "kernel \<Rightarrow> bool" where
  "all_ok s \<longleftrightarrow> (\<forall>t \<in> set (all_list s). is_thread s t \<and> status (thr s t) \<noteq> THREAD_DYING)"

definition queues_ok :: "kernel \<Rightarrow> bool" where
  "queues_ok s \<longleftrightarrow> linked_once s \<and> members_ok s \<and> none_lost s \<and> idle_ok s \<and> mode_ok s \<and> sleep_sorted s \<and> prio_ok s \<and> all_ok s"

definition running_ok :: "kernel \<Rightarrow> bool" where
  "running_ok s \<longleftrightarrow> is_thread s (current s) \<and>
     (\<forall>t. is_thread s t \<longrightarrow> (status (thr s t) = THREAD_RUNNING \<longleftrightarrow> t = current s))"

text \<open>The state at the call of \<^verbatim>\<open>schedule\<close>: the thread that gives up the processor has left the running state.\<close>

definition none_running :: "kernel \<Rightarrow> bool" where
  "none_running s \<longleftrightarrow> is_thread s (current s) \<and> (\<forall>t. is_thread s t \<longrightarrow> status (thr s t) \<noteq> THREAD_RUNNING)"

definition sched_inv :: "kernel \<Rightarrow> bool" where
  "sched_inv s \<longleftrightarrow> queues_ok s \<and> running_ok s"

lemma queues_okD:
  assumes "queues_ok s"
  shows "linked_once s" "members_ok s" "none_lost s" "idle_ok s" "mode_ok s" "sleep_sorted s" "prio_ok s" "all_ok s"
  using assms by (simp_all add: queues_ok_def)

section \<open>Reading the state after an update\<close>

lemma upd_thread_simps [simp]:
  "thr (upd_thread t f s) = (thr s)(t := f (thr s t))"
  "lists (upd_thread t f s) = lists s"
  "current (upd_thread t f s) = current s"
  "idle_thread (upd_thread t f s) = idle_thread s"
  "initial_thread (upd_thread t f s) = initial_thread s"
  "thread_mlfqs (upd_thread t f s) = thread_mlfqs s"
  "all_list (upd_thread t f s) = all_list s"
  "ticks (upd_thread t f s) = ticks s"
  "load_avg (upd_thread t f s) = load_avg s"
  "sema_value (upd_thread t f s) = sema_value s"
  "holder (upd_thread t f s) = holder s"
  "cond_waiters (upd_thread t f s) = cond_waiters s"
  by (simp_all add: upd_thread_def)

lemma push_back_simps [simp]:
  "thr (push_back l t s) = thr s"
  "lists (push_back l t s) = (lists s)(l := lists s l @ [t])"
  "current (push_back l t s) = current s"
  "idle_thread (push_back l t s) = idle_thread s"
  "initial_thread (push_back l t s) = initial_thread s"
  "thread_mlfqs (push_back l t s) = thread_mlfqs s"
  "all_list (push_back l t s) = all_list s"
  "ticks (push_back l t s) = ticks s"
  "load_avg (push_back l t s) = load_avg s"
  "sema_value (push_back l t s) = sema_value s"
  "holder (push_back l t s) = holder s"
  "cond_waiters (push_back l t s) = cond_waiters s"
  by (simp_all add: push_back_def)

lemma remove_elem_simps [simp]:
  "thr (remove_elem t s) = thr s"
  "lists (remove_elem t s) l = removeAll t (lists s l)"
  "current (remove_elem t s) = current s"
  "idle_thread (remove_elem t s) = idle_thread s"
  "initial_thread (remove_elem t s) = initial_thread s"
  "thread_mlfqs (remove_elem t s) = thread_mlfqs s"
  "all_list (remove_elem t s) = all_list s"
  "ticks (remove_elem t s) = ticks s"
  "load_avg (remove_elem t s) = load_avg s"
  "sema_value (remove_elem t s) = sema_value s"
  "holder (remove_elem t s) = holder s"
  "cond_waiters (remove_elem t s) = cond_waiters s"
  by (simp_all add: remove_elem_def)

lemma thread_current_running [simp]: "running_ok s \<Longrightarrow> thread_current s = Some (current s)"
  by (simp add: thread_current_def running_ok_def)

interpretation cmp: less_func "thread_cmp s" for s
  unfolding thread_cmp_def by (rule less_func_key)

interpretation sleep: less_func "sleepers_is_less_cmp s" for s
  unfolding sleepers_is_less_cmp_def by (rule less_func_key)

section \<open>Moving one thread\<close>

text \<open>
  A thread that is in no list may be linked into one, with the status that goes with it. This is
  how a thread becomes ready, goes to sleep or starts to wait.
\<close>

definition unlinked :: "kernel \<Rightarrow> ptr \<Rightarrow> bool" where
  "unlinked s t \<longleftrightarrow> (\<forall>l. t \<notin> set (lists s l))"

lemma unlinkedI: "members_ok s \<Longrightarrow> status (thr s t) \<notin> {THREAD_READY, THREAD_BLOCKED} \<Longrightarrow> unlinked s t"
  by (auto simp: unlinked_def members_ok_def list_status_def split: if_splits)

lemma unlinked_current: "members_ok s \<Longrightarrow> running_ok s \<Longrightarrow> unlinked s (current s)"
  by (rule unlinkedI) (auto simp: running_ok_def)

lemma is_thread_upd [simp]:
  "(\<And>r. magic (f r) = magic r) \<Longrightarrow> is_thread (upd_thread t f s) = is_thread s"
  by (auto simp: is_thread_def fun_eq_iff)

lemma is_thread_cong: "thr s' = thr s \<Longrightarrow> is_thread s' = is_thread s"
  by (auto simp: is_thread_def fun_eq_iff)

lemma is_thread_push_back [simp]: "is_thread (push_back l t s) = is_thread s"
  by (rule is_thread_cong) simp

lemma is_thread_remove [simp]: "is_thread (remove_elem t s) = is_thread s"
  by (rule is_thread_cong) simp

text \<open>Linking into any list, the sleep queue included, keeping its order.\<close>

lemma queues_ok_link:
  fixes l :: list_id and s s' :: kernel and t :: ptr
  assumes q: "queues_ok s" and t: "unlinked s t" "is_thread s t" "t \<noteq> idle_thread s"
    and thr: "\<And>u. u \<noteq> t \<Longrightarrow> thr s' u = thr s u" "is_thread s' t" "status (thr s' t) = list_status l"
    and s': "idle_thread s' = idle_thread s" "thread_mlfqs s' = thread_mlfqs s" "all_list s' = all_list s"
    and l: "\<And>k. k \<noteq> l \<Longrightarrow> lists s' k = lists s k" "set (lists s' l) = insert t (set (lists s l))"
      "distinct (lists s' l)"
    and mode: "l = Ready_list \<Longrightarrow> \<not> thread_mlfqs s" "\<And>n. l = Equiprior n \<Longrightarrow> thread_mlfqs s \<and> n \<le> 63"
    and keeps: "sleep_sorted s'" "prio_ok s'"
  shows "queues_ok s'"
proof -
  note qs = queues_okD [OF q]
  have other: "is_thread s' u \<longleftrightarrow> is_thread s u" for u
    using thr t(2) by (cases "u = t") (auto simp: is_thread_def)
  have "linked_once s'"
  proof -
    have "distinct (lists s' k)" for k
      using l qs(1) by (cases "k = l") (auto simp: linked_once_def)
    moreover have "set (lists s' k) = (if k = l then insert t (set (lists s k)) else set (lists s k))" for k
      using l by simp
    ultimately show ?thesis
      using qs(1) t(1) unfolding linked_once_def unlinked_def by (metis insert_iff)
  qed
  moreover have "members_ok s'"
    unfolding members_ok_def
  proof (intro allI impI)
    fix k u assume u: "u \<in> set (lists s' k)"
    show "is_thread s' u \<and> u \<noteq> idle_thread s' \<and> status (thr s' u) = list_status k"
    proof (cases "u = t")
      case True
      moreover from True u t(1) l have "k = l" by (metis unlinked_def)
      ultimately show ?thesis using t thr s' by simp
    next
      case False
      with u l have "u \<in> set (lists s k)" by (metis insert_iff)
      with qs(2) False show ?thesis by (simp add: members_ok_def other thr s')
    qed
  qed
  moreover have "none_lost s'"
    unfolding none_lost_def
  proof (intro allI impI)
    fix u assume u: "is_thread s' u" "status (thr s' u) = THREAD_READY" "u \<noteq> idle_thread s'"
    show "\<exists>k. is_ready k \<and> u \<in> set (lists s' k)"
    proof (cases "u = t")
      case True
      with u(2) thr(3) have "is_ready l" by (simp add: list_status_def split: if_splits)
      with True l(2) show ?thesis by auto
    next
      case False
      with u qs(3) obtain k where "is_ready k" "u \<in> set (lists s k)"
        by (auto simp: none_lost_def other thr s')
      with l show ?thesis by (metis insertI2)
    qed
  qed
  moreover have "idle_ok s'"
    using qs(4) thr(1) [of "idle_thread s"] t(3) by (simp add: idle_ok_def other s')
  moreover have "mode_ok s'"
  proof -
    have "lists s' k \<noteq> [] \<Longrightarrow> k = l \<or> lists s k \<noteq> []" for k
      using l(1) by (cases "k = l") simp_all
    with qs(5) mode show ?thesis
      unfolding mode_ok_def s' by metis
  qed
  moreover have "all_ok s'"
    unfolding all_ok_def
  proof
    fix u assume "u \<in> set (all_list s')"
    with qs(8) have "is_thread s u" "status (thr s u) \<noteq> THREAD_DYING" by (auto simp: all_ok_def s')
    then show "is_thread s' u \<and> status (thr s' u) \<noteq> THREAD_DYING"
      using thr by (cases "u = t") (auto simp: other list_status_def)
  qed
  ultimately show ?thesis
    using keeps by (simp add: queues_ok_def)
qed

text \<open>Taking a thread that is not ready any more out of the list it is in.\<close>

lemma queues_ok_unlink:
  assumes "queues_ok s" "thr s' = thr s" "idle_thread s' = idle_thread s" "thread_mlfqs s' = thread_mlfqs s" "all_list s' = all_list s"
    and "\<And>k. distinct (lists s' k)" "\<And>k. set (lists s' k) \<subseteq> set (lists s k)" "\<And>k. is_ready k \<Longrightarrow> lists s' k = lists s k"
    and "sleep_sorted s'"
  shows "queues_ok s'"
proof -
  note qs = queues_okD [OF assms(1)]
  note it = is_thread_cong [OF assms(2)]
  have "linked_once s'" "members_ok s'"
    using qs(1,2) assms(2,3,6,7) by (auto simp: linked_once_def members_ok_def it) blast+
  moreover have "none_lost s'"
    using qs(3) assms(2,3,8) unfolding none_lost_def it by (metis (no_types))
  moreover have "idle_ok s'" "prio_ok s'" "all_ok s'"
    using qs(4,7,8) assms(2,3,5) by (simp_all add: idle_ok_def prio_ok_def all_ok_def it)
  moreover have "mode_ok s'"
    using qs(5) assms(4,8) by (auto simp: mode_ok_def)
  ultimately show ?thesis
    using assms(9) by (simp add: queues_ok_def)
qed

text \<open>A thread that leaves its list for the processor, or dies.\<close>

lemma queues_ok_take:
  assumes "queues_ok s" "is_thread s t" "st \<noteq> THREAD_READY" "st = THREAD_DYING \<Longrightarrow> t \<noteq> idle_thread s \<and> t \<notin> set (all_list s)"
  shows "queues_ok (upd_thread t (\<lambda>r. r\<lparr>status := st\<rparr>) (remove_elem t s))"
proof -
  let ?s = "upd_thread t (\<lambda>r. r\<lparr>status := st\<rparr>) (remove_elem t s)"
  note qs = queues_okD [OF assms(1)]
  have "linked_once ?s" "members_ok ?s"
    using qs(1,2) by (auto simp: linked_once_def members_ok_def distinct_removeAll)
  moreover have "none_lost ?s"
    using qs(3) assms(3) by (auto simp: none_lost_def)
  moreover have "idle_ok ?s"
    using qs(4) assms(4) by (auto simp: idle_ok_def)
  moreover have "mode_ok ?s"
  proof -
    have "removeAll t xs \<noteq> [] \<Longrightarrow> xs \<noteq> []" for xs by auto
    with qs(5) show ?thesis by (simp add: mode_ok_def) blast
  qed
  moreover have "sleep_sorted ?s"
  proof -
    have "sleepers_is_less_cmp ?s = sleepers_is_less_cmp s"
      by (auto simp: sleepers_is_less_cmp_def fun_eq_iff)
    then show ?thesis
      using qs(6) by (simp add: sleep_sorted_def removeAll_filter_not_eq sorted_wrt_filter)
  qed
  moreover have "prio_ok ?s"
    using qs(7) by (simp add: prio_ok_def)
  moreover have "all_ok ?s"
    using qs(8) assms(4) by (auto simp: all_ok_def)
  ultimately show ?thesis
    by (simp add: queues_ok_def)
qed

lemma remove_elem_unlinked: "unlinked s t \<Longrightarrow> remove_elem t s = s"
  by (simp add: remove_elem_def unlinked_def)

lemma queues_ok_status:
  assumes "queues_ok s" "is_thread s t" "unlinked s t" "st \<noteq> THREAD_READY" "st = THREAD_DYING \<Longrightarrow> t \<noteq> idle_thread s \<and> t \<notin> set (all_list s)"
  shows "queues_ok (upd_thread t (\<lambda>r. r\<lparr>status := st\<rparr>) s)"
  using queues_ok_take [OF assms(1,2,4,5)] assms(3) by (simp add: remove_elem_unlinked)

lemma queues_ok_free:
  assumes "queues_ok s" "unlinked s t" "t \<noteq> idle_thread s" "t \<notin> set (all_list s)"
  shows "queues_ok (free_thread t s)"
proof -
  note qs = queues_okD [OF assms(1)]
  have it: "is_thread (free_thread t s) u \<longleftrightarrow> u \<noteq> t \<and> is_thread s u" for u
    by (simp add: is_thread_def free_thread_def THREAD_MAGIC_def)
  have f: "lists (free_thread t s) = lists s" "all_list (free_thread t s) = all_list s" "idle_thread (free_thread t s) = idle_thread s"
    "thread_mlfqs (free_thread t s) = thread_mlfqs s" "\<And>u. status (thr (free_thread t s) u) = status (thr s u)"
    "\<And>u. ticks_left_to_sleep (thr (free_thread t s) u) = ticks_left_to_sleep (thr s u)"
    "\<And>u. u \<noteq> t \<Longrightarrow> thr (free_thread t s) u = thr s u"
    by (simp_all add: free_thread_def)
  have "linked_once (free_thread t s)" "mode_ok (free_thread t s)" "sleep_sorted (free_thread t s)"
    using qs(1,5,6) by (simp_all add: linked_once_def mode_ok_def sleep_sorted_def sleepers_is_less_cmp_def f)
  moreover have "members_ok (free_thread t s)"
    using qs(2) assms(2) by (auto simp: members_ok_def unlinked_def f it)
  moreover have "none_lost (free_thread t s)" "idle_ok (free_thread t s)" "prio_ok (free_thread t s)" "all_ok (free_thread t s)"
    using qs(3,4,7,8) assms(3,4) by (auto simp: none_lost_def idle_ok_def prio_ok_def all_ok_def f it)
  ultimately show ?thesis
    by (simp add: queues_ok_def)
qed

section \<open>Choosing the next thread\<close>

lemma highest_queue_Some:
  "highest_queue s n = Some t \<Longrightarrow> \<exists>m ts. m \<le> n \<and> lists s (Equiprior m) = t # ts \<and>
     (\<forall>k. m < k \<and> k \<le> n \<longrightarrow> lists s (Equiprior k) = [])"
proof (induction n)
  case 0
  then show ?case
    by (subst (asm) highest_queue.simps) (auto split: list.splits)
next
  case (Suc n)
  show ?case
  proof (cases "lists s (Equiprior (Suc n))")
    case Nil
    with Suc.prems have "highest_queue s n = Some t"
      by (subst (asm) highest_queue.simps) simp
    with Suc.IH obtain m ts where "m \<le> n" "lists s (Equiprior m) = t # ts"
      "\<forall>k. m < k \<and> k \<le> n \<longrightarrow> lists s (Equiprior k) = []"
      by blast
    with Nil show ?thesis
      by (intro exI [of _ m] exI [of _ ts]) (auto simp: le_Suc_eq)
  next
    case (Cons u us)
    with Suc.prems show ?thesis
      by (subst (asm) highest_queue.simps) auto
  qed
qed

lemma highest_queue_None: "highest_queue s n = None \<Longrightarrow> k \<le> n \<Longrightarrow> lists s (Equiprior k) = []"
proof (induction n)
  case (Suc n)
  then have "lists s (Equiprior (Suc n)) = []" "highest_queue s n = None"
    by (subst (asm) (2) highest_queue.simps, auto split: list.splits)+
  with Suc show ?case
    by (cases "k = Suc n") auto
qed (subst (asm) highest_queue.simps, auto split: list.splits)

definition ready_set :: "kernel \<Rightarrow> ptr set" where
  "ready_set s = {t. \<exists>l. is_ready l \<and> t \<in> set (lists s l)}"

lemma ready_set_iff: "t \<in> ready_set s \<longleftrightarrow> t \<in> set (lists s Ready_list) \<or> (\<exists>n. t \<in> set (lists s (Equiprior n)))"
proof
  assume "t \<in> ready_set s"
  then obtain l where "is_ready l" "t \<in> set (lists s l)" by (auto simp: ready_set_def)
  then show "t \<in> set (lists s Ready_list) \<or> (\<exists>n. t \<in> set (lists s (Equiprior n)))"
    by (cases l) auto
next
  have "is_ready Ready_list" "\<And>n. is_ready (Equiprior n)" by simp_all
  then show "t \<in> set (lists s Ready_list) \<or> (\<exists>n. t \<in> set (lists s (Equiprior n))) \<Longrightarrow> t \<in> ready_set s"
    unfolding ready_set_def by blast
qed

lemma next_ready:
  assumes "queues_ok s"
  shows "\<exists>t. get_next_thread_to_run s = Some t \<and>
    (if ready_set s = {} then t = idle_thread s else t \<in> ready_set s)"
proof (cases "thread_mlfqs s")
  case False
  then have "lists s (Equiprior n) = []" for n
    using queues_okD(5) [OF assms] by (auto simp: mode_ok_def)
  then have r: "ready_set s = set (lists s Ready_list)"
    by (auto simp: ready_set_iff)
  show ?thesis
  proof (cases "lists s Ready_list = []")
    case True
    then show ?thesis using False by (simp add: get_next_thread_to_run_def r)
  next
    case ne: False
    then obtain m where m: "first_max (thread_cmp s) (lists s Ready_list) = Some m"
      by fastforce
    then have "m \<in> set (lists s Ready_list)"
      using first_max_correct [OF cmp.less_func_axioms m] by auto
    with m ne False show ?thesis
      by (auto simp: get_next_thread_to_run_def r)
  qed
next
  case True
  then have "lists s Ready_list = []" and le: "lists s (Equiprior n) \<noteq> [] \<Longrightarrow> n \<le> 63" for n
    using queues_okD(5) [OF assms] by (auto simp: mode_ok_def)
  then have r: "ready_set s = {t. \<exists>n. t \<in> set (lists s (Equiprior n))}"
    by (auto simp: ready_set_iff)
  show ?thesis
  proof (cases "highest_queue s 63")
    case None
    then have "lists s (Equiprior n) = []" for n
      using highest_queue_None le by blast
    with None True show ?thesis
      by (simp add: get_next_thread_to_run_def r PRI_MAX_def PRI_MIN_def)
  next
    case (Some t)
    from highest_queue_Some [OF this] obtain n where "t \<in> set (lists s (Equiprior n))"
      by (metis list.set_intros(1))
    moreover then have "t \<noteq> NULL"
      using queues_okD(2) [OF assms] by (auto simp: members_ok_def is_thread_def)
    ultimately show ?thesis
      using Some True by (auto simp: get_next_thread_to_run_def r PRI_MAX_def PRI_MIN_def)
  qed
qed

section \<open>Switching\<close>

lemma unlinked_idle: "members_ok s \<Longrightarrow> unlinked s (idle_thread s)"
  by (auto simp: members_ok_def unlinked_def)

lemma is_thread_record [simp]:
  "is_thread (s\<lparr>current := c\<rparr>) = is_thread s" "is_thread (s\<lparr>thread_ticks := n\<rparr>) = is_thread s"
  "is_thread (s\<lparr>lists := m\<rparr>) = is_thread s" "is_thread (s\<lparr>sema_value := v\<rparr>) = is_thread s"
  "is_thread (s\<lparr>holder := h\<rparr>) = is_thread s" "is_thread (s\<lparr>cond_waiters := w\<rparr>) = is_thread s"
  "is_thread (s\<lparr>all_list := a\<rparr>) = is_thread s" "is_thread (s\<lparr>ticks := n'\<rparr>) = is_thread s"
  "is_thread (s\<lparr>load_avg := i\<rparr>) = is_thread s" "is_thread (s\<lparr>idle_ticks := j\<rparr>) = is_thread s"
  "is_thread (s\<lparr>kernel_ticks := k\<rparr>) = is_thread s"
  by (rule is_thread_cong, simp)+

text \<open>The invariant looks at the lists, the threads, the idle thread and the mode only.\<close>

lemma queues_ok_cong:
  assumes "thr s' = thr s" "lists s' = lists s" "idle_thread s' = idle_thread s" "thread_mlfqs s' = thread_mlfqs s"
    "all_list s' = all_list s"
  shows "queues_ok s' = queues_ok s"
  unfolding queues_ok_def linked_once_def members_ok_def none_lost_def idle_ok_def mode_ok_def
    sleep_sorted_def sleepers_is_less_cmp_def prio_ok_def all_ok_def is_thread_cong [OF assms(1)] assms ..

lemma next_status:
  assumes "queues_ok s" "get_next_thread_to_run s = Some t"
  shows "is_thread s t" and "t \<noteq> idle_thread s \<Longrightarrow> status (thr s t) = THREAD_READY"
proof -
  from next_ready [OF assms(1)] assms(2) consider "t = idle_thread s" | "t \<in> ready_set s"
    by (auto split: if_splits)
  then have "is_thread s t \<and> (t \<noteq> idle_thread s \<longrightarrow> status (thr s t) = THREAD_READY)"
  proof cases
    case 1
    then show ?thesis using queues_okD(4) [OF assms(1)] by (simp add: idle_ok_def)
  next
    case 2
    then obtain l where "is_ready l" "t \<in> set (lists s l)" by (auto simp: ready_set_def)
    then show ?thesis
      using queues_okD(2) [OF assms(1)] by (auto simp: members_ok_def list_status_def)
  qed
  then show "is_thread s t" "t \<noteq> idle_thread s \<Longrightarrow> status (thr s t) = THREAD_READY" by blast+
qed

text \<open>What a switch to \<open>t\<close> does to the state.\<close>

definition switch_to :: "ptr \<Rightarrow> kernel \<Rightarrow> kernel" where
  "switch_to t s =
     (let s1 = (upd_thread t (\<lambda>r. r\<lparr>status := THREAD_RUNNING\<rparr>) (remove_elem t s))\<lparr>current := t, thread_ticks := 0\<rparr>
      in if current s \<noteq> t \<and> status (thr s (current s)) = THREAD_DYING \<and> current s \<noteq> initial_thread s
         then free_thread (current s) s1 else s1)"

lemma schedule_switch:
  assumes "queues_ok s" "none_running s"
  shows "\<exists>t. get_next_thread_to_run s = Some t \<and> schedule s = Some (switch_to t s)"
proof -
  obtain t where t: "get_next_thread_to_run s = Some t"
    using next_ready [OF assms(1)] by blast
  note st = next_status [OF assms(1) t]
  have "next_thread_to_run s = Some (t, remove_elem t s)"
    using st(2) remove_elem_unlinked [OF unlinked_idle [OF queues_okD(2) [OF assms(1)]]]
    by (cases "t = idle_thread s") (simp_all add: next_thread_to_run_def t)
  moreover have "status (thr s (current s)) \<noteq> THREAD_RUNNING" "current s \<noteq> NULL"
    using assms(2) by (auto simp: none_running_def is_thread_def)
  moreover have "(upd_thread t f (s'\<lparr>current := t\<rparr>))\<lparr>thread_ticks := 0\<rparr> = (upd_thread t f s')\<lparr>current := t, thread_ticks := 0\<rparr>" for f s'
    by (simp add: upd_thread_def)
  ultimately have "schedule s = Some (switch_to t s)"
    using st(1) by (auto simp: schedule_def thread_schedule_tail_def switch_to_def Let_def)
  with t show ?thesis by blast
qed

lemma switch_to_inv:
  assumes "queues_ok s" "none_running s" "is_thread s t"
    and dying: "status (thr s (current s)) = THREAD_DYING \<Longrightarrow> current s \<noteq> idle_thread s \<and> current s \<noteq> t"
  shows "sched_inv (switch_to t s)"
proof -
  let ?s1 = "(upd_thread t (\<lambda>r. r\<lparr>status := THREAD_RUNNING\<rparr>) (remove_elem t s))\<lparr>current := t, thread_ticks := 0\<rparr>"
  have "queues_ok (upd_thread t (\<lambda>r. r\<lparr>status := THREAD_RUNNING\<rparr>) (remove_elem t s))"
    using assms(1,3) by (intro queues_ok_take) simp_all
  then have q: "queues_ok ?s1"
    by (subst queues_ok_cong) simp_all
  have r: "running_ok ?s1"
    using assms(2,3) by (auto simp: running_ok_def none_running_def)
  show ?thesis
  proof (cases "current s \<noteq> t \<and> status (thr s (current s)) = THREAD_DYING \<and> current s \<noteq> initial_thread s")
    case True
    have "unlinked ?s1 (current s)"
      using True queues_okD(2) [OF q] by (intro unlinkedI) auto
    then have "queues_ok (free_thread (current s) ?s1)"
      using q dying True queues_okD(8) [OF assms(1)] by (intro queues_ok_free) (auto simp: all_ok_def)
    moreover have "running_ok (free_thread (current s) ?s1)"
      using r True by (auto simp: running_ok_def free_thread_def is_thread_def)
    ultimately show ?thesis
      using True by (simp add: switch_to_def sched_inv_def Let_def)
  next
    case False
    with q r show ?thesis
      unfolding switch_to_def sched_inv_def Let_def by presburger
  qed
qed

lemma schedule_inv:
  assumes "queues_ok s" "none_running s"
    and dying: "status (thr s (current s)) = THREAD_DYING \<Longrightarrow> current s \<noteq> idle_thread s"
  shows "\<exists>t. get_next_thread_to_run s = Some t \<and> schedule s = Some (switch_to t s) \<and> sched_inv (switch_to t s)"
proof -
  obtain t where t: "get_next_thread_to_run s = Some t" "schedule s = Some (switch_to t s)"
    using schedule_switch [OF assms(1,2)] by blast
  have "sched_inv (switch_to t s)"
    using next_status [OF assms(1) t(1)] dying by (intro switch_to_inv assms(1,2)) auto
  with t show ?thesis by blast
qed

lemma none_runningI:
  "running_ok s \<Longrightarrow> st \<noteq> THREAD_RUNNING \<Longrightarrow> thr s' = (thr s)(current s := (thr s (current s))\<lparr>status := st\<rparr>) \<Longrightarrow>
     current s' = current s \<Longrightarrow> none_running s'"
  by (auto simp: running_ok_def none_running_def is_thread_def)

section \<open>The operations keep the invariant\<close>

lemma ready_queue_ok:
  assumes "queues_ok s" "is_thread s t"
  shows "is_ready (ready_queue s t)" "ready_queue s t = Ready_list \<Longrightarrow> \<not> thread_mlfqs s"
    "ready_queue s t = Equiprior n \<Longrightarrow> thread_mlfqs s \<and> n \<le> 63"
  using queues_okD(7) [OF assms(1)] assms(2)
  by (auto simp: ready_queue_def prio_ok_def PRI_MIN_def PRI_MAX_def split: if_splits)

lemma sleep_cmp_upd: "(\<And>r. ticks_left_to_sleep (f r) = ticks_left_to_sleep r) \<Longrightarrow>
    sleepers_is_less_cmp (upd_thread t f s) = sleepers_is_less_cmp s"
  by (auto simp: sleepers_is_less_cmp_def fun_eq_iff)

lemma sleep_cmp_cong: "thr s' = thr s \<Longrightarrow> sleepers_is_less_cmp s' = sleepers_is_less_cmp s"
  by (auto simp: sleepers_is_less_cmp_def fun_eq_iff)

text \<open>A thread in no list becomes ready: the common part of \<^verbatim>\<open>thread_unblock\<close> and \<^verbatim>\<open>thread_yield\<close>.\<close>

definition make_ready :: "ptr \<Rightarrow> kernel \<Rightarrow> kernel" where
  "make_ready t s = upd_thread t (\<lambda>r. r\<lparr>status := THREAD_READY\<rparr>)
     (if t \<noteq> idle_thread s then push_back (ready_queue s t) t s else s)"

lemma make_ready_simps [simp]:
  "thr (make_ready t s) = (thr s)(t := (thr s t)\<lparr>status := THREAD_READY\<rparr>)"
  "current (make_ready t s) = current s" "idle_thread (make_ready t s) = idle_thread s"
  "thread_mlfqs (make_ready t s) = thread_mlfqs s" "ticks (make_ready t s) = ticks s"
  "initial_thread (make_ready t s) = initial_thread s"
  "sema_value (make_ready t s) = sema_value s" "holder (make_ready t s) = holder s"
  "cond_waiters (make_ready t s) = cond_waiters s" "is_thread (make_ready t s) = is_thread s"
  "\<not> is_ready l \<Longrightarrow> lists (make_ready t s) l = lists s l"
  by (auto simp: make_ready_def ready_queue_def)

lemma make_ready_ok:
  assumes "queues_ok s" "is_thread s t" "unlinked s t"
  shows "queues_ok (make_ready t s)"
proof (cases "t = idle_thread s")
  case True
  let ?s = "upd_thread t (\<lambda>r. r\<lparr>status := THREAD_READY\<rparr>) s"
  note qs = queues_okD [OF assms(1)]
  have "members_ok ?s"
    using qs(2) assms(3) by (auto simp: members_ok_def unlinked_def)
  moreover have "none_lost ?s"
    using qs(3) True by (auto simp: none_lost_def)
  moreover have "idle_ok ?s" "linked_once ?s" "mode_ok ?s" "sleep_sorted ?s" "prio_ok ?s" "all_ok ?s"
    using qs(1,4,5,6,7,8) by (simp_all add: idle_ok_def linked_once_def mode_ok_def sleep_sorted_def sleep_cmp_upd prio_ok_def all_ok_def)
  ultimately show ?thesis
    using True by (simp add: make_ready_def queues_ok_def)
next
  case False
  note rq = ready_queue_ok [OF assms(1,2)]
  have "sleepers_is_less_cmp (make_ready t s) = sleepers_is_less_cmp s"
    by (auto simp: sleepers_is_less_cmp_def fun_eq_iff)
  then have "sleep_sorted (make_ready t s)"
    using queues_okD(6) [OF assms(1)] by (simp add: sleep_sorted_def)
  moreover have "prio_ok (make_ready t s)"
    using queues_okD(7) [OF assms(1)] by (simp add: prio_ok_def)
  ultimately show ?thesis
    using assms(2) rq(1) queues_okD(1) [OF assms(1)] assms(3) False
    by (intro queues_ok_link [OF assms(1,3,2) False, where l = "ready_queue s t"] rq(2,3))
      (auto simp: make_ready_def list_status_def linked_once_def unlinked_def)
qed

lemma thread_unblock_ok:
  assumes "sched_inv s" "is_thread s t" "status (thr s t) = THREAD_BLOCKED" "unlinked s t"
  shows "thread_unblock t s = Some (make_ready t s)" and "sched_inv (make_ready t s)"
proof -
  show "thread_unblock t s = Some (make_ready t s)"
    using assms(2,3) by (simp add: thread_unblock_def make_ready_def Let_def)
  have "running_ok (make_ready t s)"
    using assms(1,3) by (auto simp: sched_inv_def running_ok_def)
  with make_ready_ok [of s t] assms show "sched_inv (make_ready t s)"
    by (simp add: sched_inv_def)
qed

lemma thread_yield_switch:
  assumes "sched_inv s" "current s \<noteq> idle_thread s"
  defines "s1 \<equiv> make_ready (current s) s"
  shows "\<exists>t. get_next_thread_to_run s1 = Some t \<and> thread_yield s = Some (switch_to t s1) \<and> sched_inv (switch_to t s1)"
proof -
  from assms(1) have s: "queues_ok s" "running_ok s"
    by (simp_all add: sched_inv_def)
  have "thread_yield s = schedule s1"
    using s(2) assms(2) by (simp add: thread_yield_def s1_def make_ready_def Let_def)
  moreover have "queues_ok s1"
    unfolding s1_def using s unlinked_current [OF queues_okD(2)]
    by (intro make_ready_ok) (auto simp: running_ok_def)
  moreover have "none_running s1"
    by (rule none_runningI [OF s(2)]) (auto simp: s1_def)
  ultimately show ?thesis
    using schedule_inv [of s1] by (simp add: s1_def)
qed

lemma thread_yield_inv:
  assumes "sched_inv s"
  shows "\<exists>s'. thread_yield s = Some s' \<and> sched_inv s'"
proof (cases "current s = idle_thread s")
  case True
  then show ?thesis using assms by (auto simp: thread_yield_def sched_inv_def)
next
  case False
  then show ?thesis using thread_yield_switch [OF assms] by blast
qed

lemma thread_yield_if_needed_inv:
  assumes "sched_inv s"
  shows "\<exists>s'. thread_yield_if_needed s = Some s' \<and> sched_inv s'"
proof -
  from assms have s: "queues_ok s" "running_ok s" "current s \<noteq> NULL"
    by (auto simp: sched_inv_def running_ok_def is_thread_def)
  obtain t where t: "get_next_thread_to_run s = Some t"
    using next_ready [OF s(1)] by blast
  have "t \<noteq> NULL"
    using next_status(1) [OF s(1) t] by (simp add: is_thread_def)
  moreover have "current s = idle_thread s \<Longrightarrow> thread_yield s = Some s"
    using s(2) by (simp add: thread_yield_def)
  ultimately show ?thesis
    using thread_yield_inv [OF assms] s assms
    by (auto simp: thread_yield_if_needed_def t)
qed

text \<open>
  The running thread blocks: it is in no list (it waits to be unblocked by name) or it has just
  been linked into a wait list.
\<close>

lemma thread_block_inv:
  assumes "running_ok s" "queues_ok (upd_thread (current s) (\<lambda>r. r\<lparr>status := THREAD_BLOCKED\<rparr>) s)"
  shows "\<exists>s'. thread_block s = Some s' \<and> sched_inv s'"
proof -
  let ?s = "upd_thread (current s) (\<lambda>r. r\<lparr>status := THREAD_BLOCKED\<rparr>) s"
  have "none_running ?s"
    by (rule none_runningI [OF assms(1)]) auto
  with schedule_inv [OF assms(2)] show ?thesis
    using assms(1) by (auto simp: thread_block_def)
qed

lemma thread_exit_inv:
  assumes "sched_inv s" "current s \<noteq> idle_thread s"
  shows "\<exists>s'. thread_exit s = Some s' \<and> sched_inv s'"
proof -
  from assms(1) have s: "queues_ok s" "running_ok s" by (simp_all add: sched_inv_def)
  let ?s = "upd_thread (current s) (\<lambda>r. r\<lparr>status := THREAD_DYING\<rparr>) (s\<lparr>all_list := removeAll (current s) (all_list s)\<rparr>)"
  have "queues_ok (s\<lparr>all_list := removeAll (current s) (all_list s)\<rparr>)"
    using s(1) unfolding queues_ok_def linked_once_def members_ok_def none_lost_def idle_ok_def mode_ok_def
      sleep_sorted_def sleepers_is_less_cmp_def prio_ok_def all_ok_def by simp
  then have "queues_ok ?s"
    using s unlinked_current [OF queues_okD(2) [OF s(1)] s(2)] assms(2)
    by (intro queues_ok_status) (auto simp: running_ok_def unlinked_def)
  moreover have "none_running ?s"
    by (rule none_runningI [OF s(2)]) auto
  ultimately show ?thesis
    using schedule_inv [of ?s] s(2) assms(2) by (auto simp: thread_exit_def Let_def)
qed

section \<open>Updates that do not concern the scheduler\<close>

definition same_sched :: "kernel \<Rightarrow> kernel \<Rightarrow> bool" where
  "same_sched s s' \<longleftrightarrow> lists s' = lists s \<and> current s' = current s \<and> idle_thread s' = idle_thread s \<and>
     initial_thread s' = initial_thread s \<and> thread_mlfqs s' = thread_mlfqs s \<and> all_list s' = all_list s \<and>
     ticks s' = ticks s \<and>
     (\<forall>t. magic (thr s' t) = magic (thr s t) \<and> status (thr s' t) = status (thr s t) \<and>
        ticks_left_to_sleep (thr s' t) = ticks_left_to_sleep (thr s t))"

lemma same_sched_refl [simp]: "same_sched s s"
  by (simp add: same_sched_def)

lemma same_sched_trans: "same_sched s s' \<Longrightarrow> same_sched s' s'' \<Longrightarrow> same_sched s s''"
  by (simp add: same_sched_def)

lemma same_sched_upd:
  "(\<And>r. magic (f r) = magic r \<and> status (f r) = status r \<and> ticks_left_to_sleep (f r) = ticks_left_to_sleep r) \<Longrightarrow>
     same_sched s (upd_thread t f s)"
  by (simp add: same_sched_def)

lemma queues_ok_transfer:
  assumes "queues_ok s" "\<And>t. magic (thr s' t) = magic (thr s t) \<and> status (thr s' t) = status (thr s t)"
    "lists s' = lists s" "idle_thread s' = idle_thread s" "thread_mlfqs s' = thread_mlfqs s"
    "all_list s' = all_list s" "sleep_sorted s'" "prio_ok s'"
  shows "queues_ok s'"
proof -
  have it: "is_thread s' = is_thread s"
    using assms(2) by (auto simp: is_thread_def fun_eq_iff)
  show ?thesis
    using assms unfolding queues_ok_def linked_once_def members_ok_def none_lost_def idle_ok_def
      mode_ok_def all_ok_def it by simp
qed

lemma running_ok_transfer:
  "running_ok s \<Longrightarrow> (\<And>t. magic (thr s' t) = magic (thr s t) \<and> status (thr s' t) = status (thr s t)) \<Longrightarrow>
     current s' = current s \<Longrightarrow> running_ok s'"
  by (auto simp: running_ok_def is_thread_def)

lemma same_sched_queues: "queues_ok s \<Longrightarrow> same_sched s s' \<Longrightarrow> prio_ok s' \<Longrightarrow> queues_ok s'"
  by (rule queues_ok_transfer)
    (auto simp: same_sched_def queues_ok_def sleep_sorted_def sleepers_is_less_cmp_def)

lemma same_sched_running: "running_ok s \<Longrightarrow> same_sched s s' \<Longrightarrow> running_ok s'"
  by (rule running_ok_transfer) (auto simp: same_sched_def)

lemma same_sched_inv: "sched_inv s \<Longrightarrow> same_sched s s' \<Longrightarrow> prio_ok s' \<Longrightarrow> sched_inv s'"
  unfolding sched_inv_def using same_sched_queues same_sched_running by blast

lemma prio_ok_upd:
  "prio_ok s \<Longrightarrow> (\<And>r. magic (f r) = magic r) \<Longrightarrow>
     (is_thread s t \<Longrightarrow> prior_don (f (thr s t)) \<in> {PRI_MIN..PRI_MAX} \<and> base_priority (f (thr s t)) \<in> {PRI_MIN..PRI_MAX}) \<Longrightarrow>
     prio_ok (upd_thread t f s)"
  by (simp add: prio_ok_def)

end
