(* ===== verification/SynchInv.thy ===== *)
theory SynchInv
  imports Sched
begin

text \<open>
  Sleeping, semaphores, locks, donation and creation keep the invariant of the thread system; the
  step relation of the kernel and its reachable states.
\<close>

section \<open>Sleeping\<close>

lemma sleep_the_thread_inv:
  assumes "sched_inv s" "current s \<noteq> idle_thread s"
  shows "\<exists>s'. sleep_the_thread n s = Some s' \<and> sched_inv s'"
proof -
  let ?cur = "current s"
  let ?s1 = "upd_thread ?cur (\<lambda>r. r\<lparr>ticks_left_to_sleep := n + ticks s\<rparr>) s"
  let ?s2 = "?s1\<lparr>lists := (lists s)(Sleepers := insert_ordered (sleepers_is_less_cmp ?s1) ?cur (lists s Sleepers))\<rparr>"
  let ?s3 = "upd_thread ?cur (\<lambda>r. r\<lparr>status := THREAD_BLOCKED\<rparr>) ?s2"
  from assms(1) have s: "queues_ok s" "running_ok s" by (simp_all add: sched_inv_def)
  note qs = queues_okD [OF s(1)]
  have un: "unlinked s ?cur" using qs(2) s(2) by (rule unlinked_current)
  have "sorted_wrt (\<lambda>a b. \<not> sleepers_is_less_cmp ?s1 b a) (lists s Sleepers)"
    using qs(6) unfolding sleep_sorted_def
    by (rule sorted_wrt_mono_rel [rotated]) (use un in \<open>auto simp: unlinked_def sleepers_is_less_cmp_def\<close>)
  then have "sorted_wrt (\<lambda>a b. \<not> sleepers_is_less_cmp ?s1 b a) (lists ?s3 Sleepers)"
    by (simp add: insert_ordered_def sleep.sorted_insert_ordered)
  moreover have "sleepers_is_less_cmp ?s3 = sleepers_is_less_cmp ?s1"
    by (auto simp: sleepers_is_less_cmp_def fun_eq_iff)
  ultimately have sorted: "sleep_sorted ?s3"
    unfolding sleep_sorted_def by (simp only:)
  have it: "is_thread ?s3 = is_thread s"
    by (auto simp: is_thread_def fun_eq_iff)
  have "prio_ok ?s3"
    using qs(7) unfolding prio_ok_def it by simp
  with sorted have "queues_ok ?s3"
    using un s(2) assms(2) qs(1) unfolding running_ok_def linked_once_def unlinked_def
    by (intro queues_ok_link [OF s(1) un, where l = Sleepers]) (auto simp: it list_status_def)
  moreover have "running_ok ?s2"
    using s(2) by (auto simp: running_ok_def is_thread_def)
  ultimately have "\<exists>s'. thread_block ?s2 = Some s' \<and> sched_inv s'"
    by (intro thread_block_inv) simp_all
  then show ?thesis
    using s(2) by (simp add: sleep_the_thread_def Let_def)
qed

text \<open>The tick handler takes one sleeper out of the queue and makes it ready.\<close>

definition woken :: "ptr \<Rightarrow> kernel \<Rightarrow> kernel" where
  "woken t s = make_ready t (remove_elem t (upd_thread t (\<lambda>r. r\<lparr>ticks_left_to_sleep := ticks s\<rparr>) s))"

lemma sleepers_head:
  assumes "queues_ok s" "lists s Sleepers = t # ts"
  shows "distinct (t # ts)" "is_thread s t" "t \<noteq> idle_thread s" "status (thr s t) = THREAD_BLOCKED"
    "l \<noteq> Sleepers \<Longrightarrow> removeAll t (lists s l) = lists s l"
proof -
  note qs = queues_okD [OF assms(1)]
  have mem: "t \<in> set (lists s Sleepers)" using assms(2) by simp
  have "distinct (lists s Sleepers)" using qs(1) by (simp add: linked_once_def)
  then show "distinct (t # ts)" using assms(2) by simp
  show "is_thread s t" "t \<noteq> idle_thread s" "status (thr s t) = THREAD_BLOCKED"
    using qs(2) mem by (auto simp: members_ok_def list_status_def)
  show "l \<noteq> Sleepers \<Longrightarrow> removeAll t (lists s l) = lists s l"
    using qs(1) mem unfolding linked_once_def by (intro removeAll_id) blast
qed

lemma woken_inv:
  assumes "sched_inv s" "lists s Sleepers = t # ts"
  shows "wake_sleepers (t # ts) s = (if ticks_left_to_sleep (thr s t) \<le> ticks s then wake_sleepers ts (woken t s) else Some s)"
    and "sched_inv (woken t s)" and "lists (woken t s) Sleepers = ts"
proof -
  from assms(1) have s: "queues_ok s" "running_ok s" by (simp_all add: sched_inv_def)
  note qs = queues_okD [OF s(1)] and t = sleepers_head [OF s(1) assms(2)]
  let ?s2 = "remove_elem t (upd_thread t (\<lambda>r. r\<lparr>ticks_left_to_sleep := ticks s\<rparr>) s)"
  have it: "is_thread ?s2 = is_thread s"
    by (auto simp: is_thread_def fun_eq_iff)
  have sl: "lists ?s2 Sleepers = ts"
    using t(1) assms(2) by simp
  have "lists (remove_elem t s) k = (if k = Sleepers then ts else lists s k)" for k
    using t(5) [of k] sl by simp
  then have q0: "queues_ok (remove_elem t s)"
    using qs(1,6) assms(2) t(1)
    by (intro queues_ok_unlink [OF s(1)])
      (auto simp: linked_once_def sleep_sorted_def sleep_cmp_cong [of "remove_elem t s" s] simp del: remove_elem_simps(2))
  have "sorted_wrt (\<lambda>a b. \<not> sleepers_is_less_cmp s b a) ts"
    using qs(6) assms(2) by (simp add: sleep_sorted_def)
  then have "sleep_sorted ?s2"
    unfolding sleep_sorted_def sl
    by (rule sorted_wrt_mono_rel [rotated]) (use t(1) in \<open>auto simp: sleepers_is_less_cmp_def\<close>)
  moreover have "prio_ok ?s2"
    using qs(7) unfolding prio_ok_def it by simp
  ultimately have "queues_ok ?s2"
    by (intro queues_ok_transfer [OF q0]) (simp_all add: remove_elem_def)
  moreover have "running_ok ?s2"
    using s(2) by (rule running_ok_transfer) simp_all
  ultimately have "sched_inv ?s2"
    by (simp add: sched_inv_def)
  moreover have "is_thread ?s2 t" "status (thr ?s2 t) = THREAD_BLOCKED" "unlinked ?s2 t"
    using t it by (simp_all add: unlinked_def)
  ultimately have "thread_unblock t ?s2 = Some (woken t s)" "sched_inv (woken t s)"
    unfolding woken_def by (rule thread_unblock_ok)+
  then show "sched_inv (woken t s)" "lists (woken t s) Sleepers = ts"
    "wake_sleepers (t # ts) s = (if ticks_left_to_sleep (thr s t) \<le> ticks s then wake_sleepers ts (woken t s) else Some s)"
    using sl by (simp_all add: Let_def woken_def)
qed

lemma woken_simps [simp]:
  "thr (woken t s) = (thr s)(t := (thr s t)\<lparr>ticks_left_to_sleep := ticks s, status := THREAD_READY\<rparr>)"
  "current (woken t s) = current s" "ticks (woken t s) = ticks s" "thread_mlfqs (woken t s) = thread_mlfqs s"
  "idle_thread (woken t s) = idle_thread s" "all_list (woken t s) = all_list s" "load_avg (woken t s) = load_avg s"
  "sema_value (woken t s) = sema_value s" "holder (woken t s) = holder s"
  by (simp_all add: woken_def) (simp_all add: make_ready_def)

text \<open>It wakes the sleepers whose time has come and leaves the others, in order.\<close>

lemma wake_sleepers_spec:
  assumes "sched_inv s" "lists s Sleepers = ts"
  defines "due \<equiv> \<lambda>t. ticks_left_to_sleep (thr s t) \<le> ticks s"
  shows "\<exists>s'. wake_sleepers ts s = Some s' \<and> sched_inv s' \<and> lists s' Sleepers = dropWhile due ts \<and>
    (\<forall>t. thr s' t = (if t \<in> set (takeWhile due ts)
       then (thr s t)\<lparr>ticks_left_to_sleep := ticks s, status := THREAD_READY\<rparr> else thr s t)) \<and>
    current s' = current s \<and> ticks s' = ticks s \<and> thread_mlfqs s' = thread_mlfqs s \<and>
    idle_thread s' = idle_thread s \<and> all_list s' = all_list s \<and> load_avg s' = load_avg s"
  using assms(1,2) unfolding due_def
proof (induction ts arbitrary: s)
  case (Cons t ts)
  note w = woken_inv [OF Cons.prems]
  have t: "t \<notin> set ts"
    using sleepers_head(1) [of s t ts] Cons.prems by (simp add: sched_inv_def)
  then have eq: "dropWhile (\<lambda>u. ticks_left_to_sleep (thr (woken t s) u) \<le> ticks (woken t s)) ts =
      dropWhile (\<lambda>u. ticks_left_to_sleep (thr s u) \<le> ticks s) ts"
    "takeWhile (\<lambda>u. ticks_left_to_sleep (thr (woken t s) u) \<le> ticks (woken t s)) ts =
      takeWhile (\<lambda>u. ticks_left_to_sleep (thr s u) \<le> ticks s) ts"
    by (auto intro!: dropWhile_cong takeWhile_cong)
  show ?case
  proof (cases "ticks_left_to_sleep (thr s t) \<le> ticks s")
    case True
    have "t \<notin> set (takeWhile P ts)" for P
      using t by (auto dest: set_takeWhileD)
    with Cons.IH [OF w(2,3)] True show ?thesis
      unfolding w(1) eq by (auto simp: fun_upd_def)
  next
    case False
    then show ?thesis
      using Cons.prems unfolding w(1) by simp
  qed
qed simp

section \<open>Semaphores\<close>

text \<open>Taking the first waiter of a semaphore and making it ready.\<close>

definition released :: "ptr \<Rightarrow> ptr list \<Rightarrow> ptr \<Rightarrow> kernel \<Rightarrow> kernel" where
  "released sema ts t s = make_ready t (s\<lparr>lists := (lists s)(Waiters sema := ts)\<rparr>)"

lemma released_simps [simp]:
  "thr (released a ts t s) = (thr s)(t := (thr s t)\<lparr>status := THREAD_READY\<rparr>)"
  "current (released a ts t s) = current s" "idle_thread (released a ts t s) = idle_thread s"
  "thread_mlfqs (released a ts t s) = thread_mlfqs s" "ticks (released a ts t s) = ticks s"
  "sema_value (released a ts t s) = sema_value s" "holder (released a ts t s) = holder s"
  "lists (released a ts t s) (Waiters b) = (if b = a then ts else lists s (Waiters b))"
  "lists (released a ts t s) Sleepers = lists s Sleepers"
  by (simp_all add: released_def)

lemma released_ready: "\<not> thread_mlfqs s \<Longrightarrow> t \<noteq> idle_thread s \<Longrightarrow> lists (released a ts t s) Ready_list = lists s Ready_list @ [t]"
  by (simp add: released_def make_ready_def ready_queue_def)

lemma released_inv:
  assumes "sched_inv s" "lists s (Waiters sema) = t # ts"
  shows "thread_unblock t (s\<lparr>lists := (lists s)(Waiters sema := ts)\<rparr>) = Some (released sema ts t s)"
    and "sched_inv (released sema ts t s)"
proof -
  let ?s = "s\<lparr>lists := (lists s)(Waiters sema := ts)\<rparr>"
  from assms(1) have s: "queues_ok s" "running_ok s" by (simp_all add: sched_inv_def)
  note qs = queues_okD [OF s(1)]
  have mem: "t \<in> set (lists s (Waiters sema))" using assms(2) by simp
  have "distinct (lists s (Waiters sema))" using qs(1) by (simp add: linked_once_def)
  then have dist: "distinct (t # ts)" using assms(2) by simp
  have t: "is_thread s t" "status (thr s t) = THREAD_BLOCKED"
    using qs(2) mem by (auto simp: members_ok_def list_status_def)
  have "queues_ok ?s"
    using qs(1,6) assms(2) dist
    by (intro queues_ok_unlink [OF s(1)])
      (auto simp: linked_once_def sleep_sorted_def sleep_cmp_cong [of ?s s])
  moreover have "running_ok ?s"
    using s(2) by (simp add: running_ok_def)
  moreover have "unlinked ?s t"
    using qs(1) mem dist unfolding unlinked_def linked_once_def by auto
  ultimately show "thread_unblock t ?s = Some (released sema ts t s)" "sched_inv (released sema ts t s)"
    using t thread_unblock_ok [of ?s t] by (simp_all add: sched_inv_def released_def)
qed

lemma unblock_waiters_spec:
  assumes "sched_inv s" "lists s (Waiters sema) = ts"
  shows "\<exists>s' y. unblock_waiters sema ts s = Some (s', y) \<and> sched_inv s' \<and> lists s' (Waiters sema) = [] \<and>
    (\<forall>t. thr s' t = (if t \<in> set ts then (thr s t)\<lparr>status := THREAD_READY\<rparr> else thr s t)) \<and>
    (\<forall>b. b \<noteq> sema \<longrightarrow> lists s' (Waiters b) = lists s (Waiters b)) \<and> lists s' Sleepers = lists s Sleepers \<and>
    current s' = current s \<and> idle_thread s' = idle_thread s \<and> thread_mlfqs s' = thread_mlfqs s \<and>
    sema_value s' = sema_value s \<and> holder s' = holder s \<and> (\<not> thread_mlfqs s \<longrightarrow> lists s' Ready_list = lists s Ready_list @ ts)"
  using assms
proof (induction ts arbitrary: s)
  case (Cons t ts)
  note r = released_inv [OF Cons.prems]
  have "t \<in> set (lists s (Waiters sema))" using Cons.prems(2) by simp
  then have idle: "t \<noteq> idle_thread s" using queues_okD(2) Cons.prems(1) by (auto simp: sched_inv_def members_ok_def)
  have "lists (released sema ts t s) (Waiters sema) = ts" by simp
  from Cons.IH [OF r(2) this] obtain s' y where
    "unblock_waiters sema ts (released sema ts t s) = Some (s', y)" "sched_inv s'" "lists s' (Waiters sema) = []"
    "\<forall>u. thr s' u = (if u \<in> set ts then (thr (released sema ts t s) u)\<lparr>status := THREAD_READY\<rparr> else thr (released sema ts t s) u)"
    "\<forall>b. b \<noteq> sema \<longrightarrow> lists s' (Waiters b) = lists s (Waiters b)" "lists s' Sleepers = lists s Sleepers"
    "current s' = current s" "idle_thread s' = idle_thread s" "thread_mlfqs s' = thread_mlfqs s"
    "sema_value s' = sema_value s" "holder s' = holder s"
    "\<not> thread_mlfqs s \<longrightarrow> lists s' Ready_list = lists (released sema ts t s) Ready_list @ ts"
    by (auto simp del: fun_upd_apply)
  then show ?case
    using r(1) released_ready [OF _ idle, of sema ts] by (auto simp: Let_def)
qed (simp, blast)

lemma sched_inv_cong:
  assumes "thr s' = thr s" "lists s' = lists s" "idle_thread s' = idle_thread s" "thread_mlfqs s' = thread_mlfqs s"
    "all_list s' = all_list s" "current s' = current s"
  shows "sched_inv s' = sched_inv s"
  using queues_ok_cong [OF assms(1-5)] assms(6) is_thread_cong [OF assms(1)]
  by (simp add: sched_inv_def running_ok_def assms(1))

lemma sema_up_inv:
  assumes "sched_inv s" "sema \<noteq> NULL"
  shows "\<exists>s'. sema_up sema s = Some s' \<and> sched_inv s'"
proof -
  obtain s1 y where s1: "unblock_waiters sema (lists s (Waiters sema)) s = Some (s1, y)" "sched_inv s1"
    using unblock_waiters_spec [OF assms(1) refl] by blast
  let ?s2 = "s1\<lparr>sema_value := (sema_value s1)(sema := sema_value s1 sema + 1)\<rparr>"
  have "sched_inv ?s2"
    using s1(2) by (subst sched_inv_cong) simp_all
  then have "\<exists>s'. (if y then thread_yield ?s2 else thread_yield_if_needed ?s2) = Some s' \<and> sched_inv s'"
    using thread_yield_inv thread_yield_if_needed_inv by simp
  then show ?thesis
    using s1(1) assms by (auto simp: sema_up_def sched_inv_def Let_def)
qed

section \<open>Donation\<close>

text \<open>What donation may change: priorities of threads, and these within the range.\<close>

definition only_prios :: "kernel \<Rightarrow> kernel \<Rightarrow> bool" where
  "only_prios s s' \<longleftrightarrow> (\<exists>f. s' = s\<lparr>thr := (\<lambda>t. (thr s t)\<lparr>prior_don := f t\<rparr>)\<rparr>)"

lemma only_prios_refl [simp]: "only_prios s s"
  unfolding only_prios_def by (rule exI [of _ "\<lambda>t. prior_don (thr s t)"]) simp

lemma only_prios_trans: "only_prios s s' \<Longrightarrow> only_prios s' s'' \<Longrightarrow> only_prios s s''"
  unfolding only_prios_def by auto

lemma only_prios_upd [simp]: "only_prios s (upd_thread t (\<lambda>r. r\<lparr>prior_don := g r\<rparr>) s)"
  unfolding only_prios_def upd_thread_def
  by (rule exI [of _ "\<lambda>u. if u = t then g (thr s t) else prior_don (thr s u)"]) (auto simp: fun_eq_iff)

lemma only_prios_same: "only_prios s s' \<Longrightarrow> same_sched s s'"
  by (auto simp: only_prios_def same_sched_def)

lemma only_prios_fields:
  assumes "only_prios s s'"
  shows "locked_on (thr s' t) = locked_on (thr s t)" "lock_list (thr s' t) = lock_list (thr s t)"
    "base_priority (thr s' t) = base_priority (thr s t)" "pending (thr s' t) = pending (thr s t)"
    "holder s' = holder s" "sema_value s' = sema_value s" "cond_waiters s' = cond_waiters s" "is_thread s' = is_thread s"
  using assms by (auto simp: only_prios_def is_thread_def fun_eq_iff)

text \<open>Induction along the chain of locks a donation follows.\<close>

lemma thread_donate_induct [consumes 1, case_names no enough free chain]:
  assumes "thread_donate t p s = Some s'"
    and no: "\<And>t s. \<not> is_thread s t \<Longrightarrow> P t s s"
    and enough: "\<And>t s. is_thread s t \<Longrightarrow> p \<le> prior_don (thr s t) \<Longrightarrow> P t s s"
    and free: "\<And>t s. is_thread s t \<Longrightarrow> prior_don (thr s t) < p \<Longrightarrow> locked_on (thr s t) = NULL \<Longrightarrow>
      P t s (upd_thread t (\<lambda>r. r\<lparr>prior_don := p\<rparr>) s)"
    and chain: "\<And>t s s'. is_thread s t \<Longrightarrow> prior_don (thr s t) < p \<Longrightarrow> locked_on (thr s t) \<noteq> NULL \<Longrightarrow>
      P (holder s (locked_on (thr s t))) (upd_thread t (\<lambda>r. r\<lparr>prior_don := p\<rparr>) s) s' \<Longrightarrow> P t s s'"
  shows "P t s s'"
proof -
  have "p = p \<longrightarrow> P t s s'"
  proof (rule thread_donate.raw_induct [OF _ assms(1), where P = "\<lambda>t q s s'. q = p \<longrightarrow> P t s s'"], rule impI)
    fix donate :: "ptr \<Rightarrow> int \<Rightarrow> kernel \<Rightarrow> kernel option" and t q s s'
    assume IH: "\<And>t q s s'. donate t q s = Some s' \<Longrightarrow> q = p \<longrightarrow> P t s s'" and q: "q = p"
    let ?s = "upd_thread t (\<lambda>r. r\<lparr>prior_don := p\<rparr>) s"
    have at: "locked_on (thr ?s t) = locked_on (thr s t)" "holder ?s = holder s" by simp_all
    assume "do {
        _ \<leftarrow> ASSERT (t \<noteq> NULL);
        if \<not> is_thread s t then Some s
        else if prior_don (thr s t) < q
        then let s = upd_thread t (\<lambda>r. r\<lparr>prior_don := q\<rparr>) s in
          if locked_on (thr s t) \<noteq> NULL then donate (holder s (locked_on (thr s t))) q s else Some s
        else Some s } = Some s'"
    then have r: "(if \<not> is_thread s t then Some s
        else if prior_don (thr s t) < p
        then if locked_on (thr s t) \<noteq> NULL then donate (holder s (locked_on (thr s t))) p ?s else Some ?s
        else Some s) = Some s'"
      unfolding q Let_def bind_ASSERT_eq_Some at by blast
    show "P t s s'"
      using r no enough free chain IH [of "holder s (locked_on (thr s t))" p ?s s']
      by (metis not_less option.inject)
  qed
  then show ?thesis by simp
qed

lemma thread_donate_only_prios:
  assumes "thread_donate t p s = Some s'"
  shows "only_prios s s' \<and> (prio_ok s \<longrightarrow> p \<in> {PRI_MIN..PRI_MAX} \<longrightarrow> prio_ok s')"
  using assms
proof (induction rule: thread_donate_induct)
  have ok: "prio_ok s \<longrightarrow> p \<in> {PRI_MIN..PRI_MAX} \<longrightarrow> prio_ok (upd_thread t (\<lambda>r. r\<lparr>prior_don := p\<rparr>) s)" for t s
    by (auto intro!: prio_ok_upd simp: prio_ok_def)
  {
    case (free t s)
    show ?case using ok by simp
  next
    case (chain t s s')
    then show ?case
      using ok only_prios_trans [OF only_prios_upd, of t "\<lambda>_. p" s s'] by simp
  }
qed simp_all

lemma only_prios_members: "only_prios s s' \<Longrightarrow> members_ok s' = members_ok s"
  unfolding only_prios_def by (elim exE) (simp add: members_ok_def is_thread_def)

lemma first_max_mem: "less_func lt \<Longrightarrow> first_max lt xs = Some m \<Longrightarrow> m \<in> set xs"
  using first_max_correct by fastforce

lemma donations_of_locks_only_prios:
  "donations_of_locks t ls s = Some s' \<Longrightarrow> only_prios s s' \<and> (members_ok s \<longrightarrow> prio_ok s \<longrightarrow> prio_ok s')"
proof (induction ls arbitrary: s)
  case (Cons l ls)
  then obtain mx where mx: "first_max (thread_cmp s) (lists s (Waiters (lock_sema l))) = Some mx"
    by (auto split: bind_splits)
  define s1 where "s1 = (if prior_don (thr s mx) > prior_don (thr s t)
    then upd_thread t (\<lambda>r. r\<lparr>prior_don := prior_don (thr s mx)\<rparr>) s else s)"
  have up: "only_prios s s1" by (simp add: s1_def)
  have "is_thread s mx" if "members_ok s"
    using that first_max_mem [OF cmp.less_func_axioms mx] by (auto simp: members_ok_def)
  then have ok: "members_ok s \<Longrightarrow> prio_ok s \<Longrightarrow> prio_ok s1"
    unfolding s1_def by (auto intro!: prio_ok_upd simp: prio_ok_def)
  from Cons.prems mx have "donations_of_locks t ls s1 = Some s'" by (simp add: s1_def)
  from Cons.IH [OF this] show ?case
    using up ok only_prios_trans [OF up] only_prios_members [OF up] by blast
qed simp

lemma thread_update_donations_only_prios:
  assumes "thread_update_donations t s = Some s'"
  shows "only_prios s s' \<and> (members_ok s \<longrightarrow> prio_ok s \<longrightarrow> prio_ok s')"
proof (rule thread_update_donations.raw_induct [OF _ assms])
  fix upd :: "ptr \<Rightarrow> kernel \<Rightarrow> kernel option" and t s s'
  assume IH: "\<And>t s s'. upd t s = Some s' \<Longrightarrow> only_prios s s' \<and> (members_ok s \<longrightarrow> prio_ok s \<longrightarrow> prio_ok s')"
  let ?s = "upd_thread t (\<lambda>r. r\<lparr>prior_don := base_priority r\<rparr>) s"
  assume "do {
      _ \<leftarrow> ASSERT (t \<noteq> NULL);
      if \<not> is_thread s t then Some s
      else let start_priority = prior_don (thr s t); s = ?s
        in do {
          s \<leftarrow> donations_of_locks t (lock_list (thr s t)) s;
          if locked_on (thr s t) \<noteq> NULL \<and> prior_don (thr s t) \<noteq> start_priority
          then upd (holder s (locked_on (thr s t))) s else Some s } } = Some s'"
  then consider "s' = s" | s1 ls where "donations_of_locks t ls ?s = Some s1"
      "s' = s1 \<or> (\<exists>u. upd u s1 = Some s')"
    by (auto simp: Let_def simp del: upd_thread_simps split: if_splits bind_splits)
  then show "only_prios s s' \<and> (members_ok s \<longrightarrow> prio_ok s \<longrightarrow> prio_ok s')"
  proof cases
    case 2
    have up: "only_prios s ?s" by (rule only_prios_upd)
    have "prio_ok s \<Longrightarrow> prio_ok ?s"
      by (rule prio_ok_upd) (auto simp: prio_ok_def)
    with donations_of_locks_only_prios [OF 2(1)] only_prios_members [OF up] only_prios_trans [OF up]
    have s1: "only_prios s s1" "members_ok s \<longrightarrow> prio_ok s \<longrightarrow> prio_ok s1" by blast+
    from 2(2) show ?thesis
      using s1 IH only_prios_trans [OF s1(1)] only_prios_members [OF s1(1)] by blast
  qed simp
qed

section \<open>Waiting\<close>

lemma sched_invD:
  assumes "sched_inv s"
  shows "queues_ok s" "running_ok s" "members_ok s" "prio_ok s" "thread_current s = Some (current s)"
    "is_thread s (current s)"
  using assms queues_okD by (auto simp: sched_inv_def running_ok_def thread_current_def)

text \<open>The running thread links itself into a wait list, donates and blocks.\<close>

lemma queues_ok_wait:
  assumes "queues_ok s" "running_ok s" "current s \<noteq> idle_thread s"
  shows "queues_ok (upd_thread (current s) (\<lambda>r. r\<lparr>status := THREAD_BLOCKED\<rparr>) (push_back (Waiters a) (current s) s))"
    (is "queues_ok ?s")
proof -
  note qs = queues_okD [OF assms(1)]
  have un: "unlinked s (current s)"
    using qs(2) assms(2) by (rule unlinked_current)
  have "sleepers_is_less_cmp ?s = sleepers_is_less_cmp s"
    by (auto simp: sleepers_is_less_cmp_def fun_eq_iff)
  then have "sleep_sorted ?s"
    using qs(6) by (simp add: sleep_sorted_def)
  moreover have "prio_ok ?s"
    using qs(7) by (simp add: prio_ok_def)
  ultimately show ?thesis
    using assms(2,3) qs(1) un
    by (intro queues_ok_link [OF assms(1) un, where l = "Waiters a"])
      (auto simp: running_ok_def list_status_def linked_once_def unlinked_def)
qed

lemma block_in_waiters_pre:
  assumes "sched_inv s" "current s \<noteq> idle_thread s"
    and "same_sched (push_back (Waiters a) (current s) s) s1" "prio_ok s1"
  shows "running_ok s1" and "queues_ok (upd_thread (current s1) (\<lambda>r. r\<lparr>status := THREAD_BLOCKED\<rparr>) s1)"
proof -
  note s = sched_invD [OF assms(1)]
  have cur: "current s1 = current s"
    using assms(3) by (simp add: same_sched_def)
  show "running_ok s1"
    using same_sched_running [OF _ assms(3)] running_ok_transfer [OF s(2)] by simp
  show "queues_ok (upd_thread (current s1) (\<lambda>r. r\<lparr>status := THREAD_BLOCKED\<rparr>) s1)"
    unfolding cur
  proof (rule same_sched_queues [OF queues_ok_wait [OF s(1,2) assms(2)]])
    show "same_sched (upd_thread (current s) (\<lambda>r. r\<lparr>status := THREAD_BLOCKED\<rparr>) (push_back (Waiters a) (current s) s))
        (upd_thread (current s) (\<lambda>r. r\<lparr>status := THREAD_BLOCKED\<rparr>) s1)"
      using assms(3) by (simp add: same_sched_def)
  qed (use assms(4) in \<open>simp add: prio_ok_def\<close>)
qed

lemma block_in_waiters:
  assumes "sched_inv s" "current s \<noteq> idle_thread s"
    and "same_sched (push_back (Waiters a) (current s) s) s1" "prio_ok s1"
  shows "\<exists>s'. thread_block s1 = Some s' \<and> sched_inv s'"
  using block_in_waiters_pre [OF assms] by (rule thread_block_inv)

lemma prio_ok_cong:
  "(\<And>t. magic (thr s' t) = magic (thr s t) \<and> prior_don (thr s' t) = prior_don (thr s t) \<and>
      base_priority (thr s' t) = base_priority (thr s t)) \<Longrightarrow> prio_ok s' = prio_ok s"
  by (simp add: prio_ok_def is_thread_def)

lemma prio_ok_pending [simp]: "prio_ok (set_pending t k s) = prio_ok s"
  by (rule prio_ok_cong) (simp add: set_pending_def)

lemma same_sched_pending [simp]: "same_sched s (set_pending t k s)"
  by (simp add: same_sched_def set_pending_def)

lemma down_donate_same:
  assumes "down_donate l s = Some (s', owner)" "prio_ok s" "running_ok s"
  shows "same_sched s s'" and "prio_ok s'"
proof -
  let ?s = "upd_thread (current s) (\<lambda>r. r\<lparr>locked_on := l\<rparr>) s"
  have same: "same_sched s ?s"
    by (rule same_sched_upd) simp
  have ok: "prio_ok ?s"
    using assms(2) prio_ok_cong [of ?s s] by simp
  have run: "running_ok ?s"
    using assms(3) same by (rule same_sched_running)
  have p: "prior_don (thr ?s (current s)) \<in> {PRI_MIN..PRI_MAX}"
    using assms(2,3) unfolding prio_ok_def running_ok_def by simp
  have "same_sched s s' \<and> prio_ok s'"
    using assms(1) unfolding down_donate_def Let_def
  proof (clarsimp simp: same ok assms(2) split: if_splits bind_splits simp del: upd_thread_simps(1))
    fix q
    assume "thread_get_priority ?s = Some q" "thread_donate (holder s l) q ?s = Some s'"
    moreover from this(1) run p have "q \<in> {PRI_MIN..PRI_MAX}"
      by (auto simp: thread_get_priority_def)
    ultimately show "same_sched s s' \<and> prio_ok s'"
      using thread_donate_only_prios [of "holder s l" q ?s s'] ok same_sched_trans [OF same] only_prios_same by blast
  qed (use assms(2) in simp)
  then show "same_sched s s'" "prio_ok s'" by blast+
qed

lemma sema_down_test_cases:
  assumes "sema_down_test a l k s = Some (s', b)" "running_ok s"
  obtains (Block) s1 owner where "sema_value s a = 0" "\<not> b" "down_donate l (push_back (Waiters a) (current s) s) = Some (s1, owner)"
      "thread_block (set_pending (current s) (In_down a l owner k) s1) = Some s'"
  | (Taken) "sema_value s a \<noteq> 0" "b" "s' = (set_pending (current s) Caller (upd_thread (current s) (\<lambda>r. r\<lparr>locked_on := NULL\<rparr>) s))
      \<lparr>sema_value := (sema_value s)(a := sema_value s a - 1)\<rparr>"
  using assms
  by (auto simp: sema_down_test_def down_donate_def Let_def set_pending_def split: if_splits bind_splits)

lemma sema_down_test_inv:
  assumes "sched_inv s" "current s \<noteq> idle_thread s" "sema_down_test a l k s = Some (s', b)"
  shows "sched_inv s'"
proof -
  note s = sched_invD [OF assms(1)]
  show ?thesis
    using assms(3) s(2)
  proof (cases rule: sema_down_test_cases)
    case (Block s1 owner)
    let ?s0 = "push_back (Waiters a) (current s) s"
    have "prio_ok ?s0" "running_ok ?s0"
      using s(2,4) prio_ok_cong [of ?s0 s] running_ok_transfer [of s ?s0] by simp_all
    note d = down_donate_same [OF Block(3) this]
    have "same_sched ?s0 (set_pending (current s) (In_down a l owner k) s1)"
      using d(1) same_sched_pending by (rule same_sched_trans)
    with block_in_waiters [OF assms(1,2)] d(2) Block(4) show ?thesis
      by fastforce
  next
    case Taken
    have "prio_ok s'"
      using s(4) unfolding Taken(3) by (auto simp: prio_ok_def set_pending_def)
    moreover have "same_sched s s'"
      unfolding Taken(3) by (simp add: same_sched_def set_pending_def)
    ultimately show ?thesis
      using assms(1) same_sched_inv by blast
  qed
qed

section \<open>Locks\<close>

lemma lock_take_inv:
  assumes "sched_inv s" "lock_take l s = Some s'"
  shows "sched_inv s'"
proof -
  have "same_sched s s'" "prio_ok s'"
    using assms(2) sched_invD(4,5) [OF assms(1)]
    by (auto simp: lock_take_def same_sched_def prio_ok_def Let_def split: if_splits)
  with assms(1) show ?thesis by (rule same_sched_inv)
qed

lemma lock_acquire_inv:
  assumes "sched_inv s" "current s \<noteq> idle_thread s" "lock_acquire l s = Some s'"
  shows "sched_inv s'"
  using assms(3) sema_down_test_inv [OF assms(1,2)] lock_take_inv
  by (auto simp: lock_acquire_def split: bind_splits if_splits) blast+

lemma sema_try_down_inv: "sched_inv s \<Longrightarrow> sema_try_down a s = Some (s', b) \<Longrightarrow> sched_inv s'"
  by (auto simp: sema_try_down_def split: if_splits elim!: sched_inv_cong [THEN iffD2, rotated -1])

lemma lock_try_acquire_inv:
  assumes "sched_inv s" "lock_try_acquire l s = Some (s', b)"
  shows "sched_inv s'"
  using assms(2) sema_try_down_inv [OF assms(1)] lock_take_inv
  by (auto simp: lock_try_acquire_def split: bind_splits if_splits) blast+

lemma lock_release_inv:
  assumes "sched_inv s" "holder s l = current s" "l \<noteq> NULL"
  shows "\<exists>s'. lock_release l s = Some s' \<and> sched_inv s'"
proof -
  note s = sched_invD [OF assms(1)]
  let ?s1 = "s\<lparr>holder := (holder s)(l := NULL)\<rparr>"
  let ?s2 = "if \<not> thread_mlfqs ?s1 then upd_thread (current ?s1) (\<lambda>r. r\<lparr>lock_list := removeAll l (lock_list r)\<rparr>) ?s1 else ?s1"
  have "same_sched s ?s2" "prio_ok ?s2"
    using s(4) by (auto simp: same_sched_def prio_ok_def)
  then have "sched_inv ?s2"
    using assms(1) same_sched_inv by blast
  then have "\<exists>s'. sema_up (lock_sema l) ?s2 = Some s' \<and> sched_inv s'"
    by (rule sema_up_inv) (simp add: lock_sema_def)
  then show ?thesis
    using assms(2,3) s(5) by (simp add: lock_release_def lock_held_by_current_thread_def Let_def)
qed

section \<open>Condition variables and resumption\<close>

lemma sched_inv_pending: "sched_inv s \<Longrightarrow> sched_inv (set_pending t k s)"
  using same_sched_inv [OF _ same_sched_pending] sched_invD(4) by simp

lemma sema_init_inv:
  assumes "sched_inv s" "sema_init a v s = Some s'"
  shows "sched_inv s'"
proof -
  from assms(2) have s': "s' = s\<lparr>sema_value := (sema_value s)(a := v), lists := (lists s)(Waiters a := [])\<rparr>"
    by (auto simp: sema_init_def)
  note s = sched_invD [OF assms(1)] and qs = queues_okD [OF sched_invD(1) [OF assms(1)]]
  have "queues_ok s'"
    using qs(1,6) unfolding s'
    by (intro queues_ok_unlink [OF s(1)]) (auto simp: linked_once_def sleep_sorted_def sleepers_is_less_cmp_def)
  moreover have "running_ok s'"
    using s(2) by (rule running_ok_transfer) (simp_all add: s')
  ultimately show ?thesis by (simp add: sched_inv_def)
qed

lemma sched_inv_cond [simp]: "sched_inv (s\<lparr>cond_waiters := w\<rparr>) = sched_inv s"
  by (rule sched_inv_cong) simp_all

lemma cond_wait_inv:
  assumes "sched_inv s" "cond_wait w c l s = Some s'"
  shows "sched_inv s'"
proof -
  from assms(2) obtain s1 where s1: "sema_init (elem_sema w) 0 s = Some s1" "holder s l = current s" "l \<noteq> NULL"
    "lock_release l (set_pending (current s1) (Then_down (elem_sema w) (Reacquire l))
       (s1\<lparr>cond_waiters := (cond_waiters s1)(c := cond_waiters s1 c @ [w])\<rparr>)) = Some s'" (is "lock_release l ?s2 = _")
    using sched_invD(5) [OF assms(1)]
    by (auto simp: cond_wait_def lock_held_by_current_thread_def Let_def split: bind_splits)
  have "sched_inv ?s2"
    using sema_init_inv [OF assms(1) s1(1)] by (intro sched_inv_pending) simp
  moreover have "holder ?s2 l = current ?s2"
    using s1(1,2) by (auto simp: sema_init_def set_pending_def)
  ultimately show ?thesis
    using lock_release_inv [OF _ _ s1(3)] s1(4) by fastforce
qed

lemma cond_signal_inv:
  assumes "sched_inv s" "cond_signal c l s = Some s'"
  shows "sched_inv s'"
proof (cases "first_max (semaphore_elem_less s) (cond_waiters s c)")
  case None
  then show ?thesis
    using assms by (auto simp: cond_signal_def split: bind_splits)
next
  case (Some w)
  let ?s = "s\<lparr>cond_waiters := (cond_waiters s)(c := removeAll w (cond_waiters s c))\<rparr>"
  from assms(2) Some have "sema_up (elem_sema w) ?s = Some s'"
    by (auto simp: cond_signal_def split: bind_splits)
  then show ?thesis
    using sema_up_inv [of ?s "elem_sema w"] assms(1) by (simp add: elem_sema_def)
qed

lemma broadcast_round_inv:
  assumes "sched_inv s" "broadcast_round c l s = Some s'"
  shows "sched_inv s'"
proof (cases "cond_waiters s c")
  case Nil
  then show ?thesis
    using assms sched_inv_pending by (auto simp: broadcast_round_def)
next
  case (Cons w ws)
  let ?s = "set_pending (current s) (Broadcasting c l) (s\<lparr>cond_waiters := (cond_waiters s)(c := ws)\<rparr>)"
  have "sched_inv ?s"
    using assms(1) by (intro sched_inv_pending) simp
  then show ?thesis
    using assms(2) Cons sema_up_inv [of ?s "elem_sema w"] by (simp add: broadcast_round_def elem_sema_def)
qed

lemma cond_broadcast_inv: "sched_inv s \<Longrightarrow> cond_broadcast c l s = Some s' \<Longrightarrow> sched_inv s'"
  using broadcast_round_inv by (auto simp: cond_broadcast_def split: bind_splits)

lemma after_block_same:
  assumes "sched_inv s" "after_block owner s = Some s'"
  shows "sched_inv s'" and "current s' = current s" and "idle_thread s' = idle_thread s"
proof -
  have "s' = s \<or> thread_update_donations owner s = Some s'"
    using assms(2) sched_invD(5) [OF assms(1)]
    by (simp add: after_block_def thread_get_priority_def split: if_splits)
  then have "only_prios s s' \<and> prio_ok s'"
    using thread_update_donations_only_prios [of owner s s'] sched_invD(3,4) [OF assms(1)]
    by (elim disjE) (simp, blast)
  then have *: "same_sched s s'" "prio_ok s'"
    using only_prios_same by blast+
  then show "sched_inv s'"
    by (rule same_sched_inv [OF assms(1)])
  show "current s' = current s" "idle_thread s' = idle_thread s"
    using *(1) by (simp_all add: same_sched_def)
qed

lemma finish_down_inv:
  assumes "sched_inv s" "current s \<noteq> idle_thread s" "sema_down_test a l k s = Some r" "finish_down k r = Some s'"
  shows "sched_inv s'"
proof -
  obtain s1 b where r: "r = (s1, b)" by force
  have s1: "sched_inv s1"
    using sema_down_test_inv [OF assms(1,2)] assms(3) r by blast
  have "b \<Longrightarrow> current s1 \<noteq> idle_thread s1"
    using assms(2,3) sched_invD(2) [OF assms(1)] r by (auto elim!: sema_down_test_cases simp: set_pending_def)
  with s1 assms(4) r show ?thesis
    using lock_take_inv [OF s1] lock_acquire_inv [OF s1] by (auto simp: finish_down_def split: if_splits after_down.splits)
qed

lemma resume_inv:
  assumes "sched_inv s" "current s \<noteq> idle_thread s" "resume s = Some s'"
  shows "sched_inv s'"
proof (cases "pending (thr s (current s))")
  case Caller
  then show ?thesis using assms by (simp add: resume_def)
next
  case (In_down a l owner k)
  then obtain s1 r where s1: "after_block owner s = Some s1" "sema_down_test a l k s1 = Some r" "finish_down k r = Some s'"
    using assms(3) by (auto simp: resume_def split: bind_splits)
  note b = after_block_same [OF assms(1) s1(1)]
  then show ?thesis
    using finish_down_inv [OF b(1) _ s1(2,3)] assms(2) by simp
next
  case (Then_down a k)
  then show ?thesis
    using assms finish_down_inv by (auto simp: resume_def split: bind_splits)
next
  case (Broadcasting c l)
  then show ?thesis
    using assms broadcast_round_inv by (simp add: resume_def)
qed

end
