(* ===== verification/KernelSteps.thy ===== *)
theory KernelSteps
  imports SynchInv
begin

text \<open>
  The advanced scheduler, the timer interrupt and thread creation keep the invariant; the step
  relation of the thread system and the states it reaches.
\<close>

section \<open>Priorities\<close>

lemma thread_priority_update_ok:
  assumes "is_thread s t" "prio_ok s"
  shows "\<exists>s'. thread_priority_update t s = Some s' \<and> same_sched s s' \<and> prio_ok s' \<and> load_avg s' = load_avg s"
proof (cases "t = idle_thread s")
  case True
  then show ?thesis using assms by (simp add: thread_priority_update_def)
next
  case False
  obtain q where q: "fixed_int_div (recent_cpu (thr s t)) 4 = Some q"
    by (simp add: fixed_int_div_def)
  define p where "p = (let p = int32 (PRI_MAX - fixed_round_to_closest_int q - nice (thr s t) * 2);
      p = (if p > PRI_MAX then PRI_MAX else p) in if p < PRI_MIN then PRI_MIN else p)"
  have "p \<in> {PRI_MIN..PRI_MAX}"
    by (auto simp: p_def Let_def PRI_MIN_def PRI_MAX_def)
  then have "prio_ok (upd_thread t (\<lambda>r. r\<lparr>base_priority := p, prior_don := p\<rparr>) s)"
    using assms(2) by (intro prio_ok_upd) simp_all
  moreover have "thread_priority_update t s = Some (upd_thread t (\<lambda>r. r\<lparr>base_priority := p, prior_don := p\<rparr>) s)"
    using assms(1) False q by (simp add: thread_priority_update_def p_def Let_def)
  ultimately show ?thesis
    by (auto intro: same_sched_upd)
qed

text \<open>An update of all threads that changes nothing the scheduler looks at but priorities.\<close>

lemma thread_foreach_ok:
  assumes f: "\<And>t s. is_thread s t \<Longrightarrow> prio_ok s \<Longrightarrow> P s \<Longrightarrow>
      \<exists>s'. f t s = Some s' \<and> same_sched s s' \<and> prio_ok s' \<and> load_avg s' = load_avg s \<and> P s'"
    and "\<forall>t \<in> set ts. is_thread s t" "prio_ok s" "P s"
  shows "\<exists>s'. thread_foreach f ts s = Some s' \<and> same_sched s s' \<and> prio_ok s' \<and> load_avg s' = load_avg s \<and> P s'"
  using assms(2-)
proof (induction ts arbitrary: s)
  case (Cons t ts)
  then obtain s1 where s1: "f t s = Some s1" "same_sched s s1" "prio_ok s1" "load_avg s1 = load_avg s" "P s1"
    using f [of s t] by auto
  have "is_thread s1 = is_thread s"
    using s1(2) by (auto simp: same_sched_def is_thread_def fun_eq_iff)
  then obtain s' where "thread_foreach f ts s1 = Some s'" "same_sched s1 s'" "prio_ok s'" "load_avg s' = load_avg s1" "P s'"
    using Cons.IH [of s1] Cons.prems s1 by auto
  then show ?case
    using s1 same_sched_trans [OF s1(2)] by auto
qed simp

definition load_ok :: "kernel \<Rightarrow> bool" where
  "load_ok s \<longleftrightarrow> 0 \<le> load_avg s \<and> load_avg s < 2 ^ 29"

lemma update_recent_cpu_of_thread_ok:
  assumes "prio_ok s" "load_ok s"
  shows "\<exists>s'. update_recent_cpu_of_thread t s = Some s' \<and> same_sched s s' \<and> prio_ok s' \<and>
    load_avg s' = load_avg s \<and> load_ok s'"
proof -
  have "fixed_int_sum (fixed_int_mul (load_avg s) 2) 1 = load_avg s * 2 + 16384"
    using assms(2) by (simp add: fixed_int_sum_def fixed_int_mul_def int_to_fixed_exact load_ok_def)
  then obtain c where "fixed_div (fixed_int_mul (load_avg s) 2) (fixed_int_sum (fixed_int_mul (load_avg s) 2) 1) = Some c"
    using assms(2) by (simp add: fixed_div_def load_ok_def)
  then obtain f where "update_recent_cpu_of_thread t s = Some (upd_thread t (\<lambda>r. r\<lparr>recent_cpu := f\<rparr>) s)"
    by (simp add: update_recent_cpu_of_thread_def)
  moreover have "prio_ok (upd_thread t (\<lambda>r. r\<lparr>recent_cpu := f\<rparr>) s)"
    using assms(1) by (subst prio_ok_cong) simp_all
  ultimately show ?thesis
    using assms(2) by (auto simp: load_ok_def intro: same_sched_upd)
qed

definition ready_count :: "kernel \<Rightarrow> int" where
  "ready_count s = sum_list (map (\<lambda>p. int (length (lists s (Equiprior p)))) [0..<64])"

lemma ready_count_nonneg: "0 \<le> ready_count s"
  unfolding ready_count_def by (intro sum_list_nonneg) auto

text \<open>
  One step of the load average: \<^verbatim>\<open>59/60\<close> and \<^verbatim>\<open>1/60\<close> are 16110 and 273 in 17.14 format.
\<close>

lemma count_load_avg_eq:
  assumes "thread_mlfqs s" "load_ok s" "running_ok s" "ready_count s < 2 ^ 14"
  defines "cnt \<equiv> ready_count s + (if current s = idle_thread s then 0 else 1)"
  shows "count_load_avg s = Some (s\<lparr>load_avg := 16110 * load_avg s div 16384 + 273 * cnt\<rparr>)"
proof -
  have cnt: "0 \<le> cnt" "cnt \<le> 2 ^ 14"
    using ready_count_nonneg [of s] assms(4) by (auto simp: cnt_def)
  have la: "16110 * load_avg s \<le> 2 ^ 29 * 16384" "0 \<le> load_avg s"
    using assms(2) by (auto simp: load_ok_def)
  have a: "fixed_int_div (int_to_fixed 59) 60 = Some 16110" "fixed_int_div (int_to_fixed 1) 60 = Some 273"
    by (simp_all add: fixed_int_div_def int_to_fixed_exact sdiv_nonneg)
  note m = fixed_mul_nonneg [of 16110 "load_avg s" "2 ^ 29", OF _ la(2,1)]
  have "fixed_int_mul 273 cnt = 273 * cnt"
    using cnt by (simp add: fixed_int_mul_def)
  moreover have "fixed_sum (fixed_mul 16110 (load_avg s)) (273 * cnt) = 16110 * load_avg s div 16384 + 273 * cnt"
    using m cnt by (simp add: fixed_sum_def)
  moreover have "status (thr s (current s)) = THREAD_RUNNING"
    using assms(3) by (simp add: running_ok_def)
  ultimately show ?thesis
    using assms(1,3) a cnt_def unfolding count_load_avg_def ready_count_def by (auto simp: Let_def)
qed

lemma load_step_range:
  assumes "0 \<le> la" "la \<le> N * 16384" "0 \<le> c" "c \<le> N"
  shows "0 \<le> 16110 * la div 16384 + 273 * c" and "16110 * la div 16384 + 273 * c \<le> N * (16384 :: int)"
proof -
  show "0 \<le> 16110 * la div 16384 + 273 * c"
    using assms by (simp add: pos_imp_zdiv_nonneg_iff)
  have "16110 * la div 16384 \<le> 16110 * N"
    using assms(2) zdiv_mono1 [of "16110 * la" "16110 * N * 16384" 16384] by simp
  then show "16110 * la div 16384 + 273 * c \<le> N * 16384"
    using assms(1,2,4) by linarith
qed

section \<open>The timer interrupt\<close>

lemma thread_priority_update_same:
  assumes "thread_priority_update t s = Some s'"
  shows "same_sched s s' \<and> (prio_ok s \<longrightarrow> prio_ok s')"
proof -
  have "is_thread s t"
    using assms by (simp add: thread_priority_update_def)
  then show ?thesis
    using assms thread_priority_update_ok [of s t]
    by (cases "prio_ok s") (auto simp: thread_priority_update_def Let_def same_sched_def split: if_splits bind_splits)
qed

lemma update_recent_cpu_of_thread_same:
  "update_recent_cpu_of_thread t s = Some s' \<Longrightarrow> same_sched s s' \<and> (prio_ok s \<longrightarrow> prio_ok s')"
  by (auto simp: update_recent_cpu_of_thread_def same_sched_def prio_ok_def split: bind_splits)

lemma thread_foreach_same:
  assumes "\<And>t s s'. f t s = Some s' \<Longrightarrow> same_sched s s' \<and> (prio_ok s \<longrightarrow> prio_ok s')"
  shows "thread_foreach f ts s = Some s' \<Longrightarrow> same_sched s s' \<and> (prio_ok s \<longrightarrow> prio_ok s')"
proof (induction ts arbitrary: s)
  case (Cons t ts)
  then obtain s1 where "f t s = Some s1" "thread_foreach f ts s1 = Some s'"
    by (auto split: bind_splits)
  then show ?case
    using assms [of t s s1] Cons.IH [of s1] same_sched_trans by blast
qed simp

lemma update_recent_cpu_same: "update_recent_cpu s = Some s' \<Longrightarrow> same_sched s s' \<and> (prio_ok s \<longrightarrow> prio_ok s')"
  unfolding update_recent_cpu_def by (erule thread_foreach_same [rotated]) (rule update_recent_cpu_of_thread_same)

lemma thread_priority_update_all_same:
  "thread_priority_update_all s = Some s' \<Longrightarrow> same_sched s s' \<and> (prio_ok s \<longrightarrow> prio_ok s')"
  unfolding thread_priority_update_all_def by (erule thread_foreach_same [rotated]) (rule thread_priority_update_same)

lemma count_load_avg_same: "count_load_avg s = Some s' \<Longrightarrow> same_sched s s' \<and> (prio_ok s \<longrightarrow> prio_ok s')"
  by (auto simp: count_load_avg_def Let_def same_sched_def prio_ok_def split: if_splits bind_splits)

lemma thread_tick_inv:
  assumes "sched_inv s"
  shows "\<exists>s' y. thread_tick s = Some (s', y) \<and> sched_inv s' \<and> thread_mlfqs s' = thread_mlfqs s \<and>
    ticks s' = ticks s \<and> thr s' = thr s \<and> lists s' = lists s \<and> current s' = current s"
proof -
  let ?s = "(if current s = idle_thread s then s\<lparr>idle_ticks := idle_ticks s + 1\<rparr>
     else s\<lparr>kernel_ticks := kernel_ticks s + 1\<rparr>)\<lparr>thread_ticks := thread_ticks s + 1\<rparr>"
  have "sched_inv ?s"
    using assms by (subst sched_inv_cong) auto
  then show ?thesis
    using sched_invD(5) [OF assms] by (auto simp: thread_tick_def Let_def)
qed

lemma handle_tick_inv:
  assumes "sched_inv s"
  shows "\<exists>s' y. handle_tick_for_sleep_queue s = Some (s', y) \<and> sched_inv s' \<and> thread_mlfqs s' = thread_mlfqs s"
  using wake_sleepers_spec [OF assms refl] assms by (auto simp: handle_tick_for_sleep_queue_def)

definition mlfqs_tick :: "kernel \<Rightarrow> kernel option" where
  "mlfqs_tick s =
     (if thread_mlfqs s then do {
        cur \<leftarrow> thread_current s;
        let s = (if status (thr s cur) = THREAD_RUNNING
                 then upd_thread cur (\<lambda>r. r\<lparr>recent_cpu := fixed_int_sum (recent_cpu r) 1\<rparr>) s else s);
        s \<leftarrow> (if ticks s mod TIMER_FREQ = 0 then do { s \<leftarrow> count_load_avg s; update_recent_cpu s } else Some s);
        if ticks s mod 4 = 0 then thread_priority_update_all s else Some s }
      else Some s)"

lemma mlfqs_tick_inv:
  assumes "sched_inv s" "mlfqs_tick s = Some s'"
  shows "sched_inv s'"
proof (cases "thread_mlfqs s")
  case True
  let ?s1 = "upd_thread (current s) (\<lambda>r. r\<lparr>recent_cpu := fixed_int_sum (recent_cpu r) 1\<rparr>) s"
  have "status (thr s (current s)) = THREAD_RUNNING"
    using sched_invD(2) [OF assms(1)] by (simp add: running_ok_def)
  then have eq: "mlfqs_tick s = do {
      s2 \<leftarrow> (if ticks s mod TIMER_FREQ = 0 then do { s \<leftarrow> count_load_avg ?s1; update_recent_cpu s } else Some ?s1);
      if ticks s2 mod 4 = 0 then thread_priority_update_all s2 else Some s2 }"
    using True sched_invD(5) [OF assms(1)] by (simp add: mlfqs_tick_def Let_def)
  from assms(2) [unfolded eq, THEN bind_eq_Some_conv [THEN iffD1]]
  obtain s2 where s2: "(if ticks s mod TIMER_FREQ = 0 then do { s \<leftarrow> count_load_avg ?s1; update_recent_cpu s } else Some ?s1) = Some s2"
      "(if ticks s2 mod 4 = 0 then thread_priority_update_all s2 else Some s2) = Some s'"
    by blast
  have 1: "same_sched s ?s1 \<and> (prio_ok s \<longrightarrow> prio_ok ?s1)"
    by (auto simp: same_sched_def prio_ok_def)
  have 2: "same_sched ?s1 s2 \<and> (prio_ok ?s1 \<longrightarrow> prio_ok s2)"
  proof (cases "ticks s mod TIMER_FREQ = 0")
    case True
    with s2(1) obtain s3 where "count_load_avg ?s1 = Some s3" "update_recent_cpu s3 = Some s2"
      by (auto split: bind_splits)
    then show ?thesis
      using count_load_avg_same [of ?s1 s3] same_sched_trans [of ?s1 s3 s2]
        update_recent_cpu_same [of s3 s2] by blast
  qed (use s2(1) in simp)
  have "same_sched s2 s' \<and> (prio_ok s2 \<longrightarrow> prio_ok s')"
    using s2(2) thread_priority_update_all_same [of s2 s'] by (cases "ticks s2 mod 4 = 0") simp_all
  with 1 2 show ?thesis
    using same_sched_trans [of s ?s1 s2] same_sched_trans [of s s2 s'] same_sched_inv [OF assms(1)] sched_invD(4) [OF assms(1)]
    by blast
qed (use assms in \<open>simp add: mlfqs_tick_def\<close>)

lemma sched_inv_ticks [simp]: "sched_inv (s\<lparr>ticks := n\<rparr>) = sched_inv s"
  by (rule sched_inv_cong) simp_all

lemma timer_interrupt_parts:
  "timer_interrupt s = do {
     (s, y1) \<leftarrow> thread_tick (s\<lparr>ticks := ticks s + 1\<rparr>);
     (s, y2) \<leftarrow> handle_tick_for_sleep_queue s;
     s \<leftarrow> mlfqs_tick s;
     if y1 \<or> y2 then thread_yield s else Some s }"
  unfolding timer_interrupt_def mlfqs_tick_def Let_def ..

lemma timer_interrupt_inv:
  assumes "sched_inv s"
  shows "timer_interrupt s = Some s' \<Longrightarrow> sched_inv s'"
    and "\<not> thread_mlfqs s \<Longrightarrow> \<exists>s'. timer_interrupt s = Some s'"
proof -
  obtain s1 y1 where s1: "thread_tick (s\<lparr>ticks := ticks s + 1\<rparr>) = Some (s1, y1)" "sched_inv s1" "thread_mlfqs s1 = thread_mlfqs s"
    using thread_tick_inv [of "s\<lparr>ticks := ticks s + 1\<rparr>"] assms by auto
  obtain s2 y2 where s2: "handle_tick_for_sleep_queue s1 = Some (s2, y2)" "sched_inv s2" "thread_mlfqs s2 = thread_mlfqs s"
    using handle_tick_inv [OF s1(2)] s1(3) by auto
  have eq: "timer_interrupt s = do { s \<leftarrow> mlfqs_tick s2; if y1 \<or> y2 then thread_yield s else Some s }"
    by (simp add: timer_interrupt_parts s1(1) s2(1))
  show "timer_interrupt s = Some s' \<Longrightarrow> sched_inv s'"
    using mlfqs_tick_inv [OF s2(2)] thread_yield_inv unfolding eq by (fastforce split: if_splits bind_splits)
  show "\<exists>s'. timer_interrupt s = Some s'" if "\<not> thread_mlfqs s"
    using that s2(3) thread_yield_inv [OF s2(2)] unfolding eq by (auto simp: mlfqs_tick_def)
qed

section \<open>Setting priorities\<close>

lemma thread_set_priority_inv:
  assumes "sched_inv s" "thread_set_priority p s = Some s'"
  shows "sched_inv s'"
proof -
  note s = sched_invD [OF assms(1)]
  let ?s1 = "upd_thread (current s) (\<lambda>r. r\<lparr>base_priority := p\<rparr>) s"
  obtain s2 where s2: "PRI_MIN \<le> p \<and> p \<le> PRI_MAX" "thread_yield_if_needed s2 = Some s'"
    "s2 = upd_thread (current s) (\<lambda>r. r\<lparr>prior_don := p\<rparr>) ?s1 \<or> thread_update_donations (current s) ?s1 = Some s2
      \<or> s2 = upd_thread (current s) (\<lambda>r. r\<lparr>prior_don := base_priority r\<rparr>) ?s1"
    using assms(2) s(5) by (auto simp: thread_set_priority_def Let_def split: bind_splits if_splits)
  have ok: "same_sched s ?s1" "prio_ok ?s1"
    using s(4) s2(1) by (auto simp: same_sched_def prio_ok_def)
  moreover have "members_ok ?s1"
    using s(3) unfolding members_ok_def by (auto simp: is_thread_def)
  ultimately have "same_sched ?s1 s2 \<and> prio_ok s2"
    using s2(1,3) thread_update_donations_only_prios [of "current s" ?s1 s2] only_prios_same [of ?s1 s2]
    by (elim disjE) (auto simp: same_sched_def prio_ok_def)
  then have "sched_inv s2"
    using same_sched_trans [OF ok(1)] same_sched_inv [OF assms(1)] by blast
  then show ?thesis
    using thread_yield_if_needed_inv s2(2) by fastforce
qed

lemma thread_set_nice_inv:
  assumes "sched_inv s"
  shows "\<exists>s'. thread_set_nice n s = Some s' \<and> sched_inv s'"
proof -
  note s = sched_invD [OF assms]
  let ?s1 = "upd_thread (current s) (\<lambda>r. r\<lparr>nice := n\<rparr>) s"
  have ok: "same_sched s ?s1" "prio_ok ?s1" "is_thread ?s1 (current s)"
    using s(4,6) by (auto simp: same_sched_def prio_ok_def)
  obtain s2 where "thread_priority_update (current s) ?s1 = Some s2" "same_sched ?s1 s2" "prio_ok s2"
    using thread_priority_update_ok [OF ok(3,2)] by blast
  moreover from this have "sched_inv s2"
    using same_sched_trans [OF ok(1)] same_sched_inv [OF assms] by blast
  ultimately show ?thesis
    using thread_yield_if_needed_inv [of s2] s(5) by (auto simp: thread_set_nice_def)
qed

section \<open>Creation\<close>

text \<open>The page comes from the page allocator: it is no thread and nothing refers to it.\<close>

definition fresh_page :: "kernel \<Rightarrow> ptr \<Rightarrow> bool" where
  "fresh_page s t \<longleftrightarrow> t \<noteq> NULL \<and> \<not> is_thread s t \<and> unlinked s t \<and> t \<notin> set (all_list s)"

lemma new_thread_inv:
  assumes "sched_inv s" "\<not> is_thread s t" "t \<notin> set (all_list s)" "t \<noteq> NULL"
    and r: "magic r = THREAD_MAGIC" "status r = THREAD_BLOCKED" "prior_don r \<in> {PRI_MIN..PRI_MAX}"
      "base_priority r \<in> {PRI_MIN..PRI_MAX}"
  shows "sched_inv (upd_thread t (\<lambda>_. r) s)"
proof -
  let ?s = "upd_thread t (\<lambda>_. r) s"
  note s = sched_invD [OF assms(1)] and qs = queues_okD [OF sched_invD(1) [OF assms(1)]]
  have it: "is_thread ?s u \<longleftrightarrow> u = t \<or> is_thread s u" for u
    using r(1) assms(4) by (auto simp: is_thread_def)
  have ni: "t \<noteq> idle_thread s" "t \<noteq> current s" and mem: "t \<notin> set (lists s l)" for l
    using qs(2,4) s(6) assms(2) by (auto simp: idle_ok_def members_ok_def)
  have "linked_once ?s" "mode_ok ?s"
    using qs(1,5) by (simp_all add: linked_once_def mode_ok_def)
  moreover have "members_ok ?s" "none_lost ?s" "idle_ok ?s"
    using qs(2-4) ni mem r(2) unfolding members_ok_def none_lost_def idle_ok_def it by auto
  moreover have "sleep_sorted ?s"
    using qs(6) unfolding sleep_sorted_def upd_thread_simps
    by (rule sorted_wrt_mono_rel [rotated]) (use mem in \<open>auto simp: sleepers_is_less_cmp_def\<close>)
  moreover have "prio_ok ?s" "all_ok ?s"
    using qs(7,8) r assms(3) unfolding prio_ok_def all_ok_def it by auto
  moreover have "running_ok ?s"
    using s(2) ni r(2) unfolding running_ok_def it by auto
  ultimately show ?thesis
    by (simp add: sched_inv_def queues_ok_def)
qed

lemma lock_init_inv:
  assumes "sched_inv s" "lock_init l s = Some s'"
  shows "sched_inv s'"
proof -
  have "sched_inv (s\<lparr>holder := (holder s)(l := NULL)\<rparr>)"
    using assms(1) by (subst sched_inv_cong) simp_all
  then show ?thesis
    using assms(2) by (auto simp: lock_init_def intro: sema_init_inv)
qed

lemma init_thread_inv:
  assumes "sched_inv s" "fresh_page s t" "init_thread t p s = Some s'"
  shows "sched_inv s'" "is_thread s' t" "status (thr s' t) = THREAD_BLOCKED" "unlinked s' t"
proof -
  let ?r = "\<lparr>magic = THREAD_MAGIC, tid = 0, status = THREAD_BLOCKED,
       base_priority = p, prior_don = p, ticks_left_to_sleep = 0, nice = 0,
       recent_cpu = 0, lock_list = [], locked_on = NULL, pending = Caller\<rparr>"
  let ?s1 = "upd_thread t (\<lambda>_. ?r) s"
  from assms(3) obtain s2 s3 where p: "PRI_MIN \<le> p" "p \<le> PRI_MAX" and s2: "lock_init (prior_lock t) ?s1 = Some s2"
    and s3: "s3 = s2 \<or> thread_priority_update t (inherit_nice t s2) = Some s3" and s': "s' = s3\<lparr>all_list := all_list s3 @ [t]\<rparr>"
    by (auto simp: init_thread_def Let_def split: bind_splits if_splits)
  have inv1: "sched_inv ?s1"
    using assms(1,2) p by (intro new_thread_inv) (simp_all add: fresh_page_def)
  have inv2: "sched_inv s2"
    by (rule lock_init_inv [OF inv1 s2])
  have f2: "thr s2 t = ?r" "unlinked s2 t" "is_thread s2 t"
    using s2 assms(2) by (auto simp: lock_init_def sema_init_def unlinked_def fresh_page_def is_thread_def split: if_splits)
  have up: "same_sched s2 (inherit_nice t s2)" "prio_ok (inherit_nice t s2)"
    using sched_invD(4) [OF inv2] by (auto simp: inherit_nice_def same_sched_def prio_ok_def)
  have s23: "same_sched s2 s3 \<and> prio_ok s3"
    using s3 up thread_priority_update_same [of t "inherit_nice t s2" s3] same_sched_trans [OF up(1)] sched_invD(4) [OF inv2]
    by (elim disjE) (simp, blast)
  then have inv3: "sched_inv s3"
    using same_sched_inv [OF inv2] by blast
  from s23 f2 have f3: "is_thread s3 t" "status (thr s3 t) = THREAD_BLOCKED" "unlinked s3 t"
    by (auto simp: same_sched_def is_thread_def unlinked_def)
  with s' show "is_thread s' t" "status (thr s' t) = THREAD_BLOCKED" "unlinked s' t"
    by (auto simp: is_thread_def unlinked_def)
  show "sched_inv s'"
    using inv3 f3 unfolding s' sched_inv_def running_ok_def queues_ok_def linked_once_def members_ok_def none_lost_def
      idle_ok_def mode_ok_def sleep_sorted_def sleepers_is_less_cmp_def prio_ok_def all_ok_def by simp
qed

lemma thread_create_inv:
  assumes "sched_inv s" "fresh_page s t" "thread_create t i p s = Some (s', r)"
  shows "sched_inv s'"
proof -
  have "t \<noteq> NULL"
    using assms(2) by (simp add: fresh_page_def)
  with assms(3) obtain s1 s2 where s1: "init_thread t p s = Some s1"
    "thread_unblock t (upd_thread t (\<lambda>r. r\<lparr>tid := i\<rparr>) s1) = Some s2" "thread_yield s2 = Some s'"
    by (auto simp: thread_create_def Let_def split: bind_splits)
  note i = init_thread_inv [OF assms(1,2) s1(1)]
  let ?s = "upd_thread t (\<lambda>r. r\<lparr>tid := i\<rparr>) s1"
  have "same_sched s1 ?s" "prio_ok ?s"
    using sched_invD(4) [OF i(1)] by (auto simp: same_sched_def prio_ok_def)
  then have "sched_inv ?s"
    using same_sched_inv [OF i(1)] by blast
  from thread_unblock_ok [OF this, of t] i s1(2) have "sched_inv s2"
    by (auto simp: unlinked_def)
  then show ?thesis
    using thread_yield_inv s1(3) by fastforce
qed

section \<open>The step relation\<close>

text \<open>The kernel calls a thread may make.\<close>

datatype call = Yield | Exit | Sleep int | Set_priority int | Set_nice int | Create ptr int int
  | Sema_init ptr u32 | Sema_down ptr | Sema_try_down ptr | Sema_up ptr
  | Lock_init ptr | Acquire ptr | Try_acquire ptr | Release ptr
  | Cond_init ptr | Wait ptr ptr ptr | Signal ptr ptr | Broadcast ptr ptr

primrec run_call :: "call \<Rightarrow> kernel \<Rightarrow> kernel option" where
  "run_call Yield s = thread_yield s"
| "run_call Exit s = thread_exit s"
| "run_call (Sleep n) s = sleep_the_thread n s"
| "run_call (Set_priority p) s = thread_set_priority p s"
| "run_call (Set_nice n) s = thread_set_nice n s"
| "run_call (Create page i p) s = map_option fst (thread_create page i p s)"
| "run_call (Sema_init a v) s = sema_init a v s"
| "run_call (Sema_down a) s = sema_down a s"
| "run_call (Sema_try_down a) s = map_option fst (sema_try_down a s)"
| "run_call (Sema_up a) s = sema_up a s"
| "run_call (Lock_init l) s = lock_init l s"
| "run_call (Acquire l) s = lock_acquire l s"
| "run_call (Try_acquire l) s = map_option fst (lock_try_acquire l s)"
| "run_call (Release l) s = lock_release l s"
| "run_call (Cond_init c) s = cond_init c s"
| "run_call (Wait w c l) s = cond_wait w c l s"
| "run_call (Signal c l) s = cond_signal c l s"
| "run_call (Broadcast c l) s = cond_broadcast c l s"

definition call_ok :: "call \<Rightarrow> kernel \<Rightarrow> bool" where
  "call_ok c s = (case c of Create page i p \<Rightarrow> page = NULL \<or> fresh_page s page | _ \<Rightarrow> True)"

fun in_down :: "pending \<Rightarrow> bool" where
  "in_down (In_down a l owner k) = True"
| "in_down _ = False"

inductive kstep :: "kernel \<Rightarrow> kernel \<Rightarrow> bool" where
  call: "kstep s s'" if "current s \<noteq> idle_thread s" "pending (thr s (current s)) = Caller"
    "call_ok c s" "run_call c s = Some s'"
| resume: "kstep s s'" if "current s \<noteq> idle_thread s" "pending (thr s (current s)) \<noteq> Caller" "resume s = Some s'"
| idle: "kstep s s'" if "current s = idle_thread s" "thread_block s = Some s'"
| tick: "kstep s s'" if "\<not> in_down (pending (thr s (current s)))" "timer_interrupt s = Some s'"

lemma lock_release_some:
  assumes "sched_inv s" "lock_release l s = Some s'"
  shows "sched_inv s'"
proof -
  have "holder s l = current s" "l \<noteq> NULL"
    using assms(2) sched_invD(5) [OF assms(1)]
    by (auto simp: lock_release_def lock_held_by_current_thread_def split: bind_splits)
  then show ?thesis
    using lock_release_inv [OF assms(1)] assms(2) by fastforce
qed

lemma run_call_inv:
  assumes "sched_inv s" "current s \<noteq> idle_thread s" "call_ok c s" "run_call c s = Some s'"
  shows "sched_inv s'"
proof (cases c)
  case Yield
  then show ?thesis using assms(3,4) thread_yield_inv [OF assms(1)] by fastforce
next
  case Exit
  then show ?thesis using assms(3,4) thread_exit_inv [OF assms(1,2)] by fastforce
next
  case (Sleep n)
  then show ?thesis using assms(3,4) sleep_the_thread_inv [OF assms(1,2), of n] by fastforce
next
  case (Set_priority p)
  then show ?thesis using assms(3,4) thread_set_priority_inv [OF assms(1)] by simp
next
  case (Set_nice n)
  then show ?thesis using assms(3,4) thread_set_nice_inv [OF assms(1), of n] by fastforce
next
  case (Create page i p)
  then obtain r where "thread_create page i p s = Some (s', r)" using assms(4) by auto
  moreover have "page = NULL \<or> fresh_page s page" using assms(3) Create by (simp add: call_ok_def)
  ultimately show ?thesis
    using thread_create_inv [OF assms(1)] assms(1) by (cases "page = NULL") (simp add: thread_create_def, blast)
next
  case (Sema_init a v)
  then show ?thesis using assms(3,4) sema_init_inv [OF assms(1)] by simp
next
  case (Sema_down a)
  then obtain b where "sema_down_test a NULL Return s = Some (s', b)" using assms(4) by (auto simp: sema_down_def)
  then show ?thesis by (rule sema_down_test_inv [OF assms(1,2)])
next
  case (Sema_try_down a)
  then obtain b where "sema_try_down a s = Some (s', b)" using assms(4) by auto
  then show ?thesis by (rule sema_try_down_inv [OF assms(1)])
next
  case (Sema_up a)
  then have "a \<noteq> NULL" using assms(4) by (auto simp: sema_up_def)
  then show ?thesis using sema_up_inv [OF assms(1), of a] assms(4) Sema_up by simp
next
  case (Lock_init l)
  then show ?thesis using assms(3,4) lock_init_inv [OF assms(1)] by simp
next
  case (Acquire l)
  then show ?thesis using assms(3,4) lock_acquire_inv [OF assms(1,2)] by simp
next
  case (Try_acquire l)
  then obtain b where "lock_try_acquire l s = Some (s', b)" using assms(4) by auto
  then show ?thesis by (rule lock_try_acquire_inv [OF assms(1)])
next
  case (Release l)
  then show ?thesis using assms(3,4) lock_release_some [OF assms(1)] by simp
next
  case (Cond_init cv)
  then show ?thesis using assms(1,4) by (auto simp: cond_init_def)
next
  case (Wait w cv l)
  then show ?thesis using assms(3,4) cond_wait_inv [OF assms(1)] by simp
next
  case (Signal cv l)
  then show ?thesis using assms(3,4) cond_signal_inv [OF assms(1)] by simp
next
  case (Broadcast cv l)
  then show ?thesis using assms(3,4) cond_broadcast_inv [OF assms(1)] by simp
qed

lemma kstep_inv: "kstep s s' \<Longrightarrow> sched_inv s \<Longrightarrow> sched_inv s'"
proof (induction rule: kstep.induct)
  case (call s c s')
  then show ?case using run_call_inv by blast
next
  case (resume s s')
  then show ?case using resume_inv by blast
next
  case (idle s s')
  then have "queues_ok (upd_thread (current s) (\<lambda>r. r\<lparr>status := THREAD_BLOCKED\<rparr>) s)"
    using sched_invD [OF idle(3)] unlinked_idle by (intro queues_ok_status) auto
  then show ?case
    using thread_block_inv [OF sched_invD(2) [OF idle(3)]] idle(2) by fastforce
next
  case (tick s s')
  then show ?case using timer_interrupt_inv(1) by blast
qed

end
