(* ===== verification/Donation.thy ===== *)
theory Donation
  imports SchedProps
begin

text \<open>
  Priority donation: along the chain of locks and holders, a waiting thread never has a higher
  priority than the thread it waits for, and \<^verbatim>\<open>thread_donate\<close> restores this when a thread starts to
  wait. It terminates even if the chain is circular, because each call raises a priority.
\<close>

section \<open>Inheritance\<close>

text \<open>
  Waiting thread \<open>t\<close> has donated to the holder of its lock, except that the holder \<open>x\<close> may still
  lack donations of up to \<open>p\<close>.
\<close>

definition inherits_but :: "kernel \<Rightarrow> ptr \<Rightarrow> int \<Rightarrow> bool" where
  "inherits_but s x p \<longleftrightarrow> (\<forall>t. is_thread s t \<longrightarrow> locked_on (thr s t) \<noteq> NULL \<longrightarrow>
     is_thread s (holder s (locked_on (thr s t))) \<longrightarrow>
     prior_don (thr s t) \<le> prior_don (thr s (holder s (locked_on (thr s t)))) \<or>
     holder s (locked_on (thr s t)) = x \<and> prior_don (thr s t) \<le> p)"

definition inherits :: "kernel \<Rightarrow> bool" where
  "inherits s \<longleftrightarrow> (\<forall>t. is_thread s t \<longrightarrow> locked_on (thr s t) \<noteq> NULL \<longrightarrow>
     is_thread s (holder s (locked_on (thr s t))) \<longrightarrow>
     prior_don (thr s t) \<le> prior_don (thr s (holder s (locked_on (thr s t)))))"

lemma thread_donate_inherits:
  assumes "thread_donate x p s = Some s'" "inherits_but s x p"
  shows "inherits s'"
  using assms
proof (induction rule: thread_donate_induct)
  case (chain t s s')
  have "inherits_but (upd_thread t (\<lambda>r. r\<lparr>prior_don := p\<rparr>) s) (holder s (locked_on (thr s t))) p"
    using chain.prems chain.hyps(2) by (auto simp: inherits_but_def)
  then show ?case by (rule chain.IH)
next
  case (free t s)
  then show ?case
    unfolding inherits_but_def inherits_def by (fastforce simp: is_thread_upd)
next
  case (no t s)
  then show ?case unfolding inherits_but_def inherits_def by blast
next
  case (enough t s)
  show ?case
    unfolding inherits_def
  proof (intro allI impI)
    fix u assume "is_thread s u" "locked_on (thr s u) \<noteq> NULL" "is_thread s (holder s (locked_on (thr s u)))"
    from enough.prems [unfolded inherits_but_def, rule_format, OF this] enough.hyps(2)
    show "prior_don (thr s u) \<le> prior_don (thr s (holder s (locked_on (thr s u))))" by auto
  qed
qed

text \<open>The holder ends up with at least the donated priority, and nobody loses any.\<close>

lemma thread_donate_raises:
  assumes "thread_donate x p s = Some s'"
  shows "(is_thread s x \<longrightarrow> p \<le> prior_don (thr s' x)) \<and> (\<forall>t. prior_don (thr s t) \<le> prior_don (thr s' t))"
  using assms
proof (induction rule: thread_donate_induct)
  case (chain t s s')
  let ?s = "upd_thread t (\<lambda>r. r\<lparr>prior_don := p\<rparr>) s"
  have "prior_don (thr s u) \<le> prior_don (thr ?s u)" "p \<le> prior_don (thr ?s t)" for u
    using chain.hyps(2) by auto
  moreover have "prior_don (thr ?s u) \<le> prior_don (thr s' u)" for u
    using chain.IH by blast
  ultimately show ?case by (meson order.trans)
qed auto

section \<open>Termination\<close>

text \<open>Every lock some thread waits for has a holder.\<close>

definition locks_held :: "kernel \<Rightarrow> bool" where
  "locks_held s \<longleftrightarrow> (\<forall>t. is_thread s t \<longrightarrow> locked_on (thr s t) \<noteq> NULL \<longrightarrow> holder s (locked_on (thr s t)) \<noteq> NULL)"

lemma thread_donate_terminates:
  assumes "finite {t. is_thread s t}" "locks_held s" "x \<noteq> NULL"
  shows "\<exists>s'. thread_donate x p s = Some s'"
  using assms
proof (induction "card {t. is_thread s t \<and> prior_don (thr s t) < p}" arbitrary: x s rule: less_induct)
  case less
  show ?case
  proof (cases "is_thread s x \<and> prior_don (thr s x) < p \<and> locked_on (thr s x) \<noteq> NULL")
    case True
    let ?s = "upd_thread x (\<lambda>r. r\<lparr>prior_don := p\<rparr>) s"
    have it: "is_thread ?s = is_thread s" by simp
    have "{t. is_thread ?s t \<and> prior_don (thr ?s t) < p} = {t. is_thread s t \<and> prior_don (thr s t) < p} - {x}"
      unfolding it by auto
    moreover have "finite {t. is_thread s t \<and> prior_don (thr s t) < p}"
      using less.prems(1) by (rule rev_finite_subset) auto
    ultimately have "card {t. is_thread ?s t \<and> prior_don (thr ?s t) < p} < card {t. is_thread s t \<and> prior_don (thr s t) < p}"
      using True card_Diff1_less [of "{t. is_thread s t \<and> prior_don (thr s t) < p}" x] by simp
    moreover have "locks_held ?s"
      using less.prems(2) unfolding locks_held_def it by auto
    moreover have "holder s (locked_on (thr s x)) \<noteq> NULL"
      using less.prems(2) True by (simp add: locks_held_def)
    ultimately obtain s' where "thread_donate (holder s (locked_on (thr s x))) p ?s = Some s'"
      using less.hyps [of ?s "holder s (locked_on (thr s x))"] less.prems(1) it by auto
    then show ?thesis
      using True less.prems(3) by (subst thread_donate.simps) (simp add: Let_def)
  next
    case False
    then show ?thesis
      using less.prems(3) by (subst thread_donate.simps) (auto simp: Let_def)
  qed
qed

section \<open>Waiting for a lock\<close>

lemma switch_to_fields:
  assumes "status (thr s (current s)) \<noteq> THREAD_DYING"
  shows "locked_on (thr (switch_to t s) u) = locked_on (thr s u)" "is_thread (switch_to t s) = is_thread s"
    "prior_don (thr (switch_to t s) u) = prior_don (thr s u)" "holder (switch_to t s) = holder s"
  using assms by (auto simp: switch_to_def Let_def is_thread_def fun_eq_iff)

lemma thread_block_switch:
  assumes "running_ok s" "queues_ok (upd_thread (current s) (\<lambda>r. r\<lparr>status := THREAD_BLOCKED\<rparr>) s)"
  shows "\<exists>t. get_next_thread_to_run (upd_thread (current s) (\<lambda>r. r\<lparr>status := THREAD_BLOCKED\<rparr>) s) = Some t \<and>
    thread_block s = Some (switch_to t (upd_thread (current s) (\<lambda>r. r\<lparr>status := THREAD_BLOCKED\<rparr>) s))"
proof -
  let ?s = "upd_thread (current s) (\<lambda>r. r\<lparr>status := THREAD_BLOCKED\<rparr>) s"
  have "none_running ?s"
    by (rule none_runningI [OF assms(1)]) auto
  from schedule_switch [OF assms(2) this] show ?thesis
    using assms(1) by (auto simp: thread_block_def)
qed

lemma inherits_cong:
  assumes "\<And>t. locked_on (thr s' t) = locked_on (thr s t) \<and> prior_don (thr s' t) = prior_don (thr s t)"
    "is_thread s' = is_thread s" "holder s' = holder s"
  shows "inherits s' = inherits s"
  unfolding inherits_def assms(2,3) using assms(1) by simp

text \<open>The donation made by a thread that has just joined the waiters of a held lock.\<close>

lemma down_donate_inherits:
  assumes s: "prio_ok s" "running_ok s" and mode: "\<not> thread_mlfqs s"
    and lock: "l \<noteq> NULL" "holder s l = h" "h \<noteq> NULL"
    and locks: "locks_held s" "inherits s" "finite {t. is_thread s t}"
  defines "s1 \<equiv> upd_thread (current s) (\<lambda>r. r\<lparr>locked_on := l\<rparr>) s"
  shows "\<exists>s2. down_donate l s = Some (s2, h) \<and> inherits s2 \<and> only_prios s1 s2 \<and> same_sched s s2 \<and> prio_ok s2 \<and>
    (is_thread s h \<longrightarrow> prior_don (thr s (current s)) \<le> prior_don (thr s2 h))"
proof -
  let ?p = "prior_don (thr s (current s))"
  have it: "is_thread s1 = is_thread s" by (simp add: s1_def)
  have "locks_held s1" "inherits_but s1 h ?p"
    using locks lock(2,3) unfolding locks_held_def inherits_but_def inherits_def it by (auto simp: s1_def)
  moreover have "finite {t. is_thread s1 t}"
    using locks(3) unfolding it .
  ultimately obtain s2 where don: "thread_donate h ?p s1 = Some s2" "inherits s2"
    using thread_donate_terminates [of s1 h ?p] thread_donate_inherits [of h ?p s1] lock(3) by blast
  note op = thread_donate_only_prios [OF don(1), THEN conjunct1]
  have "running_ok s1"
    using s(2) by (rule running_ok_transfer) (simp_all add: s1_def)
  then have dd: "down_donate l s = Some (s2, h)"
    using mode lock don(1) only_prios_fields(5) [OF op]
    by (simp add: down_donate_def Let_def thread_get_priority_def s1_def)
  show ?thesis
    using dd don op down_donate_same [OF dd s] thread_donate_raises [OF don(1)] it by auto
qed

text \<open>A blocked thread stays in the list it waits in when another one is chosen.\<close>

lemma switch_leaves_waiters:
  assumes "queues_ok s" "get_next_thread_to_run s = Some t" "status (thr s c) = THREAD_BLOCKED" "c \<noteq> idle_thread s"
  shows "t \<noteq> c" "lists (switch_to t s) (Waiters a) = lists s (Waiters a)"
proof -
  note st = next_status [OF assms(1,2)]
  show "t \<noteq> c" using st(2) assms(3,4) by auto
  have "t \<notin> set (lists s (Waiters a))"
    using st(2) queues_okD(2) [OF assms(1)] by (force simp: members_ok_def list_status_def)
  then show "lists (switch_to t s) (Waiters a) = lists s (Waiters a)" by simp
qed

lemma switch_to_other: "u \<noteq> t \<Longrightarrow> status (thr s (current s)) \<noteq> THREAD_DYING \<Longrightarrow> thr (switch_to t s) u = thr s u"
  by (simp add: switch_to_def Let_def)

text \<open>
  The running thread finds the lock held: it donates its priority along the chain of holders,
  joins the waiters and gives up the processor.
\<close>

lemma lock_acquire_waits:
  assumes inv: "sched_inv s" and mode: "\<not> thread_mlfqs s" and cur: "current s \<noteq> idle_thread s"
    and lock: "l \<noteq> NULL" "sema_value s (lock_sema l) = 0" "holder s l = h" "h \<noteq> NULL" "h \<noteq> current s"
    and locks: "locks_held s" "inherits s" "finite {t. is_thread s t}"
  shows "\<exists>s'. lock_acquire l s = Some s' \<and> sched_inv s' \<and> inherits s' \<and> holder s' = holder s \<and>
    (is_thread s h \<longrightarrow> prior_don (thr s (current s)) \<le> prior_don (thr s' h)) \<and> locked_on (thr s' (current s)) = l \<and>
    current s' \<noteq> current s \<and> status (thr s' (current s)) = THREAD_BLOCKED \<and>
    lists s' (Waiters (lock_sema l)) = lists s (Waiters (lock_sema l)) @ [current s] \<and>
    pending (thr s' (current s)) = In_down (lock_sema l) l h (Take l)"
proof -
  note s = sched_invD [OF inv]
  let ?c = "current s" and ?a = "lock_sema l"
  let ?s0 = "push_back (Waiters ?a) ?c s"
  have inv0: "locks_held ?s0" "inherits ?s0" "is_thread ?s0 = is_thread s" "prio_ok ?s0" "running_ok ?s0"
    using locks s(2,4) inherits_cong [of ?s0 s] prio_ok_cong [of ?s0 s] running_ok_transfer [of s ?s0]
    by (simp_all add: locks_held_def)
  obtain s2 where s2: "down_donate l ?s0 = Some (s2, h)" "inherits s2" "same_sched ?s0 s2" "prio_ok s2"
    "only_prios (upd_thread ?c (\<lambda>r. r\<lparr>locked_on := l\<rparr>) ?s0) s2"
    "is_thread s h \<longrightarrow> prior_don (thr s ?c) \<le> prior_don (thr s2 h)"
    using down_donate_inherits [of ?s0 l h] inv0 mode lock locks(3) by auto
  let ?s3 = "set_pending ?c (In_down ?a l h (Take l)) s2"
  have same: "same_sched ?s0 ?s3"
    using s2(3) same_sched_pending by (rule same_sched_trans)
  have pre: "running_ok ?s3" "queues_ok (upd_thread (current ?s3) (\<lambda>r. r\<lparr>status := THREAD_BLOCKED\<rparr>) ?s3)"
    using block_in_waiters_pre [OF inv cur same] s2(4) by simp_all
  let ?s4 = "upd_thread (current ?s3) (\<lambda>r. r\<lparr>status := THREAD_BLOCKED\<rparr>) ?s3"
  obtain t where t: "thread_block ?s3 = Some (switch_to t ?s4)" "get_next_thread_to_run ?s4 = Some t"
    using thread_block_switch [OF pre] by blast
  have acq: "lock_acquire l s = Some (switch_to t ?s4)"
    using lock s(5) mode s2(1) t(1)
    by (simp add: lock_acquire_def lock_held_by_current_thread_def sema_down_test_def lock_sema_def)
  have c3: "current ?s3 = ?c"
    using same by (simp add: same_sched_def)
  have "status (thr ?s4 (current ?s4)) \<noteq> THREAD_DYING" by simp
  note sw = switch_to_fields [OF this, of t]
  have f: "locked_on (thr (switch_to t ?s4) u) = locked_on (thr s2 u)"
    "prior_don (thr (switch_to t ?s4) u) = prior_don (thr s2 u)" "is_thread (switch_to t ?s4) = is_thread s2"
    "holder (switch_to t ?s4) = holder s2" for u
    unfolding sw by (auto simp: set_pending_def)
  have s4: "idle_thread ?s4 = idle_thread s" "lists ?s4 = lists ?s0" "status (thr ?s4 ?c) = THREAD_BLOCKED"
    "pending (thr ?s4 ?c) = In_down ?a l h (Take l)"
    using same c3 by (simp_all add: same_sched_def set_pending_def)
  define s' where "s' = switch_to t ?s4"
  have waits: "t \<noteq> ?c" "lists s' (Waiters ?a) = lists ?s4 (Waiters ?a)"
    unfolding s'_def using switch_leaves_waiters [OF pre(2) t(2)] s4(1,3) cur by metis+
  have c: "thr s' ?c = thr ?s4 ?c"
    unfolding s'_def using waits(1) by (intro switch_to_other) simp_all
  have "lists s' (Waiters ?a) = lists s (Waiters ?a) @ [?c]" "current s' \<noteq> ?c" "status (thr s' ?c) = THREAD_BLOCKED"
    "pending (thr s' ?c) = In_down ?a l h (Take l)"
    unfolding waits(2) c s4(2-4) using waits(1) by (simp_all add: s'_def)
  moreover have "inherits s'"
    using s2(2) inherits_cong [of s' s2] f by (simp add: s'_def)
  moreover have "holder s' = holder s" "locked_on (thr s' ?c) = l"
    using only_prios_fields [OF s2(5)] f by (simp_all add: s'_def)
  moreover have "sched_inv s'" "lock_acquire l s = Some s'"
    using lock_acquire_inv [OF inv cur acq] acq by (simp_all add: s'_def)
  moreover have "is_thread s h \<longrightarrow> prior_don (thr s ?c) \<le> prior_don (thr s' h)"
    using s2(6) f(2) by (simp add: s'_def)
  ultimately show ?thesis by blast
qed

end
