(* ===== verification/ThreadProps.thy ===== *)
theory ThreadProps
  imports Donation
begin

text \<open>The properties of the thread system, with concrete systems that witness them.\<close>

section \<open>Concrete systems\<close>

lemmas concrete = booted_def new_thread_def no_thread_def THREAD_MAGIC_def PRI_MIN_def PRI_MAX_def

text \<open>
  The initial thread at 4096 runs, the idle thread is at 8192, and a thread of lower priority at
  12288 is ready and holds the lock at 500.
\<close>

definition contended :: kernel where
  "contended = booted\<lparr>thr := (thr booted)(12288 := (new_thread 20 THREAD_READY)\<lparr>lock_list := [500]\<rparr>),
     lists := (\<lambda>_. [])(Ready_list := [12288]), all_list := [4096, 8192, 12288],
     sema_value := (\<lambda>_. 1)(512 := 0), holder := (\<lambda>_. NULL)(500 := 12288)\<rparr>"

lemma is_thread_contended: "is_thread contended t \<longleftrightarrow> t = 4096 \<or> t = 8192 \<or> t = 12288"
  by (auto simp: is_thread_def contended_def concrete)

lemma sched_inv_contended: "sched_inv contended"
proof -
  have "linked_once contended" "members_ok contended" "none_lost contended" "idle_ok contended" "mode_ok contended"
    "sleep_sorted contended" "prio_ok contended" "all_ok contended" "running_ok contended"
    unfolding linked_once_def members_ok_def none_lost_def idle_ok_def mode_ok_def sleep_sorted_def prio_ok_def all_ok_def
      running_ok_def is_thread_contended list_status_def
    by (auto simp: contended_def concrete split: if_splits)
  then show ?thesis by (simp add: sched_inv_def queues_ok_def)
qed

text \<open>The initial thread sleeps in a system that has two other ready threads, one of them due to wake up.\<close>

definition drowsy :: kernel where
  "drowsy = booted\<lparr>thr := (thr booted)(12288 := (new_thread 20 THREAD_BLOCKED)\<lparr>ticks_left_to_sleep := 5\<rparr>,
       16384 := (new_thread 20 THREAD_BLOCKED)\<lparr>ticks_left_to_sleep := 9\<rparr>),
     lists := (\<lambda>_. [])(Sleepers := [12288, 16384]), all_list := [4096, 8192, 12288, 16384], ticks := 7\<rparr>"

lemma is_thread_drowsy: "is_thread drowsy t \<longleftrightarrow> t = 4096 \<or> t = 8192 \<or> t = 12288 \<or> t = 16384"
  by (auto simp: is_thread_def drowsy_def concrete)

lemma sched_inv_drowsy: "sched_inv drowsy"
proof -
  have "linked_once drowsy" "members_ok drowsy" "none_lost drowsy" "idle_ok drowsy" "mode_ok drowsy"
    "sleep_sorted drowsy" "prio_ok drowsy" "all_ok drowsy" "running_ok drowsy"
    unfolding linked_once_def members_ok_def none_lost_def idle_ok_def mode_ok_def sleep_sorted_def prio_ok_def all_ok_def
      running_ok_def is_thread_drowsy list_status_def sleepers_is_less_cmp_def
    by (auto simp: drowsy_def concrete split: if_splits)
  then show ?thesis by (simp add: sched_inv_def queues_ok_def)
qed

section \<open>Scheduling\<close>

text \<open>
  C2: every state the thread system reaches through kernel calls, resumptions, the idle loop and
  timer interrupts satisfies the invariant: each thread is linked into at most one list, ready
  threads are exactly those in the ready queues, waiting and sleeping threads are blocked, exactly
  one thread runs, sleepers are sorted and priorities are in range.
\<close>

theorem kernel_invariant:
  assumes "sched_inv s" "kstep\<^sup>*\<^sup>* s s'"
  shows "sched_inv s'"
  using assms(2,1) by (induction rule: rtranclp_induct) (auto intro: kstep_inv)

theorem kernel_invariant_witness:
  "\<exists>s'. kstep\<^sup>*\<^sup>* contended s' \<and> current s' = 4096 \<and> lists s' Ready_list = [12288] \<and> sched_inv s'"
proof -
  have cur: "current contended = 4096" "idle_thread contended = 8192" "\<not> thread_mlfqs contended"
    "lists contended Ready_list = [12288]" "pending (thr contended 4096) = Caller"
    "prior_don (thr contended 4096) = 31" "prior_don (thr contended 12288) = 20"
    by (simp_all add: contended_def concrete)
  obtain s' where s': "thread_yield contended = Some s'"
    using thread_yield_inv [OF sched_inv_contended] by blast
  have step: "kstep contended s'"
    by (rule kstep.call [where c = Yield]) (simp_all add: cur s' call_ok_def)
  then have path: "kstep\<^sup>*\<^sup>* contended s'" by simp
  have "sched_inv s'"
    by (rule kernel_invariant [OF sched_inv_contended path])
  moreover obtain as bs where ab: "[12288, 4096] = as @ current s' # bs" "lists s' Ready_list = as @ bs"
    "\<forall>a \<in> set as. prior_don (thr contended a) < prior_don (thr contended (current s'))"
    "\<forall>b \<in> set bs. prior_don (thr contended b) \<le> prior_don (thr contended (current s'))"
    using yield_top [OF sched_inv_contended _ _ s'] cur by auto
  moreover have "as = [12288]"
  proof (cases as)
    case Nil
    with ab(1) have "bs = [4096]" "current s' = 12288" by simp_all
    with ab(4) cur show ?thesis by simp
  qed (use ab(1) in \<open>auto simp: Cons_eq_append_conv\<close>)
  ultimately show ?thesis
    using path by auto
qed

text \<open>
  C25: \<^verbatim>\<open>thread_yield\<close> under the priority scheduler returns and runs the first thread of highest
  (donated) priority among the ready threads followed by the yielding one: those before it have
  strictly lower priority, so equal priorities take turns, and the other threads keep their order.
\<close>

theorem thread_yield_picks_highest:
  assumes "sched_inv s" "\<not> thread_mlfqs s" "current s \<noteq> idle_thread s"
  shows "\<exists>s' as bs. thread_yield s = Some s' \<and> lists s Ready_list @ [current s] = as @ current s' # bs \<and>
    lists s' Ready_list = as @ bs \<and>
    (\<forall>a \<in> set as. prior_don (thr s a) < prior_don (thr s (current s'))) \<and>
    (\<forall>b \<in> set bs. prior_don (thr s b) \<le> prior_don (thr s (current s')))"
proof -
  obtain s' where s': "thread_yield s = Some s'"
    using thread_yield_inv [OF assms(1)] by blast
  show ?thesis
    using yield_top [OF assms s'] s' by blast
qed

theorem thread_yield_picks_highest_witness:
  "\<exists>s' as bs. thread_yield contended = Some s' \<and> lists contended Ready_list @ [current contended] = as @ current s' # bs \<and>
    lists s' Ready_list = as @ bs \<and>
    (\<forall>a \<in> set as. prior_don (thr contended a) < prior_don (thr contended (current s'))) \<and>
    (\<forall>b \<in> set bs. prior_don (thr contended b) \<le> prior_don (thr contended (current s')))"
  by (rule thread_yield_picks_highest [OF sched_inv_contended]) (simp_all add: contended_def concrete)

text \<open>
  \<^verbatim>\<open>sema_up\<close> returns, wakes every waiter of the semaphore, adds one to its value, and when it
  returns under the priority scheduler no ready thread has a higher priority than the running one.
\<close>

theorem sema_up_preempts:
  assumes "sched_inv s" "sema \<noteq> NULL" "\<not> thread_mlfqs s" "current s \<noteq> idle_thread s"
  shows "\<exists>s'. sema_up sema s = Some s' \<and> sched_inv s' \<and> lists s' (Waiters sema) = [] \<and>
    sema_value s' sema = sema_value s sema + 1 \<and> top_priority s'"
proof -
  obtain s' where s': "sema_up sema s = Some s'" "sched_inv s'"
    using sema_up_inv [OF assms(1,2)] by blast
  note eff = sema_up_effect [OF assms(1) s'(1)]
  have "lists s' (Waiters sema) = []"
    by (rule sema_up_no_waiters [OF assms(1) s'(1)])
  with s' eff assms(3,4) show ?thesis by simp
qed

theorem sema_up_preempts_witness:
  "\<exists>s'. sema_up 512 contended = Some s' \<and> sched_inv s' \<and> lists s' (Waiters 512) = [] \<and>
    sema_value s' 512 = sema_value contended 512 + 1 \<and> top_priority s'"
  by (rule sema_up_preempts [OF sched_inv_contended]) (simp_all add: contended_def concrete)

section \<open>Sleeping\<close>

lemma sorted_dropWhile_filter:
  "sorted_wrt (\<lambda>a b. \<not> key b < key a) xs \<Longrightarrow>
     dropWhile (\<lambda>x. key x \<le> n) xs = filter (\<lambda>x. n < key x) xs \<and>
     takeWhile (\<lambda>x. key x \<le> n) xs = filter (\<lambda>x. key x \<le> n) xs"
  for key :: "'a \<Rightarrow> int"
proof (induction xs)
  case (Cons x xs)
  show ?case
  proof (cases "key x \<le> n")
    case False
    with Cons.prems have "\<forall>y \<in> set xs. n < key y" by auto
    then have "filter (\<lambda>x. key x \<le> n) xs = []" "filter (\<lambda>x. n < key x) xs = xs"
      by (auto simp: filter_empty_conv filter_id_conv)
    with False show ?thesis by simp
  qed (use Cons in auto)
qed simp

text \<open>
  C27: the tick handler makes ready exactly the sleepers whose wake-up time has come and leaves the
  others asleep in their order; no other thread changes.
\<close>

theorem alarm_exact:
  assumes "sched_inv s"
  shows "\<exists>s' y. handle_tick_for_sleep_queue s = Some (s', y) \<and> sched_inv s' \<and>
    lists s' Sleepers = filter (\<lambda>t. ticks s < ticks_left_to_sleep (thr s t)) (lists s Sleepers) \<and>
    (\<forall>t. thr s' t = (if t \<in> set (lists s Sleepers) \<and> ticks_left_to_sleep (thr s t) \<le> ticks s
       then (thr s t)\<lparr>ticks_left_to_sleep := ticks s, status := THREAD_READY\<rparr> else thr s t))"
proof -
  have "sorted_wrt (\<lambda>a b. \<not> ticks_left_to_sleep (thr s b) < ticks_left_to_sleep (thr s a)) (lists s Sleepers)"
    using queues_okD(6) [OF sched_invD(1) [OF assms]] by (simp add: sleep_sorted_def sleepers_is_less_cmp_def)
  from sorted_dropWhile_filter [OF this, of "ticks s"] wake_sleepers_spec [OF assms refl]
  obtain s' where s': "wake_sleepers (lists s Sleepers) s = Some s'" "sched_inv s'"
    "lists s' Sleepers = filter (\<lambda>t. ticks s < ticks_left_to_sleep (thr s t)) (lists s Sleepers)"
    "\<forall>t. thr s' t = (if t \<in> set (filter (\<lambda>t. ticks_left_to_sleep (thr s t) \<le> ticks s) (lists s Sleepers))
       then (thr s t)\<lparr>ticks_left_to_sleep := ticks s, status := THREAD_READY\<rparr> else thr s t)"
    by auto
  show ?thesis
  proof (cases "lists s Sleepers = []")
    case True
    then show ?thesis
      using assms by (intro exI [of _ s] exI [of _ False]) (simp add: handle_tick_for_sleep_queue_def)
  next
    case False
    then show ?thesis
      using s' by (intro exI [of _ s'] exI [of _ True]) (simp add: handle_tick_for_sleep_queue_def)
  qed
qed

theorem alarm_exact_witness:
  "\<exists>s' y. handle_tick_for_sleep_queue drowsy = Some (s', y) \<and> lists s' Sleepers = [16384]"
proof -
  have "\<exists>s' y. handle_tick_for_sleep_queue drowsy = Some (s', y) \<and> sched_inv s' \<and>
    lists s' Sleepers = filter (\<lambda>t. ticks drowsy < ticks_left_to_sleep (thr drowsy t)) (lists drowsy Sleepers) \<and>
    (\<forall>t. thr s' t = (if t \<in> set (lists drowsy Sleepers) \<and> ticks_left_to_sleep (thr drowsy t) \<le> ticks drowsy
       then (thr drowsy t)\<lparr>ticks_left_to_sleep := ticks drowsy, status := THREAD_READY\<rparr> else thr drowsy t))"
    by (rule alarm_exact [OF sched_inv_drowsy])
  moreover have "filter (\<lambda>t. ticks drowsy < ticks_left_to_sleep (thr drowsy t)) (lists drowsy Sleepers) = [16384]"
    by (simp add: drowsy_def concrete)
  ultimately show ?thesis by auto
qed

section \<open>Locks and donation\<close>

text \<open>
  C23: mutual exclusion: if a lock is in order (free with its semaphore up, or held with its
  semaphore down), then it is still in order after \<^verbatim>\<open>lock_acquire\<close>, and it changes hands only from
  free to the caller.
\<close>

theorem lock_acquire_mutex:
  assumes "sched_inv s" "lock_ok l s" "lock_acquire l s = Some s'"
  shows "lock_ok l s' \<and> (holder s' l = holder s l \<or> holder s l = NULL \<and> holder s' l = current s)"
proof -
  obtain s1 b where "sema_down_test (lock_sema l) (if \<not> thread_mlfqs s then l else NULL) (Take l) s = Some (s1, b)"
    "(if b then lock_take l s1 else Some s1) = Some s'"
    using assms(3) by (auto simp: lock_acquire_def split: bind_splits)
  then show ?thesis
    by (rule down_take_mutex [OF assms(1,2)])
qed

lemma booted_acquire: "lock_acquire 500 booted =
    Some (upd_thread 4096 (\<lambda>r. r\<lparr>lock_list := [500]\<rparr>)
      (booted\<lparr>sema_value := (\<lambda>_. 1)(512 := 0), holder := (\<lambda>_. NULL)(500 := 4096)\<rparr>))"
proof -
  have "thread_current booted = Some 4096" "sema_value booted 512 = 1" "holder booted 500 = NULL" "\<not> thread_mlfqs booted"
    by (simp_all add: thread_current_def is_thread_booted) (simp_all add: booted_def new_thread_def)
  then show ?thesis
    by (simp add: lock_acquire_def lock_held_by_current_thread_def sema_down_test_def lock_sema_def lock_take_def
        thread_current_def set_pending_def is_thread_def Let_def upd_thread_def)
      (simp add: booted_def new_thread_def THREAD_MAGIC_def fun_eq_iff)
qed

theorem lock_acquire_mutex_witness: "\<exists>s'. lock_acquire 500 booted = Some s' \<and> lock_ok 500 s' \<and> holder s' 500 = 4096"
proof -
  obtain s' where s': "lock_acquire 500 booted = Some s'" "holder s' 500 = 4096"
    using booted_acquire by simp
  have "lock_ok 500 booted" by (simp add: lock_ok_def booted_def)
  from lock_acquire_mutex [OF sched_inv_booted this s'(1)] s' show ?thesis by blast
qed

text \<open>
  C26: \<^verbatim>\<open>lock_release\<close> by the holder under the priority scheduler returns with the lock free and its semaphore up,
  and wakes every thread that waits for the lock: the threads that can run are those that could before and the waiters,
  each of them ready or running, and nobody is left on the list of waiters. No ready thread has a higher priority than the running one.
\<close>

theorem lock_release_frees:
  assumes "sched_inv s" "lock_ok l s" "holder s l = current s" "l \<noteq> NULL" "\<not> thread_mlfqs s" "current s \<noteq> idle_thread s"
  shows "\<exists>s'. lock_release l s = Some s' \<and> sched_inv s' \<and> holder s' l = NULL \<and> lock_ok l s' \<and>
    lists s' (Waiters (lock_sema l)) = [] \<and> runnable s' = runnable s \<union> set (lists s (Waiters (lock_sema l))) \<and>
    (\<forall>t \<in> set (lists s (Waiters (lock_sema l))). status (thr s' t) = (if t = current s' then THREAD_RUNNING else THREAD_READY)) \<and>
    top_priority s'"
proof -
  note s = sched_invD [OF assms(1)]
  obtain s' where s': "lock_release l s = Some s'" "sched_inv s'"
    using lock_release_inv [OF assms(1,3,4)] by blast
  let ?s1 = "s\<lparr>holder := (holder s)(l := NULL)\<rparr>"
  let ?s2 = "upd_thread (current s) (\<lambda>r. r\<lparr>lock_list := removeAll l (lock_list r)\<rparr>) ?s1"
  have up: "sema_up (lock_sema l) ?s2 = Some s'"
    using s'(1) s(5) assms(3-5) by (simp add: lock_release_def lock_held_by_current_thread_def Let_def)
  have "same_sched s ?s2" "prio_ok ?s2"
    using s(4) by (auto simp: same_sched_def prio_ok_def)
  then have inv2: "sched_inv ?s2"
    using same_sched_inv [OF assms(1)] by blast
  have "current s \<noteq> NULL"
    using s(6) by (simp add: is_thread_def)
  moreover have wake: "runnable s' = runnable s \<union> set (lists s (Waiters (lock_sema l)))"
    using sema_up_wakes [OF inv2 up] assms(5,6) by (simp add: runnable_def)
  moreover have "\<forall>t \<in> set (lists s (Waiters (lock_sema l))). status (thr s' t) = (if t = current s' then THREAD_RUNNING else THREAD_READY)"
    using runnable_status [OF s'(2)] wake by blast
  ultimately show ?thesis
    using s' sema_up_effect [OF inv2 up] sema_up_no_waiters [OF inv2 up] assms by (simp add: lock_ok_def)
qed

text \<open>
  The thread at 12288 runs and holds the lock at 500, with the priority of the initial thread, which waits for the lock together with
  a thread of lower priority at 16384.
\<close>

definition awaited :: kernel where
  "awaited = booted\<lparr>thr := (thr booted)(4096 := (new_thread 31 THREAD_BLOCKED)\<lparr>locked_on := 500, pending := In_down 512 500 12288 (Take 500)\<rparr>,
       12288 := (new_thread 20 THREAD_RUNNING)\<lparr>prior_don := 31, lock_list := [500]\<rparr>,
       16384 := (new_thread 15 THREAD_BLOCKED)\<lparr>locked_on := 500, pending := In_down 512 500 12288 (Take 500)\<rparr>),
     lists := (\<lambda>_. [])(Waiters 512 := [16384, 4096]), all_list := [4096, 8192, 12288, 16384], current := 12288,
     sema_value := (\<lambda>_. 1)(512 := 0), holder := (\<lambda>_. NULL)(500 := 12288)\<rparr>"

lemma is_thread_awaited: "is_thread awaited t \<longleftrightarrow> t = 4096 \<or> t = 8192 \<or> t = 12288 \<or> t = 16384"
  by (auto simp: is_thread_def awaited_def concrete)

lemma sched_inv_awaited: "sched_inv awaited"
proof -
  have "linked_once awaited" "members_ok awaited" "none_lost awaited" "idle_ok awaited" "mode_ok awaited"
    "sleep_sorted awaited" "prio_ok awaited" "all_ok awaited" "running_ok awaited"
    unfolding linked_once_def members_ok_def none_lost_def idle_ok_def mode_ok_def sleep_sorted_def prio_ok_def all_ok_def
      running_ok_def is_thread_awaited list_status_def
    by (auto simp: awaited_def concrete split: if_splits)
  then show ?thesis by (simp add: sched_inv_def queues_ok_def)
qed

theorem lock_release_frees_witness:
  "\<exists>s'. lock_release 500 awaited = Some s' \<and> holder s' 500 = NULL \<and> runnable s' = {4096, 12288, 16384} \<and>
    status (thr s' 4096) \<noteq> THREAD_BLOCKED \<and> status (thr s' 16384) \<noteq> THREAD_BLOCKED"
proof -
  have w: "lists awaited (Waiters (lock_sema 500)) = [16384, 4096]" "runnable awaited = {12288}"
    by (simp_all add: awaited_def lock_sema_def runnable_def)
  have "\<exists>s'. lock_release 500 awaited = Some s' \<and> sched_inv s' \<and> holder s' 500 = NULL \<and> lock_ok 500 s' \<and>
    lists s' (Waiters (lock_sema 500)) = [] \<and> runnable s' = runnable awaited \<union> set (lists awaited (Waiters (lock_sema 500))) \<and>
    (\<forall>t \<in> set (lists awaited (Waiters (lock_sema 500))). status (thr s' t) = (if t = current s' then THREAD_RUNNING else THREAD_READY)) \<and>
    top_priority s'"
    by (rule lock_release_frees [OF sched_inv_awaited]) (simp_all add: awaited_def lock_ok_def lock_sema_def concrete)
  then show ?thesis unfolding w by auto
qed

text \<open>
  C22: priority inheritance: a thread that asks for a held lock under the priority scheduler is made
  to wait: it is blocked, at the end of the list of waiters of the lock, with the rest of the call pending, and another thread runs. The donation
  along the chain of holders terminates, and afterwards every thread that waits for a lock has a priority at most that of the holder of the lock.
\<close>

theorem lock_acquire_inherits:
  assumes "sched_inv s" "\<not> thread_mlfqs s" "current s \<noteq> idle_thread s"
    and "l \<noteq> NULL" "sema_value s (lock_sema l) = 0" "holder s l = h" "h \<noteq> NULL" "h \<noteq> current s"
    and "locks_held s" "inherits s" "finite {t. is_thread s t}"
  shows "\<exists>s'. lock_acquire l s = Some s' \<and> sched_inv s' \<and> inherits s' \<and> holder s' = holder s \<and>
    (is_thread s h \<longrightarrow> prior_don (thr s (current s)) \<le> prior_don (thr s' h)) \<and> locked_on (thr s' (current s)) = l \<and>
    current s' \<noteq> current s \<and> status (thr s' (current s)) = THREAD_BLOCKED \<and>
    lists s' (Waiters (lock_sema l)) = lists s (Waiters (lock_sema l)) @ [current s] \<and>
    pending (thr s' (current s)) = In_down (lock_sema l) l h (Take l)"
  using assms by (rule lock_acquire_waits)

theorem lock_acquire_inherits_witness:
  "\<exists>s'. lock_acquire 500 contended = Some s' \<and> 31 \<le> prior_don (thr s' 12288) \<and> lists s' (Waiters 512) = [4096] \<and>
    status (thr s' 4096) = THREAD_BLOCKED"
proof -
  have "\<exists>s'. lock_acquire 500 contended = Some s' \<and> sched_inv s' \<and> inherits s' \<and> holder s' = holder contended \<and>
    (is_thread contended 12288 \<longrightarrow> prior_don (thr contended (current contended)) \<le> prior_don (thr s' 12288)) \<and>
    locked_on (thr s' (current contended)) = 500 \<and>
    current s' \<noteq> current contended \<and> status (thr s' (current contended)) = THREAD_BLOCKED \<and>
    lists s' (Waiters (lock_sema 500)) = lists contended (Waiters (lock_sema 500)) @ [current contended] \<and>
    pending (thr s' (current contended)) = In_down (lock_sema 500) 500 12288 (Take 500)"
  proof (rule lock_acquire_inherits [OF sched_inv_contended])
    show "locks_held contended" "inherits contended" "finite {t. is_thread contended t}"
      unfolding locks_held_def inherits_def is_thread_contended by (auto simp: contended_def concrete)
  qed (simp_all add: contended_def concrete lock_sema_def)
  moreover have "current contended = 4096" "lists contended (Waiters 512) = []" "prior_don (thr contended 4096) = 31" "is_thread contended 12288"
    by (simp_all add: is_thread_contended) (simp_all add: contended_def concrete)
  ultimately show ?thesis by (auto simp: lock_sema_def)
qed

text \<open>
  A thread that holds a lock nobody waits for cannot lower its own priority safely:
  \<^verbatim>\<open>thread_update_donations\<close> takes the maximum of an empty list of waiters and reads the priority of
  the list's tail, which is no thread.
\<close>

theorem set_priority_uncontended:
  assumes "sched_inv s" "\<not> thread_mlfqs s" "lock_list (thr s (current s)) = l # ls"
    "lists s (Waiters (lock_sema l)) = []" "PRI_MIN \<le> p" "p \<le> prior_don (thr s (current s))"
  shows "thread_set_priority p s = None"
proof -
  note s = sched_invD [OF assms(1)]
  have "p \<le> PRI_MAX" "current s \<noteq> NULL"
    using s(4,6) assms(6) by (auto simp: prio_ok_def is_thread_def intro: order.trans)
  moreover have "is_thread (upd_thread (current s) (\<lambda>r. r\<lparr>base_priority := p\<rparr>) s) (current s)"
    using s(6) by simp
  moreover have "first_max lt [] = None" for lt :: "ptr \<Rightarrow> ptr \<Rightarrow> bool"
    by simp
  ultimately have "thread_update_donations (current s) (upd_thread (current s) (\<lambda>r. r\<lparr>base_priority := p\<rparr>) s) = None"
    using assms(3,4) by (subst thread_update_donations.simps) (simp add: Let_def)
  then show ?thesis
    using assms(2,5,6) s(5) \<open>p \<le> PRI_MAX\<close> by (simp add: thread_set_priority_def Let_def not_less)
qed

theorem set_priority_uncontended_witness:
  "\<exists>s. lock_acquire 500 booted = Some s \<and> sched_inv s \<and> thread_set_priority 10 s = None"
proof -
  obtain s where s: "lock_acquire 500 booted = Some s" "lock_list (thr s 4096) = [500]" "lists s (Waiters 512) = []"
    "current s = 4096" "\<not> thread_mlfqs s" "prior_don (thr s 4096) = 31"
    using booted_acquire by (simp add: booted_def new_thread_def)
  have inv: "sched_inv s"
    using lock_acquire_inv [OF sched_inv_booted _ s(1)] by (simp add: booted_def)
  have "thread_set_priority 10 s = None"
    by (rule set_priority_uncontended [OF inv, where l = 500 and ls = "[]"]) (use s in \<open>simp_all add: lock_sema_def PRI_MIN_def\<close>)
  with s(1) inv show ?thesis by blast
qed

text \<open>
  The thread at 12288 holds the lock at 500 and has been woken from waiting for the lock at 600,
  whose holder has just released it; a thread of higher priority runs.
\<close>

definition handover :: kernel where
  "handover = booted\<lparr>thr := (thr booted)(12288 := (new_thread 20 THREAD_READY)\<lparr>lock_list := [500], locked_on := 600,
        pending := In_down 612 600 4096 (Take 600)\<rparr>),
     lists := (\<lambda>_. [])(Ready_list := [12288]), all_list := [4096, 8192, 12288],
     sema_value := (\<lambda>_. 1)(512 := 0), holder := (\<lambda>_. NULL)(500 := 12288)\<rparr>"

lemma is_thread_handover: "is_thread handover t \<longleftrightarrow> t = 4096 \<or> t = 8192 \<or> t = 12288"
  by (auto simp: is_thread_def handover_def concrete)

lemma sched_inv_handover: "sched_inv handover"
proof -
  have "linked_once handover" "members_ok handover" "none_lost handover" "idle_ok handover" "mode_ok handover"
    "sleep_sorted handover" "prio_ok handover" "all_ok handover" "running_ok handover"
    unfolding linked_once_def members_ok_def none_lost_def idle_ok_def mode_ok_def sleep_sorted_def prio_ok_def all_ok_def
      running_ok_def is_thread_handover list_status_def
    by (auto simp: handover_def concrete split: if_splits)
  then show ?thesis by (simp add: sched_inv_def queues_ok_def)
qed

text \<open>
  C28: a donation that reaches a thread which still waits for a lock that has just been released
  fails the assertion \<^verbatim>\<open>t != NULL\<close> of \<^verbatim>\<open>thread_donate\<close>: asking for a lock held by such a thread of lower
  priority stops the machine.
\<close>

theorem donate_to_released_panics:
  assumes "sched_inv s" "\<not> thread_mlfqs s" "l \<noteq> NULL" "sema_value s (lock_sema l) = 0" "is_thread s (holder s l)"
    "holder s l \<noteq> current s" "prior_don (thr s (holder s l)) < prior_don (thr s (current s))"
    "locked_on (thr s (holder s l)) \<noteq> NULL" "holder s (locked_on (thr s (holder s l))) = NULL"
  shows "lock_acquire l s = None"
proof -
  note s = sched_invD [OF assms(1)]
  let ?s1 = "upd_thread (current s) (\<lambda>r. r\<lparr>locked_on := l\<rparr>) (push_back (Waiters (lock_sema l)) (current s) s)"
  have "holder s l \<noteq> NULL"
    using assms(5) by (simp add: is_thread_def)
  have run: "running_ok ?s1"
    using s(2) by (rule running_ok_transfer) simp_all
  have "thread_donate NULL p s' = None" for p s'
    by (subst thread_donate.simps) simp
  then have "thread_donate (holder s l) (prior_don (thr s (current s))) ?s1 = None"
    using assms \<open>holder s l \<noteq> NULL\<close> by (subst thread_donate.simps) (simp add: Let_def)
  then have "down_donate l (push_back (Waiters (lock_sema l)) (current s) s) = None"
    using assms(2,3) run \<open>holder s l \<noteq> NULL\<close> by (simp add: down_donate_def Let_def thread_get_priority_def)
  then show ?thesis
    using assms(2-4,6) s(5)
    by (simp add: lock_acquire_def lock_held_by_current_thread_def sema_down_test_def lock_sema_def)
qed

theorem donate_to_released_panics_witness: "lock_acquire 500 handover = None"
  by (rule donate_to_released_panics [OF sched_inv_handover])
    (simp_all add: is_thread_handover, simp_all add: handover_def concrete lock_sema_def)

section \<open>The advanced scheduler\<close>

text \<open>
  C30: with at most \<open>N\<close> runnable threads the load average never exceeds \<open>N\<close> and never becomes
  negative; none of the fixed-point operations overflows or divides by zero.
\<close>

theorem load_avg_bounded:
  assumes "thread_mlfqs s" "running_ok s" "ready_count s + 1 \<le> N" "N \<le> 2 ^ 14"
    "0 \<le> load_avg s" "load_avg s \<le> N * 16384"
  shows "\<exists>s'. count_load_avg s = Some s' \<and> 0 \<le> load_avg s' \<and> load_avg s' \<le> N * 16384"
proof -
  define cnt where "cnt = ready_count s + (if current s = idle_thread s then 0 else 1)"
  have cnt: "0 \<le> cnt" "cnt \<le> N"
    using ready_count_nonneg [of s] assms(3) by (auto simp: cnt_def)
  have "load_ok s" "ready_count s < 2 ^ 14"
    using assms(3-6) by (auto simp: load_ok_def)
  then have "count_load_avg s = Some (s\<lparr>load_avg := 16110 * load_avg s div 16384 + 273 * cnt\<rparr>)"
    unfolding cnt_def using assms(1,2) by (intro count_load_avg_eq)
  then show ?thesis
    using load_step_range [OF assms(5,6) cnt] by simp
qed

definition busy :: kernel where
  "busy = booted\<lparr>thread_mlfqs := True, load_avg := 16384\<rparr>"

theorem load_avg_bounded_witness:
  "\<exists>s'. count_load_avg busy = Some s' \<and> 0 \<le> load_avg s' \<and> load_avg s' \<le> 2 * 16384"
proof (rule load_avg_bounded)
  show "running_ok busy"
    by (auto simp: running_ok_def is_thread_def busy_def concrete)
  have "map (\<lambda>p. int (length (lists busy (Equiprior p)))) [0..<64] = map (\<lambda>_. 0) [0..<64]"
    by (simp add: busy_def booted_def)
  then show "ready_count busy + 1 \<le> 2"
    unfolding ready_count_def by (simp only: sum_list_0)
qed (simp_all add: busy_def concrete)

text \<open>The priority that the advanced scheduler gives to a thread.\<close>

definition recomputed :: "thread \<Rightarrow> int" where
  "recomputed r = (let p = int32 (PRI_MAX - fixed_round_to_closest_int (the (fixed_int_div (recent_cpu r) 4)) - nice r * 2)
     in max PRI_MIN (min PRI_MAX p))"

lemma thread_priority_update_eq:
  assumes "is_thread s t"
  shows "thread_priority_update t s = Some (if t = idle_thread s then s
    else upd_thread t (\<lambda>r. r\<lparr>base_priority := recomputed (thr s t), prior_don := recomputed (thr s t)\<rparr>) s)"
proof -
  obtain q where "fixed_int_div (recent_cpu (thr s t)) 4 = Some q"
    by (simp add: fixed_int_div_def)
  then show ?thesis
    using assms by (simp add: thread_priority_update_def recomputed_def Let_def max_def min_def PRI_MIN_def PRI_MAX_def)
qed

lemma foreach_priority_update:
  assumes "\<forall>t \<in> set ts. is_thread s t"
  shows "\<exists>s'. thread_foreach thread_priority_update ts s = Some s' \<and> lists s' = lists s \<and> thread_mlfqs s' = thread_mlfqs s \<and>
    idle_thread s' = idle_thread s \<and> (\<forall>t. recomputed (thr s' t) = recomputed (thr s t)) \<and>
    (\<forall>t. prior_don (thr s' t) = (if t \<in> set ts \<and> t \<noteq> idle_thread s then recomputed (thr s t) else prior_don (thr s t)))"
  using assms
proof (induction ts arbitrary: s)
  case (Cons t ts)
  let ?s = "if t = idle_thread s then s
    else upd_thread t (\<lambda>r. r\<lparr>base_priority := recomputed (thr s t), prior_don := recomputed (thr s t)\<rparr>) s"
  have u: "thread_priority_update t s = Some ?s"
    using Cons.prems by (intro thread_priority_update_eq) simp
  have f: "is_thread ?s = is_thread s" "lists ?s = lists s" "thread_mlfqs ?s = thread_mlfqs s" "idle_thread ?s = idle_thread s"
    "recomputed (thr ?s v) = recomputed (thr s v)" "prior_don (thr ?s v) = (if v = t \<and> v \<noteq> idle_thread s then recomputed (thr s v) else prior_don (thr s v))" for v
    by (auto simp: recomputed_def)
  obtain s' where "thread_foreach thread_priority_update ts ?s = Some s'" "lists s' = lists s" "thread_mlfqs s' = thread_mlfqs s"
    "idle_thread s' = idle_thread s" "\<forall>v. recomputed (thr s' v) = recomputed (thr s v)"
    "\<forall>v. prior_don (thr s' v) = (if v \<in> set ts \<and> v \<noteq> idle_thread s then recomputed (thr s v) else prior_don (thr ?s v))"
    using Cons.IH [of ?s] Cons.prems unfolding f by auto
  then show ?case
    unfolding f by (intro exI [of _ s']) (auto simp: u simp del: upd_thread_simps)
qed simp

text \<open>
  Two ready threads, at 12288 in the queue of priority 50 and at 16384 in that of priority 40,
  just before the priorities are recomputed; the first has used much processor time since.
\<close>

definition stale :: kernel where
  "stale = booted\<lparr>thread_mlfqs := True, thr := (thr booted)(
       12288 := (new_thread 50 THREAD_READY)\<lparr>recent_cpu := 2621440\<rparr>,
       16384 := (new_thread 40 THREAD_READY)\<lparr>recent_cpu := 1507328\<rparr>),
     lists := (\<lambda>_. [])(Equiprior 50 := [12288], Equiprior 40 := [16384]),
     all_list := [4096, 8192, 12288, 16384]\<rparr>"

lemma is_thread_stale: "is_thread stale t \<longleftrightarrow> t = 4096 \<or> t = 8192 \<or> t = 12288 \<or> t = 16384"
  by (auto simp: is_thread_def stale_def concrete)

lemma sched_inv_stale: "sched_inv stale"
proof -
  have "none_lost stale"
    unfolding none_lost_def is_thread_stale
  proof (intro allI impI)
    fix t assume t: "t = 4096 \<or> t = 8192 \<or> t = 12288 \<or> t = 16384" "status (thr stale t) = THREAD_READY"
    then have "t \<in> set (lists stale (Equiprior 50)) \<or> t \<in> set (lists stale (Equiprior 40))"
      by (auto simp: stale_def concrete)
    then show "\<exists>l. is_ready l \<and> t \<in> set (lists stale l)"
      using is_ready.simps(2) by blast
  qed
  moreover have "linked_once stale" "members_ok stale" "idle_ok stale" "mode_ok stale"
    "sleep_sorted stale" "prio_ok stale" "all_ok stale" "running_ok stale"
    unfolding linked_once_def members_ok_def idle_ok_def mode_ok_def sleep_sorted_def prio_ok_def all_ok_def
      running_ok_def is_thread_stale list_status_def
    by (auto simp: stale_def concrete split: if_splits)
  ultimately show ?thesis by (simp add: sched_inv_def queues_ok_def)
qed

text \<open>
  C29: the advanced scheduler recomputes the priorities of all threads without moving ready threads between its
  queues: the queues and the thread that is chosen next are the same as before, whatever the new priorities are. So whenever the
  thread at the head of the queues gets a lower priority than another ready thread, it is chosen nevertheless.
\<close>

theorem mlfqs_stale_queue:
  assumes "sched_inv s" "thread_mlfqs s" "get_next_thread_to_run s = Some t" "t \<noteq> idle_thread s" "u \<in> ready_set s"
    and "t \<in> set (all_list s)" "u \<in> set (all_list s)" "recomputed (thr s t) < recomputed (thr s u)"
  shows "\<exists>s'. thread_priority_update_all s = Some s' \<and> sched_inv s' \<and> lists s' = lists s \<and> get_next_thread_to_run s' = Some t \<and>
    u \<in> ready_set s' \<and> prior_don (thr s' t) < prior_don (thr s' u)"
proof -
  note s = sched_invD [OF assms(1)]
  obtain s' where s': "thread_priority_update_all s = Some s'" "lists s' = lists s" "thread_mlfqs s' = thread_mlfqs s" "idle_thread s' = idle_thread s"
    "\<forall>t. prior_don (thr s' t) = (if t \<in> set (all_list s) \<and> t \<noteq> idle_thread s then recomputed (thr s t) else prior_don (thr s t))"
    using foreach_priority_update [of "all_list s" s] queues_okD(8) [OF s(1)]
    by (auto simp: thread_priority_update_all_def all_ok_def)
  have "sched_inv s'"
    using thread_priority_update_all_same [OF s'(1)] same_sched_inv [OF assms(1)] s(4) by blast
  moreover have "u \<noteq> idle_thread s"
    using assms(5) s(3) by (auto simp: ready_set_def members_ok_def)
  moreover have "highest_queue s' n = highest_queue s n" for n
    by (induction n rule: less_induct) (subst (1 2) highest_queue.simps, auto simp: s'(2) split: list.split)
  then have "get_next_thread_to_run s' = Some t"
    using assms(2,3) s'(3,4) by (simp add: get_next_thread_to_run_def split: option.splits)
  moreover have "ready_set s' = ready_set s" by (simp add: ready_set_def s'(2))
  ultimately show ?thesis using s'(1,2,5) assms(4-8) by auto
qed

theorem mlfqs_stale_queue_witness:
  "\<exists>s'. thread_priority_update_all stale = Some s' \<and> get_next_thread_to_run s' = Some 12288 \<and>
     16384 \<in> ready_set s' \<and> prior_don (thr s' 12288) < prior_don (thr s' 16384)"
proof -
  have "highest_queue stale 63 = Some 12288"
    by (simp add: highest_queue.simps stale_def)
  then have n: "get_next_thread_to_run stale = Some 12288"
    by (simp add: get_next_thread_to_run_def PRI_MAX_def PRI_MIN_def) (simp add: stale_def)
  have "16384 \<in> set (lists stale (Equiprior 40))" by (simp add: stale_def)
  then have r: "16384 \<in> ready_set stale" by (auto simp: ready_set_iff)
  have p: "recomputed (thr stale 12288) = 23" "recomputed (thr stale 16384) = 40"
    by (simp_all add: recomputed_def stale_def concrete fixed_int_div_def fixed_round_to_closest_int_def signed_divide_int_def)
  have "\<exists>s'. thread_priority_update_all stale = Some s' \<and> sched_inv s' \<and> lists s' = lists stale \<and> get_next_thread_to_run s' = Some 12288 \<and>
    16384 \<in> ready_set s' \<and> prior_don (thr s' 12288) < prior_don (thr s' 16384)"
    by (rule mlfqs_stale_queue [OF sched_inv_stale _ n _ r]) (simp_all add: p, simp_all add: stale_def concrete)
  then show ?thesis by blast
qed

end
