(* ===== verification/Bitmap.thy ===== *)
theory Bitmap
  imports Prelude
begin

unbundle bit_operations_syntax

text \<open>
  \<^verbatim>\<open>src/Project5/src/lib/kernel/bitmap.c\<close>: an array of bits packed into 32-bit elements. Sizes and
  indices (\<^verbatim>\<open>size_t\<close>) are natural numbers below \<open>2 ^ 32\<close>, with the wrap-around of sums written out.
  Accesses to elements outside the array are \<^term>\<open>None\<close>, as failed assertions are. The theory
  shows that the packed bitmap implements a list of Booleans, that a scan is a first-fit search,
  and that scanning and flipping is an allocator of runs of bits.
\<close>

section \<open>The bitmap\<close>

definition ELEM_BITS :: nat where
  "ELEM_BITS = 32"

definition BITMAP_ERROR :: nat where
  "BITMAP_ERROR = 2 ^ 32 - 1"

record bitmap =
  bit_cnt :: nat
  bits :: "u32 list"

text \<open>A sum of two \<^verbatim>\<open>size_t\<close> values.\<close>

definition size_add :: "nat \<Rightarrow> nat \<Rightarrow> nat" where
  "size_add a b = (a + b) mod 2 ^ 32"

definition elem_idx :: "nat \<Rightarrow> nat" where
  "elem_idx bit_idx = bit_idx div ELEM_BITS"

definition bit_mask :: "nat \<Rightarrow> u32" where
  "bit_mask bit_idx = push_bit (bit_idx mod ELEM_BITS) 1"

definition elem_cnt :: "nat \<Rightarrow> nat" where
  "elem_cnt n = (n + ELEM_BITS - 1) div ELEM_BITS"

definition byte_cnt :: "nat \<Rightarrow> nat" where
  "byte_cnt n = 4 * elem_cnt n"

definition last_mask :: "bitmap \<Rightarrow> u32" where
  "last_mask b = (let last_bits = bit_cnt b mod ELEM_BITS
     in if last_bits \<noteq> 0 then push_bit last_bits 1 - 1 else - 1)"

definition bitmap_size :: "bitmap \<Rightarrow> nat" where
  "bitmap_size b = bit_cnt b"

text \<open>Applying an operation to one element of the array.\<close>

definition upd_elem :: "bitmap \<Rightarrow> nat \<Rightarrow> (u32 \<Rightarrow> u32) \<Rightarrow> bitmap option" where
  "upd_elem b i f = (if i < length (bits b) then Some (b\<lparr>bits := (bits b)[i := f (bits b ! i)]\<rparr>) else None)"

definition bitmap_mark :: "bitmap \<Rightarrow> nat \<Rightarrow> bitmap option" where
  "bitmap_mark b i = upd_elem b (elem_idx i) (\<lambda>w. w OR bit_mask i)"

definition bitmap_reset :: "bitmap \<Rightarrow> nat \<Rightarrow> bitmap option" where
  "bitmap_reset b i = upd_elem b (elem_idx i) (\<lambda>w. w AND NOT (bit_mask i))"

definition bitmap_flip :: "bitmap \<Rightarrow> nat \<Rightarrow> bitmap option" where
  "bitmap_flip b i = upd_elem b (elem_idx i) (\<lambda>w. w XOR bit_mask i)"

definition bitmap_set :: "bitmap \<Rightarrow> nat \<Rightarrow> bool \<Rightarrow> bitmap option" where
  "bitmap_set b i v = do {
     ASSERT (i < bit_cnt b);
     if v then bitmap_mark b i else bitmap_reset b i }"

definition bitmap_test :: "bitmap \<Rightarrow> nat \<Rightarrow> bool option" where
  "bitmap_test b i = do {
     ASSERT (i < bit_cnt b);
     if elem_idx i < length (bits b) then Some (bits b ! elem_idx i AND bit_mask i \<noteq> 0) else None }"

fun set_bits :: "bitmap \<Rightarrow> nat \<Rightarrow> nat \<Rightarrow> bool \<Rightarrow> bitmap option" where
  "set_bits b i 0 v = Some b"
| "set_bits b i (Suc n) v = do { b \<leftarrow> bitmap_set b i v; set_bits b (i + 1) n v }"

definition bitmap_set_multiple :: "bitmap \<Rightarrow> nat \<Rightarrow> nat \<Rightarrow> bool \<Rightarrow> bitmap option" where
  "bitmap_set_multiple b start cnt v = do {
     ASSERT (start \<le> bit_cnt b);
     ASSERT (size_add start cnt \<le> bit_cnt b);
     set_bits b start cnt v }"

definition bitmap_set_all :: "bitmap \<Rightarrow> bool \<Rightarrow> bitmap option" where
  "bitmap_set_all b v = bitmap_set_multiple b 0 (bitmap_size b) v"

fun count_bits :: "bitmap \<Rightarrow> nat \<Rightarrow> nat \<Rightarrow> bool \<Rightarrow> nat option" where
  "count_bits b i 0 v = Some 0"
| "count_bits b i (Suc n) v = do {
     x \<leftarrow> bitmap_test b i;
     k \<leftarrow> count_bits b (i + 1) n v;
     Some (if x = v then k + 1 else k) }"

definition bitmap_count :: "bitmap \<Rightarrow> nat \<Rightarrow> nat \<Rightarrow> bool \<Rightarrow> nat option" where
  "bitmap_count b start cnt v = do {
     ASSERT (start \<le> bit_cnt b);
     ASSERT (size_add start cnt \<le> bit_cnt b);
     count_bits b start cnt v }"

fun contains_bit :: "bitmap \<Rightarrow> nat \<Rightarrow> nat \<Rightarrow> bool \<Rightarrow> bool option" where
  "contains_bit b i 0 v = Some False"
| "contains_bit b i (Suc n) v = do {
     x \<leftarrow> bitmap_test b i;
     if x = v then Some True else contains_bit b (i + 1) n v }"

definition bitmap_contains :: "bitmap \<Rightarrow> nat \<Rightarrow> nat \<Rightarrow> bool \<Rightarrow> bool option" where
  "bitmap_contains b start cnt v = do {
     ASSERT (start \<le> bit_cnt b);
     ASSERT (size_add start cnt \<le> bit_cnt b);
     contains_bit b start cnt v }"

definition bitmap_any :: "bitmap \<Rightarrow> nat \<Rightarrow> nat \<Rightarrow> bool option" where
  "bitmap_any b start cnt = bitmap_contains b start cnt True"

definition bitmap_none :: "bitmap \<Rightarrow> nat \<Rightarrow> nat \<Rightarrow> bool option" where
  "bitmap_none b start cnt = map_option Not (bitmap_contains b start cnt True)"

definition bitmap_all :: "bitmap \<Rightarrow> nat \<Rightarrow> nat \<Rightarrow> bool option" where
  "bitmap_all b start cnt = map_option Not (bitmap_contains b start cnt False)"

text \<open>The loop of \<^verbatim>\<open>bitmap_scan\<close> from \<open>i\<close>, with \<open>n\<close> positions left to try.\<close>

fun scan_from :: "bitmap \<Rightarrow> nat \<Rightarrow> nat \<Rightarrow> bool \<Rightarrow> nat \<Rightarrow> nat option" where
  "scan_from b i cnt v 0 = Some BITMAP_ERROR"
| "scan_from b i cnt v (Suc n) = do {
     c \<leftarrow> bitmap_contains b i cnt (\<not> v);
     if \<not> c then Some i else scan_from b (i + 1) cnt v n }"

definition bitmap_scan :: "bitmap \<Rightarrow> nat \<Rightarrow> nat \<Rightarrow> bool \<Rightarrow> nat option" where
  "bitmap_scan b start cnt v = do {
     ASSERT (start \<le> bit_cnt b);
     if cnt \<le> bit_cnt b then scan_from b start cnt v (bit_cnt b - cnt + 1 - start) else Some BITMAP_ERROR }"

definition bitmap_scan_and_flip :: "bitmap \<Rightarrow> nat \<Rightarrow> nat \<Rightarrow> bool \<Rightarrow> (bitmap \<times> nat) option" where
  "bitmap_scan_and_flip b start cnt v = do {
     idx \<leftarrow> bitmap_scan b start cnt v;
     b \<leftarrow> (if idx \<noteq> BITMAP_ERROR then bitmap_set_multiple b idx cnt (\<not> v) else Some b);
     Some (b, idx) }"

text \<open>
  Creation: \<open>mem n\<close> is the contents of a block of \<open>n\<close> bytes that \<^verbatim>\<open>malloc\<close> returns (\<^term>\<open>None\<close> if it
  returns null), and \<open>hdr\<close> says whether the header could be allocated. The result is the bitmap or
  the null pointer.
\<close>

definition bitmap_create :: "bool \<Rightarrow> (nat \<Rightarrow> u32 list option) \<Rightarrow> nat \<Rightarrow> bitmap option option" where
  "bitmap_create hdr mem n =
     (if hdr then
        (case mem (byte_cnt n) of
           Some ws \<Rightarrow> map_option Some (bitmap_set_all \<lparr>bit_cnt = n, bits = ws\<rparr> False)
         | None \<Rightarrow> if n = 0 then map_option Some (bitmap_set_all \<lparr>bit_cnt = n, bits = []\<rparr> False) else Some None)
      else Some None)"

definition bitmap_buf_size :: "nat \<Rightarrow> nat" where
  "bitmap_buf_size n = 8 + byte_cnt n"

text \<open>In a preallocated block of \<open>block_size\<close> bytes whose elements after the header are \<open>ws\<close>.\<close>

definition bitmap_create_in_buf :: "nat \<Rightarrow> u32 list \<Rightarrow> nat \<Rightarrow> bitmap option" where
  "bitmap_create_in_buf n ws block_size = do {
     ASSERT (bitmap_buf_size n \<le> block_size);
     bitmap_set_all \<lparr>bit_cnt = n, bits = ws\<rparr> False }"

definition bitmap_file_size :: "bitmap \<Rightarrow> nat" where
  "bitmap_file_size b = byte_cnt (bit_cnt b)"

text \<open>
  \<^verbatim>\<open>bitmap_read\<close>, where \<open>r\<close> is what \<^verbatim>\<open>file_read_at\<close> leaves in the elements and the number of bytes
  it returns.
\<close>

definition bitmap_read :: "bitmap \<Rightarrow> u32 list \<times> nat \<Rightarrow> (bitmap \<times> bool) option" where
  "bitmap_read b r =
     (if bit_cnt b > 0 then do {
        let b = b\<lparr>bits := fst r\<rparr>;
        b' \<leftarrow> upd_elem b (elem_cnt (bit_cnt b) - 1) (\<lambda>w. w AND last_mask b);
        Some (b', snd r = byte_cnt (bit_cnt b)) }
      else Some (b, True))"

section \<open>Bits\<close>

definition bitmap_ok :: "bitmap \<Rightarrow> bool" where
  "bitmap_ok b \<longleftrightarrow> length (bits b) = elem_cnt (bit_cnt b) \<and> bit_cnt b < 2 ^ 32 - 1"

definition bit_at :: "bitmap \<Rightarrow> nat \<Rightarrow> bool" where
  "bit_at b i = bit (bits b ! elem_idx i) (i mod ELEM_BITS)"

text \<open>The list of Booleans a bitmap stands for.\<close>

definition bools :: "bitmap \<Rightarrow> bool list" where
  "bools b = map (bit_at b) [0..<bit_cnt b]"

lemma length_bools [simp]: "length (bools b) = bit_cnt b"
  by (simp add: bools_def)

lemma nth_bools [simp]: "i < bit_cnt b \<Longrightarrow> bools b ! i = bit_at b i"
  by (simp add: bools_def)

lemma elem_idx_less: "bitmap_ok b \<Longrightarrow> i < bit_cnt b \<Longrightarrow> elem_idx i < length (bits b)"
  unfolding bitmap_ok_def elem_idx_def elem_cnt_def ELEM_BITS_def by simp

lemma bit_mask_bit: "bit (bit_mask i) j \<longleftrightarrow> j = i mod ELEM_BITS"
  by (auto simp: bit_mask_def bit_simps ELEM_BITS_def)

lemma same_bit: "elem_idx i = elem_idx j \<Longrightarrow> i mod ELEM_BITS = j mod ELEM_BITS \<Longrightarrow> i = j"
  unfolding elem_idx_def by (metis div_mult_mod_eq)

lemma test_mask: "w AND bit_mask i \<noteq> 0 \<longleftrightarrow> bit w (i mod ELEM_BITS)"
proof
  assume "w AND bit_mask i \<noteq> 0"
  then obtain j where "bit (w AND bit_mask i) j"
    by (metis bit_word_eqI bit_0_eq bot_apply bot_bool_def)
  then show "bit w (i mod ELEM_BITS)"
    by (auto simp: bit_and_iff bit_mask_bit)
next
  assume "bit w (i mod ELEM_BITS)"
  then have "bit (w AND bit_mask i) (i mod ELEM_BITS)"
    by (simp add: bit_and_iff bit_mask_bit)
  then show "w AND bit_mask i \<noteq> 0"
    by (metis bit_0_eq bot_apply bot_bool_def)
qed

lemma bitmap_test_eq: "bitmap_ok b \<Longrightarrow> i < bit_cnt b \<Longrightarrow> bitmap_test b i = Some (bit_at b i)"
  by (simp add: bitmap_test_def elem_idx_less test_mask bit_at_def)

lemma upd_elem_bits:
  assumes "bitmap_ok b" "i < bit_cnt b" "\<And>w j. j < ELEM_BITS \<Longrightarrow> bit (f w) j = (if j = i mod ELEM_BITS then v w else bit w j)"
  shows "\<exists>b'. upd_elem b (elem_idx i) f = Some b' \<and> bitmap_ok b' \<and> bit_cnt b' = bit_cnt b \<and>
    (\<forall>j. bit_at b' j = (if j = i then v (bits b ! elem_idx i) else bit_at b j))"
proof -
  let ?b = "b\<lparr>bits := (bits b)[elem_idx i := f (bits b ! elem_idx i)]\<rparr>"
  have lt: "elem_idx i < length (bits b)" using assms(1,2) by (rule elem_idx_less)
  have "bit_at ?b j = (if j = i then v (bits b ! elem_idx i) else bit_at b j)" for j
    using lt same_bit [of j i] assms(3) [of "j mod ELEM_BITS"]
    by (cases "elem_idx j = elem_idx i") (auto simp: bit_at_def ELEM_BITS_def)
  then show ?thesis
    using assms(1) lt by (simp add: upd_elem_def bitmap_ok_def)
qed

lemma bitmap_set_ok:
  assumes "bitmap_ok b" "i < bit_cnt b"
  shows "\<exists>b'. bitmap_set b i v = Some b' \<and> bitmap_ok b' \<and> bit_cnt b' = bit_cnt b \<and>
    (\<forall>j. bit_at b' j = (if j = i then v else bit_at b j))"
proof (cases v)
  case True
  have "bit (w OR bit_mask i) j = (if j = i mod ELEM_BITS then True else bit w j)" for w j
    by (simp add: bit_or_iff bit_mask_bit)
  from upd_elem_bits [OF assms, of "\<lambda>w. w OR bit_mask i" "\<lambda>_. True", OF this] True assms(2)
  show ?thesis by (auto simp: bitmap_set_def bitmap_mark_def)
next
  case False
  have "j < ELEM_BITS \<Longrightarrow> bit (w AND NOT (bit_mask i)) j = (if j = i mod ELEM_BITS then False else bit w j)" for w j
    by (simp add: bit_and_iff bit_not_iff bit_mask_bit ELEM_BITS_def)
  from upd_elem_bits [OF assms, of "\<lambda>w. w AND NOT (bit_mask i)" "\<lambda>_. False", OF this] False assms(2)
  show ?thesis by (auto simp: bitmap_set_def bitmap_reset_def)
qed

lemma bitmap_flip_ok:
  assumes "bitmap_ok b" "i < bit_cnt b"
  shows "\<exists>b'. bitmap_flip b i = Some b' \<and> bitmap_ok b' \<and> bit_cnt b' = bit_cnt b \<and>
    (\<forall>j. bit_at b' j = (if j = i then \<not> bit_at b i else bit_at b j))"
proof -
  have "bit (w XOR bit_mask i) j = (if j = i mod ELEM_BITS then \<not> bit w (i mod ELEM_BITS) else bit w j)" for w j
    by (auto simp: bit_xor_iff bit_mask_bit)
  from upd_elem_bits [OF assms, of "\<lambda>w. w XOR bit_mask i" "\<lambda>w. \<not> bit w (i mod ELEM_BITS)", OF this]
  show ?thesis by (simp only: bitmap_flip_def bit_at_def [of b i])
qed

section \<open>Runs of bits\<close>

lemma set_bits_ok:
  "bitmap_ok b \<Longrightarrow> i + n \<le> bit_cnt b \<Longrightarrow>
     \<exists>b'. set_bits b i n v = Some b' \<and> bitmap_ok b' \<and> bit_cnt b' = bit_cnt b \<and>
       (\<forall>j. bit_at b' j = (if i \<le> j \<and> j < i + n then v else bit_at b j))"
proof (induction n arbitrary: b i)
  case (Suc n)
  obtain b1 where b1: "bitmap_set b i v = Some b1" "bitmap_ok b1" "bit_cnt b1 = bit_cnt b"
    "\<forall>j. bit_at b1 j = (if j = i then v else bit_at b j)"
    using bitmap_set_ok [of b i v] Suc.prems by auto
  then obtain b' where "set_bits b1 (i + 1) n v = Some b'" "bitmap_ok b'" "bit_cnt b' = bit_cnt b1"
    "\<forall>j. bit_at b' j = (if i + 1 \<le> j \<and> j < i + 1 + n then v else bit_at b1 j)"
    using Suc.IH [of b1 "i + 1"] Suc.prems by auto
  with b1 show ?case by auto
qed auto

lemma size_add_ok: "bitmap_ok b \<Longrightarrow> i + n \<le> bit_cnt b \<Longrightarrow> size_add i n = i + n"
  by (simp add: size_add_def bitmap_ok_def)

lemma bitmap_set_multiple_ok:
  assumes "bitmap_ok b" "i + n \<le> bit_cnt b"
  shows "\<exists>b'. bitmap_set_multiple b i n v = Some b' \<and> bitmap_ok b' \<and> bit_cnt b' = bit_cnt b \<and>
    (\<forall>j. bit_at b' j = (if i \<le> j \<and> j < i + n then v else bit_at b j))"
  using set_bits_ok [OF assms, of v] size_add_ok [OF assms] assms(2)
  by (simp add: bitmap_set_multiple_def)

lemma count_bits_eq:
  "bitmap_ok b \<Longrightarrow> i + n \<le> bit_cnt b \<Longrightarrow>
     count_bits b i n v = Some (length (filter (\<lambda>j. bit_at b j = v) [i..<i + n]))"
proof (induction n arbitrary: i)
  case (Suc n)
  have "[i..<i + Suc n] = i # [i + 1..<i + 1 + n]"
    by (simp add: upt_conv_Cons)
  with Suc show ?case
    by (simp add: bitmap_test_eq)
qed simp

lemma contains_bit_eq:
  "bitmap_ok b \<Longrightarrow> i + n \<le> bit_cnt b \<Longrightarrow> contains_bit b i n v = Some (\<exists>j \<in> {i..<i + n}. bit_at b j = v)"
proof (induction n arbitrary: i)
  case (Suc n)
  have "{i..<i + Suc n} = insert i {i + 1..<i + 1 + n}" by auto
  with Suc show ?case
    by (simp add: bitmap_test_eq)
qed simp

lemma bitmap_contains_eq:
  "bitmap_ok b \<Longrightarrow> i + n \<le> bit_cnt b \<Longrightarrow> bitmap_contains b i n v = Some (\<exists>j \<in> {i..<i + n}. bit_at b j = v)"
  by (simp add: bitmap_contains_def contains_bit_eq size_add_ok)

lemma bitmap_all_eq:
  "bitmap_ok b \<Longrightarrow> i + n \<le> bit_cnt b \<Longrightarrow> bitmap_all b i n = Some (\<forall>j \<in> {i..<i + n}. bit_at b j)"
  by (simp add: bitmap_all_def bitmap_contains_eq)

section \<open>First fit\<close>

text \<open>\<open>run b i n v\<close>: the \<open>n\<close> bits from \<open>i\<close> on are inside the bitmap and all equal to \<open>v\<close>.\<close>

definition run :: "bitmap \<Rightarrow> nat \<Rightarrow> nat \<Rightarrow> bool \<Rightarrow> bool" where
  "run b i n v \<longleftrightarrow> i + n \<le> bit_cnt b \<and> (\<forall>j \<in> {i..<i + n}. bit_at b j = v)"

definition first_fit :: "bitmap \<Rightarrow> nat \<Rightarrow> nat \<Rightarrow> bool \<Rightarrow> nat \<Rightarrow> bool" where
  "first_fit b start n v r \<longleftrightarrow>
     (if r = BITMAP_ERROR then \<forall>i \<ge> start. \<not> run b i n v
      else start \<le> r \<and> run b r n v \<and> (\<forall>i. start \<le> i \<and> i < r \<longrightarrow> \<not> run b i n v))"

lemma scan_from_fit:
  assumes "bitmap_ok b" "n \<le> bit_cnt b"
  shows "i + k = bit_cnt b - n + 1 \<or> bit_cnt b - n + 1 \<le> i \<and> k = 0 \<Longrightarrow> \<exists>r. scan_from b i n v k = Some r \<and> first_fit b i n v r"
proof (induction k arbitrary: i)
  case 0
  then show ?case
    using assms(2) by (auto simp: first_fit_def run_def)
next
  case (Suc k)
  then have le: "i + n \<le> bit_cnt b"
    using assms(2) by auto
  have c: "bitmap_contains b i n (\<not> v) = Some (\<not> run b i n v)"
    using le by (auto simp: bitmap_contains_eq [OF assms(1) le] run_def)
  have ne: "i \<noteq> BITMAP_ERROR"
    using le assms(1) by (auto simp: bitmap_ok_def BITMAP_ERROR_def)
  show ?case
  proof (cases "run b i n v")
    case True
    then show ?thesis using c ne by (auto simp: first_fit_def)
  next
    case False
    obtain r where r: "scan_from b (i + 1) n v k = Some r" "first_fit b (i + 1) n v r"
      using Suc.IH [of "i + 1"] Suc.prems by auto
    have "first_fit b i n v r"
      using r(2) False unfolding first_fit_def by (auto split: if_splits) (metis Suc_leI le_neq_implies_less)+
    with r c False show ?thesis by auto
  qed
qed

lemma bitmap_scan_fit:
  assumes "bitmap_ok b" "start \<le> bit_cnt b"
  shows "\<exists>r. bitmap_scan b start n v = Some r \<and> first_fit b start n v r"
proof (cases "n \<le> bit_cnt b")
  case True
  have "\<exists>r. scan_from b start n v (bit_cnt b - n + 1 - start) = Some r \<and> first_fit b start n v r"
    by (rule scan_from_fit [OF assms(1) True]) linarith
  then show ?thesis
    using assms(2) True by (simp add: bitmap_scan_def)
next
  case False
  then show ?thesis
    using assms(2) by (auto simp: bitmap_scan_def first_fit_def run_def)
qed

lemma bitmap_scan_and_flip_ok:
  assumes "bitmap_ok b" "start \<le> bit_cnt b"
  shows "\<exists>b' r. bitmap_scan_and_flip b start n v = Some (b', r) \<and> bitmap_ok b' \<and> bit_cnt b' = bit_cnt b \<and>
    first_fit b start n v r \<and>
    (\<forall>j. bit_at b' j = (if r \<noteq> BITMAP_ERROR \<and> j \<in> {r..<r + n} then \<not> v else bit_at b j))"
proof -
  obtain r where r: "bitmap_scan b start n v = Some r" "first_fit b start n v r"
    using bitmap_scan_fit [OF assms] by blast
  show ?thesis
  proof (cases "r = BITMAP_ERROR")
    case True
    then show ?thesis using r assms(1) by (simp add: bitmap_scan_and_flip_def)
  next
    case False
    then have "r + n \<le> bit_cnt b"
      using r(2) by (simp add: first_fit_def run_def)
    with bitmap_set_multiple_ok [OF assms(1) this, of "\<not> v"] r False show ?thesis
      by (auto simp: bitmap_scan_and_flip_def)
  qed
qed

section \<open>Allocators of runs\<close>

text \<open>
  The contract the disk, swap and page allocators share: \<open>used s\<close> is the set of indices handed
  out, \<open>alloc s n\<close> hands out \<open>n\<close> consecutive unused indices or fails without effect, and \<open>free\<close>
  takes back indices that are in use and stops the machine on others.
\<close>

locale run_allocator =
  fixes ok :: "'s \<Rightarrow> bool"
    and used :: "'s \<Rightarrow> nat set"
    and cap :: "'s \<Rightarrow> nat"
    and alloc :: "'s \<Rightarrow> nat \<Rightarrow> ('s \<times> nat option) option"
    and free :: "'s \<Rightarrow> nat \<Rightarrow> nat \<Rightarrow> 's option"
  assumes alloc: "ok s \<Longrightarrow> \<exists>s' r. alloc s n = Some (s', r) \<and> ok s' \<and> cap s' = cap s \<and>
      (case r of None \<Rightarrow> used s' = used s
       | Some i \<Rightarrow> {i..<i + n} \<subseteq> {..<cap s} - used s \<and> used s' = used s \<union> {i..<i + n})"
    and free: "ok s \<Longrightarrow> i \<le> cap s \<Longrightarrow> {i..<i + n} \<subseteq> used s \<Longrightarrow>
      \<exists>s'. free s i n = Some s' \<and> ok s' \<and> cap s' = cap s \<and> used s' = used s - {i..<i + n}"
    and free_unused: "ok s \<Longrightarrow> i + n \<le> cap s \<Longrightarrow> \<not> {i..<i + n} \<subseteq> used s \<Longrightarrow> free s i n = None"
begin

text \<open>Two allocations never overlap, and what has been handed out before stays handed out.\<close>

lemma alloc_disjoint:
  assumes "ok s" "alloc s n = Some (s1, Some i)" "alloc s1 m = Some (s2, Some j)"
  shows "{i..<i + n} \<inter> {j..<j + m} = {}" and "used s \<union> {i..<i + n} \<union> {j..<j + m} = used s2"
proof -
  have "ok s1" "used s1 = used s \<union> {i..<i + n}"
    using alloc [OF assms(1), of n] assms(2) by auto
  moreover from this(1) have "{j..<j + m} \<subseteq> {..<cap s1} - used s1" "used s2 = used s1 \<union> {j..<j + m}"
    using alloc [of s1 m] assms(3) by auto
  ultimately show "{i..<i + n} \<inter> {j..<j + m} = {}" "used s \<union> {i..<i + n} \<union> {j..<j + m} = used s2"
    by blast+
qed

lemma alloc_free:
  assumes "ok s" "alloc s n = Some (s1, Some i)" "i \<le> cap s"
  shows "\<exists>s2. free s1 i n = Some s2 \<and> ok s2 \<and> used s2 = used s"
proof -
  have s1: "ok s1" "cap s1 = cap s" "used s1 = used s \<union> {i..<i + n}" "{i..<i + n} \<inter> used s = {}"
    using alloc [OF assms(1), of n] assms(2) by auto
  then obtain s2 where "free s1 i n = Some s2" "ok s2" "used s2 = used s1 - {i..<i + n}"
    using free [of s1 i n] assms(3) by auto
  with s1 show ?thesis by auto
qed

lemma double_free:
  assumes "ok s" "i + n \<le> cap s" "0 < n" "free s i n = Some s1"
  shows "free s1 i n = None"
proof -
  have "{i..<i + n} \<subseteq> used s"
    using free_unused [OF assms(1,2)] assms(4) by auto
  then have s1: "ok s1" "cap s1 = cap s" "used s1 = used s - {i..<i + n}"
    using free [OF assms(1), of i n] assms(2,4) by auto
  have "i \<in> {i..<i + n}" using assms(3) by simp
  then have "\<not> {i..<i + n} \<subseteq> used s1" unfolding s1(3) by blast
  then show ?thesis
    using free_unused [OF s1(1), of i n] s1(2) assms(2) by simp
qed

end

text \<open>An allocator that fails only when there is no room.\<close>

locale complete_allocator = run_allocator +
  assumes alloc_complete: "ok s \<Longrightarrow> alloc s n = Some (s', None) \<Longrightarrow> i + n \<le> cap s \<Longrightarrow> {i..<i + n} \<inter> used s \<noteq> {}"
begin

text \<open>A run that has been given back can be handed out again.\<close>

lemma alloc_after_free:
  assumes "ok s" "i + n \<le> cap s" "0 < n" "free s i n = Some s1"
  shows "\<exists>s2 j. alloc s1 n = Some (s2, Some j)"
proof -
  have "{i..<i + n} \<subseteq> used s"
    using free_unused [OF assms(1,2)] assms(4) by auto
  then have s1: "ok s1" "cap s1 = cap s" "used s1 = used s - {i..<i + n}"
    using free [OF assms(1), of i n] assms(2,4) by auto
  obtain s2 r where r: "alloc s1 n = Some (s2, r)"
    using alloc [OF s1(1), of n] by blast
  have "r \<noteq> None"
    using alloc_complete [OF s1(1), of n s2 i] r s1(2,3) assms(2) by auto
  with r show ?thesis by auto
qed

end

definition used_bits :: "bitmap \<Rightarrow> nat set" where
  "used_bits b = {j. j < bit_cnt b \<and> bit_at b j}"

text \<open>The two patterns of use: claim a run of clear bits, and clear a run that must be all set.\<close>

definition claim_run :: "bitmap \<Rightarrow> nat \<Rightarrow> (bitmap \<times> nat option) option" where
  "claim_run b n = do {
     (b, r) \<leftarrow> bitmap_scan_and_flip b 0 n False;
     Some (b, if r = BITMAP_ERROR then None else Some r) }"

definition release_run :: "bitmap \<Rightarrow> nat \<Rightarrow> nat \<Rightarrow> bitmap option" where
  "release_run b i n = do {
     all \<leftarrow> bitmap_all b i n;
     ASSERT all;
     bitmap_set_multiple b i n False }"

lemma claim_run_ok:
  assumes "bitmap_ok b"
  shows "\<exists>b' r. claim_run b n = Some (b', r) \<and> bitmap_ok b' \<and> bit_cnt b' = bit_cnt b \<and>
    (case r of None \<Rightarrow> used_bits b' = used_bits b
     | Some i \<Rightarrow> i + n \<le> bit_cnt b \<and> {i..<i + n} \<inter> used_bits b = {} \<and> used_bits b' = used_bits b \<union> {i..<i + n}) \<and>
    (r = None \<longrightarrow> (\<forall>i. i + n \<le> bit_cnt b \<longrightarrow> {i..<i + n} \<inter> used_bits b \<noteq> {}))"
proof -
  obtain b' r where r: "bitmap_scan_and_flip b 0 n False = Some (b', r)" "bitmap_ok b'" "bit_cnt b' = bit_cnt b"
    "first_fit b 0 n False r"
    "\<forall>j. bit_at b' j = (if r \<noteq> BITMAP_ERROR \<and> j \<in> {r..<r + n} then True else bit_at b j)"
    using bitmap_scan_and_flip_ok [OF assms, of 0 n False] by auto
  have no: "run b i n False \<longleftrightarrow> i + n \<le> bit_cnt b \<and> {i..<i + n} \<inter> used_bits b = {}" for i
    by (auto simp: run_def used_bits_def)
  show ?thesis
  proof (cases "r = BITMAP_ERROR")
    case True
    then have "used_bits b' = used_bits b" "\<forall>i. i + n \<le> bit_cnt b \<longrightarrow> {i..<i + n} \<inter> used_bits b \<noteq> {}"
      using r(3-5) by (auto simp: used_bits_def first_fit_def no [unfolded used_bits_def])
    then show ?thesis using r(1-3) True by (simp add: claim_run_def)
  next
    case False
    then have le: "r + n \<le> bit_cnt b" "{r..<r + n} \<inter> used_bits b = {}"
      using r(4) by (auto simp: first_fit_def no)
    have "used_bits b' = used_bits b \<union> {r..<r + n}"
      using r(3,5) False le(1) by (auto simp: used_bits_def)
    then show ?thesis using r(1-3) False le by (simp add: claim_run_def)
  qed
qed

lemma release_run_ok:
  assumes "bitmap_ok b" "i + n \<le> bit_cnt b"
  shows "{i..<i + n} \<subseteq> used_bits b \<Longrightarrow>
      \<exists>b'. release_run b i n = Some b' \<and> bitmap_ok b' \<and> bit_cnt b' = bit_cnt b \<and> used_bits b' = used_bits b - {i..<i + n}"
    and "\<not> {i..<i + n} \<subseteq> used_bits b \<Longrightarrow> release_run b i n = None"
proof -
  have all: "bitmap_all b i n = Some ({i..<i + n} \<subseteq> used_bits b)"
    using assms(2) by (auto simp: bitmap_all_eq [OF assms] used_bits_def)
  obtain b' where b': "bitmap_set_multiple b i n False = Some b'" "bitmap_ok b'" "bit_cnt b' = bit_cnt b"
    "\<forall>j. bit_at b' j = (if i \<le> j \<and> j < i + n then False else bit_at b j)"
    using bitmap_set_multiple_ok [OF assms, of False] by blast
  have "used_bits b' = used_bits b - {i..<i + n}"
    using b'(3,4) by (auto simp: used_bits_def)
  then show "{i..<i + n} \<subseteq> used_bits b \<Longrightarrow>
      \<exists>b'. release_run b i n = Some b' \<and> bitmap_ok b' \<and> bit_cnt b' = bit_cnt b \<and> used_bits b' = used_bits b - {i..<i + n}"
    using b' all by (simp add: release_run_def)
  show "\<not> {i..<i + n} \<subseteq> used_bits b \<Longrightarrow> release_run b i n = None"
    using all by (simp add: release_run_def)
qed

lemma used_run_le: "{i..<i + n} \<subseteq> used_bits b \<Longrightarrow> i \<le> bit_cnt b \<Longrightarrow> i + n \<le> bit_cnt b"
proof (cases n)
  case (Suc m)
  assume "{i..<i + n} \<subseteq> used_bits b"
  then have "i + m \<in> used_bits b" using Suc by auto
  then show ?thesis using Suc by (simp add: used_bits_def)
qed simp

interpretation bm: complete_allocator bitmap_ok used_bits bit_cnt claim_run release_run
proof
  fix s n assume "bitmap_ok s"
  then show "\<exists>s' r. claim_run s n = Some (s', r) \<and> bitmap_ok s' \<and> bit_cnt s' = bit_cnt s \<and>
      (case r of None \<Rightarrow> used_bits s' = used_bits s
       | Some i \<Rightarrow> {i..<i + n} \<subseteq> {..<bit_cnt s} - used_bits s \<and> used_bits s' = used_bits s \<union> {i..<i + n})"
    using claim_run_ok [of s n] by (fastforce split: option.splits)
next
  fix s i n assume "bitmap_ok s" "i \<le> bit_cnt s" "{i..<i + n} \<subseteq> used_bits s"
  then show "\<exists>s'. release_run s i n = Some s' \<and> bitmap_ok s' \<and> bit_cnt s' = bit_cnt s \<and> used_bits s' = used_bits s - {i..<i + n}"
    using release_run_ok(1) used_run_le by blast
next
  fix s i n assume "bitmap_ok s" "i + n \<le> bit_cnt s" "\<not> {i..<i + n} \<subseteq> used_bits s"
  then show "release_run s i n = None" by (rule release_run_ok(2))
next
  fix s n s' i assume "bitmap_ok s" "claim_run s n = Some (s', None)" "i + n \<le> bit_cnt s"
  then show "{i..<i + n} \<inter> used_bits s \<noteq> {}"
    using claim_run_ok [of s n] by auto
qed

end
