(* ===== verification/Allocators.thy ===== *)
theory Allocators
  imports Bitmap
begin

unbundle bit_operations_syntax

text \<open>
  Two clients of the bitmap: the map of free disk sectors (\<^verbatim>\<open>src/Project5/src/filesys/free-map.c\<close>)
  and the swap partition (\<^verbatim>\<open>src/Project5/src/vm/swap.c\<close>),
  with the address arithmetic of \<^verbatim>\<open>vaddr.h\<close>. The locks
  around the bitmap operations make each of these functions a critical section, modelled as one step.
\<close>

section \<open>Virtual addresses\<close>

text \<open>Addresses are natural numbers below \<open>2 ^ 32\<close>.\<close>

definition BITMASK :: "nat \<Rightarrow> nat \<Rightarrow> nat" where
  "BITMASK shift cnt = push_bit shift (push_bit cnt 1 - 1)"

definition PGSHIFT :: nat where "PGSHIFT = 0"
definition PGBITS :: nat where "PGBITS = 12"
definition PGSIZE :: nat where "PGSIZE = push_bit PGBITS 1"
definition PGMASK :: nat where "PGMASK = BITMASK PGSHIFT PGBITS"
definition PHYS_BASE :: nat where "PHYS_BASE = 0xc0000000"

definition pg_ofs :: "nat \<Rightarrow> nat" where
  "pg_ofs va = va AND PGMASK"

definition pg_no :: "nat \<Rightarrow> nat" where
  "pg_no va = drop_bit PGBITS va"

text \<open>\<^verbatim>\<open>x & ~PGMASK\<close> keeps the bits of \<open>x\<close> above the page offset.\<close>

definition pg_round_down :: "nat \<Rightarrow> nat" where
  "pg_round_down va = push_bit PGBITS (drop_bit PGBITS va)"

definition pg_round_up :: "nat \<Rightarrow> nat" where
  "pg_round_up va = push_bit PGBITS (drop_bit PGBITS ((va + PGSIZE - 1) mod 2 ^ 32))"

definition is_user_vaddr :: "nat \<Rightarrow> bool" where
  "is_user_vaddr va \<longleftrightarrow> va < PHYS_BASE"

definition is_kernel_vaddr :: "nat \<Rightarrow> bool" where
  "is_kernel_vaddr va \<longleftrightarrow> PHYS_BASE \<le> va"

definition ptov :: "nat \<Rightarrow> nat option" where
  "ptov paddr = do { ASSERT (paddr < PHYS_BASE); Some ((paddr + PHYS_BASE) mod 2 ^ 32) }"

definition vtop :: "nat \<Rightarrow> nat option" where
  "vtop va = do { ASSERT (is_kernel_vaddr va); Some (va - PHYS_BASE) }"

lemma PGSIZE_eq [simp]: "PGSIZE = 4096"
  by (simp add: PGSIZE_def PGBITS_def)

lemma pg_no_div: "pg_no va = va div 4096"
  by (simp add: pg_no_def PGBITS_def drop_bit_eq_div)

lemma pg_ofs_mod: "pg_ofs va = va mod 4096"
proof -
  have "PGMASK = mask 12"
    by (simp add: PGMASK_def BITMASK_def PGSHIFT_def PGBITS_def mask_eq_exp_minus_1)
  then have "pg_ofs va = take_bit 12 va"
    by (simp only: pg_ofs_def take_bit_eq_mask)
  then show ?thesis
    by (simp add: take_bit_eq_mod)
qed

section \<open>The free map\<close>

definition FREE_MAP_SECTOR :: nat where "FREE_MAP_SECTOR = 0"
definition ROOT_DIR_SECTOR :: nat where "ROOT_DIR_SECTOR = 1"

record fmap =
  free_map :: bitmap
  free_map_file :: bool

text \<open>\<open>wr b\<close>: writing the bitmap to the free map file succeeds.\<close>

definition free_map_init :: "bool \<Rightarrow> (nat \<Rightarrow> u32 list option) \<Rightarrow> nat \<Rightarrow> fmap option" where
  "free_map_init hdr mem device_size = do {
     r \<leftarrow> bitmap_create hdr mem device_size;
     b \<leftarrow> r; \<comment> \<open>\<^verbatim>\<open>PANIC\<close> if the bitmap could not be created\<close>
     b \<leftarrow> bitmap_mark b FREE_MAP_SECTOR;
     b \<leftarrow> bitmap_mark b ROOT_DIR_SECTOR;
     Some \<lparr>free_map = b, free_map_file = False\<rparr> }"

definition free_map_allocate :: "(bitmap \<Rightarrow> bool) \<Rightarrow> fmap \<Rightarrow> nat \<Rightarrow> (fmap \<times> nat option) option" where
  "free_map_allocate wr s cnt = do {
     (b, sector) \<leftarrow> bitmap_scan_and_flip (free_map s) 0 cnt False;
     (b, sector) \<leftarrow>
       (if sector \<noteq> BITMAP_ERROR \<and> free_map_file s \<and> \<not> wr b then do {
          b \<leftarrow> bitmap_set_multiple b sector cnt False;
          Some (b, BITMAP_ERROR) }
        else Some (b, sector));
     Some (s\<lparr>free_map := b\<rparr>, if sector \<noteq> BITMAP_ERROR then Some sector else None) }"

text \<open>The write after the release faults if the file is not open yet; its failure goes unnoticed.\<close>

definition free_map_release :: "fmap \<Rightarrow> nat \<Rightarrow> nat \<Rightarrow> fmap option" where
  "free_map_release s sector cnt = do {
     all \<leftarrow> bitmap_all (free_map s) sector cnt;
     ASSERT all;
     b \<leftarrow> bitmap_set_multiple (free_map s) sector cnt False;
     ASSERT (free_map_file s);
     Some (s\<lparr>free_map := b\<rparr>) }"

definition fmap_ok :: "fmap \<Rightarrow> bool" where
  "fmap_ok s \<longleftrightarrow> bitmap_ok (free_map s) \<and> free_map_file s"

lemma free_map_release_run: "free_map_file s \<Longrightarrow>
    free_map_release s i n = map_option (\<lambda>b. s\<lparr>free_map := b\<rparr>) (release_run (free_map s) i n)"
  by (auto simp: free_map_release_def release_run_def split: bind_splits)

lemma free_map_allocate_ok:
  assumes "fmap_ok s"
  shows "\<exists>s' r. free_map_allocate wr s n = Some (s', r) \<and> fmap_ok s' \<and> bit_cnt (free_map s') = bit_cnt (free_map s) \<and>
    (case r of None \<Rightarrow> used_bits (free_map s') = used_bits (free_map s)
     | Some i \<Rightarrow> {i..<i + n} \<subseteq> {..<bit_cnt (free_map s)} - used_bits (free_map s) \<and>
         used_bits (free_map s') = used_bits (free_map s) \<union> {i..<i + n})"
proof -
  from assms have ok: "bitmap_ok (free_map s)" "free_map_file s" by (simp_all add: fmap_ok_def)
  obtain b r where r: "bitmap_scan_and_flip (free_map s) 0 n False = Some (b, r)" "bitmap_ok b" "bit_cnt b = bit_cnt (free_map s)"
    "first_fit (free_map s) 0 n False r"
    "\<forall>j. bit_at b j = (if r \<noteq> BITMAP_ERROR \<and> j \<in> {r..<r + n} then True else bit_at (free_map s) j)"
    using bitmap_scan_and_flip_ok [OF ok(1), of 0 n False] by auto
  show ?thesis
  proof (cases "r \<noteq> BITMAP_ERROR \<and> \<not> wr b")
    case True
    then have fit: "r + n \<le> bit_cnt b" "\<forall>j \<in> {r..<r + n}. \<not> bit_at (free_map s) j"
      using r(3,4) by (auto simp: first_fit_def run_def)
    obtain b' where b': "bitmap_set_multiple b r n False = Some b'" "bitmap_ok b'" "bit_cnt b' = bit_cnt b"
      "\<forall>j. bit_at b' j = (if r \<le> j \<and> j < r + n then False else bit_at b j)"
      using bitmap_set_multiple_ok [OF r(2) fit(1), of False] by blast
    have "bit_at b' j = bit_at (free_map s) j" for j
      using b'(4) r(5) fit(2) by (cases "j \<in> {r..<r + n}") simp_all
    then have "used_bits b' = used_bits (free_map s)"
      using b'(3) r(3) by (simp add: used_bits_def)
    with True b' r(1,3) ok show ?thesis
      by (simp add: free_map_allocate_def fmap_ok_def)
  next
    case False
    then have "free_map_allocate wr s n = Some (s\<lparr>free_map := b\<rparr>, if r = BITMAP_ERROR then None else Some r)"
      using r(1) ok(2) by (auto simp: free_map_allocate_def)
    moreover have "claim_run (free_map s) n = Some (b, if r = BITMAP_ERROR then None else Some r)"
      using r(1) by (simp add: claim_run_def)
    ultimately show ?thesis
      using bm.alloc [OF ok(1), of n] ok(2) by (cases "r = BITMAP_ERROR") (simp_all add: fmap_ok_def)
  qed
qed

lemma free_map_allocate_le:
  assumes "fmap_ok s" "free_map_allocate wr s n = Some (s', Some i)"
  shows "i + n \<le> bit_cnt (free_map s)"
proof -
  obtain b r where r: "bitmap_scan_and_flip (free_map s) 0 n False = Some (b, r)" "first_fit (free_map s) 0 n False r"
    using bitmap_scan_and_flip_ok [of "free_map s" 0 n False] assms(1) by (auto simp: fmap_ok_def)
  then have "r = i" "r \<noteq> BITMAP_ERROR"
    using assms(2) by (auto simp: free_map_allocate_def split: if_splits bind_splits)
  with r(2) show ?thesis by (simp add: first_fit_def run_def)
qed

interpretation fm: run_allocator fmap_ok "\<lambda>s. used_bits (free_map s)" "\<lambda>s. bit_cnt (free_map s)"
  "free_map_allocate wr" free_map_release for wr
proof
  fix s n assume "fmap_ok s"
  then show "\<exists>s' r. free_map_allocate wr s n = Some (s', r) \<and> fmap_ok s' \<and> bit_cnt (free_map s') = bit_cnt (free_map s) \<and>
    (case r of None \<Rightarrow> used_bits (free_map s') = used_bits (free_map s)
     | Some i \<Rightarrow> {i..<i + n} \<subseteq> {..<bit_cnt (free_map s)} - used_bits (free_map s) \<and>
         used_bits (free_map s') = used_bits (free_map s) \<union> {i..<i + n})"
    by (rule free_map_allocate_ok)
next
  fix s i n assume "fmap_ok s" "i \<le> bit_cnt (free_map s)" "{i..<i + n} \<subseteq> used_bits (free_map s)"
  then show "\<exists>s'. free_map_release s i n = Some s' \<and> fmap_ok s' \<and> bit_cnt (free_map s') = bit_cnt (free_map s) \<and>
      used_bits (free_map s') = used_bits (free_map s) - {i..<i + n}"
    using bm.free [of "free_map s" i n] by (auto simp: fmap_ok_def free_map_release_run)
next
  fix s i n assume "fmap_ok s" "i + n \<le> bit_cnt (free_map s)" "\<not> {i..<i + n} \<subseteq> used_bits (free_map s)"
  then show "free_map_release s i n = None"
    using bm.free_unused [of "free_map s" i n] by (simp add: fmap_ok_def free_map_release_run)
qed

section \<open>Swap\<close>

text \<open>
  The swap partition is an array of \<open>swap_size\<close> sectors of 512 bytes; main memory is a map from
  addresses to bytes. A page takes eight sectors. \<^verbatim>\<open>block_read\<close> and \<^verbatim>\<open>block_write\<close> stop the machine
  on a sector outside the device.
\<close>

definition BLOCK_SECTOR_SIZE :: nat where "BLOCK_SECTOR_SIZE = 512"
definition SECTORS_PER_PAGE :: nat where "SECTORS_PER_PAGE = PGSIZE div BLOCK_SECTOR_SIZE"

record swap =
  swap_initialized :: bool
  alloc_map :: bitmap
  swap_size :: nat
  swap_block :: "nat \<Rightarrow> nat \<Rightarrow> u8"
  ram :: "nat \<Rightarrow> u8"

definition block_read :: "nat \<Rightarrow> nat \<Rightarrow> swap \<Rightarrow> swap option" where
  "block_read sector buf s = do {
     ASSERT (sector < swap_size s);
     Some (s\<lparr>ram := (\<lambda>a. if a \<in> {buf..<buf + BLOCK_SECTOR_SIZE} then swap_block s sector (a - buf) else ram s a)\<rparr>) }"

definition block_write :: "nat \<Rightarrow> nat \<Rightarrow> swap \<Rightarrow> swap option" where
  "block_write sector buf s = do {
     ASSERT (sector < swap_size s);
     Some (s\<lparr>swap_block := (swap_block s)(sector := (\<lambda>k. if k < BLOCK_SECTOR_SIZE then ram s (buf + k) else swap_block s sector k))\<rparr>) }"

definition swap_init :: "bool \<Rightarrow> (nat \<Rightarrow> u32 list option) \<Rightarrow> swap \<Rightarrow> swap option" where
  "swap_init hdr mem s =
     (if \<not> swap_initialized s then do {
        r \<leftarrow> bitmap_create hdr mem (swap_size s div SECTORS_PER_PAGE);
        b \<leftarrow> r;
        Some (s\<lparr>alloc_map := b, swap_initialized := True\<rparr>) }
      else Some s)"

definition swap_get_page :: "swap \<Rightarrow> (swap \<times> nat option) option" where
  "swap_get_page s = do {
     (b, start_sector) \<leftarrow> bitmap_scan_and_flip (alloc_map s) 0 1 False;
     Some (s\<lparr>alloc_map := b\<rparr>, if start_sector = BITMAP_ERROR then None else Some start_sector) }"

definition swap_free_page :: "nat \<Rightarrow> swap \<Rightarrow> swap option" where
  "swap_free_page page s = do {
     c \<leftarrow> bitmap_contains (alloc_map s) page 1 False;
     ASSERT (\<not> c);
     b \<leftarrow> bitmap_set_multiple (alloc_map s) page 1 False;
     Some (s\<lparr>alloc_map := b\<rparr>) }"

text \<open>The loops over the sectors of a page, with \<open>n\<close> sectors left.\<close>

fun read_sectors :: "nat \<Rightarrow> nat \<Rightarrow> nat \<Rightarrow> swap \<Rightarrow> swap option" where
  "read_sectors sector addr 0 s = Some s"
| "read_sectors sector addr (Suc n) s = do {
     s \<leftarrow> block_read sector addr s;
     read_sectors (sector + 1) (addr + BLOCK_SECTOR_SIZE) n s }"

fun write_sectors :: "nat \<Rightarrow> nat \<Rightarrow> nat \<Rightarrow> swap \<Rightarrow> swap option" where
  "write_sectors sector addr 0 s = Some s"
| "write_sectors sector addr (Suc n) s = do {
     s \<leftarrow> block_write sector addr s;
     write_sectors (sector + 1) (addr + BLOCK_SECTOR_SIZE) n s }"

definition swap_load_page_to_ram :: "nat \<Rightarrow> nat \<Rightarrow> swap \<Rightarrow> swap option" where
  "swap_load_page_to_ram page addr s = do {
     c \<leftarrow> bitmap_contains (alloc_map s) page 1 False;
     ASSERT (\<not> c);
     read_sectors (page * SECTORS_PER_PAGE) addr SECTORS_PER_PAGE s }"

definition swap_load_page_to_swap :: "nat \<Rightarrow> nat \<Rightarrow> swap \<Rightarrow> swap option" where
  "swap_load_page_to_swap page addr s = do {
     c \<leftarrow> bitmap_contains (alloc_map s) page 1 False;
     ASSERT (\<not> c);
     write_sectors (page * SECTORS_PER_PAGE) addr SECTORS_PER_PAGE s }"

lemma SECTORS_PER_PAGE_eq [simp]: "SECTORS_PER_PAGE = 8"
  by (simp add: SECTORS_PER_PAGE_def BLOCK_SECTOR_SIZE_def)

lemma write_sectors_spec:
  "sector + n \<le> swap_size s \<Longrightarrow> \<exists>s'. write_sectors sector addr n s = Some s' \<and>
     alloc_map s' = alloc_map s \<and> swap_size s' = swap_size s \<and> ram s' = ram s \<and>
     (\<forall>i k. k < 512 \<longrightarrow> swap_block s' i k =
        (if i \<in> {sector..<sector + n} then ram s (addr + (i - sector) * 512 + k) else swap_block s i k))"
proof (induction n arbitrary: sector addr s)
  case (Suc n)
  define s1 where "s1 = s\<lparr>swap_block := (swap_block s)(sector := (\<lambda>k. if k < BLOCK_SECTOR_SIZE then ram s (addr + k) else swap_block s sector k))\<rparr>"
  have b: "block_write sector addr s = Some s1"
    using Suc.prems by (simp add: block_write_def s1_def)
  have f: "alloc_map s1 = alloc_map s" "swap_size s1 = swap_size s" "ram s1 = ram s"
    "k < 512 \<Longrightarrow> swap_block s1 i k = (if i = sector then ram s (addr + k) else swap_block s i k)" for i k
    by (simp_all add: s1_def BLOCK_SECTOR_SIZE_def)
  obtain s' where s': "write_sectors (sector + 1) (addr + BLOCK_SECTOR_SIZE) n s1 = Some s'"
    "alloc_map s' = alloc_map s" "swap_size s' = swap_size s" "ram s' = ram s"
    "\<forall>i k. k < 512 \<longrightarrow> swap_block s' i k =
       (if i \<in> {sector + 1..<sector + 1 + n} then ram s (addr + BLOCK_SECTOR_SIZE + (i - (sector + 1)) * 512 + k) else swap_block s1 i k)"
    using Suc.IH [of "sector + 1" s1 "addr + BLOCK_SECTOR_SIZE"] Suc.prems unfolding f(1-3) by auto
  have "swap_block s' i k = (if i \<in> {sector..<sector + Suc n} then ram s (addr + (i - sector) * 512 + k) else swap_block s i k)"
    if "k < 512" for i k
  proof -
    have "i - sector = Suc (i - (sector + 1))" if "i \<in> {sector + 1..<sector + 1 + n}" using that by auto
    then show ?thesis
      using s'(5) \<open>k < 512\<close> f(4) by (auto simp: BLOCK_SECTOR_SIZE_def add.assoc)
  qed
  with b s'(1-4) show ?case by simp
qed simp

lemma read_sectors_spec:
  "sector + n \<le> swap_size s \<Longrightarrow> \<exists>s'. read_sectors sector addr n s = Some s' \<and>
     alloc_map s' = alloc_map s \<and> swap_size s' = swap_size s \<and> swap_block s' = swap_block s \<and>
     (\<forall>a. ram s' a = (if a \<in> {addr..<addr + n * 512} then swap_block s (sector + (a - addr) div 512) ((a - addr) mod 512) else ram s a))"
proof (induction n arbitrary: sector addr s)
  case (Suc n)
  let ?s1 = "s\<lparr>ram := (\<lambda>a. if a \<in> {addr..<addr + BLOCK_SECTOR_SIZE} then swap_block s sector (a - addr) else ram s a)\<rparr>"
  have b: "block_read sector addr s = Some ?s1"
    using Suc.prems by (simp add: block_read_def)
  obtain s' where s': "read_sectors (sector + 1) (addr + 512) n ?s1 = Some s'"
    "alloc_map s' = alloc_map s" "swap_size s' = swap_size s" "swap_block s' = swap_block s"
    "\<forall>a. ram s' a = (if a \<in> {addr + 512..<addr + 512 + n * 512}
       then swap_block s (sector + 1 + (a - (addr + 512)) div 512) ((a - (addr + 512)) mod 512) else ram ?s1 a)"
    using Suc.IH [of "sector + 1" ?s1 "addr + 512"] Suc.prems by auto
  have "ram s' a = (if a \<in> {addr..<addr + Suc n * 512} then swap_block s (sector + (a - addr) div 512) ((a - addr) mod 512) else ram s a)" for a
  proof (cases "a < addr + 512")
    case True
    then show ?thesis using s'(5) by (auto simp: BLOCK_SECTOR_SIZE_def)
  next
    case False
    then obtain m where m: "a = addr + 512 + m"
      by (metis le_add_diff_inverse not_less)
    have "(512 + m) div 512 = Suc (m div 512)" "(512 + m) mod 512 = m mod 512"
      by simp_all
    then show ?thesis using s'(5) by (auto simp: BLOCK_SECTOR_SIZE_def m add.assoc)
  qed
  with b s'(1-4) show ?case by (simp add: BLOCK_SECTOR_SIZE_def)
qed simp

definition swap_ok :: "swap \<Rightarrow> bool" where
  "swap_ok s \<longleftrightarrow> bitmap_ok (alloc_map s) \<and> bit_cnt (alloc_map s) * SECTORS_PER_PAGE \<le> swap_size s"

lemma swap_get_page_ok:
  assumes "swap_ok s"
  shows "\<exists>s' r. swap_get_page s = Some (s', r) \<and> swap_ok s' \<and> ram s' = ram s \<and> swap_block s' = swap_block s \<and>
    (case r of None \<Rightarrow> used_bits (alloc_map s) = {..<bit_cnt (alloc_map s)} \<and> used_bits (alloc_map s') = used_bits (alloc_map s)
     | Some p \<Rightarrow> p < bit_cnt (alloc_map s) \<and> p \<notin> used_bits (alloc_map s) \<and> used_bits (alloc_map s') = insert p (used_bits (alloc_map s)))"
proof -
  from assms have ok: "bitmap_ok (alloc_map s)" by (simp add: swap_ok_def)
  obtain b r where r: "claim_run (alloc_map s) 1 = Some (b, r)" "bitmap_ok b" "bit_cnt b = bit_cnt (alloc_map s)"
    "case r of None \<Rightarrow> used_bits b = used_bits (alloc_map s)
     | Some i \<Rightarrow> {i..<i + 1} \<subseteq> {..<bit_cnt (alloc_map s)} - used_bits (alloc_map s) \<and> used_bits b = used_bits (alloc_map s) \<union> {i..<i + 1}"
    using bm.alloc [OF ok, of 1] by blast
  have eq: "swap_get_page s = Some (s\<lparr>alloc_map := b\<rparr>, r)"
    using r(1) by (auto simp: swap_get_page_def claim_run_def split: bind_splits)
  show ?thesis
  proof (cases r)
    case None
    have "i \<in> used_bits (alloc_map s)" if "i < bit_cnt (alloc_map s)" for i
      using bm.alloc_complete [OF ok, of 1 b i] r(1) None that by auto
    then have "used_bits (alloc_map s) = {..<bit_cnt (alloc_map s)}"
      by (auto simp: used_bits_def)
    then show ?thesis using eq r None assms by (simp add: swap_ok_def)
  next
    case (Some p)
    then show ?thesis using eq r assms by (auto simp: swap_ok_def)
  qed
qed

lemma swap_used_check:
  assumes "swap_ok s" "p \<in> used_bits (alloc_map s)"
  shows "bitmap_contains (alloc_map s) p 1 False = Some False" and "p * 8 + 8 \<le> swap_size s"
proof -
  have p: "p < bit_cnt (alloc_map s)" "bit_at (alloc_map s) p" using assms(2) by (simp_all add: used_bits_def)
  then show "bitmap_contains (alloc_map s) p 1 False = Some False"
    using assms(1) bitmap_contains_eq [of "alloc_map s" p 1 False] by (simp add: swap_ok_def)
  have "(p + 1) * 8 \<le> bit_cnt (alloc_map s) * 8" using p by simp
  then show "p * 8 + 8 \<le> swap_size s" using assms(1) by (simp add: swap_ok_def)
qed

text \<open>Saving a page and loading it back, into any frame, after any number of loads of other pages.\<close>

lemma swap_save_load:
  assumes "swap_ok s" "p \<in> used_bits (alloc_map s)"
  shows "\<exists>s1 s2. swap_load_page_to_swap p addr s = Some s1 \<and> swap_load_page_to_ram p addr' s1 = Some s2 \<and>
    swap_ok s2 \<and> alloc_map s2 = alloc_map s \<and>
    (\<forall>k < 4096. ram s2 (addr' + k) = ram s (addr + k)) \<and> (\<forall>a. a \<notin> {addr'..<addr' + 4096} \<longrightarrow> ram s2 a = ram s a) \<and>
    (\<forall>q i k. q \<noteq> p \<longrightarrow> i < 8 \<longrightarrow> k < 512 \<longrightarrow> swap_block s2 (q * 8 + i) k = swap_block s (q * 8 + i) k)"
proof -
  note chk = swap_used_check [OF assms]
  obtain s1 where s1: "write_sectors (p * 8) addr 8 s = Some s1" "alloc_map s1 = alloc_map s" "swap_size s1 = swap_size s" "ram s1 = ram s"
    "\<forall>i k. k < 512 \<longrightarrow> swap_block s1 i k =
        (if i \<in> {p * 8..<p * 8 + 8} then ram s (addr + (i - p * 8) * 512 + k) else swap_block s i k)"
    using write_sectors_spec [OF chk(2), of addr] by blast
  obtain s2 where s2: "read_sectors (p * 8) addr' 8 s1 = Some s2" "alloc_map s2 = alloc_map s" "swap_size s2 = swap_size s"
    "swap_block s2 = swap_block s1"
    "\<forall>a. ram s2 a = (if a \<in> {addr'..<addr' + 8 * 512} then swap_block s1 (p * 8 + (a - addr') div 512) ((a - addr') mod 512) else ram s1 a)"
    using read_sectors_spec [of "p * 8" 8 s1 addr'] chk(2) s1(2,3) by auto
  have "swap_load_page_to_swap p addr s = Some s1" "swap_load_page_to_ram p addr' s1 = Some s2"
    using chk(1) s1(1,2) s2(1) by (simp_all add: swap_load_page_to_swap_def swap_load_page_to_ram_def)
  moreover have "swap_ok s2"
    using assms(1) s2(2,3) by (simp add: swap_ok_def)
  moreover have "ram s2 (addr' + k) = ram s (addr + k)" if "k < 4096" for k
  proof -
    have "k div 512 < 8" using that by (simp add: div_less_iff_less_mult)
    then show ?thesis using s2(5) s1(5) that by (simp add: add.assoc)
  qed
  moreover have "swap_block s2 (q * 8 + i) k = swap_block s (q * 8 + i) k" if "q \<noteq> p" "i < 8" "k < 512" for q i k
  proof -
    have "q * 8 + i \<notin> {p * 8..<p * 8 + 8}" using that by auto
    then show ?thesis
      unfolding s2(4) using s1(5) [rule_format, OF that(3), of "q * 8 + i"] by (simp only: if_False)
  qed
  moreover have "\<forall>a. a \<notin> {addr'..<addr' + 4096} \<longrightarrow> ram s2 a = ram s a"
    using s2(5) s1(4) by simp
  ultimately show ?thesis
    using s2(2) by blast
qed

end
