(* ===== verification/Palloc.thy ===== *)
theory Palloc
  imports Allocators "HOL-Library.Code_Target_Nat"
begin

unbundle bit_operations_syntax

text \<open>
  \<^verbatim>\<open>src/Project5/src/threads/palloc.c\<close>: two pools of pages, each with a bitmap of used pages, over a
  memory of bytes. The properties of the three clients of the bitmap stand at the end.
\<close>

section \<open>The page allocator\<close>

record pool =
  used_map :: bitmap
  base :: nat

record palloc =
  kernel_pool :: pool
  user_pool :: pool
  memory :: "nat \<Rightarrow> u8"

definition PAL_ASSERT :: nat where "PAL_ASSERT = 1"
definition PAL_ZERO :: nat where "PAL_ZERO = 2"
definition PAL_USER :: nat where "PAL_USER = 4"

definition fill :: "nat \<Rightarrow> u8 \<Rightarrow> nat \<Rightarrow> (nat \<Rightarrow> u8) \<Rightarrow> nat \<Rightarrow> u8" where
  "fill dst v n m = (\<lambda>a. if a \<in> {dst..<dst + n} then v else m a)"

definition page_from_pool :: "pool \<Rightarrow> nat \<Rightarrow> bool" where
  "page_from_pool p page \<longleftrightarrow>
     pg_no page \<ge> pg_no (base p) \<and> pg_no page < pg_no (base p) + bitmap_size (used_map p)"

definition palloc_get_multiple :: "nat \<Rightarrow> nat \<Rightarrow> palloc \<Rightarrow> (palloc \<times> ptr) option" where
  "palloc_get_multiple flags page_cnt s =
     (if page_cnt = 0 then Some (s, NULL)
      else do {
        let user = (flags AND PAL_USER \<noteq> 0);
        let p = (if user then user_pool s else kernel_pool s);
        (b, page_idx) \<leftarrow> bitmap_scan_and_flip (used_map p) 0 page_cnt False;
        let p = p\<lparr>used_map := b\<rparr>;
        let s = (if user then s\<lparr>user_pool := p\<rparr> else s\<lparr>kernel_pool := p\<rparr>);
        let pages = (if page_idx \<noteq> BITMAP_ERROR then base p + PGSIZE * page_idx else NULL);
        if pages \<noteq> NULL then
          Some (if flags AND PAL_ZERO \<noteq> 0 then s\<lparr>memory := fill pages 0 (PGSIZE * page_cnt) (memory s)\<rparr> else s, pages)
        else do { ASSERT (flags AND PAL_ASSERT = 0); Some (s, pages) } })"

definition palloc_get_page :: "nat \<Rightarrow> palloc \<Rightarrow> (palloc \<times> ptr) option" where
  "palloc_get_page flags s = palloc_get_multiple flags 1 s"

definition palloc_free_multiple :: "ptr \<Rightarrow> nat \<Rightarrow> palloc \<Rightarrow> palloc option" where
  "palloc_free_multiple pages page_cnt s = do {
     ASSERT (pg_ofs pages = 0);
     if pages = NULL \<or> page_cnt = 0 then Some s
     else do {
       let kernel = page_from_pool (kernel_pool s) pages;
       ASSERT (kernel \<or> page_from_pool (user_pool s) pages);
       let p = (if kernel then kernel_pool s else user_pool s);
       let page_idx = pg_no pages - pg_no (base p);
       let s = s\<lparr>memory := fill pages 0xcc (PGSIZE * page_cnt) (memory s)\<rparr>;
       all \<leftarrow> bitmap_all (used_map p) page_idx page_cnt;
       ASSERT all;
       b \<leftarrow> bitmap_set_multiple (used_map p) page_idx page_cnt False;
       let p = p\<lparr>used_map := b\<rparr>;
       Some (if kernel then s\<lparr>kernel_pool := p\<rparr> else s\<lparr>user_pool := p\<rparr>) } }"

definition palloc_free_page :: "ptr \<Rightarrow> palloc \<Rightarrow> palloc option" where
  "palloc_free_page page s = palloc_free_multiple page 1 s"

text \<open>The bitmap of a pool lies in its first pages; \<open>ws\<close> is what these contain before.\<close>

definition init_pool :: "nat \<Rightarrow> nat \<Rightarrow> u32 list \<Rightarrow> pool option" where
  "init_pool start page_cnt ws = do {
     let bm_pages = (bitmap_buf_size page_cnt + PGSIZE - 1) div PGSIZE;
     ASSERT (\<not> bm_pages > page_cnt);
     let page_cnt = page_cnt - bm_pages;
     b \<leftarrow> bitmap_create_in_buf page_cnt ws (bm_pages * PGSIZE);
     Some \<lparr>used_map = b, base = start + bm_pages * PGSIZE\<rparr> }"

definition palloc_init :: "nat \<Rightarrow> nat \<Rightarrow> u32 list \<Rightarrow> u32 list \<Rightarrow> (nat \<Rightarrow> u8) \<Rightarrow> palloc option" where
  "palloc_init init_ram_pages user_page_limit kws uws m = do {
     free_start \<leftarrow> ptov (1024 * 1024);
     free_end \<leftarrow> ptov (init_ram_pages * PGSIZE);
     let free_pages = (free_end - free_start) div PGSIZE;
     let user_pages = free_pages div 2;
     let user_pages = (if user_pages > user_page_limit then user_page_limit else user_pages);
     let kernel_pages = free_pages - user_pages;
     kp \<leftarrow> init_pool free_start kernel_pages kws;
     up \<leftarrow> init_pool (free_start + kernel_pages * PGSIZE) user_pages uws;
     Some \<lparr>kernel_pool = kp, user_pool = up, memory = m\<rparr> }"

section \<open>Pools\<close>

definition pool_ok :: "pool \<Rightarrow> bool" where
  "pool_ok p \<longleftrightarrow> bitmap_ok (used_map p) \<and> base p mod 4096 = 0 \<and> base p \<noteq> 0"

text \<open>The addresses of the pages of a pool, and of those handed out.\<close>

definition page_addr :: "pool \<Rightarrow> nat \<Rightarrow> nat" where
  "page_addr p i = base p + 4096 * i"

definition pool_end :: "pool \<Rightarrow> nat" where
  "pool_end p = base p + 4096 * bit_cnt (used_map p)"

definition used_pages :: "pool \<Rightarrow> nat set" where
  "used_pages p = page_addr p ` used_bits (used_map p)"

text \<open>The pools do not overlap: the user pool lies above the kernel pool.\<close>

definition palloc_ok :: "palloc \<Rightarrow> bool" where
  "palloc_ok s \<longleftrightarrow> pool_ok (kernel_pool s) \<and> pool_ok (user_pool s) \<and> pool_end (kernel_pool s) \<le> base (user_pool s)"

lemma page_addr_inj [simp]: "page_addr p i = page_addr p j \<longleftrightarrow> i = j"
  by (simp add: page_addr_def)

lemma page_addr_no:
  assumes "pool_ok p"
  shows "pg_no (page_addr p i) = pg_no (base p) + i" and "pg_ofs (page_addr p i) = 0" and "page_addr p i \<noteq> NULL"
  using assms by (auto simp: page_addr_def pg_no_div pg_ofs_mod pool_ok_def)

lemma page_from_pool_addr: "pool_ok p \<Longrightarrow> page_from_pool p (page_addr p i) \<longleftrightarrow> i < bit_cnt (used_map p)"
  by (simp add: page_from_pool_def page_addr_no bitmap_size_def)

text \<open>The pool the flags select, and the operations seen on that pool alone.\<close>

definition pool_of :: "nat \<Rightarrow> palloc \<Rightarrow> pool" where
  "pool_of flags s = (if flags AND PAL_USER \<noteq> 0 then user_pool s else kernel_pool s)"

definition other_pool :: "nat \<Rightarrow> palloc \<Rightarrow> pool" where
  "other_pool flags s = (if flags AND PAL_USER \<noteq> 0 then kernel_pool s else user_pool s)"

lemma pool_of_memory [simp]:
  "pool_of flags (s\<lparr>memory := m\<rparr>) = pool_of flags s" "other_pool flags (s\<lparr>memory := m\<rparr>) = other_pool flags s"
  "palloc_ok (s\<lparr>memory := m\<rparr>) = palloc_ok s"
  by (simp_all add: pool_of_def other_pool_def palloc_ok_def)

lemma palloc_get_multiple_ok:
  assumes ok: "palloc_ok s" and n: "0 < n" and flags: "flags AND PAL_ASSERT = 0"
  shows "\<exists>s' a. palloc_get_multiple flags n s = Some (s', a) \<and> palloc_ok s' \<and> other_pool flags s' = other_pool flags s \<and>
    base (pool_of flags s') = base (pool_of flags s) \<and>
    bit_cnt (used_map (pool_of flags s')) = bit_cnt (used_map (pool_of flags s)) \<and>
    (if a = NULL then pool_of flags s' = pool_of flags s \<and> memory s' = memory s \<and>
        (\<forall>i. i + n \<le> bit_cnt (used_map (pool_of flags s)) \<longrightarrow> {i..<i + n} \<inter> used_bits (used_map (pool_of flags s)) \<noteq> {})
     else \<exists>i. a = page_addr (pool_of flags s) i \<and> i + n \<le> bit_cnt (used_map (pool_of flags s)) \<and>
        {i..<i + n} \<inter> used_bits (used_map (pool_of flags s)) = {} \<and>
        used_bits (used_map (pool_of flags s')) = used_bits (used_map (pool_of flags s)) \<union> {i..<i + n} \<and>
        memory s' = (if flags AND PAL_ZERO \<noteq> 0 then fill a 0 (4096 * n) (memory s) else memory s))"
proof -
  let ?p = "pool_of flags s"
  have p: "pool_ok ?p" using ok by (simp add: palloc_ok_def pool_of_def)
  then have bok: "bitmap_ok (used_map ?p)" by (simp add: pool_ok_def)
  obtain b r where r: "bitmap_scan_and_flip (used_map ?p) 0 n False = Some (b, r)" "bitmap_ok b" "bit_cnt b = bit_cnt (used_map ?p)"
    "first_fit (used_map ?p) 0 n False r"
    "\<forall>j. bit_at b j = (if r \<noteq> BITMAP_ERROR \<and> j \<in> {r..<r + n} then True else bit_at (used_map ?p) j)"
    using bitmap_scan_and_flip_ok [OF bok, of 0 n False] by auto
  define s1 where "s1 = (if flags AND PAL_USER \<noteq> 0 then s\<lparr>user_pool := ?p\<lparr>used_map := b\<rparr>\<rparr> else s\<lparr>kernel_pool := ?p\<lparr>used_map := b\<rparr>\<rparr>)"
  have s1: "palloc_ok s1" "other_pool flags s1 = other_pool flags s" "pool_of flags s1 = ?p\<lparr>used_map := b\<rparr>" "memory s1 = memory s"
    using ok r(2,3) by (auto simp: s1_def palloc_ok_def pool_ok_def pool_end_def pool_of_def other_pool_def)
  show ?thesis
  proof (cases "r = BITMAP_ERROR")
    case True
    then have "s1 = s"
      using r(1) by (auto simp: s1_def pool_of_def bitmap_scan_and_flip_def split: bind_splits if_splits)
    moreover have "\<forall>i. i + n \<le> bit_cnt (used_map ?p) \<longrightarrow> {i..<i + n} \<inter> used_bits (used_map ?p) \<noteq> {}"
      using r(4) True by (fastforce simp: first_fit_def run_def used_bits_def)
    moreover have "palloc_get_multiple flags n s = Some (s1, NULL)"
      using r(1) n flags True unfolding palloc_get_multiple_def Let_def s1_def pool_of_def by simp
    ultimately show ?thesis using ok by simp
  next
    case False
    then have fit: "r + n \<le> bit_cnt (used_map ?p)" "{r..<r + n} \<inter> used_bits (used_map ?p) = {}"
      using r(4) by (auto simp: first_fit_def run_def used_bits_def)
    let ?m = "if flags AND PAL_ZERO \<noteq> 0 then fill (page_addr ?p r) 0 (4096 * n) (memory s) else memory s"
    have ne: "page_addr ?p r \<noteq> NULL" using page_addr_no(3) [OF p] .
    then have "palloc_get_multiple flags n s = Some (s1\<lparr>memory := ?m\<rparr>, page_addr ?p r)"
      using r(1) n False s1(4) unfolding palloc_get_multiple_def Let_def s1_def pool_of_def page_addr_def by auto
    moreover have "used_bits b = used_bits (used_map ?p) \<union> {r..<r + n}"
      using r(3,5) False fit(1) by (auto simp: used_bits_def)
    moreover have "palloc_ok (s1\<lparr>memory := ?m\<rparr>)" "other_pool flags (s1\<lparr>memory := ?m\<rparr>) = other_pool flags s"
      "pool_of flags (s1\<lparr>memory := ?m\<rparr>) = ?p\<lparr>used_map := b\<rparr>"
      using s1 by simp_all
    ultimately show ?thesis using ne fit r(3) by auto
  qed
qed

text \<open>One zeroed page.\<close>

lemma palloc_get_page_ok:
  assumes "palloc_ok f" "flags AND PAL_ASSERT = 0" "flags AND PAL_ZERO \<noteq> 0"
  shows "\<exists>f' a. palloc_get_page flags f = Some (f', a) \<and> palloc_ok f' \<and> other_pool flags f' = other_pool flags f \<and>
    base (pool_of flags f') = base (pool_of flags f) \<and> bit_cnt (used_map (pool_of flags f')) = bit_cnt (used_map (pool_of flags f)) \<and>
    (if a = NULL then f' = f \<and> used_bits (used_map (pool_of flags f)) = {..<bit_cnt (used_map (pool_of flags f))}
     else a \<notin> used_pages (pool_of flags f) \<and> used_pages (pool_of flags f') = insert a (used_pages (pool_of flags f)) \<and>
       memory f' = fill a 0 4096 (memory f))"
proof -
  let ?p = "pool_of flags f"
  obtain f' a where r: "palloc_get_multiple flags 1 f = Some (f', a)" "palloc_ok f'" "other_pool flags f' = other_pool flags f"
    "base (pool_of flags f') = base ?p" "bit_cnt (used_map (pool_of flags f')) = bit_cnt (used_map ?p)"
    "if a = NULL then pool_of flags f' = ?p \<and> memory f' = memory f \<and>
        (\<forall>i. i + 1 \<le> bit_cnt (used_map ?p) \<longrightarrow> {i..<i + 1} \<inter> used_bits (used_map ?p) \<noteq> {})
     else \<exists>i. a = page_addr ?p i \<and> i + 1 \<le> bit_cnt (used_map ?p) \<and> {i..<i + 1} \<inter> used_bits (used_map ?p) = {} \<and>
        used_bits (used_map (pool_of flags f')) = used_bits (used_map ?p) \<union> {i..<i + 1} \<and>
        memory f' = (if flags AND PAL_ZERO \<noteq> 0 then fill a 0 (4096 * 1) (memory f) else memory f)"
    using palloc_get_multiple_ok [OF assms(1) zero_less_one assms(2)] by blast
  show ?thesis
  proof (cases "a = NULL")
    case True
    then have "f' = f" using r(3,6) by (cases f, cases f') (auto simp: pool_of_def other_pool_def split: if_splits)
    moreover have "used_bits (used_map ?p) = {..<bit_cnt (used_map ?p)}"
      using r(6) True by (auto simp: used_bits_def)
    ultimately show ?thesis using r True by (simp add: palloc_get_page_def)
  next
    case False
    then obtain i where i: "a = page_addr ?p i" "{i} \<inter> used_bits (used_map ?p) = {}"
      "used_bits (used_map (pool_of flags f')) = insert i (used_bits (used_map ?p))" "memory f' = fill a 0 4096 (memory f)"
      using r(6) assms(3) by auto
    have "page_addr (pool_of flags f') = page_addr ?p" by (simp add: fun_eq_iff page_addr_def r(4))
    with i have "a \<notin> used_pages ?p" "used_pages (pool_of flags f') = insert a (used_pages ?p)"
      by (auto simp: used_pages_def)
    with r(1-5) i(4) False show ?thesis by (simp add: palloc_get_page_def)
  qed
qed

lemma user_not_kernel:
  assumes "palloc_ok s"
  shows "\<not> page_from_pool (kernel_pool s) (page_addr (user_pool s) i)"
proof -
  let ?k = "kernel_pool s" and ?u = "user_pool s"
  have "pool_ok ?k" "pool_ok ?u" "pool_end ?k \<le> base ?u"
    using assms by (simp_all add: palloc_ok_def)
  then have "pg_no (base ?k) + bit_cnt (used_map ?k) \<le> pg_no (base ?u) + i"
    using div_le_mono [of "pool_end ?k" "base ?u" 4096] by (simp add: pg_no_div pool_end_def)
  then show ?thesis
    using page_addr_no(1) [OF \<open>pool_ok ?u\<close>] by (simp add: page_from_pool_def bitmap_size_def)
qed

lemma palloc_free_multiple_eq:
  assumes ok: "palloc_ok s" and a: "a = page_addr (pool_of flags s) i" "i < bit_cnt (used_map (pool_of flags s))" and n: "0 < n"
  shows "palloc_free_multiple a n s = map_option
    (\<lambda>b. (if flags AND PAL_USER \<noteq> 0 then s\<lparr>user_pool := (user_pool s)\<lparr>used_map := b\<rparr>\<rparr> else s\<lparr>kernel_pool := (kernel_pool s)\<lparr>used_map := b\<rparr>\<rparr>)
        \<lparr>memory := fill a 0xcc (4096 * n) (memory s)\<rparr>)
    (release_run (used_map (pool_of flags s)) i n)"
proof -
  let ?p = "pool_of flags s"
  have p: "pool_ok ?p" using ok by (simp add: palloc_ok_def pool_of_def)
  note pn = page_addr_no [OF p, of i, folded a(1)]
  have kernel: "page_from_pool (kernel_pool s) a \<longleftrightarrow> flags AND PAL_USER = 0"
    using a page_from_pool_addr [OF p, of i] user_not_kernel [OF ok, of i] by (auto simp: pool_of_def)
  have own: "page_from_pool ?p a"
    using a page_from_pool_addr [OF p, of i] by simp
  show ?thesis
    using pn n own kernel unfolding palloc_free_multiple_def Let_def release_run_def pool_of_def
    by (auto split: bind_splits)
qed

lemma run_disjoint: "{i..<i + n} \<inter> A = {} \<Longrightarrow> k < n \<Longrightarrow> i + k \<notin> (A :: nat set)"
  by (metis IntI add_less_cancel_left atLeastLessThan_iff empty_iff le_add1)

section \<open>Properties\<close>

text \<open>A pool of four pages, none in use.\<close>

definition four_pages :: "nat \<Rightarrow> pool" where
  "four_pages start = \<lparr>used_map = \<lparr>bit_cnt = 4, bits = [0]\<rparr>, base = start\<rparr>"

definition two_pools :: palloc where
  "two_pools = \<lparr>kernel_pool = four_pages 0xc0100000, user_pool = four_pages 0xc0200000, memory = (\<lambda>_. 7)\<rparr>"

lemma palloc_ok_two_pools: "palloc_ok two_pools"
  by (simp add: palloc_ok_def two_pools_def four_pages_def pool_ok_def pool_end_def bitmap_ok_def elem_cnt_def ELEM_BITS_def)

text \<open>
  C32: a scan of a bitmap is a first-fit search: it returns the least index at or after the start at
  which the requested number of bits all have the value, or the error value exactly when there is
  no such index; flipping then changes exactly these bits. A request for no bits is met at the start itself and flips
  nothing; the comment of \<^verbatim>\<open>bitmap_scan_and_flip\<close> says that 0 is returned then, which the code does only for the start 0.
\<close>

theorem bitmap_first_fit:
  assumes "bitmap_ok b" "start \<le> bit_cnt b"
  shows "\<exists>b' r. bitmap_scan_and_flip b start n v = Some (b', r) \<and> bitmap_ok b' \<and> first_fit b start n v r \<and>
    bools b' = map (\<lambda>j. if r \<noteq> BITMAP_ERROR \<and> j \<in> {r..<r + n} then \<not> v else bools b ! j) [0..<bit_cnt b]"
proof -
  obtain b' r where "bitmap_scan_and_flip b start n v = Some (b', r)" "bitmap_ok b'" "bit_cnt b' = bit_cnt b" "first_fit b start n v r"
    "\<forall>j. bit_at b' j = (if r \<noteq> BITMAP_ERROR \<and> j \<in> {r..<r + n} then \<not> v else bit_at b j)"
    using bitmap_scan_and_flip_ok [OF assms] by blast
  then show ?thesis
    by (intro exI [of _ b'] exI [of _ r]) (simp add: bools_def cong: map_cong)
qed

theorem bitmap_first_fit_witness:
  "\<exists>b' r. bitmap_scan_and_flip \<lparr>bit_cnt = 40, bits = [0xFFFFFFF7, 3]\<rparr> 0 2 False = Some (b', r) \<and> bitmap_ok b' \<and>
    first_fit \<lparr>bit_cnt = 40, bits = [0xFFFFFFF7, 3]\<rparr> 0 2 False r \<and>
    bools b' = map (\<lambda>j. if r \<noteq> BITMAP_ERROR \<and> j \<in> {r..<r + 2} then \<not> False else bools \<lparr>bit_cnt = 40, bits = [0xFFFFFFF7, 3]\<rparr> ! j)
      [0..<bit_cnt \<lparr>bit_cnt = 40, bits = [0xFFFFFFF7, 3]\<rparr>]"
  by (rule bitmap_first_fit) (simp_all add: bitmap_ok_def elem_cnt_def ELEM_BITS_def)

text \<open>
  C33: setting a run of bits in the packed elements is exactly the update of the list of Booleans,
  and counting counts them.
\<close>

theorem bitmap_refines_list:
  assumes "bitmap_ok b" "start + n \<le> bit_cnt b"
  shows "\<exists>b'. bitmap_set_multiple b start n v = Some b' \<and> bitmap_ok b' \<and>
    bools b' = take start (bools b) @ replicate n v @ drop (start + n) (bools b) \<and>
    bitmap_count b start n v = Some (length (filter (\<lambda>x. x = v) (take n (drop start (bools b)))))"
proof -
  obtain b' where b': "bitmap_set_multiple b start n v = Some b'" "bitmap_ok b'" "bit_cnt b' = bit_cnt b"
    "\<forall>j. bit_at b' j = (if start \<le> j \<and> j < start + n then v else bit_at b j)"
    using bitmap_set_multiple_ok [OF assms] by blast
  have "bools b' = take start (bools b) @ replicate n v @ drop (start + n) (bools b)"
    by (rule nth_equalityI) (use b' assms(2) in \<open>auto simp: nth_append\<close>)
  moreover have "take n (drop start (bools b)) = map (bit_at b) [start..<start + n]"
    by (rule nth_equalityI) (use assms(2) in auto)
  ultimately show ?thesis
    using b'(1,2) count_bits_eq [OF assms, of v] size_add_ok [OF assms] assms(2)
    by (simp add: bitmap_count_def filter_map comp_def)
qed

theorem bitmap_refines_list_witness:
  "\<exists>b'. bitmap_set_multiple \<lparr>bit_cnt = 40, bits = [0, 0]\<rparr> 30 4 True = Some b' \<and> bitmap_ok b' \<and>
    bools b' = take 30 (bools \<lparr>bit_cnt = 40, bits = [0, 0]\<rparr>) @ replicate 4 True @ drop (30 + 4) (bools \<lparr>bit_cnt = 40, bits = [0, 0]\<rparr>) \<and>
    bitmap_count \<lparr>bit_cnt = 40, bits = [0, 0]\<rparr> 30 4 True =
      Some (length (filter (\<lambda>x. x = True) (take 4 (drop 30 (bools \<lparr>bit_cnt = 40, bits = [0, 0]\<rparr>)))))"
  by (rule bitmap_refines_list) (simp_all add: bitmap_ok_def elem_cnt_def ELEM_BITS_def)

text \<open>
  C34: two successive allocations of disk sectors never overlap, whether or not the free map could
  be written in between, and releasing an allocation restores the set of used sectors.
\<close>

theorem free_map_no_overlap:
  assumes "fmap_ok s" "free_map_allocate wr s n = Some (s1, Some i)" "free_map_allocate wr' s1 m = Some (s2, Some j)"
  shows "{i..<i + n} \<inter> {j..<j + m} = {} \<and> {i..<i + n} \<inter> used_bits (free_map s) = {} \<and>
    (\<exists>s3. free_map_release s2 j m = Some s3 \<and> used_bits (free_map s3) = used_bits (free_map s1))"
proof -
  have s1: "fmap_ok s1" "used_bits (free_map s1) = used_bits (free_map s) \<union> {i..<i + n}" "{i..<i + n} \<inter> used_bits (free_map s) = {}"
    using fm.alloc [OF assms(1), of wr n] assms(2) by auto
  have j: "{j..<j + m} \<subseteq> {..<bit_cnt (free_map s1)} - used_bits (free_map s1)" "fmap_ok s2"
    "used_bits (free_map s2) = used_bits (free_map s1) \<union> {j..<j + m}"
    using fm.alloc [OF s1(1), of wr' m] assms(3) by auto
  have "j \<le> bit_cnt (free_map s1)"
    using free_map_allocate_le [OF s1(1) assms(3)] by simp
  then obtain s3 where "free_map_release s2 j m = Some s3" "used_bits (free_map s3) = used_bits (free_map s1)"
    using fm.alloc_free [OF s1(1) assms(3)] by blast
  with s1(2,3) j(1) show ?thesis by blast
qed

theorem free_map_no_overlap_witness:
  "\<exists>s1 s2. free_map_allocate (\<lambda>_. True) \<lparr>free_map = \<lparr>bit_cnt = 40, bits = [3, 0]\<rparr>, free_map_file = True\<rparr> 4 = Some (s1, Some 2) \<and>
     free_map_allocate (\<lambda>_. True) s1 8 = Some (s2, Some 6) \<and> {2..<2 + 4} \<inter> {6..<6 + 8 :: nat} = {}"
proof -
  let ?s = "\<lparr>free_map = \<lparr>bit_cnt = 40, bits = [3, 0]\<rparr>, free_map_file = True\<rparr>"
  let ?s1 = "\<lparr>free_map = \<lparr>bit_cnt = 40, bits = [0x3F, 0]\<rparr>, free_map_file = True\<rparr>"
  let ?s2 = "\<lparr>free_map = \<lparr>bit_cnt = 40, bits = [0x3FFF, 0]\<rparr>, free_map_file = True\<rparr>"
  have 1: "free_map_allocate (\<lambda>_. True) ?s 4 = Some (?s1, Some 2)" by code_simp
  have 2: "free_map_allocate (\<lambda>_. True) ?s1 8 = Some (?s2, Some 6)" by code_simp
  have "fmap_ok ?s" by (simp add: fmap_ok_def bitmap_ok_def elem_cnt_def ELEM_BITS_def)
  from free_map_no_overlap [OF this 1 2] 1 2 show ?thesis by blast
qed

text \<open>
  A page written to the swap partition and loaded back, into any frame, has the same bytes; no
  other memory and no other swap page changes.
\<close>

theorem swap_roundtrip:
  assumes "swap_ok s" "p \<in> used_bits (alloc_map s)"
  shows "\<exists>s1 s2. swap_load_page_to_swap p addr s = Some s1 \<and> swap_load_page_to_ram p addr' s1 = Some s2 \<and>
    swap_ok s2 \<and> alloc_map s2 = alloc_map s \<and>
    (\<forall>k < 4096. ram s2 (addr' + k) = ram s (addr + k)) \<and> (\<forall>a. a \<notin> {addr'..<addr' + 4096} \<longrightarrow> ram s2 a = ram s a) \<and>
    (\<forall>q i k. q \<noteq> p \<longrightarrow> i < 8 \<longrightarrow> k < 512 \<longrightarrow> swap_block s2 (q * 8 + i) k = swap_block s (q * 8 + i) k)"
  using assms by (rule swap_save_load)

definition small_swap :: swap where
  "small_swap = \<lparr>swap_initialized = True, alloc_map = \<lparr>bit_cnt = 2, bits = [2]\<rparr>, swap_size = 16, swap_block = (\<lambda>_ _. 0), ram = (\<lambda>a. of_nat a)\<rparr>"

theorem swap_roundtrip_witness:
  "\<exists>s1 s2. swap_load_page_to_swap 1 8192 small_swap = Some s1 \<and> swap_load_page_to_ram 1 0 s1 = Some s2 \<and>
     ram s2 5 = ram small_swap (8192 + 5)"
proof -
  have ok: "swap_ok small_swap" "1 \<in> used_bits (alloc_map small_swap)"
    by (simp_all add: swap_ok_def small_swap_def bitmap_ok_def elem_cnt_def ELEM_BITS_def used_bits_def bit_at_def elem_idx_def bit_simps)
  from swap_roundtrip [OF ok, of 8192 0] obtain s1 s2 where s: "swap_load_page_to_swap 1 8192 small_swap = Some s1"
    "swap_load_page_to_ram 1 0 s1 = Some s2" "\<forall>k < 4096. ram s2 (0 + k) = ram small_swap (8192 + k)"
    by blast
  have "ram s2 5 = ram small_swap (8192 + 5)"
    using s(3) [rule_format, of 5] by simp
  with s(1,2) show ?thesis by blast
qed

text \<open>
  C13: the page allocator returns page-aligned, previously unused pages of the pool the flags name
  (zeroed on request) or null when that pool has no such run; freeing them puts the pool back as it
  was; the other pool is never touched.
\<close>

theorem palloc_get_free:
  assumes "palloc_ok s" "0 < n" "flags AND PAL_ASSERT = 0" "palloc_get_multiple flags n s = Some (s', a)" "a \<noteq> NULL"
  shows "pg_ofs a = 0 \<and> (\<forall>k < n. a + 4096 * k \<notin> used_pages (pool_of flags s) \<and> a + 4096 * k \<in> used_pages (pool_of flags s')) \<and>
    (flags AND PAL_ZERO \<noteq> 0 \<longrightarrow> (\<forall>k < 4096 * n. memory s' (a + k) = 0)) \<and>
    (\<exists>s''. palloc_free_multiple a n s' = Some s'' \<and> palloc_ok s'' \<and> used_pages (pool_of flags s'') = used_pages (pool_of flags s) \<and>
       other_pool flags s'' = other_pool flags s)"
proof -
  obtain i where ok: "palloc_ok s'" and other: "other_pool flags s' = other_pool flags s"
    and base: "base (pool_of flags s') = base (pool_of flags s)"
    and cnt: "bit_cnt (used_map (pool_of flags s')) = bit_cnt (used_map (pool_of flags s))"
    and a: "a = page_addr (pool_of flags s) i" and le: "i + n \<le> bit_cnt (used_map (pool_of flags s))"
    and free: "{i..<i + n} \<inter> used_bits (used_map (pool_of flags s)) = {}"
    and used: "used_bits (used_map (pool_of flags s')) = used_bits (used_map (pool_of flags s)) \<union> {i..<i + n}"
    and mem: "memory s' = (if flags AND PAL_ZERO \<noteq> 0 then fill a 0 (4096 * n) (memory s) else memory s)"
    using palloc_get_multiple_ok [OF assms(1-3)] assms(4,5) by auto
  have p: "pool_ok (pool_of flags s)" "pool_ok (pool_of flags s')"
    using assms(1) ok by (simp_all add: palloc_ok_def pool_of_def)
  have addr: "page_addr (pool_of flags s') = page_addr (pool_of flags s)"
    by (simp add: fun_eq_iff page_addr_def base)
  have step: "a + 4096 * k = page_addr (pool_of flags s) (i + k)" for k
    by (simp add: a page_addr_def)
  have "\<forall>k < n. a + 4096 * k \<notin> used_pages (pool_of flags s) \<and> a + 4096 * k \<in> used_pages (pool_of flags s')"
    unfolding used_pages_def addr step using free used by (auto dest: run_disjoint)
  moreover have "flags AND PAL_ZERO \<noteq> 0 \<longrightarrow> (\<forall>k < 4096 * n. memory s' (a + k) = 0)"
    by (simp add: mem fill_def)
  moreover have "pg_ofs a = 0" using a page_addr_no(2) [OF p(1)] by simp
  moreover obtain b where b: "release_run (used_map (pool_of flags s')) i n = Some b" "bitmap_ok b"
    "bit_cnt b = bit_cnt (used_map (pool_of flags s'))" "used_bits b = used_bits (used_map (pool_of flags s'))  - {i..<i + n}"
    using release_run_ok(1) [of "used_map (pool_of flags s')" i n] p(2) le cnt used by (auto simp: pool_ok_def)
  let ?s'' = "(if flags AND PAL_USER \<noteq> 0 then s'\<lparr>user_pool := (user_pool s')\<lparr>used_map := b\<rparr>\<rparr> else s'\<lparr>kernel_pool := (kernel_pool s')\<lparr>used_map := b\<rparr>\<rparr>)
        \<lparr>memory := fill a 0xcc (4096 * n) (memory s')\<rparr>"
  have "palloc_free_multiple a n s' = Some ?s''"
    using palloc_free_multiple_eq [OF ok, of a flags i n] a addr le assms(2) b(1) cnt by simp
  moreover have "used_bits b = used_bits (used_map (pool_of flags s))" using b(4) used free by auto
  then have "used_pages (pool_of flags ?s'') = used_pages (pool_of flags s)"
    using base by (auto simp: used_pages_def page_addr_def pool_of_def image_def)
  moreover have "other_pool flags ?s'' = other_pool flags s" "palloc_ok ?s''"
    using other ok b(2,3) by (auto simp: other_pool_def palloc_ok_def pool_ok_def pool_end_def pool_of_def)
  ultimately show ?thesis by blast
qed

theorem palloc_get_free_witness:
  "\<exists>s'. palloc_get_multiple PAL_USER 2 two_pools = Some (s', 0xc0200000) \<and> 0xc0201000 \<in> used_pages (user_pool s') \<and>
     (\<exists>s''. palloc_free_multiple 0xc0200000 2 s' = Some s'' \<and> palloc_ok s'')"
proof -
  let ?s' = "two_pools\<lparr>user_pool := \<lparr>used_map = \<lparr>bit_cnt = 4, bits = [3]\<rparr>, base = 0xc0200000\<rparr>\<rparr>"
  have "palloc_get_multiple PAL_USER 2 two_pools = Some (?s', 0xc0200000)"
  proof -
    have "bitmap_scan_and_flip \<lparr>bit_cnt = 4, bits = [0]\<rparr> 0 2 False = Some (\<lparr>bit_cnt = 4, bits = [3]\<rparr>, 0)" by code_simp
    moreover have "PAL_USER AND PAL_USER \<noteq> 0" "PAL_USER AND PAL_ZERO = 0" "0 \<noteq> BITMAP_ERROR" by code_simp+
    ultimately show ?thesis
      by (simp add: palloc_get_multiple_def two_pools_def four_pages_def)
  qed
  moreover have "PAL_USER AND PAL_ASSERT = 0" "PAL_USER AND PAL_USER \<noteq> 0" by code_simp+
  ultimately show ?thesis
    using palloc_get_free [OF palloc_ok_two_pools _ _ _ _, where n = 2 and flags = PAL_USER]
    by (auto simp: pool_of_def dest: spec [of _ 1])
qed

end
