(* ===== verification/PageDir.thy ===== *)
theory PageDir
  imports Palloc
begin

unbundle bit_operations_syntax

text \<open>
  \<^verbatim>\<open>src/Project5/src/userprog/pagedir.c\<close> and \<^verbatim>\<open>src/Project5/src/threads/pte.h\<close>: the two-level page tables
  of a process, in the memory of the page allocator. Entries are 32-bit words of that memory, stored
  in little-endian order. The processor's base register is part of the state; reloading it, which
  empties the translation cache, changes nothing else.
\<close>

section \<open>Words in memory\<close>

definition read32 :: "(nat \<Rightarrow> u8) \<Rightarrow> nat \<Rightarrow> u32" where
  "read32 m a = ucast (m a) OR push_bit 8 (ucast (m (a + 1))) OR push_bit 16 (ucast (m (a + 2))) OR push_bit 24 (ucast (m (a + 3)))"

definition write32 :: "(nat \<Rightarrow> u8) \<Rightarrow> nat \<Rightarrow> u32 \<Rightarrow> nat \<Rightarrow> u8" where
  "write32 m a w = m(a := ucast w, a + 1 := ucast (drop_bit 8 w), a + 2 := ucast (drop_bit 16 w), a + 3 := ucast (drop_bit 24 w))"

lemma read32_write32_same: "read32 (write32 m a w) a = w"
proof (rule bit_word_eqI)
  fix n assume "n < LENGTH(32)"
  then have "n < 32" by simp
  then have "\<exists>k < 8. n = k \<or> n = 8 + k \<or> n = 16 + k \<or> n = 24 + k" by presburger
  then obtain k where k: "k < 8" "n = k \<or> n = 8 + k \<or> n = 16 + k \<or> n = 24 + k" by blast
  from k(2) show "bit (read32 (write32 m a w) a) n = bit w n"
    by (elim disjE) (use k(1) in \<open>simp_all add: read32_def write32_def bit_or_iff bit_push_bit_iff bit_ucast_iff bit_drop_bit_eq\<close>)
qed

lemma read32_write32_other: "a + 4 \<le> b \<or> b + 4 \<le> a \<Longrightarrow> read32 (write32 m a w) b = read32 m b"
  by (auto simp: read32_def write32_def)

lemma read32_cong:
  assumes "\<And>k. k < 4 \<Longrightarrow> m' (b + k) = m (a + k)"
  shows "read32 m' b = read32 m a"
  using assms [of 0] assms [of 1] assms [of 2] assms [of 3] by (simp add: read32_def)

section \<open>Entries\<close>

definition PTSHIFT :: nat where "PTSHIFT = PGBITS"
definition PTBITS :: nat where "PTBITS = 10"
definition PTMASK :: nat where "PTMASK = BITMASK PTSHIFT PTBITS"
definition PDSHIFT :: nat where "PDSHIFT = PTSHIFT + PTBITS"

definition pt_no :: "nat \<Rightarrow> nat" where
  "pt_no va = drop_bit PTSHIFT (va AND PTMASK)"

definition pd_no :: "nat \<Rightarrow> nat" where
  "pd_no va = drop_bit PDSHIFT va"

definition PTE_ADDR :: u32 where "PTE_ADDR = 0xfffff000"
definition PTE_P :: u32 where "PTE_P = 0x1"
definition PTE_W :: u32 where "PTE_W = 0x2"
definition PTE_U :: u32 where "PTE_U = 0x4"
definition PTE_A :: u32 where "PTE_A = 0x20"
definition PTE_D :: u32 where "PTE_D = 0x40"

definition pde_create :: "ptr \<Rightarrow> u32 option" where
  "pde_create pt = do {
     ASSERT (pg_ofs pt = 0);
     p \<leftarrow> vtop pt;
     Some (of_nat p OR PTE_U OR PTE_P OR PTE_W) }"

definition pde_get_pt :: "u32 \<Rightarrow> ptr option" where
  "pde_get_pt pde = do { ASSERT (pde AND PTE_P \<noteq> 0); ptov (unat (pde AND PTE_ADDR)) }"

definition pte_create_kernel :: "ptr \<Rightarrow> bool \<Rightarrow> u32 option" where
  "pte_create_kernel page writable = do {
     ASSERT (pg_ofs page = 0);
     p \<leftarrow> vtop page;
     Some (of_nat p OR PTE_P OR (if writable then PTE_W else 0)) }"

definition pte_create_user :: "ptr \<Rightarrow> bool \<Rightarrow> u32 option" where
  "pte_create_user page writable = do { e \<leftarrow> pte_create_kernel page writable; Some (e OR PTE_U) }"

definition pte_get_page :: "u32 \<Rightarrow> ptr option" where
  "pte_get_page pte = ptov (unat (pte AND PTE_ADDR))"

section \<open>Page directories\<close>

record mmu =
  frames :: palloc
  cr3 :: nat
  init_page_dir :: ptr
  init_ram_pages :: nat

definition get32 :: "mmu \<Rightarrow> ptr \<Rightarrow> u32" where
  "get32 s a = read32 (memory (frames s)) a"

definition set32 :: "mmu \<Rightarrow> ptr \<Rightarrow> u32 \<Rightarrow> mmu" where
  "set32 s a w = s\<lparr>frames := (frames s)\<lparr>memory := write32 (memory (frames s)) a w\<rparr>\<rparr>"

definition pagedir_create :: "mmu \<Rightarrow> (mmu \<times> ptr) option" where
  "pagedir_create s = do {
     (f, pd) \<leftarrow> palloc_get_page 0 (frames s);
     let f = (if pd \<noteq> NULL
       then f\<lparr>memory := (\<lambda>a. if a \<in> {pd..<pd + PGSIZE} then memory f (init_page_dir s + (a - pd)) else memory f a)\<rparr> else f);
     Some (s\<lparr>frames := f\<rparr>, pd) }"

definition pagedir_activate :: "ptr \<Rightarrow> mmu \<Rightarrow> mmu option" where
  "pagedir_activate pd s = do {
     p \<leftarrow> vtop (if pd = NULL then init_page_dir s else pd);
     Some (s\<lparr>cr3 := p\<rparr>) }"

definition active_pd :: "mmu \<Rightarrow> ptr option" where
  "active_pd s = ptov (cr3 s)"

definition invalidate_pagedir :: "ptr \<Rightarrow> mmu \<Rightarrow> mmu option" where
  "invalidate_pagedir pd s = do {
     a \<leftarrow> active_pd s;
     if a = pd then pagedir_activate pd s else Some s }"

definition lookup_page :: "ptr \<Rightarrow> nat \<Rightarrow> bool \<Rightarrow> mmu \<Rightarrow> (mmu \<times> ptr) option" where
  "lookup_page pd vaddr create s = do {
     ASSERT (pd \<noteq> NULL);
     ASSERT (\<not> create \<or> is_user_vaddr vaddr);
     let pde = pd + 4 * pd_no vaddr;
     if get32 s pde = 0 \<and> \<not> create then Some (s, NULL)
     else do {
       (s, ok) \<leftarrow> (if get32 s pde = 0 then do {
           (f, pt) \<leftarrow> palloc_get_page PAL_ZERO (frames s);
           let s = s\<lparr>frames := f\<rparr>;
           if pt = NULL then Some (s, False)
           else do { e \<leftarrow> pde_create pt; Some (set32 s pde e, True) } }
         else Some (s, True));
       if \<not> ok then Some (s, NULL)
       else do {
         pt \<leftarrow> pde_get_pt (get32 s pde);
         Some (s, pt + 4 * pt_no vaddr) } } }"

definition pagedir_set_page :: "ptr \<Rightarrow> nat \<Rightarrow> ptr \<Rightarrow> bool \<Rightarrow> mmu \<Rightarrow> (mmu \<times> bool) option" where
  "pagedir_set_page pd upage kpage writable s = do {
     ASSERT (pg_ofs upage = 0);
     ASSERT (pg_ofs kpage = 0);
     ASSERT (is_user_vaddr upage);
     p \<leftarrow> vtop kpage;
     ASSERT (drop_bit PTSHIFT p < init_ram_pages s);
     ASSERT (pd \<noteq> init_page_dir s);
     (s, pte) \<leftarrow> lookup_page pd upage True s;
     if pte \<noteq> NULL then do {
       ASSERT (get32 s pte AND PTE_P = 0);
       e \<leftarrow> pte_create_user kpage writable;
       Some (set32 s pte e, True) }
     else Some (s, False) }"

definition pagedir_get_page :: "ptr \<Rightarrow> nat \<Rightarrow> mmu \<Rightarrow> ptr option" where
  "pagedir_get_page pd uaddr s = do {
     ASSERT (is_user_vaddr uaddr);
     (s, pte) \<leftarrow> lookup_page pd uaddr False s;
     if pte \<noteq> NULL \<and> get32 s pte AND PTE_P \<noteq> 0
     then do { p \<leftarrow> pte_get_page (get32 s pte); Some (p + pg_ofs uaddr) }
     else Some NULL }"

definition pagedir_clear_page :: "ptr \<Rightarrow> nat \<Rightarrow> mmu \<Rightarrow> mmu option" where
  "pagedir_clear_page pd upage s = do {
     ASSERT (pg_ofs upage = 0);
     ASSERT (is_user_vaddr upage);
     (s, pte) \<leftarrow> lookup_page pd upage False s;
     if pte \<noteq> NULL \<and> get32 s pte AND PTE_P \<noteq> 0
     then invalidate_pagedir pd (set32 s pte (get32 s pte AND NOT PTE_P))
     else Some s }"

definition pagedir_is_dirty :: "ptr \<Rightarrow> nat \<Rightarrow> mmu \<Rightarrow> bool option" where
  "pagedir_is_dirty pd vpage s = do {
     (s, pte) \<leftarrow> lookup_page pd vpage False s;
     Some (pte \<noteq> NULL \<and> get32 s pte AND PTE_D \<noteq> 0) }"

definition pagedir_set_dirty :: "ptr \<Rightarrow> nat \<Rightarrow> bool \<Rightarrow> mmu \<Rightarrow> mmu option" where
  "pagedir_set_dirty pd vpage dirty s = do {
     (s, pte) \<leftarrow> lookup_page pd vpage False s;
     if pte \<noteq> NULL then
       if dirty then Some (set32 s pte (get32 s pte OR PTE_D))
       else invalidate_pagedir pd (set32 s pte (get32 s pte AND NOT PTE_D))
     else Some s }"

definition pagedir_is_accessed :: "ptr \<Rightarrow> nat \<Rightarrow> mmu \<Rightarrow> bool option" where
  "pagedir_is_accessed pd vpage s = do {
     (s, pte) \<leftarrow> lookup_page pd vpage False s;
     Some (pte \<noteq> NULL \<and> get32 s pte AND PTE_A \<noteq> 0) }"

definition pagedir_set_accessed :: "ptr \<Rightarrow> nat \<Rightarrow> bool \<Rightarrow> mmu \<Rightarrow> mmu option" where
  "pagedir_set_accessed pd vpage accessed s = do {
     (s, pte) \<leftarrow> lookup_page pd vpage False s;
     if pte \<noteq> NULL then
       if accessed then Some (set32 s pte (get32 s pte OR PTE_A))
       else invalidate_pagedir pd (set32 s pte (get32 s pte AND NOT PTE_A))
     else Some s }"

text \<open>Freeing the present pages of \<open>n\<close> entries of a page table, then the tables of \<open>n\<close> directory entries.\<close>

fun destroy_table :: "ptr \<Rightarrow> nat \<Rightarrow> mmu \<Rightarrow> mmu option" where
  "destroy_table pte 0 s = Some s"
| "destroy_table pte (Suc n) s = do {
     s \<leftarrow> (if get32 s pte AND PTE_P \<noteq> 0
       then do { p \<leftarrow> pte_get_page (get32 s pte); f \<leftarrow> palloc_free_page p (frames s); Some (s\<lparr>frames := f\<rparr>) }
       else Some s);
     destroy_table (pte + 4) n s }"

fun destroy_tables :: "ptr \<Rightarrow> nat \<Rightarrow> mmu \<Rightarrow> mmu option" where
  "destroy_tables pde 0 s = Some s"
| "destroy_tables pde (Suc n) s = do {
     s \<leftarrow> (if get32 s pde AND PTE_P \<noteq> 0
       then do {
         pt \<leftarrow> pde_get_pt (get32 s pde);
         s \<leftarrow> destroy_table pt (PGSIZE div 4) s;
         f \<leftarrow> palloc_free_page pt (frames s);
         Some (s\<lparr>frames := f\<rparr>) }
       else Some s);
     destroy_tables (pde + 4) n s }"

definition pagedir_destroy :: "ptr \<Rightarrow> mmu \<Rightarrow> mmu option" where
  "pagedir_destroy pd s =
     (if pd = NULL then Some s
      else do {
        ASSERT (pd \<noteq> init_page_dir s);
        s \<leftarrow> destroy_tables pd (pd_no PHYS_BASE) s;
        f \<leftarrow> palloc_free_page pd (frames s);
        Some (s\<lparr>frames := f\<rparr>) })"

section \<open>The fields of addresses and entries\<close>

lemma pd_no_div: "pd_no va = va div 4194304"
  by (simp add: pd_no_def PDSHIFT_def PTSHIFT_def PTBITS_def PGBITS_def drop_bit_eq_div)

lemma pt_no_div: "pt_no va = va div 4096 mod 1024"
proof -
  have "drop_bit 12 PTMASK = mask 10"
    by (simp add: PTMASK_def BITMASK_def PTSHIFT_def PTBITS_def PGBITS_def drop_bit_eq_div push_bit_eq_mult mask_eq_exp_minus_1)
  then have "pt_no va = drop_bit 12 va AND mask 10"
    by (simp add: pt_no_def PTSHIFT_def PGBITS_def)
  then show ?thesis by (simp add: drop_bit_eq_div flip: take_bit_eq_mask) (simp add: take_bit_eq_mod)
qed

text \<open>A page is determined by its two indices.\<close>

lemma pg_no_eq_iff: "pg_no u = pg_no v \<longleftrightarrow> pd_no u = pd_no v \<and> pt_no u = pt_no v"
proof -
  have eq: "pg_no w = 1024 * pd_no w + pt_no w" for w
    unfolding pd_no_div pt_no_div pg_no_div using div_mult2_eq [of w 4096 1024] by simp
  have "pt_no w < 1024" for w by (simp add: pt_no_div)
  then show ?thesis
    unfolding eq by (metis (no_types) div_mult_self4 div_less add.right_neutral mod_mult_self4 mod_less zero_neq_numeral)
qed

lemma and_PTE_ADDR: "unat (w AND PTE_ADDR) = 4096 * (unat w div 4096)"
proof -
  have p: "PTE_ADDR = push_bit 12 (mask 20)" by (simp add: PTE_ADDR_def mask_eq_exp_minus_1)
  have "w AND PTE_ADDR = push_bit 12 (drop_bit 12 w)"
  proof (rule bit_word_eqI)
    fix n assume "n < LENGTH(32)"
    then show "bit (w AND PTE_ADDR) n = bit (push_bit 12 (drop_bit 12 w)) n"
      unfolding p by (cases "12 \<le> n") (auto simp: bit_and_iff bit_push_bit_iff bit_drop_bit_eq bit_mask_iff)
  qed
  moreover have "unat (push_bit 12 (drop_bit 12 w)) = push_bit 12 (drop_bit 12 (unat w))"
    by (rule bit_eqI) (auto simp: bit_unsigned_iff bit_push_bit_iff bit_drop_bit_eq dest: bit_imp_le_length)
  ultimately show ?thesis by (simp add: push_bit_eq_mult drop_bit_eq_div)
qed

text \<open>An entry for a page-aligned physical address gives the address back, whatever the flags.\<close>

lemma entry_addr:
  assumes "a mod 4096 = 0" "a < 2 ^ 32" "unat f < 4096"
  shows "unat ((of_nat a OR f) AND PTE_ADDR) = a"
proof -
  have "unat (of_nat a OR f :: u32) div 4096 = (a OR unat f) div 4096"
    using assms(2) by (simp add: unsigned_or_eq unsigned_of_nat take_bit_nat_eq_self)
  also have "\<dots> = a div 4096 OR unat f div 4096"
    using drop_bit_or [of 12 a "unat f"] by (simp add: drop_bit_eq_div)
  finally have "unat (of_nat a OR f :: u32) div 4096 = a div 4096" using assms(3) by simp
  then show ?thesis using assms(1) by (simp only: and_PTE_ADDR) (simp add: mult.commute dvd_div_mult_self flip: dvd_eq_mod_eq_0)
qed

lemma entry_present: "(of_nat a OR f) AND PTE_P \<noteq> 0" if "f AND PTE_P = PTE_P" for f :: u32
proof -
  have "bit f 0" using that unfolding PTE_P_def by (simp add: and_one_eq odd_iff_mod_2_eq_one bit_0)
  then have "bit ((of_nat a OR f) AND PTE_P) 0" by (simp add: bit_and_iff bit_or_iff PTE_P_def bit_1_iff)
  then show ?thesis by (metis bit_0_eq bot_apply bot_bool_def)
qed

text \<open>Addresses of pages of the two pools are kernel addresses below \<open>2 ^ 32\<close>.\<close>

definition kpage :: "nat \<Rightarrow> bool" where
  "kpage a \<longleftrightarrow> a mod 4096 = 0 \<and> PHYS_BASE \<le> a \<and> a < 2 ^ 32"

lemma kpage_vtop:
  assumes "kpage a"
  shows "vtop a = Some (a - PHYS_BASE)" "(a - PHYS_BASE) mod 4096 = 0" "a - PHYS_BASE < PHYS_BASE" "ptov (a - PHYS_BASE) = Some a" "pg_ofs a = 0"
proof -
  have a: "PHYS_BASE \<le> a" "a mod 4096 = 0" "a < 4294967296" using assms by (simp_all add: kpage_def)
  show "vtop a = Some (a - PHYS_BASE)" using a by (simp add: vtop_def is_kernel_vaddr_def)
  show less: "a - PHYS_BASE < PHYS_BASE" using a by (simp add: PHYS_BASE_def)
  show "ptov (a - PHYS_BASE) = Some a" using a less by (simp add: ptov_def)
  show "pg_ofs a = 0" using a by (simp add: pg_ofs_mod)
  obtain k where "a = 4096 * k" using a(2) by (metis mod_0_imp_dvd dvdE)
  then show "(a - PHYS_BASE) mod 4096 = 0"
  proof -
    have "PHYS_BASE = 4096 * 786432" by (simp add: PHYS_BASE_def)
    then have "a - PHYS_BASE = 4096 * (k - 786432)" using \<open>a = 4096 * k\<close> by (simp only: diff_mult_distrib2)
    then show ?thesis by simp
  qed
qed

text \<open>The entries made for a page point back to it.\<close>

lemma pde_create_ok:
  assumes "kpage pt"
  shows "\<exists>e. pde_create pt = Some e \<and> e \<noteq> 0 \<and> pde_get_pt e = Some pt"
proof -
  let ?f = "PTE_U OR PTE_P OR PTE_W" and ?p = "pt - PHYS_BASE"
  note k = kpage_vtop [OF assms]
  have "?p < 2 ^ 32" using k(3) by (simp add: PHYS_BASE_def)
  moreover have "unat ?f < 4096" by (simp add: PTE_U_def PTE_P_def PTE_W_def)
  ultimately have "unat ((of_nat ?p OR ?f) AND PTE_ADDR) = ?p" using entry_addr [OF k(2)] by blast
  moreover have "(of_nat ?p OR ?f) AND PTE_P \<noteq> 0" by (rule entry_present) (simp add: PTE_U_def PTE_P_def PTE_W_def)
  moreover from this have "of_nat ?p OR ?f \<noteq> 0" by auto
  ultimately show ?thesis using k by (simp add: pde_create_def pde_get_pt_def or.assoc)
qed

lemma pte_create_user_ok:
  assumes "kpage page"
  shows "\<exists>e. pte_create_user page w = Some e \<and> e AND PTE_P \<noteq> 0 \<and> pte_get_page e = Some page"
proof -
  let ?f = "PTE_P OR (if w then PTE_W else 0) OR PTE_U" and ?p = "page - PHYS_BASE"
  note k = kpage_vtop [OF assms]
  have "?p < 2 ^ 32" using k(3) by (simp add: PHYS_BASE_def)
  moreover have "unat ?f < 4096" by (simp add: PTE_U_def PTE_P_def PTE_W_def)
  ultimately have "unat ((of_nat ?p OR ?f) AND PTE_ADDR) = ?p" using entry_addr [OF k(2)] by blast
  moreover have "(of_nat ?p OR ?f) AND PTE_P \<noteq> 0" by (rule entry_present) (simp add: PTE_U_def PTE_P_def PTE_W_def)
  ultimately show ?thesis using k by (simp add: pte_create_user_def pte_create_kernel_def pte_get_page_def or.assoc)
qed

section \<open>Well-formed page directories\<close>

text \<open>Words of different pages, or of one page at different indices, do not overlap.\<close>

lemma page_multiple:
  assumes "P mod 4096 = 0"
  obtains p where "P = 4096 * (p :: nat)"
  using assms that by (auto elim: dvdE simp flip: dvd_eq_mod_eq_0)

lemma word_addrs:
  fixes P Q i j :: nat
  assumes "P mod 4096 = 0" "Q mod 4096 = 0" "i < 1024" "j < 1024" "P \<noteq> Q \<or> i \<noteq> j"
  shows "P + 4 * i + 4 \<le> Q + 4 * j \<or> Q + 4 * j + 4 \<le> P + 4 * i"
proof -
  obtain p where p: "P = 4096 * p" using assms(1) by (rule page_multiple)
  obtain q where "Q = 4096 * q" using assms(2) by (rule page_multiple)
  with p show ?thesis using assms(3-5) by (cases p q rule: linorder_cases) auto
qed

lemma get32_set32:
  assumes "P mod 4096 = 0" "Q mod 4096 = 0" "i < 1024" "j < 1024"
  shows "get32 (set32 s (Q + 4 * j) w) (P + 4 * i) = (if P = Q \<and> i = j then w else get32 s (P + 4 * i))"
proof (cases "P = Q \<and> i = j")
  case True
  then show ?thesis by (simp add: get32_def set32_def read32_write32_same)
next
  case False
  then have "Q + 4 * j + 4 \<le> P + 4 * i \<or> P + 4 * i + 4 \<le> Q + 4 * j" using word_addrs [OF assms] by blast
  then show ?thesis unfolding if_not_P [OF False] by (simp add: get32_def set32_def read32_write32_other)
qed

lemma read32_fill:
  assumes "P mod 4096 = 0" "Q mod 4096 = 0" "i < 1024"
  shows "read32 (fill Q 0 4096 m) (P + 4 * i) = (if P = Q then 0 else read32 m (P + 4 * i))"
proof -
  obtain p where p: "P = 4096 * p" using assms(1) by (rule page_multiple)
  obtain q where q: "Q = 4096 * q" using assms(2) by (rule page_multiple)
  note pq = p q
  show ?thesis
  proof (cases "P = Q")
    case True
    then show ?thesis using assms(3) by (simp add: read32_def fill_def)
  next
    case False
    then have "p < q \<or> q < p" using pq by auto
    then have "read32 (fill Q 0 4096 m) (P + 4 * i) = read32 m (P + 4 * i)"
      using pq assms(3) by (intro read32_cong) (auto simp: fill_def)
    with False show ?thesis by simp
  qed
qed

definition tables :: "mmu \<Rightarrow> ptr set" where
  "tables s = used_pages (kernel_pool (frames s))"

text \<open>Entry \<open>i\<close> of a page directory, and the page table it points to.\<close>

definition pde :: "mmu \<Rightarrow> ptr \<Rightarrow> nat \<Rightarrow> u32" where
  "pde s pd i = get32 s (pd + 4 * i)"

text \<open>
  The page directory and the page tables of its user part are distinct pages handed out by the
  kernel pool, which lies in the part of memory that is mapped one to one.
\<close>

definition pd_ok :: "mmu \<Rightarrow> ptr \<Rightarrow> bool" where
  "pd_ok s pd \<longleftrightarrow> palloc_ok (frames s) \<and> PHYS_BASE \<le> base (kernel_pool (frames s)) \<and> pool_end (kernel_pool (frames s)) \<le> 2 ^ 32 \<and>
     pd \<in> tables s \<and>
     (\<forall>i < 768. pde s pd i \<noteq> 0 \<longrightarrow> (\<exists>T. pde_get_pt (pde s pd i) = Some T \<and> T \<in> tables s \<and> T \<noteq> pd)) \<and>
     (\<forall>i < 768. \<forall>j < 768. pde s pd i \<noteq> 0 \<longrightarrow> pde s pd j \<noteq> 0 \<longrightarrow> i \<noteq> j \<longrightarrow> pde_get_pt (pde s pd i) \<noteq> pde_get_pt (pde s pd j))"

text \<open>The entry for a virtual address; an address without a page table has the entry 0.\<close>

definition pte_addr :: "mmu \<Rightarrow> ptr \<Rightarrow> nat \<Rightarrow> ptr option" where
  "pte_addr s pd v = (if pde s pd (pd_no v) = 0 then None else map_option (\<lambda>T. T + 4 * pt_no v) (pde_get_pt (pde s pd (pd_no v))))"

definition pte_val :: "mmu \<Rightarrow> ptr \<Rightarrow> nat \<Rightarrow> u32" where
  "pte_val s pd v = (case pte_addr s pd v of None \<Rightarrow> 0 | Some a \<Rightarrow> get32 s a)"

lemma user_indices: "is_user_vaddr v \<Longrightarrow> pd_no v < 768" "pt_no v < 1024"
proof -
  show "is_user_vaddr v \<Longrightarrow> pd_no v < 768"
    by (simp add: is_user_vaddr_def PHYS_BASE_def pd_no_div less_mult_imp_div_less)
  show "pt_no v < 1024" by (simp add: pt_no_div)
qed

lemma pool_kpage:
  assumes "pool_ok p" "PHYS_BASE \<le> base p" "pool_end p \<le> 2 ^ 32" "T \<in> used_pages p"
  shows "kpage T" and "T mod 4096 = 0" and "T \<noteq> NULL"
proof -
  obtain i where i: "T = page_addr p i" "i < bit_cnt (used_map p)"
    using assms(4) by (auto simp: used_pages_def used_bits_def)
  have T: "T < pool_end p" "base p \<le> T" using i by (simp_all add: page_addr_def pool_end_def)
  show m: "T mod 4096 = 0" using page_addr_no(2) [OF assms(1)] i by (simp add: pg_ofs_mod)
  show "kpage T" using assms(2,3) T m by (simp add: kpage_def)
  show "T \<noteq> NULL" using T(2) assms(2) by (simp add: PHYS_BASE_def)
qed

lemma tables_kpage:
  assumes "pd_ok s pd" "T \<in> tables s"
  shows "kpage T" and "T mod 4096 = 0" and "T \<noteq> NULL"
  using assms pool_kpage [of "kernel_pool (frames s)" T] by (simp_all add: pd_ok_def palloc_ok_def tables_def)

lemma pd_okD:
  assumes "pd_ok s pd"
  shows "pd mod 4096 = 0" "pd \<noteq> NULL" "pd \<in> tables s"
  using assms tables_kpage [OF assms] by (simp_all add: pd_ok_def)

lemma pte_addr_ok:
  assumes "pd_ok s pd" "is_user_vaddr v" "pte_addr s pd v = Some a"
  shows "\<exists>T. pde_get_pt (pde s pd (pd_no v)) = Some T \<and> T \<in> tables s \<and> T \<noteq> pd \<and> T mod 4096 = 0 \<and> a = T + 4 * pt_no v \<and> a \<noteq> NULL"
proof -
  obtain T where T: "pde s pd (pd_no v) \<noteq> 0" "pde_get_pt (pde s pd (pd_no v)) = Some T" "a = T + 4 * pt_no v"
    using assms(3) by (auto simp: pte_addr_def split: if_splits)
  moreover have "T \<in> tables s" "T \<noteq> pd"
    using assms(1) T user_indices(1) [OF assms(2)] by (auto simp: pd_ok_def)
  ultimately show ?thesis using tables_kpage [OF assms(1), of T] by simp
qed

lemma pte_addr_None:
  assumes "pd_ok s pd" "is_user_vaddr v"
  shows "pte_addr s pd v = None \<longleftrightarrow> pde s pd (pd_no v) = 0"
  using assms(1) user_indices(1) [OF assms(2)] by (auto simp: pd_ok_def pte_addr_def)

lemma lookup_page_find:
  assumes "pd_ok s pd" "is_user_vaddr v"
  shows "lookup_page pd v False s = Some (s, case pte_addr s pd v of None \<Rightarrow> NULL | Some a \<Rightarrow> a)"
proof (cases "pte_addr s pd v")
  case None
  then have "get32 s (pd + 4 * pd_no v) = 0" using pte_addr_None [OF assms] by (simp add: pde_def)
  then show ?thesis using None pd_okD(2) [OF assms(1)] by (simp add: lookup_page_def)
next
  case (Some a)
  then obtain T where "pde s pd (pd_no v) \<noteq> 0" "pde_get_pt (pde s pd (pd_no v)) = Some T" "a = T + 4 * pt_no v"
    by (auto simp: pte_addr_def split: if_splits)
  then show ?thesis using Some pd_okD(2) [OF assms(1)] by (simp add: lookup_page_def pde_def)
qed

lemma pagedir_get_page_eq:
  assumes "pd_ok s pd" "is_user_vaddr v"
  shows "pagedir_get_page pd v s =
    (if pte_val s pd v AND PTE_P \<noteq> 0 then map_option (\<lambda>p. p + pg_ofs v) (pte_get_page (pte_val s pd v)) else Some NULL)"
proof (cases "pte_addr s pd v")
  case None
  then show ?thesis using assms by (simp add: pagedir_get_page_def lookup_page_find pte_val_def)
next
  case (Some a)
  then have "a \<noteq> NULL" using pte_addr_ok [OF assms] by blast
  then show ?thesis using assms Some by (simp add: pagedir_get_page_def lookup_page_find pte_val_def map_conv_bind_option comp_def)
qed

text \<open>Changing one entry of a page table changes the entry of that page only.\<close>

lemma pd_ok_cong:
  assumes "pd_ok s pd" "kernel_pool (frames s') = kernel_pool (frames s)" "user_pool (frames s') = user_pool (frames s)"
    "\<And>i. i < 768 \<Longrightarrow> pde s' pd i = pde s pd i"
  shows "pd_ok s' pd"
  using assms unfolding pd_ok_def palloc_ok_def tables_def by simp

lemma set_pte:
  assumes ok: "pd_ok s pd" and v: "is_user_vaddr v" and a: "pte_addr s pd v = Some a"
  shows "pd_ok (set32 s a w) pd"
    and "is_user_vaddr u \<Longrightarrow> pte_val (set32 s a w) pd u = (if pg_no u = pg_no v then w else pte_val s pd u)"
proof -
  let ?s = "set32 s a w"
  obtain T where T: "pde_get_pt (pde s pd (pd_no v)) = Some T" "T \<noteq> pd" "T mod 4096 = 0" "a = T + 4 * pt_no v"
    using pte_addr_ok [OF assms] by (elim exE conjE)
  have pde: "pde ?s pd i = pde s pd i" if "i < 768" for i
    unfolding pde_def T(4) using that T(2,3) pd_okD(1) [OF ok] user_indices(2) by (subst get32_set32) auto
  show "pd_ok ?s pd"
    by (rule pd_ok_cong [OF ok _ _ pde]) (simp_all add: set32_def)
  show "pte_val ?s pd u = (if pg_no u = pg_no v then w else pte_val s pd u)" if u: "is_user_vaddr u"
  proof -
    have addr: "pte_addr ?s pd u = pte_addr s pd u"
      using pde [OF user_indices(1) [OF u]] by (simp add: pte_addr_def)
    show ?thesis
    proof (cases "pte_addr s pd u")
      case None
      have "pte_addr s pd v \<noteq> None" using a by simp
      then have "pd_no u \<noteq> pd_no v" using None pte_addr_None [OF ok] u v by metis
      then show ?thesis using None addr by (simp add: pte_val_def pg_no_eq_iff)
    next
      case (Some b)
      obtain U where U: "pde_get_pt (pde s pd (pd_no u)) = Some U" "U mod 4096 = 0" "b = U + 4 * pt_no u"
        using pte_addr_ok [OF ok u Some] by (elim exE conjE)
      have "get32 ?s b = (if U = T \<and> pt_no u = pt_no v then w else get32 s b)"
        unfolding U(3) T(4) using U(2) T(3) user_indices(2) by (intro get32_set32)
      moreover have "U = T \<longleftrightarrow> pd_no u = pd_no v"
      proof
        assume "U = T"
        then have "pde_get_pt (pde s pd (pd_no u)) = pde_get_pt (pde s pd (pd_no v))" using U T by simp
        moreover have "pde s pd (pd_no u) \<noteq> 0" "pde s pd (pd_no v) \<noteq> 0"
          using Some a pte_addr_None [OF ok] u v by (metis option.distinct(1))+
        ultimately show "pd_no u = pd_no v"
          using ok user_indices(1) [OF u] user_indices(1) [OF v] unfolding pd_ok_def by blast
      qed (use U T in simp)
      ultimately show ?thesis using Some addr by (simp add: pte_val_def pg_no_eq_iff)
    qed
  qed
qed

text \<open>Looking up an entry, with a new page table if there is none: no entry of any page changes.\<close>

lemma kernel_pool_flags: "pool_of PAL_ZERO f = kernel_pool f" "PAL_ZERO AND PAL_ASSERT = 0" "PAL_ZERO AND PAL_ZERO \<noteq> 0"
  "other_pool PAL_ZERO f = user_pool f"
  by (simp_all add: pool_of_def other_pool_def PAL_ZERO_def PAL_USER_def PAL_ASSERT_def)

lemma palloc_table:
  assumes "palloc_ok f"
  shows "\<exists>f' pt. palloc_get_page PAL_ZERO f = Some (f', pt) \<and> palloc_ok f' \<and> user_pool f' = user_pool f \<and>
    base (kernel_pool f') = base (kernel_pool f) \<and> pool_end (kernel_pool f') = pool_end (kernel_pool f) \<and>
    (if pt = NULL then f' = f
     else pt \<notin> used_pages (kernel_pool f) \<and> used_pages (kernel_pool f') = insert pt (used_pages (kernel_pool f)) \<and>
       memory f' = fill pt 0 4096 (memory f))"
proof -
  obtain f' pt where r: "palloc_get_page PAL_ZERO f = Some (f', pt)" "palloc_ok f'" "user_pool f' = user_pool f"
    "base (kernel_pool f') = base (kernel_pool f)" "bit_cnt (used_map (kernel_pool f')) = bit_cnt (used_map (kernel_pool f))"
    "if pt = NULL then f' = f \<and> used_bits (used_map (kernel_pool f)) = {..<bit_cnt (used_map (kernel_pool f))}
     else pt \<notin> used_pages (kernel_pool f) \<and> used_pages (kernel_pool f') = insert pt (used_pages (kernel_pool f)) \<and>
       memory f' = fill pt 0 4096 (memory f)"
    using palloc_get_page_ok [OF assms kernel_pool_flags(2,3), unfolded kernel_pool_flags(1,4)] by blast
  then show ?thesis by (intro exI [of _ f'] exI [of _ pt]) (cases "pt = NULL", simp_all add: pool_end_def)
qed

lemma lookup_page_create:
  assumes ok: "pd_ok s pd" and v: "is_user_vaddr v"
  shows "\<exists>s' a. lookup_page pd v True s = Some (s', a) \<and> pd_ok s' pd \<and> init_ram_pages s' = init_ram_pages s \<and>
    (\<forall>u. is_user_vaddr u \<longrightarrow> pte_val s' pd u = pte_val s pd u) \<and> (if a = NULL then s' = s else pte_addr s' pd v = Some a)"
proof (cases "pte_addr s pd v")
  case (Some a)
  then have "pde s pd (pd_no v) \<noteq> 0" "a \<noteq> NULL" using pte_addr_ok [OF ok v] pte_addr_None [OF ok v] by auto
  then have "lookup_page pd v True s = lookup_page pd v False s"
    using v by (simp add: lookup_page_def pde_def)
  then show ?thesis using lookup_page_find [OF ok v] Some ok \<open>a \<noteq> NULL\<close> by simp
next
  case None
  then have z: "get32 s (pd + 4 * pd_no v) = 0" using pte_addr_None [OF ok v] by (simp add: pde_def)
  note pd = pd_okD [OF ok]
  have "palloc_ok (frames s)" using ok by (simp add: pd_ok_def)
  then obtain f pt where f: "palloc_get_page PAL_ZERO (frames s) = Some (f, pt)" "palloc_ok f" "user_pool f = user_pool (frames s)"
    "base (kernel_pool f) = base (kernel_pool (frames s))" "pool_end (kernel_pool f) = pool_end (kernel_pool (frames s))"
    "if pt = NULL then f = frames s
     else pt \<notin> used_pages (kernel_pool (frames s)) \<and> used_pages (kernel_pool f) = insert pt (used_pages (kernel_pool (frames s))) \<and>
       memory f = fill pt 0 4096 (memory (frames s))"
    using palloc_table by blast
  show ?thesis
  proof (cases "pt = NULL")
    case True
    then have "lookup_page pd v True s = Some (s, NULL)"
      using f z v pd(2) by (simp add: lookup_page_def)
    then show ?thesis using ok by simp
  next
    case False
    let ?k = "pd_no v" and ?s1 = "s\<lparr>frames := f\<rparr>"
    have used: "pt \<notin> tables s" "used_pages (kernel_pool f) = insert pt (tables s)" and mem: "memory f = fill pt 0 4096 (memory (frames s))"
      using f(6) False by (simp_all add: tables_def)
    have pool: "pool_ok (kernel_pool f)" "PHYS_BASE \<le> base (kernel_pool f)" "pool_end (kernel_pool f) \<le> 2 ^ 32"
      using f(2,4,5) ok by (simp_all add: palloc_ok_def pd_ok_def)
    note pt = pool_kpage [OF pool, of pt, unfolded used(2), OF insertI1]
    have ne: "pd \<noteq> pt" using pd(3) used(1) by auto
    obtain e where e: "pde_create pt = Some e" "e \<noteq> 0" "pde_get_pt e = Some pt" using pde_create_ok [OF pt(1)] by blast
    define s2 where "s2 = set32 ?s1 (pd + 4 * ?k) e"
    note k = user_indices(1) [OF v]
    have word: "get32 s2 (P + 4 * i) = (if P = pd \<and> i = ?k then e else if P = pt then 0 else get32 s (P + 4 * i))"
      if "P mod 4096 = 0" "i < 1024" for P i
      unfolding s2_def get32_set32 [OF that(1) pd(1) that(2) less_trans [OF k, of 1024, simplified]]
      using read32_fill [OF that(1) pt(2) that(2), of "memory (frames s)"] by (cases "P = pt") (auto simp: get32_def mem)
    have pde2: "pde s2 pd i = (if i = ?k then e else pde s pd i)" if "i < 768" for i
      unfolding pde_def using word [OF pd(1), of i] that ne by simp
    have frames2: "kernel_pool (frames s2) = kernel_pool f" "user_pool (frames s2) = user_pool f" "tables s2 = insert pt (tables s)"
      using used(2) by (simp_all add: s2_def set32_def tables_def)
    have ok2: "pd_ok s2 pd"
      unfolding pd_ok_def
    proof (intro conjI allI impI)
      show "palloc_ok (frames s2)" using f(2) frames2 by (simp add: palloc_ok_def)
      show "PHYS_BASE \<le> base (kernel_pool (frames s2))" "pool_end (kernel_pool (frames s2)) \<le> 2 ^ 32" "pd \<in> tables s2"
        using pool frames2 pd(3) by simp_all
    next
      fix i :: nat assume "i < 768" "pde s2 pd i \<noteq> 0"
      then show "\<exists>T. pde_get_pt (pde s2 pd i) = Some T \<and> T \<in> tables s2 \<and> T \<noteq> pd"
        using ok e(3) ne by (cases "i = ?k") (auto simp: pde2 frames2(3) pd_ok_def)
    next
      fix i j :: nat assume ij: "i < 768" "j < 768" "pde s2 pd i \<noteq> 0" "pde s2 pd j \<noteq> 0" "i \<noteq> j"
      have old: "pde_get_pt (pde s pd l) \<noteq> Some pt" if "l < 768" "pde s pd l \<noteq> 0" for l
        using ok that used(1) by (auto simp: pd_ok_def)
      consider "i = ?k" | "j = ?k" | "i \<noteq> ?k" "j \<noteq> ?k" by blast
      then show "pde_get_pt (pde s2 pd i) \<noteq> pde_get_pt (pde s2 pd j)"
      proof cases
        case 1
        then show ?thesis using ij old [of j] e(3) by (simp add: pde2)
      next
        case 2
        then show ?thesis using ij old [of i] e(3) by (simp add: pde2)
      next
        case 3
        then show ?thesis using ij ok by (simp add: pde2 pd_ok_def)
      qed
    qed
    have "pte_val s2 pd u = pte_val s pd u" if u: "is_user_vaddr u" for u
    proof (cases "pd_no u = ?k")
      case True
      then have "pte_addr s pd u = None" "pte_addr s2 pd u = Some (pt + 4 * pt_no u)"
        using z pte_addr_None [OF ok u] pde2 [OF k] e by (simp_all add: pde_def pte_addr_def)
      moreover have "get32 s2 (pt + 4 * pt_no u) = 0" using word [OF pt(2) user_indices(2)] ne by auto
      ultimately show ?thesis by (simp add: pte_val_def)
    next
      case False
      then have addr: "pte_addr s2 pd u = pte_addr s pd u" using pde2 [OF user_indices(1) [OF u]] by (simp add: pte_addr_def)
      show ?thesis
      proof (cases "pte_addr s pd u")
        case (Some a)
        obtain T where "T \<in> tables s" "T \<noteq> pd" "T mod 4096 = 0" "a = T + 4 * pt_no u"
          using pte_addr_ok [OF ok u Some] by (elim exE conjE)
        then have "get32 s2 a = get32 s a" using word [OF _ user_indices(2), of T u] used(1) by auto
        then show ?thesis using Some addr by (simp add: pte_val_def)
      qed (use addr in \<open>simp add: pte_val_def\<close>)
    qed
    moreover have "pte_addr s2 pd v = Some (pt + 4 * pt_no v)" using pde2 [OF k] e by (simp add: pte_addr_def)
    moreover have "lookup_page pd v True s = Some (s2, pt + 4 * pt_no v)"
      using f(1) z v pd(2) pt(3) e pde2 [OF k] by (simp add: lookup_page_def pde_def s2_def Let_def)
    ultimately show ?thesis using ok2 pt(3) by (simp add: s2_def set32_def)
  qed
qed

lemma pagedir_set_page_ok:
  assumes ok: "pd_ok s pd" and u: "is_user_vaddr upage" "pg_ofs upage = 0" and k: "kpage kp" "drop_bit PTSHIFT (kp - PHYS_BASE) < init_ram_pages s"
    and pd: "pd \<noteq> init_page_dir s" and free: "pte_val s pd upage AND PTE_P = 0"
  shows "\<exists>s' r e. pagedir_set_page pd upage kp w s = Some (s', r) \<and> pd_ok s' pd \<and> e AND PTE_P \<noteq> 0 \<and> pte_get_page e = Some kp \<and>
    (if r then \<forall>v. is_user_vaddr v \<longrightarrow> pte_val s' pd v = (if pg_no v = pg_no upage then e else pte_val s pd v) else s' = s)"
proof -
  obtain e where e: "pte_create_user kp w = Some e" "e AND PTE_P \<noteq> 0" "pte_get_page e = Some kp"
    using pte_create_user_ok [OF k(1)] by blast
  obtain s1 a where s1: "lookup_page pd upage True s = Some (s1, a)" "pd_ok s1 pd"
    "\<forall>u. is_user_vaddr u \<longrightarrow> pte_val s1 pd u = pte_val s pd u" "if a = NULL then s1 = s else pte_addr s1 pd upage = Some a"
    using lookup_page_create [OF ok u(1)] by blast
  note kp = kpage_vtop [OF k(1)]
  show ?thesis
  proof (cases "a = NULL")
    case True
    then have "pagedir_set_page pd upage kp w s = Some (s, False)"
      using s1 u k pd kp by (simp add: pagedir_set_page_def)
    with ok e show ?thesis by (intro exI [of _ s] exI [of _ False] exI [of _ e]) simp
  next
    case False
    then have a: "pte_addr s1 pd upage = Some a" using s1(4) by simp
    then have "pte_val s1 pd upage = get32 s1 a" by (simp add: pte_val_def)
    then have "get32 s1 a AND PTE_P = 0" using free s1(3) u(1) by simp
    then have "pagedir_set_page pd upage kp w s = Some (set32 s1 a e, True)"
      using s1(1) u k pd kp False e(1) by (simp add: pagedir_set_page_def)
    with set_pte [OF s1(2) u(1) a, where w = e] s1(3) e show ?thesis
      by (intro exI [of _ "set32 s1 a e"] exI [of _ True] exI [of _ e]) simp
  qed
qed

section \<open>Properties\<close>

text \<open>
  C8: adding a mapping to a page directory makes exactly the addresses of that user page translate to
  the frame, at the same offset, and leaves the translation of every other user address as it was;
  when no page table can be allocated, nothing changes. The page directory stays well formed.
\<close>

theorem pagedir_set_get:
  assumes "pd_ok s pd" "is_user_vaddr upage" "pg_ofs upage = 0" "kpage kp" "drop_bit PTSHIFT (kp - PHYS_BASE) < init_ram_pages s"
    "pd \<noteq> init_page_dir s" "pte_val s pd upage AND PTE_P = 0"
  shows "\<exists>s' r. pagedir_set_page pd upage kp w s = Some (s', r) \<and> pd_ok s' pd \<and>
    (\<forall>v. is_user_vaddr v \<longrightarrow> pagedir_get_page pd v s' =
       (if r \<and> pg_no v = pg_no upage then Some (kp + pg_ofs v) else pagedir_get_page pd v s))"
proof -
  obtain s' r e where r: "pagedir_set_page pd upage kp w s = Some (s', r)" "pd_ok s' pd" "e AND PTE_P \<noteq> 0" "pte_get_page e = Some kp"
    "if r then \<forall>v. is_user_vaddr v \<longrightarrow> pte_val s' pd v = (if pg_no v = pg_no upage then e else pte_val s pd v) else s' = s"
    using pagedir_set_page_ok [OF assms] by blast
  have "pagedir_get_page pd v s' = (if r \<and> pg_no v = pg_no upage then Some (kp + pg_ofs v) else pagedir_get_page pd v s)"
    if "is_user_vaddr v" for v
    using r(3-5) that pagedir_get_page_eq [OF r(2) that] pagedir_get_page_eq [OF assms(1) that] by (cases r) simp_all
  with r(1,2) show ?thesis by blast
qed

text \<open>A page directory in the first page of the kernel pool, without mappings.\<close>

definition small_mmu :: mmu where
  "small_mmu = \<lparr>frames = \<lparr>kernel_pool = \<lparr>used_map = \<lparr>bit_cnt = 4, bits = [1]\<rparr>, base = 0xc0100000\<rparr>,
     user_pool = four_pages 0xc0200000, memory = (\<lambda>_. 0)\<rparr>, cr3 = 0, init_page_dir = 0xc0000000, init_ram_pages = 1024\<rparr>"

lemma small_mmu_ok: "pd_ok small_mmu 0xc0100000" "pte_val small_mmu 0xc0100000 0x8048000 = 0"
proof -
  have z: "get32 small_mmu a = 0" for a by (simp add: get32_def small_mmu_def read32_def)
  have "palloc_ok (frames small_mmu)"
    by (simp add: palloc_ok_def small_mmu_def four_pages_def pool_ok_def pool_end_def bitmap_ok_def elem_cnt_def ELEM_BITS_def)
  moreover have "0 \<in> used_bits \<lparr>bit_cnt = 4, bits = [1]\<rparr>"
    by (simp add: used_bits_def bit_at_def elem_idx_def ELEM_BITS_def)
  then have "0xc0100000 \<in> tables small_mmu"
    by (auto simp: tables_def used_pages_def page_addr_def small_mmu_def image_iff intro!: bexI [of _ 0])
  ultimately show "pd_ok small_mmu 0xc0100000"
    by (simp add: pd_ok_def pde_def z) (simp add: small_mmu_def PHYS_BASE_def pool_end_def)
  show "pte_val small_mmu 0xc0100000 0x8048000 = 0" by (simp add: pte_val_def pte_addr_def pde_def z)
qed

theorem pagedir_set_get_witness:
  "\<exists>s' r. pagedir_set_page 0xc0100000 0x8048000 0xc0200000 True small_mmu = Some (s', r) \<and>
     (r \<longrightarrow> pagedir_get_page 0xc0100000 0x8048123 s' = Some 0xc0200123)"
proof -
  have "is_user_vaddr 0x8048000" "is_user_vaddr 0x8048123" "pg_no 0x8048123 = pg_no 0x8048000" "kpage 0xc0200000"
    "drop_bit PTSHIFT (0xc0200000 - PHYS_BASE) < init_ram_pages small_mmu"
    by (simp_all add: is_user_vaddr_def PHYS_BASE_def pg_no_div kpage_def small_mmu_def PTSHIFT_def PGBITS_def drop_bit_eq_div)
  moreover have "pg_ofs 0x8048000 = 0" "pg_ofs 0x8048123 = 0x123" "0xc0100000 \<noteq> init_page_dir small_mmu"
    "pte_val small_mmu 0xc0100000 0x8048000 AND PTE_P = 0"
    by (simp_all add: pg_ofs_mod small_mmu_ok(2)) (simp add: small_mmu_def)
  ultimately show ?thesis
    using pagedir_set_get [OF small_mmu_ok(1), where upage = "0x8048000" and kp = "0xc0200000" and w = True] by fastforce
qed

end
