(* ===== verification/Hash.thy ===== *)
theory Hash
  imports Prelude
begin

unbundle bit_operations_syntax

text \<open>
  \<^verbatim>\<open>src/Project5/src/lib/kernel/hash.c\<close>: a hash table with chaining. An element is the address of a
  \<^verbatim>\<open>struct hash_elem\<close>; the hash and comparison functions of the table are applied to addresses and
  include the auxiliary data. A bucket is the sequence of its elements, which is what \<^verbatim>\<open>list.c\<close>
  implements. Counts are 32-bit words and wrap around. An index outside the array of buckets is
  \<^term>\<open>None\<close>. Whether \<^verbatim>\<open>malloc\<close> finds a given number of bytes is the argument \<open>mem\<close>.
\<close>

section \<open>The table\<close>

record 'e hash =
  elem_count :: u32
  bucket_cnt :: u32
  buckets :: "'e list list"
  hash_fn :: "'e \<Rightarrow> u32"
  less_fn :: "'e \<Rightarrow> 'e \<Rightarrow> bool"

definition find_bucket :: "'e hash \<Rightarrow> 'e \<Rightarrow> nat option" where
  "find_bucket h e = do {
     let bucket_idx = unat (hash_fn h e AND (bucket_cnt h - 1));
     ASSERT (bucket_idx < length (buckets h));
     Some bucket_idx }"

fun find_elem :: "'e hash \<Rightarrow> 'e list \<Rightarrow> 'e \<Rightarrow> 'e option" where
  "find_elem h [] e = None"
| "find_elem h (hi # bucket) e =
     (if \<not> less_fn h hi e \<and> \<not> less_fn h e hi then Some hi else find_elem h bucket e)"

definition insert_elem :: "'e hash \<Rightarrow> nat \<Rightarrow> 'e \<Rightarrow> 'e hash" where
  "insert_elem h i e = h\<lparr>elem_count := elem_count h + 1, buckets := (buckets h)[i := e # buckets h ! i]\<rparr>"

definition remove_elem :: "'e hash \<Rightarrow> 'e \<Rightarrow> 'e hash" where
  "remove_elem h e = h\<lparr>elem_count := elem_count h - 1, buckets := map (remove1 e) (buckets h)\<rparr>"

definition turn_off_least_1bit :: "u32 \<Rightarrow> u32" where
  "turn_off_least_1bit x = x AND (x - 1)"

definition is_power_of_2 :: "u32 \<Rightarrow> bool" where
  "is_power_of_2 x \<longleftrightarrow> x \<noteq> 0 \<and> turn_off_least_1bit x = 0"

partial_function (option) power_loop :: "u32 \<Rightarrow> u32 option" where
  "power_loop n = (if is_power_of_2 n then Some n else power_loop (turn_off_least_1bit n))"

definition ideal_bucket_cnt :: "u32 \<Rightarrow> u32 option" where
  "ideal_bucket_cnt cnt = (let n = cnt div 2 in power_loop (if n < 4 then 4 else n))"

text \<open>Moving the elements of one old bucket, and of all of them, to their new buckets.\<close>

fun move_elems :: "'e hash \<Rightarrow> 'e list \<Rightarrow> 'e hash option" where
  "move_elems h [] = Some h"
| "move_elems h (e # es) = do {
     i \<leftarrow> find_bucket h e;
     move_elems (h\<lparr>buckets := (buckets h)[i := e # buckets h ! i]\<rparr>) es }"

fun move_buckets :: "'e hash \<Rightarrow> 'e list list \<Rightarrow> 'e hash option" where
  "move_buckets h [] = Some h"
| "move_buckets h (b # bs) = do { h \<leftarrow> move_elems h b; move_buckets h bs }"

definition rehash :: "(u32 \<Rightarrow> bool) \<Rightarrow> 'e hash \<Rightarrow> 'e hash option" where
  "rehash mem h = do {
     let old_buckets = buckets h;
     new_bucket_cnt \<leftarrow> ideal_bucket_cnt (elem_count h);
     if new_bucket_cnt = bucket_cnt h then Some h
     else if \<not> mem (16 * new_bucket_cnt) then Some h
     else move_buckets (h\<lparr>buckets := replicate (unat new_bucket_cnt) [], bucket_cnt := new_bucket_cnt\<rparr>) old_buckets }"

definition hash_insert :: "(u32 \<Rightarrow> bool) \<Rightarrow> 'e hash \<Rightarrow> 'e \<Rightarrow> ('e hash \<times> 'e option) option" where
  "hash_insert mem h new = do {
     bucket \<leftarrow> find_bucket h new;
     let old = find_elem h (buckets h ! bucket) new;
     h \<leftarrow> rehash mem (if old = None then insert_elem h bucket new else h);
     Some (h, old) }"

definition hash_replace :: "(u32 \<Rightarrow> bool) \<Rightarrow> 'e hash \<Rightarrow> 'e \<Rightarrow> ('e hash \<times> 'e option) option" where
  "hash_replace mem h new = do {
     bucket \<leftarrow> find_bucket h new;
     let old = find_elem h (buckets h ! bucket) new;
     let h = (case old of None \<Rightarrow> h | Some old \<Rightarrow> remove_elem h old);
     h \<leftarrow> rehash mem (insert_elem h bucket new);
     Some (h, old) }"

definition hash_find :: "'e hash \<Rightarrow> 'e \<Rightarrow> 'e option option" where
  "hash_find h e = do {
     bucket \<leftarrow> find_bucket h e;
     Some (find_elem h (buckets h ! bucket) e) }"

definition hash_delete :: "(u32 \<Rightarrow> bool) \<Rightarrow> 'e hash \<Rightarrow> 'e \<Rightarrow> ('e hash \<times> 'e option) option" where
  "hash_delete mem h e = do {
     bucket \<leftarrow> find_bucket h e;
     case find_elem h (buckets h ! bucket) e of
       None \<Rightarrow> Some (h, None)
     | Some found \<Rightarrow> do { h \<leftarrow> rehash mem (remove_elem h found); Some (h, Some found) } }"

text \<open>A destructor or action changes a state \<open>s\<close>, element by element.\<close>

definition hash_clear :: "'e hash \<Rightarrow> ('e \<Rightarrow> 's \<Rightarrow> 's) option \<Rightarrow> 's \<Rightarrow> 'e hash \<times> 's" where
  "hash_clear h destructor s =
     (h\<lparr>elem_count := 0, buckets := map (\<lambda>_. []) (take (unat (bucket_cnt h)) (buckets h)) @ drop (unat (bucket_cnt h)) (buckets h)\<rparr>,
      case destructor of None \<Rightarrow> s | Some d \<Rightarrow> fold (fold d) (take (unat (bucket_cnt h)) (buckets h)) s)"

definition hash_destroy :: "'e hash \<Rightarrow> ('e \<Rightarrow> 's \<Rightarrow> 's) option \<Rightarrow> 's \<Rightarrow> 's" where
  "hash_destroy h destructor s = (case destructor of None \<Rightarrow> s | Some _ \<Rightarrow> snd (hash_clear h destructor s))"

text \<open>\<open>junk\<close> is what the new array of buckets contains before it is initialised.\<close>

definition hash_init :: "(u32 \<Rightarrow> bool) \<Rightarrow> 'e list list \<Rightarrow> ('e \<Rightarrow> u32) \<Rightarrow> ('e \<Rightarrow> 'e \<Rightarrow> bool) \<Rightarrow> 'e hash option" where
  "hash_init mem junk hf lt =
     (let h = \<lparr>elem_count = 0, bucket_cnt = 4, buckets = junk, hash_fn = hf, less_fn = lt\<rparr>
      in if mem (16 * bucket_cnt h) then Some (fst (hash_clear h None ())) else None)"

definition hash_apply :: "'e hash \<Rightarrow> ('e \<Rightarrow> 's \<Rightarrow> 's) \<Rightarrow> 's \<Rightarrow> 's" where
  "hash_apply h action s = fold (fold action) (take (unat (bucket_cnt h)) (buckets h)) s"

definition hash_size :: "'e hash \<Rightarrow> u32" where
  "hash_size h = elem_count h"

definition hash_empty :: "'e hash \<Rightarrow> bool" where
  "hash_empty h \<longleftrightarrow> elem_count h = 0"

text \<open>
  An iterator is at a bucket and at a position of its list: 0 is the head of the list, \<open>Suc i\<close> its
  \<open>i\<close>-th element, one more than its length its tail. \<open>it_elem\<close> is the current element.
\<close>

record 'e hash_iterator =
  it_bucket :: nat
  it_pos :: nat
  it_elem :: "'e option"

definition hash_first :: "'e hash_iterator" where
  "hash_first = \<lparr>it_bucket = 0, it_pos = 0, it_elem = None\<rparr>"

function next_loop :: "'e list list \<Rightarrow> nat \<Rightarrow> nat \<Rightarrow> 'e hash_iterator" where
  "next_loop bs b p =
     (if b < length bs \<and> p = length (bs ! b) + 1
      then if b + 1 \<ge> length bs then \<lparr>it_bucket = b + 1, it_pos = p, it_elem = None\<rparr>
           else next_loop bs (b + 1) 1
      else \<lparr>it_bucket = b, it_pos = p, it_elem = Some (bs ! b ! (p - 1))\<rparr>)"
  by pat_completeness auto
termination
  by (relation "measure (\<lambda>(bs, b, p). length bs - b)") auto

definition hash_next :: "'e hash \<Rightarrow> 'e hash_iterator \<Rightarrow> 'e hash_iterator" where
  "hash_next h i = next_loop (buckets h) (it_bucket i) (it_pos i + 1)"

definition hash_cur :: "'e hash_iterator \<Rightarrow> 'e option" where
  "hash_cur i = it_elem i"

section \<open>The hash functions of the library\<close>

definition FNV_32_PRIME :: u32 where "FNV_32_PRIME = 16777619"
definition FNV_32_BASIS :: u32 where "FNV_32_BASIS = 2166136261"

definition hash_bytes :: "u8 list \<Rightarrow> u32" where
  "hash_bytes buf = foldl (\<lambda>hash b. (hash * FNV_32_PRIME) XOR ucast b) FNV_32_BASIS buf"

text \<open>A string ends at the first zero byte; reading past the end of the memory is \<^term>\<open>None\<close>.\<close>

fun hash_string_loop :: "u8 list \<Rightarrow> u32 \<Rightarrow> u32 option" where
  "hash_string_loop [] hash = None"
| "hash_string_loop (c # s) hash =
     (if c \<noteq> 0 then hash_string_loop s ((hash * FNV_32_PRIME) XOR ucast c) else Some hash)"

definition hash_string :: "u8 list \<Rightarrow> u32 option" where
  "hash_string s = hash_string_loop s FNV_32_BASIS"

definition hash_int :: "u32 \<Rightarrow> u32" where
  "hash_int i = hash_bytes (map (\<lambda>k. ucast (drop_bit (8 * k) i)) [0, 1, 2, 3])"

lemma hash_string_bytes:
  "0 \<notin> set bs \<Longrightarrow> hash_string (bs @ 0 # rest) = Some (hash_bytes bs)"
proof -
  have "0 \<notin> set bs \<Longrightarrow> hash_string_loop (bs @ 0 # rest) h =
      Some (foldl (\<lambda>hash b. (hash * FNV_32_PRIME) XOR ucast b) h bs)" for h
    by (induction bs arbitrary: h) auto
  then show "0 \<notin> set bs \<Longrightarrow> ?thesis" by (simp add: hash_string_def hash_bytes_def)
qed

section \<open>Powers of two\<close>

lemma bit_top_nat: "2 ^ k \<le> (a :: nat) \<Longrightarrow> a < 2 ^ Suc k \<Longrightarrow> bit a k"
proof -
  assume a: "2 ^ k \<le> a" "a < 2 ^ Suc k"
  have "a div 2 ^ k = 1" by (rule div_nat_eqI) (use a in auto)
  then show ?thesis by (simp add: bit_iff_odd)
qed

lemma bit_imp_le_nat: "bit (a :: nat) k \<Longrightarrow> 2 ^ k \<le> a"
  by (metis bit_iff_odd div_less even_zero not_le)

lemma is_power_of_2_power: "k < 32 \<Longrightarrow> is_power_of_2 (2 ^ k)"
proof -
  assume k: "k < 32"
  have "(2 ^ k :: u32) AND mask k = take_bit k (2 ^ k)" by (simp add: take_bit_eq_mask and.commute)
  also have "\<dots> = 0" by (rule bit_eqI) (simp add: bit_take_bit_iff bit_exp_iff)
  finally show ?thesis using k by (simp add: is_power_of_2_def turn_off_least_1bit_def mask_eq_exp_minus_1)
qed

lemma unat_exp_le: "2 ^ k \<le> unat (n :: u32) \<Longrightarrow> k < 32"
  using unsigned_less [of n, where 'a = nat] power_less_imp_less_exp [of "2::nat" k 32] by simp

lemma unat_exp [simp]: "k < 32 \<Longrightarrow> unat (2 ^ k :: u32) = 2 ^ k"
  using unat_of_nat [of "2 ^ k", where 'a = 32] power_strict_increasing [of k 32 "2::nat"] by (simp add: take_bit_eq_mod)

lemma turn_off_keeps_top:
  assumes "\<not> is_power_of_2 n" "2 ^ k \<le> unat n" "unat n < 2 ^ Suc k"
  shows "2 ^ k \<le> unat (turn_off_least_1bit n)" and "unat (turn_off_least_1bit n) < unat n"
proof -
  have k: "k < 32" using assms(2) by (rule unat_exp_le)
  then have "unat n \<noteq> unat (2 ^ k :: u32)"
    using assms(1) is_power_of_2_power [of k] by (metis word_unat_eq_iff)
  then have ge: "2 ^ k \<le> unat n - 1" "unat n - 1 < 2 ^ Suc k" using assms k by auto
  have n0: "n \<noteq> 0" using assms(2) by (auto simp: not_le)
  have "unat (turn_off_least_1bit n) = unat n AND (unat n - 1)"
    using n0 by (simp add: turn_off_least_1bit_def unsigned_and_eq unat_minus_one)
  then have "bit (unat (turn_off_least_1bit n)) k"
    using bit_top_nat [OF assms(2,3)] bit_top_nat [OF ge] by (simp add: bit_and_iff)
  then show "2 ^ k \<le> unat (turn_off_least_1bit n)" by (rule bit_imp_le_nat)
  have "turn_off_least_1bit n \<le> n - 1" by (simp add: turn_off_least_1bit_def word_and_le1)
  then show "unat (turn_off_least_1bit n) < unat n"
    using measure_unat [OF n0] by (simp add: word_le_nat_alt)
qed

text \<open>The loop stops at the greatest power of two that is not above its argument.\<close>

lemma power_loop_ok:
  "2 ^ k \<le> unat n \<Longrightarrow> unat n < 2 ^ Suc k \<Longrightarrow> power_loop n = Some (2 ^ k)"
proof (induction "unat n" arbitrary: n rule: less_induct)
  case less
  show ?case
  proof (cases "is_power_of_2 n")
    case True
    have "unat n = 2 ^ k"
    proof (rule ccontr)
      assume "unat n \<noteq> 2 ^ k"
      then have ge: "2 ^ k \<le> unat n - 1" "unat n - 1 < 2 ^ Suc k" using less.prems by auto
      have "n \<noteq> 0" using True by (simp add: is_power_of_2_def)
      then have "unat n AND (unat n - 1) = 0"
        using True unat_minus_one [of n]
        by (metis is_power_of_2_def turn_off_least_1bit_def unsigned_0 unsigned_and_eq)
      then show False
        using bit_top_nat [OF less.prems] bit_top_nat [OF ge] by (metis bit_0_eq bit_and_iff bot_apply bot_bool_def)
    qed
    then have "n = 2 ^ k" using unat_exp_le [OF less.prems(1)] by (simp add: word_unat_eq_iff \<open>unat n = 2 ^ k\<close>)
    with True show ?thesis by (subst power_loop.simps) simp
  next
    case False
    note top = turn_off_keeps_top [OF False less.prems]
    have "power_loop (turn_off_least_1bit n) = Some (2 ^ k)"
      by (rule less.hyps [OF top(2) top(1)]) (use top(2) less.prems(2) in simp)
    with False show ?thesis by (subst power_loop.simps) simp
  qed
qed

lemma nat_between_powers: "0 < (n :: nat) \<Longrightarrow> \<exists>k. 2 ^ k \<le> n \<and> n < 2 ^ Suc k"
  using ex_power_ivl1 [of 2 n] by auto

lemma ideal_bucket_cnt_ok:
  "\<exists>k. ideal_bucket_cnt c = Some (2 ^ k) \<and> 2 ^ k \<le> max 4 (unat c div 2) \<and> max 4 (unat c div 2) < 2 ^ Suc k \<and> 2 \<le> k \<and> k < 32"
proof -
  let ?n = "if c div 2 < 4 then 4 else c div 2 :: u32"
  have n: "unat ?n = max 4 (unat c div 2)"
    by (auto simp: word_less_nat_alt unat_div)
  obtain k where k: "2 ^ k \<le> unat ?n" "unat ?n < 2 ^ Suc k"
    using nat_between_powers [of "unat ?n"] n unfolding n by (metis max_less_iff_conj less_numeral_extra(3) max.strict_coboundedI1 zero_less_numeral)
  have "(2 :: nat) ^ 2 < 2 ^ Suc k" using k(2) n by auto
  then have "2 < Suc k" by (rule power_less_imp_less_exp [rotated]) simp
  then show ?thesis
    using power_loop_ok [OF k] k n unat_exp_le [OF k(1)] by (auto simp: ideal_bucket_cnt_def Let_def)
qed

section \<open>The contract of a table\<close>

text \<open>
  What the clients of the table rely on: \<open>find\<close> returns the element of the table that equals the
  one given, no two elements of the table are equal, and the other operations change the set of
  elements as their names say. A result \<^term>\<open>None\<close> inside the \<open>Some\<close> is a null pointer.
\<close>

locale elem_table =
  fixes ok :: "'s \<Rightarrow> bool"
    and elems :: "'s \<Rightarrow> 'e set"
    and eqv :: "'e \<Rightarrow> 'e \<Rightarrow> bool"
    and find :: "'s \<Rightarrow> 'e \<Rightarrow> 'e option option"
    and ins :: "'s \<Rightarrow> 'e \<Rightarrow> ('s \<times> 'e option) option"
    and repl :: "'s \<Rightarrow> 'e \<Rightarrow> ('s \<times> 'e option) option"
    and del :: "'s \<Rightarrow> 'e \<Rightarrow> ('s \<times> 'e option) option"
  assumes equiv: "ok s \<Longrightarrow> equivp eqv"
    and unique: "ok s \<Longrightarrow> x \<in> elems s \<Longrightarrow> y \<in> elems s \<Longrightarrow> eqv x y \<Longrightarrow> x = y"
    and find: "ok s \<Longrightarrow> \<exists>r. find s e = Some r \<and>
      (case r of None \<Rightarrow> \<forall>x \<in> elems s. \<not> eqv x e | Some x \<Rightarrow> x \<in> elems s \<and> eqv x e)"
    and ins: "ok s \<Longrightarrow> \<exists>s' r. ins s e = Some (s', r) \<and> find s e = Some r \<and> ok s' \<and>
      elems s' = (if r = None then insert e (elems s) else elems s)"
    and repl: "ok s \<Longrightarrow> \<exists>s' r. repl s e = Some (s', r) \<and> find s e = Some r \<and> ok s' \<and>
      elems s' = insert e {x \<in> elems s. \<not> eqv x e}"
    and del: "ok s \<Longrightarrow> \<exists>s' r. del s e = Some (s', r) \<and> find s e = Some r \<and> ok s' \<and>
      elems s' = {x \<in> elems s. \<not> eqv x e}"
begin

lemma find_iff: 
  assumes "ok s"
  shows "find s e = Some (Some x) \<longleftrightarrow> x \<in> elems s \<and> eqv x e"
proof -
  note eq = equiv [OF assms]
  obtain r where r: "find s e = Some r" "case r of None \<Rightarrow> \<forall>x \<in> elems s. \<not> eqv x e | Some x \<Rightarrow> x \<in> elems s \<and> eqv x e"
    using find [OF assms, of e] by blast
  show ?thesis
  proof (cases r)
    case (Some y)
    then have "x = y" if "x \<in> elems s" "eqv x e"
      using that r(2) unique [OF assms, of x y] equivp_symp [OF eq, of y e] equivp_transp [OF eq, of x e y] by simp
    with r Some show ?thesis by auto
  qed (use r in auto)
qed

lemma find_None:
  assumes "ok s"
  shows "find s e = Some None \<longleftrightarrow> (\<forall>x \<in> elems s. \<not> eqv x e)"
proof -
  obtain r where "find s e = Some r" "case r of None \<Rightarrow> \<forall>x \<in> elems s. \<not> eqv x e | Some x \<Rightarrow> x \<in> elems s \<and> eqv x e"
    using find [OF assms, of e] by blast
  then show ?thesis by (cases r) auto
qed

lemma find_eq:
  assumes "ok s" "ok s'" "\<And>x. x \<in> elems s' \<and> eqv x e \<longleftrightarrow> x \<in> elems s \<and> eqv x e'"
  shows "find s' e = find s e'"
proof -
  obtain r where r: "find s e' = Some r"
    using find [OF assms(1), of e'] by blast
  show ?thesis
  proof (cases r)
    case None
    then have "find s' e = Some None"
      using r assms(3) find_None [OF assms(1)] find_None [OF assms(2)] by blast
    with r None show ?thesis by simp
  next
    case (Some x)
    then have "find s' e = Some (Some x)"
      using r assms(3) find_iff [OF assms(1)] find_iff [OF assms(2)] by blast
    with r Some show ?thesis by simp
  qed
qed

text \<open>The laws of a map, from the sets.\<close>

lemma find_after_ins:
  assumes "ok s" "ins s e = Some (s', r)"
  shows "find s' x = (if eqv e x then Some (case r of None \<Rightarrow> Some e | Some y \<Rightarrow> Some y) else find s x)"
proof -
  note eq = equiv [OF assms(1)]
  have s': "find s e = Some r" "ok s'" "elems s' = (if r = None then insert e (elems s) else elems s)"
    using ins [OF assms(1), of e] assms(2) by auto
  show ?thesis
  proof (cases "eqv e x")
    case True
    let ?y = "case r of None \<Rightarrow> e | Some y \<Rightarrow> y"
    have "?y \<in> elems s' \<and> eqv ?y x"
      using True s'(1,3) find_iff [OF assms(1), of e] equivp_transp [OF eq] equivp_reflp [OF eq]
      by (cases r) (auto intro: equivp_transp [OF eq])
    then have "find s' x = Some (Some ?y)" using find_iff [OF s'(2)] by simp
    with True show ?thesis by (simp split: option.splits)
  next
    case False
    then have "find s' x = find s x"
      using s'(3) by (intro find_eq [OF assms(1) s'(2)]) auto
    with False show ?thesis by simp
  qed
qed

lemma find_after_repl:
  assumes "ok s" "repl s e = Some (s', r)"
  shows "find s' x = (if eqv e x then Some (Some e) else find s x)"
proof -
  note eq = equiv [OF assms(1)]
  have s': "ok s'" "elems s' = insert e {x \<in> elems s. \<not> eqv x e}"
    using repl [OF assms(1), of e] assms(2) by auto
  show ?thesis
  proof (cases "eqv e x")
    case False
    then have "y \<in> elems s' \<and> eqv y x \<longleftrightarrow> y \<in> elems s \<and> eqv y x" for y
      using s'(2) equivp_symp [OF eq, of y e] equivp_transp [OF eq, of e y x] by auto
    then have "find s' x = find s x" by (rule find_eq [OF assms(1) s'(1)])
    with False show ?thesis by simp
  qed (use s' find_iff [OF s'(1)] in simp)
qed

lemma find_after_del:
  assumes "ok s" "del s e = Some (s', r)"
  shows "find s' x = (if eqv e x then Some None else find s x)"
proof -
  note eq = equiv [OF assms(1)]
  have s': "ok s'" "elems s' = {x \<in> elems s. \<not> eqv x e}"
    using del [OF assms(1), of e] assms(2) by auto
  show ?thesis
  proof (cases "eqv e x")
    case True
    then have "\<forall>y \<in> elems s'. \<not> eqv y x"
      using s'(2) equivp_symp [OF eq, of e x] equivp_transp [OF eq, of _ x e] by blast
    with True show ?thesis using find_None [OF s'(1)] by simp
  next
    case False
    then have "y \<in> elems s' \<and> eqv y x \<longleftrightarrow> y \<in> elems s \<and> eqv y x" for y
      using s'(2) equivp_symp [OF eq, of y e] equivp_transp [OF eq, of e y x] by auto
    then have "find s' x = find s x" by (rule find_eq [OF assms(1) s'(1)])
    with False show ?thesis by simp
  qed
qed

lemma ins_del:
  assumes "ok s" "find s e = Some None" "ins s e = Some (s1, r1)" "del s1 e = Some (s2, r2)"
  shows "r2 = Some e \<and> elems s2 = elems s"
proof -
  note eq = equiv [OF assms(1)]
  have s1: "ok s1" "elems s1 = insert e (elems s)"
    using ins [OF assms(1), of e] assms(2,3) by auto
  have s2: "find s1 e = Some r2" "elems s2 = {x \<in> elems s1. \<not> eqv x e}"
    using del [OF s1(1), of e] assms(4) by auto
  have "find s1 e = Some (Some e)"
    using find_after_ins [OF assms(1,3), of e] ins [OF assms(1), of e] assms(2,3) equivp_reflp [OF eq] by auto
  moreover have "elems s2 = elems s"
    using s1(2) s2(2) find_None [OF assms(1), of e] assms(2) equivp_reflp [OF eq] by auto
  ultimately show ?thesis using s2(1) by simp
qed

end

section \<open>The table implements its contract\<close>

text \<open>The two functions a client passes: equal elements have the same hash value.\<close>

locale hash_funcs = less_func +
  fixes hash_val :: "'a \<Rightarrow> u32"
  assumes same_hash: "\<not> less a b \<Longrightarrow> \<not> less b a \<Longrightarrow> hash_val a = hash_val b"
begin

lemma equivp_equal: "equivp (\<lambda>a b. \<not> less a b \<and> \<not> less b a)"
proof (rule equivpI)
  show "transp (\<lambda>a b. \<not> less a b \<and> \<not> less b a)" unfolding transp_def using le_trans by blast
qed (auto simp: reflp_def symp_def)

end

lemma hash_funcs_key: "hash_funcs (\<lambda>a b. key a < (key b :: 'k :: linorder)) (\<lambda>a. g (key a))"
  by unfold_locales (auto simp: not_less)

abbreviation same :: "('e \<Rightarrow> 'e \<Rightarrow> bool) \<Rightarrow> 'e \<Rightarrow> 'e \<Rightarrow> bool" where
  "same lt a b \<equiv> \<not> lt a b \<and> \<not> lt b a"

definition no_equal :: "('e \<Rightarrow> 'e \<Rightarrow> bool) \<Rightarrow> 'e list \<Rightarrow> bool" where
  "no_equal lt xs \<longleftrightarrow> distinct xs \<and> (\<forall>x \<in> set xs. \<forall>y \<in> set xs. same lt x y \<longrightarrow> x = y)"

lemma no_equal_mset: "mset xs = mset ys \<Longrightarrow> no_equal lt xs \<longleftrightarrow> no_equal lt ys"
  using mset_eq_imp_distinct_iff [of xs ys] mset_eq_setD [of xs ys] by (simp add: no_equal_def)

lemma no_equal_Cons:
  assumes "hash_funcs lt hf"
  shows "no_equal lt (e # xs) \<longleftrightarrow> no_equal lt xs \<and> (\<forall>x \<in> set xs. \<not> same lt x e)"
  using equivp_reflp [OF hash_funcs.equivp_equal [OF assms]] by (auto simp: no_equal_def)

definition bucket_idx :: "'e hash \<Rightarrow> 'e \<Rightarrow> nat" where
  "bucket_idx h e = unat (hash_fn h e AND (bucket_cnt h - 1))"

text \<open>Every element is in the bucket its hash value names; the number of buckets is a power of two.\<close>

definition hash_shape :: "'e hash \<Rightarrow> bool" where
  "hash_shape h \<longleftrightarrow> is_power_of_2 (bucket_cnt h) \<and> length (buckets h) = unat (bucket_cnt h) \<and>
     (\<forall>i < length (buckets h). \<forall>e \<in> set (buckets h ! i). bucket_idx h e = i)"

definition contents :: "'e hash \<Rightarrow> 'e list" where
  "contents h = concat (buckets h)"

definition elems :: "'e hash \<Rightarrow> 'e set" where
  "elems h = set (contents h)"

definition hash_ok :: "('e \<Rightarrow> 'e \<Rightarrow> bool) \<Rightarrow> ('e \<Rightarrow> u32) \<Rightarrow> 'e hash \<Rightarrow> bool" where
  "hash_ok lt hf h \<longleftrightarrow> hash_funcs lt hf \<and> less_fn h = lt \<and> hash_fn h = hf \<and> hash_shape h \<and>
     no_equal lt (contents h) \<and> elem_count h = of_nat (length (contents h))"

lemma hash_shape_cong:
  "buckets h' = buckets h \<Longrightarrow> bucket_cnt h' = bucket_cnt h \<Longrightarrow> hash_fn h' = hash_fn h \<Longrightarrow> hash_shape h = hash_shape h'"
  by (simp add: hash_shape_def bucket_idx_def)

lemma bucket_idx_less: "hash_shape h \<Longrightarrow> bucket_idx h e < length (buckets h)"
proof -
  assume h: "hash_shape h"
  then have "bucket_cnt h \<noteq> 0" by (auto simp: hash_shape_def is_power_of_2_def)
  moreover have "hash_fn h e AND (bucket_cnt h - 1) \<le> bucket_cnt h - 1" by (rule word_and_le1)
  ultimately show ?thesis
    using h measure_unat [of "bucket_cnt h"] by (simp add: hash_shape_def bucket_idx_def word_le_nat_alt)
qed

lemma find_bucket_ok: "hash_shape h \<Longrightarrow> find_bucket h e = Some (bucket_idx h e)"
  using bucket_idx_less [of h e] by (simp add: find_bucket_def bucket_idx_def Let_def)

lemma find_elem_find: "find_elem h b e = List.find (\<lambda>x. same (less_fn h) x e) b"
  by (induction b) auto

lemma mset_concat_push: "i < length bs \<Longrightarrow> mset (concat (bs[i := e # bs ! i])) = add_mset e (mset (concat bs))"
proof -
  assume i: "i < length bs"
  have "mset (concat bs) = mset (concat (take i bs)) + mset (bs ! i) + mset (concat (drop (Suc i) bs))"
    by (subst id_take_nth_drop [OF i]) simp
  then show ?thesis by (simp add: upd_conv_take_nth_drop [OF i])
qed

lemma push_shape:
  assumes "hash_shape h"
  shows "hash_shape (h\<lparr>buckets := (buckets h)[bucket_idx h e := e # buckets h ! bucket_idx h e]\<rparr>)"
proof -
  have "bucket_idx (h\<lparr>buckets := bs\<rparr>) = bucket_idx h" for bs by (simp add: bucket_idx_def fun_eq_iff)
  with assms bucket_idx_less [OF assms, of e] show ?thesis
    by (fastforce simp: hash_shape_def nth_list_update split: if_splits)
qed

lemma move_buckets_concat: "move_buckets h bs = move_elems h (concat bs)"
proof -
  have app: "move_elems h (xs @ ys) = move_elems h xs \<bind> (\<lambda>h. move_elems h ys)" for h :: "'a hash" and xs ys
    by (induction xs arbitrary: h) (auto split: bind_splits)
  show ?thesis by (induction bs arbitrary: h) (auto simp: app)
qed

lemma move_elems_ok:
  "hash_shape h \<Longrightarrow> \<exists>h'. move_elems h es = Some h' \<and> hash_shape h' \<and> mset (contents h') = mset (contents h) + mset es \<and>
     hash_fn h' = hash_fn h \<and> less_fn h' = less_fn h \<and> elem_count h' = elem_count h"
proof (induction es arbitrary: h)
  case (Cons e es)
  let ?h = "h\<lparr>buckets := (buckets h)[bucket_idx h e := e # buckets h ! bucket_idx h e]\<rparr>"
  have "mset (contents ?h) = add_mset e (mset (contents h))"
    using mset_concat_push [OF bucket_idx_less [OF Cons.prems], of e e] by (simp add: contents_def)
  with Cons.IH [OF push_shape [OF Cons.prems, of e]] Cons.prems show ?case
    by (auto simp: find_bucket_ok)
qed simp

lemma rehash_ok:
  assumes "hash_ok lt hf h"
  shows "\<exists>h'. rehash mem h = Some h' \<and> hash_ok lt hf h' \<and> mset (contents h') = mset (contents h)"
proof -
  obtain k where k: "ideal_bucket_cnt (elem_count h) = Some (2 ^ k)" "k < 32"
    using ideal_bucket_cnt_ok by blast
  show ?thesis
  proof (cases "2 ^ k = bucket_cnt h \<or> \<not> mem (16 * 2 ^ k)")
    case True
    then show ?thesis using assms k by (auto simp: rehash_def Let_def)
  next
    case False
    let ?h = "h\<lparr>buckets := replicate (unat (2 ^ k :: u32)) [], bucket_cnt := 2 ^ k\<rparr>"
    have "hash_shape ?h" using k(2) by (simp add: hash_shape_def is_power_of_2_power)
    moreover have "mset (contents ?h) = {#}" by (simp add: contents_def)
    ultimately obtain h' where h': "move_elems ?h (contents h) = Some h'" "hash_shape h'" "mset (contents h') = mset (contents h)"
      "hash_fn h' = hash_fn h" "less_fn h' = less_fn h" "elem_count h' = elem_count h"
      using move_elems_ok [of ?h "contents h"] by auto
    have "rehash mem h = Some h'"
      using False k(1) h'(1) by (simp add: rehash_def Let_def move_buckets_concat contents_def)
    moreover have "hash_ok lt hf h'"
      using assms h' no_equal_mset [OF h'(3), of lt] mset_eq_length [OF h'(3)] by (simp add: hash_ok_def)
    ultimately show ?thesis using h'(3) by blast
  qed
qed

text \<open>A search of the one bucket is a search of the whole table.\<close>

lemma find_elem_ok:
  assumes ok: "hash_ok lt hf h"
  shows "case find_elem h (buckets h ! bucket_idx h e) e of None \<Rightarrow> \<forall>x \<in> elems h. \<not> same lt x e
    | Some x \<Rightarrow> x \<in> elems h \<and> same lt x e"
proof -
  from ok have fn: "hash_funcs lt hf" "less_fn h = lt" "hash_fn h = hf" "hash_shape h" by (simp_all add: hash_ok_def)
  have "x \<in> set (buckets h ! bucket_idx h e)" if "x \<in> elems h" "same lt x e" for x
  proof -
    obtain i where i: "i < length (buckets h)" "x \<in> set (buckets h ! i)"
      using \<open>x \<in> elems h\<close> unfolding elems_def contents_def by (metis UN_E in_set_conv_nth set_concat)
    then have "i = bucket_idx h x" using fn(4) by (simp add: hash_shape_def)
    also have "\<dots> = bucket_idx h e"
      using hash_funcs.same_hash [OF fn(1), of x e] that(2) fn(3) by (simp add: bucket_idx_def)
    finally show ?thesis using i by simp
  qed
  moreover have "set (buckets h ! bucket_idx h e) \<subseteq> elems h"
    using nth_mem [OF bucket_idx_less [OF fn(4), of e]] by (auto simp: elems_def contents_def)
  ultimately show ?thesis
    using fn(2) by (auto simp: find_elem_find find_None_iff find_Some_iff split: option.splits)
qed

lemma find_elem_same: "hash_ok lt hf h \<Longrightarrow> find_elem h (buckets h ! bucket_idx h e) e = Some x \<Longrightarrow>
    {y \<in> elems h. same lt y e} = {x}"
proof -
  assume ok: "hash_ok lt hf h" and x: "find_elem h (buckets h ! bucket_idx h e) e = Some x"
  have "x \<in> elems h" "same lt x e" using find_elem_ok [OF ok, of e] x by auto
  moreover have eq: "equivp (same lt)" "no_equal lt (contents h)"
    using ok by (auto simp: hash_ok_def hash_funcs.equivp_equal)
  ultimately show ?thesis
    using equivp_transp [OF eq(1), of _ e x] by (fastforce simp: no_equal_def elems_def)
qed

lemma insert_elem_ok:
  assumes ok: "hash_ok lt hf h" and new: "\<forall>x \<in> elems h. \<not> same lt x e"
  shows "hash_ok lt hf (insert_elem h (bucket_idx h e) e)" and "elems (insert_elem h (bucket_idx h e) e) = insert e (elems h)"
proof -
  let ?h = "insert_elem h (bucket_idx h e) e"
  from ok have fn: "hash_funcs lt hf" "less_fn h = lt" "hash_fn h = hf" "hash_shape h" by (simp_all add: hash_ok_def)
  have m: "mset (contents ?h) = mset (e # contents h)"
    using mset_concat_push [OF bucket_idx_less [OF fn(4), of e], of e] by (simp add: contents_def insert_elem_def)
  have "hash_shape ?h"
    using push_shape [OF fn(4), of e] by (rule hash_shape_cong [THEN iffD1, rotated 3]) (simp_all add: insert_elem_def)
  moreover have "no_equal lt (contents ?h)"
    using new ok no_equal_mset [OF m, of lt] no_equal_Cons [OF fn(1), of e "contents h"] by (simp add: hash_ok_def elems_def)
  ultimately show "hash_ok lt hf ?h"
    using ok mset_eq_length [OF m] unfolding hash_ok_def by (simp add: insert_elem_def)
  show "elems ?h = insert e (elems h)" using mset_eq_setD [OF m] by (simp add: elems_def)
qed

lemma mset_concat_remove1:
  "distinct (concat bs) \<Longrightarrow> mset (concat (map (remove1 e) bs)) = mset (concat bs) - {#e#}"
proof (induction bs)
  case (Cons b bs)
  show ?case
  proof (cases "e \<in> set b")
    case True
    then have "map (remove1 e) bs = bs"
      using Cons.prems by (intro map_idI remove1_idem) auto
    with True show ?thesis by (simp add: subset_eq_diff_conv)
  next
    case False
    have IH: "mset (concat (map (remove1 e) bs)) = mset (concat bs) - {#e#}"
      using Cons by simp
    have "mset b + (mset (concat bs) - {#e#}) = mset b + mset (concat bs) - {#e#}"
      using False by (metis diff_single_trivial diff_union_single_conv set_mset_mset union_iff)
    with IH False show ?thesis by (simp add: remove1_idem)
  qed
qed simp

lemma remove_elem_ok:
  assumes ok: "hash_ok lt hf h" and e: "e \<in> elems h"
  shows "hash_ok lt hf (remove_elem h e)" and "elems (remove_elem h e) = elems h - {e}"
    and "bucket_idx (remove_elem h e) = bucket_idx h"
proof -
  let ?h = "remove_elem h e"
  from ok have d: "distinct (contents h)" by (simp add: hash_ok_def no_equal_def)
  have m: "mset (contents ?h) = mset (remove1 e (contents h))"
    using mset_concat_remove1 [of "buckets h" e] d by (simp add: contents_def remove_elem_def)
  show elems: "elems ?h = elems h - {e}"
    using mset_eq_setD [OF m] d by (simp add: elems_def)
  show idx: "bucket_idx ?h = bucket_idx h" by (simp add: bucket_idx_def remove_elem_def fun_eq_iff)
  have "hash_shape ?h"
    using ok set_remove1_subset [of e] by (fastforce simp: hash_ok_def hash_shape_def remove_elem_def bucket_idx_def)
  moreover have "no_equal lt (contents ?h)"
    using ok elems d mset_eq_imp_distinct_iff [OF m] by (simp add: hash_ok_def no_equal_def elems_def)
  moreover have "length (contents ?h) = length (contents h) - 1" "length (contents h) \<noteq> 0"
    using mset_eq_length [OF m] e by (auto simp: length_remove1 elems_def)
  ultimately show "hash_ok lt hf ?h"
    using ok by (simp add: hash_ok_def remove_elem_def of_nat_diff Suc_le_eq)
qed

lemma hash_find_ok:
  assumes "hash_ok lt hf h"
  shows "hash_find h e = Some (find_elem h (buckets h ! bucket_idx h e) e)"
proof -
  have "hash_shape h" using assms by (simp add: hash_ok_def)
  then show ?thesis by (simp add: hash_find_def find_bucket_ok)
qed

lemma hash_insert_ok:
  assumes ok: "hash_ok lt hf h"
  shows "\<exists>h' r. hash_insert mem h e = Some (h', r) \<and> hash_find h e = Some r \<and> hash_ok lt hf h' \<and>
    elems h' = (if r = None then insert e (elems h) else elems h)"
proof -
  let ?r = "find_elem h (buckets h ! bucket_idx h e) e"
  let ?h = "if ?r = None then insert_elem h (bucket_idx h e) e else h"
  have "hash_shape h" using ok by (simp add: hash_ok_def)
  then have fb: "find_bucket h e = Some (bucket_idx h e)" by (rule find_bucket_ok)
  have h: "hash_ok lt hf ?h" "elems ?h = (if ?r = None then insert e (elems h) else elems h)"
    using insert_elem_ok [OF ok, of e] find_elem_ok [OF ok, of e] ok by (auto split: option.splits)
  obtain h' where h': "rehash mem ?h = Some h'" "hash_ok lt hf h'" "mset (contents h') = mset (contents ?h)"
    using rehash_ok [OF h(1)] by blast
  have "elems h' = elems ?h" using mset_eq_setD [OF h'(3)] by (simp add: elems_def)
  moreover have "hash_insert mem h e = Some (h', ?r)"
    using fb h'(1) by (simp add: hash_insert_def Let_def)
  ultimately show ?thesis using hash_find_ok [OF ok] h'(2) h(2) by auto
qed

lemma hash_replace_ok:
  assumes ok: "hash_ok lt hf h"
  shows "\<exists>h' r. hash_replace mem h e = Some (h', r) \<and> hash_find h e = Some r \<and> hash_ok lt hf h' \<and>
    elems h' = insert e {x \<in> elems h. \<not> same lt x e}"
proof -
  let ?r = "find_elem h (buckets h ! bucket_idx h e) e"
  define h1 where "h1 = (case ?r of None \<Rightarrow> h | Some x \<Rightarrow> remove_elem h x)"
  have "hash_shape h" using ok by (simp add: hash_ok_def)
  then have fb: "find_bucket h e = Some (bucket_idx h e)" by (rule find_bucket_ok)
  have h1: "hash_ok lt hf h1" "elems h1 = {x \<in> elems h. \<not> same lt x e}" "bucket_idx h1 = bucket_idx h"
    using ok find_elem_ok [OF ok, of e] remove_elem_ok [OF ok] find_elem_same [OF ok, of e]
    by (auto simp: h1_def split: option.splits)
  have h2: "hash_ok lt hf (insert_elem h1 (bucket_idx h e) e)" "elems (insert_elem h1 (bucket_idx h e) e) = insert e (elems h1)"
    using insert_elem_ok [OF h1(1), of e] h1(2,3) by auto
  obtain h' where h': "rehash mem (insert_elem h1 (bucket_idx h e) e) = Some h'" "hash_ok lt hf h'"
    "mset (contents h') = mset (contents (insert_elem h1 (bucket_idx h e) e))"
    using rehash_ok [OF h2(1)] by blast
  have "elems h' = insert e (elems h1)" using mset_eq_setD [OF h'(3)] h2(2) by (simp add: elems_def)
  moreover have "hash_replace mem h e = Some (h', ?r)"
    using fb h'(1) by (simp add: hash_replace_def Let_def flip: h1_def)
  ultimately show ?thesis using hash_find_ok [OF ok] h'(2) h1(2) by auto
qed

lemma hash_delete_ok:
  assumes ok: "hash_ok lt hf h"
  shows "\<exists>h' r. hash_delete mem h e = Some (h', r) \<and> hash_find h e = Some r \<and> hash_ok lt hf h' \<and>
    elems h' = {x \<in> elems h. \<not> same lt x e}"
proof -
  have "hash_shape h" using ok by (simp add: hash_ok_def)
  then have fb: "find_bucket h e = Some (bucket_idx h e)" by (rule find_bucket_ok)
  show ?thesis
  proof (cases "find_elem h (buckets h ! bucket_idx h e) e")
    case None
    then show ?thesis
      using fb ok hash_find_ok [OF ok, of e] find_elem_ok [OF ok, of e] by (auto simp: hash_delete_def)
  next
    case (Some x)
    have x: "x \<in> elems h" using find_elem_ok [OF ok, of e] Some by simp
    obtain h' where h': "rehash mem (remove_elem h x) = Some h'" "hash_ok lt hf h'" "mset (contents h') = mset (contents (remove_elem h x))"
      using rehash_ok [OF remove_elem_ok(1) [OF ok x]] by blast
    have "elems h' = elems h - {x}"
      using mset_eq_setD [OF h'(3)] remove_elem_ok(2) [OF ok x] by (simp add: elems_def)
    also have "\<dots> = {x \<in> elems h. \<not> same lt x e}"
      using find_elem_same [OF ok Some] by auto
    finally show ?thesis
      using fb Some h' hash_find_ok [OF ok, of e] by (simp add: hash_delete_def)
  qed
qed

interpretation ht: elem_table "hash_ok lt hf" elems "same lt" hash_find "hash_insert mem" "hash_replace mem" "hash_delete mem"
  for lt :: "'e \<Rightarrow> 'e \<Rightarrow> bool" and hf mem
proof
  fix h x y e assume ok: "hash_ok lt hf h"
  then have "hash_funcs lt hf" by (simp add: hash_ok_def)
  then show "equivp (same lt)" by (rule hash_funcs.equivp_equal)
  show "\<exists>r. hash_find h e = Some r \<and> (case r of None \<Rightarrow> \<forall>x \<in> elems h. \<not> same lt x e | Some x \<Rightarrow> x \<in> elems h \<and> same lt x e)"
    using hash_find_ok [OF ok] find_elem_ok [OF ok, of e] by simp
  show "x \<in> elems h \<Longrightarrow> y \<in> elems h \<Longrightarrow> same lt x y \<Longrightarrow> x = y"
    using ok by (simp add: hash_ok_def no_equal_def elems_def)
qed (rule hash_insert_ok hash_replace_ok hash_delete_ok, assumption)+

lemma concat_map_Nil [simp]: "concat (map (\<lambda>_. []) xs) = []"
  by (induction xs) auto

lemma hash_init_ok:
  assumes "hash_funcs lt hf" "mem 64" "length junk = 4"
  shows "\<exists>h. hash_init mem junk hf lt = Some h \<and> hash_ok lt hf h \<and> elems h = {}"
proof -
  have "is_power_of_2 4" using is_power_of_2_power [of 2] by simp
  then show ?thesis
    using assms by (auto simp: hash_init_def hash_clear_def hash_ok_def hash_shape_def contents_def no_equal_def elems_def)
qed

lemma hash_clear_ok:
  assumes "hash_ok lt hf h" "hash_clear h d s = (h', s')"
  shows "hash_ok lt hf h' \<and> elems h' = {} \<and> s' = (case d of None \<Rightarrow> s | Some f \<Rightarrow> fold f (contents h) s)"
proof -
  have fold: "fold (fold f) bs = fold f (concat bs)" for f :: "'a \<Rightarrow> 'b \<Rightarrow> 'b" and bs
    by (induction bs) auto
  show ?thesis
    using assms by (auto simp: hash_clear_def hash_ok_def hash_shape_def contents_def no_equal_def elems_def bucket_idx_def fold split: option.splits)
qed

section \<open>Iteration\<close>

text \<open>The elements an iterator has not visited yet.\<close>

definition pending :: "'e list list \<Rightarrow> 'e hash_iterator \<Rightarrow> 'e list" where
  "pending bs i = drop (it_pos i) (bs ! it_bucket i) @ concat (drop (Suc (it_bucket i)) bs)"

definition in_table :: "'e list list \<Rightarrow> 'e hash_iterator \<Rightarrow> bool" where
  "in_table bs i \<longleftrightarrow> it_bucket i < length bs \<and> it_pos i \<le> length (bs ! it_bucket i)"

declare next_loop.simps [simp del]

lemma next_loop_ok:
  "b < length bs \<Longrightarrow> 1 \<le> p \<Longrightarrow> p \<le> length (bs ! b) + 1 \<Longrightarrow>
   (case drop (p - 1) (bs ! b) @ concat (drop (Suc b) bs) of
      [] \<Rightarrow> it_elem (next_loop bs b p) = None
    | x # xs \<Rightarrow> it_elem (next_loop bs b p) = Some x \<and> in_table bs (next_loop bs b p) \<and> pending bs (next_loop bs b p) = xs)"
proof (induction bs b p rule: next_loop.induct)
  case (1 bs b p)
  show ?case
  proof (cases "p = length (bs ! b) + 1")
    case True
    show ?thesis
    proof (cases "Suc b < length bs")
      case False
      with True "1.prems" show ?thesis by (simp add: next_loop.simps [of bs b])
    next
      case next_b: True
      then have "concat (drop (Suc b) bs) = drop (1 - 1) (bs ! (b + 1)) @ concat (drop (Suc (b + 1)) bs)"
        by (metis Cons_nth_drop_Suc Suc_eq_plus1 concat.simps(2) diff_self_eq_0 drop0)
      moreover have "next_loop bs b p = next_loop bs (b + 1) 1"
        using True next_b by (subst next_loop.simps) simp
      moreover have "drop (p - 1) (bs ! b) = []" using True by simp
      ultimately show ?thesis using True next_b "1.prems" "1.IH" by (simp only:) simp
    qed
  next
    case False
    then have p: "p - 1 < length (bs ! b)" using "1.prems" by simp
    from False have nl: "next_loop bs b p = \<lparr>it_bucket = b, it_pos = p, it_elem = Some (bs ! b ! (p - 1))\<rparr>"
      by (simp add: next_loop.simps)
    have "drop (p - 1) (bs ! b) = bs ! b ! (p - 1) # drop p (bs ! b)"
      using Cons_nth_drop_Suc [OF p] "1.prems"(2) by simp
    with p "1.prems" nl show ?thesis by (simp add: in_table_def pending_def)
  qed
qed

lemma hash_next_ok:
  assumes "in_table (buckets h) i"
  shows "case pending (buckets h) i of [] \<Rightarrow> hash_cur (hash_next h i) = None
    | x # xs \<Rightarrow> hash_cur (hash_next h i) = Some x \<and> in_table (buckets h) (hash_next h i) \<and> pending (buckets h) (hash_next h i) = xs"
  using next_loop_ok [of "it_bucket i" "buckets h" "it_pos i + 1"] assms
  unfolding in_table_def pending_def hash_next_def hash_cur_def by simp

lemma hash_iterate:
  "in_table (buckets h) i \<Longrightarrow> pending (buckets h) i = xs \<Longrightarrow>
   (\<forall>k < length xs. hash_cur ((hash_next h ^^ Suc k) i) = Some (xs ! k)) \<and> hash_cur ((hash_next h ^^ Suc (length xs)) i) = None"
proof (induction xs arbitrary: i)
  case Nil
  then show ?case using hash_next_ok [OF Nil.prems(1)] by simp
next
  case (Cons x xs)
  have n: "hash_cur (hash_next h i) = Some x" "in_table (buckets h) (hash_next h i)" "pending (buckets h) (hash_next h i) = xs"
    using hash_next_ok [OF Cons.prems(1)] Cons.prems(2) by simp_all
  have step: "(hash_next h ^^ Suc k) i = (hash_next h ^^ k) (hash_next h i)" for k
    by (simp only: funpow_Suc_right comp_def)
  have "hash_cur ((hash_next h ^^ Suc k) i) = Some ((x # xs) ! k)" if "k < length (x # xs)" for k
    unfolding step using that n(1) Cons.IH [OF n(2,3)] by (cases k) simp_all
  moreover have "hash_cur ((hash_next h ^^ Suc (length (x # xs))) i) = None"
    unfolding step using Cons.IH [OF n(2,3)] by simp
  ultimately show ?case by blast
qed

section \<open>Properties\<close>

text \<open>
  C9: the hash table is a finite map from the classes of equal elements. An insertion returns the
  equal element that was there, if any, and keeps it; a replacement puts the new one in its place;
  a deletion leaves no equal element. Nothing else changes for later searches, whatever the hash
  function does and whether or not the table could be resized.
\<close>

theorem hash_table_map:
  assumes "hash_ok lt hf h"
  shows "(\<exists>h' r. hash_insert mem h e = Some (h', r) \<and> hash_ok lt hf h' \<and> hash_find h e = Some r \<and>
      (\<forall>x. hash_find h' x = (if same lt e x then Some (Some (case r of None \<Rightarrow> e | Some y \<Rightarrow> y)) else hash_find h x))) \<and>
    (\<exists>h' r. hash_replace mem h e = Some (h', r) \<and> hash_ok lt hf h' \<and> hash_find h e = Some r \<and>
      (\<forall>x. hash_find h' x = (if same lt e x then Some (Some e) else hash_find h x))) \<and>
    (\<exists>h' r. hash_delete mem h e = Some (h', r) \<and> hash_ok lt hf h' \<and> hash_find h e = Some r \<and>
      (\<forall>x. hash_find h' x = (if same lt e x then Some None else hash_find h x)))"
proof (intro conjI)
  obtain h' r where h': "hash_insert mem h e = Some (h', r)" "hash_ok lt hf h'" "hash_find h e = Some r"
    using ht.ins [OF assms] by blast
  with ht.find_after_ins [OF assms h'(1)] show "\<exists>h' r. hash_insert mem h e = Some (h', r) \<and> hash_ok lt hf h' \<and> hash_find h e = Some r \<and>
      (\<forall>x. hash_find h' x = (if same lt e x then Some (Some (case r of None \<Rightarrow> e | Some y \<Rightarrow> y)) else hash_find h x))"
    by (intro exI [of _ h'] exI [of _ r]) (simp split: option.splits)
next
  obtain h' r where h': "hash_replace mem h e = Some (h', r)" "hash_ok lt hf h'" "hash_find h e = Some r"
    using ht.repl [OF assms] by blast
  with ht.find_after_repl [OF assms h'(1)] show "\<exists>h' r. hash_replace mem h e = Some (h', r) \<and> hash_ok lt hf h' \<and> hash_find h e = Some r \<and>
      (\<forall>x. hash_find h' x = (if same lt e x then Some (Some e) else hash_find h x))"
    by blast
next
  obtain h' r where h': "hash_delete mem h e = Some (h', r)" "hash_ok lt hf h'" "hash_find h e = Some r"
    using ht.del [OF assms] by blast
  with ht.find_after_del [OF assms h'(1)] show "\<exists>h' r. hash_delete mem h e = Some (h', r) \<and> hash_ok lt hf h' \<and> hash_find h e = Some r \<and>
      (\<forall>x. hash_find h' x = (if same lt e x then Some None else hash_find h x))"
    by blast
qed

text \<open>A table of numbers, hashed and compared by the number.\<close>

definition small_table :: "nat hash" where
  "small_table = \<lparr>elem_count = 2, bucket_cnt = 4, buckets = [[4], [], [6], []], hash_fn = of_nat, less_fn = (<)\<rparr>"

lemma all_less_4: "(\<forall>i < Suc (Suc (Suc (Suc 0))). P i) \<longleftrightarrow> P 0 \<and> P 1 \<and> P 2 \<and> P 3"
  by (auto simp: less_Suc_eq numeral_eq_Suc)

lemma small_table_ok: "hash_ok (<) of_nat small_table"
proof -
  have "is_power_of_2 4" using is_power_of_2_power [of 2] by simp
  moreover have "hash_funcs (<) (of_nat :: nat \<Rightarrow> u32)" using hash_funcs_key [of id of_nat] by simp
  ultimately show ?thesis
    by (simp add: small_table_def hash_ok_def hash_shape_def contents_def no_equal_def bucket_idx_def all_less_4)
qed

theorem hash_table_map_witness:
  "\<exists>h' r. hash_insert (\<lambda>_. True) small_table 10 = Some (h', r) \<and> hash_ok (<) of_nat h' \<and>
     hash_find h' 10 = Some (Some (case r of None \<Rightarrow> 10 | Some y \<Rightarrow> y))"
  using hash_table_map [OF small_table_ok, of "\<lambda>_. True" 10] by auto

text \<open>
  C35: resizing terminates and keeps all elements: the search for the number of buckets ends, at the greatest power of two
  not above half the number of elements and not below four. The table gets that many buckets if there is memory for them
  and keeps its buckets otherwise.
\<close>

theorem rehash_terminates:
  assumes "hash_ok lt hf h"
  shows "\<exists>h' k. rehash mem h = Some h' \<and> hash_ok lt hf h' \<and> mset (concat (buckets h')) = mset (concat (buckets h)) \<and>
    2 ^ k \<le> max 4 (unat (elem_count h) div 2) \<and> max 4 (unat (elem_count h) div 2) < 2 ^ Suc k \<and>
    (if mem (16 * 2 ^ k) then bucket_cnt h' = 2 ^ k else h' = h)"
proof -
  obtain k where k: "ideal_bucket_cnt (elem_count h) = Some (2 ^ k)" "2 ^ k \<le> max 4 (unat (elem_count h) div 2)"
    "max 4 (unat (elem_count h) div 2) < 2 ^ Suc k"
    using ideal_bucket_cnt_ok by blast
  obtain h' where h': "rehash mem h = Some h'" "hash_ok lt hf h'" "mset (contents h') = mset (contents h)"
    using rehash_ok [OF assms] by blast
  have cnt: "move_elems g es = Some g' \<Longrightarrow> bucket_cnt g' = bucket_cnt g" for g g' :: "'a hash" and es
    by (induction es arbitrary: g) (fastforce split: bind_splits)+
  have "if mem (16 * 2 ^ k) then bucket_cnt h' = 2 ^ k else h' = h"
    using h'(1) k(1) by (auto simp: rehash_def Let_def move_buckets_concat dest!: cnt split: if_splits)
  with k h' show ?thesis by (auto simp: contents_def)
qed

text \<open>Sixteen elements in four buckets are due for a resize to eight.\<close>

definition full_table :: "nat hash" where
  "full_table = \<lparr>elem_count = 16, bucket_cnt = 4,
     buckets = [[0, 4, 8, 12], [1, 5, 9, 13], [2, 6, 10, 14], [3, 7, 11, 15]], hash_fn = of_nat, less_fn = (<)\<rparr>"

lemma full_table_ok: "hash_ok (<) of_nat full_table"
proof -
  have "is_power_of_2 4" using is_power_of_2_power [of 2] by simp
  moreover have "hash_funcs (<) (of_nat :: nat \<Rightarrow> u32)" using hash_funcs_key [of id of_nat] by simp
  ultimately show ?thesis
    by (simp add: full_table_def hash_ok_def hash_shape_def contents_def no_equal_def bucket_idx_def all_less_4)
qed

theorem rehash_terminates_witness:
  "\<exists>h'. rehash (\<lambda>_. True) full_table = Some h' \<and> bucket_cnt h' = 8 \<and> mset (concat (buckets h')) = mset (concat (buckets full_table))"
proof -
  obtain h' k where h': "rehash (\<lambda>_. True) full_table = Some h'" "mset (concat (buckets h')) = mset (concat (buckets full_table))"
    "2 ^ k \<le> (8 :: nat)" "(8 :: nat) < 2 ^ Suc k" "bucket_cnt h' = 2 ^ k"
    using rehash_terminates [OF full_table_ok, of "\<lambda>_. True"] by (auto simp: full_table_def)
  have "(2 :: nat) ^ k \<le> 2 ^ 3" "(2 :: nat) ^ 3 < 2 ^ Suc k" using h'(3,4) by simp_all
  then have "k \<le> 3" "3 < Suc k" by (simp_all only: power_increasing_iff power_strict_increasing_iff one_less_numeral_iff semiring_norm)
  then have "k = 3" by simp
  with h' show ?thesis by simp
qed

text \<open>
  An iterator visits every element of the table exactly once, bucket by bucket, and then
  returns a null pointer.
\<close>

theorem hash_iteration:
  assumes "hash_ok lt hf h"
  shows "(\<forall>k < length (concat (buckets h)). hash_cur ((hash_next h ^^ Suc k) hash_first) = Some (concat (buckets h) ! k)) \<and>
    hash_cur ((hash_next h ^^ Suc (length (concat (buckets h)))) hash_first) = None \<and> distinct (concat (buckets h))"
proof -
  have "0 < length (buckets h)" using assms bucket_idx_less [of h] by (fastforce simp: hash_ok_def)
  then have "in_table (buckets h) hash_first" "pending (buckets h) hash_first = concat (buckets h)"
    by (cases "buckets h"; simp add: in_table_def pending_def hash_first_def)+
  from hash_iterate [OF this] assms show ?thesis by (simp add: hash_ok_def no_equal_def contents_def)
qed

theorem hash_iteration_witness:
  "hash_cur ((hash_next small_table ^^ Suc 1) hash_first) = Some 6"
  using hash_iteration [OF small_table_ok] by (auto simp: small_table_def dest: spec [of _ 1])

end
