(* ===== verification/KeyTable.thy ===== *)
theory KeyTable
  imports Hash
begin

text \<open>
  Hash tables whose elements are compared and hashed by a number that a record holds (the page table of
  a process, the index of the buffer cache). The functions of the table read the records as they are
  at the time of a call; the laws here say when a table stays well formed although records change.
\<close>

definition rekey :: "('e \<Rightarrow> nat) \<Rightarrow> 'e hash \<Rightarrow> 'e hash" where
  "rekey key h = h\<lparr>hash_fn := (\<lambda>e. of_nat (key e)), less_fn := (\<lambda>a b. key a < key b)\<rparr>"

definition keyed :: "('e \<Rightarrow> nat) \<Rightarrow> 'e hash \<Rightarrow> bool" where
  "keyed key h \<longleftrightarrow> hash_ok (\<lambda>a b. key a < key b) (\<lambda>e. of_nat (key e)) (rekey key h)"

interpretation kf: hash_funcs "\<lambda>a b. key a < (key b :: nat)" "\<lambda>e. of_nat (key e)" for key
  by (rule hash_funcs_key)

lemma rekey_simps [simp]:
  "buckets (rekey key h) = buckets h" "bucket_cnt (rekey key h) = bucket_cnt h" "elem_count (rekey key h) = elem_count h"
  "contents (rekey key h) = contents h" "elems (rekey key h) = elems h" "rekey key (rekey key' h) = rekey key h"
  by (simp_all add: rekey_def contents_def elems_def)

lemma rekey_same: "hash_ok (\<lambda>a b. key a < key b) (\<lambda>e. of_nat (key e)) h \<Longrightarrow> rekey key h = h"
  by (simp add: rekey_def hash_ok_def)

text \<open>Only the numbers of elements matter.\<close>

lemma keyed_cong:
  assumes "keyed key h" "\<And>e. e \<in> elems h \<Longrightarrow> key' e = key e"
  shows "keyed key' h"
proof -
  have "set (buckets h ! i) \<subseteq> elems h" if "i < length (buckets h)" for i
    using nth_mem [OF that] by (auto simp: elems_def contents_def)
  then have "hash_shape (rekey key' h)"
    using assms by (fastforce simp: keyed_def hash_ok_def hash_shape_def bucket_idx_def rekey_def)
  moreover have "no_equal (\<lambda>a b. key' a < key' b) (contents h)"
    using assms by (simp add: keyed_def hash_ok_def no_equal_def elems_def)
  ultimately show ?thesis
    using assms(1) kf.hash_funcs_axioms by (simp add: keyed_def hash_ok_def) (simp add: rekey_def)
qed

lemma keyed_unique: "keyed key h \<Longrightarrow> a \<in> elems h \<Longrightarrow> b \<in> elems h \<Longrightarrow> key a = key b \<Longrightarrow> a = b"
  using ht.unique [of "\<lambda>a b. key a < key b" "\<lambda>e. of_nat (key e)" "rekey key h" a b] by (simp add: keyed_def)

text \<open>Searching with a probe outside the table that carries the number \<open>n\<close>.\<close>

lemma keyed_find:
  assumes "keyed key h" "tmp \<notin> elems h"
  shows "\<exists>r. hash_find (rekey (key(tmp := n)) h) tmp = Some r \<and>
    (case r of None \<Rightarrow> \<forall>e \<in> elems h. key e \<noteq> n | Some e \<Rightarrow> e \<in> elems h \<and> key e = n)"
proof -
  have eq: "(key(tmp := n)) e = key e" if "e \<in> elems h" for e using that assms(2) by auto
  then have "keyed (key(tmp := n)) h" by (intro keyed_cong [OF assms(1)])
  from ht.find [OF this [unfolded keyed_def], of tmp] obtain r where
    r: "hash_find (rekey (key(tmp := n)) h) tmp = Some r"
    "case r of None \<Rightarrow> \<forall>x \<in> elems h. \<not> same (\<lambda>a b. (key(tmp := n)) a < (key(tmp := n)) b) x tmp
       | Some x \<Rightarrow> x \<in> elems h \<and> same (\<lambda>a b. (key(tmp := n)) a < (key(tmp := n)) b) x tmp"
    unfolding rekey_simps by blast
  then show ?thesis using eq by (intro exI [of _ r]) (auto split: option.splits)
qed

lemma keyed_insert:
  assumes "keyed key h" "\<forall>x \<in> elems h. key x \<noteq> key e"
  shows "\<exists>h'. hash_insert mem (rekey key h) e = Some (h', None) \<and> keyed key h' \<and> elems h' = insert e (elems h)"
proof -
  note ok = assms(1) [unfolded keyed_def]
  have "hash_find (rekey key h) e = Some None" using ht.find_None [OF ok, of e] assms(2) by auto
  with ht.ins [OF ok, of mem e] obtain h' where h': "hash_insert mem (rekey key h) e = Some (h', None)"
    "hash_ok (\<lambda>a b. key a < key b) (\<lambda>e. of_nat (key e)) h'" "elems h' = insert e (elems h)"
    by auto
  then show ?thesis using rekey_same [OF h'(2)] by (simp add: keyed_def)
qed

lemma keyed_delete:
  assumes "keyed key h" "e \<in> elems h"
  shows "\<exists>h'. hash_delete mem (rekey key h) e = Some (h', Some e) \<and> keyed key h' \<and> elems h' = elems h - {e}"
proof -
  note ok = assms(1) [unfolded keyed_def]
  have "hash_find (rekey key h) e = Some (Some e)" using ht.find_iff [OF ok, of e e] assms(2) by simp
  with ht.del [OF ok, of mem e] obtain h' where h': "hash_delete mem (rekey key h) e = Some (h', Some e)"
    "hash_ok (\<lambda>a b. key a < key b) (\<lambda>e. of_nat (key e)) h'" "elems h' = {x \<in> elems h. \<not> same (\<lambda>a b. key a < key b) x e}"
    by auto
  have "elems h' = elems h - {e}" using h'(3) keyed_unique [OF assms(1)] assms(2) by auto
  then show ?thesis using h' rekey_same [OF h'(2)] by (simp add: keyed_def)
qed

end
