(* ===== verification/SupplTable.thy ===== *)
theory SupplTable
  imports PageDir KeyTable
begin

text \<open>
  The supplemental page table of a process: the records of \<^verbatim>\<open>src/Project5/src/vm/supplemental_page.c\<close> and
  \<^verbatim>\<open>file_mapping.h\<close>, and the operations that find and register them. A record is known by its address;
  the hash table holds addresses, and its two functions read the records.
\<close>

section \<open>Records\<close>

datatype suppl_page_location = PG_LOCATION_UNKNOWN | PG_LOCATION_RAM | PG_LOCATION_SWAP | PG_LOCATION_FILE

record file_mapping =
  fl :: ptr
  offset :: nat
  file_size :: nat
  start_vaddr :: nat
  writable :: bool
  fl_writable :: bool

text \<open>\<^verbatim>\<open>SWAP_NO_PAGE\<close> is \<^term>\<open>None\<close>.\<close>

record suppl_page =
  vaddr :: nat
  kaddr :: nat
  saddr :: "nat option"
  pagedir :: ptr
  mapping :: ptr
  location :: suppl_page_location
  dirty :: bool
  accessed :: bool

type_synonym page_heap = "ptr \<Rightarrow> suppl_page"

definition pages_map_hash :: "page_heap \<Rightarrow> ptr \<Rightarrow> u32" where
  "pages_map_hash sp e = of_nat (vaddr (sp e))"

definition pages_map_less :: "page_heap \<Rightarrow> ptr \<Rightarrow> ptr \<Rightarrow> bool" where
  "pages_map_less sp a b \<longleftrightarrow> vaddr (sp a) < vaddr (sp b)"

definition suppl_page_init :: "ptr \<Rightarrow> suppl_page \<Rightarrow> suppl_page" where
  "suppl_page_init pd page = page\<lparr>kaddr := 0, saddr := None, pagedir := pd, mapping := NULL,
     location := PG_LOCATION_UNKNOWN, dirty := False, accessed := False\<rparr>"

text \<open>\<open>new\<close> is the address \<^verbatim>\<open>malloc\<close> returns, null when it fails.\<close>

definition suppl_page_new :: "ptr \<Rightarrow> ptr \<Rightarrow> page_heap \<Rightarrow> page_heap" where
  "suppl_page_new new pd sp = (if new = NULL then sp else sp(new := suppl_page_init pd (sp new)))"

section \<open>The table\<close>

text \<open>The functions of the table read the records as they are at the time of the call.\<close>

definition pages_map :: "page_heap \<Rightarrow> ptr hash \<Rightarrow> ptr hash" where
  "pages_map sp h = h\<lparr>hash_fn := pages_map_hash sp, less_fn := pages_map_less sp\<rparr>"

definition suppl_pt_init :: "(u32 \<Rightarrow> bool) \<Rightarrow> ptr list list \<Rightarrow> page_heap \<Rightarrow> ptr hash option" where
  "suppl_pt_init mem junk sp = hash_init mem junk (pages_map_hash sp) (pages_map_less sp)"

text \<open>\<open>tmp\<close> is the address of the local variable of that name.\<close>

definition suppl_pt_lookup :: "ptr \<Rightarrow> page_heap \<Rightarrow> ptr hash \<Rightarrow> nat \<Rightarrow> ptr option" where
  "suppl_pt_lookup tmp sp pt va = do {
     let sp = sp(tmp := (sp tmp)\<lparr>vaddr := pg_round_down va\<rparr>);
     elem \<leftarrow> hash_find (pages_map sp pt) tmp;
     Some (case elem of None \<Rightarrow> NULL | Some e \<Rightarrow> e) }"

definition suppl_table_set_file_mapping ::
    "(u32 \<Rightarrow> bool) \<Rightarrow> ptr \<Rightarrow> ptr \<Rightarrow> nat \<Rightarrow> ptr \<Rightarrow> page_heap \<Rightarrow> ptr hash \<Rightarrow> (page_heap \<times> ptr hash \<times> bool) option" where
  "suppl_table_set_file_mapping mem new pd upage mp sp pt = do {
     let upage = pg_round_down upage;
     ASSERT (pg_ofs upage = 0);
     ASSERT (mp \<noteq> NULL);
     let sp = suppl_page_new new pd sp;
     if new = NULL then Some (sp, pt, False)
     else do {
       let sp = sp(new := (sp new)\<lparr>vaddr := upage, mapping := mp, location := PG_LOCATION_FILE\<rparr>);
       (pt, _) \<leftarrow> hash_insert mem (pages_map sp pt) new;
       Some (sp, pt, True) } }"

section \<open>The table is a map from pages\<close>

lemma pages_map_rekey: "pages_map sp h = rekey (\<lambda>e. vaddr (sp e)) h"
  by (simp add: pages_map_def rekey_def pages_map_hash_def [abs_def] pages_map_less_def [abs_def])

definition table_ok :: "page_heap \<Rightarrow> ptr hash \<Rightarrow> bool" where
  "table_ok sp pt \<longleftrightarrow> keyed (\<lambda>e. vaddr (sp e)) pt \<and> NULL \<notin> elems pt"

text \<open>Changing records outside the table does not disturb it.\<close>

lemma table_ok_cong: "table_ok sp pt \<Longrightarrow> (\<And>e. e \<in> elems pt \<Longrightarrow> vaddr (sp' e) = vaddr (sp e)) \<Longrightarrow> table_ok sp' pt"
  by (auto simp: table_ok_def intro: keyed_cong)

lemma table_unique: "table_ok sp pt \<Longrightarrow> a \<in> elems pt \<Longrightarrow> b \<in> elems pt \<Longrightarrow> vaddr (sp a) = vaddr (sp b) \<Longrightarrow> a = b"
  using keyed_unique [of "\<lambda>e. vaddr (sp e)"] by (auto simp: table_ok_def)

lemma lookup_ok:
  assumes "table_ok sp pt" "tmp \<notin> elems pt"
  shows "\<exists>r. suppl_pt_lookup tmp sp pt a = Some r \<and>
    (if r = NULL then \<forall>e \<in> elems pt. vaddr (sp e) \<noteq> pg_round_down a else r \<in> elems pt \<and> vaddr (sp r) = pg_round_down a)"
proof -
  have key: "(\<lambda>e. vaddr ((sp(tmp := (sp tmp)\<lparr>vaddr := pg_round_down a\<rparr>)) e)) = (\<lambda>e. vaddr (sp e))(tmp := pg_round_down a)" by auto
  obtain r where r: "hash_find (pages_map (sp(tmp := (sp tmp)\<lparr>vaddr := pg_round_down a\<rparr>)) pt) tmp = Some r"
    "case r of None \<Rightarrow> \<forall>e \<in> elems pt. vaddr (sp e) \<noteq> pg_round_down a | Some e \<Rightarrow> e \<in> elems pt \<and> vaddr (sp e) = pg_round_down a"
    using keyed_find [of "\<lambda>e. vaddr (sp e)" pt tmp "pg_round_down a"] assms unfolding pages_map_rekey key table_ok_def by (elim conjE) blast
  moreover have "e \<noteq> NULL" if "r = Some e" for e
  proof -
    have "e \<in> elems pt" "NULL \<notin> elems pt" using r(2) that assms(1) by (simp_all add: table_ok_def)
    then show ?thesis by metis
  qed
  ultimately show ?thesis
    by (intro exI [of _ "case r of None \<Rightarrow> NULL | Some e \<Rightarrow> e"]) (auto simp: suppl_pt_lookup_def Let_def split: option.splits)
qed

lemma lookup_eqI:
  assumes "table_ok sp pt" "tmp \<notin> elems pt" "table_ok sp' pt'" "tmp \<notin> elems pt'"
    "\<And>e. e \<in> elems pt' \<and> vaddr (sp' e) = pg_round_down a \<longleftrightarrow> e \<in> elems pt \<and> vaddr (sp e) = pg_round_down a"
  shows "suppl_pt_lookup tmp sp' pt' a = suppl_pt_lookup tmp sp pt a"
proof -
  obtain r where r: "suppl_pt_lookup tmp sp pt a = Some r"
    "if r = NULL then \<forall>e \<in> elems pt. vaddr (sp e) \<noteq> pg_round_down a else r \<in> elems pt \<and> vaddr (sp r) = pg_round_down a"
    using lookup_ok [OF assms(1,2), of a] by blast
  obtain r' where r': "suppl_pt_lookup tmp sp' pt' a = Some r'"
    "if r' = NULL then \<forall>e \<in> elems pt'. vaddr (sp' e) \<noteq> pg_round_down a else r' \<in> elems pt' \<and> vaddr (sp' r') = pg_round_down a"
    using lookup_ok [OF assms(3,4), of a] by blast
  have "r = r'"
  proof (cases "r = NULL \<or> r' = NULL")
    case True
    with r(2) r'(2) assms(5) show ?thesis by (auto split: if_splits)
  next
    case False
    then have "r \<in> elems pt" "r' \<in> elems pt" "vaddr (sp r) = vaddr (sp r')"
      using r(2) r'(2) assms(5) by auto
    then show ?thesis by (rule table_unique [OF assms(1)])
  qed
  with r(1) r'(1) show ?thesis by simp
qed

section \<open>Properties\<close>

text \<open>
  C40: after a page has been mapped to a file, looking up any address of the page finds the new
  record, and looking up any other address finds what it found before.
\<close>

theorem mapping_lookup:
  assumes "table_ok sp pt" "new \<noteq> NULL" "mp \<noteq> NULL" "new \<notin> elems pt" "tmp \<notin> elems pt" "tmp \<noteq> new"
    "\<forall>e \<in> elems pt. vaddr (sp e) \<noteq> pg_round_down upage"
  shows "\<exists>sp' pt'. suppl_table_set_file_mapping mem new pd upage mp sp pt = Some (sp', pt', True) \<and> table_ok sp' pt' \<and>
    mapping (sp' new) = mp \<and> location (sp' new) = PG_LOCATION_FILE \<and>
    (\<forall>a. suppl_pt_lookup tmp sp' pt' a = (if pg_round_down a = pg_round_down upage then Some new else suppl_pt_lookup tmp sp pt a))"
proof -
  define sp' where "sp' = sp(new := (suppl_page_init pd (sp new))\<lparr>vaddr := pg_round_down upage, mapping := mp, location := PG_LOCATION_FILE\<rparr>)"
  have old: "sp' e = sp e" if "e \<in> elems pt" for e using that assms(4) by (auto simp: sp'_def)
  have v: "vaddr (sp' new) = pg_round_down upage" by (simp add: sp'_def)
  have ok: "table_ok sp' pt" by (rule table_ok_cong [OF assms(1)]) (simp add: old)
  have "\<forall>x \<in> elems pt. vaddr (sp' x) \<noteq> vaddr (sp' new)" using assms(7) old v by simp
  with ok obtain pt' where pt': "hash_insert mem (pages_map sp' pt) new = Some (pt', None)"
    "keyed (\<lambda>e. vaddr (sp' e)) pt'" "elems pt' = insert new (elems pt)"
    unfolding pages_map_rekey table_ok_def using keyed_insert [of "\<lambda>e. vaddr (sp' e)" pt new mem] by blast
  have ok': "table_ok sp' pt'" using pt'(2,3) ok assms(2) by (simp add: table_ok_def)
  have tmp: "tmp \<notin> elems pt'" using pt'(3) assms(5,6) by simp
  have "pg_ofs (pg_round_down upage) = 0"
    by (simp add: pg_ofs_mod pg_round_down_def push_bit_eq_mult PGBITS_def)
  then have run: "suppl_table_set_file_mapping mem new pd upage mp sp pt = Some (sp', pt', True)"
    using assms(2,3) pt'(1) by (simp add: suppl_table_set_file_mapping_def suppl_page_new_def Let_def sp'_def)
  have "suppl_pt_lookup tmp sp' pt' a = (if pg_round_down a = pg_round_down upage then Some new else suppl_pt_lookup tmp sp pt a)" for a
  proof (cases "pg_round_down a = pg_round_down upage")
    case True
    obtain r where r: "suppl_pt_lookup tmp sp' pt' a = Some r"
      "if r = NULL then \<forall>e \<in> elems pt'. vaddr (sp' e) \<noteq> pg_round_down a else r \<in> elems pt' \<and> vaddr (sp' r) = pg_round_down a"
      using lookup_ok [OF ok' tmp, of a] by blast
    then have "r = new" using True v pt'(3) assms(7) old by (auto split: if_splits)
    with r True show ?thesis by simp
  next
    case False
    then have "e \<in> elems pt' \<and> vaddr (sp' e) = pg_round_down a \<longleftrightarrow> e \<in> elems pt \<and> vaddr (sp e) = pg_round_down a" for e
      using pt'(3) v old assms(4) by auto
    from lookup_eqI [OF assms(1,5) ok' tmp this] False show ?thesis by simp
  qed
  with run ok' show ?thesis by (auto simp: sp'_def)
qed

text \<open>An empty table.\<close>

definition empty_table :: "ptr hash" where
  "empty_table = \<lparr>elem_count = 0, bucket_cnt = 4, buckets = [[], [], [], []], hash_fn = (\<lambda>_. 0), less_fn = (\<lambda>_ _. False)\<rparr>"

definition no_pages :: page_heap where
  "no_pages = (\<lambda>_. \<lparr>vaddr = 0, kaddr = 0, saddr = None, pagedir = NULL, mapping = NULL, location = PG_LOCATION_UNKNOWN, dirty = False, accessed = False\<rparr>)"

lemma empty_table_ok: "table_ok no_pages empty_table" "elems empty_table = {}"
proof -
  have p: "is_power_of_2 4" using is_power_of_2_power [of 2] by simp
  then have "hash_shape (rekey key empty_table)" for key
    by (simp add: hash_shape_def empty_table_def all_less_4)
  then show "table_ok no_pages empty_table"
    using kf.hash_funcs_axioms by (simp add: table_ok_def keyed_def hash_ok_def no_equal_def) (simp add: rekey_def contents_def elems_def empty_table_def)
  show "elems empty_table = {}" by (simp add: elems_def contents_def empty_table_def)
qed

theorem mapping_lookup_witness:
  "\<exists>sp' pt'. suppl_table_set_file_mapping (\<lambda>_. True) 500 900 0x8048123 700 no_pages empty_table = Some (sp', pt', True) \<and>
     suppl_pt_lookup 300 sp' pt' 0x8048fff = Some 500"
proof -
  have "pg_round_down 0x8048fff = pg_round_down 0x8048123"
    by (simp add: pg_round_down_def PGBITS_def push_bit_eq_mult drop_bit_eq_div)
  then show ?thesis
    using mapping_lookup [OF empty_table_ok(1), where new = 500 and mp = 700 and tmp = 300 and upage = "0x8048123" and mem = "\<lambda>_. True" and pd = 900]
    by (fastforce simp: empty_table_ok(2))
qed

end
