(* ===== verification/Paging.thy ===== *)
theory Paging
  imports SupplTable
begin

unbundle bit_operations_syntax

text \<open>
  The paging policy: \<^verbatim>\<open>src/Project5/src/vm/vm_util.c\<close> (the list of pages in memory, the clock that
  chooses a page to evict, restoring a page from swap) and the operations of
  \<^verbatim>\<open>supplemental_page.c\<close> that move pages. The state joins the page tables and memory of theory
  \<^verbatim>\<open>PageDir\<close>, the swap partition, and the records of theory \<^verbatim>\<open>SupplTable\<close>. The lock around eviction
  makes each operation a critical section. What a read or write of a file does to the files is
  given by two functions, since the file system is another part of the kernel.
\<close>

section \<open>State\<close>

record 'f vm =
  vm_mmu :: mmu
  swap_dev :: swap
  spages :: page_heap
  fmaps :: "ptr \<Rightarrow> file_mapping"
  page_list :: "ptr list"
  page_elem :: ptr
  files :: 'f

text \<open>\<open>file_read_at fl ofs n\<close> and \<open>file_write_at fl ofs bytes\<close>: a seek followed by a read or a write.\<close>

record 'f file_io =
  file_read_at :: "ptr \<Rightarrow> nat \<Rightarrow> nat \<Rightarrow> 'f \<Rightarrow> u8 list"
  file_write_at :: "ptr \<Rightarrow> nat \<Rightarrow> u8 list \<Rightarrow> 'f \<Rightarrow> 'f \<times> nat"

definition upd_page :: "ptr \<Rightarrow> (suppl_page \<Rightarrow> suppl_page) \<Rightarrow> 'f vm \<Rightarrow> 'f vm" where
  "upd_page p f v = v\<lparr>spages := (spages v)(p := f (spages v p))\<rparr>"

definition set_frames :: "palloc \<Rightarrow> 'f vm \<Rightarrow> 'f vm" where
  "set_frames f v = v\<lparr>vm_mmu := (vm_mmu v)\<lparr>frames := f\<rparr>\<rparr>"

text \<open>A transfer between memory and the swap device.\<close>

definition on_swap :: "(swap \<Rightarrow> swap option) \<Rightarrow> 'f vm \<Rightarrow> 'f vm option" where
  "on_swap f v = do {
     s \<leftarrow> f ((swap_dev v)\<lparr>ram := memory (frames (vm_mmu v))\<rparr>);
     Some (set_frames ((frames (vm_mmu v))\<lparr>memory := ram s\<rparr>) (v\<lparr>swap_dev := s\<rparr>)) }"

definition alloc_frame :: "'f vm \<Rightarrow> ('f vm \<times> ptr) option" where
  "alloc_frame v = do {
     (f, k) \<leftarrow> palloc_get_page (PAL_USER OR PAL_ZERO) (frames (vm_mmu v));
     Some (set_frames f v, k) }"

definition free_frame :: "ptr \<Rightarrow> 'f vm \<Rightarrow> 'f vm option" where
  "free_frame k v = do { f \<leftarrow> palloc_free_page k (frames (vm_mmu v)); Some (set_frames f v) }"

text \<open>
  Writing through a user address: the processor translates it by the active page directory and marks
  the entry as accessed and dirty. The result is the kernel address behind it.
\<close>

definition user_write :: "nat \<Rightarrow> 'f vm \<Rightarrow> ('f vm \<times> ptr) option" where
  "user_write va v = do {
     pd \<leftarrow> active_pd (vm_mmu v);
     k \<leftarrow> pagedir_get_page pd va (vm_mmu v);
     ASSERT (k \<noteq> NULL);
     s \<leftarrow> pagedir_set_accessed pd va True (vm_mmu v);
     s \<leftarrow> pagedir_set_dirty pd va True s;
     Some (v\<lparr>vm_mmu := s\<rparr>, k) }"

section \<open>Registration\<close>

text \<open>The element after \<open>p\<close>; null stands for the end of the list.\<close>

definition next_of :: "ptr list \<Rightarrow> ptr \<Rightarrow> ptr" where
  "next_of xs p = (case dropWhile (\<lambda>q. q \<noteq> p) xs of _ # q # _ \<Rightarrow> q | _ \<Rightarrow> NULL)"

definition vm_util_init :: "'f vm \<Rightarrow> 'f vm" where
  "vm_util_init v = v\<lparr>page_list := [], page_elem := NULL\<rparr>"

definition undo_suppl_page_registration :: "ptr \<Rightarrow> 'f vm \<Rightarrow> 'f vm" where
  "undo_suppl_page_registration p v =
     (let v = (if p = page_elem v then v\<lparr>page_elem := next_of (page_list v) p\<rparr> else v)
      in if kaddr (spages v p) \<noteq> 0 then v\<lparr>page_list := remove1 p (page_list v)\<rparr> else v)"

definition register_suppl_page :: "ptr \<Rightarrow> 'f vm \<Rightarrow> 'f vm" where
  "register_suppl_page p v = (if kaddr (spages v p) \<noteq> 0 then v\<lparr>page_list := p # page_list v\<rparr> else v)"

definition VM_STACK_END :: nat where "VM_STACK_END = PHYS_BASE - 1024 * 1024 * 8"

definition addr_in_stack_range :: "nat \<Rightarrow> bool" where
  "addr_in_stack_range addr \<longleftrightarrow> is_user_vaddr addr \<and> addr \<ge> VM_STACK_END"

definition stack_grow_needed :: "nat \<Rightarrow> nat \<Rightarrow> bool" where
  "stack_grow_needed addr esp \<longleftrightarrow> addr_in_stack_range addr \<and> addr \<ge> (esp + 2 ^ 32 - 128) mod 2 ^ 32"

section \<open>The state of a page\<close>

definition suppl_page_dirty :: "ptr \<Rightarrow> 'f vm \<Rightarrow> ('f vm \<times> bool) option" where
  "suppl_page_dirty p v = (let page = spages v p in
     if dirty page then Some (v, True)
     else if kaddr page \<noteq> 0 then do {
       b \<leftarrow> pagedir_is_dirty (pagedir page) (vaddr page) (vm_mmu v);
       Some (upd_page p (dirty_update (\<lambda>_. b)) v, b) }
     else Some (v, False))"

definition suppl_page_accessed :: "ptr \<Rightarrow> 'f vm \<Rightarrow> ('f vm \<times> bool) option" where
  "suppl_page_accessed p v = (let page = spages v p in
     if accessed page then Some (v, True)
     else if kaddr page \<noteq> 0 then do {
       b \<leftarrow> pagedir_is_accessed (pagedir page) (vaddr page) (vm_mmu v);
       Some (upd_page p (accessed_update (\<lambda>_. b)) v, b) }
     else Some (v, False))"

text \<open>The part of a page that is written to a file: the local variables \<^verbatim>\<open>start\<close> and \<^verbatim>\<open>end\<close>.\<close>

definition range_start :: "suppl_page \<Rightarrow> file_mapping \<Rightarrow> nat" where
  "range_start page m = (if vaddr page < start_vaddr m then start_vaddr m else vaddr page)"

definition range_end :: "suppl_page \<Rightarrow> file_mapping \<Rightarrow> nat" where
  "range_end page m = (let file_end = (start_vaddr m + file_size m + 2 ^ 32 - offset m) mod 2 ^ 32
     in if vaddr page + PGSIZE > file_end then file_end else vaddr page + PGSIZE)"

text \<open>
  The common part of \<^verbatim>\<open>suppl_page_load_to_file\<close>: \<open>setk\<close> makes the page present (during an eviction it
  only checks that it is), \<open>reg\<close> registers it afterwards.
\<close>

definition load_to_file :: "'f file_io \<Rightarrow> ('f vm \<Rightarrow> ('f vm \<times> bool) option) \<Rightarrow> bool \<Rightarrow> ptr \<Rightarrow> 'f vm \<Rightarrow> ('f vm \<times> bool) option" where
  "load_to_file io setk reg p v =
     (if p = NULL \<or> mapping (spages v p) = NULL \<or> fl (fmaps v (mapping (spages v p))) = NULL then Some (v, False)
      else do {
        (v, d) \<leftarrow> suppl_page_dirty p v;
        let m = fmaps v (mapping (spages v p));
        if \<not> d then Some (v, True)
        else if \<not> fl_writable m then Some (v, True)
        else do {
          (v, ok) \<leftarrow> setk v;
          if \<not> ok then Some (v, False)
          else do {
            let page = spages v p;
            let start = range_start page m;
            let end = range_end page m;
            if start < end then do {
              let k = pg_round_down (kaddr page) + (start - vaddr page);
              let (fs, n) = file_write_at io (fl m) (start - start_vaddr m)
                (map (memory (frames (vm_mmu v))) [k..<k + (end - start)]) (files v);
              let v = v\<lparr>files := fs\<rparr>;
              Some (if reg then register_suppl_page p v else v, n = end - start) }
            else Some (if reg then register_suppl_page p v else v, True) } } })"

section \<open>Eviction\<close>

text \<open>\<^verbatim>\<open>EVICTION_EVICT_PAGE\<close>: the page loses its frame and leaves the list; the hand moves on.\<close>

definition evict_frame :: "ptr \<Rightarrow> 'f vm \<Rightarrow> ('f vm \<times> bool) option" where
  "evict_frame p v = do {
     let page = spages v p;
     let v = upd_page p (kaddr_update (\<lambda>_. 0)) v;
     s \<leftarrow> pagedir_clear_page (pagedir page) (vaddr page) (vm_mmu v);
     v \<leftarrow> free_frame (kaddr page) (v\<lparr>vm_mmu := s\<rparr>);
     let v = v\<lparr>page_elem := next_of (page_list v) (page_elem v)\<rparr>;
     Some (v\<lparr>page_list := remove1 p (page_list v)\<rparr>, True) }"

text \<open>\<^verbatim>\<open>EVICTION_MOVE_TO_SWAP\<close>.\<close>

definition move_to_swap :: "ptr \<Rightarrow> 'f vm \<Rightarrow> ('f vm \<times> bool) option" where
  "move_to_swap p v = do {
     (s, spage) \<leftarrow> swap_get_page (swap_dev v);
     let v = v\<lparr>swap_dev := s\<rparr>;
     case spage of None \<Rightarrow> Some (v, False)
     | Some spage \<Rightarrow> do {
         v \<leftarrow> on_swap (swap_load_page_to_swap spage (kaddr (spages v p))) v;
         Some (upd_page p (\<lambda>r. r\<lparr>saddr := Some spage, location := PG_LOCATION_SWAP\<rparr>) v, True) } }"

definition evict_not_modified :: "ptr \<Rightarrow> 'f vm \<Rightarrow> ('f vm \<times> bool) option" where
  "evict_not_modified p v = (let page = spages v p in
     if mapping page \<noteq> NULL \<and> writable (fmaps v (mapping page))
     then evict_frame p (upd_page p (location_update (\<lambda>_. PG_LOCATION_FILE)) v)
     else do {
       (v, ok) \<leftarrow> move_to_swap p v;
       if ok then evict_frame p v else Some (v, False) })"

definition evict_modified :: "'f file_io \<Rightarrow> ptr \<Rightarrow> 'f vm \<Rightarrow> ('f vm \<times> bool) option" where
  "evict_modified io p v = (let page = spages v p in
     if mapping page \<noteq> NULL \<and> fl_writable (fmaps v (mapping page)) \<and> writable (fmaps v (mapping page))
     then do {
       (v, _) \<leftarrow> load_to_file io (\<lambda>v. Some (v, kaddr (spages v p) \<noteq> 0)) False p v;
       evict_frame p (upd_page p (location_update (\<lambda>_. PG_LOCATION_FILE)) v) }
     else do {
       (v, ok) \<leftarrow> move_to_swap p v;
       if ok then evict_frame p v else Some (v, False) })"

text \<open>The test of the first, second and third round of the clock.\<close>

datatype round = Clean | Unreferenced | Unmodified

fun round_test :: "round \<Rightarrow> ptr \<Rightarrow> 'f vm \<Rightarrow> ('f vm \<times> bool) option" where
  "round_test Clean p v = do {
     (v, modified) \<leftarrow> suppl_page_dirty p v;
     (v, referenced) \<leftarrow> suppl_page_accessed p v;
     Some (v, \<not> referenced \<and> \<not> modified) }"
| "round_test Unreferenced p v = do {
     (v, modified) \<leftarrow> suppl_page_dirty p v;
     (v, referenced) \<leftarrow> suppl_page_accessed p v;
     Some (v, \<not> referenced \<and> modified) }"
| "round_test Unmodified p v = do {
     (v, modified) \<leftarrow> suppl_page_dirty p v;
     Some (v, \<not> modified) }"

text \<open>\<^verbatim>\<open>EVICTION_MOVE_TO_NEXT\<close>, without its exit.\<close>

definition move_hand :: "'f vm \<Rightarrow> 'f vm" where
  "move_hand v = (let n = next_of (page_list v) (page_elem v)
     in v\<lparr>page_elem := (if n = NULL then hd (page_list v) else n)\<rparr>)"

partial_function (option) clock_round :: "round \<Rightarrow> ptr \<Rightarrow> 'f vm \<Rightarrow> ('f vm \<times> bool) option" where
  "clock_round r terminal v = do {
     ASSERT (page_elem v \<noteq> NULL);
     (v, hit) \<leftarrow> round_test r (page_elem v) v;
     if hit then Some (v, True)
     else do {
       let v = move_hand v;
       if page_elem v = terminal then Some (v, False) else clock_round r terminal v } }"

definition evict_page :: "'f file_io \<Rightarrow> 'f vm \<Rightarrow> ('f vm \<times> bool) option" where
  "evict_page io v =
     (if page_list v = [] then Some (v, False)
      else do {
        let v = (if page_elem v = NULL then v\<lparr>page_elem := hd (page_list v)\<rparr> else v);
        let terminal = page_elem v;
        (v, hit) \<leftarrow> clock_round Clean terminal v;
        if hit then evict_not_modified (page_elem v) v
        else do {
          (v, hit) \<leftarrow> clock_round Unreferenced terminal v;
          if hit then evict_modified io (page_elem v) v
          else do {
            (v, hit) \<leftarrow> clock_round Unmodified terminal v;
            if hit then evict_not_modified (page_elem v) v
            else evict_modified io (page_elem v) v } } })"

definition evict_and_get_kaddr :: "'f file_io \<Rightarrow> 'f vm \<Rightarrow> ('f vm \<times> ptr) option" where
  "evict_and_get_kaddr io v = do {
     (v, ok) \<leftarrow> evict_page io v;
     if \<not> ok then Some (v, NULL) else alloc_frame v }"

section \<open>Bringing pages in\<close>

text \<open>The page must belong to the process that runs, since it is filled through its user address.\<close>

definition restore_page_from_swap :: "'f file_io \<Rightarrow> ptr \<Rightarrow> bool \<Rightarrow> 'f vm \<Rightarrow> ('f vm \<times> bool) option" where
  "restore_page_from_swap io p reg_page v = do {
     let page = spages v p;
     ASSERT (location page = PG_LOCATION_SWAP);
     spage \<leftarrow> saddr page;
     (v, kpg) \<leftarrow> alloc_frame v;
     (v, kpg) \<leftarrow> (if kpg = NULL then evict_and_get_kaddr io v else Some (v, kpg));
     if kpg = NULL then Some (v, False)
     else do {
       (s, ok) \<leftarrow> pagedir_set_page (pagedir page) (vaddr page) kpg True (vm_mmu v);
       let v = v\<lparr>vm_mmu := s\<rparr>;
       if \<not> ok then do { v \<leftarrow> free_frame kpg v; Some (v, False) }
       else do {
         (v, addr) \<leftarrow> user_write (vaddr page) v;
         v \<leftarrow> on_swap (swap_load_page_to_ram spage addr) v;
         v \<leftarrow> on_swap (swap_free_page spage) v;
         let v = upd_page p (\<lambda>r. r\<lparr>saddr := None, kaddr := kpg, location := PG_LOCATION_RAM\<rparr>) v;
         Some (if reg_page then register_suppl_page p v else v, True) } } }"

definition set_kpage_if_needed :: "'f file_io \<Rightarrow> ptr \<Rightarrow> bool \<Rightarrow> 'f vm \<Rightarrow> ('f vm \<times> bool) option" where
  "set_kpage_if_needed io p eviction_call v =
     (if eviction_call then Some (v, kaddr (spages v p) \<noteq> 0)
      else do {
        let kpg = kaddr (spages v p);
        let v = undo_suppl_page_registration p v;
        let kpg_new = (kpg = NULL);
        (v, clean) \<leftarrow> (if kpg_new then do { (v, d) \<leftarrow> suppl_page_dirty p v; Some (v, \<not> d) } else Some (v, False));
        (v, kpg) \<leftarrow> (if clean then alloc_frame v else Some (v, kpg));
        if kpg = NULL \<and> location (spages v p) = PG_LOCATION_SWAP then restore_page_from_swap io p False v
        else do {
          (v, kpg) \<leftarrow> (if kpg = NULL then evict_and_get_kaddr io v else Some (v, kpg));
          if kpg = NULL then Some (v, False)
          else if kpg_new then do {
            (s, ok) \<leftarrow> pagedir_set_page (pagedir (spages v p)) (vaddr (spages v p)) kpg True (vm_mmu v);
            let v = v\<lparr>vm_mmu := s\<rparr>;
            if \<not> ok then do { v \<leftarrow> free_frame kpg v; Some (v, False) }
            else Some (upd_page p (kaddr_update (\<lambda>_. kpg)) v, True) }
          else Some (v, True) } })"

definition suppl_page_load_to_file :: "'f file_io \<Rightarrow> ptr \<Rightarrow> bool \<Rightarrow> 'f vm \<Rightarrow> ('f vm \<times> bool) option" where
  "suppl_page_load_to_file io p eviction_call v = load_to_file io (set_kpage_if_needed io p eviction_call) (\<not> eviction_call) p v"

text \<open>
  The loop that fills a page from its file. \<open>rd\<close> reads the file at an offset, \<open>u\<close> is the address behind the
  user page and \<open>k\<close> the frame recorded for it.
\<close>

definition copy_in :: "(nat \<Rightarrow> u8) \<Rightarrow> ptr \<Rightarrow> u8 list \<Rightarrow> nat \<Rightarrow> u8" where
  "copy_in mem a bs = (\<lambda>x. if x \<in> {a..<a + length bs} then bs ! (x - a) else mem x)"

text \<open>The local variables \<^verbatim>\<open>fl_end\<close> and \<^verbatim>\<open>buf_sz\<close>.\<close>

definition fl_end :: "file_mapping \<Rightarrow> nat" where
  "fl_end m = (start_vaddr m + (file_size m + 2 ^ 32 - offset m)) mod 2 ^ 32"

definition buf_sz :: "file_mapping \<Rightarrow> nat \<Rightarrow> nat \<Rightarrow> nat" where
  "buf_sz m start buff = (let sz = PGSIZE - (buff - start); till_fl_end = fl_end m - buff in if till_fl_end < sz then till_fl_end else sz)"

function fill_page :: "(nat \<Rightarrow> nat \<Rightarrow> u8 list) \<Rightarrow> file_mapping \<Rightarrow> nat \<Rightarrow> ptr \<Rightarrow> ptr \<Rightarrow> nat \<Rightarrow> bool \<Rightarrow> (nat \<Rightarrow> u8) \<Rightarrow> nat \<Rightarrow> u8" where
  "fill_page rd m start u k buff file_r mem =
     (if buff < start + PGSIZE then
        let mem = mem(u + (buff - start) := 0) in
        if \<not> file_r \<and> buff \<ge> start_vaddr m then
          if fl_end m > buff then
            let bytes = rd (buff - start_vaddr m + offset m) (buf_sz m start buff)
            in fill_page rd m start u k (buff + length bytes) True (copy_in mem (k + (buff - start)) bytes)
          else fill_page rd m start u k buff True mem
        else fill_page rd m start u k (buff + 1) file_r mem
      else mem)"
  by pat_completeness auto
termination
  by (relation "measure (\<lambda>(rd, m, start, u, k, buff, file_r, mem). 2 * (start + 4096 - buff) + (if file_r then 0 else 1))") simp_all

declare fill_page.simps [simp del]

definition suppl_page_load_from_file :: "'f file_io \<Rightarrow> ptr \<Rightarrow> 'f vm \<Rightarrow> ('f vm \<times> bool) option" where
  "suppl_page_load_from_file io p v = do {
     ASSERT (location (spages v p) = PG_LOCATION_FILE);
     ASSERT (mapping (spages v p) \<noteq> NULL);
     let m = fmaps v (mapping (spages v p));
     if fl m = NULL then Some (v, False)
     else do {
       (v, ok) \<leftarrow> set_kpage_if_needed io p False v;
       if \<not> ok then Some (v, False)
       else do {
         let page = spages v p;
         (v, u) \<leftarrow> user_write (vaddr page) v;
         let mem = fill_page (\<lambda>ofs n. file_read_at io (fl m) ofs n (files v)) m (vaddr page) u (pg_round_down (kaddr page)) (vaddr page) False
           (memory (frames (vm_mmu v)));
         let v = set_frames ((frames (vm_mmu v))\<lparr>memory := mem\<rparr>) v;
         s \<leftarrow> pagedir_set_dirty (pagedir page) (vaddr page) False (vm_mmu v);
         s \<leftarrow> (if writable m then Some s
           else do {
             s \<leftarrow> pagedir_clear_page (pagedir page) (vaddr page) s;
             (s, ok) \<leftarrow> pagedir_set_page (pagedir page) (vaddr page) (kaddr page) False s;
             ASSERT ok;
             Some s });
         let v = register_suppl_page p (v\<lparr>vm_mmu := s\<rparr>);
         Some (upd_page p (location_update (\<lambda>_. PG_LOCATION_RAM)) v, True) } } }"

definition suppl_page_dispose :: "ptr \<Rightarrow> 'f vm \<Rightarrow> 'f vm option" where
  "suppl_page_dispose p v =
     (if p = NULL then Some v
      else do {
        let page = spages v p;
        ASSERT (pagedir page \<noteq> NULL);
        v \<leftarrow> (if kaddr page \<noteq> 0 then do {
            let v = undo_suppl_page_registration p v;
            s \<leftarrow> pagedir_clear_page (pagedir page) (vaddr page) (vm_mmu v);
            free_frame (kaddr page) (v\<lparr>vm_mmu := s\<rparr>) }
          else Some v);
        v \<leftarrow> (case saddr page of None \<Rightarrow> Some v | Some q \<Rightarrow> on_swap (swap_free_page q) v);
        Some (upd_page p (suppl_page_init (pagedir page)) v) })"

text \<open>The operations on the table of the running process, whose page directory is \<open>pd\<close>.\<close>

definition suppl_table_set_page ::
    "(u32 \<Rightarrow> bool) \<Rightarrow> ptr \<Rightarrow> ptr \<Rightarrow> nat \<Rightarrow> ptr \<Rightarrow> bool \<Rightarrow> 'f vm \<Rightarrow> ptr hash \<Rightarrow> ('f vm \<times> ptr hash \<times> bool) option" where
  "suppl_table_set_page mem new pd upage kpg rw v pt = do {
     let upage = pg_round_down upage;
     let v = v\<lparr>spages := suppl_page_new new pd (spages v)\<rparr>;
     if new = NULL then Some (v, pt, False)
     else do {
       (s, ok) \<leftarrow> pagedir_set_page pd upage kpg rw (vm_mmu v);
       let v = v\<lparr>vm_mmu := s\<rparr>;
       if \<not> ok then do { v \<leftarrow> suppl_page_dispose new v; Some (v, pt, False) }
       else do {
         let v = upd_page new (\<lambda>r. r\<lparr>vaddr := upage, kaddr := kpg, location := PG_LOCATION_RAM, dirty := True, accessed := True\<rparr>) v;
         s \<leftarrow> pagedir_set_dirty pd upage True (vm_mmu v);
         let v = register_suppl_page new (v\<lparr>vm_mmu := s\<rparr>);
         (pt, _) \<leftarrow> hash_insert mem (pages_map (spages v) pt) new;
         Some (v, pt, True) } } }"

definition suppl_table_alloc_user_page ::
    "'f file_io \<Rightarrow> (u32 \<Rightarrow> bool) \<Rightarrow> ptr \<Rightarrow> ptr \<Rightarrow> nat \<Rightarrow> bool \<Rightarrow> 'f vm \<Rightarrow> ptr hash \<Rightarrow> ('f vm \<times> ptr hash \<times> bool) option" where
  "suppl_table_alloc_user_page io mem new pd upage writeable v pt = do {
     (v, kpg) \<leftarrow> alloc_frame v;
     (v, kpg) \<leftarrow> (if kpg = NULL then evict_and_get_kaddr io v else Some (v, kpg));
     if kpg = NULL then Some (v, pt, False)
     else do {
       (v, pt, ok) \<leftarrow> suppl_table_set_page mem new pd upage kpg writeable v pt;
       if \<not> ok then do { v \<leftarrow> free_frame kpg v; Some (v, pt, False) }
       else Some (v, pt, True) } }"

text \<open>The page-fault handler; when it fails to bring the page in, the process is killed.\<close>

definition page_fault ::
    "'f file_io \<Rightarrow> (u32 \<Rightarrow> bool) \<Rightarrow> ptr \<Rightarrow> ptr \<Rightarrow> ptr \<Rightarrow> bool \<Rightarrow> nat \<Rightarrow> nat \<Rightarrow> 'f vm \<Rightarrow> ptr hash \<Rightarrow> ('f vm \<times> ptr hash \<times> bool) option" where
  "page_fault io mem new tmp pd not_present fault_addr esp v pt =
     (if \<not> not_present then Some (v, pt, False)
      else do {
        p \<leftarrow> suppl_pt_lookup tmp (spages v) pt fault_addr;
        if p \<noteq> NULL then
          (case location (spages v p) of
             PG_LOCATION_SWAP \<Rightarrow> do { (v, ok) \<leftarrow> restore_page_from_swap io p True v; Some (v, pt, ok) }
           | PG_LOCATION_FILE \<Rightarrow> do { (v, ok) \<leftarrow> suppl_page_load_from_file io p v; Some (v, pt, ok) }
           | _ \<Rightarrow> Some (v, pt, False))
        else if stack_grow_needed fault_addr esp then suppl_table_alloc_user_page io mem new pd fault_addr True v pt
        else Some (v, pt, False) })"

end
