(* ===== verification/Eviction.thy ===== *)
theory Eviction
  imports Paging
begin

unbundle bit_operations_syntax

text \<open>
  The clock of theory \<^verbatim>\<open>Paging\<close>: each round ends, the three rounds choose the victim by its class, in
  the order of the list from the hand on, and the victim loses its frame.
\<close>

section \<open>The order of the clock\<close>

definition clock_order :: "'a \<Rightarrow> 'a list \<Rightarrow> 'a list" where
  "clock_order t xs = dropWhile (\<lambda>x. x \<noteq> t) xs @ takeWhile (\<lambda>x. x \<noteq> t) xs"

lemma dropWhile_found: "t \<notin> set as \<Longrightarrow> dropWhile (\<lambda>x. x \<noteq> t) (as @ t # bs) = t # bs"
  by (induction as) auto

lemma takeWhile_found: "t \<notin> set as \<Longrightarrow> takeWhile (\<lambda>x. x \<noteq> t) (as @ t # bs) = as"
  by (induction as) auto

lemma next_of_split: "h \<notin> set us \<Longrightarrow> next_of (us @ h # ws) h = (case ws of [] \<Rightarrow> NULL | w # _ \<Rightarrow> w)"
  by (simp add: next_of_def dropWhile_found split: list.splits)

lemma clock_order_split: "t \<notin> set as \<Longrightarrow> clock_order t (as @ t # bs) = t # bs @ as"
  by (simp add: clock_order_def dropWhile_found takeWhile_found)

lemma mset_clock_order: "mset (clock_order t xs) = mset xs"
  unfolding clock_order_def by (metis mset_append takeWhile_dropWhile_id union_commute)

lemma set_clock_order [simp]: "set (clock_order t xs) = set xs"
  using mset_clock_order by (metis set_mset_mset)

lemma distinct_clock_order [simp]: "distinct (clock_order t xs) = distinct xs"
  using mset_clock_order by (metis mset_eq_imp_distinct_iff)

text \<open>The hand moves along this order and comes back to its start.\<close>

lemma hand_next:
  assumes "distinct xs" "NULL \<notin> set xs" "t \<in> set xs" "clock_order t xs = d @ h # rest"
  shows "(if next_of xs h = NULL then hd xs else next_of xs h) = (case rest of [] \<Rightarrow> t | r # _ \<Rightarrow> r)"
proof -
  obtain as bs where xs: "xs = as @ t # bs" "t \<notin> set as" using split_list_first [OF assms(3)] by blast
  then have ord: "(t # bs) @ as = d @ h # rest" using assms(4) by (simp add: clock_order_split)
  then consider us where "d = (t # bs) @ us" "as = us @ h # rest" | us where "d @ us = t # bs" "h # rest = us @ as" "us \<noteq> []"
    by (metis append_Nil2 append_eq_append_conv2 append_self_conv2)
  then show ?thesis
  proof cases
    case 1
    have "xs = us @ h # rest @ t # bs" using xs(1) 1 by simp
    moreover have "h \<notin> set us" using assms(1) calculation by simp
    ultimately show ?thesis using assms(2) by (auto simp: next_of_split split: list.splits)
  next
    case 2
    then obtain ws where us: "us = h # ws" "rest = ws @ as" by (cases us) auto
    have "xs = (as @ d) @ h # ws" using xs(1) 2(1) us by simp
    moreover have "h \<notin> set (as @ d)" using assms(1) calculation by auto
    ultimately have n: "next_of xs h = (case ws of [] \<Rightarrow> NULL | w # _ \<Rightarrow> w)" using next_of_split by metis
    show ?thesis
    proof (cases ws)
      case Nil
      have "hd (d @ [h]) = t" using 2(1) us Nil by (metis list.sel(1))
      then show ?thesis using n Nil us xs(1) by (cases as) auto
    next
      case (Cons w ws')
      then have "w \<in> set xs" using \<open>xs = (as @ d) @ h # ws\<close> by simp
      then have "w \<noteq> NULL" using assms(2) by metis
      then show ?thesis using n Cons us by simp
    qed
  qed
qed

section \<open>Classes of pages\<close>

definition is_mod :: "'f vm \<Rightarrow> ptr \<Rightarrow> bool" where
  "is_mod v p \<longleftrightarrow> dirty (spages v p) \<or> pte_val (vm_mmu v) (pagedir (spages v p)) (vaddr (spages v p)) AND PTE_D \<noteq> 0"

definition is_ref :: "'f vm \<Rightarrow> ptr \<Rightarrow> bool" where
  "is_ref v p \<longleftrightarrow> accessed (spages v p) \<or> pte_val (vm_mmu v) (pagedir (spages v p)) (vaddr (spages v p)) AND PTE_A \<noteq> 0"

fun in_class :: "round \<Rightarrow> 'f vm \<Rightarrow> ptr \<Rightarrow> bool" where
  "in_class Clean v p \<longleftrightarrow> \<not> is_ref v p \<and> \<not> is_mod v p"
| "in_class Unreferenced v p \<longleftrightarrow> \<not> is_ref v p \<and> is_mod v p"
| "in_class Unmodified v p \<longleftrightarrow> \<not> is_mod v p"

text \<open>
  The listed pages are present: each has a frame of the user pool and an aligned user address in a
  well-formed page directory.
\<close>

definition page_ok :: "mmu \<Rightarrow> suppl_page \<Rightarrow> bool" where
  "page_ok s page \<longleftrightarrow> pd_ok s (pagedir page) \<and> is_user_vaddr (vaddr page) \<and> pg_ofs (vaddr page) = 0 \<and>
     kaddr page \<in> used_pages (user_pool (frames s))"

text \<open>No page directory serves as a page table.\<close>

definition dirs_apart :: "mmu \<Rightarrow> ptr set \<Rightarrow> bool" where
  "dirs_apart s D \<longleftrightarrow> (\<forall>pd \<in> D. \<forall>pd' \<in> D. \<forall>i < 768. pde s pd i \<noteq> 0 \<longrightarrow> pde_get_pt (pde s pd i) \<noteq> Some pd')"

definition vm_ok :: "'f vm \<Rightarrow> bool" where
  "vm_ok v \<longleftrightarrow> distinct (page_list v) \<and> NULL \<notin> set (page_list v) \<and> (page_elem v = NULL \<or> page_elem v \<in> set (page_list v)) \<and>
     (\<forall>p \<in> set (page_list v). page_ok (vm_mmu v) (spages v p)) \<and> inj_on (\<lambda>p. kaddr (spages v p)) (set (page_list v)) \<and>
     dirs_apart (vm_mmu v) ((\<lambda>p. pagedir (spages v p)) ` set (page_list v)) \<and>
     swap_ok (swap_dev v) \<and> cr3 (vm_mmu v) < PHYS_BASE"

text \<open>What the rounds change: the cached bits of a page, and where the hand is.\<close>

definition cached :: "suppl_page \<Rightarrow> suppl_page" where
  "cached page = page\<lparr>dirty := False, accessed := False\<rparr>"

definition only_cached :: "'f vm \<Rightarrow> 'f vm \<Rightarrow> bool" where
  "only_cached v v' \<longleftrightarrow> vm_mmu v' = vm_mmu v \<and> swap_dev v' = swap_dev v \<and> fmaps v' = fmaps v \<and> page_list v' = page_list v \<and>
     files v' = files v \<and> is_mod v' = is_mod v \<and> is_ref v' = is_ref v \<and> (\<forall>p. cached (spages v' p) = cached (spages v p))"

lemma only_cached_refl: "only_cached v v"
  by (simp add: only_cached_def)

lemma only_cached_trans: "only_cached u v \<Longrightarrow> only_cached v w \<Longrightarrow> only_cached u w"
  by (simp add: only_cached_def)

lemma cached_same:
  assumes "cached a = cached b"
  shows "vaddr a = vaddr b" "kaddr a = kaddr b" "pagedir a = pagedir b" "mapping a = mapping b"
    "location a = location b" "saddr a = saddr b"
  using assms by (cases a; cases b; simp add: cached_def)+

lemma only_cached_same:
  assumes "only_cached v v'"
  shows "vaddr (spages v' p) = vaddr (spages v p)" "kaddr (spages v' p) = kaddr (spages v p)" "pagedir (spages v' p) = pagedir (spages v p)"
    "mapping (spages v' p) = mapping (spages v p)"
  using assms cached_same unfolding only_cached_def by blast+

lemma page_ok_kaddr:
  assumes "page_ok s page"
  shows "kaddr page \<noteq> NULL" "kaddr page mod 4096 = 0"
proof -
  have u: "pool_ok (user_pool (frames s))" using assms by (simp add: page_ok_def pd_ok_def palloc_ok_def)
  obtain i where "kaddr page = page_addr (user_pool (frames s)) i" using assms by (auto simp: page_ok_def used_pages_def)
  then show "kaddr page \<noteq> NULL" "kaddr page mod 4096 = 0"
    using page_addr_no [OF u, of i] by (simp_all add: pg_ofs_mod)
qed

lemma page_ok_cached: "cached a = cached b \<Longrightarrow> page_ok s a = page_ok s b"
  using cached_same [of a b] by (simp add: page_ok_def)

lemma pagedir_bits:
  assumes "pd_ok s pd" "is_user_vaddr a"
  shows "pagedir_is_dirty pd a s = Some (pte_val s pd a AND PTE_D \<noteq> 0)" "pagedir_is_accessed pd a s = Some (pte_val s pd a AND PTE_A \<noteq> 0)"
  using lookup_page_find [OF assms] pte_addr_ok [OF assms]
  by (auto simp: pagedir_is_dirty_def pagedir_is_accessed_def pte_val_def split: option.splits)

lemma suppl_page_dirty_ok:
  assumes "page_ok (vm_mmu v) (spages v p)"
  shows "\<exists>v'. suppl_page_dirty p v = Some (v', is_mod v p) \<and> only_cached v v' \<and> page_elem v' = page_elem v"
proof -
  note a = assms [unfolded page_ok_def] page_ok_kaddr(1) [OF assms]
  have "only_cached v (upd_page p (dirty_update (\<lambda>_. is_mod v p)) v)"
    by (auto simp: only_cached_def upd_page_def is_mod_def is_ref_def cached_def fun_eq_iff)
  moreover have "suppl_page_dirty p v = (if dirty (spages v p) then Some (v, True) else Some (upd_page p (dirty_update (\<lambda>_. is_mod v p)) v, is_mod v p))"
    using a pagedir_bits(1) [of "vm_mmu v"] by (simp add: suppl_page_dirty_def Let_def is_mod_def)
  ultimately show ?thesis by (cases "dirty (spages v p)") (simp_all add: only_cached_refl is_mod_def upd_page_def)
qed

lemma suppl_page_accessed_ok:
  assumes "page_ok (vm_mmu v) (spages v p)"
  shows "\<exists>v'. suppl_page_accessed p v = Some (v', is_ref v p) \<and> only_cached v v' \<and> page_elem v' = page_elem v"
proof -
  note a = assms [unfolded page_ok_def] page_ok_kaddr(1) [OF assms]
  have "only_cached v (upd_page p (accessed_update (\<lambda>_. is_ref v p)) v)"
    by (auto simp: only_cached_def upd_page_def is_mod_def is_ref_def cached_def fun_eq_iff)
  moreover have "suppl_page_accessed p v = (if accessed (spages v p) then Some (v, True) else Some (upd_page p (accessed_update (\<lambda>_. is_ref v p)) v, is_ref v p))"
    using a pagedir_bits(2) [of "vm_mmu v"] by (simp add: suppl_page_accessed_def Let_def is_ref_def)
  ultimately show ?thesis by (cases "accessed (spages v p)") (simp_all add: only_cached_refl is_ref_def upd_page_def)
qed

lemma round_test_ok:
  assumes "page_ok (vm_mmu v) (spages v p)"
  shows "\<exists>v'. round_test r p v = Some (v', in_class r v p) \<and> only_cached v v' \<and> page_elem v' = page_elem v"
proof -
  obtain v1 where v1: "suppl_page_dirty p v = Some (v1, is_mod v p)" "only_cached v v1" "page_elem v1 = page_elem v"
    using suppl_page_dirty_ok [OF assms] by blast
  then have "page_ok (vm_mmu v1) (spages v1 p)"
    using assms page_ok_cached [of "spages v1 p" "spages v p"] by (simp add: only_cached_def)
  then obtain v2 where v2: "suppl_page_accessed p v1 = Some (v2, is_ref v1 p)" "only_cached v1 v2" "page_elem v2 = page_elem v1"
    using suppl_page_accessed_ok by blast
  have "is_ref v1 = is_ref v" using v1(2) by (simp add: only_cached_def)
  then show ?thesis
    using v1 v2 only_cached_trans [OF v1(2) v2(2)] by (cases r) simp_all
qed

section \<open>Rounds\<close>

lemma vm_ok_cached:
  assumes "vm_ok v" "only_cached v v'" "page_elem v' = NULL \<or> page_elem v' \<in> set (page_list v)"
  shows "vm_ok v'"
proof -
  have o: "vm_mmu v' = vm_mmu v" "swap_dev v' = swap_dev v" "page_list v' = page_list v" "cached (spages v' p) = cached (spages v p)" for p
    using assms(2) by (simp_all add: only_cached_def)
  note same = only_cached_same [OF assms(2)] page_ok_cached [OF o(4)]
  show ?thesis using assms(1,3) unfolding vm_ok_def o same by blast
qed

lemma in_class_cached: "only_cached v v' \<Longrightarrow> in_class r v' = in_class r v"
  by (cases r) (auto simp: only_cached_def fun_eq_iff)

lemma hand_simps [simp]: "is_mod (v\<lparr>page_elem := h\<rparr>) = is_mod v" "is_ref (v\<lparr>page_elem := h\<rparr>) = is_ref v"
  by (simp_all add: is_mod_def is_ref_def fun_eq_iff)

lemma only_cached_hand: "only_cached v v' \<Longrightarrow> only_cached v (v'\<lparr>page_elem := h\<rparr>)"
  by (simp add: only_cached_def)

text \<open>One turn of the loop.\<close>

lemma clock_round_step:
  assumes "vm_ok v" "t \<in> set (page_list v)" "clock_order t (page_list v) = d @ page_elem v # rest"
  shows "\<exists>v1. only_cached v v1 \<and> page_elem v1 = page_elem v \<and> clock_round r t v =
    (if in_class r v (page_elem v) then Some (v1, True)
     else let h = (case rest of [] \<Rightarrow> t | q # _ \<Rightarrow> q); v2 = v1\<lparr>page_elem := h\<rparr> in if h = t then Some (v2, False) else clock_round r t v2)"
proof -
  let ?p = "page_elem v"
  note ok = assms(1) [unfolded vm_ok_def]
  have "?p \<in> set (clock_order t (page_list v))" using assms(3) by simp
  then have p: "?p \<in> set (page_list v)" by simp
  then have ne: "?p \<noteq> NULL" using ok by metis
  obtain v1 where v1: "round_test r ?p v = Some (v1, in_class r v ?p)" "only_cached v v1" "page_elem v1 = ?p"
    using round_test_ok p ok by blast
  have l: "page_list v1 = page_list v" using v1(2) by (simp add: only_cached_def)
  have "(if next_of (page_list v) ?p = NULL then hd (page_list v) else next_of (page_list v) ?p) = (case rest of [] \<Rightarrow> t | q # _ \<Rightarrow> q)"
    using hand_next [OF _ _ assms(2,3)] ok by blast
  then have "move_hand v1 = v1\<lparr>page_elem := (case rest of [] \<Rightarrow> t | q # _ \<Rightarrow> q)\<rparr>"
    unfolding move_hand_def l v1(3) Let_def by (simp only:)
  then show ?thesis
    using v1 ne by (subst clock_round.simps) (auto simp: Let_def intro!: exI [of _ v1])
qed

lemma clock_round_ok:
  assumes "vm_ok v" "t \<in> set (page_list v)" "clock_order t (page_list v) = d @ page_elem v # rest"
  shows "\<exists>v'. clock_round r t v = Some (v', find (in_class r v) (page_elem v # rest) \<noteq> None) \<and> only_cached v v' \<and>
    page_elem v' = (case find (in_class r v) (page_elem v # rest) of None \<Rightarrow> t | Some p \<Rightarrow> p)"
  using assms
proof (induction rest arbitrary: d v)
  case Nil
    obtain v1 where v1: "only_cached v v1" "page_elem v1 = page_elem v" "clock_round r t v =
        (if in_class r v (page_elem v) then Some (v1, True) else Some (v1\<lparr>page_elem := t\<rparr>, False))"
      using clock_round_step [OF Nil.prems, of r] by (auto simp: Let_def)
    then show ?case using only_cached_hand [OF v1(1)] by (cases "in_class r v (page_elem v)") simp_all
  next
    case (Cons q rest)
    obtain v1 where v1: "only_cached v v1" "page_elem v1 = page_elem v" "clock_round r t v =
        (if in_class r v (page_elem v) then Some (v1, True)
         else if q = t then Some (v1\<lparr>page_elem := q\<rparr>, False) else clock_round r t (v1\<lparr>page_elem := q\<rparr>))"
      using clock_round_step [OF Cons.prems, of r] by (auto simp: Let_def)
    have "hd (clock_order t (page_list v)) = t"
      using Cons.prems(2) split_list_first [of t "page_list v"] by (auto simp: clock_order_split)
    moreover have "distinct (d @ page_elem v # q # rest)"
      using distinct_clock_order [of t "page_list v"] Cons.prems(1,3) unfolding vm_ok_def by metis
    ultimately have qt: "q \<noteq> t" using Cons.prems(3) by (cases d) auto
    have "q \<in> set (clock_order t (page_list v))" using Cons.prems(3) by simp
    then have q: "q \<in> set (page_list v)" by simp
    let ?v = "v1\<lparr>page_elem := q\<rparr>"
    have o: "only_cached v ?v" by (rule only_cached_hand [OF v1(1)])
    then have "vm_ok ?v" "page_list ?v = page_list v" "in_class r ?v = in_class r v"
      using vm_ok_cached [OF Cons.prems(1) o] q in_class_cached [OF o] by (simp_all add: only_cached_def)
    with Cons.IH [of ?v "d @ [page_elem v]"] Cons.prems obtain v2 where v2: "clock_round r t ?v = Some (v2, find (in_class r v) (q # rest) \<noteq> None)"
      "only_cached ?v v2" "page_elem v2 = (case find (in_class r v) (q # rest) of None \<Rightarrow> t | Some p \<Rightarrow> p)"
      by auto
    show ?case
    proof (cases "in_class r v (page_elem v)")
      case True
      then show ?thesis using v1 by simp
    next
      case False
      then show ?thesis using v1(3) qt v2 only_cached_trans [OF o v2(2)] by simp
    qed
qed

text \<open>The page the three rounds choose, from the hand on.\<close>

definition hand :: "'f vm \<Rightarrow> ptr" where
  "hand v = (if page_elem v = NULL then hd (page_list v) else page_elem v)"

definition victim :: "'f vm \<Rightarrow> ptr" where
  "victim v = (let order = clock_order (hand v) (page_list v) in
     case find (in_class Clean v) order of Some p \<Rightarrow> p
     | None \<Rightarrow> (case find (in_class Unreferenced v) order of Some p \<Rightarrow> p
     | None \<Rightarrow> (case find (in_class Unmodified v) order of Some p \<Rightarrow> p | None \<Rightarrow> hand v)))"

lemma full_round:
  assumes "vm_ok v" "page_elem v \<in> set (page_list v)"
  shows "\<exists>v'. clock_round r (page_elem v) v = Some (v', find (in_class r v) (clock_order (page_elem v) (page_list v)) \<noteq> None) \<and>
    only_cached v v' \<and> page_elem v' = (case find (in_class r v) (clock_order (page_elem v) (page_list v)) of None \<Rightarrow> page_elem v | Some p \<Rightarrow> p)"
proof -
  obtain as bs where "page_list v = as @ page_elem v # bs" "page_elem v \<notin> set as"
    using split_list_first [OF assms(2)] by blast
  then have "clock_order (page_elem v) (page_list v) = page_elem v # bs @ as" by (simp add: clock_order_split)
  then show ?thesis using clock_round_ok [OF assms, of "[]" "bs @ as"] by simp
qed

lemma find_SomeD: "find P xs = Some x \<Longrightarrow> x \<in> set xs \<and> P x"
  by (auto simp: find_Some_iff)

lemma round_from_hand:
  assumes "vm_ok v" "hand v \<in> set (page_list v)" "only_cached v w" "page_elem w = hand v"
  shows "\<exists>w'. clock_round r (hand v) w = Some (w', find (in_class r v) (clock_order (hand v) (page_list v)) \<noteq> None) \<and> only_cached v w' \<and>
    page_elem w' = (case find (in_class r v) (clock_order (hand v) (page_list v)) of None \<Rightarrow> hand v | Some p \<Rightarrow> p)"
proof -
  have w: "page_list w = page_list v" "in_class r w = in_class r v"
    using assms(3) in_class_cached by (auto simp: only_cached_def)
  have "vm_ok w" using vm_ok_cached [OF assms(1,3)] assms(2,4) by simp
  from full_round [OF this, of r] obtain w' where
    "clock_round r (hand v) w = Some (w', find (in_class r v) (clock_order (hand v) (page_list v)) \<noteq> None)" "only_cached w w'"
    "page_elem w' = (case find (in_class r v) (clock_order (hand v) (page_list v)) of None \<Rightarrow> hand v | Some p \<Rightarrow> p)"
    unfolding w assms(4) using assms(2) by blast
  then show ?thesis using only_cached_trans [OF assms(3)] by blast
qed

text \<open>The rounds end at the victim, having changed only cached bits and the hand.\<close>

lemma evict_page_choice:
  assumes "vm_ok v" "page_list v \<noteq> []"
  shows "\<exists>v'. only_cached v v' \<and> page_elem v' = victim v \<and> victim v \<in> set (page_list v) \<and>
    evict_page io v = (if is_mod v (victim v) then evict_modified io (victim v) v' else evict_not_modified (victim v) v')"
proof -
  let ?o = "clock_order (hand v) (page_list v)"
  have h: "hand v \<in> set (page_list v)" using assms by (auto simp: hand_def vm_ok_def)
  note round = round_from_hand [OF assms(1) h]
  have v0: "(if page_elem v = NULL then v\<lparr>page_elem := hd (page_list v)\<rparr> else v) = v\<lparr>page_elem := hand v\<rparr>"
    by (simp add: hand_def)
  obtain v1 where v1: "clock_round Clean (hand v) (v\<lparr>page_elem := hand v\<rparr>) = Some (v1, find (in_class Clean v) ?o \<noteq> None)" "only_cached v v1"
    "page_elem v1 = (case find (in_class Clean v) ?o of None \<Rightarrow> hand v | Some p \<Rightarrow> p)"
    using round [OF only_cached_hand [OF only_cached_refl], of "hand v" Clean] by auto
  note start = evict_page_def [of io v, unfolded Let_def v0] assms(2) v1(1)
  show ?thesis
  proof (cases "find (in_class Clean v) ?o")
    case (Some p)
    then have "p \<in> set ?o" "in_class Clean v p" by (auto dest: find_SomeD)
    then show ?thesis using start v1(2,3) Some by (auto simp: victim_def)
  next
    case c1: None
    then have "page_elem v1 = hand v" using v1(3) by simp
    then obtain v2 where v2: "clock_round Unreferenced (hand v) v1 = Some (v2, find (in_class Unreferenced v) ?o \<noteq> None)" "only_cached v v2"
      "page_elem v2 = (case find (in_class Unreferenced v) ?o of None \<Rightarrow> hand v | Some p \<Rightarrow> p)"
      using round [OF v1(2)] by blast
    show ?thesis
    proof (cases "find (in_class Unreferenced v) ?o")
      case (Some p)
      then have "p \<in> set ?o" "in_class Unreferenced v p" by (auto dest: find_SomeD)
      then show ?thesis using start v2 c1 Some by (auto simp: victim_def)
    next
      case c2: None
      then have "page_elem v2 = hand v" using v2(3) by simp
      then obtain v3 where v3: "clock_round Unmodified (hand v) v2 = Some (v3, find (in_class Unmodified v) ?o \<noteq> None)" "only_cached v v3"
        "page_elem v3 = (case find (in_class Unmodified v) ?o of None \<Rightarrow> hand v | Some p \<Rightarrow> p)"
        using round [OF v2(2)] by blast
      show ?thesis
      proof (cases "find (in_class Unmodified v) ?o")
        case (Some p)
        then have "p \<in> set ?o" "in_class Unmodified v p" by (auto dest: find_SomeD)
        then show ?thesis using start v2(1) v3 c1 c2 Some by (auto simp: victim_def)
      next
        case c3: None
        then have "is_mod v (hand v)" using h by (auto simp: find_None_iff)
        then show ?thesis using start v2(1) v3 c1 c2 c3 h by (auto simp: victim_def)
      qed
    qed
  qed
qed

section \<open>Losing the frame\<close>

lemma invalidate_ok:
  assumes "pd_ok s pd" "cr3 s < PHYS_BASE"
  shows "invalidate_pagedir pd s = Some s"
proof -
  have k: "kpage pd" using tables_kpage(1) [OF assms(1)] pd_okD(3) [OF assms(1)] by blast
  have act: "pagedir_activate pd s = Some (s\<lparr>cr3 := pd - PHYS_BASE\<rparr>)"
    using kpage_vtop [OF k] pd_okD(2) [OF assms(1)] by (simp add: pagedir_activate_def)
  have "cr3 s = pd - PHYS_BASE" if "(cr3 s + PHYS_BASE) mod 2 ^ 32 = pd"
  proof (cases "cr3 s + PHYS_BASE < 2 ^ 32")
    case True
    then have "(cr3 s + PHYS_BASE) mod 2 ^ 32 = cr3 s + PHYS_BASE" by (rule mod_less)
    with that show ?thesis by simp
  next
    case False
    then have "(cr3 s + PHYS_BASE) mod 2 ^ 32 = cr3 s + PHYS_BASE - 2 ^ 32"
      using assms(2) by (subst mod_if) (simp add: PHYS_BASE_def)
    then have "pd < PHYS_BASE" using that assms(2) by (simp add: PHYS_BASE_def)
    with k show ?thesis by (simp add: kpage_def)
  qed
  with act assms(2) show ?thesis
    by (auto simp: invalidate_pagedir_def active_pd_def ptov_def)
qed

lemma clear_page_ok:
  assumes "pd_ok s pd" "is_user_vaddr a" "pg_ofs a = 0" "cr3 s < PHYS_BASE"
  shows "\<exists>s'. pagedir_clear_page pd a s = Some s' \<and>
    (s' = s \<or> (\<exists>e w. pte_addr s pd a = Some e \<and> s' = set32 s e w)) \<and> pte_val s' pd a AND PTE_P = 0"
proof (cases "pte_val s pd a AND PTE_P = 0")
  case True
  then have "pagedir_clear_page pd a s = Some s"
    using assms(2,3) lookup_page_find [OF assms(1,2)] by (auto simp: pagedir_clear_page_def pte_val_def split: option.splits)
  then show ?thesis using True by blast
next
  case False
  then obtain e where e: "pte_addr s pd a = Some e" by (cases "pte_addr s pd a") (simp_all add: pte_val_def)
  then have ne: "e \<noteq> NULL" using pte_addr_ok [OF assms(1,2)] by blast
  let ?s = "set32 s e (get32 s e AND NOT PTE_P)"
  have "cr3 ?s < PHYS_BASE" using assms(4) by (simp add: set32_def)
  then have "invalidate_pagedir pd ?s = Some ?s"
    using invalidate_ok [OF set_pte(1) [OF assms(1,2) e]] by blast
  moreover have "pagedir_clear_page pd a s = invalidate_pagedir pd ?s"
    using False e ne assms(2,3) lookup_page_find [OF assms(1,2)] by (simp add: pagedir_clear_page_def pte_val_def)
  moreover have "pte_val ?s pd a AND PTE_P = 0"
    using set_pte(2) [OF assms(1,2) e assms(2)] by (simp add: and.assoc)
  ultimately show ?thesis using e by metis
qed

lemma free_user_page:
  assumes "palloc_ok f" "k \<in> used_pages (user_pool f)"
  shows "\<exists>f'. palloc_free_page k f = Some f' \<and> palloc_ok f' \<and> kernel_pool f' = kernel_pool f \<and> base (user_pool f') = base (user_pool f) \<and>
    bit_cnt (used_map (user_pool f')) = bit_cnt (used_map (user_pool f)) \<and>
    used_pages (user_pool f') = used_pages (user_pool f) - {k} \<and> memory f' = fill k 0xcc 4096 (memory f)"
proof -
  let ?u = "user_pool f"
  have u: "bitmap_ok (used_map ?u)" using assms(1) by (simp add: palloc_ok_def pool_ok_def)
  have flag: "PAL_USER AND PAL_USER \<noteq> 0" "pool_of PAL_USER f = ?u" by (simp_all add: PAL_USER_def pool_of_def)
  obtain i where i: "k = page_addr ?u i" "i \<in> used_bits (used_map ?u)" using assms(2) by (auto simp: used_pages_def)
  then have less: "i < bit_cnt (used_map ?u)" by (simp add: used_bits_def)
  obtain b where b: "release_run (used_map ?u) i 1 = Some b" "bitmap_ok b" "bit_cnt b = bit_cnt (used_map ?u)"
    "used_bits b = used_bits (used_map ?u) - {i}"
    using release_run_ok(1) [OF u, of i 1] less i(2) by auto
  let ?f = "f\<lparr>user_pool := ?u\<lparr>used_map := b\<rparr>, memory := fill k 0xcc 4096 (memory f)\<rparr>"
  have "palloc_free_page k f = Some ?f"
    using palloc_free_multiple_eq [OF assms(1), of k PAL_USER i 1] i(1) less b(1) flag by (simp add: palloc_free_page_def)
  moreover have "used_pages (user_pool ?f) = used_pages ?u - {k}"
    by (auto simp: used_pages_def b(4) i(1) page_addr_def)
  moreover have "palloc_ok ?f" using assms(1) b(2,3) by (simp add: palloc_ok_def pool_ok_def pool_end_def)
  ultimately show ?thesis using b(3) by (intro exI [of _ ?f]) simp
qed

text \<open>Writing to a user frame, or to an entry of a page table, changes no page directory.\<close>

lemma user_frame_apart:
  assumes "palloc_ok f" "k \<in> used_pages (user_pool f)" "P \<in> used_pages (kernel_pool f)" "i < 1024"
    "\<And>x. x \<notin> {k..<k + 4096} \<Longrightarrow> m' x = m x"
  shows "read32 m' (P + 4 * i) = read32 m (P + 4 * i)"
proof -
  have "P + 4096 \<le> pool_end (kernel_pool f)" "base (user_pool f) \<le> k"
    using assms(2,3) by (auto simp: used_pages_def page_addr_def used_bits_def pool_end_def)
  then have "P + 4096 \<le> k" using assms(1) by (simp add: palloc_ok_def)
  then show ?thesis using assms(4) by (intro read32_cong assms(5)) auto
qed

lemma pd_ok_keep:
  assumes "pd_ok s pd" "palloc_ok (frames s')" "kernel_pool (frames s') = kernel_pool (frames s)"
    "\<And>i. i < 768 \<Longrightarrow> pde s' pd i = pde s pd i"
  shows "pd_ok s' pd"
  using assms unfolding pd_ok_def tables_def by simp

lemma set_pte_dirs:
  assumes "pd_ok s pd" "is_user_vaddr a" "pte_addr s pd a = Some e" "dirs_apart s D" "pd \<in> D" "pd' \<in> D" "pd_ok s pd'" "i < 768"
  shows "pde (set32 s e w) pd' i = pde s pd' i"
proof -
  obtain T where T: "pde_get_pt (pde s pd (pd_no a)) = Some T" "T mod 4096 = 0" "e = T + 4 * pt_no a"
    using pte_addr_ok [OF assms(1-3)] by (elim exE conjE)
  have "pde s pd (pd_no a) \<noteq> 0" using assms(3) by (auto simp: pte_addr_def split: if_splits)
  then have "pde_get_pt (pde s pd (pd_no a)) \<noteq> Some pd'"
    using assms(4-6) user_indices(1) [OF assms(2)] unfolding dirs_apart_def by blast
  then have "T \<noteq> pd'" using T(1) by simp
  then show ?thesis
    unfolding pde_def T(3) using T(2) pd_okD(1) [OF assms(7)] user_indices(2) assms(8) by (subst get32_set32) auto
qed

text \<open>The rest of the machine: nothing but the use of frames changes.\<close>

definition same_machine :: "mmu \<Rightarrow> mmu \<Rightarrow> bool" where
  "same_machine s s' \<longleftrightarrow> cr3 s' = cr3 s \<and> init_page_dir s' = init_page_dir s \<and> init_ram_pages s' = init_ram_pages s \<and>
     base (user_pool (frames s')) = base (user_pool (frames s)) \<and> bit_cnt (used_map (user_pool (frames s'))) = bit_cnt (used_map (user_pool (frames s)))"

lemma drop_frame:
  assumes D: "\<forall>d \<in> D. pd_ok s d" "dirs_apart s D" and pd: "pd \<in> D" and a: "is_user_vaddr a" "pg_ofs a = 0"
    and k: "k \<in> used_pages (user_pool (frames s))" and c: "cr3 s < PHYS_BASE"
  shows "\<exists>s1 f. pagedir_clear_page pd a s = Some s1 \<and> palloc_free_page k (frames s1) = Some f \<and>
    (\<forall>d \<in> D. pd_ok (s1\<lparr>frames := f\<rparr>) d) \<and> dirs_apart (s1\<lparr>frames := f\<rparr>) D \<and> same_machine s (s1\<lparr>frames := f\<rparr>) \<and>
    used_pages (user_pool f) = used_pages (user_pool (frames s)) - {k} \<and> pte_val (s1\<lparr>frames := f\<rparr>) pd a AND PTE_P = 0 \<and>
    pte_addr (s1\<lparr>frames := f\<rparr>) pd a = pte_addr s pd a"
proof -
  have pd_s: "pd_ok s pd" using D(1) pd by blast
  obtain s1 where s1: "pagedir_clear_page pd a s = Some s1"
    "s1 = s \<or> (\<exists>e w. pte_addr s pd a = Some e \<and> s1 = set32 s e w)" "pte_val s1 pd a AND PTE_P = 0"
    using clear_page_ok [OF pd_s a c] by blast
  have pools: "kernel_pool (frames s1) = kernel_pool (frames s)" "user_pool (frames s1) = user_pool (frames s)"
    using s1(2) by (auto simp: set32_def)
  have pal: "palloc_ok (frames s1)" using pd_s pools by (auto simp: pd_ok_def palloc_ok_def)
  have pde1: "pde s1 d i = pde s d i" if "d \<in> D" "i < 768" for d i
  proof (cases "s1 = s")
    case False
    then obtain e w where e: "pte_addr s pd a = Some e" "s1 = set32 s e w" using s1(2) by blast
    have "pd_ok s d" using D(1) that(1) by blast
    from set_pte_dirs [OF pd_s a(1) e(1) D(2) pd that(1) this that(2)] show ?thesis by (simp add: e(2))
  qed simp
  obtain f where f: "palloc_free_page k (frames s1) = Some f" "palloc_ok f" "kernel_pool f = kernel_pool (frames s1)"
    "used_pages (user_pool f) = used_pages (user_pool (frames s)) - {k}" "memory f = fill k 0xcc 4096 (memory (frames s1))"
    "base (user_pool f) = base (user_pool (frames s))" "bit_cnt (used_map (user_pool f)) = bit_cnt (used_map (user_pool (frames s)))"
    using free_user_page [OF pal] k pools(2) by auto
  let ?s = "s1\<lparr>frames := f\<rparr>"
  have word: "get32 ?s (P + 4 * i) = get32 s1 (P + 4 * i)" if "P \<in> tables s" "i < 1024" for P i
  proof -
    have "k \<in> used_pages (user_pool (frames s1))" "P \<in> used_pages (kernel_pool (frames s1))" using k that(1) pools by (simp_all add: tables_def)
    then have "read32 (memory f) (P + 4 * i) = read32 (memory (frames s1)) (P + 4 * i)"
      by (rule user_frame_apart [OF pal _ _ that(2)]) (auto simp: f(5) fill_def)
    then show ?thesis by (simp add: get32_def)
  qed
  have pde2: "pde ?s d i = pde s d i" if "d \<in> D" "i < 768" for d i
    using word [of d i] pde1 [OF that] D(1) that pd_okD(3) [of s d] by (simp add: pde_def)
  have okD: "\<forall>d \<in> D. pd_ok ?s d"
  proof
    fix d assume d: "d \<in> D"
    then have "pd_ok s d" using D(1) by blast
    then show "pd_ok ?s d"
      by (rule pd_ok_keep) (use f(2,3) pools(1) pde2 [OF d] in simp_all)
  qed
  moreover have "dirs_apart ?s D" using D(2) pde2 unfolding dirs_apart_def by simp
  moreover have addr: "pte_addr ?s pd a = pte_addr s pd a" "pte_addr s1 pd a = pte_addr s pd a"
    using pde1 pde2 pd user_indices(1) [OF a(1)] by (simp_all add: pte_addr_def)
  moreover have "pte_val ?s pd a = pte_val s1 pd a"
  proof (cases "pte_addr s pd a")
    case (Some e)
    then obtain T where "T \<in> tables s" "e = T + 4 * pt_no a" using pte_addr_ok [OF pd_s a(1)] by blast
    then show ?thesis using word user_indices(2) Some addr by (simp add: pte_val_def)
  qed (simp add: pte_val_def addr)
  moreover have "same_machine s ?s" using s1(2) f(6,7) by (auto simp: same_machine_def set32_def)
  ultimately show ?thesis
    using s1(1,3) f(1,4) by (intro exI [of _ s1] exI [of _ f]) simp
qed

lemma next_of_set: "distinct xs \<Longrightarrow> p \<in> set xs \<Longrightarrow> next_of xs p = NULL \<or> next_of xs p \<in> set (remove1 p xs)"
  using split_list_first [of p xs] by (auto simp: next_of_split remove1_append split: list.splits)

lemma evict_frame_ok:
  assumes "vm_ok v" "p \<in> set (page_list v)" "page_elem v = p"
  shows "\<exists>v'. evict_frame p v = Some (v', True) \<and> vm_ok v' \<and> page_list v' = remove1 p (page_list v) \<and> page_elem v' = next_of (page_list v) p \<and>
    spages v' = (spages v)(p := (spages v p)\<lparr>kaddr := 0\<rparr>) \<and> swap_dev v' = swap_dev v \<and> fmaps v' = fmaps v \<and> files v' = files v \<and>
    used_pages (user_pool (frames (vm_mmu v'))) = used_pages (user_pool (frames (vm_mmu v))) - {kaddr (spages v p)} \<and>
    pte_val (vm_mmu v') (pagedir (spages v p)) (vaddr (spages v p)) AND PTE_P = 0 \<and> pd_ok (vm_mmu v') (pagedir (spages v p)) \<and>
    pte_addr (vm_mmu v') (pagedir (spages v p)) (vaddr (spages v p)) = pte_addr (vm_mmu v) (pagedir (spages v p)) (vaddr (spages v p)) \<and>
    same_machine (vm_mmu v) (vm_mmu v')"
proof -
  let ?page = "spages v p" and ?D = "(\<lambda>p. pagedir (spages v p)) ` set (page_list v)"
  note ok = assms(1) [unfolded vm_ok_def]
  obtain s1 f where s1: "pagedir_clear_page (pagedir ?page) (vaddr ?page) (vm_mmu v) = Some s1" "palloc_free_page (kaddr ?page) (frames s1) = Some f"
    "\<forall>d \<in> ?D. pd_ok (s1\<lparr>frames := f\<rparr>) d" "dirs_apart (s1\<lparr>frames := f\<rparr>) ?D" "same_machine (vm_mmu v) (s1\<lparr>frames := f\<rparr>)"
    "used_pages (user_pool f) = used_pages (user_pool (frames (vm_mmu v))) - {kaddr ?page}"
    "pte_val (s1\<lparr>frames := f\<rparr>) (pagedir ?page) (vaddr ?page) AND PTE_P = 0"
    "pte_addr (s1\<lparr>frames := f\<rparr>) (pagedir ?page) (vaddr ?page) = pte_addr (vm_mmu v) (pagedir ?page) (vaddr ?page)"
    using drop_frame [of ?D "vm_mmu v" "pagedir ?page" "vaddr ?page" "kaddr ?page"] ok assms(2) by (auto simp: page_ok_def)
  define v' where "v' = v\<lparr>vm_mmu := s1\<lparr>frames := f\<rparr>, spages := (spages v)(p := ?page\<lparr>kaddr := 0\<rparr>),
    page_list := remove1 p (page_list v), page_elem := next_of (page_list v) p\<rparr>"
  have "evict_frame p v = Some (v', True)"
    using s1(1,2) assms(3) by (simp add: evict_frame_def v'_def free_frame_def set_frames_def upd_page_def Let_def)
  moreover have "vm_ok v'"
  proof -
    let ?R = "set (page_list v) - {p}"
    have sp: "spages v' q = spages v q" if "q \<in> ?R" for q using that by (simp add: v'_def)
    have "page_ok (vm_mmu v') (spages v' q)" if q: "q \<in> ?R" for q
    proof -
      have "kaddr (spages v q) \<noteq> kaddr ?page" using ok q assms(2) by (auto dest: inj_onD)
      then show ?thesis using ok q s1(3,6) sp [OF q] by (auto simp: page_ok_def v'_def)
    qed
    moreover have "inj_on (\<lambda>q. kaddr (spages v' q)) ?R" using ok sp by (auto simp: inj_on_def)
    moreover have "dirs_apart (vm_mmu v') ((\<lambda>q. pagedir (spages v' q)) ` ?R)"
      using s1(4) sp by (auto simp: dirs_apart_def v'_def)
    moreover have "set (page_list v') = ?R" "distinct (page_list v')" "NULL \<notin> ?R" using ok by (auto simp: v'_def)
    moreover have "page_elem v' = NULL \<or> page_elem v' \<in> ?R" using next_of_set [of "page_list v" p] ok assms(2) by (auto simp: v'_def)
    moreover have "swap_ok (swap_dev v')" "cr3 (vm_mmu v') < PHYS_BASE" using ok s1(5) by (auto simp: v'_def same_machine_def)
    ultimately show ?thesis unfolding vm_ok_def by simp
  qed
  moreover have "pd_ok (vm_mmu v') (pagedir ?page)" using s1(3) assms(2) by (simp add: v'_def)
  ultimately show ?thesis using s1(5-8) by (intro exI [of _ v']) (simp add: v'_def)
qed

section \<open>Where the page goes\<close>

text \<open>The bytes of a page in a frame, and in a page of the swap device.\<close>

definition frame_bytes :: "'f vm \<Rightarrow> ptr \<Rightarrow> u8 list" where
  "frame_bytes v k = map (\<lambda>i. memory (frames (vm_mmu v)) (k + i)) [0..<4096]"

definition swap_bytes :: "'f vm \<Rightarrow> nat \<Rightarrow> u8 list" where
  "swap_bytes v q = map (\<lambda>i. swap_block (swap_dev v) (q * 8 + i div 512) (i mod 512)) [0..<4096]"

lemma vm_ok_page:
  assumes "vm_ok v" "cached (g (spages v p)) = cached ((spages v p)\<lparr>saddr := a, location := l\<rparr>)" "swap_ok w"
  shows "vm_ok ((upd_page p g v)\<lparr>swap_dev := w\<rparr>)"
proof -
  have sp: "vaddr (g (spages v p)) = vaddr (spages v p)" "kaddr (g (spages v p)) = kaddr (spages v p)" "pagedir (g (spages v p)) = pagedir (spages v p)"
    using cached_same [OF assms(2)] by simp_all
  define sp' where "sp' = (spages v)(p := g (spages v p))"
  have e: "vaddr (sp' q) = vaddr (spages v q)" "kaddr (sp' q) = kaddr (spages v q)" "pagedir (sp' q) = pagedir (spages v q)" for q
    using sp by (simp_all add: sp'_def)
  have "(upd_page p g v)\<lparr>swap_dev := w\<rparr> = v\<lparr>spages := sp', swap_dev := w\<rparr>" by (simp add: upd_page_def sp'_def)
  then show ?thesis using assms(1,3) by (simp add: vm_ok_def page_ok_def e)
qed

lemma swap_out_bytes:
  assumes "swap_ok s" "q \<in> used_bits (alloc_map s)"
  shows "\<exists>w. swap_load_page_to_swap q addr s = Some w \<and> swap_ok w \<and> alloc_map w = alloc_map s \<and> ram w = ram s \<and>
    (\<forall>i < 4096. swap_block w (q * 8 + i div 512) (i mod 512) = ram s (addr + i)) \<and>
    (\<forall>q' i. q' \<noteq> q \<longrightarrow> i < 4096 \<longrightarrow> swap_block w (q' * 8 + i div 512) (i mod 512) = swap_block s (q' * 8 + i div 512) (i mod 512))"
proof -
  obtain w where w: "swap_load_page_to_swap q addr s = Some w" "alloc_map w = alloc_map s" "swap_size w = swap_size s" "ram w = ram s"
    "\<forall>i k. k < 512 \<longrightarrow> swap_block w i k = (if i \<in> {q * 8..<q * 8 + 8} then ram s (addr + (i - q * 8) * 512 + k) else swap_block s i k)"
    using write_sectors_spec [OF swap_used_check(2) [OF assms], of addr] swap_used_check(1) [OF assms] by (auto simp: swap_load_page_to_swap_def)
  have d: "i div 512 < 8" if "i < 4096" for i :: nat using that by (simp add: div_less_iff_less_mult)
  have "swap_block w (q * 8 + i div 512) (i mod 512) = ram s (addr + i)" if "i < 4096" for i
    using w(5) d [OF that] by (simp add: add.assoc)
  moreover have "swap_block w (q' * 8 + i div 512) (i mod 512) = swap_block s (q' * 8 + i div 512) (i mod 512)" if "q' \<noteq> q" "i < 4096" for q' i
  proof -
    have "q' * 8 + i div 512 \<notin> {q * 8..<q * 8 + 8}" using d [OF that(2)] that(1) by auto
    then show ?thesis using w(5) [rule_format, of "i mod 512" "q' * 8 + i div 512"] by (simp only: if_False)
  qed
  moreover have "swap_ok w" using assms(1) w(2,3) by (simp add: swap_ok_def)
  ultimately show ?thesis using w(1,2,4) by blast
qed

lemma move_to_swap_ok:
  assumes "vm_ok v"
  shows "\<exists>v' r. move_to_swap p v = Some (v', r \<noteq> None) \<and> vm_ok v' \<and> vm_mmu v' = vm_mmu v \<and> fmaps v' = fmaps v \<and> page_list v' = page_list v \<and>
    page_elem v' = page_elem v \<and> files v' = files v \<and>
    (case r of None \<Rightarrow> spages v' = spages v \<and> used_bits (alloc_map (swap_dev v)) = {..<bit_cnt (alloc_map (swap_dev v))} \<and>
         used_bits (alloc_map (swap_dev v')) = used_bits (alloc_map (swap_dev v)) \<and> swap_block (swap_dev v') = swap_block (swap_dev v)
     | Some q \<Rightarrow> q \<notin> used_bits (alloc_map (swap_dev v)) \<and> used_bits (alloc_map (swap_dev v')) = insert q (used_bits (alloc_map (swap_dev v))) \<and>
         spages v' = (spages v)(p := (spages v p)\<lparr>saddr := Some q, location := PG_LOCATION_SWAP\<rparr>) \<and>
         swap_bytes v' q = frame_bytes v (kaddr (spages v p)) \<and> (\<forall>q'. q' \<noteq> q \<longrightarrow> swap_bytes v' q' = swap_bytes v q'))"
proof -
  have ok: "swap_ok (swap_dev v)" using assms by (simp add: vm_ok_def)
  obtain s r where s: "swap_get_page (swap_dev v) = Some (s, r)" "swap_ok s" "swap_block s = swap_block (swap_dev v)"
    "case r of None \<Rightarrow> used_bits (alloc_map (swap_dev v)) = {..<bit_cnt (alloc_map (swap_dev v))} \<and> used_bits (alloc_map s) = used_bits (alloc_map (swap_dev v))
     | Some q \<Rightarrow> q < bit_cnt (alloc_map (swap_dev v)) \<and> q \<notin> used_bits (alloc_map (swap_dev v)) \<and> used_bits (alloc_map s) = insert q (used_bits (alloc_map (swap_dev v)))"
    using swap_get_page_ok [OF ok] by blast
  show ?thesis
  proof (cases r)
    case None
    have "vm_ok (v\<lparr>swap_dev := s\<rparr>)" using assms s(2) by (simp add: vm_ok_def)
    then show ?thesis using s None by (intro exI [of _ "v\<lparr>swap_dev := s\<rparr>"] exI [of _ None]) (simp add: move_to_swap_def)
  next
    case (Some q)
    let ?s = "s\<lparr>ram := memory (frames (vm_mmu v))\<rparr>" and ?k = "kaddr (spages v p)"
    have q: "swap_ok ?s" "q \<in> used_bits (alloc_map ?s)" using s(2,4) Some by (simp_all add: swap_ok_def)
    obtain w where w: "swap_load_page_to_swap q ?k ?s = Some w" "swap_ok w" "alloc_map w = alloc_map s" "ram w = memory (frames (vm_mmu v))"
      "\<forall>i < 4096. swap_block w (q * 8 + i div 512) (i mod 512) = memory (frames (vm_mmu v)) (?k + i)"
      "\<forall>q' i. q' \<noteq> q \<longrightarrow> i < 4096 \<longrightarrow> swap_block w (q' * 8 + i div 512) (i mod 512) = swap_block s (q' * 8 + i div 512) (i mod 512)"
      using swap_out_bytes [OF q, of ?k] by auto
    define v' where "v' = (upd_page p (\<lambda>r. r\<lparr>saddr := Some q, location := PG_LOCATION_SWAP\<rparr>) v)\<lparr>swap_dev := w\<rparr>"
    have run: "move_to_swap p v = Some (v', True)"
      using s(1) Some w(1,4) by (simp add: move_to_swap_def on_swap_def set_frames_def v'_def upd_page_def)
    have "vm_ok v'" unfolding v'_def by (intro vm_ok_page [OF assms]) (simp_all add: w(2))
    moreover have "swap_bytes v' q = frame_bytes v ?k" using w(5) by (simp add: swap_bytes_def frame_bytes_def v'_def)
    moreover have "\<forall>q'. q' \<noteq> q \<longrightarrow> swap_bytes v' q' = swap_bytes v q'" using w(6) s(3) by (simp add: swap_bytes_def v'_def)
    ultimately show ?thesis
      using run s(4) Some w(3) by (intro exI [of _ v'] exI [of _ r]) (simp add: v'_def upd_page_def)
  qed
qed

text \<open>What writing a mapped page back leaves in the files: the part of the page that the file covers.\<close>

definition write_back :: "'f file_io \<Rightarrow> 'f vm \<Rightarrow> ptr \<Rightarrow> 'f" where
  "write_back io v p = (let page = spages v p; m = fmaps v (mapping page);
     start = range_start page m; end = range_end page m
   in if fl m = NULL \<or> end \<le> start then files v
      else fst (file_write_at io (fl m) (start - start_vaddr m) (take (end - start) (drop (start - vaddr page) (frame_bytes v (kaddr page)))) (files v)))"

lemma pg_round_down_aligned: "a mod 4096 = 0 \<Longrightarrow> pg_round_down a = a"
  by (auto simp: pg_round_down_def push_bit_eq_mult drop_bit_eq_div PGBITS_def mod_eq_0_iff_dvd)

lemma frame_slice:
  assumes "a + n \<le> 4096"
  shows "take n (drop a (frame_bytes v k)) = map (memory (frames (vm_mmu v))) [k + a..<k + a + n]"
  using assms by (intro nth_equalityI) (simp_all add: frame_bytes_def add.assoc)

lemma load_to_file_ok:
  assumes "vm_ok v" "p \<in> set (page_list v)" "is_mod v p" "mapping (spages v p) \<noteq> NULL" "fl_writable (fmaps v (mapping (spages v p)))"
  shows "\<exists>v' ok. load_to_file io (\<lambda>v. Some (v, kaddr (spages v p) \<noteq> 0)) False p v = Some (v'\<lparr>files := write_back io v p\<rparr>, ok) \<and>
    only_cached v v' \<and> page_elem v' = page_elem v"
proof -
  let ?page = "spages v p" let ?m = "fmaps v (mapping ?page)"
  have p: "page_ok (vm_mmu v) ?page" "p \<noteq> NULL" using assms(1,2) unfolding vm_ok_def by (blast, metis)
  have k: "kaddr ?page \<noteq> 0" "pg_round_down (kaddr ?page) = kaddr ?page"
    using page_ok_kaddr [OF p(1)] pg_round_down_aligned by simp_all
  obtain v1 where v1: "suppl_page_dirty p v = Some (v1, True)" "only_cached v v1" "page_elem v1 = page_elem v"
    using suppl_page_dirty_ok [OF p(1)] assms(3) by auto
  have same: "mapping (spages v1 p) = mapping ?page" "vaddr (spages v1 p) = vaddr ?page" "kaddr (spages v1 p) = kaddr ?page"
    "fmaps v1 = fmaps v" "vm_mmu v1 = vm_mmu v" "files v1 = files v"
    using only_cached_same [OF v1(2), of p] v1(2) by (simp_all add: only_cached_def)
  define start where "start = range_start ?page ?m"
  define last where "last = range_end ?page ?m"
  let ?bytes = "take (last - start) (drop (start - vaddr ?page) (frame_bytes v (kaddr ?page)))"
  have bytes: "?bytes = map (memory (frames (vm_mmu v))) [kaddr ?page + (start - vaddr ?page)..<kaddr ?page + (start - vaddr ?page) + (last - start)]" if "start < last"
    using that by (intro frame_slice) (auto simp: start_def last_def range_start_def range_end_def Let_def split: if_splits)
  have fs: "write_back io v p = (if fl ?m = NULL \<or> last \<le> start then files v else fst (file_write_at io (fl ?m) (start - start_vaddr ?m) ?bytes (files v)))"
    by (simp add: write_back_def Let_def start_def last_def)
  have rng: "range_start (spages v1 p) ?m = start" "range_end (spages v1 p) ?m = last"
    unfolding range_start_def range_end_def start_def last_def same by (rule refl)+
  show ?thesis
  proof (cases "fl ?m = NULL \<or> last \<le> start")
    case True
    then have "load_to_file io (\<lambda>v. Some (v, kaddr (spages v p) \<noteq> 0)) False p v = Some (if fl ?m = NULL then v else v1, fl ?m \<noteq> NULL)"
      unfolding load_to_file_def Let_def using assms(4,5) p(2) v1(1) k(1) by (auto simp: same rng)
    moreover have "(if fl ?m = NULL then v else v1)\<lparr>files := write_back io v p\<rparr> = (if fl ?m = NULL then v else v1)"
      using True fs same(6) by auto
    ultimately show ?thesis using v1(2,3) only_cached_refl [of v] by (intro exI [of _ "if fl ?m = NULL then v else v1"] exI [of _ "fl ?m \<noteq> NULL"]) simp
  next
    case False
    then have "load_to_file io (\<lambda>v. Some (v, kaddr (spages v p) \<noteq> 0)) False p v =
        (let (f, n) = file_write_at io (fl ?m) (start - start_vaddr ?m) ?bytes (files v) in Some (v1\<lparr>files := f\<rparr>, n = last - start))"
      unfolding load_to_file_def Let_def using assms(4,5) p(2) v1(1) k by (simp add: same rng bytes)
    then show ?thesis using False fs v1 by (auto split: prod.splits)
  qed
qed

section \<open>Eviction\<close>

text \<open>Pages of writable mappings go to their file, the others to swap.\<close>

definition to_file :: "'f vm \<Rightarrow> ptr \<Rightarrow> bool" where
  "to_file v p \<longleftrightarrow> mapping (spages v p) \<noteq> NULL \<and> writable (fmaps v (mapping (spages v p))) \<and>
     (is_mod v p \<longrightarrow> fl_writable (fmaps v (mapping (spages v p))))"

text \<open>The page has lost its frame and its contents are where its record says.\<close>

definition evicted :: "'f file_io \<Rightarrow> 'f vm \<Rightarrow> ptr \<Rightarrow> 'f vm \<Rightarrow> bool" where
  "evicted io v p v' \<longleftrightarrow> page_list v' = remove1 p (page_list v) \<and> page_elem v' = next_of (page_list v) p \<and>
     kaddr (spages v' p) = 0 \<and> pagedir_get_page (pagedir (spages v p)) (vaddr (spages v p)) (vm_mmu v') = Some NULL \<and>
     pte_val (vm_mmu v') (pagedir (spages v p)) (vaddr (spages v p)) AND PTE_P = 0 \<and>
     pte_addr (vm_mmu v') (pagedir (spages v p)) (vaddr (spages v p)) = pte_addr (vm_mmu v) (pagedir (spages v p)) (vaddr (spages v p)) \<and>
     pd_ok (vm_mmu v') (pagedir (spages v p)) \<and> same_machine (vm_mmu v) (vm_mmu v') \<and>
     pagedir (spages v' p) = pagedir (spages v p) \<and> vaddr (spages v' p) = vaddr (spages v p) \<and>
     used_pages (user_pool (frames (vm_mmu v'))) = used_pages (user_pool (frames (vm_mmu v))) - {kaddr (spages v p)} \<and>
     (\<forall>q. q \<noteq> p \<longrightarrow> cached (spages v' q) = cached (spages v q)) \<and>
     (if to_file v p then location (spages v' p) = PG_LOCATION_FILE \<and> files v' = (if is_mod v p then write_back io v p else files v) \<and>
        swap_dev v' = swap_dev v
      else \<exists>q. location (spages v' p) = PG_LOCATION_SWAP \<and> saddr (spages v' p) = Some q \<and> q \<notin> used_bits (alloc_map (swap_dev v)) \<and>
        used_bits (alloc_map (swap_dev v')) = insert q (used_bits (alloc_map (swap_dev v))) \<and> files v' = files v \<and>
        swap_bytes v' q = frame_bytes v (kaddr (spages v p)) \<and> (\<forall>q'. q' \<noteq> q \<longrightarrow> swap_bytes v' q' = swap_bytes v q'))"

definition swap_full :: "'f vm \<Rightarrow> bool" where
  "swap_full v \<longleftrightarrow> used_bits (alloc_map (swap_dev v)) = {..<bit_cnt (alloc_map (swap_dev v))}"

lemma swap_bytes_cong: "swap_block (swap_dev v') = swap_block (swap_dev v) \<Longrightarrow> swap_bytes v' = swap_bytes v"
  by (simp add: fun_eq_iff swap_bytes_def)

lemma to_file_evicted:
  assumes "vm_ok v" "only_cached v w" "page_elem w = p" "p \<in> set (page_list v)" "to_file v p"
    "fs = (if is_mod v p then write_back io v p else files v)"
  shows "\<exists>v'. evict_frame p (upd_page p (location_update (\<lambda>_. PG_LOCATION_FILE)) (w\<lparr>files := fs\<rparr>)) = Some (v', True) \<and> vm_ok v' \<and> evicted io v p v'"
proof -
  let ?g = "location_update (\<lambda>_. PG_LOCATION_FILE)"
  have w: "vm_ok w" "page_list w = page_list v" "vm_mmu w = vm_mmu v" "swap_dev w = swap_dev v" "\<And>q. cached (spages w q) = cached (spages v q)"
    using vm_ok_cached [OF assms(1,2)] assms(2-4) by (auto simp: only_cached_def)
  define u where "u = upd_page p ?g (w\<lparr>files := fs\<rparr>)"
  have "vm_ok (w\<lparr>files := fs\<rparr>)" using w(1) by (simp add: vm_ok_def)
  from vm_ok_page [OF this, where g = ?g and p = p and a = "saddr (spages w p)" and l = PG_LOCATION_FILE and w = "swap_dev w"] w(1) have u: "vm_ok u"
    by (simp add: u_def upd_page_def vm_ok_def cached_def)
  have "p \<in> set (page_list u)" "page_elem u = p" using assms(3,4) w(2) by (simp_all add: u_def upd_page_def)
  from evict_frame_ok [OF u this] obtain v' where v': "evict_frame p u = Some (v', True)" "vm_ok v'" "page_list v' = remove1 p (page_list u)"
    "page_elem v' = next_of (page_list u) p" "spages v' = (spages u)(p := (spages u p)\<lparr>kaddr := 0\<rparr>)" "swap_dev v' = swap_dev u" "files v' = files u"
    "used_pages (user_pool (frames (vm_mmu v'))) = used_pages (user_pool (frames (vm_mmu u))) - {kaddr (spages u p)}"
    "pte_val (vm_mmu v') (pagedir (spages u p)) (vaddr (spages u p)) AND PTE_P = 0" "pd_ok (vm_mmu v') (pagedir (spages u p))"
    "pte_addr (vm_mmu v') (pagedir (spages u p)) (vaddr (spages u p)) = pte_addr (vm_mmu u) (pagedir (spages u p)) (vaddr (spages u p))"
    "same_machine (vm_mmu u) (vm_mmu v')"
    by blast
  have "is_user_vaddr (vaddr (spages u p))" using u \<open>p \<in> set (page_list u)\<close> by (auto simp: vm_ok_def page_ok_def)
  then have "pagedir_get_page (pagedir (spages u p)) (vaddr (spages u p)) (vm_mmu v') = Some NULL"
    using pagedir_get_page_eq [OF v'(10)] v'(9) by simp
  then have "evicted io v p v'"
    using v'(3-12) assms(5,6) w(2-5) only_cached_same [OF assms(2), of p] unfolding evicted_def u_def by (simp add: upd_page_def)
  then show ?thesis using v'(1,2) by (auto simp: u_def)
qed

lemma to_swap_evicted:
  assumes "vm_ok v" "only_cached v w" "page_elem w = p" "p \<in> set (page_list v)" "\<not> to_file v p"
  shows "\<exists>v' ok. do { (w, ok) \<leftarrow> move_to_swap p w; if ok then evict_frame p w else Some (w, False) } = Some (v', ok) \<and> vm_ok v' \<and>
    (if ok then evicted io v p v' else swap_full v \<and> only_cached (v\<lparr>swap_dev := swap_dev v'\<rparr>) v')"
proof -
  have w: "vm_ok w" "page_list w = page_list v" "vm_mmu w = vm_mmu v" "swap_dev w = swap_dev v" "files w = files v" "fmaps w = fmaps v"
    "is_mod w = is_mod v" "is_ref w = is_ref v" "\<And>q. cached (spages w q) = cached (spages v q)"
    using vm_ok_cached [OF assms(1,2)] assms(2-4) by (auto simp: only_cached_def)
  obtain u r where u: "move_to_swap p w = Some (u, r \<noteq> None)" "vm_ok u" "vm_mmu u = vm_mmu v" "fmaps u = fmaps v" "page_list u = page_list v"
    "page_elem u = p" "files u = files v"
    and r: "case r of None \<Rightarrow> spages u = spages w \<and> used_bits (alloc_map (swap_dev v)) = {..<bit_cnt (alloc_map (swap_dev v))} \<and>
         used_bits (alloc_map (swap_dev u)) = used_bits (alloc_map (swap_dev v)) \<and> swap_block (swap_dev u) = swap_block (swap_dev v)
     | Some q \<Rightarrow> q \<notin> used_bits (alloc_map (swap_dev v)) \<and> used_bits (alloc_map (swap_dev u)) = insert q (used_bits (alloc_map (swap_dev v))) \<and>
         spages u = (spages w)(p := (spages w p)\<lparr>saddr := Some q, location := PG_LOCATION_SWAP\<rparr>) \<and>
         swap_bytes u q = frame_bytes w (kaddr (spages w p)) \<and> (\<forall>q'. q' \<noteq> q \<longrightarrow> swap_bytes u q' = swap_bytes w q')"
    using move_to_swap_ok [OF w(1), of p] unfolding w(2-6) assms(3) by blast
  show ?thesis
  proof (cases r)
    case None
    have "is_mod u = is_mod w" "is_ref u = is_ref w"
      using r None u(3) w(3) by (simp_all add: is_mod_def is_ref_def fun_eq_iff)
    then have "only_cached (v\<lparr>swap_dev := swap_dev u\<rparr>) u"
      using r None u w by (simp add: only_cached_def is_mod_def is_ref_def fun_eq_iff)
    then show ?thesis using r None u(1,2) by (intro exI [of _ u] exI [of _ False]) (simp add: swap_full_def)
  next
    case (Some q)
    have "p \<in> set (page_list u)" using assms(4) u(5) by simp
    from evict_frame_ok [OF u(2) this u(6)] obtain v' where v': "evict_frame p u = Some (v', True)" "vm_ok v'" "page_list v' = remove1 p (page_list u)"
      "page_elem v' = next_of (page_list u) p" "spages v' = (spages u)(p := (spages u p)\<lparr>kaddr := 0\<rparr>)" "swap_dev v' = swap_dev u" "files v' = files u"
      "used_pages (user_pool (frames (vm_mmu v'))) = used_pages (user_pool (frames (vm_mmu u))) - {kaddr (spages u p)}"
      "pte_val (vm_mmu v') (pagedir (spages u p)) (vaddr (spages u p)) AND PTE_P = 0" "pd_ok (vm_mmu v') (pagedir (spages u p))"
    "pte_addr (vm_mmu v') (pagedir (spages u p)) (vaddr (spages u p)) = pte_addr (vm_mmu u) (pagedir (spages u p)) (vaddr (spages u p))"
    "same_machine (vm_mmu u) (vm_mmu v')"
      by blast
    have "is_user_vaddr (vaddr (spages u p))" using u(2) \<open>p \<in> set (page_list u)\<close> by (auto simp: vm_ok_def page_ok_def)
    then have "pagedir_get_page (pagedir (spages u p)) (vaddr (spages u p)) (vm_mmu v') = Some NULL"
      using pagedir_get_page_eq [OF v'(10)] v'(9) by simp
    moreover have "swap_bytes v' = swap_bytes u" "swap_bytes w = swap_bytes v" using v'(6) w(4) swap_bytes_cong [of v' u] swap_bytes_cong [of w v] by simp_all
    moreover have "frame_bytes w (kaddr (spages w p)) = frame_bytes v (kaddr (spages v p))"
      using w(3) only_cached_same(2) [OF assms(2)] by (simp add: frame_bytes_def)
    ultimately have "evicted io v p v'"
      using r Some v'(3-12) assms(5) u(3-7) w(9) only_cached_same [OF assms(2), of p] unfolding evicted_def by simp
    then show ?thesis using Some u(1) v'(1,2) by (intro exI [of _ v'] exI [of _ True]) simp
  qed
qed

lemma write_back_cached:
  assumes "only_cached v w"
  shows "write_back io w p = write_back io v p"
proof -
  have e: "vm_mmu w = vm_mmu v" "fmaps w = fmaps v" "files w = files v" using assms by (simp_all add: only_cached_def)
  show ?thesis
    unfolding write_back_def Let_def range_start_def range_end_def frame_bytes_def only_cached_same [OF assms] e by (rule refl)
qed

theorem evict_page_ok:
  assumes "vm_ok v" "page_list v \<noteq> []"
  shows "\<exists>v' ok. evict_page io v = Some (v', ok) \<and> vm_ok v' \<and> victim v \<in> set (page_list v) \<and>
    (if ok then evicted io v (victim v) v' else \<not> to_file v (victim v) \<and> swap_full v \<and> only_cached (v\<lparr>swap_dev := swap_dev v'\<rparr>) v')"
proof -
  let ?p = "victim v"
  obtain w where w: "only_cached v w" "page_elem w = ?p" and p: "?p \<in> set (page_list v)"
    and run: "evict_page io v = (if is_mod v ?p then evict_modified io ?p w else evict_not_modified ?p w)"
    using evict_page_choice [OF assms] by blast
  have same: "mapping (spages w ?p) = mapping (spages v ?p)" "fmaps w = fmaps v"
    using only_cached_same(4) [OF w(1)] w(1) by (simp_all add: only_cached_def)
  show ?thesis
  proof (cases "to_file v ?p")
    case False
    then have "evict_page io v = do { (w, ok) \<leftarrow> move_to_swap ?p w; if ok then evict_frame ?p w else Some (w, False) }"
      using run unfolding evict_modified_def evict_not_modified_def Let_def same by (auto simp: to_file_def)
    with to_swap_evicted [OF assms(1) w p False, of io] p False show ?thesis by metis
  next
    case True
    have "\<exists>u. only_cached v u \<and> page_elem u = ?p \<and> evict_page io v =
        evict_frame ?p (upd_page ?p (location_update (\<lambda>_. PG_LOCATION_FILE)) (u\<lparr>files := if is_mod v ?p then write_back io v ?p else files v\<rparr>))"
    proof (cases "is_mod v ?p")
      case m: True
      have "vm_ok w" "?p \<in> set (page_list w)" "is_mod w ?p" "fl_writable (fmaps w (mapping (spages w ?p)))" "mapping (spages w ?p) \<noteq> NULL"
        using vm_ok_cached [OF assms(1) w(1)] w p m True same by (auto simp: only_cached_def to_file_def)
      then obtain u ok where u: "load_to_file io (\<lambda>v. Some (v, kaddr (spages v ?p) \<noteq> 0)) False ?p w = Some (u\<lparr>files := write_back io w ?p\<rparr>, ok)"
        "only_cached w u" "page_elem u = page_elem w"
        using load_to_file_ok by blast
      then have "evict_page io v = evict_frame ?p (upd_page ?p (location_update (\<lambda>_. PG_LOCATION_FILE)) (u\<lparr>files := write_back io v ?p\<rparr>))"
        using run m True unfolding evict_modified_def Let_def same write_back_cached [OF w(1)] by (simp add: to_file_def)
      then show ?thesis using m u(3) w(2) only_cached_trans [OF w(1) u(2)] by auto
    next
      case m: False
      have "w\<lparr>files := files v\<rparr> = w" using w(1) by (simp add: only_cached_def)
      moreover have "evict_page io v = evict_frame ?p (upd_page ?p (location_update (\<lambda>_. PG_LOCATION_FILE)) w)"
        using run m True unfolding evict_not_modified_def Let_def same by (simp add: to_file_def)
      ultimately show ?thesis using m w by (intro exI [of _ w]) simp
    qed
    then obtain u where u: "only_cached v u" "page_elem u = ?p" "evict_page io v =
        evict_frame ?p (upd_page ?p (location_update (\<lambda>_. PG_LOCATION_FILE)) (u\<lparr>files := if is_mod v ?p then write_back io v ?p else files v\<rparr>))"
      by blast
    from to_file_evicted [OF assms(1) u(1,2) p True refl, of io] show ?thesis
      unfolding u(3) using p by (elim exE conjE) (intro exI conjI, assumption+, simp)
  qed
qed

end
