(* ===== verification/Restore.thy ===== *)
theory Restore
  imports Eviction
begin

unbundle bit_operations_syntax

text \<open>
  Bringing a page back from swap: the fault handler finds a frame, maps it, fills it through the user
  address and frees the page of the swap device. With theory \<^verbatim>\<open>Eviction\<close>: a page that is evicted and
  restored has the bytes it had.
\<close>

section \<open>Parts of the operation\<close>

lemma user_flags: "pool_of (PAL_USER OR PAL_ZERO) f = user_pool f" "other_pool (PAL_USER OR PAL_ZERO) f = kernel_pool f"
  "(PAL_USER OR PAL_ZERO) AND PAL_ASSERT = 0" "(PAL_USER OR PAL_ZERO) AND PAL_ZERO \<noteq> 0"
  by (simp_all add: pool_of_def other_pool_def PAL_ZERO_def PAL_USER_def PAL_ASSERT_def)

text \<open>The user pool lies in the memory that is mapped one to one.\<close>

definition mem_ok :: "mmu \<Rightarrow> bool" where
  "mem_ok s \<longleftrightarrow> pool_end (user_pool (frames s)) \<le> 2 ^ 32 \<and> pool_end (user_pool (frames s)) \<le> PHYS_BASE + 4096 * init_ram_pages s"

lemma same_machine_mem_ok: "same_machine s s' \<Longrightarrow> mem_ok s' = mem_ok s"
  by (simp add: same_machine_def mem_ok_def pool_end_def)

lemma user_page_kpage:
  assumes "pd_ok s pd" "mem_ok s" "k \<in> used_pages (user_pool (frames s))"
  shows "kpage k" "drop_bit PTSHIFT (k - PHYS_BASE) < init_ram_pages s" "k \<noteq> NULL"
proof -
  let ?u = "user_pool (frames s)"
  have u: "pool_ok ?u" "PHYS_BASE \<le> base ?u" using assms(1) by (auto simp: pd_ok_def palloc_ok_def pool_end_def)
  show "kpage k" "k \<noteq> NULL" using pool_kpage [OF u _ assms(3)] assms(2) by (simp_all add: mem_ok_def)
  have "k < pool_end ?u" "PHYS_BASE \<le> k" using assms(3) u(2) by (auto simp: used_pages_def used_bits_def page_addr_def pool_end_def)
  moreover have "pool_end ?u \<le> PHYS_BASE + 4096 * init_ram_pages s" using assms(2) by (simp add: mem_ok_def)
  ultimately have "k - PHYS_BASE < 4096 * init_ram_pages s" by linarith
  then show "drop_bit PTSHIFT (k - PHYS_BASE) < init_ram_pages s"
    by (simp add: drop_bit_eq_div PTSHIFT_def PGBITS_def less_mult_imp_div_less mult.commute)
qed

lemma set_page_existing:
  assumes "pd_ok s pd" "is_user_vaddr u" "pg_ofs u = 0" "kpage k" "drop_bit PTSHIFT (k - PHYS_BASE) < init_ram_pages s"
    "pd \<noteq> init_page_dir s" "pte_addr s pd u = Some a" "pte_val s pd u AND PTE_P = 0"
  shows "\<exists>e. pagedir_set_page pd u k w s = Some (set32 s a e, True) \<and> e AND PTE_P \<noteq> 0 \<and> pte_get_page e = Some k"
proof -
  obtain e where e: "pte_create_user k w = Some e" "e AND PTE_P \<noteq> 0" "pte_get_page e = Some k"
    using pte_create_user_ok [OF assms(4)] by blast
  have nz: "pde s pd (pd_no u) \<noteq> 0" "a \<noteq> NULL" using assms(7) pte_addr_None [OF assms(1,2)] pte_addr_ok [OF assms(1,2,7)] by auto
  have "lookup_page pd u True s = Some (s, a)"
    using lookup_page_find [OF assms(1,2)] assms(2,7) nz(1) by (simp add: lookup_page_def pde_def)
  then have "pagedir_set_page pd u k w s = Some (set32 s a e, True)"
    using assms nz(2) e(1) kpage_vtop [OF assms(4)] by (simp add: pagedir_set_page_def pte_val_def)
  with e show ?thesis by blast
qed

text \<open>Marking an entry keeps the address in it.\<close>

lemma pte_mark:
  "pte_get_page (e OR PTE_A) = pte_get_page e" "pte_get_page (e OR PTE_D) = pte_get_page e"
  "e AND PTE_P \<noteq> 0 \<Longrightarrow> (e OR f) AND PTE_P \<noteq> 0"
proof -
  have "(e OR PTE_A) AND PTE_ADDR = e AND PTE_ADDR" "(e OR PTE_D) AND PTE_ADDR = e AND PTE_ADDR"
    unfolding bit.conj_disj_distrib2 by (simp_all add: PTE_A_def PTE_D_def PTE_ADDR_def)
  then show "pte_get_page (e OR PTE_A) = pte_get_page e" "pte_get_page (e OR PTE_D) = pte_get_page e"
    by (simp_all add: pte_get_page_def)
  show "e AND PTE_P \<noteq> 0 \<Longrightarrow> (e OR f) AND PTE_P \<noteq> 0"
    unfolding bit.conj_disj_distrib2 by (metis or_eq_0_iff)
qed

lemma set_entry:
  assumes "pd_ok t pd" "is_user_vaddr u" "pte_addr t pd u = Some a"
  shows "pd_ok (set32 t a w) pd" "pte_addr (set32 t a w) pd u = Some a" "pte_val (set32 t a w) pd u = w" "get32 (set32 t a w) a = w"
proof -
  obtain T where T: "T \<noteq> pd" "T mod 4096 = 0" "a = T + 4 * pt_no u" using pte_addr_ok [OF assms] by (elim exE conjE)
  have "pde (set32 t a w) pd (pd_no u) = pde t pd (pd_no u)"
    unfolding pde_def T(3) using get32_set32 [OF pd_okD(1) [OF assms(1)] T(2), of "pd_no u" "pt_no u"] user_indices(1) [OF assms(2)] user_indices(2) T(1) by simp
  then have "pte_addr (set32 t a w) pd u = pte_addr t pd u" unfolding pte_addr_def by (simp only:)
  then show "pte_addr (set32 t a w) pd u = Some a" using assms(3) by simp
  show "pd_ok (set32 t a w) pd" "pte_val (set32 t a w) pd u = w" using set_pte [OF assms] assms(2) by simp_all
  show "get32 (set32 t a w) a = w" by (simp add: get32_def set32_def read32_write32_same)
qed

lemma user_write_ok:
  assumes "pd_ok s pd" "is_user_vaddr u" "pg_ofs u = 0" "cr3 s = pd - PHYS_BASE" "pte_addr s pd u = Some a"
    "pte_val s pd u AND PTE_P \<noteq> 0" "pte_get_page (pte_val s pd u) = Some k" "k \<noteq> NULL" "vm_mmu v = s"
  shows "user_write u v = Some (v\<lparr>vm_mmu := set32 (set32 s a (get32 s a OR PTE_A)) a (get32 s a OR PTE_A OR PTE_D)\<rparr>, k)"
proof -
  let ?s1 = "set32 s a (get32 s a OR PTE_A)"
  have kp: "kpage pd" using tables_kpage(1) [OF assms(1)] pd_okD(3) [OF assms(1)] by blast
  then have act: "active_pd s = Some pd" using kpage_vtop [OF kp] assms(4) by (simp add: active_pd_def)
  have ne: "a \<noteq> NULL" using pte_addr_ok [OF assms(1,2,5)] by blast
  note s1 = set_entry [OF assms(1,2,5), of "get32 s a OR PTE_A"]
  have "pagedir_set_dirty pd u True ?s1 = Some (set32 ?s1 a (get32 s a OR PTE_A OR PTE_D))"
    using lookup_page_find [OF s1(1) assms(2)] s1(2,4) ne by (simp add: pagedir_set_dirty_def or.assoc)
  moreover have "pagedir_set_accessed pd u True s = Some ?s1"
    using lookup_page_find [OF assms(1,2)] assms(5) ne by (simp add: pagedir_set_accessed_def)
  moreover have "pagedir_get_page pd u s = Some k"
    using pagedir_get_page_eq [OF assms(1,2)] assms(3,6,7) by simp
  ultimately show ?thesis using act assms(8,9) by (simp add: user_write_def)
qed

lemma swap_in_bytes:
  assumes "swap_ok s" "q \<in> used_bits (alloc_map s)"
  shows "\<exists>w. swap_load_page_to_ram q addr s = Some w \<and> swap_ok w \<and> alloc_map w = alloc_map s \<and> swap_block w = swap_block s \<and>
    (\<forall>i < 4096. ram w (addr + i) = swap_block s (q * 8 + i div 512) (i mod 512)) \<and>
    (\<forall>x. x \<notin> {addr..<addr + 4096} \<longrightarrow> ram w x = ram s x)"
proof -
  obtain w where w: "read_sectors (q * 8) addr 8 s = Some w" "alloc_map w = alloc_map s" "swap_size w = swap_size s" "swap_block w = swap_block s"
    "\<forall>a. ram w a = (if a \<in> {addr..<addr + 8 * 512} then swap_block s (q * 8 + (a - addr) div 512) ((a - addr) mod 512) else ram s a)"
    using read_sectors_spec [OF swap_used_check(2) [OF assms], of addr] by blast
  have "swap_load_page_to_ram q addr s = Some w" using w(1) swap_used_check(1) [OF assms] by (simp add: swap_load_page_to_ram_def)
  then show ?thesis using assms(1) w by (simp add: swap_ok_def)
qed

lemma swap_free_ok:
  assumes "swap_ok s" "q \<in> used_bits (alloc_map s)"
  shows "\<exists>w. swap_free_page q s = Some w \<and> swap_ok w \<and> ram w = ram s \<and> swap_block w = swap_block s \<and>
    used_bits (alloc_map w) = used_bits (alloc_map s) - {q}"
proof -
  have q: "q + 1 \<le> bit_cnt (alloc_map s)" "bitmap_ok (alloc_map s)" using assms by (auto simp: used_bits_def swap_ok_def)
  obtain b where b: "bitmap_set_multiple (alloc_map s) q 1 False = Some b" "bitmap_ok b" "bit_cnt b = bit_cnt (alloc_map s)"
    "\<forall>j. bit_at b j = (if q \<le> j \<and> j < q + 1 then False else bit_at (alloc_map s) j)"
    using bitmap_set_multiple_ok [OF q(2,1), of False] by blast
  have "used_bits b = used_bits (alloc_map s) - {q}" using b(3,4) by (auto simp: used_bits_def)
  then show ?thesis
    using b swap_used_check(1) [OF assms] assms(1) by (intro exI [of _ "s\<lparr>alloc_map := b\<rparr>"]) (simp add: swap_free_page_def swap_ok_def)
qed

text \<open>Filling a user frame changes no translation.\<close>

lemma frame_change:
  assumes "pd_ok s pd" "palloc_ok (frames s')" "kernel_pool (frames s') = kernel_pool (frames s)" "k \<in> used_pages (user_pool (frames s'))"
    "\<forall>x. x \<notin> {k..<k + 4096} \<longrightarrow> memory (frames s') x = memory (frames s) x"
  shows "pd_ok s' pd" and "is_user_vaddr u \<Longrightarrow> pte_addr s' pd u = pte_addr s pd u" and "is_user_vaddr u \<Longrightarrow> pte_val s' pd u = pte_val s pd u"
proof -
  have word: "get32 s' (P + 4 * i) = get32 s (P + 4 * i)" if "P \<in> tables s" "i < 1024" for P i
  proof -
    have "P \<in> used_pages (kernel_pool (frames s'))" using that(1) assms(3) by (simp add: tables_def)
    then show ?thesis unfolding get32_def by (rule user_frame_apart [OF assms(2,4) _ that(2)]) (use assms(5) in blast)
  qed
  have pde: "pde s' pd i = pde s pd i" if "i < 768" for i
    using word [OF pd_okD(3) [OF assms(1)], of i] that by (simp add: pde_def)
  show "pd_ok s' pd" by (rule pd_ok_keep [OF assms(1-3)]) (rule pde)
  show addr: "is_user_vaddr u \<Longrightarrow> pte_addr s' pd u = pte_addr s pd u" for u
    using pde user_indices(1) by (simp add: pte_addr_def)
  show "pte_val s' pd u = pte_val s pd u" if u: "is_user_vaddr u"
  proof (cases "pte_addr s pd u")
    case (Some a)
    then obtain T where "T \<in> tables s" "a = T + 4 * pt_no u" using pte_addr_ok [OF assms(1) u] by blast
    then show ?thesis using word user_indices(2) Some addr [OF u] by (simp add: pte_val_def)
  qed (simp add: pte_val_def addr [OF u])
qed

lemma alloc_frame_ok:
  assumes "palloc_ok (frames (vm_mmu v))" "used_bits (used_map (user_pool (frames (vm_mmu v)))) \<noteq> {..<bit_cnt (used_map (user_pool (frames (vm_mmu v))))}"
  shows "\<exists>f k. alloc_frame v = Some (set_frames f v, k) \<and> k \<noteq> NULL \<and> palloc_ok f \<and> kernel_pool f = kernel_pool (frames (vm_mmu v)) \<and>
    pool_end (user_pool f) = pool_end (user_pool (frames (vm_mmu v))) \<and> k \<notin> used_pages (user_pool (frames (vm_mmu v))) \<and>
    used_pages (user_pool f) = insert k (used_pages (user_pool (frames (vm_mmu v)))) \<and> memory f = fill k 0 4096 (memory (frames (vm_mmu v)))"
proof -
  let ?f = "frames (vm_mmu v)"
  obtain f k where r: "palloc_get_page (PAL_USER OR PAL_ZERO) ?f = Some (f, k)" "palloc_ok f" "kernel_pool f = kernel_pool ?f"
    "base (user_pool f) = base (user_pool ?f)" "bit_cnt (used_map (user_pool f)) = bit_cnt (used_map (user_pool ?f))"
    "if k = NULL then f = ?f \<and> used_bits (used_map (user_pool ?f)) = {..<bit_cnt (used_map (user_pool ?f))}
     else k \<notin> used_pages (user_pool ?f) \<and> used_pages (user_pool f) = insert k (used_pages (user_pool ?f)) \<and> memory f = fill k 0 4096 (memory ?f)"
    using palloc_get_page_ok [OF assms(1) user_flags(3,4), unfolded user_flags(1,2)] by blast
  then have "k \<noteq> NULL" using assms(2) by (metis (full_types))
  then show ?thesis using r by (intro exI [of _ f] exI [of _ k]) (simp add: alloc_frame_def pool_end_def)
qed

section \<open>Restoring a page\<close>

text \<open>The state in which a page of the running process can be restored: it is in swap, its page table exists, a frame is free.\<close>

definition swapped_out :: "'f vm \<Rightarrow> ptr \<Rightarrow> nat \<Rightarrow> bool" where
  "swapped_out v p q \<longleftrightarrow> (let page = spages v p; s = vm_mmu v in
     location page = PG_LOCATION_SWAP \<and> saddr page = Some q \<and> swap_ok (swap_dev v) \<and> q \<in> used_bits (alloc_map (swap_dev v)) \<and>
     pd_ok s (pagedir page) \<and> is_user_vaddr (vaddr page) \<and> pg_ofs (vaddr page) = 0 \<and> pagedir page \<noteq> init_page_dir s \<and>
     cr3 s = pagedir page - PHYS_BASE \<and> mem_ok s \<and> pte_addr s (pagedir page) (vaddr page) \<noteq> None \<and>
     pte_val s (pagedir page) (vaddr page) AND PTE_P = 0 \<and>
     used_bits (used_map (user_pool (frames s))) \<noteq> {..<bit_cnt (used_map (user_pool (frames s)))})"

text \<open>Mapping a fresh frame and writing through it: the address behind the page is the frame.\<close>

lemma map_and_write:
  assumes "pd_ok s pd" "is_user_vaddr u" "pg_ofs u = 0" "pd \<noteq> init_page_dir s" "cr3 s = pd - PHYS_BASE" "mem_ok s"
    "pte_addr s pd u = Some a" "pte_val s pd u AND PTE_P = 0" "k \<in> used_pages (user_pool (frames s))" "vm_mmu v = s"
  shows "\<exists>s1 s2. pagedir_set_page pd u k True s = Some (s1, True) \<and> user_write u (v\<lparr>vm_mmu := s1\<rparr>) = Some (v\<lparr>vm_mmu := s2\<rparr>, k) \<and>
    pd_ok s2 pd \<and> user_pool (frames s2) = user_pool (frames s) \<and> pagedir_get_page pd u s2 = Some k \<and> palloc_ok (frames s2)"
proof -
  note k = user_page_kpage [OF assms(1,6,9)]
  obtain e where e: "pagedir_set_page pd u k True s = Some (set32 s a e, True)" "e AND PTE_P \<noteq> 0" "pte_get_page e = Some k"
    using set_page_existing [OF assms(1-3) k(1,2) assms(4,7,8)] by blast
  define s1 where "s1 = set32 s a e"
  note s1 = set_entry [OF assms(1,2,7), of e, folded s1_def]
  define s2 where "s2 = set32 (set32 s1 a (e OR PTE_A)) a (e OR PTE_A OR PTE_D)"
  have "user_write u (v\<lparr>vm_mmu := s1\<rparr>) = Some (v\<lparr>vm_mmu := s2\<rparr>, k)"
    using user_write_ok [of s1 pd u a k "v\<lparr>vm_mmu := s1\<rparr>"] s1 assms(2,3,5) e(2,3) k(3) by (simp add: s2_def) (simp add: s1_def set32_def)
  moreover have ok2: "pd_ok s2 pd" "pte_val s2 pd u = e OR PTE_A OR PTE_D"
    unfolding s2_def using set_entry [OF set_entry(1) [OF s1(1) assms(2) s1(2)] assms(2) set_entry(2) [OF s1(1) assms(2) s1(2)]] by blast+
  moreover have "pagedir_get_page pd u s2 = Some k"
  proof -
    have "pte_get_page (e OR PTE_A OR PTE_D) = Some k" using pte_mark(1,2) e(3) by (simp flip: or.assoc)
    moreover have "(e OR PTE_A OR PTE_D) AND PTE_P \<noteq> 0" by (rule pte_mark(3) [OF e(2)])
    ultimately show ?thesis using pagedir_get_page_eq [OF ok2(1) assms(2)] ok2(2) assms(3) by simp
  qed
  moreover have "user_pool (frames s2) = user_pool (frames s)" by (simp add: s2_def s1_def set32_def)
  ultimately show ?thesis using e(1) by (auto simp: s1_def pd_ok_def)
qed

lemma restore_ok:
  assumes "swapped_out v p q"
  shows "\<exists>v' k. restore_page_from_swap io p reg v = Some (v', True) \<and> k \<notin> used_pages (user_pool (frames (vm_mmu v))) \<and>
    spages v' p = (spages v p)\<lparr>saddr := None, kaddr := k, location := PG_LOCATION_RAM\<rparr> \<and> frame_bytes v' k = swap_bytes v q \<and>
    pagedir_get_page (pagedir (spages v p)) (vaddr (spages v p)) (vm_mmu v') = Some k \<and>
    used_bits (alloc_map (swap_dev v')) = used_bits (alloc_map (swap_dev v)) - {q} \<and>
    page_list v' = (if reg then p # page_list v else page_list v)"
proof -
  let ?page = "spages v p" and ?s = "vm_mmu v"
  let ?pd = "pagedir ?page" and ?u = "vaddr ?page"
  note so = assms [unfolded swapped_out_def Let_def]
  have pal: "palloc_ok (frames ?s)" using so by (simp add: pd_ok_def)
  then obtain f k where f: "alloc_frame v = Some (set_frames f v, k)" "k \<noteq> NULL" "palloc_ok f" "kernel_pool f = kernel_pool (frames ?s)"
    "pool_end (user_pool f) = pool_end (user_pool (frames ?s))" "k \<notin> used_pages (user_pool (frames ?s))"
    "used_pages (user_pool f) = insert k (used_pages (user_pool (frames ?s)))" "memory f = fill k 0 4096 (memory (frames ?s))"
    using alloc_frame_ok so by blast
  define s1 where "s1 = ?s\<lparr>frames := f\<rparr>"
  obtain a where a: "pte_addr ?s ?pd ?u = Some a" using so by blast
  have pd: "pd_ok ?s ?pd" and u: "is_user_vaddr ?u" using so by simp_all
  have out: "\<forall>x. x \<notin> {k..<k + 4096} \<longrightarrow> memory (frames s1) x = memory (frames ?s) x" by (auto simp: s1_def f(8) fill_def)
  have k1: "palloc_ok (frames s1)" "kernel_pool (frames s1) = kernel_pool (frames ?s)" "k \<in> used_pages (user_pool (frames s1))"
    using f(3,4,7) by (simp_all add: s1_def)
  note s1 = frame_change [OF pd k1 out]
  have "mem_ok s1" "cr3 s1 = ?pd - PHYS_BASE" "?pd \<noteq> init_page_dir s1" "pte_addr s1 ?pd ?u = Some a" "pte_val s1 ?pd ?u AND PTE_P = 0"
    using so f(5) s1(2,3) [OF u] a by (simp_all add: s1_def mem_ok_def)
  with map_and_write [of s1 ?pd ?u a k "set_frames f v"] s1(1) u so k1(3) obtain s2 s3 where
    s3: "pagedir_set_page ?pd ?u k True s1 = Some (s2, True)" "user_write ?u ((set_frames f v)\<lparr>vm_mmu := s2\<rparr>) = Some ((set_frames f v)\<lparr>vm_mmu := s3\<rparr>, k)"
    "pd_ok s3 ?pd" "user_pool (frames s3) = user_pool f" "pagedir_get_page ?pd ?u s3 = Some k" "palloc_ok (frames s3)"
    by (auto simp: s1_def set_frames_def)
  let ?sw = "(swap_dev v)\<lparr>ram := memory (frames s3)\<rparr>"
  have sw: "swap_ok ?sw" "q \<in> used_bits (alloc_map ?sw)" using so by (simp_all add: swap_ok_def)
  obtain w where w: "swap_load_page_to_ram q k ?sw = Some w" "swap_ok w" "alloc_map w = alloc_map (swap_dev v)" "swap_block w = swap_block (swap_dev v)"
    "\<forall>i < 4096. ram w (k + i) = swap_block (swap_dev v) (q * 8 + i div 512) (i mod 512)" "\<forall>x. x \<notin> {k..<k + 4096} \<longrightarrow> ram w x = memory (frames s3) x"
    using swap_in_bytes [OF sw, of k] by auto
  obtain w2 where w2: "swap_free_page q w = Some w2" "swap_ok w2" "ram w2 = ram w" "used_bits (alloc_map w2) = used_bits (alloc_map (swap_dev v)) - {q}"
    using swap_free_ok [OF w(2), of q] w(3) so by auto
  define s4 where "s4 = s3\<lparr>frames := (frames s3)\<lparr>memory := ram w\<rparr>\<rparr>"
  have "palloc_ok (frames s4)" "kernel_pool (frames s4) = kernel_pool (frames s3)" "k \<in> used_pages (user_pool (frames s4))"
    "\<forall>x. x \<notin> {k..<k + 4096} \<longrightarrow> memory (frames s4) x = memory (frames s3) x"
    using s3(4,6) f(7) w(6) by (simp_all add: s4_def)
  note s4 = frame_change [OF s3(3) this]
  have get: "pagedir_get_page ?pd ?u s4 = Some k"
    using s3(5) unfolding pagedir_get_page_eq [OF s3(3) u] pagedir_get_page_eq [OF s4(1) u] s4(3) [OF u] .
  define v1 where "v1 = v\<lparr>swap_dev := w2, vm_mmu := s4, spages := (spages v)(p := ?page\<lparr>saddr := None, kaddr := k, location := PG_LOCATION_RAM\<rparr>)\<rparr>"
  have "restore_page_from_swap io p reg v = Some (if reg then register_suppl_page p v1 else v1, True)"
    using so f(1,2) s3(1,2) w(1) w2(1,3) unfolding restore_page_from_swap_def
    by (simp add: Let_def set_frames_def s1_def on_swap_def upd_page_def s4_def v1_def)
  moreover have "frame_bytes v1 k = swap_bytes v q" using w(5) by (simp add: frame_bytes_def swap_bytes_def v1_def s4_def)
  moreover have "frame_bytes (if reg then register_suppl_page p v1 else v1) k = frame_bytes v1 k" by (simp add: frame_bytes_def register_suppl_page_def)
  ultimately show ?thesis
    using f(2,6) get w2(4) by (intro exI [of _ "if reg then register_suppl_page p v1 else v1"] exI [of _ k]) (simp add: v1_def register_suppl_page_def)
qed

section \<open>Eviction and return\<close>

lemma evicted_swapped_out:
  assumes ok: "vm_ok v" "vm_ok v'" and ev: "evicted io v p v'" and p: "p \<in> set (page_list v)" "\<not> to_file v p"
    and mapped: "pagedir_get_page (pagedir (spages v p)) (vaddr (spages v p)) (vm_mmu v) = Some (kaddr (spages v p))"
    and run: "cr3 (vm_mmu v) = pagedir (spages v p) - PHYS_BASE" "mem_ok (vm_mmu v)" "pagedir (spages v p) \<noteq> init_page_dir (vm_mmu v)"
  shows "\<exists>q. swapped_out v' p q \<and> swap_bytes v' q = frame_bytes v (kaddr (spages v p)) \<and> q \<notin> used_bits (alloc_map (swap_dev v)) \<and>
    used_bits (alloc_map (swap_dev v')) = insert q (used_bits (alloc_map (swap_dev v)))"
proof -
  let ?page = "spages v p"
  note e = ev [unfolded evicted_def]
  have pg: "page_ok (vm_mmu v) ?page" using ok(1) p(1) by (simp add: vm_ok_def)
  then have u: "is_user_vaddr (vaddr ?page)" "pg_ofs (vaddr ?page) = 0" "kaddr ?page \<in> used_pages (user_pool (frames (vm_mmu v)))" by (simp_all add: page_ok_def)
  obtain q where q: "location (spages v' p) = PG_LOCATION_SWAP" "saddr (spages v' p) = Some q" "q \<notin> used_bits (alloc_map (swap_dev v))"
    "used_bits (alloc_map (swap_dev v')) = insert q (used_bits (alloc_map (swap_dev v)))" "swap_bytes v' q = frame_bytes v (kaddr ?page)"
    using e p(2) by auto
  have "pte_addr (vm_mmu v) (pagedir ?page) (vaddr ?page) \<noteq> None"
  proof
    assume "pte_addr (vm_mmu v) (pagedir ?page) (vaddr ?page) = None"
    then have "pte_val (vm_mmu v) (pagedir ?page) (vaddr ?page) = 0" by (simp add: pte_val_def)
    then show False
      using mapped pagedir_get_page_eq [of "vm_mmu v" "pagedir ?page" "vaddr ?page"] pg page_ok_kaddr(1) [OF pg] by (simp add: page_ok_def)
  qed
  moreover have "used_bits (used_map (user_pool (frames (vm_mmu v')))) \<noteq> {..<bit_cnt (used_map (user_pool (frames (vm_mmu v'))))}"
  proof
    let ?U = "user_pool (frames (vm_mmu v))" and ?U' = "user_pool (frames (vm_mmu v'))"
    assume full: "used_bits (used_map ?U') = {..<bit_cnt (used_map ?U')}"
    obtain i where "kaddr ?page = page_addr ?U i" "i < bit_cnt (used_map ?U)" using u(3) by (auto simp: used_pages_def used_bits_def)
    then have "kaddr ?page = page_addr ?U' i" "i \<in> used_bits (used_map ?U')"
      using e full by (auto simp: same_machine_def page_addr_def)
    then have "kaddr ?page \<in> used_pages ?U'" by (auto simp: used_pages_def)
    then show False using e by auto
  qed
  moreover have "mem_ok (vm_mmu v')" using same_machine_mem_ok e run(2) by blast
  ultimately have "swapped_out v' p q"
    using e q ok(2) u run unfolding swapped_out_def Let_def by (simp add: vm_ok_def same_machine_def)
  with q(3-5) show ?thesis by blast
qed

section \<open>Properties\<close>

text \<open>A process with one page in memory, mapped at its address, and room in swap.\<close>

definition one_mmu :: mmu where
  "one_mmu = set32 (set32 \<lparr>frames = \<lparr>kernel_pool = \<lparr>used_map = \<lparr>bit_cnt = 4, bits = [3]\<rparr>, base = 0xc0100000\<rparr>,
     user_pool = \<lparr>used_map = \<lparr>bit_cnt = 4, bits = [1]\<rparr>, base = 0xc0200000\<rparr>, memory = (\<lambda>_. 0)\<rparr>,
     cr3 = 0x100000, init_page_dir = 0xc0000000, init_ram_pages = 1024\<rparr> (0xc0100000 + 4 * 32) 0x101007) (0xc0101000 + 4 * 72) 0x200007"

definition one_page :: "unit vm" where
  "one_page = \<lparr>vm_mmu = one_mmu, swap_dev = small_swap,
     spages = (\<lambda>_. \<lparr>vaddr = 0x8048000, kaddr = 0xc0200000, saddr = None, pagedir = 0xc0100000, mapping = NULL,
       location = PG_LOCATION_RAM, dirty = False, accessed = True\<rparr>),
     fmaps = (\<lambda>_. \<lparr>fl = NULL, offset = 0, file_size = 0, start_vaddr = 0, writable = False, fl_writable = False\<rparr>),
     page_list = [500], page_elem = NULL, files = ()\<rparr>"

definition no_files :: "unit file_io" where
  "no_files = \<lparr>file_read_at = (\<lambda>_ _ _ _. []), file_write_at = (\<lambda>_ _ _ f. (f, 0))\<rparr>"

definition one_entry :: "ptr hash" where
  "one_entry = \<lparr>elem_count = 1, bucket_cnt = 4, buckets = [[500], [], [], []], hash_fn = (\<lambda>_. 0), less_fn = (\<lambda>_ _. False)\<rparr>"

lemma one_mmu_words:
  assumes "P mod 4096 = 0" "i < 1024"
  shows "get32 one_mmu (P + 4 * i) = (if P = 0xc0101000 \<and> i = 72 then 0x200007 else if P = 0xc0100000 \<and> i = 32 then 0x101007 else 0)"
proof -
  have zero: "get32 \<lparr>frames = \<lparr>kernel_pool = k, user_pool = u, memory = (\<lambda>_. 0)\<rparr>, cr3 = c, init_page_dir = d, init_ram_pages = n\<rparr> x = 0" for k u c d n x
    by (simp add: get32_def read32_def)
  have m: "(0xc0100000 :: nat) mod 4096 = 0" "(0xc0101000 :: nat) mod 4096 = 0" "(32 :: nat) < 1024" "(72 :: nat) < 1024" by simp_all
  show ?thesis
    unfolding one_mmu_def get32_set32 [OF assms(1) m(2) assms(2) m(4)] get32_set32 [OF assms(1) m(1) assms(2) m(3)] zero by (rule refl)
qed

lemma one_mmu_ok: "pd_ok one_mmu 0xc0100000" "pte_addr one_mmu 0xc0100000 0x8048000 = Some (0xc0101000 + 4 * 72)"
  "pte_val one_mmu 0xc0100000 0x8048000 = 0x200007" "0xc0200000 \<in> used_pages (user_pool (frames one_mmu))"
  "dirs_apart one_mmu {0xc0100000}"
proof -
  have get: "pde_get_pt 0x101007 = Some 0xc0101000" by code_simp
  have pde: "pde one_mmu 0xc0100000 i = (if i = 32 then 0x101007 else 0)" if "i < 768" for i
    using one_mmu_words [of "0xc0100000" i] that by (simp add: pde_def)
  have idx: "pd_no 0x8048000 = 32" "pt_no 0x8048000 = 72" by (simp_all add: pd_no_div pt_no_div)
  show addr: "pte_addr one_mmu 0xc0100000 0x8048000 = Some (0xc0101000 + 4 * 72)" by (simp add: pte_addr_def idx pde get)
  show "pte_val one_mmu 0xc0100000 0x8048000 = 0x200007" using one_mmu_words [of "0xc0101000" 72] by (simp add: pte_val_def addr)
  show "dirs_apart one_mmu {0xc0100000}" by (simp add: dirs_apart_def pde get)
  show "0xc0200000 \<in> used_pages (user_pool (frames one_mmu))"
    by (auto simp: used_pages_def page_addr_def one_mmu_def set32_def used_bits_def bit_at_def elem_idx_def ELEM_BITS_def image_iff)
  have kernel: "kernel_pool (frames one_mmu) = \<lparr>used_map = \<lparr>bit_cnt = 4, bits = [3]\<rparr>, base = 0xc0100000\<rparr>"
    "user_pool (frames one_mmu) = \<lparr>used_map = \<lparr>bit_cnt = 4, bits = [1]\<rparr>, base = 0xc0200000\<rparr>"
    by (simp_all add: one_mmu_def set32_def)
  have "0 \<in> used_bits \<lparr>bit_cnt = 4, bits = [3]\<rparr>" "1 \<in> used_bits \<lparr>bit_cnt = 4, bits = [3]\<rparr>"
    by (simp_all add: used_bits_def bit_at_def elem_idx_def ELEM_BITS_def bit_simps)
  then have t: "0xc0100000 \<in> tables one_mmu" "0xc0101000 \<in> tables one_mmu"
    unfolding tables_def used_pages_def kernel page_addr_def by force+
  moreover have "palloc_ok (frames one_mmu)"
    by (simp add: palloc_ok_def kernel pool_ok_def pool_end_def bitmap_ok_def elem_cnt_def ELEM_BITS_def)
  ultimately show "pd_ok one_mmu 0xc0100000"
    unfolding pd_ok_def using pde get by (simp add: kernel PHYS_BASE_def pool_end_def)
qed

lemma one_page_ok: "vm_ok one_page" "mem_ok (vm_mmu one_page)"
  "pagedir_get_page 0xc0100000 0x8048000 (vm_mmu one_page) = Some 0xc0200000" "\<not> swap_full one_page"
proof -
  have u: "is_user_vaddr 0x8048000" "pg_ofs 0x8048000 = 0" by (simp_all add: is_user_vaddr_def PHYS_BASE_def pg_ofs_mod)
  have "swap_ok small_swap"
    by (simp add: swap_ok_def small_swap_def bitmap_ok_def elem_cnt_def ELEM_BITS_def)
  then show "vm_ok one_page"
    using one_mmu_ok u by (simp add: vm_ok_def one_page_def page_ok_def) (simp add: one_mmu_def set32_def PHYS_BASE_def)
  show "mem_ok (vm_mmu one_page)" by (simp add: one_page_def mem_ok_def one_mmu_def set32_def pool_end_def PHYS_BASE_def)
  have "pte_get_page 0x200007 = Some 0xc0200000" by code_simp
  moreover have "(0x200007 :: u32) AND PTE_P \<noteq> 0" by code_simp
  ultimately show "pagedir_get_page 0xc0100000 0x8048000 (vm_mmu one_page) = Some 0xc0200000"
    using pagedir_get_page_eq [OF one_mmu_ok(1) u(1)] one_mmu_ok(3) u(2) by (simp add: one_page_def)
  have "0 \<notin> used_bits (alloc_map small_swap)" "0 < bit_cnt (alloc_map small_swap)"
    by (simp_all add: used_bits_def bit_at_def elem_idx_def ELEM_BITS_def small_swap_def)
  then show "\<not> swap_full one_page" by (auto simp: swap_full_def one_page_def)
qed

lemma one_page_victim: "victim one_page = 500" "\<not> to_file one_page 500"
proof -
  have l: "page_list one_page = [500]" by (simp add: one_page_def)
  then show "victim one_page = 500" using evict_page_choice [OF one_page_ok(1)] by auto
  show "\<not> to_file one_page 500" by (simp add: to_file_def one_page_def)
qed

text \<open>
  C20: the clock always finds a victim and stops: among the pages in memory, from the hand on, the first
  that is neither referenced nor modified, else the first that is only modified, else the first that
  is not modified, else the one at the hand. The victim loses its frame and its translation, and its
  bytes are written to its file or to a free page of the swap device, which its record then names; no
  other page is touched. Eviction fails only when the victim has to go to swap and swap is full; then
  nothing but cached bits and the hand has changed.
\<close>

theorem clock_eviction:
  assumes "vm_ok v" "page_list v \<noteq> []"
  shows "\<exists>v' ok. evict_page io v = Some (v', ok) \<and> vm_ok v' \<and> victim v \<in> set (page_list v) \<and>
    (if ok then evicted io v (victim v) v' else \<not> to_file v (victim v) \<and> swap_full v \<and> only_cached (v\<lparr>swap_dev := swap_dev v'\<rparr>) v')"
  by (rule evict_page_ok [OF assms])

theorem clock_eviction_witness:
  "\<exists>v'. evict_page no_files one_page = Some (v', True) \<and> page_list v' = [] \<and> location (spages v' 500) = PG_LOCATION_SWAP"
proof -
  have "page_list one_page \<noteq> []" by (simp add: one_page_def)
  with clock_eviction [OF one_page_ok(1), of no_files] one_page_ok(4) one_page_victim obtain v' where
    "evict_page no_files one_page = Some (v', True)" "evicted no_files one_page 500 v'" by (auto split: if_splits)
  then show ?thesis using one_page_victim(2) by (auto simp: evicted_def one_page_def)
qed

text \<open>
  C6: a page of the running process that was evicted to swap comes back at the next fault on one of its
  addresses: the handler puts it in a fresh frame with the bytes it had, maps it at its address,
  registers it again and frees its page of the swap device.
\<close>

theorem evict_fault_restores:
  assumes "vm_ok v" "page_list v \<noteq> []" "p = victim v" "\<not> to_file v p" "evict_page io v = Some (v', True)"
    and "pagedir_get_page (pagedir (spages v p)) (vaddr (spages v p)) (vm_mmu v) = Some (kaddr (spages v p))"
    and "cr3 (vm_mmu v) = pagedir (spages v p) - PHYS_BASE" "mem_ok (vm_mmu v)" "pagedir (spages v p) \<noteq> init_page_dir (vm_mmu v)"
    and "table_ok (spages v) pt" "tmp \<notin> elems pt" "p \<in> elems pt" "pg_round_down fault_addr = vaddr (spages v p)"
  shows "\<exists>v'' k. page_fault io mem new tmp pd True fault_addr esp v' pt = Some (v'', pt, True) \<and>
    frame_bytes v'' k = frame_bytes v (kaddr (spages v p)) \<and> kaddr (spages v'' p) = k \<and> location (spages v'' p) = PG_LOCATION_RAM \<and>
    pagedir_get_page (pagedir (spages v p)) (vaddr (spages v p)) (vm_mmu v'') = Some k \<and> page_list v'' = p # page_list v' \<and>
    used_bits (alloc_map (swap_dev v'')) = used_bits (alloc_map (swap_dev v))"
proof -
  have ev: "evicted io v p v'" "vm_ok v'" "p \<in> set (page_list v)"
    using evict_page_ok [OF assms(1,2), of io] assms(3,5) by auto
  obtain q where q: "swapped_out v' p q" "swap_bytes v' q = frame_bytes v (kaddr (spages v p))" "q \<notin> used_bits (alloc_map (swap_dev v))"
    "used_bits (alloc_map (swap_dev v')) = insert q (used_bits (alloc_map (swap_dev v)))"
    using evicted_swapped_out [OF assms(1) ev(2,1,3) assms(4,6-9)] by blast
  have va: "vaddr (spages v' e) = vaddr (spages v e)" for e
  proof (cases "e = p")
    case True
    then show ?thesis using ev(1) by (simp add: evicted_def)
  next
    case False
    then have "cached (spages v' e) = cached (spages v e)" using ev(1) by (simp add: evicted_def)
    then show ?thesis by (rule cached_same(1))
  qed
  have tab: "table_ok (spages v') pt" by (rule table_ok_cong [OF assms(10)]) (simp add: va)
  from lookup_ok [OF tab assms(11), of fault_addr] obtain r where r: "suppl_pt_lookup tmp (spages v') pt fault_addr = Some r"
    "if r = NULL then \<forall>e \<in> elems pt. vaddr (spages v' e) \<noteq> pg_round_down fault_addr else r \<in> elems pt \<and> vaddr (spages v' r) = pg_round_down fault_addr"
    by blast
  have ne: "p \<noteq> NULL" using assms(1) ev(3) unfolding vm_ok_def by metis
  have rp: "r \<in> elems pt" "vaddr (spages v' r) = vaddr (spages v' p)"
    using r(2) assms(12,13) va [of p] by (cases "r = NULL"; fastforce)+
  then have "r = p" using table_unique [OF tab rp(1) assms(12)] by simp
  note look = r(1) [unfolded this]
  obtain v'' k where v'': "restore_page_from_swap io p True v' = Some (v'', True)"
    "spages v'' p = (spages v' p)\<lparr>saddr := None, kaddr := k, location := PG_LOCATION_RAM\<rparr>" "frame_bytes v'' k = swap_bytes v' q"
    "pagedir_get_page (pagedir (spages v' p)) (vaddr (spages v' p)) (vm_mmu v'') = Some k"
    "used_bits (alloc_map (swap_dev v'')) = used_bits (alloc_map (swap_dev v')) - {q}" "page_list v'' = p # page_list v'"
    using restore_ok [OF q(1), of io True] by auto
  have "page_fault io mem new tmp pd True fault_addr esp v' pt = Some (v'', pt, True)"
    using look ne v''(1) q(1) by (simp add: page_fault_def swapped_out_def Let_def)
  moreover have "pagedir (spages v' p) = pagedir (spages v p)" using ev(1) by (simp add: evicted_def)
  ultimately show ?thesis
    using v''(2-6) q(2-4) va [of p] by (intro exI [of _ v''] exI [of _ k]) auto
qed

lemma one_entry_ok: "table_ok (spages one_page) one_entry" "elems one_entry = {500}"
proof -
  have p: "is_power_of_2 4" using is_power_of_2_power [of 2] by simp
  have "bucket_idx (rekey (\<lambda>e. vaddr (spages one_page e)) one_entry) 500 = 0"
    by (simp add: bucket_idx_def rekey_def one_page_def one_entry_def)
  then have "hash_shape (rekey (\<lambda>e. vaddr (spages one_page e)) one_entry)"
    using p by (simp add: hash_shape_def one_entry_def all_less_4)
  then show "table_ok (spages one_page) one_entry"
    using kf.hash_funcs_axioms by (simp add: table_ok_def keyed_def hash_ok_def no_equal_def) (simp add: rekey_def contents_def elems_def one_entry_def)
  show "elems one_entry = {500}" by (simp add: elems_def contents_def one_entry_def)
qed

theorem evict_fault_restores_witness:
  "\<exists>v' v'' k. evict_page no_files one_page = Some (v', True) \<and>
     page_fault no_files (\<lambda>_. True) 600 300 0xc0100000 True 0x8048123 0 v' one_entry = Some (v'', one_entry, True) \<and>
     frame_bytes v'' k = frame_bytes one_page 0xc0200000"
proof -
  have ne: "page_list one_page \<noteq> []" by (simp add: one_page_def)
  obtain v' where v': "evict_page no_files one_page = Some (v', True)"
    using evict_page_ok [OF one_page_ok(1) ne, of no_files] one_page_ok(4) by (auto split: if_splits)
  have sp: "spages one_page 500 = \<lparr>vaddr = 0x8048000, kaddr = 0xc0200000, saddr = None, pagedir = 0xc0100000, mapping = NULL,
       location = PG_LOCATION_RAM, dirty = False, accessed = True\<rparr>" by (simp add: one_page_def)
  have "pg_round_down 0x8048123 = 0x8048000" by (simp add: pg_round_down_def PGBITS_def push_bit_eq_mult drop_bit_eq_div)
  moreover have "cr3 (vm_mmu one_page) = 0xc0100000 - PHYS_BASE" "0xc0100000 \<noteq> init_page_dir (vm_mmu one_page)"
    by (simp_all add: one_page_def one_mmu_def set32_def PHYS_BASE_def)
  ultimately show ?thesis
    using evict_fault_restores [OF one_page_ok(1) ne refl _ v', of one_entry 300 "0x8048123" "\<lambda>_. True" 600 "0xc0100000" 0] v'
      one_page_ok(2,3) one_page_victim one_entry_ok by (auto simp: sp)
qed

end
