(* ===== verification/Cache.thy ===== *)
theory Cache
  imports Allocators KeyTable
begin

text \<open>
  The buffer cache: \<^verbatim>\<open>src/Project5/src/filesys/cache.c\<close>. A slot of the cache is known by its position in
  the array of sectors; the hash table and the free list hold positions. The device is a function from
  sectors to bytes. The lock of the cache makes each operation a critical section; a call that would
  have to wait for an owner of a sector is \<^term>\<open>None\<close>.
\<close>

section \<open>State\<close>

definition SECTOR_COUNT :: nat where "SECTOR_COUNT = 64"

text \<open>The index of a slot that holds no sector: \<^verbatim>\<open>(block_sector_t)(-1)\<close>.\<close>

definition NO_SECTOR :: nat where "NO_SECTOR = 2 ^ 32 - 1"

record sector =
  index :: nat
  data :: "nat \<Rightarrow> u8"
  dirty :: bool
  owners :: nat
  sector_lock :: bool

record cache =
  sectors :: "sector list"
  cache_sem :: nat
  index_sectors_map :: "nat hash"
  free_list :: "nat list"
  clock_hand :: nat
  last_flush_t :: int
  device :: "nat \<Rightarrow> nat \<Rightarrow> u8"
  device_size :: nat

definition upd_sector :: "nat \<Rightarrow> (sector \<Rightarrow> sector) \<Rightarrow> cache \<Rightarrow> cache" where
  "upd_sector e f c = c\<lparr>sectors := (sectors c)[e := f (sectors c ! e)]\<rparr>"

definition sectors_hash :: "(nat \<Rightarrow> nat) \<Rightarrow> nat \<Rightarrow> u32" where
  "sectors_hash ix e = of_nat (ix e)"

definition sectors_map_less :: "(nat \<Rightarrow> nat) \<Rightarrow> nat \<Rightarrow> nat \<Rightarrow> bool" where
  "sectors_map_less ix a b \<longleftrightarrow> ix a < ix b"

text \<open>The index that the functions of the hash table read from a slot; \<^verbatim>\<open>element\<close> of \<^verbatim>\<open>take_sector\<close> is slot 64.\<close>

definition slot_index :: "cache \<Rightarrow> nat \<Rightarrow> nat" where
  "slot_index c e = index (sectors c ! e)"

definition sectors_map :: "(nat \<Rightarrow> nat) \<Rightarrow> cache \<Rightarrow> nat hash" where
  "sectors_map ix c = (index_sectors_map c)\<lparr>hash_fn := sectors_hash ix, less_fn := sectors_map_less ix\<rparr>"

section \<open>Operations\<close>

definition sector_init :: "sector \<Rightarrow> sector" where
  "sector_init sec = sec\<lparr>index := NO_SECTOR, owners := 0, sector_lock := False\<rparr>"

text \<open>\<open>junk\<close> is what the memory of the cache held before; starting the thread that flushes is left out.\<close>

definition cache_init :: "(u32 \<Rightarrow> bool) \<Rightarrow> nat list list \<Rightarrow> cache \<Rightarrow> cache option" where
  "cache_init mem junk c = do {
     let c = c\<lparr>cache_sem := SECTOR_COUNT, sectors := map sector_init (sectors c)\<rparr>;
     h \<leftarrow> hash_init mem junk (sectors_hash (slot_index c)) (sectors_map_less (slot_index c));
     Some (c\<lparr>index_sectors_map := h, free_list := [0..<SECTOR_COUNT]\<rparr>) }"

definition dev_write :: "nat \<Rightarrow> nat \<Rightarrow> cache \<Rightarrow> cache option" where
  "dev_write e i c = do {
     ASSERT (i < device_size c);
     Some (c\<lparr>device := (device c)(i := (\<lambda>k. if k < BLOCK_SECTOR_SIZE then data (sectors c ! e) k else device c i k))\<rparr>) }"

definition dev_read :: "nat \<Rightarrow> nat \<Rightarrow> cache \<Rightarrow> cache option" where
  "dev_read i e c = do {
     ASSERT (i < device_size c);
     Some (upd_sector e (data_update (\<lambda>d k. if k < BLOCK_SECTOR_SIZE then device c i k else d k)) c) }"

definition sema_down_cache :: "cache \<Rightarrow> cache option" where
  "sema_down_cache c = do { ASSERT (0 < cache_sem c); Some (c\<lparr>cache_sem := cache_sem c - 1\<rparr>) }"

text \<open>Giving up the sector in slot \<open>e\<close>: the part of \<^verbatim>\<open>evict_sector\<close> before its return.\<close>

definition evict_slot :: "(u32 \<Rightarrow> bool) \<Rightarrow> nat \<Rightarrow> cache \<Rightarrow> cache option" where
  "evict_slot mem e c = do {
     c \<leftarrow> (if dirty (sectors c ! e) then dev_write e (index (sectors c ! e)) c else Some c);
     (h, _) \<leftarrow> hash_delete mem (sectors_map (slot_index c) c) e;
     Some (upd_sector e (index_update (\<lambda>_. NO_SECTOR)) (c\<lparr>index_sectors_map := h, free_list := free_list c @ [e]\<rparr>)) }"

partial_function (option) evict_loop :: "(u32 \<Rightarrow> bool) \<Rightarrow> nat \<Rightarrow> cache \<Rightarrow> cache option" where
  "evict_loop mem end c =
     (let cur = sectors c ! clock_hand c in
      if index cur \<noteq> NO_SECTOR \<and> owners cur = 0 then evict_slot mem (clock_hand c) c
      else do {
        let c = c\<lparr>clock_hand := (clock_hand c + 1) mod SECTOR_COUNT\<rparr>;
        if clock_hand c = end then None else evict_loop mem end c })"

definition evict_sector :: "(u32 \<Rightarrow> bool) \<Rightarrow> cache \<Rightarrow> cache option" where
  "evict_sector mem c = evict_loop mem (clock_hand c) c"

definition lock_sector :: "bool \<Rightarrow> nat \<Rightarrow> cache \<Rightarrow> cache option" where
  "lock_sector block e c =
     (if block then do { ASSERT (\<not> sector_lock (sectors c ! e)); Some (upd_sector e (sector_lock_update (\<lambda>_. True)) c) } else Some c)"

definition take_sector :: "(u32 \<Rightarrow> bool) \<Rightarrow> nat \<Rightarrow> bool \<Rightarrow> cache \<Rightarrow> (cache \<times> nat) option" where
  "take_sector mem i block c = do {
     elem \<leftarrow> hash_find (sectors_map ((slot_index c)(SECTOR_COUNT := i)) c) SECTOR_COUNT;
     case elem of
       Some res \<Rightarrow> do {
         c \<leftarrow> (if owners (sectors c ! res) = 0 then sema_down_cache c else Some c);
         let c = upd_sector res (owners_update (\<lambda>n. (n + 1) mod 2 ^ 32)) c;
         c \<leftarrow> lock_sector block res c;
         Some (c, res) }
     | None \<Rightarrow> do {
         c \<leftarrow> sema_down_cache c;
         c \<leftarrow> (if free_list c = [] then evict_sector mem c else Some c);
         ASSERT (free_list c \<noteq> []);
         let res = last (free_list c);
         let c = c\<lparr>free_list := butlast (free_list c)\<rparr>;
         let c = upd_sector res (\<lambda>s. s\<lparr>index := i, dirty := False, owners := 1\<rparr>) c;
         c \<leftarrow> dev_read i res c;
         (h, _) \<leftarrow> hash_insert mem (sectors_map (slot_index c) c) res;
         c \<leftarrow> lock_sector block res (c\<lparr>index_sectors_map := h\<rparr>);
         Some (c, res) } }"

definition release_sector :: "nat \<Rightarrow> nat \<Rightarrow> bool \<Rightarrow> bool \<Rightarrow> cache \<Rightarrow> cache option" where
  "release_sector e i changed blocked c = do {
     ASSERT (index (sectors c ! e) = i);
     let c = (if changed then upd_sector e (dirty_update (\<lambda>_. True)) c else c);
     let c = upd_sector e (owners_update (\<lambda>n. (n + 2 ^ 32 - 1) mod 2 ^ 32)) c;
     let c = (if owners (sectors c ! e) = 0 then c\<lparr>cache_sem := cache_sem c + 1\<rparr> else c);
     if blocked then do {
       ASSERT (sector_lock (sectors c ! e));
       Some (upd_sector e (sector_lock_update (\<lambda>_. False)) c) }
     else Some c }"

fun flush_from :: "nat \<Rightarrow> nat \<Rightarrow> cache \<Rightarrow> cache option" where
  "flush_from i 0 c = Some c"
| "flush_from i (Suc n) c = do {
     let cur = sectors c ! i;
     c \<leftarrow> (if index cur \<noteq> NO_SECTOR \<and> dirty cur then do {
         c \<leftarrow> dev_write i (index cur) c;
         Some (upd_sector i (dirty_update (\<lambda>_. False)) c) }
       else Some c);
     flush_from (i + 1) n c }"

definition sector_cache_flush :: "bool \<Rightarrow> int \<Rightarrow> cache \<Rightarrow> cache option" where
  "sector_cache_flush force t c =
     (if force \<or> t - last_flush_t c > 512 then do {
        c \<leftarrow> flush_from 0 SECTOR_COUNT c;
        Some (c\<lparr>last_flush_t := t\<rparr>) }
      else Some c)"

text \<open>What clients do with a sector they have taken: change its bytes.\<close>

definition put_bytes :: "nat \<Rightarrow> (nat \<Rightarrow> u8) \<Rightarrow> cache \<Rightarrow> cache" where
  "put_bytes e f = upd_sector e (data_update (\<lambda>_. f))"

section \<open>The contents of the disk as clients see it\<close>

text \<open>The slot that holds a sector, and the bytes of the sector: those in the cache, else those on the device.\<close>

definition slot_of :: "cache \<Rightarrow> nat \<Rightarrow> nat option" where
  "slot_of c i = find (\<lambda>e. slot_index c e = i) [0..<SECTOR_COUNT]"

definition view :: "cache \<Rightarrow> nat \<Rightarrow> nat \<Rightarrow> u8" where
  "view c i k =
     (if i < device_size c \<and> k < BLOCK_SECTOR_SIZE
      then (case slot_of c i of None \<Rightarrow> device c i k | Some e \<Rightarrow> data (sectors c ! e) k) else 0)"

definition unowned :: "cache \<Rightarrow> nat set" where
  "unowned c = {e. e < SECTOR_COUNT \<and> owners (sectors c ! e) = 0}"

text \<open>A slot that nobody holds is not locked, and agrees with the device when it is not dirty.\<close>

definition agrees :: "cache \<Rightarrow> nat \<Rightarrow> bool" where
  "agrees c e \<longleftrightarrow> (\<forall>k < BLOCK_SECTOR_SIZE. data (sectors c ! e) k = device c (slot_index c e) k)"

definition slot_ok :: "cache \<Rightarrow> nat \<Rightarrow> bool" where
  "slot_ok c e \<longleftrightarrow>
     (owners (sectors c ! e) = 0 \<longrightarrow> \<not> sector_lock (sectors c ! e)) \<and>
     (if slot_index c e = NO_SECTOR then owners (sectors c ! e) = 0
      else slot_index c e < device_size c \<and> (owners (sectors c ! e) = 0 \<and> \<not> dirty (sectors c ! e) \<longrightarrow> agrees c e))"

definition cache_inv :: "cache \<Rightarrow> bool" where
  "cache_inv c \<longleftrightarrow> length (sectors c) = SECTOR_COUNT \<and> device_size c < NO_SECTOR \<and> clock_hand c < SECTOR_COUNT \<and>
     keyed (slot_index c) (index_sectors_map c) \<and>
     elems (index_sectors_map c) = {e. e < SECTOR_COUNT \<and> slot_index c e \<noteq> NO_SECTOR} \<and>
     distinct (free_list c) \<and> set (free_list c) = {e. e < SECTOR_COUNT \<and> slot_index c e = NO_SECTOR} \<and>
     (\<forall>e < SECTOR_COUNT. slot_ok c e)"

definition cache_ok :: "cache \<Rightarrow> bool" where
  "cache_ok c \<longleftrightarrow> cache_inv c \<and> cache_sem c = card (unowned c)"

section \<open>Lemmas\<close>

lemma sectors_map_rekey: "sectors_map ix c = rekey ix (index_sectors_map c)"
  by (simp add: sectors_map_def rekey_def sectors_hash_def sectors_map_less_def fun_eq_iff)

lemma upd_sector_simps [simp]:
  "length (sectors (upd_sector e f c)) = length (sectors c)"
  "cache_sem (upd_sector e f c) = cache_sem c" "index_sectors_map (upd_sector e f c) = index_sectors_map c"
  "free_list (upd_sector e f c) = free_list c" "clock_hand (upd_sector e f c) = clock_hand c"
  "device (upd_sector e f c) = device c" "device_size (upd_sector e f c) = device_size c"
  "last_flush_t (upd_sector e f c) = last_flush_t c"
  by (simp_all add: upd_sector_def)

lemma upd_sector_nth [simp]:
  "e < length (sectors c) \<Longrightarrow> sectors (upd_sector e f c) ! e' = (if e' = e then f (sectors c ! e) else sectors c ! e')"
  by (simp add: upd_sector_def)

lemma slot_index_upd [simp]:
  "e < length (sectors c) \<Longrightarrow> slot_index (upd_sector e f c) = (slot_index c)(e := index (f (sectors c ! e)))"
  by (auto simp: slot_index_def)

lemma slot_index_cong [simp]:
  "slot_index (c\<lparr>cache_sem := n\<rparr>) = slot_index c" "slot_index (c\<lparr>index_sectors_map := h\<rparr>) = slot_index c"
  "slot_index (c\<lparr>free_list := l\<rparr>) = slot_index c" "slot_index (c\<lparr>clock_hand := n\<rparr>) = slot_index c"
  "slot_index (c\<lparr>device := d\<rparr>) = slot_index c" "slot_index (c\<lparr>last_flush_t := t\<rparr>) = slot_index c"
  by (simp_all add: slot_index_def fun_eq_iff)

lemma agrees_cong: "sectors c' ! e = sectors c ! e \<Longrightarrow> device c' = device c \<Longrightarrow> agrees c' e = agrees c e"
  by (simp add: agrees_def slot_index_def)

lemma slot_ok_cong:
  "sectors c' ! e = sectors c ! e \<Longrightarrow> device c' = device c \<Longrightarrow> device_size c' = device_size c \<Longrightarrow> slot_ok c' e = slot_ok c e"
  by (simp add: slot_ok_def agrees_def slot_index_def)

lemma slot_ok_fields [simp]:
  "slot_ok (c\<lparr>cache_sem := n\<rparr>) e = slot_ok c e"
  "slot_ok (c\<lparr>index_sectors_map := h\<rparr>) e = slot_ok c e"
  "slot_ok (c\<lparr>free_list := l\<rparr>) e = slot_ok c e"
  "slot_ok (c\<lparr>clock_hand := n\<rparr>) e = slot_ok c e"
  "slot_ok (c\<lparr>last_flush_t := t\<rparr>) e = slot_ok c e"
  by (simp_all add: slot_ok_def agrees_def)

lemma unowned_fields [simp]:
  "unowned (c\<lparr>cache_sem := n\<rparr>) = unowned c"
  "unowned (c\<lparr>index_sectors_map := h\<rparr>) = unowned c"
  "unowned (c\<lparr>free_list := l\<rparr>) = unowned c"
  "unowned (c\<lparr>clock_hand := n\<rparr>) = unowned c"
  "unowned (c\<lparr>last_flush_t := t\<rparr>) = unowned c"
  by (simp_all add: unowned_def)

lemma view_fields [simp]:
  "view (c\<lparr>cache_sem := n\<rparr>) = view c"
  "view (c\<lparr>index_sectors_map := h\<rparr>) = view c"
  "view (c\<lparr>free_list := l\<rparr>) = view c"
  "view (c\<lparr>clock_hand := n\<rparr>) = view c"
  "view (c\<lparr>last_flush_t := t\<rparr>) = view c"
  by (simp_all add: view_def slot_of_def fun_eq_iff split: option.split)

lemma cache_inv_fields [simp]:
  "cache_inv (c\<lparr>cache_sem := n\<rparr>) = cache_inv c" "cache_inv (c\<lparr>last_flush_t := t\<rparr>) = cache_inv c"
  by (simp_all add: cache_inv_def)

lemma cache_unique:
  assumes "cache_inv c" "e < SECTOR_COUNT" "e' < SECTOR_COUNT" "slot_index c e' = slot_index c e" "slot_index c e \<noteq> NO_SECTOR"
  shows "e' = e"
  using assms keyed_unique [of "slot_index c" "index_sectors_map c" e' e] by (simp add: cache_inv_def)

lemma slot_of_None: "slot_of c i = None \<longleftrightarrow> (\<forall>e < SECTOR_COUNT. slot_index c e \<noteq> i)"
  by (simp add: slot_of_def find_None_iff)

lemma slot_of_Some:
  assumes "cache_inv c" "i < device_size c"
  shows "slot_of c i = Some e \<longleftrightarrow> e < SECTOR_COUNT \<and> slot_index c e = i"
proof
  assume "slot_of c i = Some e"
  then show "e < SECTOR_COUNT \<and> slot_index c e = i"
    by (auto simp: slot_of_def find_Some_iff)
next
  assume e: "e < SECTOR_COUNT \<and> slot_index c e = i"
  then obtain e' where e': "slot_of c i = Some e'" using slot_of_None [of c i] by (cases "slot_of c i") auto
  then have "e' < SECTOR_COUNT \<and> slot_index c e' = i" by (auto simp: slot_of_def find_Some_iff)
  then have "e' = e" using cache_unique [OF assms(1)] e assms by (auto simp: cache_inv_def)
  then show "slot_of c i = Some e" using e' by simp
qed

lemma view_cached:
  "cache_inv c \<Longrightarrow> e < SECTOR_COUNT \<Longrightarrow> slot_index c e < device_size c \<Longrightarrow> k < BLOCK_SECTOR_SIZE \<Longrightarrow>
   view c (slot_index c e) k = data (sectors c ! e) k"
  using slot_of_Some [of c "slot_index c e" e] by (simp add: view_def)

text \<open>Two states show the same sectors when each sector is found with the same bytes.\<close>

lemma view_eqI:
  assumes "cache_inv c" "cache_inv c'" "device_size c' = device_size c"
    and "\<And>e k. e < SECTOR_COUNT \<Longrightarrow> slot_index c' e < device_size c \<Longrightarrow> k < BLOCK_SECTOR_SIZE \<Longrightarrow>
      data (sectors c' ! e) k = view c (slot_index c' e) k"
    and "\<And>i k. i < device_size c \<Longrightarrow> \<forall>e < SECTOR_COUNT. slot_index c' e \<noteq> i \<Longrightarrow> k < BLOCK_SECTOR_SIZE \<Longrightarrow>
      device c' i k = view c i k"
  shows "view c' = view c"
proof (intro ext)
  fix i k
  consider "\<not> (i < device_size c \<and> k < BLOCK_SECTOR_SIZE)" | e where "i < device_size c" "k < BLOCK_SECTOR_SIZE" "slot_of c' i = Some e"
    | "i < device_size c" "k < BLOCK_SECTOR_SIZE" "slot_of c' i = None" by (cases "slot_of c' i") auto
  then show "view c' i k = view c i k"
  proof cases
    case 1 then show ?thesis using assms(3) by (auto simp: view_def)
  next
    case (2 e) then show ?thesis using slot_of_Some [OF assms(2), of i e] assms(3,4) by (auto simp: view_def [of c'])
  next
    case 3
    then have "view c' i k = device c' i k" using assms(3) by (simp add: view_def)
    then show ?thesis using 3 assms(5) by (simp add: slot_of_None)
  qed
qed

subsection \<open>Eviction\<close>

lemma evict_loop_here:
  assumes "index (sectors c ! clock_hand c) \<noteq> NO_SECTOR \<and> owners (sectors c ! clock_hand c) = 0" "clock_hand c < SECTOR_COUNT"
  shows "\<exists>e < SECTOR_COUNT. index (sectors c ! e) \<noteq> NO_SECTOR \<and> owners (sectors c ! e) = 0 \<and>
    evict_loop mem from c = evict_slot mem e (c\<lparr>clock_hand := e\<rparr>)"
proof -
  have "evict_loop mem from c = evict_slot mem (clock_hand c) (c\<lparr>clock_hand := clock_hand c\<rparr>)"
    using assms by (subst evict_loop.simps) (simp add: Let_def)
  then show ?thesis using assms by blast
qed

lemma evict_loop_finds:
  assumes "p - m = (n :: nat)" "m \<le> p" "p < SECTOR_COUNT" "clock_hand c = (from + m) mod SECTOR_COUNT" "from < SECTOR_COUNT"
    "index (sectors c ! ((from + p) mod SECTOR_COUNT)) \<noteq> NO_SECTOR" "owners (sectors c ! ((from + p) mod SECTOR_COUNT)) = 0"
  shows "\<exists>e < SECTOR_COUNT. index (sectors c ! e) \<noteq> NO_SECTOR \<and> owners (sectors c ! e) = 0 \<and>
    evict_loop mem from c = evict_slot mem e (c\<lparr>clock_hand := e\<rparr>)"
  using assms
proof (induction n arbitrary: m c)
  case 0
  then show ?case by (intro evict_loop_here) (simp_all add: SECTOR_COUNT_def)
next
  case (Suc n)
  show ?case
  proof (cases "index (sectors c ! clock_hand c) \<noteq> NO_SECTOR \<and> owners (sectors c ! clock_hand c) = 0")
    case True
    then show ?thesis using Suc.prems by (intro evict_loop_here) (simp_all add: SECTOR_COUNT_def)
  next
    case False
    let ?c = "c\<lparr>clock_hand := (clock_hand c + 1) mod SECTOR_COUNT\<rparr>"
    have hand: "clock_hand ?c = (from + Suc m) mod SECTOR_COUNT" using Suc.prems by (simp add: mod_simps)
    have "Suc m < SECTOR_COUNT" using Suc.prems by simp
    then have "clock_hand ?c \<noteq> from" unfolding hand using Suc.prems(5)
      by (cases "from + Suc m < SECTOR_COUNT") (auto simp: le_mod_geq not_less mod_if)
    then have step: "evict_loop mem from c = evict_loop mem from ?c"
      using False by (subst evict_loop.simps) (auto simp: Let_def)
    show ?thesis unfolding step using Suc.IH [of "Suc m" ?c] Suc.prems hand by simp
  qed
qed

lemma evict_sector_finds:
  assumes "cache_inv c" "e < SECTOR_COUNT" "slot_index c e \<noteq> NO_SECTOR" "owners (sectors c ! e) = 0"
  shows "\<exists>e < SECTOR_COUNT. slot_index c e \<noteq> NO_SECTOR \<and> owners (sectors c ! e) = 0 \<and>
    evict_sector mem c = evict_slot mem e (c\<lparr>clock_hand := e\<rparr>)"
proof -
  let ?h = "clock_hand c"
  define p where "p = (if ?h \<le> e then e - ?h else SECTOR_COUNT + e - ?h)"
  have h: "?h < SECTOR_COUNT" using assms(1) by (simp add: cache_inv_def)
  then have "p < SECTOR_COUNT" "(?h + p) mod SECTOR_COUNT = e" using assms(2) by (auto simp: p_def)
  then show ?thesis using evict_loop_finds [of p 0 p c ?h mem] h assms(3,4) by (simp add: evict_sector_def slot_index_def)
qed

text \<open>Writing back a slot changes only the device, and the view not at all.\<close>

lemma dev_write_ok:
  assumes "cache_inv c" "e < SECTOR_COUNT" "slot_index c e \<noteq> NO_SECTOR"
  shows "\<exists>d. dev_write e (slot_index c e) c = Some (c\<lparr>device := d\<rparr>) \<and> cache_inv (c\<lparr>device := d\<rparr>) \<and>
    view (c\<lparr>device := d\<rparr>) = view c \<and> agrees (c\<lparr>device := d\<rparr>) e \<and>
    (\<forall>e' < SECTOR_COUNT. agrees c e' \<longrightarrow> agrees (c\<lparr>device := d\<rparr>) e')"
proof -
  let ?i = "slot_index c e"
  define d where "d = (device c)(?i := (\<lambda>k. if k < BLOCK_SECTOR_SIZE then data (sectors c ! e) k else device c ?i k))"
  let ?c = "c\<lparr>device := d\<rparr>"
  have slots: "\<forall>e < SECTOR_COUNT. slot_ok c e" using assms(1) by (simp add: cache_inv_def)
  then have i: "?i < device_size c" using assms by (auto simp: slot_ok_def split: if_splits)
  have "agrees ?c e' \<longleftrightarrow> e' = e \<or> agrees c e'" if "e' < SECTOR_COUNT" for e'
    using cache_unique [OF assms(1,2) that _ assms(3)] by (auto simp: agrees_def d_def)
  then have ag: "agrees ?c e" "\<forall>e' < SECTOR_COUNT. agrees c e' \<longrightarrow> agrees ?c e'" using assms(2) by auto
  have "slot_ok ?c e'" if "e' < SECTOR_COUNT" for e'
    using slots ag(2) that by (auto simp: slot_ok_def split: if_splits)
  then have ok: "cache_inv ?c" using assms(1) by (simp add: cache_inv_def unowned_def)
  have "view ?c = view c"
  proof (rule view_eqI [OF assms(1) ok])
    fix i k assume "i < device_size c" "\<forall>e<SECTOR_COUNT. slot_index ?c e \<noteq> i" "k < BLOCK_SECTOR_SIZE"
    then show "device ?c i k = view c i k"
      using assms(2) slot_of_None [of c i] by (auto simp: view_def d_def)
  qed (simp_all add: view_cached [OF assms(1)])
  moreover have "dev_write e ?i c = Some ?c" using i by (simp add: dev_write_def d_def)
  ultimately show ?thesis using ok ag by blast
qed

text \<open>A slot that agrees with the device can be given up.\<close>

lemma drop_slot_ok:
  assumes "cache_inv c" "e < SECTOR_COUNT" "slot_index c e \<noteq> NO_SECTOR" "owners (sectors c ! e) = 0" "agrees c e"
  shows "\<exists>h c'. hash_delete mem (sectors_map (slot_index c) c) e = Some (h, Some e) \<and>
    c' = upd_sector e (index_update (\<lambda>_. NO_SECTOR)) (c\<lparr>index_sectors_map := h, free_list := free_list c @ [e]\<rparr>) \<and>
    cache_inv c' \<and> view c' = view c"
proof -
  note ok = assms(1) [unfolded cache_inv_def]
  from keyed_delete [of "slot_index c" "index_sectors_map c" e mem] ok assms(2,3) obtain h where
    h: "hash_delete mem (sectors_map (slot_index c) c) e = Some (h, Some e)" "keyed (slot_index c) h"
      "elems h = elems (index_sectors_map c) - {e}" by (auto simp: sectors_map_rekey)
  let ?c = "upd_sector e (index_update (\<lambda>_. NO_SECTOR)) (c\<lparr>index_sectors_map := h, free_list := free_list c @ [e]\<rparr>)"
  have len: "e < length (sectors c)" using ok assms(2) by simp
  have sl: "slot_index ?c = (slot_index c)(e := NO_SECTOR)" using len by simp
  have i: "slot_index c e < device_size c" using ok assms(2,3) by (auto simp: slot_ok_def)
  have "keyed (slot_index ?c) h" unfolding sl by (rule keyed_cong [OF h(2)]) (use h(3) in auto)
  moreover have "elems h = {e'. e' < SECTOR_COUNT \<and> slot_index ?c e' \<noteq> NO_SECTOR}" unfolding sl h(3) using ok by auto
  moreover have "slot_ok ?c e'" if "e' < SECTOR_COUNT" for e'
  proof (cases "e' = e")
    case True then show ?thesis using ok that sl len assms(4) by (simp add: slot_ok_def)
  next
    case False then show ?thesis using ok that len slot_ok_cong [of ?c e' c] by simp
  qed
  moreover have "distinct (free_list ?c)" "set (free_list ?c) = {e'. e' < SECTOR_COUNT \<and> slot_index ?c e' = NO_SECTOR}"
    unfolding sl using ok assms(2,3) by auto
  ultimately have okc: "cache_inv ?c" unfolding cache_inv_def using ok by simp
  have "view ?c = view c"
  proof (rule view_eqI [OF assms(1) okc])
    fix e' k assume a: "e' < SECTOR_COUNT" "slot_index ?c e' < device_size c" "k < BLOCK_SECTOR_SIZE"
    then have "e' \<noteq> e" using sl ok by auto
    then show "data (sectors ?c ! e') k = view c (slot_index ?c e') k"
      using a sl len view_cached [OF assms(1) a(1) _ a(3)] by simp
  next
    fix i k assume a: "i < device_size c" "\<forall>e<SECTOR_COUNT. slot_index ?c e \<noteq> i" "k < BLOCK_SECTOR_SIZE"
    show "device ?c i k = view c i k"
    proof (cases "i = slot_index c e")
      case True then show ?thesis using view_cached [OF assms(1,2) i a(3)] assms(5) a(3) by (simp add: agrees_def)
    next
      case False
      then have "slot_of c i = None" using a(2) sl by (auto simp: slot_of_None fun_upd_def split: if_splits)
      then show ?thesis using a by (simp add: view_def)
    qed
  qed simp
  then show ?thesis using h(1) okc by blast
qed

lemma evict_slot_ok:
  assumes "cache_inv c" "e < SECTOR_COUNT" "slot_index c e \<noteq> NO_SECTOR" "owners (sectors c ! e) = 0"
  shows "\<exists>c'. evict_slot mem e c = Some c' \<and> cache_inv c' \<and> view c' = view c \<and> free_list c' = free_list c @ [e] \<and>
    cache_sem c' = cache_sem c \<and> device_size c' = device_size c \<and>
    unowned c' = unowned c \<and> (\<forall>e'. e' \<noteq> e \<longrightarrow> sectors c' ! e' = sectors c ! e') \<and> slot_index c' e = NO_SECTOR \<and>
    (\<forall>e' < SECTOR_COUNT. e' \<noteq> e \<longrightarrow> agrees c e' \<longrightarrow> agrees c' e')"
proof -
  define w where "w = (if dirty (sectors c ! e) then dev_write e (index (sectors c ! e)) c else Some c)"
  have "\<exists>d. w = Some (c\<lparr>device := d\<rparr>) \<and> cache_inv (c\<lparr>device := d\<rparr>) \<and> view (c\<lparr>device := d\<rparr>) = view c \<and> agrees (c\<lparr>device := d\<rparr>) e \<and>
    (\<forall>e' < SECTOR_COUNT. agrees c e' \<longrightarrow> agrees (c\<lparr>device := d\<rparr>) e')"
  proof (cases "dirty (sectors c ! e)")
    case True then show ?thesis using dev_write_ok [OF assms(1-3)] by (simp add: w_def slot_index_def)
  next
    case False
    then have "agrees c e" using assms by (auto simp: cache_inv_def slot_ok_def)
    then show ?thesis using False assms(1) by (intro exI [of _ "device c"]) (simp add: w_def)
  qed
  then obtain d where d: "w = Some (c\<lparr>device := d\<rparr>)" "cache_inv (c\<lparr>device := d\<rparr>)" "view (c\<lparr>device := d\<rparr>) = view c"
    "agrees (c\<lparr>device := d\<rparr>) e" "\<forall>e' < SECTOR_COUNT. agrees c e' \<longrightarrow> agrees (c\<lparr>device := d\<rparr>) e'" by blast
  from drop_slot_ok [OF d(2) assms(2) _ _ d(4), of mem] assms(3,4) obtain h c' where
    h: "hash_delete mem (sectors_map (slot_index (c\<lparr>device := d\<rparr>)) (c\<lparr>device := d\<rparr>)) e = Some (h, Some e)"
    and c': "c' = upd_sector e (index_update (\<lambda>_. NO_SECTOR)) (c\<lparr>device := d, index_sectors_map := h, free_list := free_list c @ [e]\<rparr>)"
      "cache_inv c'" "view c' = view (c\<lparr>device := d\<rparr>)" by auto
  have "evict_slot mem e c = Some c'"
    unfolding evict_slot_def w_def [symmetric] d(1) using h c'(1) by simp
  moreover have "unowned c' = unowned c" using c'(1) assms(1,2) by (auto simp: unowned_def cache_inv_def)
  moreover have "agrees c' e'" if "e' < SECTOR_COUNT" "e' \<noteq> e" "agrees c e'" for e'
  proof -
    have "e < length (sectors c)" using assms(1,2) by (simp add: cache_inv_def)
    then have "agrees c' e' = agrees (c\<lparr>device := d\<rparr>) e'" using that(2) c'(1) by (intro agrees_cong) simp_all
    then show ?thesis using d(5) that by blast
  qed
  ultimately show ?thesis using c' d(3) assms(1,2) by (auto simp: cache_inv_def)
qed

subsection \<open>Taking and releasing a sector\<close>

lemma upd_sector_inv:
  assumes "cache_inv c" "e < SECTOR_COUNT" "index (f (sectors c ! e)) = index (sectors c ! e)" "slot_ok (upd_sector e f c) e"
  shows "cache_inv (upd_sector e f c)"
proof -
  note inv = assms(1) [unfolded cache_inv_def]
  have len: "e < length (sectors c)" using inv assms(2) by simp
  then have sl: "slot_index (upd_sector e f c) = slot_index c" using assms(3) by (auto simp: slot_index_def)
  have "slot_ok (upd_sector e f c) e'" if "e' < SECTOR_COUNT" for e'
    using inv that len assms(4) slot_ok_cong [of "upd_sector e f c" e' c] by (cases "e' = e") auto
  then show ?thesis unfolding cache_inv_def sl using inv by simp
qed

lemma upd_sector_view:
  assumes "cache_inv c" "e < SECTOR_COUNT" "index (f (sectors c ! e)) = index (sectors c ! e)" "data (f (sectors c ! e)) = data (sectors c ! e)"
  shows "view (upd_sector e f c) = view c"
proof -
  have len: "e < length (sectors c)" using assms(1,2) by (simp add: cache_inv_def)
  then have "slot_index (upd_sector e f c) = slot_index c" using assms(3) by (auto simp: slot_index_def)
  moreover have "data (sectors (upd_sector e f c) ! e') = data (sectors c ! e')" for e' using len assms(4) by simp
  ultimately show ?thesis by (auto simp: view_def slot_of_def fun_eq_iff split: option.splits)
qed

lemma evict_sector_ok:
  assumes "cache_inv c" "free_list c = []" "unowned c \<noteq> {}"
  shows "\<exists>c'. evict_sector mem c = Some c' \<and> cache_inv c' \<and> view c' = view c \<and> free_list c' \<noteq> [] \<and>
    cache_sem c' = cache_sem c \<and> device_size c' = device_size c \<and> unowned c' = unowned c \<and>
    (\<forall>e. owners (sectors c ! e) \<noteq> 0 \<longrightarrow> sectors c' ! e = sectors c ! e) \<and>
    (\<forall>e. slot_index c' e = slot_index c e \<or> slot_index c' e = NO_SECTOR) \<and>
    (\<forall>e < SECTOR_COUNT. owners (sectors c ! e) \<noteq> 0 \<longrightarrow> agrees c e \<longrightarrow> agrees c' e)"
proof -
  from assms(3) obtain e where "e < SECTOR_COUNT" "owners (sectors c ! e) = 0" by (auto simp: unowned_def)
  moreover from this have "slot_index c e \<noteq> NO_SECTOR" using assms(1,2) by (auto simp: cache_inv_def)
  ultimately obtain e where e: "e < SECTOR_COUNT" "slot_index c e \<noteq> NO_SECTOR" "owners (sectors c ! e) = 0"
    "evict_sector mem c = evict_slot mem e (c\<lparr>clock_hand := e\<rparr>)"
    using evict_sector_finds [OF assms(1)] by blast
  let ?c = "c\<lparr>clock_hand := e\<rparr>"
  have "cache_inv ?c" using assms(1) e(1) by (simp add: cache_inv_def)
  from evict_slot_ok [OF this e(1), of mem] e(2,3) obtain c' where
    c': "evict_slot mem e ?c = Some c'" "cache_inv c'" "view c' = view ?c" "free_list c' = free_list c @ [e]"
      "cache_sem c' = cache_sem c" "device_size c' = device_size c" "unowned c' = unowned ?c"
      "\<forall>e'. e' \<noteq> e \<longrightarrow> sectors c' ! e' = sectors c ! e'" "slot_index c' e = NO_SECTOR"
      "\<forall>e' < SECTOR_COUNT. e' \<noteq> e \<longrightarrow> agrees ?c e' \<longrightarrow> agrees c' e'"
    by auto
  have "\<forall>e'. slot_index c' e' = slot_index c e' \<or> slot_index c' e' = NO_SECTOR" using c'(8,9) by (metis slot_index_def)
  moreover have "\<forall>e'. owners (sectors c ! e') \<noteq> 0 \<longrightarrow> sectors c' ! e' = sectors c ! e'" using c'(8) e(3) by metis
  moreover have "\<forall>e' < SECTOR_COUNT. owners (sectors c ! e') \<noteq> 0 \<longrightarrow> agrees c e' \<longrightarrow> agrees c' e'"
    using c'(10) e(3) by (auto simp: agrees_def)
  ultimately show ?thesis using c' e(4) by simp
qed

text \<open>Reading sector \<open>i\<close> into a free slot.\<close>

definition load_slot :: "nat \<Rightarrow> nat \<Rightarrow> cache \<Rightarrow> cache" where
  "load_slot i e c = upd_sector e (\<lambda>s. data_update (\<lambda>d k. if k < BLOCK_SECTOR_SIZE then device c i k else d k)
     (s\<lparr>index := i, dirty := False, owners := 1\<rparr>)) (c\<lparr>free_list := butlast (free_list c)\<rparr>)"

lemma load_slot_simps:
  "e < length (sectors c) \<Longrightarrow> slot_index (load_slot i e c) = (slot_index c)(e := i)"
  "device (load_slot i e c) = device c" "device_size (load_slot i e c) = device_size c" "cache_sem (load_slot i e c) = cache_sem c"
  "e < length (sectors c) \<Longrightarrow> e' \<noteq> e \<Longrightarrow> sectors (load_slot i e c) ! e' = sectors c ! e'"
  "e < length (sectors c) \<Longrightarrow> owners (sectors (load_slot i e c) ! e) = 1"
  "e < length (sectors c) \<Longrightarrow> sector_lock (sectors (load_slot i e c) ! e) = sector_lock (sectors c ! e)"
  "e < length (sectors c) \<Longrightarrow> k < BLOCK_SECTOR_SIZE \<Longrightarrow> data (sectors (load_slot i e c) ! e) k = device c i k"
  "length (sectors (load_slot i e c)) = length (sectors c)" "clock_hand (load_slot i e c) = clock_hand c"
  "free_list (load_slot i e c) = butlast (free_list c)" "index_sectors_map (load_slot i e c) = index_sectors_map c"
  by (simp_all add: load_slot_def)

lemma load_slot_inv:
  assumes "cache_inv c" "free_list c \<noteq> []" "i < device_size c" "\<forall>e < SECTOR_COUNT. slot_index c e \<noteq> i"
    and e: "e = last (free_list c)"
  shows "\<exists>h. hash_insert mem (sectors_map (slot_index (load_slot i e c)) (load_slot i e c)) e = Some (h, None) \<and>
    cache_inv ((load_slot i e c)\<lparr>index_sectors_map := h\<rparr>)"
proof -
  note inv = assms(1) [unfolded cache_inv_def]
  let ?c = "load_slot i e c"
  have mem: "e \<in> set (free_list c)" using e assms(2) by simp
  then have e64: "e < SECTOR_COUNT" and no: "slot_index c e = NO_SECTOR" using inv by auto
  then have len: "e < length (sectors c)" using inv by simp
  note simps = load_slot_simps(1) [OF len] load_slot_simps(2-4) load_slot_simps(5-7) [OF len] load_slot_simps(9-)
  have i: "i \<noteq> NO_SECTOR" using assms(3) inv by simp
  have k: "keyed (slot_index ?c) (index_sectors_map ?c)" unfolding simps
    by (rule keyed_cong [of "slot_index c"]) (use inv no in auto)
  have fresh: "\<forall>x \<in> elems (index_sectors_map ?c). slot_index ?c x \<noteq> slot_index ?c e"
    unfolding simps using inv assms(4) no by auto
  obtain h where h: "hash_insert mem (rekey (slot_index ?c) (index_sectors_map ?c)) e = Some (h, None)"
    "keyed (slot_index ?c) h" "elems h = insert e (elems (index_sectors_map ?c))"
    using keyed_insert [OF k fresh, of mem] by blast
  have el: "elems h = {e'. e' < SECTOR_COUNT \<and> slot_index ?c e' \<noteq> NO_SECTOR}"
    unfolding h(3) simps using inv i e64 by auto
  have fl: "free_list c = butlast (free_list c) @ [e]" using e assms(2) by simp
  then have "distinct (butlast (free_list c) @ [e])" using inv by metis
  moreover have "set (butlast (free_list c) @ [e]) = {e. e < SECTOR_COUNT \<and> slot_index c e = NO_SECTOR}" using inv fl by metis
  ultimately have free: "distinct (free_list ?c)" "set (free_list ?c) = {e'. e' < SECTOR_COUNT \<and> slot_index ?c e' = NO_SECTOR}"
    unfolding simps using i by auto
  have "slot_ok ?c e'" if "e' < SECTOR_COUNT" for e'
  proof (cases "e' = e")
    case True then show ?thesis using i assms(3) by (simp add: slot_ok_def simps)
  next
    case False then show ?thesis using inv that slot_ok_cong [of ?c e' c] by (simp add: simps)
  qed
  then have "cache_inv (?c\<lparr>index_sectors_map := h\<rparr>)"
    unfolding cache_inv_def using h(2) el free inv by (simp add: simps(2-))
  then show ?thesis using h(1) by (auto simp: sectors_map_rekey)
qed

lemma load_slot_code:
  assumes "i < device_size c" "e < length (sectors c)"
  shows "dev_read i e (upd_sector e (\<lambda>s. s\<lparr>index := i, dirty := False, owners := 1\<rparr>) (c\<lparr>free_list := butlast (free_list c)\<rparr>)) =
    Some (load_slot i e c)"
  using assms by (simp add: dev_read_def load_slot_def upd_sector_def cong: if_cong)

lemma load_slot_view:
  assumes "cache_inv c" "free_list c \<noteq> []" "i < device_size c" "\<forall>e < SECTOR_COUNT. slot_index c e \<noteq> i"
    and e: "e = last (free_list c)" and ok: "cache_inv ((load_slot i e c)\<lparr>index_sectors_map := h\<rparr>)"
  shows "view ((load_slot i e c)\<lparr>index_sectors_map := h\<rparr>) = view c" "unowned (load_slot i e c) = unowned c - {e}" "e \<in> unowned c"
proof -
  let ?c = "(load_slot i e c)\<lparr>index_sectors_map := h\<rparr>"
  have "e \<in> set (free_list c)" using assms(2) e by simp
  then have e64: "e < SECTOR_COUNT" and no: "slot_index c e = NO_SECTOR" and len: "e < length (sectors c)"
    using assms(1) by (auto simp: cache_inv_def)
  note simps = load_slot_simps(1) [OF len] load_slot_simps(2-4) load_slot_simps(5-8) [OF len] load_slot_simps(9-)
  show "e \<in> unowned c" using assms(1) e64 no by (auto simp: unowned_def cache_inv_def slot_ok_def)
  show "unowned (load_slot i e c) = unowned c - {e}"
  proof (intro set_eqI)
    fix x show "x \<in> unowned (load_slot i e c) \<longleftrightarrow> x \<in> unowned c - {e}" by (cases "x = e") (auto simp: unowned_def simps)
  qed
  show "view ?c = view c"
  proof (rule view_eqI [OF assms(1) ok])
    show "device_size ?c = device_size c" by (simp add: simps)
  next
    fix e' k assume a: "e' < SECTOR_COUNT" "slot_index ?c e' < device_size c" "k < BLOCK_SECTOR_SIZE"
    show "data (sectors ?c ! e') k = view c (slot_index ?c e') k"
    proof (cases "e' = e")
      case True
      then have "view c i k = device c i k" using assms(3,4) a(3) slot_of_None [of c i] by (simp add: view_def)
      then show ?thesis using True a by (simp add: simps)
    next
      case False then show ?thesis using a view_cached [OF assms(1) a(1) _ a(3)] by (simp add: simps)
    qed
  next
    fix j k assume a: "j < device_size c" "\<forall>e<SECTOR_COUNT. slot_index ?c e \<noteq> j" "k < BLOCK_SECTOR_SIZE"
    have "slot_index c e' \<noteq> j" if "e' < SECTOR_COUNT" for e'
    proof (cases "e' = e")
      case True then show ?thesis using no a(1) assms(1) by (simp add: cache_inv_def)
    next
      case False then show ?thesis using a(2) that by (auto simp: simps)
    qed
    then show "device ?c j k = view c j k" using a slot_of_None [of c j] by (simp add: view_def simps)
  qed
qed

text \<open>Whoever holds a sector locks it when they ask to.\<close>

lemma lock_sector_ok:
  assumes "cache_inv c" "e < SECTOR_COUNT" "0 < owners (sectors c ! e)" "block \<longrightarrow> \<not> sector_lock (sectors c ! e)"
  shows "\<exists>c'. lock_sector block e c = Some c' \<and> cache_inv c' \<and> view c' = view c \<and> cache_sem c' = cache_sem c \<and>
    device_size c' = device_size c \<and> slot_index c' = slot_index c \<and> (\<forall>e'. e' \<noteq> e \<longrightarrow> sectors c' ! e' = sectors c ! e') \<and>
    owners (sectors c' ! e) = owners (sectors c ! e) \<and> dirty (sectors c' ! e) = dirty (sectors c ! e) \<and> unowned c' = unowned c \<and>
    device c' = device c \<and> data (sectors c' ! e) = data (sectors c ! e) \<and>
    sector_lock (sectors c' ! e) = (block \<or> sector_lock (sectors c ! e))"
proof (cases block)
  case True
  let ?c = "upd_sector e (sector_lock_update (\<lambda>_. True)) c"
  have len: "e < length (sectors c)" using assms by (simp add: cache_inv_def)
  have sl: "slot_index ?c = slot_index c" using len by (auto simp: slot_index_def)
  have "slot_ok c e" using assms by (simp add: cache_inv_def)
  then have "slot_ok ?c e" unfolding slot_ok_def sl using len assms(3) by (auto simp: agrees_def)
  then have "cache_inv ?c" by (intro upd_sector_inv assms) simp_all
  moreover have "view ?c = view c" by (intro upd_sector_view assms) simp_all
  moreover have "unowned ?c = unowned c" using len by (auto simp: unowned_def)
  ultimately show ?thesis using True len assms(4) sl by (intro exI [of _ ?c]) (simp add: lock_sector_def)
next
  case False
  then show ?thesis using assms by (intro exI [of _ c]) (simp add: lock_sector_def)
qed

text \<open>A slot whose bytes are on the device or will be written there.\<close>

definition safe :: "cache \<Rightarrow> nat \<Rightarrow> bool" where
  "safe c e \<longleftrightarrow> dirty (sectors c ! e) \<or> agrees c e"

text \<open>What a caller needs to be served at once, and what it gets.\<close>

definition can_take :: "nat \<Rightarrow> bool \<Rightarrow> cache \<Rightarrow> bool" where
  "can_take i block c \<longleftrightarrow> i < device_size c \<and>
     (case slot_of c i of
        None \<Rightarrow> 0 < cache_sem c
      | Some e \<Rightarrow> owners (sectors c ! e) < 2 ^ 32 - 1 \<and> (owners (sectors c ! e) = 0 \<longrightarrow> 0 < cache_sem c) \<and>
          (block \<longrightarrow> \<not> sector_lock (sectors c ! e)))"

definition taken :: "nat \<Rightarrow> bool \<Rightarrow> cache \<Rightarrow> cache \<Rightarrow> nat \<Rightarrow> bool" where
  "taken i block c c' e \<longleftrightarrow> e < SECTOR_COUNT \<and> slot_index c' e = i \<and> 0 < owners (sectors c' ! e) \<and>
     sector_lock (sectors c' ! e) = (block \<or> sector_lock (sectors c ! e)) \<and> (\<forall>k < BLOCK_SECTOR_SIZE. data (sectors c' ! e) k = view c i k) \<and>
     cache_ok c' \<and> view c' = view c \<and> device_size c' = device_size c \<and> unowned c' = unowned c - {e} \<and>
     (\<forall>e'. e' \<noteq> e \<longrightarrow> owners (sectors c ! e') \<noteq> 0 \<longrightarrow> sectors c' ! e' = sectors c ! e') \<and>
     owners (sectors c' ! e) = owners (sectors c ! e) + 1 \<and> owners (sectors c' ! e) < 2 ^ 32 \<and>
     (owners (sectors c ! e) \<noteq> 0 \<longrightarrow> slot_index c e = i) \<and>
     (owners (sectors c' ! e) = 1 \<longrightarrow> safe c' e) \<and>
     (\<forall>e' < SECTOR_COUNT. owners (sectors c ! e') \<noteq> 0 \<longrightarrow> safe c e' \<longrightarrow> safe c' e')"

lemma finite_unowned [simp]: "finite (unowned c)"
  by (simp add: unowned_def)

lemma probe_finds:
  assumes "cache_inv c" "i < device_size c"
  shows "hash_find (sectors_map ((slot_index c)(SECTOR_COUNT := i)) c) SECTOR_COUNT = Some (slot_of c i)"
proof -
  note inv = assms(1) [unfolded cache_inv_def]
  have "SECTOR_COUNT \<notin> elems (index_sectors_map c)" using inv by auto
  from keyed_find [OF _ this, of "slot_index c" i] inv obtain r where
    r: "hash_find (sectors_map ((slot_index c)(SECTOR_COUNT := i)) c) SECTOR_COUNT = Some r"
      "case r of None \<Rightarrow> \<forall>e \<in> elems (index_sectors_map c). slot_index c e \<noteq> i | Some e \<Rightarrow> e \<in> elems (index_sectors_map c) \<and> slot_index c e = i"
    by (auto simp: sectors_map_rekey)
  have "slot_of c i = r"
  proof (cases r)
    case None
    then show ?thesis using r(2) inv assms(2) by (auto simp: slot_of_None)
  next
    case (Some e)
    then show ?thesis using r(2) inv slot_of_Some [OF assms, of e] by simp
  qed
  then show ?thesis using r(1) by simp
qed

lemma take_hit:
  assumes "cache_ok c" "can_take i block c" "slot_of c i = Some e"
  shows "\<exists>c'. take_sector mem i block c = Some (c', e) \<and> taken i block c c' e"
proof -
  have inv: "cache_inv c" and sem: "cache_sem c = card (unowned c)" using assms(1) by (simp_all add: cache_ok_def)
  have i: "i < device_size c" and own: "owners (sectors c ! e) < 2 ^ 32 - 1" "owners (sectors c ! e) = 0 \<longrightarrow> 0 < cache_sem c"
    and lk: "block \<longrightarrow> \<not> sector_lock (sectors c ! e)" using assms(2,3) by (simp_all add: can_take_def)
  have e: "e < SECTOR_COUNT" "slot_index c e = i" using slot_of_Some [OF inv i, of e] assms(3) by simp_all
  then have len: "e < length (sectors c)" using inv by (simp add: cache_inv_def)
  define n where "n = (if owners (sectors c ! e) = 0 then cache_sem c - 1 else cache_sem c)"
  let ?c = "upd_sector e (owners_update (\<lambda>n. (n + 1) mod 2 ^ 32)) (c\<lparr>cache_sem := n\<rparr>)"
  have sl: "slot_index ?c = slot_index c" using len by (auto simp: slot_index_def)
  have o1: "owners (sectors ?c ! e) = owners (sectors c ! e) + 1" using len own(1) by simp
  have "slot_ok c e" using inv e by (simp add: cache_inv_def)
  then have "slot_ok ?c e" unfolding slot_ok_def sl using o1 i e inv by (auto simp: agrees_def cache_inv_def)
  then have inv': "cache_inv ?c" by (intro upd_sector_inv) (simp_all add: inv e)
  have vw: "view ?c = view c" using upd_sector_view [of "c\<lparr>cache_sem := n\<rparr>" e] inv e by simp
  have "sector_lock (sectors ?c ! e) = sector_lock (sectors c ! e)" using len by simp
  with lock_sector_ok [OF inv' e(1), of block] o1 lk obtain c' where
    c': "lock_sector block e ?c = Some c'" "cache_inv c'" "view c' = view c" "cache_sem c' = n" "device_size c' = device_size c"
      "slot_index c' = slot_index c" "\<forall>e'. e' \<noteq> e \<longrightarrow> sectors c' ! e' = sectors ?c ! e'" "owners (sectors c' ! e) = owners (sectors c ! e) + 1"
      "unowned c' = unowned ?c" "sector_lock (sectors c' ! e) = (block \<or> sector_lock (sectors c ! e))"
      "dirty (sectors c' ! e) = dirty (sectors ?c ! e)" "device c' = device ?c" "data (sectors c' ! e) = data (sectors ?c ! e)"
    unfolding vw sl by auto
  have "unowned ?c = unowned c - {e}" using len own(1) by (auto simp: unowned_def split: if_splits)
  with c'(9) have un: "unowned c' = unowned c - {e}" by simp
  have "n = card (unowned c - {e})" using sem e by (simp add: n_def unowned_def card_Diff_singleton_if)
  then have "cache_ok c'" using c'(2,4) un by (simp add: cache_ok_def)
  moreover have "take_sector mem i block c = Some (c', e)"
    using c'(1) own(2) probe_finds [OF inv i] assms(3)
    by (auto simp: take_sector_def sema_down_cache_def n_def Let_def)
  moreover have "data (sectors c' ! e) k = view c i k" if "k < BLOCK_SECTOR_SIZE" for k
    using view_cached [OF c'(2) e(1) _ that] c'(3,5,6) e(2) i by simp
  moreover have "\<forall>e'. e' \<noteq> e \<longrightarrow> sectors c' ! e' = sectors c ! e'" using c'(7) len by simp
  moreover have safe: "safe c' e' \<longleftrightarrow> safe c e'" for e'
    using c'(6,7,11-13) len by (cases "e' = e") (simp_all add: safe_def agrees_def)
  moreover have "safe c' e" if "owners (sectors c' ! e) = 1"
    unfolding safe using that c'(8) inv e i by (auto simp: cache_inv_def slot_ok_def safe_def)
  ultimately show ?thesis using c' e un own(1) by (auto simp: taken_def)
qed

lemma make_room:
  assumes "cache_inv c" "unowned c \<noteq> {}"
  shows "\<exists>c'. (if free_list c = [] then evict_sector mem c else Some c) = Some c' \<and> cache_inv c' \<and> view c' = view c \<and>
    free_list c' \<noteq> [] \<and> cache_sem c' = cache_sem c \<and> device_size c' = device_size c \<and> unowned c' = unowned c \<and>
    (\<forall>e. owners (sectors c ! e) \<noteq> 0 \<longrightarrow> sectors c' ! e = sectors c ! e) \<and>
    (\<forall>i < device_size c. slot_of c i = None \<longrightarrow> slot_of c' i = None) \<and>
    (\<forall>e < SECTOR_COUNT. owners (sectors c ! e) \<noteq> 0 \<longrightarrow> agrees c e \<longrightarrow> agrees c' e)"
proof (cases "free_list c = []")
  case True
  from evict_sector_ok [OF assms(1) True assms(2), of mem] obtain c' where
    c': "evict_sector mem c = Some c'" "cache_inv c'" "view c' = view c" "free_list c' \<noteq> []" "cache_sem c' = cache_sem c"
      "device_size c' = device_size c" "unowned c' = unowned c" "\<forall>e. owners (sectors c ! e) \<noteq> 0 \<longrightarrow> sectors c' ! e = sectors c ! e"
      "\<forall>e. slot_index c' e = slot_index c e \<or> slot_index c' e = NO_SECTOR"
      "\<forall>e < SECTOR_COUNT. owners (sectors c ! e) \<noteq> 0 \<longrightarrow> agrees c e \<longrightarrow> agrees c' e"
    by (elim exE conjE)
  have "slot_of c' i = None" if "i < device_size c" "slot_of c i = None" for i
    unfolding slot_of_None
  proof (intro allI impI)
    fix e assume "e < SECTOR_COUNT"
    then have "slot_index c e \<noteq> i" using that(2) by (simp add: slot_of_None)
    moreover have "NO_SECTOR \<noteq> i" using that(1) assms(1) by (simp add: cache_inv_def)
    ultimately show "slot_index c' e \<noteq> i" using c'(9) by metis
  qed
  then show ?thesis using True c' by simp
next
  case False then show ?thesis using assms(1) by (intro exI [of _ c]) simp
qed

lemma take_miss:
  assumes "cache_ok c" "can_take i block c" "slot_of c i = None"
  shows "\<exists>c' e. take_sector mem i block c = Some (c', e) \<and> taken i block c c' e"
proof -
  have inv: "cache_inv c" and sem: "cache_sem c = card (unowned c)" using assms(1) by (simp_all add: cache_ok_def)
  have i: "i < device_size c" and pos: "0 < cache_sem c" using assms(2,3) by (simp_all add: can_take_def)
  let ?c = "c\<lparr>cache_sem := cache_sem c - 1\<rparr>"
  have "unowned ?c \<noteq> {}" using sem pos by auto
  from make_room [OF _ this, of mem] inv obtain c1 where
    c1: "(if free_list ?c = [] then evict_sector mem ?c else Some ?c) = Some c1" "cache_inv c1" "view c1 = view c" "free_list c1 \<noteq> []"
      "cache_sem c1 = cache_sem c - 1" "device_size c1 = device_size c" "unowned c1 = unowned c"
      "\<forall>e. owners (sectors c ! e) \<noteq> 0 \<longrightarrow> sectors c1 ! e = sectors c ! e"
      "slot_of ?c i = None \<longrightarrow> slot_of c1 i = None" "\<forall>e < SECTOR_COUNT. owners (sectors c ! e) \<noteq> 0 \<longrightarrow> agrees ?c e \<longrightarrow> agrees c1 e"
    using i by auto
  have no: "\<forall>e < SECTOR_COUNT. slot_index c1 e \<noteq> i" using c1(9) assms(3) by (simp add: slot_of_None)
  define e where "e = last (free_list c1)"
  have i1: "i < device_size c1" using i c1(6) by simp
  obtain h where h: "hash_insert mem (sectors_map (slot_index (load_slot i e c1)) (load_slot i e c1)) e = Some (h, None)"
    "cache_inv ((load_slot i e c1)\<lparr>index_sectors_map := h\<rparr>)"
    using load_slot_inv [OF c1(2,4) i1 no e_def, of mem] by blast
  let ?c2 = "(load_slot i e c1)\<lparr>index_sectors_map := h\<rparr>"
  note v = load_slot_view [OF c1(2,4) i1 no e_def h(2)]
  have e64: "e < SECTOR_COUNT" using v(3) by (simp add: unowned_def)
  then have len: "e < length (sectors c1)" using c1(2) by (simp add: cache_inv_def)
  have own0: "owners (sectors c1 ! e) = 0" using v(3) by (simp add: unowned_def)
  then have "\<not> sector_lock (sectors c1 ! e)" using c1(2) e64 by (simp add: cache_inv_def slot_ok_def)
  with lock_sector_ok [OF h(2) e64, of block] obtain c' where
    c': "lock_sector block e ?c2 = Some c'" "cache_inv c'" "view c' = view ?c2" "cache_sem c' = cache_sem ?c2" "device_size c' = device_size ?c2"
      "slot_index c' = slot_index ?c2" "\<forall>e'. e' \<noteq> e \<longrightarrow> sectors c' ! e' = sectors ?c2 ! e'" "owners (sectors c' ! e) = owners (sectors ?c2 ! e)"
      "unowned c' = unowned ?c2" "sector_lock (sectors c' ! e) = block"
      "device c' = device ?c2" "data (sectors c' ! e) = data (sectors ?c2 ! e)"
    by (auto simp: load_slot_simps len)
  have view: "view c' = view c" unfolding c'(3) v(1) c1(3) ..
  have un: "unowned c' = unowned c - {e}" unfolding c'(9) using v(2) c1(7) by simp
  have eun: "e \<in> unowned c" using v(3) c1(7) by simp
  then have own: "owners (sectors c ! e) = 0" and unlocked: "\<not> sector_lock (sectors c ! e)"
    using inv by (auto simp: unowned_def cache_inv_def slot_ok_def)
  from eun have "cache_ok c'" using c'(2,4) c1(5) sem by (simp add: cache_ok_def un load_slot_simps card_Diff_singleton)
  moreover have sd: "sema_down_cache c = Some ?c" using pos by (simp add: sema_down_cache_def)
  have "take_sector mem i block c = Some (c', e)"
    by (simp only: take_sector_def probe_finds [OF inv i] assms(3) Option.bind_lunit option.case sd c1(1) Let_def
        load_slot_code [OF i1 len] h(1) prod.case c'(1) ASSERT_simps c1(4) simp_thms flip: e_def)
  moreover have si: "slot_index c' e = i" using c'(6) len by (simp add: load_slot_simps)
  moreover have "data (sectors c' ! e) k = view c i k" if "k < BLOCK_SECTOR_SIZE" for k
    using view_cached [OF c'(2) e64 _ that] view si c'(5) i1 by (simp add: load_slot_simps)
  moreover have "sectors c' ! e' = sectors c ! e'" if "e' \<noteq> e" "owners (sectors c ! e') \<noteq> 0" for e'
    using that c'(7) c1(8) len by (simp add: load_slot_simps)
  moreover have "owners (sectors c' ! e) = 1" "device_size c' = device_size c" using c'(5,8) c1(6) len by (simp_all add: load_slot_simps)
  moreover have "safe c' e" using c'(11,12) si len by (simp add: safe_def agrees_def load_slot_simps)
  moreover have "safe c' e'" if a: "e' < SECTOR_COUNT" "owners (sectors c ! e') \<noteq> 0" "safe c e'" for e'
  proof -
    have ne: "e' \<noteq> e" using own a(2) by auto
    then have s: "sectors c' ! e' = sectors c ! e'" "sectors c1 ! e' = sectors c ! e'" using a(2) c'(7) c1(8) len by (simp_all add: load_slot_simps)
    have "dirty (sectors c ! e') \<or> agrees c1 e'" using a c1(10) by (auto simp: safe_def agrees_def)
    then show ?thesis using s c'(11) by (auto simp: safe_def agrees_def slot_index_def load_slot_simps)
  qed
  ultimately show ?thesis using e64 view un c'(10) own unlocked by (intro exI [of _ c'] exI [of _ e]) (simp add: taken_def)
qed

lemma take_sector_ok:
  "cache_ok c \<Longrightarrow> can_take i block c \<Longrightarrow> \<exists>c' e. take_sector mem i block c = Some (c', e) \<and> taken i block c c' e"
  using take_hit take_miss by (cases "slot_of c i") blast+

text \<open>Giving a sector back: the caller that changed it says so.\<close>

lemma release_sector_ok:
  assumes "cache_ok c" "e < SECTOR_COUNT" "0 < owners (sectors c ! e)" "owners (sectors c ! e) < 2 ^ 32"
    and "blocked \<longrightarrow> sector_lock (sectors c ! e)" "owners (sectors c ! e) = 1 \<longrightarrow> sector_lock (sectors c ! e) \<longrightarrow> blocked"
    and "owners (sectors c ! e) = 1 \<longrightarrow> changed \<or> dirty (sectors c ! e) \<or> agrees c e"
  shows "\<exists>c'. release_sector e (slot_index c e) changed blocked c = Some c' \<and> cache_ok c' \<and> view c' = view c \<and>
    device_size c' = device_size c \<and> unowned c' = unowned c \<union> (if owners (sectors c ! e) = 1 then {e} else {}) \<and>
    (\<forall>e'. e' \<noteq> e \<longrightarrow> sectors c' ! e' = sectors c ! e') \<and> slot_index c' e = slot_index c e \<and>
    owners (sectors c' ! e) = owners (sectors c ! e) - 1 \<and> sector_lock (sectors c' ! e) = (sector_lock (sectors c ! e) \<and> \<not> blocked) \<and>
    (\<forall>e'. safe c e' \<longrightarrow> safe c' e') \<and> (changed \<longrightarrow> safe c' e)"
proof -
  have inv: "cache_inv c" and sem: "cache_sem c = card (unowned c)" using assms(1) by (simp_all add: cache_ok_def)
  have len: "e < length (sectors c)" using inv assms(2) by (simp add: cache_inv_def)
  define f where "f s = s\<lparr>dirty := changed \<or> dirty s, owners := owners s - 1, sector_lock := sector_lock s \<and> \<not> blocked\<rparr>" for s :: sector
  let ?n = "cache_sem c + (if owners (sectors c ! e) = 1 then 1 else 0)"
  let ?c = "upd_sector e f (c\<lparr>cache_sem := ?n\<rparr>)"
  have sl: "slot_index ?c = slot_index c" using len by (auto simp: slot_index_def f_def)
  have "slot_ok c e" using inv assms(2) by (simp add: cache_inv_def)
  then have "slot_ok ?c e"
    unfolding slot_ok_def sl using len assms(3,6,7) by (auto simp: f_def agrees_def slot_index_def split: if_splits)
  then have inv': "cache_inv ?c" using inv assms(2) by (intro upd_sector_inv) (simp_all add: f_def)
  have vw: "view ?c = view c" using upd_sector_view [of "c\<lparr>cache_sem := ?n\<rparr>" e f] inv assms(2) by (simp add: f_def)
  have un: "unowned ?c = unowned c \<union> (if owners (sectors c ! e) = 1 then {e} else {})"
    using len assms(2,3) by (auto simp: unowned_def f_def)
  have "e \<notin> unowned c" using assms(3) by (simp add: unowned_def)
  then have "cache_ok ?c" using inv' sem un by (simp add: cache_ok_def)
  moreover have "(owners (sectors c ! e) + 2 ^ 32 - 1) mod 2 ^ 32 = owners (sectors c ! e) - 1"
    using assms(3,4) by (simp add: mod_if)
  then have "release_sector e (slot_index c e) changed blocked c = Some ?c"
    using assms(3,5) len
    by (cases "sectors c ! e") (auto simp: release_sector_def upd_sector_def slot_index_def f_def Let_def)
  moreover have "\<forall>e'. e' \<noteq> e \<longrightarrow> sectors ?c ! e' = sectors c ! e'" "owners (sectors ?c ! e) = owners (sectors c ! e) - 1"
    "sector_lock (sectors ?c ! e) = (sector_lock (sectors c ! e) \<and> \<not> blocked)" using len by (simp_all add: f_def)
  moreover have "safe ?c e'" if "safe c e'" for e'
    using that len sl by (cases "e' = e") (auto simp: safe_def agrees_def f_def)
  moreover have "changed \<longrightarrow> safe ?c e" using len by (simp add: safe_def f_def)
  ultimately show ?thesis using vw un sl by (intro exI [of _ ?c]) simp
qed

lemma put_bytes_ok:
  assumes "cache_ok c" "e < SECTOR_COUNT" "0 < owners (sectors c ! e)"
  shows "cache_ok (put_bytes e f c)"
    "view (put_bytes e f c) = (view c)(slot_index c e := (\<lambda>k. if k < BLOCK_SECTOR_SIZE then f k else 0))"
    "unowned (put_bytes e f c) = unowned c" "slot_index (put_bytes e f c) = slot_index c"
proof -
  have inv: "cache_inv c" using assms(1) by (simp add: cache_ok_def)
  have len: "e < length (sectors c)" using inv assms(2) by (simp add: cache_inv_def)
  let ?c = "put_bytes e f c"
  have ok: "slot_ok c e" using inv assms(2) by (simp add: cache_inv_def)
  show sl: "slot_index ?c = slot_index c" using len by (auto simp: put_bytes_def slot_index_def)
  show un: "unowned ?c = unowned c" using len by (auto simp: put_bytes_def unowned_def)
  have "slot_ok ?c e" using ok len assms(3) unfolding slot_ok_def sl by (auto simp: put_bytes_def)
  then have inv': "cache_inv ?c" unfolding put_bytes_def by (intro upd_sector_inv inv assms(2)) simp_all
  then show "cache_ok ?c" using assms(1) un by (simp add: cache_ok_def) (simp add: put_bytes_def)
  have i: "slot_index c e < device_size c" using ok assms(3) by (auto simp: slot_ok_def split: if_splits)
  show "view ?c = (view c)(slot_index c e := (\<lambda>k. if k < BLOCK_SECTOR_SIZE then f k else 0))"
  proof (intro ext)
    fix j k
    have so: "slot_of ?c j = slot_of c j" by (simp add: slot_of_def sl)
    show "view ?c j k = ((view c)(slot_index c e := (\<lambda>k. if k < BLOCK_SECTOR_SIZE then f k else 0))) j k"
    proof (cases "j = slot_index c e")
      case True
      then have "slot_of c j = Some e" using slot_of_Some [OF inv, of j e] i assms(2) by simp
      then show ?thesis using True len i so by (simp add: view_def put_bytes_def)
    next
      case False
      have "slot_of c j \<noteq> Some e" if "j < device_size c" using slot_of_Some [OF inv that, of e] False by simp
      then show ?thesis using False len so by (auto simp: view_def put_bytes_def split: option.splits)
    qed
  qed
qed

subsection \<open>A sector taken and given back\<close>

text \<open>The same callers hold the same sectors as before.\<close>

definition same_holds :: "cache \<Rightarrow> cache \<Rightarrow> bool" where
  "same_holds c c' \<longleftrightarrow> device_size c' = device_size c \<and> unowned c' = unowned c \<and>
     (\<forall>e. owners (sectors c ! e) \<noteq> 0 \<longrightarrow> slot_index c' e = slot_index c e \<and> owners (sectors c' ! e) = owners (sectors c ! e) \<and>
        sector_lock (sectors c' ! e) = sector_lock (sectors c ! e))"

lemma same_holds_refl [simp, intro]: "same_holds c c"
  by (simp add: same_holds_def)

lemma same_holds_trans [trans]: "same_holds a b \<Longrightarrow> same_holds b c \<Longrightarrow> same_holds a c"
  by (simp add: same_holds_def)

text \<open>Moreover the slots that are held, but those of \<open>X\<close>, stay safe.\<close>

definition keeps :: "nat set \<Rightarrow> cache \<Rightarrow> cache \<Rightarrow> bool" where
  "keeps X c c' \<longleftrightarrow> same_holds c c' \<and>
     (\<forall>e < SECTOR_COUNT. e \<notin> X \<longrightarrow> owners (sectors c ! e) \<noteq> 0 \<longrightarrow> safe c e \<longrightarrow> safe c' e)"

lemma keeps_refl [simp, intro]: "keeps X c c"
  by (simp add: keeps_def)

lemma keeps_mono: "keeps X c c' \<Longrightarrow> X \<subseteq> Y \<Longrightarrow> keeps Y c c'"
  by (auto simp: keeps_def)

lemma keeps_trans: "keeps X a b \<Longrightarrow> keeps X b c \<Longrightarrow> keeps X a c"
  using same_holds_trans [of a b c] by (simp add: keeps_def) (simp add: same_holds_def)

lemma keeps_size: "keeps X c c' \<Longrightarrow> device_size c' = device_size c"
  by (simp add: keeps_def same_holds_def)

lemma keeps_put_bytes:
  assumes "cache_ok c" "e < SECTOR_COUNT"
  shows "keeps {e} c (put_bytes e f c)"
proof -
  have len: "e < length (sectors c)" using assms by (simp add: cache_ok_def cache_inv_def)
  then have "slot_index (put_bytes e f c) = slot_index c" "unowned (put_bytes e f c) = unowned c"
    by (auto simp: put_bytes_def slot_index_def unowned_def)
  moreover have "device_size (put_bytes e f c) = device_size c" "owners (sectors (put_bytes e f c) ! e') = owners (sectors c ! e')"
    "sector_lock (sectors (put_bytes e f c) ! e') = sector_lock (sectors c ! e')" for e' using len by (simp_all add: put_bytes_def)
  moreover have "safe (put_bytes e f c) e' = safe c e'" if "e' \<noteq> e" for e'
    unfolding safe_def using that len agrees_cong [of "put_bytes e f c" e' c] by (simp add: put_bytes_def)
  ultimately show ?thesis unfolding keeps_def same_holds_def by (simp only: refl simp_thms) blast
qed

text \<open>Taking a sector, doing other things while holding it, and giving it back.\<close>

lemma take_release:
  assumes c: "cache_ok c" "can_take i block c" and t: "taken i block c c1 e"
    and c2: "cache_ok c2" "keeps {e} c1 c2"
    and ch: "changed \<or> keeps {} c1 c2"
  shows "\<exists>c'. release_sector e i changed block c2 = Some c' \<and> cache_ok c' \<and> view c' = view c2 \<and> keeps {} c c'"
proof -
  have t': "e < SECTOR_COUNT" "slot_index c1 e = i" "sector_lock (sectors c1 ! e) = (block \<or> sector_lock (sectors c ! e))"
    "device_size c1 = device_size c" "unowned c1 = unowned c - {e}"
    "\<forall>e'. e' \<noteq> e \<longrightarrow> owners (sectors c ! e') \<noteq> 0 \<longrightarrow> sectors c1 ! e' = sectors c ! e'"
    "owners (sectors c1 ! e) = owners (sectors c ! e) + 1" "owners (sectors c1 ! e) < 2 ^ 32"
    "owners (sectors c ! e) \<noteq> 0 \<longrightarrow> slot_index c e = i" "owners (sectors c1 ! e) = 1 \<longrightarrow> safe c1 e"
    "\<forall>e' < SECTOR_COUNT. owners (sectors c ! e') \<noteq> 0 \<longrightarrow> safe c e' \<longrightarrow> safe c1 e'"
    using t unfolding taken_def by blast+
  have held: "owners (sectors c2 ! e') = owners (sectors c1 ! e')" "sector_lock (sectors c2 ! e') = sector_lock (sectors c1 ! e')"
    "slot_index c2 e' = slot_index c1 e'" if "owners (sectors c1 ! e') \<noteq> 0" for e'
    using c2(2) that unfolding keeps_def same_holds_def by blast+
  have e1: "owners (sectors c1 ! e) \<noteq> 0" using t'(7) by simp
  have inv: "cache_inv c" using c(1) by (simp add: cache_ok_def)
  then have ok: "slot_ok c e" using t'(1) by (simp add: cache_inv_def)
  then have lk: "sector_lock (sectors c ! e) \<longrightarrow> owners (sectors c ! e) \<noteq> 0" by (auto simp: slot_ok_def)
  have "block \<longrightarrow> \<not> sector_lock (sectors c ! e)"
  proof (cases "owners (sectors c ! e) = 0")
    case False
    then have "slot_of c i = Some e" using c(2) t'(1,9) slot_of_Some [OF inv, of i e] by (simp add: can_take_def)
    then show ?thesis using c(2) by (simp add: can_take_def)
  qed (use lk in simp)
  then have lock: "(sector_lock (sectors c1 ! e) \<and> \<not> block) = sector_lock (sectors c ! e)" using t'(3) by auto
  have p: "0 < owners (sectors c2 ! e)" "owners (sectors c2 ! e) < 2 ^ 32" "block \<longrightarrow> sector_lock (sectors c2 ! e)"
    "owners (sectors c2 ! e) = 1 \<longrightarrow> sector_lock (sectors c2 ! e) \<longrightarrow> block"
    using held(1,2) [OF e1] t'(3,7,8) lk by auto
  have "safe c2 e" if "owners (sectors c2 ! e) = 1" "\<not> changed"
    using ch that held(1) [OF e1] e1 t'(1,10) by (auto simp: keeps_def)
  then have p5: "owners (sectors c2 ! e) = 1 \<longrightarrow> changed \<or> dirty (sectors c2 ! e) \<or> agrees c2 e" by (auto simp: safe_def)
  obtain c' where
    c': "release_sector e (slot_index c2 e) changed block c2 = Some c'" "cache_ok c'" "view c' = view c2" "device_size c' = device_size c2"
      "unowned c' = unowned c2 \<union> (if owners (sectors c2 ! e) = 1 then {e} else {})"
      "\<forall>e'. e' \<noteq> e \<longrightarrow> sectors c' ! e' = sectors c2 ! e'" "slot_index c' e = slot_index c2 e"
      "owners (sectors c' ! e) = owners (sectors c2 ! e) - 1" "sector_lock (sectors c' ! e) = (sector_lock (sectors c2 ! e) \<and> \<not> block)"
      "\<forall>e'. safe c2 e' \<longrightarrow> safe c' e'" "changed \<longrightarrow> safe c' e"
    using release_sector_ok [OF c2(1) t'(1) p p5] by (elim exE conjE)
  have un2: "unowned c2 = unowned c1" "device_size c2 = device_size c1" using c2(2) unfolding keeps_def same_holds_def by blast+
  have "unowned c' = unowned c" using c'(5) un2(1) held(1) [OF e1] t'(1,5,7) by (auto simp: unowned_def)
  moreover have "slot_index c' e' = slot_index c e' \<and> owners (sectors c' ! e') = owners (sectors c ! e') \<and>
      sector_lock (sectors c' ! e') = sector_lock (sectors c ! e')" if "owners (sectors c ! e') \<noteq> 0" for e'
  proof (cases "e' = e")
    case True
    then show ?thesis using that c'(7-9) held [OF e1] t'(2,7,9) lock by simp
  next
    case False
    then have s: "sectors c' ! e' = sectors c2 ! e'" "sectors c1 ! e' = sectors c ! e'" using that c'(6) t'(6) by simp_all
    then show ?thesis using that held [of e'] by (simp add: slot_index_def)
  qed
  ultimately have same: "same_holds c c'" using c'(4) un2(2) t'(4) by (simp add: same_holds_def)
  have "safe c' e'" if a: "e' < SECTOR_COUNT" "owners (sectors c ! e') \<noteq> 0" "safe c e'" for e'
  proof -
    have s1: "safe c1 e'" and h1: "owners (sectors c1 ! e') \<noteq> 0" using a t'(6,7,11) by (cases "e' = e"; simp)+
    show ?thesis
    proof (cases "e' = e \<and> changed")
      case True then show ?thesis using c'(11) by simp
    next
      case False
      then have "safe c2 e'" using c2(2) ch s1 h1 a(1) by (auto simp: keeps_def)
      then show ?thesis using c'(10) by simp
    qed
  qed
  then show ?thesis using same c'(1-3) held(3) [OF e1] t'(2) by (auto simp: keeps_def)
qed

lemma peek_ok:
  assumes "cache_ok c" "can_take i block c"
  shows "\<exists>c1 e c2. take_sector mem i block c = Some (c1, e) \<and> (\<forall>k < BLOCK_SECTOR_SIZE. data (sectors c1 ! e) k = view c i k) \<and>
    release_sector e i False block c1 = Some c2 \<and> cache_ok c2 \<and> view c2 = view c \<and> keeps {} c c2"
proof -
  obtain c1 e where t: "take_sector mem i block c = Some (c1, e)" "taken i block c c1 e"
    using take_sector_ok [OF assms] by blast
  then have t': "cache_ok c1" "view c1 = view c" "\<forall>k < BLOCK_SECTOR_SIZE. data (sectors c1 ! e) k = view c i k"
    unfolding taken_def by blast+
  from take_release [OF assms t(2) t'(1) keeps_refl, of False] obtain c2 where
    "release_sector e i False block c1 = Some c2" "cache_ok c2" "view c2 = view c1" "keeps {} c c2" by auto
  then show ?thesis using t(1) t' by auto
qed

text \<open>A change that only depends on the 512 bytes of the sector.\<close>

definition in_sector :: "((nat \<Rightarrow> u8) \<Rightarrow> nat \<Rightarrow> u8) \<Rightarrow> bool" where
  "in_sector f \<longleftrightarrow> (\<forall>d d'. (\<forall>k < BLOCK_SECTOR_SIZE. d k = d' k) \<longrightarrow> (\<forall>k < BLOCK_SECTOR_SIZE. f d k = f d' k))"

definition clip :: "(nat \<Rightarrow> u8) \<Rightarrow> nat \<Rightarrow> u8" where
  "clip d k = (if k < BLOCK_SECTOR_SIZE then d k else 0)"

lemma poke_ok:
  assumes "cache_ok c" "can_take i block c" "in_sector f"
  shows "\<exists>c1 e c2. take_sector mem i block c = Some (c1, e) \<and> (\<forall>k < BLOCK_SECTOR_SIZE. data (sectors c1 ! e) k = view c i k) \<and>
    release_sector e i True block (put_bytes e (f (data (sectors c1 ! e))) c1) = Some c2 \<and> cache_ok c2 \<and>
    view c2 = (view c)(i := clip (f (view c i))) \<and> keeps {} c c2"
proof -
  obtain c1 e where t: "take_sector mem i block c = Some (c1, e)" "taken i block c c1 e"
    using take_sector_ok [OF assms(1,2)] by blast
  then have t': "cache_ok c1" "view c1 = view c" "0 < owners (sectors c1 ! e)" "e < SECTOR_COUNT" "slot_index c1 e = i"
    "\<forall>k < BLOCK_SECTOR_SIZE. data (sectors c1 ! e) k = view c i k" unfolding taken_def by blast+
  let ?f = "f (data (sectors c1 ! e))" let ?c = "put_bytes e ?f c1"
  note p = put_bytes_ok [OF t'(1,4,3), of ?f]
  from take_release [OF assms(1,2) t(2) p(1) keeps_put_bytes [OF t'(1,4)], of True] obtain c2 where
    c2: "release_sector e i True block ?c = Some c2" "cache_ok c2" "view c2 = view ?c" "keeps {} c c2" by auto
  have "(\<lambda>k. if k < BLOCK_SECTOR_SIZE then ?f k else 0) = clip (f (view c i))"
    using assms(3) t'(6) by (auto simp: in_sector_def clip_def fun_eq_iff)
  then have "view ?c = (view c)(i := clip (f (view c i)))" using p(2) t'(2,5) by simp
  then show ?thesis using t(1) t'(6) c2 by auto
qed

subsection \<open>Writing back\<close>

lemma flush_slot:
  assumes "cache_ok c" "e < SECTOR_COUNT" "slot_index c e \<noteq> NO_SECTOR"
  shows "\<exists>c1. dev_write e (slot_index c e) c = Some c1 \<and> (let c' = upd_sector e (dirty_update (\<lambda>_. False)) c1 in
    cache_ok c' \<and> view c' = view c \<and> same_holds c c' \<and> slot_index c' = slot_index c \<and> agrees c' e \<and> \<not> dirty (sectors c' ! e) \<and>
    (\<forall>e'. e' \<noteq> e \<longrightarrow> dirty (sectors c' ! e') = dirty (sectors c ! e')))"
proof -
  have inv: "cache_inv c" using assms(1) by (simp add: cache_ok_def)
  have len: "e < length (sectors c)" using inv assms(2) by (simp add: cache_inv_def)
  obtain d where d: "dev_write e (slot_index c e) c = Some (c\<lparr>device := d\<rparr>)" "cache_inv (c\<lparr>device := d\<rparr>)"
    "view (c\<lparr>device := d\<rparr>) = view c" "agrees (c\<lparr>device := d\<rparr>) e" using dev_write_ok [OF inv assms(2,3)] by blast
  let ?c1 = "c\<lparr>device := d\<rparr>"
  let ?c = "upd_sector e (dirty_update (\<lambda>_. False)) ?c1"
  have sl: "slot_index ?c = slot_index c" using len by (auto simp: slot_index_def)
  have ag: "agrees ?c e" using d(4) sl len by (simp add: agrees_def)
  have "slot_ok ?c1 e" using d(2) assms(2) by (simp add: cache_inv_def)
  then have "slot_ok ?c e" unfolding slot_ok_def sl using ag len by (auto split: if_splits)
  then have "cache_inv ?c" by (intro upd_sector_inv d(2) assms(2)) simp_all
  moreover have "view ?c = view c" using upd_sector_view [OF d(2) assms(2)] d(3) by simp
  moreover have "unowned ?c = unowned c" using len by (auto simp: unowned_def)
  ultimately show ?thesis
    using d(1) sl ag len assms(1) by (intro exI [of _ ?c1]) (simp add: Let_def cache_ok_def same_holds_def)
qed

lemma flush_from_ok:
  assumes "cache_ok c" "i + n = SECTOR_COUNT"
  shows "\<exists>c'. flush_from i n c = Some c' \<and> cache_ok c' \<and> view c' = view c \<and> same_holds c c' \<and> slot_index c' = slot_index c \<and>
    (\<forall>e. (i \<le> e \<and> e < SECTOR_COUNT \<and> slot_index c e \<noteq> NO_SECTOR \<longrightarrow> \<not> dirty (sectors c' ! e)) \<and>
      (\<not> dirty (sectors c ! e) \<longrightarrow> \<not> dirty (sectors c' ! e)))"
  using assms
proof (induction n arbitrary: i c)
  case 0 then show ?case by auto
next
  case (Suc n)
  have next_i: "i + 1 + n = SECTOR_COUNT" "i < SECTOR_COUNT" using Suc.prems(2) by simp_all
  show ?case
  proof (cases "slot_index c i \<noteq> NO_SECTOR \<and> dirty (sectors c ! i)")
    case True
    obtain c1 where w: "dev_write i (slot_index c i) c = Some c1" and c2: "let c' = upd_sector i (dirty_update (\<lambda>_. False)) c1 in
      cache_ok c' \<and> view c' = view c \<and> same_holds c c' \<and> slot_index c' = slot_index c \<and> agrees c' i \<and> \<not> dirty (sectors c' ! i) \<and>
      (\<forall>e'. e' \<noteq> i \<longrightarrow> dirty (sectors c' ! e') = dirty (sectors c ! e'))"
      using flush_slot [OF Suc.prems(1) next_i(2)] True by blast
    define c2 where "c2 = upd_sector i (dirty_update (\<lambda>_. False)) c1"
    have c2': "cache_ok c2" "view c2 = view c" "same_holds c c2" "slot_index c2 = slot_index c" "\<not> dirty (sectors c2 ! i)"
      "\<forall>e'. e' \<noteq> i \<longrightarrow> dirty (sectors c2 ! e') = dirty (sectors c ! e')"
      using c2 by (simp_all add: Let_def c2_def)
    have step: "flush_from i (Suc n) c = flush_from (i + 1) n c2"
      using True w by (simp add: c2_def slot_index_def)
    from Suc.IH [OF c2'(1) next_i(1)] obtain c' where
      c': "flush_from (i + 1) n c2 = Some c'" "cache_ok c'" "view c' = view c2" "same_holds c2 c'" "slot_index c' = slot_index c2"
        "\<forall>e. (i + 1 \<le> e \<and> e < SECTOR_COUNT \<and> slot_index c2 e \<noteq> NO_SECTOR \<longrightarrow> \<not> dirty (sectors c' ! e)) \<and>
          (\<not> dirty (sectors c2 ! e) \<longrightarrow> \<not> dirty (sectors c' ! e))" by (elim exE conjE)
    have "(i \<le> e \<and> e < SECTOR_COUNT \<and> slot_index c e \<noteq> NO_SECTOR \<longrightarrow> \<not> dirty (sectors c' ! e)) \<and>
      (\<not> dirty (sectors c ! e) \<longrightarrow> \<not> dirty (sectors c' ! e))" for e
      using c'(6) c2'(4-6) by (cases "e = i") auto
    then show ?thesis using c' c2' step same_holds_trans [OF c2'(3) c'(4)] by simp
  next
    case False
    then have step: "flush_from i (Suc n) c = flush_from (i + 1) n c" by (auto simp: slot_index_def)
    from Suc.IH [OF Suc.prems(1) next_i(1)] obtain c' where
      c': "flush_from (i + 1) n c = Some c'" "cache_ok c'" "view c' = view c" "same_holds c c'" "slot_index c' = slot_index c"
        "\<forall>e. (i + 1 \<le> e \<and> e < SECTOR_COUNT \<and> slot_index c e \<noteq> NO_SECTOR \<longrightarrow> \<not> dirty (sectors c' ! e)) \<and>
          (\<not> dirty (sectors c ! e) \<longrightarrow> \<not> dirty (sectors c' ! e))" by (elim exE conjE)
    have "(i \<le> e \<and> e < SECTOR_COUNT \<and> slot_index c e \<noteq> NO_SECTOR \<longrightarrow> \<not> dirty (sectors c' ! e)) \<and>
      (\<not> dirty (sectors c ! e) \<longrightarrow> \<not> dirty (sectors c' ! e))" for e
      using c'(6) False by (cases "e = i") auto
    then show ?thesis using c' step by simp
  qed
qed

lemma sector_cache_flush_ok:
  assumes "cache_ok c"
  shows "\<exists>c'. sector_cache_flush force t c = Some c' \<and> cache_ok c' \<and> view c' = view c \<and> same_holds c c' \<and>
    (force \<longrightarrow> unowned c = {..<SECTOR_COUNT} \<longrightarrow>
      (\<forall>i < device_size c. \<forall>k < BLOCK_SECTOR_SIZE. device c' i k = view c i k))"
proof (cases "force \<or> t - last_flush_t c > 512")
  case False then show ?thesis using assms by (auto simp: sector_cache_flush_def)
next
  case True
  obtain c' where c': "flush_from 0 SECTOR_COUNT c = Some c'" "cache_ok c'" "view c' = view c" "same_holds c c'" "slot_index c' = slot_index c"
    "\<forall>e. (0 \<le> e \<and> e < SECTOR_COUNT \<and> slot_index c e \<noteq> NO_SECTOR \<longrightarrow> \<not> dirty (sectors c' ! e)) \<and>
      (\<not> dirty (sectors c ! e) \<longrightarrow> \<not> dirty (sectors c' ! e))"
    using flush_from_ok [OF assms add_0] by (elim exE conjE)
  let ?c = "c'\<lparr>last_flush_t := t\<rparr>"
  have inv: "cache_inv c'" using c'(2) by (simp add: cache_ok_def)
  have "device c' i k = view c i k" if a: "unowned c = {..<SECTOR_COUNT}" "i < device_size c" "k < BLOCK_SECTOR_SIZE" for i k
  proof (cases "slot_of c' i")
    case None then show ?thesis using a c'(3,4) by (simp add: view_def flip: c'(3)) (simp add: same_holds_def)
  next
    case (Some e)
    have sz: "device_size c' = device_size c" "unowned c' = unowned c" using c'(4) by (simp_all add: same_holds_def)
    then have e: "e < SECTOR_COUNT" "slot_index c' e = i" using Some slot_of_Some [OF inv, of i e] a(2) by simp_all
    moreover have "e \<in> unowned c'" using a(1) sz(2) e(1) by simp
    ultimately have "agrees c' e" using inv c'(5,6) a(2) sz(1) by (auto simp: cache_inv_def slot_ok_def unowned_def)
    then show ?thesis using view_cached [OF inv e(1) _ a(3)] e(2) a(2,3) sz(1) c'(3) by (simp add: agrees_def)
  qed
  moreover have "sector_cache_flush force t c = Some ?c" using True c'(1) by (simp add: sector_cache_flush_def)
  moreover have "cache_ok ?c" "same_holds c ?c" using c'(2,4) by (simp_all add: cache_ok_def same_holds_def)
  ultimately show ?thesis using c'(3) by (intro exI [of _ ?c]) simp
qed

subsection \<open>The cache as a plain disk\<close>

text \<open>
  A client that takes a sector, reads or changes some of its bytes and gives it back, and the thread that
  writes back. The promise of the cache: any sequence of such requests behaves as on an array of sectors.
\<close>

datatype disk_op = Read nat nat nat | Write nat nat "u8 list" | Flush bool int

definition overlay :: "nat \<Rightarrow> u8 list \<Rightarrow> (nat \<Rightarrow> u8) \<Rightarrow> nat \<Rightarrow> u8" where
  "overlay ofs bs d k = (if ofs \<le> k \<and> k < ofs + length bs then bs ! (k - ofs) else d k)"

definition read_sector :: "(u32 \<Rightarrow> bool) \<Rightarrow> nat \<Rightarrow> nat \<Rightarrow> nat \<Rightarrow> cache \<Rightarrow> (u8 list \<times> cache) option" where
  "read_sector mem i ofs n c = do {
     (c, e) \<leftarrow> take_sector mem i True c;
     let bs = map (data (sectors c ! e)) [ofs..<ofs + n];
     c \<leftarrow> release_sector e i False True c;
     Some (bs, c) }"

definition write_sector :: "(u32 \<Rightarrow> bool) \<Rightarrow> nat \<Rightarrow> nat \<Rightarrow> u8 list \<Rightarrow> cache \<Rightarrow> cache option" where
  "write_sector mem i ofs bs c = do {
     (c, e) \<leftarrow> take_sector mem i True c;
     release_sector e i True True (put_bytes e (overlay ofs bs (data (sectors c ! e))) c) }"

fun run_ops :: "(nat \<Rightarrow> nat \<Rightarrow> nat \<Rightarrow> 's \<Rightarrow> (u8 list \<times> 's) option) \<Rightarrow> (nat \<Rightarrow> nat \<Rightarrow> u8 list \<Rightarrow> 's \<Rightarrow> 's option) \<Rightarrow>
    (bool \<Rightarrow> int \<Rightarrow> 's \<Rightarrow> 's option) \<Rightarrow> disk_op list \<Rightarrow> 's \<Rightarrow> (u8 list list \<times> 's) option" where
  "run_ops rd wr fl [] s = Some ([], s)"
| "run_ops rd wr fl (Read i ofs n # ops) s = do {
     (bs, s) \<leftarrow> rd i ofs n s;
     (out, s) \<leftarrow> run_ops rd wr fl ops s;
     Some (bs # out, s) }"
| "run_ops rd wr fl (Write i ofs bs # ops) s = do { s \<leftarrow> wr i ofs bs s; run_ops rd wr fl ops s }"
| "run_ops rd wr fl (Flush force t # ops) s = do { s \<leftarrow> fl force t s; run_ops rd wr fl ops s }"

definition cache_run :: "(u32 \<Rightarrow> bool) \<Rightarrow> disk_op list \<Rightarrow> cache \<Rightarrow> (u8 list list \<times> cache) option" where
  "cache_run mem = run_ops (read_sector mem) (write_sector mem) sector_cache_flush"

definition disk_run :: "disk_op list \<Rightarrow> (nat \<Rightarrow> nat \<Rightarrow> u8) \<Rightarrow> (u8 list list \<times> (nat \<Rightarrow> nat \<Rightarrow> u8)) option" where
  "disk_run = run_ops (\<lambda>i ofs n D. Some (map (D i) [ofs..<ofs + n], D)) (\<lambda>i ofs bs D. Some (D(i := overlay ofs bs (D i)))) (\<lambda>_ _ D. Some D)"

fun op_in :: "nat \<Rightarrow> disk_op \<Rightarrow> bool" where
  "op_in sz (Read i ofs n) \<longleftrightarrow> i < sz \<and> ofs + n \<le> BLOCK_SECTOR_SIZE"
| "op_in sz (Write i ofs bs) \<longleftrightarrow> i < sz \<and> ofs + length bs \<le> BLOCK_SECTOR_SIZE"
| "op_in sz (Flush _ _) \<longleftrightarrow> True"

text \<open>What a store of sectors promises.\<close>

locale sector_store =
  fixes ok :: "'s \<Rightarrow> bool" and disk :: "'s \<Rightarrow> nat \<Rightarrow> nat \<Rightarrow> u8" and cap :: "'s \<Rightarrow> nat"
    and rd :: "nat \<Rightarrow> nat \<Rightarrow> nat \<Rightarrow> 's \<Rightarrow> (u8 list \<times> 's) option"
    and wr :: "nat \<Rightarrow> nat \<Rightarrow> u8 list \<Rightarrow> 's \<Rightarrow> 's option" and fl :: "bool \<Rightarrow> int \<Rightarrow> 's \<Rightarrow> 's option"
  assumes rd_law: "ok s \<Longrightarrow> i < cap s \<Longrightarrow> ofs + n \<le> BLOCK_SECTOR_SIZE \<Longrightarrow>
      \<exists>s'. rd i ofs n s = Some (map (disk s i) [ofs..<ofs + n], s') \<and> ok s' \<and> disk s' = disk s \<and> cap s' = cap s"
    and wr_law: "ok s \<Longrightarrow> i < cap s \<Longrightarrow> ofs + length bs \<le> BLOCK_SECTOR_SIZE \<Longrightarrow>
      \<exists>s'. wr i ofs bs s = Some s' \<and> ok s' \<and> disk s' = (disk s)(i := overlay ofs bs (disk s i)) \<and> cap s' = cap s"
    and fl_law: "ok s \<Longrightarrow> \<exists>s'. fl force t s = Some s' \<and> ok s' \<and> disk s' = disk s \<and> cap s' = cap s"
begin

lemma run_refines:
  assumes "ok s" "list_all (op_in (cap s)) ops"
  shows "\<exists>out s'. run_ops rd wr fl ops s = Some (out, s') \<and> ok s' \<and> cap s' = cap s \<and> disk_run ops (disk s) = Some (out, disk s')"
  using assms
proof (induction ops arbitrary: s)
  case Nil then show ?case by (simp add: disk_run_def)
next
  case (Cons op ops)
  show ?case
  proof (cases op)
    case (Read i ofs n)
    with Cons.prems rd_law [of s i ofs n] obtain s1 where
      s1: "rd i ofs n s = Some (map (disk s i) [ofs..<ofs + n], s1)" "ok s1" "disk s1 = disk s" "cap s1 = cap s" by auto
    with Cons.IH [of s1] Cons.prems Read show ?thesis by (auto simp: disk_run_def)
  next
    case (Write i ofs bs)
    with Cons.prems wr_law [of s i ofs bs] obtain s1 where
      s1: "wr i ofs bs s = Some s1" "ok s1" "disk s1 = (disk s)(i := overlay ofs bs (disk s i))" "cap s1 = cap s" by auto
    with Cons.IH [of s1] Cons.prems Write show ?thesis by (auto simp: disk_run_def simp del: fun_upd_apply)
  next
    case (Flush force t)
    with Cons.prems fl_law [of s force t] obtain s1 where "fl force t s = Some s1" "ok s1" "disk s1 = disk s" "cap s1 = cap s" by auto
    with Cons.IH [of s1] Cons.prems Flush show ?thesis by (auto simp: disk_run_def)
  qed
qed

end

text \<open>Nobody holds a sector.\<close>

definition idle :: "cache \<Rightarrow> bool" where
  "idle c \<longleftrightarrow> cache_ok c \<and> unowned c = {..<SECTOR_COUNT}"

lemma idle_can_take:
  assumes "idle c" "i < device_size c"
  shows "can_take i block c"
proof (cases "slot_of c i")
  case None then show ?thesis using assms by (simp add: can_take_def idle_def cache_ok_def SECTOR_COUNT_def)
next
  case (Some e)
  have inv: "cache_inv c" using assms(1) by (simp add: idle_def cache_ok_def)
  have e: "e < SECTOR_COUNT" using Some slot_of_Some [OF inv assms(2), of e] by simp
  then have "e \<in> unowned c" using assms(1) by (simp add: idle_def)
  moreover have "slot_ok c e" using inv e by (simp add: cache_inv_def)
  ultimately show ?thesis using Some assms
    by (auto simp: can_take_def slot_ok_def unowned_def idle_def cache_ok_def SECTOR_COUNT_def)
qed

lemma idle_same_holds: "idle c \<Longrightarrow> cache_ok c' \<Longrightarrow> same_holds c c' \<Longrightarrow> idle c'"
  by (simp add: idle_def same_holds_def)

lemma idle_keeps: "idle c \<Longrightarrow> cache_ok c' \<Longrightarrow> keeps X c c' \<Longrightarrow> idle c'"
  by (simp add: keeps_def idle_same_holds)

interpretation bc: sector_store idle view device_size "read_sector mem" "write_sector mem" sector_cache_flush for mem
proof
  fix s i ofs n assume a: "idle s" "i < device_size s" "ofs + n \<le> BLOCK_SECTOR_SIZE"
  from peek_ok [OF _ idle_can_take [OF a(1,2)], of mem True] a(1) obtain c1 e c2 where
    c: "take_sector mem i True s = Some (c1, e)" "\<forall>k < BLOCK_SECTOR_SIZE. data (sectors c1 ! e) k = view s i k"
      "release_sector e i False True c1 = Some c2" "cache_ok c2" "view c2 = view s" "keeps {} s c2"
    unfolding idle_def by blast
  have "map (data (sectors c1 ! e)) [ofs..<ofs + n] = map (view s i) [ofs..<ofs + n]" using c(2) a(3) by auto
  then show "\<exists>s'. read_sector mem i ofs n s = Some (map (view s i) [ofs..<ofs + n], s') \<and> idle s' \<and> view s' = view s \<and> device_size s' = device_size s"
    using c idle_keeps [OF a(1) c(4,6)] keeps_size [OF c(6)] by (intro exI [of _ c2]) (simp add: read_sector_def)
next
  fix s i ofs and bs :: "u8 list" assume a: "idle s" "i < device_size s" "ofs + length bs \<le> BLOCK_SECTOR_SIZE"
  have "in_sector (overlay ofs bs)" by (simp add: in_sector_def overlay_def)
  from poke_ok [OF _ idle_can_take [OF a(1,2)] this, of mem True] a(1) obtain c1 e c2 where
    c: "take_sector mem i True s = Some (c1, e)"
      "release_sector e i True True (put_bytes e (overlay ofs bs (data (sectors c1 ! e))) c1) = Some c2" "cache_ok c2"
      "view c2 = (view s)(i := clip (overlay ofs bs (view s i)))" "keeps {} s c2"
    unfolding idle_def by blast
  have "clip (overlay ofs bs (view s i)) = overlay ofs bs (view s i)"
    using a(3) by (auto simp: clip_def overlay_def view_def fun_eq_iff)
  then show "\<exists>s'. write_sector mem i ofs bs s = Some s' \<and> idle s' \<and> view s' = (view s)(i := overlay ofs bs (view s i)) \<and> device_size s' = device_size s"
    using c idle_keeps [OF a(1) c(3,5)] keeps_size [OF c(5)] by (intro exI [of _ c2]) (simp add: write_sector_def)
next
  fix s force t assume a: "idle s"
  then show "\<exists>s'. sector_cache_flush force t s = Some s' \<and> idle s' \<and> view s' = view s \<and> device_size s' = device_size s"
    using sector_cache_flush_ok [of s force t] idle_same_holds [OF a] by (auto simp: idle_def same_holds_def)
qed

lemma cache_init_ok:
  assumes "mem 64" "length junk = 4" "length (sectors c) = SECTOR_COUNT" "clock_hand c < SECTOR_COUNT" "device_size c < NO_SECTOR"
  shows "\<exists>c'. cache_init mem junk c = Some c' \<and> idle c' \<and> device c' = device c \<and> device_size c' = device_size c \<and>
    (\<forall>i < device_size c. \<forall>k < BLOCK_SECTOR_SIZE. view c' i k = device c i k)"
proof -
  let ?c = "c\<lparr>cache_sem := SECTOR_COUNT, sectors := map sector_init (sectors c)\<rparr>"
  have fn: "sectors_hash ix = (\<lambda>e. of_nat (ix e))" "sectors_map_less ix = (\<lambda>a b. ix a < ix b)" for ix
    by (simp_all add: sectors_hash_def sectors_map_less_def fun_eq_iff)
  obtain h where h: "hash_init mem junk (sectors_hash (slot_index ?c)) (sectors_map_less (slot_index ?c)) = Some h"
    "hash_ok (\<lambda>a b. slot_index ?c a < slot_index ?c b) (\<lambda>e. of_nat (slot_index ?c e)) h" "elems h = {}"
    using hash_init_ok [OF kf.hash_funcs_axioms [of "slot_index ?c"], of mem junk] assms(1,2) unfolding fn by blast
  let ?d = "?c\<lparr>index_sectors_map := h, free_list := [0..<SECTOR_COUNT]\<rparr>"
  have nth: "index (sectors ?d ! e) = NO_SECTOR" "owners (sectors ?d ! e) = 0" "\<not> sector_lock (sectors ?d ! e)" if "e < SECTOR_COUNT" for e
    using that assms(3) by (simp_all add: sector_init_def)
  then have si: "slot_index ?d e = NO_SECTOR" if "e < SECTOR_COUNT" for e using that by (simp add: slot_index_def)
  have "keyed (slot_index ?d) h" using h(2) rekey_same [OF h(2)] by (simp add: keyed_def)
  moreover have "slot_ok ?d e" if "e < SECTOR_COUNT" for e using si [OF that] nth [OF that] by (simp add: slot_ok_def)
  ultimately have inv: "cache_inv ?d" unfolding cache_inv_def using si assms h(3) by auto
  have un: "unowned ?d = {..<SECTOR_COUNT}" using nth by (auto simp: unowned_def)
  have "idle ?d" unfolding idle_def cache_ok_def un using inv by simp
  moreover have "cache_init mem junk c = Some ?d" using h(1) by (simp add: cache_init_def Let_def)
  moreover have "view ?d i k = device c i k" if a: "i < device_size c" "k < BLOCK_SECTOR_SIZE" for i k
  proof -
    have "slot_of ?d i = None" using si a(1) assms(5) by (auto simp: slot_of_None)
    then show ?thesis using a by (simp add: view_def del: view_fields)
  qed
  ultimately show ?thesis by (intro exI [of _ ?d]) simp
qed

text \<open>
  C4: the buffer cache cannot be seen. After the cache is set up, every sequence of requests that read or
  change bytes of sectors, with write-backs anywhere in between, is served without a panic and gives
  the results it would give on the bare array of sectors, however the clock algorithm evicted
  sectors; and after a forced flush the device holds exactly what was written.
\<close>

theorem cache_transparent:
  assumes "mem 64" "length junk = 4" "length (sectors c) = SECTOR_COUNT" "clock_hand c < SECTOR_COUNT" "device_size c < NO_SECTOR"
    and "list_all (op_in (device_size c)) ops"
  shows "\<exists>c0 D0 out c1 D1 c2. cache_init mem junk c = Some c0 \<and> cache_run mem ops c0 = Some (out, c1) \<and>
    disk_run ops D0 = Some (out, D1) \<and> sector_cache_flush True t c1 = Some c2 \<and>
    (\<forall>i < device_size c. \<forall>k < BLOCK_SECTOR_SIZE. D0 i k = device c i k \<and> device c2 i k = D1 i k)"
proof -
  obtain c0 where c0: "cache_init mem junk c = Some c0" "idle c0" "device_size c0 = device_size c"
    "\<forall>i < device_size c. \<forall>k < BLOCK_SECTOR_SIZE. view c0 i k = device c i k"
    using cache_init_ok [of mem junk c] assms(1-5) by blast
  obtain out c1 where c1: "cache_run mem ops c0 = Some (out, c1)" "idle c1" "device_size c1 = device_size c"
    "disk_run ops (view c0) = Some (out, view c1)"
    using bc.run_refines [OF c0(2), of ops mem] assms(6) c0(3) by (auto simp: cache_run_def)
  then obtain c2 where "sector_cache_flush True t c1 = Some c2"
    "\<forall>i < device_size c. \<forall>k < BLOCK_SECTOR_SIZE. device c2 i k = view c1 i k"
    using sector_cache_flush_ok [of c1 True t] by (auto simp: idle_def)
  then show ?thesis using c0 c1 by blast
qed

definition sample_cache :: cache where
  "sample_cache = \<lparr>sectors = replicate 64 \<lparr>index = 0, data = (\<lambda>_. 0), dirty = False, owners = 0, sector_lock = False\<rparr>, cache_sem = 0,
    index_sectors_map = \<lparr>elem_count = 0, bucket_cnt = 0, buckets = [], hash_fn = (\<lambda>_. 0), less_fn = (\<lambda>_ _. False)\<rparr>, free_list = [],
    clock_hand = 0, last_flush_t = 0, device = (\<lambda>_ _. 9), device_size = 100\<rparr>"

theorem cache_transparent_witness:
  "\<exists>c0 c1 c2. cache_init (\<lambda>_. True) [[], [], [], []] sample_cache = Some c0 \<and>
    cache_run (\<lambda>_. True) [Write 3 1 [7], Flush False 1000, Read 3 0 3] c0 = Some ([[9, 7, 9]], c1) \<and>
    sector_cache_flush True 1001 c1 = Some c2 \<and> device c2 3 1 = 7"
proof -
  have eqs: "BLOCK_SECTOR_SIZE = 512" "SECTOR_COUNT = 64" "NO_SECTOR = 2 ^ 32 - 1"
    by (simp_all add: BLOCK_SECTOR_SIZE_def SECTOR_COUNT_def NO_SECTOR_def)
  from cache_transparent [of "\<lambda>_. True" "[[], [], [], []]" sample_cache "[Write 3 1 [7], Flush False 1000, Read 3 0 3]" 1001]
  obtain c0 D0 out c1 D1 c2 where w: "cache_init (\<lambda>_. True) [[], [], [], []] sample_cache = Some c0"
    "cache_run (\<lambda>_. True) [Write 3 1 [7], Flush False 1000, Read 3 0 3] c0 = Some (out, c1)"
    "disk_run [Write 3 1 [7], Flush False 1000, Read 3 0 3] D0 = Some (out, D1)" "sector_cache_flush True 1001 c1 = Some c2"
    "\<forall>i < 100. \<forall>k < 512. D0 i k = 9 \<and> device c2 i k = D1 i k"
    by (auto simp: sample_cache_def eqs)
  then have "D0 3 0 = 9" "D0 3 2 = 9" "device c2 3 1 = D1 3 1" by simp_all
  moreover from w(3) this have "out = [[9, 7, 9]]" "D1 3 1 = 7"
    by (auto simp: disk_run_def overlay_def upt_rec numeral_2_eq_2)
  ultimately show ?thesis using w by auto
qed

end
