(* ===== verification/Inode.thy ===== *)
theory Inode
  imports Cache PageDir
begin

text \<open>
  Files on disk: \<^verbatim>\<open>src/Project5/src/filesys/inode.c\<close>, on top of the buffer cache and the free map. An inode
  names its data sectors through a tree: 125 entries of the inode lead to index sectors of 128
  entries, those to index sectors of 128 entries, and those to data sectors; entry \<^verbatim>\<open>-1\<close> is empty.
  Words are little-endian. A positive or negative \<^verbatim>\<open>off_t\<close> is an integer. Reading or writing through a
  null handle, or outside the 512 bytes of a sector, is \<^term>\<open>None\<close>, as failed assertions are.
\<close>

section \<open>State\<close>

definition INODE_MAGIC :: u32 where "INODE_MAGIC = 0x494e4f44"

definition ON_INODE_DIR_SIZE :: nat where "ON_INODE_DIR_SIZE = 125"

definition REDIRECTION_LEVEL :: nat where "REDIRECTION_LEVEL = 3"

record inode =
  isector :: nat
  open_cnt :: int
  removed :: bool
  deny_write_cnt :: int
  is_dir :: u32
  ilength :: int

text \<open>\<open>disk_inode\<close> is the block that \<^verbatim>\<open>inode_create\<close> gets from \<^verbatim>\<open>calloc\<close>; inodes in memory are known by their address.\<close>

record fs =
  buffer_cache :: cache
  fs_map :: fmap
  inodes :: "nat \<Rightarrow> inode"
  open_inodes :: "nat list"
  disk_inode :: "nat \<Rightarrow> u8"

text \<open>A pointer to a \<^verbatim>\<open>struct inode_disk\<close>: that block, or the bytes of a slot of the cache.\<close>

datatype inode_ptr = Calloc | Slot nat

definition sector_data :: "nat \<Rightarrow> fs \<Rightarrow> nat \<Rightarrow> u8" where
  "sector_data e s = data (sectors (buffer_cache s) ! e)"

definition set_data :: "nat \<Rightarrow> (nat \<Rightarrow> u8) \<Rightarrow> fs \<Rightarrow> fs" where
  "set_data e d s = s\<lparr>buffer_cache := put_bytes e d (buffer_cache s)\<rparr>"

fun disk_data :: "inode_ptr \<Rightarrow> fs \<Rightarrow> nat \<Rightarrow> u8" where
  "disk_data Calloc s = disk_inode s"
| "disk_data (Slot e) s = sector_data e s"

fun set_disk_data :: "inode_ptr \<Rightarrow> (nat \<Rightarrow> u8) \<Rightarrow> fs \<Rightarrow> fs" where
  "set_disk_data Calloc d s = s\<lparr>disk_inode := d\<rparr>"
| "set_disk_data (Slot e) d s = set_data e d s"

text \<open>The words of a sector, and the entries of the tree in an inode: \<^verbatim>\<open>length\<close>, \<^verbatim>\<open>magic\<close> and \<^verbatim>\<open>flags\<close> come first.\<close>

definition word_at :: "(nat \<Rightarrow> u8) \<Rightarrow> nat \<Rightarrow> nat" where
  "word_at d j = unat (read32 d (4 * j))"

definition put_word :: "(nat \<Rightarrow> u8) \<Rightarrow> nat \<Rightarrow> nat \<Rightarrow> nat \<Rightarrow> u8" where
  "put_word d j n = write32 d (4 * j) (of_nat n)"

definition dir_at :: "(nat \<Rightarrow> u8) \<Rightarrow> nat \<Rightarrow> nat" where
  "dir_at d j = word_at d (3 + j)"

definition put_dir :: "(nat \<Rightarrow> u8) \<Rightarrow> nat \<Rightarrow> nat \<Rightarrow> nat \<Rightarrow> u8" where
  "put_dir d j n = put_word d (3 + j) n"

section \<open>Offsets\<close>

text \<open>Division of an \<^verbatim>\<open>off_t\<close> by the size of a sector rounds towards zero; conversion to \<^verbatim>\<open>size_t\<close> is modulo \<open>2 ^ 32\<close>.\<close>

definition wrap_off :: "int \<Rightarrow> int" where
  "wrap_off x = (x + 2 ^ 31) mod 2 ^ 32 - 2 ^ 31"

definition off_div :: "int \<Rightarrow> int" where
  "off_div x = (if x \<ge> 0 then x div 512 else - ((- x) div 512))"

definition off_mod :: "int \<Rightarrow> int" where
  "off_mod x = x - 512 * off_div x"

definition to_size :: "int \<Rightarrow> nat" where
  "to_size x = nat (x mod 2 ^ 32)"

definition bytes_to_sectors :: "int \<Rightarrow> nat" where
  "bytes_to_sectors n = to_size (off_div (wrap_off (n + 511)))"

section \<open>Handles\<close>

definition get_sector_handle :: "(u32 \<Rightarrow> bool) \<Rightarrow> nat \<Rightarrow> bool \<Rightarrow> fs \<Rightarrow> (fs \<times> nat option) option" where
  "get_sector_handle mem sector_id block s =
     (if sector_id = NO_SECTOR then Some (s, None)
      else do { (c, e) \<leftarrow> take_sector mem sector_id block (buffer_cache s); Some (s\<lparr>buffer_cache := c\<rparr>, Some e) })"

definition release_sector_handle :: "nat \<Rightarrow> nat option \<Rightarrow> bool \<Rightarrow> bool \<Rightarrow> fs \<Rightarrow> fs option" where
  "release_sector_handle sector_id h made_dirty blocked s =
     (if sector_id = NO_SECTOR then Some s
      else case h of None \<Rightarrow> Some s
        | Some e \<Rightarrow> do { c \<leftarrow> release_sector e sector_id made_dirty blocked (buffer_cache s); Some (s\<lparr>buffer_cache := c\<rparr>) })"

section \<open>The tree of sectors\<close>

definition get_redirection_ids :: "nat \<Rightarrow> nat list \<times> bool" where
  "get_redirection_ids idx =
     (let i2 = idx mod 128; idx = idx div 128;
          i1 = idx mod 128; idx = idx div 128;
          i0 = idx mod 128; idx = idx div 128
      in ([i0, i1, i2], \<not> idx > 0 \<and> i0 < ON_INODE_DIR_SIZE))"

text \<open>The loop of \<^verbatim>\<open>get_inode_sector\<close>: the sector, its parent and the index in the parent.\<close>

fun seek_levels :: "(u32 \<Rightarrow> bool) \<Rightarrow> nat list \<Rightarrow> nat \<Rightarrow> nat \<Rightarrow> nat \<Rightarrow> fs \<Rightarrow> (fs \<times> nat \<times> nat \<times> nat) option" where
  "seek_levels mem [] sector parent pos s = Some (s, sector, parent, pos)"
| "seek_levels mem (i # ids) sector parent pos s = do {
     (s, h) \<leftarrow> get_sector_handle mem sector False s;
     case h of
       None \<Rightarrow> Some (s, NO_SECTOR, parent, pos)
     | Some e \<Rightarrow> do {
         let next_sector = word_at (sector_data e s) i;
         s \<leftarrow> release_sector_handle sector h False False s;
         seek_levels mem ids next_sector sector i s } }"

definition get_inode_sector :: "(u32 \<Rightarrow> bool) \<Rightarrow> inode_ptr \<Rightarrow> nat \<Rightarrow> fs \<Rightarrow> (fs \<times> nat \<times> nat \<times> nat) option" where
  "get_inode_sector mem p idx s =
     (let (ids, ok) = get_redirection_ids idx in
      if \<not> ok then Some (s, NO_SECTOR, 0, 0)
      else seek_levels mem (tl ids) (dir_at (disk_data p s) (hd ids)) NO_SECTOR (hd ids) s)"

text \<open>
  Allocating one sector. \<open>bw\<close> writes the free map to its file, which is a call of \<^verbatim>\<open>inode_write_at\<close> on
  another inode; the theory \<^verbatim>\<open>FreeMapFile\<close> has that call.
\<close>

type_synonym map_writer = "bitmap \<Rightarrow> fs \<Rightarrow> (fs \<times> bool) option"

definition alloc_sector :: "map_writer \<Rightarrow> fs \<Rightarrow> (fs \<times> nat option) option" where
  "alloc_sector bw s = do {
     (b, sector) \<leftarrow> bitmap_scan_and_flip (free_map (fs_map s)) 0 1 False;
     (s', ok) \<leftarrow> (if sector \<noteq> BITMAP_ERROR \<and> free_map_file (fs_map s) then bw b s else Some (s, True));
     (m, r) \<leftarrow> free_map_allocate (\<lambda>_. ok) (fs_map s) 1;
     Some (s'\<lparr>fs_map := m\<rparr>, r) }"

definition dealloc_sector :: "map_writer \<Rightarrow> nat \<Rightarrow> fs \<Rightarrow> fs option" where
  "dealloc_sector bw sector s = do {
     m \<leftarrow> free_map_release (fs_map s) sector 1;
     (s, _) \<leftarrow> bw (free_map m) (s\<lparr>fs_map := m\<rparr>);
     Some s }"

text \<open>Filling all words of a sector: entries become \<^verbatim>\<open>-1\<close>, data become 0.\<close>

fun fill_words :: "nat \<Rightarrow> nat \<Rightarrow> (nat \<Rightarrow> u8) \<Rightarrow> nat \<Rightarrow> u8" where
  "fill_words n 0 d = d"
| "fill_words n (Suc j) d = put_word (fill_words n j d) j n"

fun alloc_levels :: "(u32 \<Rightarrow> bool) \<Rightarrow> map_writer \<Rightarrow> nat list \<Rightarrow> nat \<Rightarrow> bool \<Rightarrow> fs \<Rightarrow> (fs \<times> bool) option" where
  "alloc_levels mem bw [] sector newly s =
     (if newly then do {
        (s, h) \<leftarrow> get_sector_handle mem sector True s;
        case h of
          None \<Rightarrow> Some (s, False)
        | Some e \<Rightarrow> do {
            s \<leftarrow> release_sector_handle sector h True True (set_data e (fill_words 0 128 (sector_data e s)) s);
            Some (s, True) } }
      else Some (s, True))"
| "alloc_levels mem bw (i # ids) sector newly s = do {
     (s, h) \<leftarrow> get_sector_handle mem sector True s;
     case h of
       None \<Rightarrow> Some (s, False)
     | Some e \<Rightarrow> do {
         let s = (if newly then set_data e (fill_words NO_SECTOR 128 (sector_data e s)) s else s);
         let next_sector = word_at (sector_data e s) i;
         if next_sector = NO_SECTOR then do {
           (s, r) \<leftarrow> alloc_sector bw s;
           case r of
             None \<Rightarrow> do { s \<leftarrow> release_sector_handle sector h False True s; Some (s, False) }
           | Some x \<Rightarrow> do {
               s \<leftarrow> release_sector_handle sector h True True (set_data e (put_word (sector_data e s) i x) s);
               alloc_levels mem bw ids x True s } }
         else do {
           s \<leftarrow> release_sector_handle sector h False True s;
           alloc_levels mem bw ids next_sector False s } } }"

text \<open>An index out of range returns \<^verbatim>\<open>(-1)\<close>, which is true.\<close>

definition allocate_inode_sector :: "(u32 \<Rightarrow> bool) \<Rightarrow> map_writer \<Rightarrow> inode_ptr \<Rightarrow> nat \<Rightarrow> fs \<Rightarrow> (fs \<times> bool) option" where
  "allocate_inode_sector mem bw p idx s =
     (let (ids, ok) = get_redirection_ids idx in
      if \<not> ok then Some (s, True)
      else let sector = dir_at (disk_data p s) (hd ids) in
        if sector = NO_SECTOR then do {
          (s, r) \<leftarrow> alloc_sector bw s;
          case r of
            None \<Rightarrow> Some (s, False)
          | Some x \<Rightarrow> alloc_levels mem bw (tl ids) x True (set_disk_data p (put_dir (disk_data p s) (hd ids) x) s) }
        else alloc_levels mem bw (tl ids) sector False s)"

primrec for_each :: "('a \<Rightarrow> 's \<Rightarrow> 's option) \<Rightarrow> 'a list \<Rightarrow> 's \<Rightarrow> 's option" where
  "for_each f [] s = Some s"
| "for_each f (x # xs) s = do { s \<leftarrow> f x s; for_each f xs s }"

text \<open>\<^verbatim>\<open>inode_dir_cleanup_clean_level\<close> with \<open>n\<close> levels of sectors below.\<close>

primrec clean_level :: "(u32 \<Rightarrow> bool) \<Rightarrow> map_writer \<Rightarrow> nat \<Rightarrow> nat \<Rightarrow> fs \<Rightarrow> fs option" where
  "clean_level mem bw 0 = (\<lambda>sector s. if sector = NO_SECTOR then Some s else dealloc_sector bw sector s)"
| "clean_level mem bw (Suc n) = (\<lambda>sector s.
     if sector = NO_SECTOR then Some s
     else do {
       (s, h) \<leftarrow> get_sector_handle mem sector True s;
       s \<leftarrow> (case h of
           None \<Rightarrow> Some s
         | Some e \<Rightarrow> do {
             s \<leftarrow> for_each (\<lambda>i s. clean_level mem bw n (word_at (sector_data e s) i) s) [0..<128] s;
             release_sector_handle sector h False True s });
       dealloc_sector bw sector s })"

definition inode_dir_cleanup :: "(u32 \<Rightarrow> bool) \<Rightarrow> map_writer \<Rightarrow> inode_ptr \<Rightarrow> fs \<Rightarrow> fs option" where
  "inode_dir_cleanup mem bw p s =
     for_each (\<lambda>i s. do {
         s \<leftarrow> clean_level mem bw (REDIRECTION_LEVEL - 1) (dir_at (disk_data p s) i) s;
         Some (set_disk_data p (put_dir (disk_data p s) i NO_SECTOR) s) }) [0..<ON_INODE_DIR_SIZE] s"

text \<open>The handle of the parent is released under the number of the child.\<close>

definition deallocate_inode_sector :: "(u32 \<Rightarrow> bool) \<Rightarrow> map_writer \<Rightarrow> inode_ptr \<Rightarrow> nat \<Rightarrow> fs \<Rightarrow> fs option" where
  "deallocate_inode_sector mem bw p idx s = do {
     (s, sector, parent, index_in_parent) \<leftarrow> get_inode_sector mem p idx s;
     if sector \<noteq> NO_SECTOR then do {
       s \<leftarrow> dealloc_sector bw sector s;
       if parent \<noteq> NO_SECTOR then do {
         (s, h) \<leftarrow> get_sector_handle mem parent True s;
         case h of
           None \<Rightarrow> Some s
         | Some e \<Rightarrow>
             release_sector_handle sector h True True (set_data e (put_word (sector_data e s) index_in_parent NO_SECTOR) s) }
       else Some (set_disk_data p (put_dir (disk_data p s) index_in_parent NO_SECTOR) s) }
     else Some s }"

definition byte_to_sector :: "(u32 \<Rightarrow> bool) \<Rightarrow> nat \<Rightarrow> int \<Rightarrow> bool \<Rightarrow> fs \<Rightarrow> (fs \<times> nat) option" where
  "byte_to_sector mem a pos ignore_length s =
     (if ignore_length \<or> pos < ilength (inodes s a) then do {
        let main_sector = isector (inodes s a);
        (s, h) \<leftarrow> get_sector_handle mem main_sector False s;
        case h of
          None \<Rightarrow> None
        | Some e \<Rightarrow> do {
            (s, seek, _) \<leftarrow> get_inode_sector mem (Slot e) (to_size (off_div pos)) s;
            s \<leftarrow> release_sector_handle main_sector h False False s;
            Some (s, seek) } }
      else Some (s, NO_SECTOR))"

section \<open>Inodes\<close>

definition inode_init :: "fs \<Rightarrow> fs" where
  "inode_init s = s\<lparr>open_inodes := []\<rparr>"

text \<open>The loop that allocates sectors \<open>ptr\<close> onwards: how far it got.\<close>

fun alloc_range :: "(u32 \<Rightarrow> bool) \<Rightarrow> map_writer \<Rightarrow> inode_ptr \<Rightarrow> nat \<Rightarrow> nat \<Rightarrow> fs \<Rightarrow> (fs \<times> nat) option" where
  "alloc_range mem bw p 0 ptr s = Some (s, ptr)"
| "alloc_range mem bw p (Suc n) ptr s = do {
     (s, ok) \<leftarrow> allocate_inode_sector mem bw p ptr s;
     if ok then alloc_range mem bw p n (ptr + 1) s else Some (s, ptr) }"

definition new_disk_inode :: "int \<Rightarrow> bool \<Rightarrow> nat \<Rightarrow> u8" where
  "new_disk_inode len dir =
     fold (\<lambda>i d. put_dir d i NO_SECTOR) [0..<ON_INODE_DIR_SIZE]
       (write32 (write32 (write32 (\<lambda>_. 0) 0 (of_int len)) 4 INODE_MAGIC) 8 (if dir then 1 else 0))"

definition inode_create :: "(u32 \<Rightarrow> bool) \<Rightarrow> map_writer \<Rightarrow> bool \<Rightarrow> nat \<Rightarrow> int \<Rightarrow> bool \<Rightarrow> fs \<Rightarrow> (fs \<times> bool) option" where
  "inode_create mem bw room sector len dir s = do {
     ASSERT (len \<ge> 0);
     if \<not> room then Some (s, False)
     else do {
       let cnt = bytes_to_sectors len;
       let s = s\<lparr>disk_inode := new_disk_inode len dir\<rparr>;
       (s, ptr) \<leftarrow> alloc_range mem bw Calloc cnt 0 s;
       if ptr = cnt then do {
         (s, h) \<leftarrow> get_sector_handle mem sector True s;
         case h of
           None \<Rightarrow> None
         | Some e \<Rightarrow> do {
             s \<leftarrow> release_sector_handle sector h True True (set_data e (disk_inode s) s);
             Some (s, True) } }
       else do { s \<leftarrow> inode_dir_cleanup mem bw Calloc s; Some (s, False) } } }"

definition inode_reopen :: "nat option \<Rightarrow> fs \<Rightarrow> fs \<times> nat option" where
  "inode_reopen p s = (case p of
     None \<Rightarrow> (s, None)
   | Some a \<Rightarrow> (s\<lparr>inodes := (inodes s)(a := (inodes s a)\<lparr>open_cnt := open_cnt (inodes s a) + 1\<rparr>)\<rparr>, Some a))"

text \<open>\<open>room\<close> is the address that \<^verbatim>\<open>malloc\<close> returns.\<close>

definition inode_open :: "(u32 \<Rightarrow> bool) \<Rightarrow> nat option \<Rightarrow> nat \<Rightarrow> fs \<Rightarrow> (fs \<times> nat option) option" where
  "inode_open mem room sector s =
     (case find (\<lambda>a. isector (inodes s a) = sector) (open_inodes s) of
        Some a \<Rightarrow> Some (inode_reopen (Some a) s)
      | None \<Rightarrow>
          (case room of
             None \<Rightarrow> Some (s, None)
           | Some a \<Rightarrow> do {
               (s, h) \<leftarrow> get_sector_handle mem sector True s;
               case h of
                 None \<Rightarrow> None
               | Some e \<Rightarrow> do {
                   let d = sector_data e s;
                   s \<leftarrow> release_sector_handle sector h False True s;
                   let ino = \<lparr>isector = sector, open_cnt = 1, removed = False, deny_write_cnt = 0,
                     is_dir = read32 d 8, ilength = sint (read32 d 0)\<rparr>;
                   Some (s\<lparr>inodes := (inodes s)(a := ino), open_inodes := a # open_inodes s\<rparr>, Some a) } }))"

definition inode_get_inumber :: "nat \<Rightarrow> fs \<Rightarrow> nat" where
  "inode_get_inumber a s = isector (inodes s a)"

definition inode_close :: "(u32 \<Rightarrow> bool) \<Rightarrow> map_writer \<Rightarrow> nat option \<Rightarrow> fs \<Rightarrow> fs option" where
  "inode_close mem bw p s = (case p of
     None \<Rightarrow> Some s
   | Some a \<Rightarrow> do {
       let s = s\<lparr>inodes := (inodes s)(a := (inodes s a)\<lparr>open_cnt := open_cnt (inodes s a) - 1\<rparr>)\<rparr>;
       if open_cnt (inodes s a) = 0 then do {
         let s = s\<lparr>open_inodes := remove1 a (open_inodes s)\<rparr>;
         if removed (inodes s a) then do {
           let main_sector = isector (inodes s a);
           (s, h) \<leftarrow> get_sector_handle mem main_sector True s;
           case h of
             None \<Rightarrow> None
           | Some e \<Rightarrow> do {
               s \<leftarrow> inode_dir_cleanup mem bw (Slot e) s;
               s \<leftarrow> release_sector_handle main_sector h True True s;
               dealloc_sector bw main_sector s } }
         else Some s }
       else Some s })"

definition inode_remove :: "nat \<Rightarrow> fs \<Rightarrow> fs" where
  "inode_remove a s = s\<lparr>inodes := (inodes s)(a := (inodes s a)\<lparr>removed := True\<rparr>)\<rparr>"

definition inode_length :: "nat \<Rightarrow> fs \<Rightarrow> int" where
  "inode_length a s = ilength (inodes s a)"

definition inode_is_dir :: "nat \<Rightarrow> fs \<Rightarrow> bool" where
  "inode_is_dir a s \<longleftrightarrow> is_dir (inodes s a) \<noteq> 0"

definition inode_is_removed :: "nat \<Rightarrow> fs \<Rightarrow> bool" where
  "inode_is_removed a s \<longleftrightarrow> removed (inodes s a)"

definition inode_deny_write :: "nat \<Rightarrow> fs \<Rightarrow> fs option" where
  "inode_deny_write a s = do {
     let s = s\<lparr>inodes := (inodes s)(a := (inodes s a)\<lparr>deny_write_cnt := deny_write_cnt (inodes s a) + 1\<rparr>)\<rparr>;
     ASSERT (deny_write_cnt (inodes s a) \<le> open_cnt (inodes s a));
     Some s }"

definition inode_allow_write :: "nat \<Rightarrow> fs \<Rightarrow> fs option" where
  "inode_allow_write a s = do {
     ASSERT (deny_write_cnt (inodes s a) > 0);
     ASSERT (deny_write_cnt (inodes s a) \<le> open_cnt (inodes s a));
     Some (s\<lparr>inodes := (inodes s)(a := (inodes s a)\<lparr>deny_write_cnt := deny_write_cnt (inodes s a) - 1\<rparr>)\<rparr>) }"

section \<open>Reading and writing\<close>

text \<open>How many bytes one round of the loops moves: what is left of the request, of the file and of the sector.\<close>

definition chunk_size :: "int \<Rightarrow> int \<Rightarrow> int \<Rightarrow> int" where
  "chunk_size n len offset = min n (min (len - offset) (512 - off_mod offset))"

text \<open>The bytes that the loop of \<^verbatim>\<open>inode_read_at\<close> copies to the buffer.\<close>

function read_loop :: "(u32 \<Rightarrow> bool) \<Rightarrow> nat \<Rightarrow> int \<Rightarrow> int \<Rightarrow> fs \<Rightarrow> (fs \<times> u8 list) option" where
  "read_loop mem a n offset s =
     (if n > 0 then do {
        (s, sector_idx) \<leftarrow> byte_to_sector mem a offset False s;
        let chunk = chunk_size n (inode_length a s) offset;
        if chunk \<le> 0 then Some (s, [])
        else do {
          (s, h) \<leftarrow> get_sector_handle mem sector_idx False s;
          case h of
            None \<Rightarrow> None
          | Some e \<Rightarrow> do {
              ASSERT (0 \<le> off_mod offset);
              let bytes = map (\<lambda>k. sector_data e s (nat (off_mod offset) + k)) [0..<nat chunk];
              s \<leftarrow> release_sector_handle sector_idx h False False s;
              (s, rest) \<leftarrow> read_loop mem a (n - chunk) (offset + chunk) s;
              Some (s, bytes @ rest) } } }
      else Some (s, []))"
  by pat_completeness auto
termination by (relation "measure (\<lambda>(mem, a, n, offset, s). nat n)") auto

text \<open>Returns the bytes read; their number is the result of the call.\<close>

definition inode_read_at :: "(u32 \<Rightarrow> bool) \<Rightarrow> nat \<Rightarrow> int \<Rightarrow> int \<Rightarrow> fs \<Rightarrow> (fs \<times> u8 list) option" where
  "inode_read_at mem a n offset s = read_loop mem a n offset s"

text \<open>The change one round of \<^verbatim>\<open>inode_write_at\<close> makes to a sector.\<close>

definition write_chunk :: "int \<Rightarrow> int \<Rightarrow> u8 list \<Rightarrow> (nat \<Rightarrow> u8) \<Rightarrow> nat \<Rightarrow> u8" where
  "write_chunk ofs chunk bs d =
     (if ofs = 0 \<and> chunk = 512 then overlay 0 bs d
      else overlay (nat ofs) bs (if \<not> (ofs > 0 \<or> chunk < 512 - ofs) then (\<lambda>_. 0) else d))"

text \<open>The loop that copies \<open>n\<close> bytes of the buffer from position \<open>done\<close> on; returns the number of bytes written.\<close>

function write_loop :: "(u32 \<Rightarrow> bool) \<Rightarrow> nat \<Rightarrow> int \<Rightarrow> (nat \<Rightarrow> u8) \<Rightarrow> int \<Rightarrow> int \<Rightarrow> int \<Rightarrow> fs \<Rightarrow> (fs \<times> int) option" where
  "write_loop mem a cur_length buffer n offset bytes_written s =
     (if n > 0 then do {
        (s, sector_idx) \<leftarrow> byte_to_sector mem a offset True s;
        let chunk = chunk_size n cur_length offset;
        if chunk \<le> 0 then Some (s, bytes_written)
        else do {
          (s, h) \<leftarrow> get_sector_handle mem sector_idx False s;
          case h of
            None \<Rightarrow> None
          | Some e \<Rightarrow> do {
              ASSERT (0 \<le> off_mod offset);
              let bytes = map (\<lambda>k. buffer (nat bytes_written + k)) [0..<nat chunk];
              s \<leftarrow> release_sector_handle sector_idx h True False (set_data e (write_chunk (off_mod offset) chunk bytes (sector_data e s)) s);
              write_loop mem a cur_length buffer (n - chunk) (offset + chunk) (bytes_written + chunk) s } } }
      else Some (s, bytes_written))"
  by pat_completeness auto
termination by (relation "measure (\<lambda>(mem, a, l, b, n, offset, w, s). nat n)") auto

declare read_loop.simps [simp del] write_loop.simps [simp del]

text \<open>The loop that takes sectors back after a failed growth.\<close>

fun dealloc_range :: "(u32 \<Rightarrow> bool) \<Rightarrow> map_writer \<Rightarrow> inode_ptr \<Rightarrow> nat \<Rightarrow> nat \<Rightarrow> fs \<Rightarrow> fs option" where
  "dealloc_range mem bw p 0 ptr s = Some s"
| "dealloc_range mem bw p (Suc n) ptr s = do {
     s \<leftarrow> deallocate_inode_sector mem bw p ptr s;
     dealloc_range mem bw p n (ptr + 1) s }"

definition set_length :: "nat \<Rightarrow> nat \<Rightarrow> int \<Rightarrow> fs \<Rightarrow> fs" where
  "set_length a e n s =
     (let s = set_data e (write32 (sector_data e s) 0 (of_int n)) s
      in s\<lparr>inodes := (inodes s)(a := (inodes s a)\<lparr>ilength := n\<rparr>)\<rparr>)"

definition inode_write_at :: "(u32 \<Rightarrow> bool) \<Rightarrow> map_writer \<Rightarrow> nat \<Rightarrow> (nat \<Rightarrow> u8) \<Rightarrow> int \<Rightarrow> int \<Rightarrow> fs \<Rightarrow> (fs \<times> int) option" where
  "inode_write_at mem bw a buffer n offset s =
     (if deny_write_cnt (inodes s a) \<noteq> 0 then Some (s, 0)
      else do {
        let min_size = wrap_off (offset + n);
        let len = ilength (inodes s a);
        let start = bytes_to_sectors len;
        let last_s = bytes_to_sectors min_size;
        let main_sector = isector (inodes s a);
        (s, h) \<leftarrow> get_sector_handle mem main_sector True s;
        case h of
          None \<Rightarrow> None
        | Some e \<Rightarrow>
            if len < min_size then do {
              (s, ptr) \<leftarrow> alloc_range mem bw (Slot e) (last_s - start) start s;
              if ptr \<ge> last_s then do {
                (s, w) \<leftarrow> write_loop mem a min_size buffer n offset 0 s;
                s \<leftarrow> release_sector_handle main_sector h True True (set_length a e min_size s);
                Some (s, w) }
              else do {
                s \<leftarrow> dealloc_range mem bw (Slot e) (ptr - start) start s;
                s \<leftarrow> release_sector_handle main_sector h True True s;
                Some (s, 0) } }
            else do {
              s \<leftarrow> release_sector_handle main_sector h True True s;
              write_loop mem a len buffer n offset 0 s } })"

end
