(* ===== verification/InodeTree.thy ===== *)
theory InodeTree
  imports Inode
begin

text \<open>
  The tree of sectors of a file as a mathematical object: a path names an entry of the tree, and \<open>node\<close> the
  sector in that entry. The lemmas say how the tree changes when an empty entry is filled with a
  fresh sector, and what keeps it as it is; the operations of \<^verbatim>\<open>inode.c\<close> are then followed step by step
  through the buffer cache.
\<close>

section \<open>Paths and nodes\<close>

text \<open>Entries are given by a location (the inode itself or an index sector) and a position. Paths are read from the leaf.\<close>

type_synonym entries = "nat option \<Rightarrow> nat \<Rightarrow> nat"

definition valid :: "nat list \<Rightarrow> bool" where
  "valid p \<longleftrightarrow> p \<noteq> [] \<and> length p \<le> REDIRECTION_LEVEL \<and> last p < ON_INODE_DIR_SIZE \<and> (\<forall>i \<in> set p. i < 128)"

fun node :: "entries \<Rightarrow> nat list \<Rightarrow> nat" where
  "node E [] = NO_SECTOR"
| "node E (b # p) = (if p = [] then E None b else if node E p = NO_SECTOR then NO_SECTOR else E (Some (node E p)) b)"

definition loc :: "entries \<Rightarrow> nat list \<Rightarrow> nat option" where
  "loc E p = (if p = [] then None else Some (node E p))"

definition nodes :: "entries \<Rightarrow> nat set" where
  "nodes E = {node E p | p. valid p \<and> node E p \<noteq> NO_SECTOR}"

definition inner_nodes :: "entries \<Rightarrow> nat set" where
  "inner_nodes E = {node E p | p. valid p \<and> length p < REDIRECTION_LEVEL \<and> node E p \<noteq> NO_SECTOR}"

definition tree_inj :: "entries \<Rightarrow> bool" where
  "tree_inj E \<longleftrightarrow> (\<forall>p q. valid p \<longrightarrow> valid q \<longrightarrow> node E p \<noteq> NO_SECTOR \<longrightarrow> node E p = node E q \<longrightarrow> p = q)"

lemma valid_Cons: "valid (b # p) \<Longrightarrow> p \<noteq> [] \<Longrightarrow> valid p \<and> length p < REDIRECTION_LEVEL \<and> b < 128"
  by (simp add: valid_def)

lemma valid_pos: "valid (b # p) \<Longrightarrow> b < 128"
  by (simp add: valid_def)

lemma inner_subset: "inner_nodes E \<subseteq> nodes E"
  by (auto simp: inner_nodes_def nodes_def)

lemma node_in_nodes: "valid p \<Longrightarrow> node E p \<noteq> NO_SECTOR \<Longrightarrow> node E p \<in> nodes E"
  by (auto simp: nodes_def)

lemma node_in_inner: "valid p \<Longrightarrow> length p < REDIRECTION_LEVEL \<Longrightarrow> node E p \<noteq> NO_SECTOR \<Longrightarrow> node E p \<in> inner_nodes E"
  by (auto simp: inner_nodes_def)

lemma node_leaf: "tree_inj E \<Longrightarrow> valid p \<Longrightarrow> length p = REDIRECTION_LEVEL \<Longrightarrow> node E p \<noteq> NO_SECTOR \<Longrightarrow> node E p \<notin> inner_nodes E"
  unfolding tree_inj_def inner_nodes_def by fastforce

lemma node_NO_append: "node E p = NO_SECTOR \<Longrightarrow> p \<noteq> [] \<Longrightarrow> node E (q @ p) = NO_SECTOR"
  by (induction q) simp_all

text \<open>The tree only depends on the inode and on the index sectors.\<close>

lemma node_cong:
  assumes "\<And>j. j < ON_INODE_DIR_SIZE \<Longrightarrow> E' None j = E None j"
    and "\<And>x j. x \<in> inner_nodes E \<Longrightarrow> j < 128 \<Longrightarrow> E' (Some x) j = E (Some x) j"
  shows "valid p \<Longrightarrow> node E' p = node E p"
proof (induction p)
  case (Cons b p)
  show ?case
  proof (cases "p = []")
    case True then show ?thesis using Cons.prems assms(1) by (simp add: valid_def)
  next
    case False
    then have "valid p" "length p < REDIRECTION_LEVEL" "b < 128" using valid_Cons [OF Cons.prems] by auto
    then show ?thesis using False Cons.IH assms(2) node_in_inner [of p E] by auto
  qed
qed simp

lemma nodes_cong:
  assumes "\<And>p. valid p \<Longrightarrow> node E' p = node E p"
  shows "nodes E' = nodes E" "inner_nodes E' = inner_nodes E" "tree_inj E' = tree_inj E"
proof -
  show "nodes E' = nodes E" using assms unfolding nodes_def by (metis (no_types, lifting))
  show "inner_nodes E' = inner_nodes E" using assms unfolding inner_nodes_def by (metis (no_types, lifting))
  show "tree_inj E' = tree_inj E" using assms unfolding tree_inj_def by simp
qed

text \<open>Filling an empty entry with a fresh sector adds one node.\<close>

lemma node_extend:
  assumes inj: "tree_inj E" and v: "valid (b # p)" and par: "p \<noteq> [] \<Longrightarrow> node E p \<noteq> NO_SECTOR"
    and emp: "node E (b # p) = NO_SECTOR" and y: "y \<notin> nodes E"
    and root: "\<And>j. j < ON_INODE_DIR_SIZE \<Longrightarrow> E' None j = (if loc E p = None \<and> j = b then y else E None j)"
    and inner: "\<And>x j. x \<in> inner_nodes E \<Longrightarrow> j < 128 \<Longrightarrow> E' (Some x) j = (if loc E p = Some x \<and> j = b then y else E (Some x) j)"
    and new: "\<And>j. length (b # p) < REDIRECTION_LEVEL \<Longrightarrow> j < 128 \<Longrightarrow> E' (Some y) j = NO_SECTOR"
  shows "valid q \<Longrightarrow> node E' q = (if q = b # p then y else node E q)"
proof (induction q)
  case (Cons j r)
  show ?case
  proof (cases "r = []")
    case True
    then have "j < ON_INODE_DIR_SIZE" using Cons.prems by (simp add: valid_def)
    then show ?thesis using True root by (auto simp: loc_def)
  next
    case False
    then have r: "valid r" "length r < REDIRECTION_LEVEL" "j < 128" using valid_Cons [OF Cons.prems] by auto
    show ?thesis
    proof (cases "r = b # p")
      case True
      then have "node E' r = y" using Cons.IH r(1) by simp
      moreover have "E' (Some y) j = NO_SECTOR" using new r(2,3) True by simp
      moreover have "node E (j # r) = NO_SECTOR" using emp True by simp
      moreover have "j # r \<noteq> b # p" using True by auto
      ultimately show ?thesis using False by auto
    next
      case ne: False
      then have x: "node E' r = node E r" using Cons.IH r(1) by simp
      show ?thesis
      proof (cases "node E r = NO_SECTOR")
        case True then show ?thesis using False x par by auto
      next
        case some: False
        then have ent: "E' (Some (node E r)) j = (if loc E p = Some (node E r) \<and> j = b then y else E (Some (node E r)) j)"
          using inner node_in_inner [OF r(1,2)] r(3) by simp
        have "loc E p = Some (node E r) \<longleftrightarrow> p = r"
          using inj v par some r(1) False valid_Cons [OF v] unfolding tree_inj_def loc_def by auto
        then show ?thesis using False some x ent by auto
      qed
    qed
  qed
qed simp

lemma tree_extend:
  assumes inj: "tree_inj E" and v: "valid (b # p)" and y: "y \<notin> nodes E" "y \<noteq> NO_SECTOR"
    and upd: "\<And>q. valid q \<Longrightarrow> node E' q = (if q = b # p then y else node E q)" and emp: "node E (b # p) = NO_SECTOR"
  shows "tree_inj E'" "nodes E' = insert y (nodes E)"
    "inner_nodes E' = (if length (b # p) < REDIRECTION_LEVEL then insert y (inner_nodes E) else inner_nodes E)"
proof -
  show "tree_inj E'" unfolding tree_inj_def
  proof (intro allI impI)
    fix q r assume a: "valid q" "valid r" "node E' q \<noteq> NO_SECTOR" "node E' q = node E' r"
    have "y \<noteq> node E q" "y \<noteq> node E r" using y a(1,2) node_in_nodes [of q E] node_in_nodes [of r E] by auto
    then show "q = r" using a upd inj y(2) unfolding tree_inj_def by (metis (full_types))
  qed
  show "nodes E' = insert y (nodes E)"
  proof (intro set_eqI iffI)
    fix x assume "x \<in> nodes E'"
    then show "x \<in> insert y (nodes E)" using upd unfolding nodes_def by (auto split: if_splits)
  next
    fix x assume "x \<in> insert y (nodes E)"
    then consider "x = y" | q where "valid q" "node E q \<noteq> NO_SECTOR" "x = node E q" unfolding nodes_def by auto
    then show "x \<in> nodes E'"
    proof cases
      case 1 then show ?thesis using upd [OF v] v y(2) node_in_nodes [of "b # p" E'] by simp
    next
      case (2 q)
      then have "q \<noteq> b # p" using emp by auto
      then show ?thesis using 2 upd node_in_nodes [of q E'] by simp
    qed
  qed
  show "inner_nodes E' = (if length (b # p) < REDIRECTION_LEVEL then insert y (inner_nodes E) else inner_nodes E)"
  proof (intro set_eqI iffI)
    fix x assume "x \<in> inner_nodes E'"
    then show "x \<in> (if length (b # p) < REDIRECTION_LEVEL then insert y (inner_nodes E) else inner_nodes E)"
      using upd unfolding inner_nodes_def by (auto split: if_splits)
  next
    fix x assume x: "x \<in> (if length (b # p) < REDIRECTION_LEVEL then insert y (inner_nodes E) else inner_nodes E)"
    then consider "x = y" "length (b # p) < REDIRECTION_LEVEL"
      | q where "valid q" "node E q \<noteq> NO_SECTOR" "x = node E q" "length q < REDIRECTION_LEVEL"
      unfolding inner_nodes_def by (auto split: if_splits)
    then show "x \<in> inner_nodes E'"
    proof cases
      case 1 then show ?thesis using upd [OF v] v y(2) node_in_inner [of "b # p" E'] by simp
    next
      case (2 q)
      then have "q \<noteq> b # p" using emp by auto
      then show ?thesis using 2 upd node_in_inner [of q E'] by simp
    qed
  qed
qed

section \<open>Words of sectors\<close>

lemma word_at_put_word: "n < 2 ^ 32 \<Longrightarrow> word_at (put_word d j n) i = (if i = j then n else word_at d i)"
proof (cases "i = j")
  case True
  assume "n < 2 ^ 32"
  then show ?thesis using True by (simp add: word_at_def put_word_def read32_write32_same unat_of_nat take_bit_nat_eq_self)
next
  case False
  then have "4 * j + 4 \<le> 4 * i \<or> 4 * i + 4 \<le> 4 * j" by arith
  then show ?thesis using False by (simp add: word_at_def put_word_def read32_write32_other)
qed

lemma word_at_cong: "(\<And>k. k < 512 \<Longrightarrow> d' k = d k) \<Longrightarrow> j < 128 \<Longrightarrow> word_at d' j = word_at d j"
  unfolding word_at_def by (intro arg_cong [where f = unat] read32_cong) simp

lemma word_at_clip [simp]: "j < 128 \<Longrightarrow> word_at (clip d) j = word_at d j"
  by (intro word_at_cong) (simp_all add: clip_def BLOCK_SECTOR_SIZE_def)

lemma put_word_bytes: "put_word d j n k = (if 4 * j \<le> k \<and> k < 4 * j + 4 then put_word (\<lambda>_. 0) j n k else d k)"
  by (auto simp: put_word_def write32_def)

lemma word_at_fill: "n < 2 ^ 32 \<Longrightarrow> word_at (fill_words n m d) j = (if j < m then n else word_at d j)"
  by (induction m) (auto simp: word_at_put_word)

lemma put_word_0: "4 * j \<le> k \<Longrightarrow> k < 4 * j + 4 \<Longrightarrow> put_word d j 0 k = 0"
  by (simp add: put_word_def write32_def)

lemma fill_0: "k < 4 * m \<Longrightarrow> fill_words 0 m d k = 0"
proof (induction m)
  case (Suc m)
  show ?case
  proof (cases "k < 4 * m")
    case True then show ?thesis using Suc.IH put_word_bytes [of "fill_words 0 m d" m 0 k] by simp
  next
    case False then show ?thesis using Suc.prems put_word_0 [of m k "fill_words 0 m d"] by simp
  qed
qed simp

lemma in_sector_put_word: "in_sector (\<lambda>d. put_word d j n)"
  by (simp add: in_sector_def put_word_def write32_def)

lemma in_sector_fill: "in_sector (fill_words n m)"
proof (induction m)
  case (Suc m)
  then show ?case using in_sector_put_word [of m n] by (simp add: in_sector_def)
qed (simp add: in_sector_def)

lemma in_sector_comp: "in_sector f \<Longrightarrow> in_sector g \<Longrightarrow> in_sector (\<lambda>d. f (g d))"
  by (simp add: in_sector_def)

lemma in_sector_id: "in_sector (\<lambda>d. d)"
  by (simp add: in_sector_def)

text \<open>The entries that an inode with bytes \<open>d\<close> and the sectors \<open>V\<close> hold.\<close>

definition ent :: "(nat \<Rightarrow> u8) \<Rightarrow> (nat \<Rightarrow> nat \<Rightarrow> u8) \<Rightarrow> entries" where
  "ent d V L j = (case L of None \<Rightarrow> dir_at d j | Some x \<Rightarrow> word_at (V x) j)"

lemma ent_simps [simp]: "ent d V None j = dir_at d j" "ent d V (Some x) j = word_at (V x) j"
  by (simp_all add: ent_def)

lemma dir_at_cong: "(\<And>k. k < 512 \<Longrightarrow> d' k = d k) \<Longrightarrow> j < ON_INODE_DIR_SIZE \<Longrightarrow> dir_at d' j = dir_at d j"
  unfolding dir_at_def by (intro word_at_cong) (simp_all add: ON_INODE_DIR_SIZE_def)

lemma dir_at_put_dir: "n < 2 ^ 32 \<Longrightarrow> dir_at (put_dir d j n) i = (if i = j then n else dir_at d i)"
  by (simp add: dir_at_def put_dir_def word_at_put_word)

lemma in_sector_put_dir: "in_sector (\<lambda>d. put_dir d j n)"
  unfolding put_dir_def by (rule in_sector_put_word)

text \<open>Changes outside the index sectors do not move the tree.\<close>

lemma ent_node_cong:
  assumes "\<And>k. k < 512 \<Longrightarrow> d' k = d k" "\<And>x k. x \<in> inner_nodes (ent d V) \<Longrightarrow> k < 512 \<Longrightarrow> V' x k = V x k"
  shows "valid p \<Longrightarrow> node (ent d' V') p = node (ent d V) p"
  using assms by (intro node_cong) (auto intro: dir_at_cong word_at_cong)

end
