(* ===== verification/InodeOps.thy ===== *)
theory InodeOps
  imports InodeTree
begin

text \<open>
  The operations of \<^verbatim>\<open>inode.c\<close> through the buffer cache: sectors that are taken, used and given back
  leave the cache as it was but for the bytes written, the search of a sector follows the tree,
  and reading and writing in place act on the bytes of the file.
\<close>

section \<open>Holding sectors\<close>

definition fsv :: "fs \<Rightarrow> nat \<Rightarrow> nat \<Rightarrow> u8" where
  "fsv s = view (buffer_cache s)"

definition fsz :: "fs \<Rightarrow> nat" where
  "fsz s = device_size (buffer_cache s)"

text \<open>At least \<open>n\<close> more sectors can be taken, and only sectors of \<open>H\<close> are held.\<close>

definition calm :: "nat \<Rightarrow> nat set \<Rightarrow> fs \<Rightarrow> bool" where
  "calm n H s \<longleftrightarrow> cache_ok (buffer_cache s) \<and> n \<le> card (unowned (buffer_cache s)) \<and>
     (\<forall>e < SECTOR_COUNT. owners (sectors (buffer_cache s) ! e) \<noteq> 0 \<longrightarrow>
        slot_index (buffer_cache s) e \<in> H \<and> owners (sectors (buffer_cache s) ! e) + n \<le> 1000)"

text \<open>Only the cache and the free map changed, and who holds which sector did not.\<close>

definition frame :: "nat set \<Rightarrow> fs \<Rightarrow> fs \<Rightarrow> bool" where
  "frame X s s' \<longleftrightarrow> cache_ok (buffer_cache s') \<and> keeps X (buffer_cache s) (buffer_cache s') \<and>
     inodes s' = inodes s \<and> open_inodes s' = open_inodes s \<and> disk_inode s' = disk_inode s"

lemma frame_refl: "cache_ok (buffer_cache s) \<Longrightarrow> frame X s s"
  by (simp add: frame_def)

lemma frame_trans: "frame X a b \<Longrightarrow> frame X b c \<Longrightarrow> frame X a c"
  unfolding frame_def using keeps_trans by metis

lemma frame_mono: "frame X a b \<Longrightarrow> X \<subseteq> Y \<Longrightarrow> frame Y a b"
  unfolding frame_def using keeps_mono by blast

lemma frame_size: "frame X s s' \<Longrightarrow> fsz s' = fsz s"
  by (auto simp: frame_def fsz_def dest: keeps_size)

lemma frame_inodes: "frame X s s' \<Longrightarrow> inodes s' = inodes s"
  by (simp add: frame_def)

lemma frame_map [simp]: "frame X s (s'\<lparr>fs_map := m\<rparr>) = frame X s s'" "fsv (s\<lparr>fs_map := m\<rparr>) = fsv s" "fsz (s\<lparr>fs_map := m\<rparr>) = fsz s"
  "calm n H (s\<lparr>fs_map := m\<rparr>) = calm n H s"
  by (simp_all add: frame_def fsv_def fsz_def calm_def)

lemma calm_cache_ok: "calm n H s \<Longrightarrow> cache_ok (buffer_cache s)"
  by (simp add: calm_def)

lemma calm_size: "calm n H s \<Longrightarrow> fsz s < NO_SECTOR"
  by (simp add: calm_def cache_ok_def cache_inv_def fsz_def)

lemma calm_mono: "calm n H s \<Longrightarrow> m \<le> n \<Longrightarrow> H \<subseteq> H' \<Longrightarrow> calm m H' s"
  unfolding calm_def by (meson add_le_mono le_refl le_trans subsetD)

lemma calm_frame:
  assumes "calm n H s" "frame X s s'"
  shows "calm n H s'"
proof -
  let ?c = "buffer_cache s" let ?c' = "buffer_cache s'"
  have k: "same_holds ?c ?c'" "cache_ok ?c'" using assms(2) by (simp_all add: frame_def keeps_def)
  then have un: "unowned ?c' = unowned ?c" unfolding same_holds_def by blast
  have "slot_index ?c' e \<in> H \<and> owners (sectors ?c' ! e) + n \<le> 1000" if a: "e < SECTOR_COUNT" "owners (sectors ?c' ! e) \<noteq> 0" for e
  proof -
    have "e \<notin> unowned ?c'" using a by (simp add: unowned_def)
    then have "e \<notin> unowned ?c" using un by simp
    then have o: "owners (sectors ?c ! e) \<noteq> 0" using a(1) by (simp add: unowned_def)
    then have "slot_index ?c' e = slot_index ?c e" "owners (sectors ?c' ! e) = owners (sectors ?c ! e)"
      using k(1) unfolding same_holds_def by blast+
    then show ?thesis using assms(1) a(1) o by (simp add: calm_def)
  qed
  then show ?thesis using assms(1) k(2) un by (simp add: calm_def)
qed

lemma calm_can_take:
  assumes "calm n H s" "0 < n" "i < fsz s" "i \<notin> H \<or> \<not> block"
  shows "can_take i block (buffer_cache s)"
proof -
  let ?c = "buffer_cache s"
  have inv: "cache_inv ?c" and sem: "0 < cache_sem ?c" using assms(1,2) by (auto simp: calm_def cache_ok_def)
  have i: "i < device_size ?c" using assms(3) by (simp add: fsz_def)
  show ?thesis
  proof (cases "slot_of ?c i")
    case None then show ?thesis using i sem by (simp add: can_take_def)
  next
    case (Some e)
    then have e: "e < SECTOR_COUNT" "slot_index ?c e = i" using slot_of_Some [OF inv i, of e] by simp_all
    then have ok: "slot_ok ?c e" using inv by (simp add: cache_inv_def)
    have "owners (sectors ?c ! e) \<le> 1000 \<and> (block \<longrightarrow> owners (sectors ?c ! e) = 0)"
      using assms(1,4) e by (cases "owners (sectors ?c ! e) = 0") (auto simp: calm_def)
    then show ?thesis using Some i sem ok by (auto simp: can_take_def slot_ok_def)
  qed
qed

text \<open>Sector \<open>i\<close> has been taken in state \<open>s\<close>, into slot \<open>e\<close>, which led to \<open>s1\<close>.\<close>

definition held :: "nat \<Rightarrow> bool \<Rightarrow> fs \<Rightarrow> fs \<Rightarrow> nat \<Rightarrow> bool" where
  "held i block s s1 e \<longleftrightarrow> cache_ok (buffer_cache s) \<and> can_take i block (buffer_cache s) \<and> i \<noteq> NO_SECTOR \<and>
     taken i block (buffer_cache s) (buffer_cache s1) e \<and> s1 = s\<lparr>buffer_cache := buffer_cache s1\<rparr>"

lemma take_held:
  assumes "calm n H s" "0 < n" "i < fsz s" "i \<notin> H \<or> \<not> block"
  shows "\<exists>s1 e. get_sector_handle mem i block s = Some (s1, Some e) \<and> held i block s s1 e \<and> calm (n - 1) (insert i H) s1 \<and> fsv s1 = fsv s"
proof -
  let ?c = "buffer_cache s"
  have ok: "cache_ok ?c" using assms(1) by (rule calm_cache_ok)
  note ct = calm_can_take [OF assms]
  obtain c1 e where t: "take_sector mem i block ?c = Some (c1, e)" "taken i block ?c c1 e" using take_sector_ok [OF ok ct] by blast
  have i: "i \<noteq> NO_SECTOR" using assms(3) calm_size [OF assms(1)] by simp
  let ?s1 = "s\<lparr>buffer_cache := c1\<rparr>"
  have t': "cache_ok c1" "unowned c1 = unowned ?c - {e}" "slot_index c1 e = i" "owners (sectors c1 ! e) = owners (sectors ?c ! e) + 1"
    "\<forall>e'. e' \<noteq> e \<longrightarrow> owners (sectors ?c ! e') \<noteq> 0 \<longrightarrow> sectors c1 ! e' = sectors ?c ! e'" "e < SECTOR_COUNT" "view c1 = view ?c"
    using t(2) unfolding taken_def by blast+
  have n64: "n \<le> 64"
  proof -
    have "card (unowned ?c) \<le> card {..<SECTOR_COUNT}" by (rule card_mono) (auto simp: unowned_def)
    then show ?thesis using assms(1) by (simp add: calm_def SECTOR_COUNT_def)
  qed
  have "n - 1 \<le> card (unowned c1)" using assms(1) t'(2) by (auto simp: calm_def card_Diff_singleton_if)
  moreover have "slot_index c1 e' \<in> insert i H \<and> owners (sectors c1 ! e') + (n - 1) \<le> 1000"
    if a: "e' < SECTOR_COUNT" "owners (sectors c1 ! e') \<noteq> 0" for e'
  proof (cases "e' = e")
    case True
    have "owners (sectors ?c ! e) + n \<le> 1000" if "owners (sectors ?c ! e) \<noteq> 0" using assms(1) that t'(6) by (simp add: calm_def)
    then show ?thesis using True t'(3,4) n64 assms(2) by (cases "owners (sectors ?c ! e) = 0") auto
  next
    case False
    have "e' \<notin> unowned c1" using a by (simp add: unowned_def)
    then have "e' \<notin> unowned ?c" using False t'(2) by blast
    then have o: "owners (sectors ?c ! e') \<noteq> 0" using a(1) by (simp add: unowned_def)
    then have eq: "sectors c1 ! e' = sectors ?c ! e'" using False t'(5) by blast
    have "slot_index ?c e' \<in> H" "owners (sectors ?c ! e') + n \<le> 1000" using assms(1) a(1) o unfolding calm_def by blast+
    then show ?thesis unfolding slot_index_def eq by simp
  qed
  ultimately have "calm (n - 1) (insert i H) ?s1" using t'(1) by (simp add: calm_def)
  moreover have "get_sector_handle mem i block s = Some (?s1, Some e)" using t(1) i by (simp add: get_sector_handle_def)
  moreover have "held i block s ?s1 e" using ok ct i t(2) by (simp add: held_def)
  ultimately show ?thesis using t'(7) by (intro exI [of _ ?s1] exI [of _ e]) (simp add: fsv_def)
qed

lemma held_slot:
  assumes "held i block s s1 e" "frame X s1 s2"
  shows "e < SECTOR_COUNT" "slot_index (buffer_cache s2) e = i" "0 < owners (sectors (buffer_cache s2) ! e)" "i < fsz s2"
    "cache_ok (buffer_cache s2)"
proof -
  let ?c1 = "buffer_cache s1" let ?c2 = "buffer_cache s2"
  have t: "e < SECTOR_COUNT" "slot_index ?c1 e = i" "0 < owners (sectors ?c1 ! e)" "device_size ?c1 = device_size (buffer_cache s)"
    using assms(1) unfolding held_def taken_def by blast+
  have k: "same_holds ?c1 ?c2" and ok: "cache_ok ?c2" using assms(2) by (simp_all add: frame_def keeps_def)
  then have "slot_index ?c2 e = slot_index ?c1 e" "owners (sectors ?c2 ! e) = owners (sectors ?c1 ! e)" "device_size ?c2 = device_size ?c1"
    using t(3) unfolding same_holds_def by blast+
  then show "e < SECTOR_COUNT" "slot_index ?c2 e = i" "0 < owners (sectors ?c2 ! e)" "i < fsz s2" "cache_ok ?c2"
    using t ok assms(1) by (simp_all add: fsz_def held_def can_take_def)
qed

text \<open>The slot shows the bytes of its sector for as long as it is held.\<close>

lemma held_data:
  assumes "held i block s s1 e" "frame X s1 s2" "k < 512"
  shows "sector_data e s2 k = fsv s2 i k"
proof -
  note h = held_slot [OF assms(1,2)]
  have "cache_inv (buffer_cache s2)" using h(5) by (simp add: cache_ok_def)
  then show ?thesis using view_cached [of "buffer_cache s2" e k] h assms(3)
    by (simp add: sector_data_def fsv_def fsz_def BLOCK_SECTOR_SIZE_def)
qed

lemma held_set:
  assumes "held i block s s1 e" "frame {e} s1 s2"
  shows "frame {e} s1 (set_data e f s2)" "fsv (set_data e f s2) = (fsv s2)(i := clip f)" "fs_map (set_data e f s2) = fs_map s2"
proof -
  note h = held_slot [OF assms]
  have "frame {e} s2 (set_data e f s2)"
    using put_bytes_ok(1) [OF h(5,1,3)] keeps_put_bytes [OF h(5,1)] by (simp add: frame_def set_data_def)
  then show "frame {e} s1 (set_data e f s2)" using frame_trans [OF assms(2)] by blast
  show "fsv (set_data e f s2) = (fsv s2)(i := clip f)"
    using put_bytes_ok(2) [OF h(5,1,3), of f] h(2) by (simp add: fsv_def set_data_def clip_def fun_eq_iff)
  show "fs_map (set_data e f s2) = fs_map s2" by (simp add: set_data_def)
qed

lemma held_release:
  assumes "held i block s s1 e" "frame {e} s1 s2" "changed \<or> frame {} s1 s2"
  shows "\<exists>s3. release_sector_handle i (Some e) changed block s2 = Some s3 \<and> frame {} s s3 \<and> fsv s3 = fsv s2 \<and> fs_map s3 = fs_map s2"
proof -
  have h: "cache_ok (buffer_cache s)" "can_take i block (buffer_cache s)" "taken i block (buffer_cache s) (buffer_cache s1) e"
    "i \<noteq> NO_SECTOR" "s1 = s\<lparr>buffer_cache := buffer_cache s1\<rparr>" using assms(1) unfolding held_def by blast+
  have f: "cache_ok (buffer_cache s2)" "keeps {e} (buffer_cache s1) (buffer_cache s2)"
    "changed \<or> keeps {} (buffer_cache s1) (buffer_cache s2)" using assms(2,3) unfolding frame_def by blast+
  have "inodes s1 = inodes s" "open_inodes s1 = open_inodes s" "disk_inode s1 = disk_inode s" by (subst h(5), simp)+
  then have g: "inodes s2 = inodes s" "open_inodes s2 = open_inodes s" "disk_inode s2 = disk_inode s"
    using assms(2) by (simp_all add: frame_def)
  obtain c3 where "release_sector e i changed block (buffer_cache s2) = Some c3" "cache_ok c3" "view c3 = view (buffer_cache s2)"
    "keeps {} (buffer_cache s) c3" using take_release [OF h(1-3) f] by blast
  then show ?thesis using h(4) g
    by (intro exI [of _ "s2\<lparr>buffer_cache := c3\<rparr>"]) (simp add: release_sector_handle_def frame_def fsv_def)
qed

lemma held_start: "held i block s s1 e \<Longrightarrow> frame X s1 s1"
  by (auto simp: held_def taken_def intro: frame_refl)

lemma held_fields:
  assumes "held i block s s1 e"
  shows "fs_map s1 = fs_map s" "inodes s1 = inodes s" "open_inodes s1 = open_inodes s" "disk_inode s1 = disk_inode s" "fsz s1 = fsz s"
proof -
  have e: "s1 = s\<lparr>buffer_cache := buffer_cache s1\<rparr>" and sz: "device_size (buffer_cache s1) = device_size (buffer_cache s)"
    using assms unfolding held_def taken_def by blast+
  show "fs_map s1 = fs_map s" "inodes s1 = inodes s" "open_inodes s1 = open_inodes s" "disk_inode s1 = disk_inode s"
    by (subst e, simp)+
  show "fsz s1 = fsz s" using sz by (simp add: fsz_def)
qed

section \<open>Searching\<close>

definition path :: "nat \<Rightarrow> nat list" where
  "path idx = [idx mod 128, idx div 128 mod 128, idx div 16384 mod 128]"

definition MAX_INDEX :: nat where "MAX_INDEX = 125 * 16384"

lemma top_less: "idx div 16384 < 125 \<longleftrightarrow> idx < MAX_INDEX"
  by (simp add: MAX_INDEX_def div_less_iff_less_mult)

lemma redirection_path: "get_redirection_ids idx = (rev (path idx), idx < MAX_INDEX)"
proof -
  have q: "idx div 128 div 128 = idx div 16384" by (simp flip: div_mult2_eq)
  have "(m div 128 = 0 \<and> m mod 128 < 125) \<longleftrightarrow> m < 125" for m :: nat by (auto simp: div_eq_0_iff)
  from this [of "idx div 16384"] show ?thesis
    by (simp add: get_redirection_ids_def path_def Let_def ON_INODE_DIR_SIZE_def q top_less del: div_mult2_eq)
qed

lemma valid_path: "idx < MAX_INDEX \<Longrightarrow> valid (path idx)"
  using top_less [of idx] by (simp add: valid_def path_def REDIRECTION_LEVEL_def ON_INODE_DIR_SIZE_def)

lemma path_value:
  assumes "idx < MAX_INDEX"
  shows "idx = path idx ! 0 + 128 * (path idx ! 1 + 128 * (path idx ! 2))"
proof -
  have q: "idx div 128 div 128 = idx div 16384" by (simp flip: div_mult2_eq)
  have "128 * (idx div 16384) + idx div 128 mod 128 = idx div 128" using mult_div_mod_eq [of 128 "idx div 128"] unfolding q .
  moreover have "128 * (idx div 128) + idx mod 128 = idx" by (rule mult_div_mod_eq)
  moreover have "path idx ! 0 = idx mod 128" "path idx ! 1 = idx div 128 mod 128" "path idx ! 2 = idx div 16384"
    using top_less [of idx] assms by (simp_all add: path_def)
  moreover have "128 * c + b = q \<Longrightarrow> 128 * q + a = i \<Longrightarrow> i = a + 128 * (b + 128 * c)" for a b c q i :: nat by simp
  ultimately show ?thesis by metis
qed

lemma path_inj: "i < MAX_INDEX \<Longrightarrow> j < MAX_INDEX \<Longrightarrow> path i = path j \<Longrightarrow> i = j"
  using path_value by metis

lemma length_path [simp]: "length (path idx) = REDIRECTION_LEVEL" "path idx \<noteq> []"
  by (simp_all add: path_def REDIRECTION_LEVEL_def)

lemma node_in_range: "nodes E \<subseteq> {..<n} \<Longrightarrow> valid p \<Longrightarrow> node E p \<noteq> NO_SECTOR \<Longrightarrow> node E p < n"
  using node_in_nodes by blast

text \<open>Reading a word of a sector without keeping it.\<close>

lemma peek_word:
  assumes "calm n H s" "0 < n" "x < fsz s" "x \<notin> H \<or> \<not> block" "j < 128"
  shows "\<exists>s1 e s2. get_sector_handle mem x block s = Some (s1, Some e) \<and> word_at (sector_data e s1) j = word_at (fsv s x) j \<and>
    (\<forall>k < 512. sector_data e s1 k = fsv s x k) \<and> held x block s s1 e \<and>
    release_sector_handle x (Some e) False block s1 = Some s2 \<and> frame {} s s2 \<and> fsv s2 = fsv s \<and> fs_map s2 = fs_map s"
proof -
  obtain s1 e where t: "get_sector_handle mem x block s = Some (s1, Some e)" "held x block s s1 e" "fsv s1 = fsv s"
    using take_held [OF assms(1-4)] by blast
  obtain s2 where r: "release_sector_handle x (Some e) False block s1 = Some s2" "frame {} s s2" "fsv s2 = fsv s1" "fs_map s2 = fs_map s1"
    using held_release [OF t(2) held_start [OF t(2)], of False] held_start [OF t(2)] by blast
  have d: "\<forall>k < 512. sector_data e s1 k = fsv s x k" using held_data [OF t(2) held_start [OF t(2)]] t(3) by simp
  then have "word_at (sector_data e s1) j = word_at (fsv s x) j" using assms(5) by (intro word_at_cong) simp_all
  then show ?thesis using t r d held_fields(1) [OF t(2)] by auto
qed

lemma seek_ok:
  assumes "calm n H s" "0 < n" "nodes (ent d (fsv s)) \<subseteq> {..<fsz s}" "valid (rev ids @ p)" "p \<noteq> []"
  shows "\<exists>s' par' pos'. seek_levels mem ids (node (ent d (fsv s)) p) par pos s = Some (s', node (ent d (fsv s)) (rev ids @ p), par', pos') \<and>
    frame {} s s' \<and> fsv s' = fsv s \<and> fs_map s' = fs_map s \<and>
    (ids \<noteq> [] \<longrightarrow> node (ent d (fsv s)) (rev ids @ p) \<noteq> NO_SECTOR \<longrightarrow> par' = node (ent d (fsv s)) (tl (rev ids @ p)))"
  using assms
proof (induction ids arbitrary: p par pos s)
  case Nil then show ?case by (simp add: frame_refl calm_cache_ok)
next
  case (Cons i ids)
  let ?E = "ent d (fsv s)"
  have v: "valid (rev ids @ i # p)" using Cons.prems(4) by simp
  have vp: "valid p" "i < 128" using v Cons.prems(5) by (auto simp: valid_def)
  show ?case
  proof (cases "node ?E p = NO_SECTOR")
    case True
    have "rev (i # ids) @ p = (rev ids @ [i]) @ p" by simp
    then have "node ?E (rev (i # ids) @ p) = NO_SECTOR" using node_NO_append [OF True Cons.prems(5)] by metis
    then show ?thesis using True Cons.prems(1) by (simp add: get_sector_handle_def frame_refl calm_cache_ok)
  next
    case False
    have lt: "node ?E p < fsz s" using node_in_range [OF Cons.prems(3) vp(1) False] .
    obtain s1 e s2 where t: "get_sector_handle mem (node ?E p) False s = Some (s1, Some e)"
      "word_at (sector_data e s1) i = word_at (fsv s (node ?E p)) i"
      "release_sector_handle (node ?E p) (Some e) False False s1 = Some s2" "frame {} s s2" "fsv s2 = fsv s" "fs_map s2 = fs_map s"
      using peek_word [OF Cons.prems(1,2) lt _ vp(2), of False] by blast
    have nx: "word_at (sector_data e s1) i = node (ent d (fsv s2)) (i # p)" using t(2,5) False Cons.prems(5) by simp
    have sz: "fsz s2 = fsz s" using frame_size [OF t(4)] .
    have pre: "nodes (ent d (fsv s2)) \<subseteq> {..<fsz s2}" using Cons.prems(3) t(5) sz by simp
    have step: "seek_levels mem (i # ids) (node ?E p) par pos s = seek_levels mem ids (node (ent d (fsv s2)) (i # p)) (node ?E p) i s2"
      using t(1,3) nx by simp
    obtain s' par' pos' where
      ih: "seek_levels mem ids (node (ent d (fsv s2)) (i # p)) (node ?E p) i s2 = Some (s', node (ent d (fsv s2)) (rev ids @ i # p), par', pos')"
        "frame {} s2 s'" "fsv s' = fsv s2" "fs_map s' = fs_map s2"
        "ids \<noteq> [] \<longrightarrow> node (ent d (fsv s2)) (rev ids @ i # p) \<noteq> NO_SECTOR \<longrightarrow> par' = node (ent d (fsv s2)) (tl (rev ids @ i # p))"
      using Cons.IH [OF calm_frame [OF Cons.prems(1) t(4)] Cons.prems(2) pre v, of "node ?E p" i] by blast
    have "par' = node ?E (tl (rev (i # ids) @ p))" if "node ?E (rev ids @ i # p) \<noteq> NO_SECTOR"
      using ih(1,5) that t(5) by (cases "ids = []") auto
    then show ?thesis unfolding step using ih(1-4) t(5,6) frame_trans [OF t(4) ih(2)] by simp
  qed
qed

lemma get_inode_sector_ok:
  assumes "calm n H s" "0 < n" "nodes (ent d (fsv s)) \<subseteq> {..<fsz s}" "\<And>k. k < 512 \<Longrightarrow> disk_data p s k = d k"
  shows "\<exists>s' par pos. get_inode_sector mem p idx s =
      Some (s', if idx < MAX_INDEX then node (ent d (fsv s)) (path idx) else NO_SECTOR, par, pos) \<and>
    frame {} s s' \<and> fsv s' = fsv s \<and> fs_map s' = fs_map s \<and>
    (idx < MAX_INDEX \<longrightarrow> node (ent d (fsv s)) (path idx) \<noteq> NO_SECTOR \<longrightarrow> par = node (ent d (fsv s)) (tl (path idx)))"
proof (cases "idx < MAX_INDEX")
  case False
  then show ?thesis using assms(1) by (simp add: get_inode_sector_def redirection_path frame_refl calm_cache_ok)
next
  case True
  let ?a = "idx div 16384 mod 128"
  have v: "valid (path idx)" using valid_path [OF True] .
  then have a: "?a < ON_INODE_DIR_SIZE" by (simp add: valid_def path_def)
  have p: "path idx = rev [idx div 128 mod 128, idx mod 128] @ [?a]" by (simp add: path_def)
  have "dir_at (disk_data p s) ?a = node (ent d (fsv s)) [?a]" using dir_at_cong [OF assms(4) a] by simp
  then show ?thesis using True seek_ok [OF assms(1-3) v [unfolded p], of mem NO_SECTOR ?a]
    by (simp add: get_inode_sector_def redirection_path p)
qed

text \<open>An open file: the inode at \<open>a\<close>, its main sector, and the entries of its tree.\<close>

definition main_of :: "nat \<Rightarrow> fs \<Rightarrow> nat" where
  "main_of a s = isector (inodes s a)"

definition file_ent :: "nat \<Rightarrow> fs \<Rightarrow> entries" where
  "file_ent a s = ent (fsv s (main_of a s)) (fsv s)"

lemma byte_to_sector_ok:
  assumes "calm n H s" "1 < n" "nodes (file_ent a s) \<subseteq> {..<fsz s}" "main_of a s < fsz s" "0 \<le> pos" "pos < 2 ^ 31"
    and "ignore_length \<or> pos < ilength (inodes s a)" "nat pos div 512 < MAX_INDEX"
  shows "\<exists>s'. byte_to_sector mem a pos ignore_length s = Some (s', node (file_ent a s) (path (nat pos div 512))) \<and>
    frame {} s s' \<and> fsv s' = fsv s \<and> fs_map s' = fs_map s"
proof -
  let ?m = "main_of a s"
  have n0: "0 < n" using assms(2) by simp
  obtain s1 e where t: "get_sector_handle mem ?m False s = Some (s1, Some e)" "held ?m False s s1 e" "calm (n - 1) (insert ?m H) s1" "fsv s1 = fsv s"
    using take_held [OF assms(1) n0 assms(4), of False] by blast
  note f = held_fields [OF t(2)]
  have idx: "to_size (off_div pos) = nat pos div 512"
    using assms(5,6) by (simp add: to_size_def off_div_def nat_div_distrib)
  have "nodes (ent (fsv s ?m) (fsv s1)) \<subseteq> {..<fsz s1}" using assms(3) t(4) f(5) by (simp add: file_ent_def)
  from get_inode_sector_ok [OF t(3) _ this, of "Slot e" mem "nat pos div 512"] obtain s2 par ps where
    g: "get_inode_sector mem (Slot e) (nat pos div 512) s1 = Some (s2, node (file_ent a s) (path (nat pos div 512)), par, ps)"
      "frame {} s1 s2" "fsv s2 = fsv s" "fs_map s2 = fs_map s"
    using assms(2,8) held_data [OF t(2) held_start [OF t(2)]] t(4) f(1) by (auto simp: file_ent_def)
  obtain s3 where r: "release_sector_handle ?m (Some e) False False s2 = Some s3" "frame {} s s3" "fsv s3 = fsv s2" "fs_map s3 = fs_map s2"
    using held_release [OF t(2) frame_mono [OF g(2)], of False] g(2) by blast
  show ?thesis using assms(7) t(1) g r by (auto simp: byte_to_sector_def idx main_of_def Let_def)
qed

end
