(* ===== verification/InodeIO.thy ===== *)
theory InodeIO
  imports InodeOps
begin

text \<open>Reading and writing a file in place: the loops of \<^verbatim>\<open>inode_read_at\<close> and \<^verbatim>\<open>inode_write_at\<close>.\<close>

section \<open>Files\<close>

definition file_byte :: "nat \<Rightarrow> fs \<Rightarrow> nat \<Rightarrow> u8" where
  "file_byte a s k = fsv s (node (file_ent a s) (path (k div 512))) (k mod 512)"

text \<open>A file whose first \<open>len\<close> bytes have sectors.\<close>

definition file_ok :: "nat \<Rightarrow> int \<Rightarrow> fs \<Rightarrow> bool" where
  "file_ok a len s \<longleftrightarrow> main_of a s < fsz s \<and> nodes (file_ent a s) \<subseteq> {..<fsz s} \<and> tree_inj (file_ent a s) \<and>
     main_of a s \<notin> nodes (file_ent a s) \<and> 0 \<le> len \<and> len < 2 ^ 31 \<and>
     (\<forall>j. 512 * int j < len \<longrightarrow> j < MAX_INDEX \<and> node (file_ent a s) (path j) \<noteq> NO_SECTOR)"

definition same_tree :: "nat \<Rightarrow> fs \<Rightarrow> fs \<Rightarrow> bool" where
  "same_tree a s s' \<longleftrightarrow> main_of a s' = main_of a s \<and> fsz s' = fsz s \<and>
     (\<forall>p. valid p \<longrightarrow> node (file_ent a s') p = node (file_ent a s) p)"

lemma same_tree_refl [simp]: "same_tree a s s"
  by (simp add: same_tree_def)

lemma same_tree_trans: "same_tree a s s' \<Longrightarrow> same_tree a s' s'' \<Longrightarrow> same_tree a s s''"
  by (simp add: same_tree_def)

lemma same_tree_nodes:
  assumes "same_tree a s s'"
  shows "nodes (file_ent a s') = nodes (file_ent a s)" "inner_nodes (file_ent a s') = inner_nodes (file_ent a s)"
    "tree_inj (file_ent a s') = tree_inj (file_ent a s)"
  using assms by (auto intro!: nodes_cong simp: same_tree_def)

lemma same_tree_file_ok:
  assumes "same_tree a s s'" "file_ok a len s"
  shows "file_ok a len s'"
proof -
  have t: "main_of a s' = main_of a s" "fsz s' = fsz s" "\<And>p. valid p \<Longrightarrow> node (file_ent a s') p = node (file_ent a s) p"
    using assms(1) by (simp_all add: same_tree_def)
  have "node (file_ent a s') (path j) = node (file_ent a s) (path j)" if "j < MAX_INDEX" for j
    using t(3) [OF valid_path [OF that]] .
  then show ?thesis using assms(2) same_tree_nodes [OF assms(1)] t(1,2) unfolding file_ok_def by metis
qed

text \<open>Reading does not change a file.\<close>

lemma same_view:
  assumes "frame X s s'" "fsv s' = fsv s"
  shows "file_ent a s' = file_ent a s" "main_of a s' = main_of a s" "file_byte a s' = file_byte a s" "same_tree a s s'"
proof -
  show m: "main_of a s' = main_of a s" using frame_inodes [OF assms(1)] by (simp add: main_of_def)
  show e: "file_ent a s' = file_ent a s" by (simp add: file_ent_def m assms(2))
  show "file_byte a s' = file_byte a s" by (simp add: file_byte_def e assms(2) fun_eq_iff)
  show "same_tree a s s'" using frame_size [OF assms(1)] by (simp add: same_tree_def m e)
qed

lemma off_nonneg: "0 \<le> x \<Longrightarrow> off_div x = x div 512 \<and> off_mod x = x mod 512"
  by (simp add: off_div_def off_mod_def minus_div_mult_eq_mod [symmetric])

lemma nat_off: "0 \<le> x \<Longrightarrow> nat (off_mod x) = nat x mod 512 \<and> 0 \<le> off_mod x \<and> off_mod x < 512"
  by (simp add: off_nonneg nat_mod_distrib)

text \<open>A chunk stays within one sector.\<close>

lemma in_chunk:
  assumes "(o' :: nat) mod 512 + k < 512"
  shows "(o' + k) div 512 = o' div 512" "(o' + k) mod 512 = o' mod 512 + k"
proof -
  have "o' + k = 512 * (o' div 512) + (o' mod 512 + k)" by simp
  then show "(o' + k) div 512 = o' div 512" "(o' + k) mod 512 = o' mod 512 + k" using assms
    by (metis add.right_neutral div_less div_mult_self4 mod_less mod_mult_self4 zero_neq_numeral)+
qed

lemma same_sector:
  assumes "k div 512 = (o' :: nat) div 512"
  shows "(o' mod 512 \<le> k mod 512 \<longleftrightarrow> o' \<le> k) \<and> (k mod 512 < o' mod 512 + c \<longleftrightarrow> k < o' + c) \<and> k mod 512 - o' mod 512 = k - o'"
proof -
  have "(ro \<le> rk \<longleftrightarrow> 512 * q + ro \<le> 512 * q + rk) \<and> (rk < ro + c \<longleftrightarrow> 512 * q + rk < 512 * q + ro + c) \<and>
      rk - ro = (512 * q + rk) - (512 * q + ro)" for q rk ro :: nat by auto
  from this [of "o' mod 512" "k mod 512" "k div 512"] show ?thesis
    using mult_div_mod_eq [of 512 k] mult_div_mod_eq [of 512 o'] assms by metis
qed

lemma map_upt_split: "map g [0..<m] @ map (\<lambda>k. g (m + k)) [0..<n] = map g [0..<m + n]" for m n :: nat
  by (rule nth_equalityI) (auto simp: nth_append)

lemma sector_start: "0 \<le> x \<Longrightarrow> 512 * int (nat x div 512) \<le> x"
proof -
  assume "0 \<le> x"
  moreover have "512 * (nat x div 512) \<le> nat x" by simp
  ultimately show ?thesis by linarith
qed

section \<open>Reading\<close>

lemma read_loop_ok:
  assumes "calm n H s" "1 < n" "file_ok a (inode_length a s) s" "0 \<le> offset"
  shows "\<exists>s'. read_loop mem a m offset s = Some (s', map (\<lambda>k. file_byte a s (nat offset + k)) [0..<nat (min m (inode_length a s - offset))]) \<and>
    frame {} s s' \<and> fsv s' = fsv s \<and> fs_map s' = fs_map s"
  using assms
proof (induction "nat m" arbitrary: m offset s rule: less_induct)
  case less
  let ?len = "inode_length a s"
  note ok = less.prems(3) [unfolded file_ok_def]
  show ?case
  proof (cases "m > 0 \<and> offset < ?len")
    case False
    then have "min m (?len - offset) \<le> 0" by auto
    then show ?thesis using False calm_cache_ok [OF less.prems(1)]
      by (subst read_loop.simps) (auto simp: byte_to_sector_def inode_length_def chunk_size_def frame_refl min_def)
  next
    case True
    let ?c = "chunk_size m ?len offset"
    let ?j = "nat offset div 512" let ?o = "nat offset"
    note off = nat_off [OF less.prems(4)]
    have c: "0 < ?c" "?c \<le> m" "?c \<le> ?len - offset" "?c \<le> 512 - off_mod offset" using True off by (auto simp: chunk_size_def)
    have j: "512 * int ?j < ?len" using True sector_start [OF less.prems(4)] by linarith
    then have jm: "?j < MAX_INDEX" and nd: "node (file_ent a s) (path ?j) \<noteq> NO_SECTOR" using ok by blast+
    let ?x = "node (file_ent a s) (path ?j)"
    have xs: "?x < fsz s" using node_in_range [OF _ valid_path [OF jm] nd] ok by blast
    obtain s1 where b: "byte_to_sector mem a offset False s = Some (s1, ?x)" "frame {} s s1" "fsv s1 = fsv s" "fs_map s1 = fs_map s"
      using byte_to_sector_ok [OF less.prems(1,2), of a offset False mem] ok True jm less.prems(4) by (auto simp: inode_length_def)
    have il: "inode_length a s1 = ?len" using frame_inodes [OF b(2)] by (simp add: inode_length_def)
    have calm1: "calm n H s1" using calm_frame [OF less.prems(1) b(2)] .
    have x1: "?x < fsz s1" using xs frame_size [OF b(2)] by simp
    obtain s2 e s3 where p: "get_sector_handle mem ?x False s1 = Some (s2, Some e)" "\<forall>k < 512. sector_data e s2 k = fsv s ?x k"
      "release_sector_handle ?x (Some e) False False s2 = Some s3" "frame {} s1 s3" "fsv s3 = fsv s" "fs_map s3 = fs_map s"
      using peek_word [OF calm1 _ x1, of False 0 mem] less.prems(2) b(3,4) by auto
    have f3: "frame {} s s3" using frame_trans [OF b(2) p(4)] .
    note sv = same_view [OF f3 p(5)]
    have il3: "inode_length a s3 = ?len" using frame_inodes [OF f3] by (simp add: inode_length_def)
    have ok3: "file_ok a (inode_length a s3) s3" using same_tree_file_ok [OF sv(4) less.prems(3)] il3 by simp
    obtain s' where ih: "read_loop mem a (m - ?c) (offset + ?c) s3 =
        Some (s', map (\<lambda>k. file_byte a s3 (nat (offset + ?c) + k)) [0..<nat (min (m - ?c) (inode_length a s3 - (offset + ?c)))])"
      "frame {} s3 s'" "fsv s' = fsv s3" "fs_map s' = fs_map s3"
      using less.hyps [of "m - ?c" s3 "offset + ?c"] calm_frame [OF less.prems(1) f3] less.prems(2,4) ok3 c True by auto
    let ?bs = "map (\<lambda>k. sector_data e s2 (nat (off_mod offset) + k)) [0..<nat ?c]"
    have run: "read_loop mem a m offset s =
        Some (s', ?bs @ map (\<lambda>k. file_byte a s (nat (offset + ?c) + k)) [0..<nat (min (m - ?c) (?len - (offset + ?c)))])"
      using True b(1) il c(1) p(1,3) off ih(1) sv(3) il3 by (subst read_loop.simps) (simp add: Let_def)
    have "sector_data e s2 (nat (off_mod offset) + k) = file_byte a s (?o + k)" if "k < nat ?c" for k
    proof -
      have "?o mod 512 + k < 512" using that c(4) off by linarith
      then show ?thesis using p(2) off in_chunk [of ?o k] by (simp add: file_byte_def)
    qed
    then have bs: "?bs = map (\<lambda>k. file_byte a s (?o + k)) [0..<nat ?c]" by simp
    have "nat (offset + ?c) = ?o + nat ?c" using c(1) less.prems(4) by (simp add: nat_add_distrib)
    then have "?bs @ map (\<lambda>k. file_byte a s (nat (offset + ?c) + k)) [0..<nat (min (m - ?c) (?len - (offset + ?c)))] =
        map (\<lambda>k. file_byte a s (?o + k)) [0..<nat ?c + nat (min (m - ?c) (?len - (offset + ?c)))]"
      unfolding bs using map_upt_split [of "\<lambda>k. file_byte a s (?o + k)" "nat ?c"] by (simp add: add.assoc)
    moreover have "nat ?c + nat (min (m - ?c) (?len - (offset + ?c))) = nat (min m (?len - offset))" using c by linarith
    ultimately show ?thesis using run frame_trans [OF f3 ih(2)] ih(3,4) p(5,6) by simp
  qed
qed

section \<open>Writing in place\<close>

lemma write_chunk_overlay:
  "0 \<le> ofs \<Longrightarrow> chunk \<le> 512 - ofs \<Longrightarrow> write_chunk ofs chunk bs d = overlay (nat ofs) bs d"
  by (auto simp: write_chunk_def)

lemma in_sector_overlay: "in_sector (overlay ofs bs)"
  by (simp add: in_sector_def overlay_def)

definition leaves :: "nat \<Rightarrow> fs \<Rightarrow> nat set" where
  "leaves a s = nodes (file_ent a s) - inner_nodes (file_ent a s)"

text \<open>Changing a data sector leaves the tree alone.\<close>

lemma leaf_write:
  assumes "frame X s s'" "fsv s' = (fsv s)(node (file_ent a s) (path j) := d)" "file_ok a len s" "j < MAX_INDEX"
    "node (file_ent a s) (path j) \<noteq> NO_SECTOR"
  shows "same_tree a s s'"
    "i < MAX_INDEX \<Longrightarrow> node (file_ent a s) (path i) = node (file_ent a s) (path j) \<Longrightarrow> i = j"
    "node (file_ent a s) (path j) \<in> leaves a s"
proof -
  let ?E = "file_ent a s" let ?x = "node ?E (path j)"
  note v = valid_path [OF assms(4)]
  have inj: "tree_inj ?E" using assms(3) by (simp add: file_ok_def)
  have leaf: "?x \<notin> inner_nodes ?E" using node_leaf [OF inj v length_path(1) assms(5)] .
  have main: "main_of a s \<noteq> ?x" using assms(3) node_in_nodes [OF v assms(5)] by (auto simp: file_ok_def)
  have m: "main_of a s' = main_of a s" using frame_inodes [OF assms(1)] by (simp add: main_of_def)
  have "node (file_ent a s') p = node ?E p" if "valid p" for p
    unfolding file_ent_def
  proof (rule ent_node_cong [OF _ _ that])
    show "fsv s' (main_of a s') k = fsv s (main_of a s) k" for k using assms(2) main m by simp
    show "fsv s' y k = fsv s y k" if "y \<in> inner_nodes (ent (fsv s (main_of a s)) (fsv s))" for y k
      using assms(2) leaf that by (auto simp: file_ent_def)
  qed
  then show "same_tree a s s'" using m frame_size [OF assms(1)] by (simp add: same_tree_def)
  show "i = j" if "i < MAX_INDEX" "node ?E (path i) = ?x"
  proof -
    have "path i = path j" using inj valid_path [OF that(1)] v that(2) assms(5) unfolding tree_inj_def by metis
    then show ?thesis using path_inj that(1) assms(4) by blast
  qed
  show "?x \<in> leaves a s" using leaf node_in_nodes [OF v assms(5)] by (simp add: leaves_def)
qed

text \<open>Taking a sector, changing it and giving it back.\<close>

lemma poke_sector:
  assumes "calm n H s" "0 < n" "x < fsz s" "x \<notin> H \<or> \<not> block" "in_sector f"
  shows "\<exists>s1 e s2. get_sector_handle mem x block s = Some (s1, Some e) \<and> held x block s s1 e \<and>
    release_sector_handle x (Some e) True block (set_data e (f (sector_data e s1)) s1) = Some s2 \<and> frame {} s s2 \<and>
    fsv s2 = (fsv s)(x := clip (f (fsv s x))) \<and> fs_map s2 = fs_map s"
proof -
  obtain s1 e where t: "get_sector_handle mem x block s = Some (s1, Some e)" "held x block s s1 e" "fsv s1 = fsv s"
    using take_held [OF assms(1-4)] by blast
  let ?f = "f (sector_data e s1)"
  note h = held_set [OF t(2) held_start [OF t(2)], of ?f]
  obtain s2 where r: "release_sector_handle x (Some e) True block (set_data e ?f s1) = Some s2" "frame {} s s2"
    "fsv s2 = fsv (set_data e ?f s1)" "fs_map s2 = fs_map (set_data e ?f s1)"
    using held_release [OF t(2) h(1), of True] by blast
  have "\<forall>k < 512. sector_data e s1 k = fsv s x k" using held_data [OF t(2) held_start [OF t(2)]] t(3) by simp
  then have "clip ?f = clip (f (fsv s x))" using assms(5) by (auto simp: in_sector_def clip_def BLOCK_SECTOR_SIZE_def fun_eq_iff)
  then show ?thesis using t r h held_fields(1) [OF t(2)] by auto
qed

lemma write_loop_ok:
  assumes "calm n H s" "1 < n" "file_ok a len s" "0 \<le> offset" "0 \<le> m" "offset + m \<le> len" "0 \<le> w"
  shows "\<exists>s'. write_loop mem a len buffer m offset w s = Some (s', w + m) \<and> frame {} s s' \<and> fs_map s' = fs_map s \<and> same_tree a s s' \<and>
    (\<forall>x. x \<notin> leaves a s \<longrightarrow> fsv s' x = fsv s x) \<and>
    (\<forall>k. k div 512 < MAX_INDEX \<longrightarrow> file_byte a s' k =
      (if nat offset \<le> k \<and> k < nat (offset + m) then buffer (nat w + (k - nat offset)) else file_byte a s k))"
  using assms
proof (induction "nat m" arbitrary: m offset w s rule: less_induct)
  case less
  note ok = less.prems(3) [unfolded file_ok_def]
  show ?case
  proof (cases "m > 0")
    case False
    then show ?thesis using less.prems(4,5) calm_cache_ok [OF less.prems(1)] by (subst write_loop.simps) (auto simp: frame_refl)
  next
    case True
    let ?c = "chunk_size m len offset"
    let ?j = "nat offset div 512" let ?o = "nat offset"
    let ?x = "node (file_ent a s) (path ?j)"
    let ?bs = "map (\<lambda>k. buffer (nat w + k)) [0..<nat ?c]"
    note off = nat_off [OF less.prems(4)]
    have c: "0 < ?c" "?c \<le> m" "?c \<le> 512 - off_mod offset" using True off less.prems(6) by (auto simp: chunk_size_def)
    have "512 * int ?j < len" using True less.prems(6) sector_start [OF less.prems(4)] by linarith
    then have jm: "?j < MAX_INDEX" and nd: "?x \<noteq> NO_SECTOR" using ok by blast+
    have xs: "?x < fsz s" using node_in_range [OF _ valid_path [OF jm] nd] ok by blast
    obtain s1 where b: "byte_to_sector mem a offset True s = Some (s1, ?x)" "frame {} s s1" "fsv s1 = fsv s" "fs_map s1 = fs_map s"
      using byte_to_sector_ok [OF less.prems(1,2), of a offset True mem] ok True jm less.prems(4,6) by auto
    have x1: "?x < fsz s1" using xs frame_size [OF b(2)] by simp
    have n0: "0 < n" using less.prems(2) by simp
    obtain s2 e s3 where p: "get_sector_handle mem ?x False s1 = Some (s2, Some e)"
      "release_sector_handle ?x (Some e) True False (set_data e (overlay (nat (off_mod offset)) ?bs (sector_data e s2)) s2) = Some s3"
      "frame {} s1 s3" "fsv s3 = (fsv s1)(?x := clip (overlay (nat (off_mod offset)) ?bs (fsv s1 ?x)))" "fs_map s3 = fs_map s1"
      using poke_sector [OF calm_frame [OF less.prems(1) b(2)] n0 x1 _ in_sector_overlay, of False] by blast
    have f3: "frame {} s s3" using frame_trans [OF b(2) p(3)] .
    have v3: "fsv s3 = (fsv s)(?x := clip (overlay (nat (off_mod offset)) ?bs (fsv s ?x)))" using p(4) b(3) by simp
    note lw = leaf_write [OF f3 v3 less.prems(3) jm nd]
    obtain s' where ih: "write_loop mem a len buffer (m - ?c) (offset + ?c) (w + ?c) s3 = Some (s', w + ?c + (m - ?c))" "frame {} s3 s'"
      "fs_map s' = fs_map s3" "same_tree a s3 s'" "\<forall>x. x \<notin> leaves a s3 \<longrightarrow> fsv s' x = fsv s3 x"
      "\<forall>k. k div 512 < MAX_INDEX \<longrightarrow> file_byte a s' k =
        (if nat (offset + ?c) \<le> k \<and> k < nat (offset + ?c + (m - ?c)) then buffer (nat (w + ?c) + (k - nat (offset + ?c))) else file_byte a s3 k)"
      using less.hyps [of "m - ?c" s3 "offset + ?c" "w + ?c"] calm_frame [OF less.prems(1) f3] less.prems(2,4-7)
        same_tree_file_ok [OF lw(1) less.prems(3)] c True by auto
    have run: "write_loop mem a len buffer m offset w s = Some (s', w + m)"
      using True b(1) c p(1,2) off ih(1) write_chunk_overlay [of "off_mod offset" ?c ?bs]
      by (subst write_loop.simps) (simp add: Let_def)
    have lv: "leaves a s3 = leaves a s" using same_tree_nodes [OF lw(1)] by (simp add: leaves_def)
    have out: "fsv s' x = fsv s x" if "x \<notin> leaves a s" for x
    proof -
      have "x \<noteq> ?x" using that lw(3) by blast
      then have "fsv s3 x = fsv s x" unfolding v3 by simp
      then show ?thesis using ih(5) lv that by simp
    qed
    have byte3: "file_byte a s3 k = (if ?o \<le> k \<and> k < ?o + nat ?c then buffer (nat w + (k - ?o)) else file_byte a s k)"
      if k: "k div 512 < MAX_INDEX" for k
    proof (cases "k div 512 = ?j")
      case True
      have "node (file_ent a s3) (path ?j) = ?x" using lw(1) valid_path [OF jm] by (simp add: same_tree_def)
      then have fb: "file_byte a s3 k = overlay (?o mod 512) ?bs (fsv s ?x) (k mod 512)"
        using True v3 off by (simp add: file_byte_def clip_def BLOCK_SECTOR_SIZE_def)
      have fs: "file_byte a s k = fsv s ?x (k mod 512)" using True by (simp add: file_byte_def)
      have len: "length ?bs = nat ?c" by simp
      note ss = same_sector [OF True, of "nat ?c"]
      show ?thesis
      proof (cases "?o \<le> k \<and> k < ?o + nat ?c")
        case inside: True
        then have "overlay (?o mod 512) ?bs (fsv s ?x) (k mod 512) = ?bs ! (k - ?o)" unfolding overlay_def len using ss by simp
        moreover have "k - ?o < nat ?c" using inside by arith
        ultimately show ?thesis using inside fb by simp
      next
        case outside: False
        then have "overlay (?o mod 512) ?bs (fsv s ?x) (k mod 512) = fsv s ?x (k mod 512)" unfolding overlay_def len using ss by auto
        then show ?thesis using outside fb fs by auto
      qed
    next
      case False
      then have "node (file_ent a s) (path (k div 512)) \<noteq> ?x" using lw(2) [OF k] by blast
      moreover have "node (file_ent a s3) (path (k div 512)) = node (file_ent a s) (path (k div 512))"
        using lw(1) valid_path [OF k] by (simp add: same_tree_def)
      ultimately have "file_byte a s3 k = file_byte a s k" using v3 by (simp add: file_byte_def)
      moreover have "\<not> (?o \<le> k \<and> k < ?o + nat ?c)"
      proof
        assume a: "?o \<le> k \<and> k < ?o + nat ?c"
        then have "?o mod 512 + (k - ?o) < 512" using c(3) off by linarith
        then have "(?o + (k - ?o)) div 512 = ?j" by (rule in_chunk)
        then show False using a False by simp
      qed
      ultimately show ?thesis by auto
    qed
    have oc: "nat (offset + ?c) = ?o + nat ?c" "nat (w + ?c) = nat w + nat ?c" "offset + ?c + (m - ?c) = offset + m"
      using c(1) less.prems(4,7) by (simp_all add: nat_add_distrib)
    have fin: "file_byte a s' k = (if ?o \<le> k \<and> k < nat (offset + m) then buffer (nat w + (k - ?o)) else file_byte a s k)"
      if k: "k div 512 < MAX_INDEX" for k
    proof -
      have le: "?o + nat ?c \<le> nat (offset + m)" using c less.prems(4) by linarith
      show ?thesis using ih(6) k byte3 [OF k] le unfolding oc by auto
    qed
    show ?thesis using run frame_trans [OF f3 ih(2)] ih(3) p(5) b(4) same_tree_trans [OF lw(1) ih(4)] out fin by simp
  qed
qed

end
