(* ===== verification/InodeAlloc.thy ===== *)
theory InodeAlloc
  imports InodeIO
begin

text \<open>
  Growing a file: \<^verbatim>\<open>allocate_inode_sector\<close> adds the sectors that are missing on one path of the tree, takes
  them from the free map and leaves every other sector alone. Writing the free map to its file is
  an interface here: the locale \<^verbatim>\<open>map_file\<close> says what the call promises, and the theory \<^verbatim>\<open>FreeMapFile\<close>
  shows it of the code.
\<close>

section \<open>The free map and its file\<close>

definition used_sectors :: "fs \<Rightarrow> nat set" where
  "used_sectors s = used_bits (free_map (fs_map s))"

definition free_sectors :: "fs \<Rightarrow> nat set" where
  "free_sectors s = {..<fsz s} - used_sectors s"

definition map_ok :: "fs \<Rightarrow> bool" where
  "map_ok s \<longleftrightarrow> fmap_ok (fs_map s) \<and> bit_cnt (free_map (fs_map s)) = fsz s"

lemma map_ok_cong: "fs_map s' = fs_map s \<Longrightarrow> fsz s' = fsz s \<Longrightarrow> map_ok s' = map_ok s"
  by (simp add: map_ok_def)

lemma used_cong: "fs_map s' = fs_map s \<Longrightarrow> used_sectors s' = used_sectors s"
  by (simp add: used_sectors_def)

lemma used_below: "map_ok s \<Longrightarrow> used_sectors s \<subseteq> {..<fsz s}"
  by (auto simp: map_ok_def used_sectors_def used_bits_def)

text \<open>A volume whose free map, with the file that holds it, is in order; \<open>FM\<close> are the sectors of that file.\<close>

definition volume_ok :: "(fs \<Rightarrow> bool) \<Rightarrow> nat set \<Rightarrow> fs \<Rightarrow> bool" where
  "volume_ok fm_ok FM s \<longleftrightarrow> map_ok s \<and> fm_ok s \<and> FM \<subseteq> used_sectors s"

text \<open>The sectors as they will be once a new index sector \<open>x\<close> is emptied.\<close>

definition fill_view :: "bool \<Rightarrow> nat \<Rightarrow> (nat \<Rightarrow> nat \<Rightarrow> u8) \<Rightarrow> nat \<Rightarrow> nat \<Rightarrow> u8" where
  "fill_view newly x V = (if newly then V(x := clip (fill_words NO_SECTOR 128 (V x))) else V)"

text \<open>What a file gains: the missing sectors of one path, the last of them full of zeros.\<close>

definition grown :: "entries \<Rightarrow> entries \<Rightarrow> nat list \<Rightarrow> bool" where
  "grown E E' q \<longleftrightarrow> tree_inj E' \<and> node E' q \<noteq> NO_SECTOR \<and>
     (\<forall>r. valid r \<longrightarrow> node E r \<noteq> NO_SECTOR \<longrightarrow> node E' r = node E r) \<and>
     (\<forall>r. valid r \<longrightarrow> length r = REDIRECTION_LEVEL \<longrightarrow> node E' r \<noteq> NO_SECTOR \<longrightarrow> r = q \<or> node E r \<noteq> NO_SECTOR)"

lemma grown_extend:
  assumes g: "grown W E' q" and nd: "\<And>r. valid r \<Longrightarrow> node W r = (if r = c then x else node E r)" and c: "node E c = NO_SECTOR"
    and q: "length c = REDIRECTION_LEVEL \<Longrightarrow> c = q"
  shows "grown E E' q"
proof -
  have g': "tree_inj E'" "node E' q \<noteq> NO_SECTOR" "\<And>r. valid r \<Longrightarrow> node W r \<noteq> NO_SECTOR \<Longrightarrow> node E' r = node W r"
    "\<And>r. valid r \<Longrightarrow> length r = REDIRECTION_LEVEL \<Longrightarrow> node E' r \<noteq> NO_SECTOR \<Longrightarrow> r = q \<or> node W r \<noteq> NO_SECTOR"
    using g by (simp_all add: grown_def)
  have old: "node E' r = node E r" if r: "valid r" "node E r \<noteq> NO_SECTOR" for r
  proof -
    have "r \<noteq> c" using r(2) c by auto
    then have "node W r = node E r" using nd [OF r(1)] by simp
    then show ?thesis using g'(3) [OF r(1)] r(2) by simp
  qed
  have new: "r = q \<or> node E r \<noteq> NO_SECTOR" if r: "valid r" "length r = REDIRECTION_LEVEL" "node E' r \<noteq> NO_SECTOR" for r
    using g'(4) [OF r] nd [OF r(1)] q r(2) by (cases "r = c") simp_all
  show ?thesis unfolding grown_def using g'(1,2) old new by blast
qed

lemma grown_nodes:
  assumes "grown E E' q"
  shows "nodes E \<subseteq> nodes E'" "inner_nodes E \<subseteq> inner_nodes E'"
proof -
  have g: "\<And>r. valid r \<Longrightarrow> node E r \<noteq> NO_SECTOR \<Longrightarrow> node E' r = node E r" using assms by (simp add: grown_def)
  show "nodes E \<subseteq> nodes E'"
  proof
    fix x assume "x \<in> nodes E"
    then obtain r where "valid r" "node E r \<noteq> NO_SECTOR" "x = node E r" by (auto simp: nodes_def)
    then show "x \<in> nodes E'" using g [of r] node_in_nodes [of r E'] by simp
  qed
  show "inner_nodes E \<subseteq> inner_nodes E'"
  proof
    fix x assume "x \<in> inner_nodes E"
    then obtain r where "valid r" "node E r \<noteq> NO_SECTOR" "x = node E r" "length r < REDIRECTION_LEVEL" by (auto simp: inner_nodes_def)
    then show "x \<in> inner_nodes E'" using g [of r] node_in_inner [of r E'] by simp
  qed
qed

text \<open>New nodes come from \<open>F\<close>.\<close>

definition from_free :: "nat set \<Rightarrow> entries \<Rightarrow> entries \<Rightarrow> bool" where
  "from_free F E E' \<longleftrightarrow> nodes E' \<subseteq> nodes E \<union> F \<and> inner_nodes E' \<subseteq> inner_nodes E \<union> F"

lemma from_free_trans: "from_free F A B \<Longrightarrow> from_free G B C \<Longrightarrow> G \<subseteq> F \<Longrightarrow> from_free F A C"
  unfolding from_free_def by blast

text \<open>The tree after a new sector \<open>x\<close> was put into entry \<open>i\<close> of \<open>sector\<close>.\<close>

lemma entry_tree:
  assumes inj: "tree_inj (ent d V)" and v: "valid (i # p)" and p: "p \<noteq> []" "node (ent d V) p = sector" "sector \<noteq> NO_SECTOR"
    and emp: "word_at (V sector) i = NO_SECTOR" and x: "x \<notin> nodes (ent d V)" "x \<noteq> NO_SECTOR" "x < 2 ^ 32"
    and V': "\<And>k. k < 512 \<Longrightarrow> V' sector k = put_word (V sector) i x k"
      "\<And>y k. y \<in> inner_nodes (ent d V) \<Longrightarrow> y \<noteq> sector \<Longrightarrow> k < 512 \<Longrightarrow> V' y k = V y k"
    and W: "W = fill_view deeper x V'" "deeper \<longleftrightarrow> length (i # p) < REDIRECTION_LEVEL"
  shows "valid q \<Longrightarrow> node (ent d W) q = (if q = i # p then x else node (ent d V) q)"
proof -
  let ?E = "ent d V"
  have i: "i < 128" "valid p" "length p < REDIRECTION_LEVEL" using valid_Cons [OF v p(1)] by auto
  have inn: "sector \<in> inner_nodes ?E" using node_in_inner [OF i(2,3), of ?E] p by simp
  have nx: "y \<noteq> x" if "y \<in> inner_nodes ?E" for y using that x(1) inner_subset by blast
  assume q: "valid q"
  show ?thesis
  proof (rule node_extend [OF inj v _ _ x(1) _ _ _ q])
    show "node ?E p \<noteq> NO_SECTOR" if "p \<noteq> []" using p by simp
    show "node ?E (i # p) = NO_SECTOR" using p emp by simp
    show "ent d W None j = (if loc ?E p = None \<and> j = i then x else ?E None j)" for j using p(1) by (simp add: loc_def)
    show "ent d W (Some y) j = (if loc ?E p = Some y \<and> j = i then x else ?E (Some y) j)" if y: "y \<in> inner_nodes ?E" and j: "j < 128" for y j
    proof (cases "y = sector")
      case True
      have "word_at (W sector) j = word_at (put_word (V sector) i x) j"
        using nx [OF inn] W V'(1) by (intro word_at_cong [OF _ j]) (simp add: fill_view_def)
      then show ?thesis using True p by (simp add: loc_def word_at_put_word [OF x(3)])
    next
      case False
      have "word_at (W y) j = word_at (V y) j" using nx [OF y] W V'(2) [OF y False] by (intro word_at_cong [OF _ j]) (simp add: fill_view_def)
      then show ?thesis using False p by (simp add: loc_def)
    qed
    show "ent d W (Some x) j = NO_SECTOR" if "length (i # p) < REDIRECTION_LEVEL" "j < 128" for j
      using that W by (simp add: fill_view_def word_at_fill NO_SECTOR_def)
  qed
qed

locale map_file =
  fixes bw :: map_writer and fm_ok :: "fs \<Rightarrow> bool" and FM :: "nat set" and fa :: nat
  assumes bw_law: "fm_ok s \<Longrightarrow> calm n H s \<Longrightarrow> 1 < n \<Longrightarrow> H \<inter> FM = {} \<Longrightarrow> bitmap_ok b \<Longrightarrow> bit_cnt b = fsz s \<Longrightarrow>
      \<exists>s'. bw b s = Some (s', True) \<and> frame {} s s' \<and> fs_map s' = fs_map s \<and> fm_ok s' \<and> (\<forall>x. x \<notin> FM \<longrightarrow> fsv s' x = fsv s x)"
    and fm_stable: "fm_ok s \<Longrightarrow> inodes s' fa = inodes s fa \<Longrightarrow> fsz s' = fsz s \<Longrightarrow> (\<forall>x \<in> FM. fsv s' x = fsv s x) \<Longrightarrow> fm_ok s'"
begin

lemma vol_ok_step:
  "volume_ok fm_ok FM s \<Longrightarrow> inodes s' = inodes s \<Longrightarrow> fsz s' = fsz s \<Longrightarrow> fs_map s' = fs_map s \<Longrightarrow>
   (\<forall>x \<in> FM. fsv s' x = fsv s x) \<Longrightarrow> volume_ok fm_ok FM s'"
  unfolding volume_ok_def using fm_stable map_ok_cong used_cong by metis

lemma vol_ok_other_inode:
  "volume_ok fm_ok FM s \<Longrightarrow> a \<noteq> fa \<Longrightarrow> volume_ok fm_ok FM (s\<lparr>inodes := (inodes s)(a := i)\<rparr>)"
  unfolding volume_ok_def using fm_stable [of s "s\<lparr>inodes := (inodes s)(a := i)\<rparr>"]
  by (simp add: map_ok_def used_sectors_def fsz_def fsv_def)

lemma alloc_sector_ok:
  assumes "volume_ok fm_ok FM s" "calm n H s" "1 < n" "H \<inter> FM = {}" "free_sectors s \<noteq> {}"
  shows "\<exists>s' x. alloc_sector bw s = Some (s', Some x) \<and> x \<in> free_sectors s \<and> used_sectors s' = insert x (used_sectors s) \<and>
    volume_ok fm_ok FM s' \<and> frame {} s s' \<and> (\<forall>y. y \<notin> FM \<longrightarrow> fsv s' y = fsv s y)"
proof -
  let ?m = "fs_map s"
  have m: "fmap_ok ?m" "bit_cnt (free_map ?m) = fsz s" "fm_ok s" "FM \<subseteq> used_sectors s" using assms(1) by (auto simp: volume_ok_def map_ok_def)
  then have bm: "bitmap_ok (free_map ?m)" "free_map_file ?m" by (simp_all add: fmap_ok_def)
  obtain b r where sc: "bitmap_scan_and_flip (free_map ?m) 0 1 False = Some (b, r)" "bitmap_ok b" "bit_cnt b = bit_cnt (free_map ?m)"
    "first_fit (free_map ?m) 0 1 False r" using bitmap_scan_and_flip_ok [OF bm(1), of 0 1 False] by blast
  from assms(5) obtain z where "z < fsz s" "z \<notin> used_sectors s" by (auto simp: free_sectors_def)
  then have "run (free_map ?m) z 1 False" using m(2) by (auto simp: run_def used_sectors_def used_bits_def)
  then have r: "r \<noteq> BITMAP_ERROR" using sc(4) by (auto simp: first_fit_def)
  obtain s1 where s1: "bw b s = Some (s1, True)" "frame {} s s1" "fs_map s1 = fs_map s" "fm_ok s1" "\<forall>x. x \<notin> FM \<longrightarrow> fsv s1 x = fsv s x"
    using bw_law [OF m(3) assms(2-4) sc(2)] sc(3) m(2) by auto
  have fa: "free_map_allocate (\<lambda>_. True) ?m 1 = Some (?m\<lparr>free_map := b\<rparr>, Some r)" using sc(1) r by (simp add: free_map_allocate_def)
  from free_map_allocate_ok [OF m(1), of "\<lambda>_. True" 1] obtain m' where
    al: "free_map_allocate (\<lambda>_. True) ?m 1 = Some (m', Some r)" "fmap_ok m'" "bit_cnt (free_map m') = bit_cnt (free_map ?m)"
      "{r..<r + 1} \<subseteq> {..<bit_cnt (free_map ?m)} - used_bits (free_map ?m)" "used_bits (free_map m') = used_bits (free_map ?m) \<union> {r..<r + 1}"
    unfolding fa by auto
  let ?s' = "s1\<lparr>fs_map := m'\<rparr>"
  have run: "alloc_sector bw s = Some (?s', Some r)" using sc(1) r bm(2) s1(1) al(1) by (simp add: alloc_sector_def)
  have us: "used_sectors ?s' = insert r (used_sectors s)" using al(5) by (auto simp: used_sectors_def)
  have "fm_ok ?s'" using fm_stable [OF s1(4), of ?s'] by simp
  then have "volume_ok fm_ok FM ?s'" using al(2,3) m(2,4) frame_size [OF s1(2)] us by (auto simp: volume_ok_def map_ok_def)
  moreover have "r \<in> free_sectors s" using al(4) m(2) by (auto simp: free_sectors_def used_sectors_def)
  ultimately show ?thesis using run us s1(2,5) by (intro exI [of _ ?s'] exI [of _ r]) simp
qed

text \<open>The part of \<^verbatim>\<open>alloc_levels\<close> before the search: a sector that is new is emptied first.\<close>

lemma held_fill:
  assumes h: "held x True s s1 e" "fsv s1 = fsv s" and s2: "s2 = (if newly then set_data e (fill_words NO_SECTOR 128 (sector_data e s1)) s1 else s1)"
  shows "frame {e} s1 s2" "newly \<or> frame {} s1 s2" "fs_map s2 = fs_map s"
    "fsv s2 = (if newly then (fsv s)(x := clip (fill_words NO_SECTOR 128 (fsv s x))) else fsv s)"
proof -
  have "in_sector (fill_words NO_SECTOR 128)" by (rule in_sector_fill)
  moreover have "\<forall>k < 512. sector_data e s1 k = fsv s x k" using held_data [OF h(1) held_start [OF h(1)]] h(2) by simp
  ultimately have cl: "clip (fill_words NO_SECTOR 128 (sector_data e s1)) = clip (fill_words NO_SECTOR 128 (fsv s x))"
    by (auto simp: in_sector_def clip_def BLOCK_SECTOR_SIZE_def fun_eq_iff)
  note hs = held_set [OF h(1) held_start [OF h(1)], of "fill_words NO_SECTOR 128 (sector_data e s1)"]
  show "frame {e} s1 s2" "newly \<or> frame {} s1 s2" "fs_map s2 = fs_map s"
    using s2 hs(1,3) held_start [OF h(1)] held_fields(1) [OF h(1)] by (cases newly; simp)+
  show "fsv s2 = (if newly then (fsv s)(x := clip (fill_words NO_SECTOR 128 (fsv s x))) else fsv s)"
    using s2 hs(2) h(2) cl by (cases newly) simp_all
qed

text \<open>An empty entry of a sector that is held gets a new sector.\<close>

lemma alloc_entry:
  assumes c: "calm n H s" "2 < n" and v: "volume_ok fm_ok FM s" "H \<inter> FM = {}" and x: "sector < fsz s" "sector \<notin> H" "sector \<notin> FM"
    and V: "V = fill_view newly sector (fsv s)" and i: "i < 128" "word_at (V sector) i = NO_SECTOR" and free: "free_sectors s \<noteq> {}"
  shows "\<exists>s' x. alloc_levels mem bw (i # ids) sector newly s = alloc_levels mem bw ids x True s' \<and> frame {} s s' \<and>
    volume_ok fm_ok FM s' \<and> x \<in> free_sectors s \<and> used_sectors s' = insert x (used_sectors s) \<and>
    fsv s' sector = clip (put_word (V sector) i x) \<and> (\<forall>y. y \<notin> FM \<longrightarrow> y \<noteq> sector \<longrightarrow> fsv s' y = fsv s y)"
proof -
  have n: "0 < n" "1 < n - 1" using c(2) by auto
  obtain s1 e where t: "get_sector_handle mem sector True s = Some (s1, Some e)" "held sector True s s1 e"
    "calm (n - 1) (insert sector H) s1" "fsv s1 = fsv s" using take_held [OF c(1) n(1) x(1), of True mem] x(2) by blast
  define s2 where "s2 = (if newly then set_data e (fill_words NO_SECTOR 128 (sector_data e s1)) s1 else s1)"
  note f = held_fill [OF t(2,4) s2_def]
  have V2: "fsv s2 = V" using f(4) V by (simp add: fill_view_def)
  have d2: "\<forall>k < 512. sector_data e s2 k = V sector k" using held_data [OF t(2) f(1)] V2 by simp
  then have nx: "word_at (sector_data e s2) i = NO_SECTOR" using i word_at_cong [of "sector_data e s2" "V sector" i] by simp
  have c2: "calm (n - 1) (insert sector H) s2" using calm_frame [OF t(3) f(1)] .
  have sz: "fsz s2 = fsz s" using frame_size [OF f(1)] held_fields(5) [OF t(2)] by simp
  have FMv: "\<forall>y \<in> FM. fsv s2 y = fsv s y" using f(4) x(3) by auto
  have in2: "inodes s2 = inodes s" using frame_inodes [OF f(1)] held_fields(2) [OF t(2)] by simp
  have v2: "volume_ok fm_ok FM s2" using vol_ok_step [OF v(1) in2 sz f(3) FMv] .
  have us: "used_sectors s2 = used_sectors s" "free_sectors s2 = free_sectors s" using f(3) sz by (simp_all add: used_sectors_def free_sectors_def)
  obtain s3 y where a: "alloc_sector bw s2 = Some (s3, Some y)" "y \<in> free_sectors s" "used_sectors s3 = insert y (used_sectors s)"
    "volume_ok fm_ok FM s3" "frame {} s2 s3" "\<forall>z. z \<notin> FM \<longrightarrow> fsv s3 z = fsv s2 z"
    using alloc_sector_ok [OF v2 c2 n(2)] v(2) x(3) free us by auto
  have f13: "frame {e} s1 s3" using frame_trans [OF f(1) frame_mono [OF a(5)]] by simp
  have d3: "\<forall>k < 512. sector_data e s3 k = V sector k" using held_data [OF t(2) f13] a(6) x(3) V2 by simp
  let ?w = "put_word (sector_data e s3) i y"
  have cl: "clip ?w = clip (put_word (V sector) i y)"
    using d3 in_sector_put_word [of i y] by (auto simp: in_sector_def clip_def BLOCK_SECTOR_SIZE_def fun_eq_iff)
  note hs = held_set [OF t(2) f13, of ?w]
  obtain s5 where r: "release_sector_handle sector (Some e) True True (set_data e ?w s3) = Some s5" "frame {} s s5"
    "fsv s5 = fsv (set_data e ?w s3)" "fs_map s5 = fs_map s3" using held_release [OF t(2) hs(1), of True] hs(3) by auto
  have v5: "fsv s5 = (fsv s3)(sector := clip (put_word (V sector) i y))" using r(3) hs(2) cl by simp
  have run: "alloc_levels mem bw (i # ids) sector newly s = alloc_levels mem bw ids y True s5"
    using t(1) nx a(1) r(1) by (simp add: s2_def [symmetric] Let_def)
  have in5: "inodes s5 = inodes s3" "fsz s5 = fsz s3"
    using frame_inodes [OF r(2)] frame_inodes [OF f13] frame_size [OF r(2)] frame_size [OF f13] held_fields(2,5) [OF t(2)] by simp_all
  have "\<forall>z \<in> FM. fsv s5 z = fsv s3 z" using v5 x(3) by auto
  then have "volume_ok fm_ok FM s5" by (rule vol_ok_step [OF a(4) in5 r(4)])
  moreover have "fsv s5 z = fsv s z" if "z \<notin> FM" "z \<noteq> sector" for z
    using that v5 a(6) f(4) by (auto split: if_splits)
  ultimately show ?thesis using run r(2) a(2,3) used_cong [OF r(4)] v5 by (intro exI [of _ s5] exI [of _ y]) simp
qed

lemma alloc_levels_ok:
  assumes "calm n H s" "2 < n" "volume_ok fm_ok FM s" "H \<inter> FM = {}" "H \<subseteq> used_sectors s"
    and "V = fill_view (newly \<and> ids \<noteq> []) sector (fsv s)" "valid (rev ids @ p)" "length (rev ids @ p) = REDIRECTION_LEVEL" "p \<noteq> []"
    and "node (ent d V) p = sector" "sector \<noteq> NO_SECTOR" "tree_inj (ent d V)" "nodes (ent d V) \<subseteq> used_sectors s - FM - H"
    and "length ids \<le> card (free_sectors s)"
  shows "\<exists>s'. alloc_levels mem bw ids sector newly s = Some (s', True) \<and> frame {} s s' \<and> volume_ok fm_ok FM s' \<and>
    used_sectors s \<subseteq> used_sectors s' \<and> card (free_sectors s) \<le> card (free_sectors s') + length ids \<and>
    grown (ent d V) (ent d (fsv s')) (rev ids @ p) \<and> nodes (ent d (fsv s')) \<subseteq> used_sectors s' - FM - H \<and>
    (newly \<and> ids = [] \<or> node (ent d V) (rev ids @ p) = NO_SECTOR \<longrightarrow> fsv s' (node (ent d (fsv s')) (rev ids @ p)) = (\<lambda>_. 0)) \<and>
    (\<forall>y \<in> used_sectors s. y \<notin> FM \<longrightarrow> y \<notin> inner_nodes (ent d V) \<longrightarrow> (newly \<longrightarrow> y \<noteq> sector) \<longrightarrow> fsv s' y = fsv s y) \<and>
    from_free (free_sectors s) (ent d V) (ent d (fsv s'))"
  using assms
proof (induction ids arbitrary: s V newly sector p)
  case Nil
  have V: "V = fsv s" using Nil.prems(6) by (simp add: fill_view_def)
  have vp: "valid p" "length p = REDIRECTION_LEVEL" using Nil.prems(7,8) by simp_all
  have sz: "used_sectors s \<subseteq> {..<fsz s}" using used_below Nil.prems(3) by (simp add: volume_ok_def)
  have sec: "sector \<in> nodes (ent d V)" using node_in_nodes [OF vp(1), of "ent d V"] Nil.prems(10,11) by simp
  show ?case
  proof (cases newly)
    case False
    have "grown (ent d V) (ent d V) p" using Nil.prems(10-12) by (simp add: grown_def)
    then show ?thesis using False Nil.prems V by (intro exI [of _ s]) (simp add: frame_refl calm_cache_ok from_free_def)
  next
    case True
    have x: "sector < fsz s" "sector \<notin> H" using sec Nil.prems(13) sz by auto
    have n: "0 < n" using Nil.prems(2) by simp
    obtain s1 e s2 where t: "get_sector_handle mem sector True s = Some (s1, Some e)"
      "release_sector_handle sector (Some e) True True (set_data e (fill_words 0 128 (sector_data e s1)) s1) = Some s2" "frame {} s s2"
      "fsv s2 = (fsv s)(sector := clip (fill_words 0 128 (fsv s sector)))" "fs_map s2 = fs_map s"
      using poke_sector [OF Nil.prems(1) n x(1) _ in_sector_fill, of True mem 0 128] x(2) by blast
    have z: "clip (fill_words 0 128 (fsv s sector)) = (\<lambda>_. 0)" by (auto simp: clip_def fill_0 BLOCK_SECTOR_SIZE_def)
    have leaf: "sector \<notin> inner_nodes (ent d V)" using node_leaf [OF Nil.prems(12) vp] Nil.prems(10,11) by simp
    have nd: "node (ent d (fsv s2)) r = node (ent d V) r" if "valid r" for r
      by (rule ent_node_cong [OF _ _ that]) (use t(4) leaf V in auto)
    note nc = nodes_cong [OF nd]
    have "grown (ent d V) (ent d (fsv s2)) p" unfolding grown_def using nc(3) Nil.prems(10-12) nd vp(1) by auto
    moreover have "fsv s2 (node (ent d (fsv s2)) p) = (\<lambda>_. 0)" using nd [OF vp(1)] Nil.prems(10) t(4) z by simp
    moreover have "sector \<notin> FM" using sec Nil.prems(13) by auto
    then have "volume_ok fm_ok FM s2" using vol_ok_step [OF Nil.prems(3) frame_inodes [OF t(3)] frame_size [OF t(3)] t(5)] t(4) by auto
    moreover have "alloc_levels mem bw [] sector newly s = Some (s2, True)" using True t(1,2) by simp
    moreover have "\<forall>y. y \<noteq> sector \<longrightarrow> fsv s2 y = fsv s y" using t(4) by simp
    moreover have "from_free (free_sectors s) (ent d V) (ent d (fsv s2))" using nc(1,2) by (simp add: from_free_def)
    ultimately show ?thesis using True t(3,5) nc(1) Nil.prems(13) used_cong [OF t(5)] frame_size [OF t(3)]
      by (intro exI [of _ s2]) (simp add: free_sectors_def)
  qed
next
  case (Cons i ids)
  let ?E = "ent d V"
  have V: "V = fill_view newly sector (fsv s)" using Cons.prems(6) by simp
  have v: "valid (rev ids @ i # p)" "length (rev ids @ i # p) = REDIRECTION_LEVEL" using Cons.prems(7,8) by simp_all
  have vip: "valid (i # p)" using v(1) Cons.prems(9) by (auto simp: valid_def)
  then have i: "i < 128" "valid p" using valid_Cons [OF vip Cons.prems(9)] by auto
  have sz: "used_sectors s \<subseteq> {..<fsz s}" using used_below Cons.prems(3) by (simp add: volume_ok_def)
  have inn: "sector \<in> inner_nodes ?E" using node_in_inner [OF i(2), of ?E] Cons.prems(8,10,11) by simp
  then have sec: "sector < fsz s" "sector \<notin> H" "sector \<notin> FM" using inner_subset Cons.prems(13) sz by blast+
  show ?case
  proof (cases "word_at (V sector) i = NO_SECTOR")
    case True
    have "free_sectors s \<noteq> {}" using Cons.prems(14) by auto
    from alloc_entry [OF Cons.prems(1-4) sec V i(1) True this, of mem ids] obtain s5 x where
      a: "alloc_levels mem bw (i # ids) sector newly s = alloc_levels mem bw ids x True s5" "frame {} s s5" "volume_ok fm_ok FM s5"
        "x \<in> free_sectors s" "used_sectors s5 = insert x (used_sectors s)" "fsv s5 sector = clip (put_word (V sector) i x)"
        "\<forall>y. y \<notin> FM \<longrightarrow> y \<noteq> sector \<longrightarrow> fsv s5 y = fsv s y" by blast
    have xs: "x \<notin> used_sectors s" "x < fsz s" using a(4) by (auto simp: free_sectors_def)
    then have xn: "x \<notin> nodes ?E" "x \<notin> FM" "x \<notin> H" using Cons.prems(3,5,13) by (auto simp: volume_ok_def)
    have xN: "x \<noteq> NO_SECTOR" "x < 2 ^ 32" using xs(2) calm_size [OF Cons.prems(1)] by (auto simp: NO_SECTOR_def)
    define W where "W = fill_view (ids \<noteq> []) x (fsv s5)"
    have deeper: "ids \<noteq> [] \<longleftrightarrow> length (i # p) < REDIRECTION_LEVEL" using v(2) by (cases ids) auto
    have v5: "fsv s5 y k = V y k" if "y \<in> inner_nodes ?E" "y \<noteq> sector" for y k
    proof -
      have "y \<notin> FM" using that(1) inner_subset Cons.prems(13) by blast
      moreover have "V y k = fsv s y k" using V that(2) by (simp add: fill_view_def)
      ultimately show ?thesis using a(7) that(2) by simp
    qed
    have nd: "node (ent d W) q = (if q = i # p then x else node ?E q)" if "valid q" for q
      by (rule entry_tree [OF Cons.prems(12) vip Cons.prems(9-11) True xn(1) xN _ v5 W_def deeper that])
        (simp_all add: a(6) clip_def BLOCK_SECTOR_SIZE_def)
    have emp: "node ?E (i # p) = NO_SECTOR" using Cons.prems(9-11) True by simp
    note te = tree_extend [OF Cons.prems(12) vip xn(1) xN(1) nd emp]
    have fr: "free_sectors s5 = free_sectors s - {x}" using a(5) frame_size [OF a(2)] by (auto simp: free_sectors_def)
    have fin: "finite (free_sectors s)" by (simp add: free_sectors_def)
    have pre: "length ids \<le> card (free_sectors s5)" "card (free_sectors s) = card (free_sectors s5) + 1"
      using Cons.prems(14) fr a(4) fin card_gt_0_iff [of "free_sectors s"] by (auto simp: card_Diff_singleton)
    have nodesW: "nodes (ent d W) \<subseteq> used_sectors s5 - FM - H" using te(2) a(5) xn(2,3) Cons.prems(13) by auto
    obtain s' where ih: "alloc_levels mem bw ids x True s5 = Some (s', True)" "frame {} s5 s'" "volume_ok fm_ok FM s'"
      "used_sectors s5 \<subseteq> used_sectors s'" "card (free_sectors s5) \<le> card (free_sectors s') + length ids"
      "grown (ent d W) (ent d (fsv s')) (rev ids @ i # p)" "nodes (ent d (fsv s')) \<subseteq> used_sectors s' - FM - H"
      "True \<and> ids = [] \<or> node (ent d W) (rev ids @ i # p) = NO_SECTOR \<longrightarrow> fsv s' (node (ent d (fsv s')) (rev ids @ i # p)) = (\<lambda>_. 0)"
      "\<forall>y \<in> used_sectors s5. y \<notin> FM \<longrightarrow> y \<notin> inner_nodes (ent d W) \<longrightarrow> (True \<longrightarrow> y \<noteq> x) \<longrightarrow> fsv s' y = fsv s5 y"
      "from_free (free_sectors s5) (ent d W) (ent d (fsv s'))"
      using Cons.IH [OF calm_frame [OF Cons.prems(1) a(2)] Cons.prems(2) a(3) Cons.prems(4), of W True x "i # p"]
        W_def v te(1) nodesW pre(1) nd [OF vip] xN(1) Cons.prems(5) a(5) by auto
    have "i # p = rev ids @ i # p" if "length (i # p) = REDIRECTION_LEVEL" using that v(2) by simp
    from grown_extend [OF ih(6) nd emp this] have "grown ?E (ent d (fsv s')) (rev (i # ids) @ p)" by simp
    moreover have "fsv s' (node (ent d (fsv s')) (rev ids @ i # p)) = (\<lambda>_. 0)"
    proof (cases "ids = []")
      case False
      then have "rev ids @ i # p \<noteq> i # p" by simp
      moreover have "node ?E (rev ids @ i # p) = NO_SECTOR" using node_NO_append [OF emp, of "rev ids"] by simp
      ultimately show ?thesis using ih(8) nd [OF v(1)] by simp
    qed (use ih(8) in simp)
    moreover have "fsv s' y = fsv s y" if y: "y \<in> used_sectors s" "y \<notin> FM" "y \<notin> inner_nodes ?E" for y
    proof -
      have yx: "y \<noteq> x" "y \<noteq> sector" using y xs(1) inn by auto
      then have "y \<notin> inner_nodes (ent d W)" using te(3) y(3) by (auto split: if_splits)
      then have "fsv s' y = fsv s5 y" using ih(9) y(1,2) yx(1) a(5) by simp
      then show ?thesis using a(7) y(2) yx(2) by simp
    qed
    moreover have "from_free (free_sectors s) ?E (ent d (fsv s'))"
      by (rule from_free_trans [OF _ ih(10)]) (use te(2,3) a(4) fr in \<open>auto simp: from_free_def\<close>)
    ultimately show ?thesis using a(1,5) ih(1-5,7) pre(2) frame_trans [OF a(2) ih(2)] by (intro exI [of _ s']) auto
  next
    case False
    have "word_at (clip (fill_words NO_SECTOR 128 (fsv s sector))) i = NO_SECTOR" using i(1) by (simp add: word_at_fill NO_SECTOR_def)
    then have old: "\<not> newly" using False V by (auto simp: fill_view_def)
    then have VV: "V = fsv s" using V by (simp add: fill_view_def)
    have n: "0 < n" using Cons.prems(2) by simp
    obtain s1 e s2 where t: "get_sector_handle mem sector True s = Some (s1, Some e)" "word_at (sector_data e s1) i = word_at (fsv s sector) i"
      "release_sector_handle sector (Some e) False True s1 = Some s2" "frame {} s s2" "fsv s2 = fsv s" "fs_map s2 = fs_map s"
      using peek_word [OF Cons.prems(1) n sec(1) _ i(1), of True mem] sec(2) by blast
    have nx: "node ?E (i # p) = word_at (fsv s sector) i" using Cons.prems(9-11) VV by simp
    have run: "alloc_levels mem bw (i # ids) sector newly s = alloc_levels mem bw ids (node ?E (i # p)) False s2"
      using t(1-3) old False VV nx by (simp add: Let_def)
    have vol2: "volume_ok fm_ok FM s2" using vol_ok_step [OF Cons.prems(3) frame_inodes [OF t(4)] frame_size [OF t(4)] t(6)] t(5) by simp
    have us: "used_sectors s2 = used_sectors s" "free_sectors s2 = free_sectors s" using used_cong [OF t(6)] frame_size [OF t(4)] by (simp_all add: free_sectors_def)
    obtain s' where ih: "alloc_levels mem bw ids (node ?E (i # p)) False s2 = Some (s', True)" "frame {} s2 s'" "volume_ok fm_ok FM s'"
      "used_sectors s2 \<subseteq> used_sectors s'" "card (free_sectors s2) \<le> card (free_sectors s') + length ids"
      "grown ?E (ent d (fsv s')) (rev ids @ i # p)" "nodes (ent d (fsv s')) \<subseteq> used_sectors s' - FM - H"
      "False \<and> ids = [] \<or> node ?E (rev ids @ i # p) = NO_SECTOR \<longrightarrow> fsv s' (node (ent d (fsv s')) (rev ids @ i # p)) = (\<lambda>_. 0)"
      "\<forall>y \<in> used_sectors s2. y \<notin> FM \<longrightarrow> y \<notin> inner_nodes ?E \<longrightarrow> (False \<longrightarrow> y \<noteq> node ?E (i # p)) \<longrightarrow> fsv s' y = fsv s2 y"
      "from_free (free_sectors s2) ?E (ent d (fsv s'))"
      using Cons.IH [OF calm_frame [OF Cons.prems(1) t(4)] Cons.prems(2) vol2 Cons.prems(4), of V False "node ?E (i # p)" "i # p"]
        t(5) VV v us Cons.prems(5,12-14) False nx by (auto simp: fill_view_def)
    then show ?thesis using run us t(5) old frame_trans [OF t(4) ih(2)] by (intro exI [of _ s']) auto
  qed
qed

end

end
