(* ===== verification/InodeGrow.thy ===== *)
theory InodeGrow
  imports InodeAlloc
begin

text \<open>
  \<^verbatim>\<open>allocate_inode_sector\<close> and the loops around it, for an inode that lies in a sector that the caller holds
  (\<^verbatim>\<open>inode_write_at\<close>) and for one that is still in memory (\<^verbatim>\<open>inode_create\<close>).
\<close>

section \<open>Pointers to inodes\<close>

text \<open>\<open>M\<close> is the sector that holds the inode, if there is one.\<close>

definition ptr_ok :: "inode_ptr \<Rightarrow> nat set \<Rightarrow> fs \<Rightarrow> bool" where
  "ptr_ok p M s \<longleftrightarrow> (case p of Calloc \<Rightarrow> M = {} | Slot e \<Rightarrow> \<exists>main s0 s1. M = {main} \<and> held main True s0 s1 e \<and> frame {e} s1 s)"

definition ptr_frame :: "inode_ptr \<Rightarrow> fs \<Rightarrow> fs \<Rightarrow> bool" where
  "ptr_frame p s s' \<longleftrightarrow> (case p of Calloc \<Rightarrow> frame {} s (s'\<lparr>disk_inode := disk_inode s\<rparr>) | Slot e \<Rightarrow> frame {e} s s')"

lemma frame_disk_inode [simp]:
  "fsv (s\<lparr>disk_inode := d\<rparr>) = fsv s" "fsz (s\<lparr>disk_inode := d\<rparr>) = fsz s" "calm n H (s\<lparr>disk_inode := d\<rparr>) = calm n H s"
  by (simp_all add: fsv_def fsz_def calm_def)

lemma ptr_frame_trans: "ptr_frame p a b \<Longrightarrow> ptr_frame p b c \<Longrightarrow> ptr_frame p a c"
proof (cases p)
  case Calloc
  assume "ptr_frame p a b" "ptr_frame p b c"
  then have "frame {} a (b\<lparr>disk_inode := disk_inode a\<rparr>)" "frame {} (b\<lparr>disk_inode := disk_inode a\<rparr>) (c\<lparr>disk_inode := disk_inode a\<rparr>)"
    using Calloc by (simp_all add: ptr_frame_def frame_def)
  then show ?thesis using Calloc frame_trans by (fastforce simp: ptr_frame_def)
next
  case (Slot e)
  assume "ptr_frame p a b" "ptr_frame p b c"
  then show ?thesis using Slot frame_trans by (auto simp: ptr_frame_def)
qed

lemma frame_ptr: "frame {} s s' \<Longrightarrow> ptr_frame p s s'"
proof (cases p)
  case Calloc
  assume f: "frame {} s s'"
  then have "s'\<lparr>disk_inode := disk_inode s\<rparr> = s'" by (simp add: frame_def)
  then show ?thesis using Calloc f by (simp add: ptr_frame_def)
next
  case (Slot e)
  assume f: "frame {} s s'"
  then show ?thesis using Slot frame_mono by (fastforce simp: ptr_frame_def)
qed

lemma ptr_frame_fields:
  assumes "ptr_frame p s s'"
  shows "inodes s' = inodes s" "fsz s' = fsz s" "calm n H s \<Longrightarrow> calm n H s'"
proof -
  have "inodes s' = inodes s \<and> fsz s' = fsz s \<and> (calm n H s \<longrightarrow> calm n H s')"
  proof (cases p)
    case Calloc
    then have f: "frame {} s (s'\<lparr>disk_inode := disk_inode s\<rparr>)" using assms by (simp add: ptr_frame_def)
    then show ?thesis using frame_inodes [OF f] frame_size [OF f] calm_frame [OF _ f, of n H] by simp
  next
    case (Slot e)
    then have f: "frame {e} s s'" using assms by (simp add: ptr_frame_def)
    then show ?thesis using frame_inodes [OF f] frame_size [OF f] calm_frame [OF _ f, of n H] by simp
  qed
  then show "inodes s' = inodes s" "fsz s' = fsz s" "calm n H s \<Longrightarrow> calm n H s'" by auto
qed

lemma ptr_ok_step:
  assumes "ptr_ok p M s" "ptr_frame p s s'"
  shows "ptr_ok p M s'"
proof (cases p)
  case Calloc then show ?thesis using assms(1) by (simp add: ptr_ok_def)
next
  case (Slot e)
  then obtain main s0 s1 where "M = {main}" "held main True s0 s1 e" "frame {e} s1 s" using assms(1) by (auto simp: ptr_ok_def)
  moreover have "frame {e} s s'" using Slot assms(2) by (simp add: ptr_frame_def)
  ultimately show ?thesis using Slot frame_trans by (simp add: ptr_ok_def) blast
qed

lemma ptr_set:
  assumes "ptr_ok p M s" "cache_ok (buffer_cache s)"
  shows "ptr_frame p s (set_disk_data p f s)" "fs_map (set_disk_data p f s) = fs_map s" "\<And>y. y \<notin> M \<Longrightarrow> fsv (set_disk_data p f s) y = fsv s y"
    "\<And>k. k < 512 \<Longrightarrow> disk_data p (set_disk_data p f s) k = f k"
proof -
  have "ptr_frame p s (set_disk_data p f s) \<and> fs_map (set_disk_data p f s) = fs_map s \<and> (\<forall>y. y \<notin> M \<longrightarrow> fsv (set_disk_data p f s) y = fsv s y) \<and>
    (\<forall>k < 512. disk_data p (set_disk_data p f s) k = f k)"
  proof (cases p)
    case Calloc then show ?thesis using assms(2) by (simp add: ptr_frame_def frame_def)
  next
    case (Slot e)
    then obtain main s0 s1 where m: "M = {main}" "held main True s0 s1 e" "frame {e} s1 s" using assms(1) by (auto simp: ptr_ok_def)
    note h = held_set [OF m(2,3), of f] and sl = held_slot [OF m(2,3)]
    have "frame {e} s (set_data e f s)"
      using put_bytes_ok(1) [OF sl(5,1,3)] keeps_put_bytes [OF sl(5,1)] by (simp add: frame_def set_data_def)
    moreover have "sector_data e (set_data e f s) k = f k" if "k < 512" for k
      using held_data [OF m(2) h(1) that] h(2) that by (simp add: clip_def BLOCK_SECTOR_SIZE_def)
    ultimately show ?thesis using Slot m(1) h by (simp add: ptr_frame_def)
  qed
  then show "ptr_frame p s (set_disk_data p f s)" "fs_map (set_disk_data p f s) = fs_map s" "\<And>y. y \<notin> M \<Longrightarrow> fsv (set_disk_data p f s) y = fsv s y"
    "\<And>k. k < 512 \<Longrightarrow> disk_data p (set_disk_data p f s) k = f k" by blast+
qed

lemma ptr_keep:
  assumes "ptr_ok p M s" "frame {} s s'" "\<And>y. y \<in> M \<Longrightarrow> fsv s' y = fsv s y" "k < 512"
  shows "disk_data p s' k = disk_data p s k"
proof (cases p)
  case Calloc then show ?thesis using assms(2) by (simp add: frame_def)
next
  case (Slot e)
  then obtain main s0 s1 where m: "M = {main}" "held main True s0 s1 e" "frame {e} s1 s" using assms(1) by (auto simp: ptr_ok_def)
  have "frame {e} s1 s'" using frame_trans [OF m(3)] frame_mono [OF assms(2)] by blast
  then show ?thesis using Slot held_data [OF m(2,3) assms(4)] held_data [OF m(2) _ assms(4)] assms(3) m(1) by simp
qed

text \<open>Sectors \<open>lo\<close> to \<open>hi - 1\<close> of the file exist, and no others were added.\<close>

definition stretched :: "entries \<Rightarrow> entries \<Rightarrow> nat \<Rightarrow> nat \<Rightarrow> bool" where
  "stretched E E' lo hi \<longleftrightarrow> tree_inj E' \<and> (\<forall>r. valid r \<longrightarrow> node E r \<noteq> NO_SECTOR \<longrightarrow> node E' r = node E r) \<and>
     (\<forall>j. lo \<le> j \<longrightarrow> j < hi \<longrightarrow> node E' (path j) \<noteq> NO_SECTOR) \<and>
     (\<forall>j < MAX_INDEX. node E' (path j) \<noteq> NO_SECTOR \<longrightarrow> node E (path j) \<noteq> NO_SECTOR \<or> lo \<le> j \<and> j < hi)"

lemma grown_stretched:
  assumes "grown E E' (path j)" "j < MAX_INDEX"
  shows "stretched E E' j (j + 1)"
proof -
  have g: "tree_inj E'" "node E' (path j) \<noteq> NO_SECTOR" "\<forall>r. valid r \<longrightarrow> node E r \<noteq> NO_SECTOR \<longrightarrow> node E' r = node E r"
    "\<forall>r. valid r \<longrightarrow> length r = REDIRECTION_LEVEL \<longrightarrow> node E' r \<noteq> NO_SECTOR \<longrightarrow> r = path j \<or> node E r \<noteq> NO_SECTOR"
    using assms(1) by (simp_all add: grown_def)
  have "node E (path i) \<noteq> NO_SECTOR \<or> i = j" if "i < MAX_INDEX" "node E' (path i) \<noteq> NO_SECTOR" for i
    using g(4) valid_path [OF that(1)] that path_inj [OF that(1) assms(2)] by auto
  moreover have "i = j" if "j \<le> i" "i < j + 1" for i using that by simp
  ultimately show ?thesis unfolding stretched_def using g(1-3) by (metis le_refl less_add_one)
qed

lemma stretched_trans:
  assumes "stretched A B lo mid" "stretched B C mid hi" "lo \<le> mid" "mid \<le> hi" "hi \<le> MAX_INDEX"
  shows "stretched A C lo hi"
proof -
  have a: "\<And>r. valid r \<Longrightarrow> node A r \<noteq> NO_SECTOR \<Longrightarrow> node B r = node A r" "\<And>j. lo \<le> j \<Longrightarrow> j < mid \<Longrightarrow> node B (path j) \<noteq> NO_SECTOR"
    "\<And>j. j < MAX_INDEX \<Longrightarrow> node B (path j) \<noteq> NO_SECTOR \<Longrightarrow> node A (path j) \<noteq> NO_SECTOR \<or> lo \<le> j \<and> j < mid"
    using assms(1) by (simp_all add: stretched_def)
  have b: "tree_inj C" "\<And>r. valid r \<Longrightarrow> node B r \<noteq> NO_SECTOR \<Longrightarrow> node C r = node B r" "\<And>j. mid \<le> j \<Longrightarrow> j < hi \<Longrightarrow> node C (path j) \<noteq> NO_SECTOR"
    "\<And>j. j < MAX_INDEX \<Longrightarrow> node C (path j) \<noteq> NO_SECTOR \<Longrightarrow> node B (path j) \<noteq> NO_SECTOR \<or> mid \<le> j \<and> j < hi"
    using assms(2) by (simp_all add: stretched_def)
  have "node C (path j) \<noteq> NO_SECTOR" if "lo \<le> j" "j < hi" for j
  proof (cases "j < mid")
    case True
    then have "node B (path j) \<noteq> NO_SECTOR" using a(2) that(1) by blast
    then show ?thesis using b(2) [OF valid_path] that(2) assms(5) by simp
  qed (use b(3) that in simp)
  moreover have "node A (path j) \<noteq> NO_SECTOR \<or> lo \<le> j \<and> j < hi" if "j < MAX_INDEX" "node C (path j) \<noteq> NO_SECTOR" for j
    using b(4) [OF that] a(3) [OF that(1)] assms(3,4) by auto
  moreover have "node C r = node A r" if "valid r" "node A r \<noteq> NO_SECTOR" for r using a(1) [OF that] b(2) [OF that(1)] that(2) by simp
  ultimately show ?thesis unfolding stretched_def using b(1) by blast
qed

section \<open>Allocation\<close>

text \<open>
  The contract of the allocating calls. The tree \<open>E\<close> of the inode at \<open>p\<close> is in used sectors that nobody holds; after
  the call it has grown by sectors that were free. \<open>new_zero\<close>: a data sector that is new is full of zeros.
\<close>

definition tree_at :: "nat set \<Rightarrow> nat set \<Rightarrow> inode_ptr \<Rightarrow> (nat \<Rightarrow> u8) \<Rightarrow> fs \<Rightarrow> bool" where
  "tree_at FM H p d s \<longleftrightarrow> (\<forall>k < 512. disk_data p s k = d k) \<and> tree_inj (ent d (fsv s)) \<and>
     nodes (ent d (fsv s)) \<subseteq> used_sectors s - FM - H"

definition new_zero :: "entries \<Rightarrow> entries \<Rightarrow> fs \<Rightarrow> bool" where
  "new_zero E E' s' \<longleftrightarrow> (\<forall>j < MAX_INDEX. node E (path j) = NO_SECTOR \<longrightarrow> node E' (path j) \<noteq> NO_SECTOR \<longrightarrow> fsv s' (node E' (path j)) = (\<lambda>_. 0))"

definition others_kept :: "nat set \<Rightarrow> entries \<Rightarrow> entries \<Rightarrow> fs \<Rightarrow> fs \<Rightarrow> bool" where
  "others_kept X E E' s s' \<longleftrightarrow> used_sectors s \<subseteq> used_sectors s' \<and> fsz s' = fsz s \<and> from_free (free_sectors s) E E' \<and> (\<forall>y \<in> used_sectors s. y \<notin> X \<longrightarrow> y \<notin> inner_nodes E \<longrightarrow> fsv s' y = fsv s y)"

text \<open>Filling an empty entry of the inode itself.\<close>

lemma root_tree:
  assumes inj: "tree_inj (ent d V)" and a: "a < ON_INODE_DIR_SIZE" and emp: "dir_at d a = NO_SECTOR"
    and x: "x \<notin> nodes (ent d V)" "x < 2 ^ 32" and V': "\<And>y k. y \<in> inner_nodes (ent d V) \<Longrightarrow> V' y k = V y k"
  shows "valid q \<Longrightarrow> node (ent (put_dir d a x) (fill_view True x V')) q = (if q = [a] then x else node (ent d V) q)"
proof (rule node_extend [OF inj _ _ _ x(1)])
  have nx: "y \<noteq> x" if "y \<in> inner_nodes (ent d V)" for y using that x(1) inner_subset by blast
  show "valid [a]" using a by (simp add: valid_def REDIRECTION_LEVEL_def ON_INODE_DIR_SIZE_def)
  show "node (ent d V) [a] = NO_SECTOR" using emp by simp
  show "ent (put_dir d a x) (fill_view True x V') None j = (if loc (ent d V) [] = None \<and> j = a then x else ent d V None j)" for j
    by (simp add: loc_def dir_at_put_dir [OF x(2)])
  show "ent (put_dir d a x) (fill_view True x V') (Some y) j = (if loc (ent d V) [] = Some y \<and> j = a then x else ent d V (Some y) j)"
    if "y \<in> inner_nodes (ent d V)" "j < 128" for y j
    using nx [OF that(1)] V' [OF that(1)] by (simp add: loc_def fill_view_def) (intro word_at_cong [OF _ that(2)], simp)
  show "ent (put_dir d a x) (fill_view True x V') (Some x) j = NO_SECTOR" if "j < 128" for j
    using that by (simp add: fill_view_def word_at_fill NO_SECTOR_def)
qed auto

context map_file
begin

lemma allocate_ok:
  assumes c: "calm n H s" "2 < n" and v: "volume_ok fm_ok FM s" "H \<inter> FM = {}" "H \<subseteq> used_sectors s"
    and p: "ptr_ok p M s" "M \<subseteq> H" and t: "tree_at FM H p d s" and i: "idx < MAX_INDEX" and free: "3 \<le> card (free_sectors s)"
  shows "\<exists>s' d'. allocate_inode_sector mem bw p idx s = Some (s', True) \<and> ptr_frame p s s' \<and> volume_ok fm_ok FM s' \<and>
    card (free_sectors s) \<le> card (free_sectors s') + 3 \<and> tree_at FM H p d' s' \<and> (\<forall>k < 12. d' k = d k) \<and>
    stretched (ent d (fsv s)) (ent d' (fsv s')) idx (idx + 1) \<and> new_zero (ent d (fsv s)) (ent d' (fsv s')) s' \<and>
    others_kept (FM \<union> M) (ent d (fsv s)) (ent d' (fsv s')) s s'"
proof -
  let ?a = "idx div 16384 mod 128" let ?E = "ent d (fsv s)"
  define ids where "ids = [idx div 128 mod 128, idx mod 128]"
  have ids: "ids \<noteq> []" "length ids = 2" by (simp_all add: ids_def)
  have dat: "\<And>k. k < 512 \<Longrightarrow> disk_data p s k = d k" and inj: "tree_inj ?E" and nin: "nodes ?E \<subseteq> used_sectors s - FM - H"
    using t by (simp_all add: tree_at_def)
  have vp: "valid (path idx)" using valid_path [OF i] .
  then have a: "?a < ON_INODE_DIR_SIZE" by (simp add: valid_def path_def)
  have path: "rev ids @ [?a] = path idx" "rev (path idx) = ?a # ids" by (simp_all add: path_def ids_def)
  have dir: "dir_at (disk_data p s) ?a = dir_at d ?a" by (rule dir_at_cong [OF dat a])
  have MF: "M \<inter> FM = {}" "M \<inter> nodes ?E = {}" "M \<subseteq> used_sectors s" using p(2) v(2,3) nin by auto
  have fin: "finite (free_sectors s)" by (simp add: free_sectors_def)
  note l3 = length_path(1) [of idx]
  have last: "\<exists>s' d'. allocate_inode_sector mem bw p idx s = Some (s', True) \<and> ptr_frame p s s' \<and> volume_ok fm_ok FM s' \<and>
    card (free_sectors s) \<le> card (free_sectors s') + 3 \<and> tree_at FM H p d' s' \<and> (\<forall>k < 12. d' k = d k) \<and>
    stretched ?E (ent d' (fsv s')) idx (idx + 1) \<and> new_zero ?E (ent d' (fsv s')) s' \<and> others_kept (FM \<union> M) ?E (ent d' (fsv s')) s s'"
    if r: "allocate_inode_sector mem bw p idx s = Some (s', True)" "ptr_frame p s s'" "volume_ok fm_ok FM s'"
      "card (free_sectors s) \<le> card (free_sectors s') + 3" "\<forall>k < 512. disk_data p s' k = d' k" "nodes (ent d' (fsv s')) \<subseteq> used_sectors s' - FM - H"
      "\<forall>k < 12. d' k = d k" "grown ?E (ent d' (fsv s')) (path idx)"
      "node ?E (path idx) = NO_SECTOR \<longrightarrow> fsv s' (node (ent d' (fsv s')) (path idx)) = (\<lambda>_. 0)"
      "used_sectors s \<subseteq> used_sectors s'" "\<forall>y \<in> used_sectors s. y \<notin> FM \<union> M \<longrightarrow> y \<notin> inner_nodes ?E \<longrightarrow> fsv s' y = fsv s y"
      "from_free (free_sectors s) ?E (ent d' (fsv s'))" for s' d'
  proof -
    have "new_zero ?E (ent d' (fsv s')) s'" unfolding new_zero_def
    proof (intro allI impI)
      fix j assume j: "j < MAX_INDEX" "node ?E (path j) = NO_SECTOR" "node (ent d' (fsv s')) (path j) \<noteq> NO_SECTOR"
      then have "path j = path idx" using r(8) valid_path [OF j(1)] by (auto simp: grown_def)
      then show "fsv s' (node (ent d' (fsv s')) (path j)) = (\<lambda>_. 0)" using r(9) j(2) by simp
    qed
    moreover have "tree_at FM H p d' s'" using r(5,6,8) by (simp add: tree_at_def grown_def)
    ultimately show ?thesis using r grown_stretched [OF r(8) i] ptr_frame_fields(2) [OF r(2)] unfolding others_kept_def by blast
  qed
  show ?thesis
  proof (cases "dir_at d ?a = NO_SECTOR")
    case False
    have V: "fsv s = fill_view (False \<and> ids \<noteq> []) (dir_at d ?a) (fsv s)" by (simp add: fill_view_def)
    obtain s' where r: "alloc_levels mem bw ids (dir_at d ?a) False s = Some (s', True)" "frame {} s s'" "volume_ok fm_ok FM s'"
      "used_sectors s \<subseteq> used_sectors s'" "card (free_sectors s) \<le> card (free_sectors s') + length ids"
      "grown ?E (ent d (fsv s')) (path idx)" "nodes (ent d (fsv s')) \<subseteq> used_sectors s' - FM - H"
      "node ?E (path idx) = NO_SECTOR \<longrightarrow> fsv s' (node (ent d (fsv s')) (path idx)) = (\<lambda>_. 0)"
      "\<forall>y \<in> used_sectors s. y \<notin> FM \<longrightarrow> y \<notin> inner_nodes ?E \<longrightarrow> fsv s' y = fsv s y"
      "from_free (free_sectors s) ?E (ent d (fsv s'))"
      using alloc_levels_ok [OF c v V, where p = "[?a]" and d = d and mem = mem] vp l3 inj nin free False by (auto simp: path(1) ids)
    have "fsv s' y = fsv s y" if "y \<in> M" for y
    proof -
      have "y \<notin> inner_nodes ?E" using that MF(2) inner_subset by blast
      then show ?thesis using r(9) that MF(1,3) by blast
    qed
    then have "\<forall>k < 512. disk_data p s' k = d k" using ptr_keep [OF p(1) r(2)] dat by simp
    moreover have "allocate_inode_sector mem bw p idx s = Some (s', True)"
      using r(1) i dir False by (simp add: allocate_inode_sector_def redirection_path path(2))
    ultimately show ?thesis by (intro last [of s' d]) (use r ids(2) frame_ptr [OF r(2)] in auto)
  next
    case True
    have "free_sectors s \<noteq> {}" using free by auto
    then obtain s3 x where al: "alloc_sector bw s = Some (s3, Some x)" "x \<in> free_sectors s" "used_sectors s3 = insert x (used_sectors s)"
      "volume_ok fm_ok FM s3" "frame {} s s3" "\<forall>y. y \<notin> FM \<longrightarrow> fsv s3 y = fsv s y"
      using alloc_sector_ok [OF v(1) c(1) _ v(2)] c(2) by fastforce
    have xs: "x \<notin> used_sectors s" "x < fsz s" using al(2) by (auto simp: free_sectors_def)
    then have xn: "x \<notin> nodes ?E" "x \<notin> FM" "x \<notin> H" using nin v(1,3) by (auto simp: volume_ok_def)
    have xN: "x \<noteq> NO_SECTOR" "x < 2 ^ 32" using xs(2) calm_size [OF c(1)] by (auto simp: NO_SECTOR_def)
    let ?f = "put_dir (disk_data p s3) ?a x" let ?d = "put_dir d ?a x" let ?s4 = "set_disk_data p ?f s3"
    have d3: "disk_data p s3 k = d k" if "k < 512" for k using ptr_keep [OF p(1) al(5) _ that] al(6) MF(1) dat [OF that] by auto
    have p3: "ptr_ok p M s3" using ptr_ok_step [OF p(1) frame_ptr [OF al(5)]] .
    have "cache_ok (buffer_cache s3)" using al(5) by (simp add: frame_def)
    note st = ptr_set [OF p3 this, where f = ?f]
    have d4: "disk_data p ?s4 k = ?d k" if "k < 512" for k
      using st(4) [OF that] d3 in_sector_put_dir [of ?a x] that by (simp add: in_sector_def BLOCK_SECTOR_SIZE_def)
    have pf4: "ptr_frame p s ?s4" using ptr_frame_trans [OF frame_ptr [OF al(5)] st(1)] .
    have p4: "ptr_ok p M ?s4" using ptr_ok_step [OF p(1) pf4] .
    have v4: "volume_ok fm_ok FM ?s4"
      using vol_ok_step [OF al(4) ptr_frame_fields(1,2) [OF st(1)] st(2)] st(3) MF(1) by auto
    have u4: "used_sectors ?s4 = insert x (used_sectors s)" using used_cong [OF st(2)] al(3) by simp
    define W where "W = fill_view True x (fsv ?s4)"
    have keep: "fsv ?s4 y k = fsv s y k" if "y \<in> inner_nodes ?E" for y k
    proof -
      have "y \<notin> M" "y \<notin> FM" using that inner_subset MF(2) nin by blast+
      then show ?thesis using st(3) al(6) by simp
    qed
    have nd: "node (ent ?d W) q = (if q = [?a] then x else node ?E q)" if "valid q" for q
      unfolding W_def by (rule root_tree [OF inj a True xn(1) xN(2) keep that])
    have va: "valid [?a]" using a by (simp add: valid_def REDIRECTION_LEVEL_def)
    have emp: "node ?E [?a] = NO_SECTOR" using True by simp
    note te = tree_extend [OF inj va xn(1) xN(1) nd emp]
    have fr: "free_sectors ?s4 = free_sectors s - {x}" using u4 ptr_frame_fields(2) [OF pf4] by (auto simp: free_sectors_def)
    have cf: "card (free_sectors s) = card (free_sectors ?s4) + 1" using fr al(2) fin free by (simp add: card_Diff_singleton)
    have nW: "nodes (ent ?d W) \<subseteq> used_sectors ?s4 - FM - H" using te(2) xn nin u4 by auto
    have W: "W = fill_view (True \<and> ids \<noteq> []) x (fsv ?s4)" by (simp add: W_def ids)
    have "H \<subseteq> used_sectors ?s4" using v(3) u4 by auto
    note al2 = alloc_levels_ok [OF ptr_frame_fields(3) [OF pf4 c(1)] c(2) v4 v(2) this W, where p = "[?a]" and d = ?d and mem = mem,
        unfolded path(1) ids(2), OF vp l3 not_Cons_self2]
    have nx: "node (ent ?d W) [?a] = x" using nd [OF va] by simp
    have tin: "tree_inj (ent ?d W)" using te(1) by simp
    note al3 = al2 [OF nx xN(1) tin nW]
    have "2 \<le> card (free_sectors ?s4)" using cf free by simp
    from al3 [OF this] obtain s' where r: "alloc_levels mem bw ids x True ?s4 = Some (s', True)" "frame {} ?s4 s'" "volume_ok fm_ok FM s'"
      "used_sectors ?s4 \<subseteq> used_sectors s'" "card (free_sectors ?s4) \<le> card (free_sectors s') + 2"
      "grown (ent ?d W) (ent ?d (fsv s')) (path idx)" "nodes (ent ?d (fsv s')) \<subseteq> used_sectors s' - FM - H"
      "True \<and> ids = [] \<or> node (ent ?d W) (path idx) = NO_SECTOR \<longrightarrow> fsv s' (node (ent ?d (fsv s')) (path idx)) = (\<lambda>_. 0)"
      "\<forall>y \<in> used_sectors ?s4. y \<notin> FM \<longrightarrow> y \<notin> inner_nodes (ent ?d W) \<longrightarrow> (True \<longrightarrow> y \<noteq> x) \<longrightarrow> fsv s' y = fsv ?s4 y"
      "from_free (free_sectors ?s4) (ent ?d W) (ent ?d (fsv s'))"
      by (elim exE conjE)
    have inW: "y \<notin> inner_nodes (ent ?d W)" if "y \<noteq> x" "y \<notin> inner_nodes ?E" for y using te(3) that by (auto split: if_splits)
    have M4: "fsv s' y = fsv ?s4 y" if "y \<in> M" for y
    proof -
      have "y \<in> used_sectors s" "y \<noteq> x" "y \<notin> inner_nodes ?E" "y \<notin> FM" using that MF xs(1) inner_subset by blast+
      then show ?thesis using r(9) inW u4 by simp
    qed
    have "grown ?E (ent ?d (fsv s')) (path idx)"
      using grown_extend [OF r(6) nd emp] by (simp add: REDIRECTION_LEVEL_def)
    moreover have "node (ent ?d W) (path idx) = node ?E (path idx)" using nd [OF vp] by (simp add: path_def)
    moreover have "\<forall>k < 512. disk_data p s' k = ?d k" using ptr_keep [OF p4 r(2) M4] d4 by simp
    moreover have "fsv s' y = fsv s y" if y: "y \<in> used_sectors s" "y \<notin> FM \<union> M" "y \<notin> inner_nodes ?E" for y
    proof -
      have "y \<noteq> x" using y(1) xs(1) by auto
      then have "fsv s' y = fsv ?s4 y" using r(9) inW y u4 by simp
      then show ?thesis using st(3) al(6) y(2) by simp
    qed
    moreover have "\<forall>k < 12. ?d k = d k" using put_word_bytes [of d "3 + ?a" x] by (simp add: put_dir_def)
    moreover have "allocate_inode_sector mem bw p idx s = Some (s', True)"
      using r(1) i dir True al(1) by (simp add: allocate_inode_sector_def redirection_path path(2))
    moreover have "from_free (free_sectors s) ?E (ent ?d (fsv s'))"
      by (rule from_free_trans [OF _ r(10)]) (use te(2,3) al(2) fr in \<open>auto simp: from_free_def\<close>)
    ultimately show ?thesis
      using ptr_frame_trans [OF pf4 frame_ptr [OF r(2)]] r(3,4,5,7,8) cf u4 by (intro last [of s' ?d]) auto
  qed
qed

text \<open>The loop: sectors \<open>ptr\<close> to \<open>ptr + m - 1\<close>.\<close>

lemma alloc_range_ok:
  assumes "calm n H s" "2 < n" "volume_ok fm_ok FM s" "H \<inter> FM = {}" "H \<subseteq> used_sectors s"
    and "ptr_ok p M s" "M \<subseteq> H" "tree_at FM H p d s" "ptr + m \<le> MAX_INDEX" "3 * m \<le> card (free_sectors s)"
  shows "\<exists>s' d'. alloc_range mem bw p m ptr s = Some (s', ptr + m) \<and> ptr_frame p s s' \<and> volume_ok fm_ok FM s' \<and>
    card (free_sectors s) \<le> card (free_sectors s') + 3 * m \<and> tree_at FM H p d' s' \<and> (\<forall>k < 12. d' k = d k) \<and>
    stretched (ent d (fsv s)) (ent d' (fsv s')) ptr (ptr + m) \<and> new_zero (ent d (fsv s)) (ent d' (fsv s')) s' \<and>
    others_kept (FM \<union> M) (ent d (fsv s)) (ent d' (fsv s')) s s'"
  using assms
proof (induction m arbitrary: ptr s d)
  case 0
  have "ptr_frame p s s" using frame_ptr [OF frame_refl [OF calm_cache_ok [OF 0(1)]]] .
  then show ?case using 0(3,8)
    by (intro exI [of _ s] exI [of _ d]) (simp add: stretched_def new_zero_def others_kept_def tree_at_def from_free_def)
next
  case (Suc m)
  have "ptr < MAX_INDEX" "3 \<le> card (free_sectors s)" using Suc.prems(9,10) by simp_all
  from allocate_ok [OF Suc.prems(1-8) this, of mem] obtain s1 d1 where
    a: "allocate_inode_sector mem bw p ptr s = Some (s1, True)" "ptr_frame p s s1" "volume_ok fm_ok FM s1"
      "card (free_sectors s) \<le> card (free_sectors s1) + 3" "tree_at FM H p d1 s1" "\<forall>k < 12. d1 k = d k"
      "stretched (ent d (fsv s)) (ent d1 (fsv s1)) ptr (ptr + 1)" "new_zero (ent d (fsv s)) (ent d1 (fsv s1)) s1"
      "others_kept (FM \<union> M) (ent d (fsv s)) (ent d1 (fsv s1)) s s1" by (elim exE conjE)
  have H1: "H \<subseteq> used_sectors s1" using Suc.prems(5) a(9) by (auto simp: others_kept_def)
  have pre: "ptr + 1 + m \<le> MAX_INDEX" "3 * m \<le> card (free_sectors s1)" using Suc.prems(9,10) a(4) by simp_all
  from Suc.IH [OF ptr_frame_fields(3) [OF a(2) Suc.prems(1)] Suc.prems(2) a(3) Suc.prems(4) H1 ptr_ok_step [OF Suc.prems(6) a(2)] Suc.prems(7) a(5) pre]
  obtain s' d' where
    b: "alloc_range mem bw p m (ptr + 1) s1 = Some (s', ptr + 1 + m)" "ptr_frame p s1 s'" "volume_ok fm_ok FM s'"
      "card (free_sectors s1) \<le> card (free_sectors s') + 3 * m" "tree_at FM H p d' s'" "\<forall>k < 12. d' k = d1 k"
      "stretched (ent d1 (fsv s1)) (ent d' (fsv s')) (ptr + 1) (ptr + 1 + m)" "new_zero (ent d1 (fsv s1)) (ent d' (fsv s')) s'"
      "others_kept (FM \<union> M) (ent d1 (fsv s1)) (ent d' (fsv s')) s1 s'" by (elim exE conjE)
  let ?E = "ent d (fsv s)" let ?E1 = "ent d1 (fsv s1)" let ?E' = "ent d' (fsv s')"
  have st: "stretched ?E ?E' ptr (ptr + Suc m)" using stretched_trans [OF a(7) b(7)] pre(1) by simp
  have inj1: "tree_inj ?E1" and in1: "nodes ?E1 \<subseteq> used_sectors s1 - FM - H" using a(5) by (simp_all add: tree_at_def)
  have keep1: "fsv s' y = fsv s1 y" if "y \<in> used_sectors s1" "y \<notin> FM \<union> M" "y \<notin> inner_nodes ?E1" for y
    using b(9) that by (simp add: others_kept_def)
  have "new_zero ?E ?E' s'" unfolding new_zero_def
  proof (intro allI impI)
    fix j assume j: "j < MAX_INDEX" "node ?E (path j) = NO_SECTOR" "node ?E' (path j) \<noteq> NO_SECTOR"
    note vj = valid_path [OF j(1)]
    show "fsv s' (node ?E' (path j)) = (\<lambda>_. 0)"
    proof (cases "node ?E1 (path j) = NO_SECTOR")
      case True then show ?thesis using b(8) j(1,3) by (simp add: new_zero_def)
    next
      case False
      then have eq: "node ?E' (path j) = node ?E1 (path j)" using b(7) vj by (simp add: stretched_def)
      have "node ?E1 (path j) \<in> nodes ?E1" "node ?E1 (path j) \<notin> inner_nodes ?E1"
        using node_in_nodes [OF vj False] node_leaf [OF inj1 vj length_path(1) False] by blast+
      then have "fsv s' (node ?E1 (path j)) = fsv s1 (node ?E1 (path j))" using keep1 in1 Suc.prems(7) by blast
      then show ?thesis using eq a(8) j(1,2) False by (simp add: new_zero_def)
    qed
  qed
  moreover have "others_kept (FM \<union> M) ?E ?E' s s'" unfolding others_kept_def
  proof (intro conjI ballI impI)
    show "used_sectors s \<subseteq> used_sectors s'" "fsz s' = fsz s" using a(9) b(9) by (auto simp: others_kept_def)
    have "free_sectors s1 \<subseteq> free_sectors s" using a(9) by (auto simp: others_kept_def free_sectors_def)
    then show "from_free (free_sectors s) ?E ?E'" using a(9) b(9) from_free_trans by (auto simp: others_kept_def)
    fix y assume y: "y \<in> used_sectors s" "y \<notin> FM \<union> M" "y \<notin> inner_nodes ?E"
    have "inner_nodes ?E1 \<subseteq> inner_nodes ?E \<union> free_sectors s" using a(9) by (simp add: others_kept_def from_free_def)
    then have "y \<notin> inner_nodes ?E1" using y(1,3) by (auto simp: free_sectors_def)
    moreover have "y \<in> used_sectors s1" using y(1) a(9) by (auto simp: others_kept_def)
    ultimately show "fsv s' y = fsv s y" using keep1 y a(9) by (simp add: others_kept_def)
  qed
  ultimately show ?case using a b st ptr_frame_trans [OF a(2) b(2)] by (intro exI [of _ s'] exI [of _ d']) simp
qed

end

end
