(* ===== verification/InodeWrite.thy ===== *)
theory InodeWrite
  imports InodeGrow
begin

text \<open>
  \<^verbatim>\<open>inode_read_at\<close> and \<^verbatim>\<open>inode_write_at\<close> against their specification: a file is a sequence of bytes, a read
  is a slice of it, and a write replaces a slice and extends the file, with zeros in the gap.
\<close>

section \<open>Files\<close>

text \<open>An open file in order: its tree has exactly the sectors of its length, and only zeros behind its end.\<close>

definition file_inv :: "nat set \<Rightarrow> nat \<Rightarrow> fs \<Rightarrow> bool" where
  "file_inv FM a s \<longleftrightarrow> file_ok a (inode_length a s) s \<and>
     insert (main_of a s) (nodes (file_ent a s)) \<subseteq> used_sectors s - FM \<and>
     (\<forall>j < MAX_INDEX. node (file_ent a s) (path j) \<noteq> NO_SECTOR \<longrightarrow> 512 * int j < inode_length a s) \<and>
     (\<forall>k. inode_length a s \<le> int k \<longrightarrow> k div 512 < MAX_INDEX \<longrightarrow> file_byte a s k = 0)"

text \<open>The sectors of a file.\<close>

definition file_sectors :: "nat \<Rightarrow> fs \<Rightarrow> nat set" where
  "file_sectors a s = insert (main_of a s) (nodes (file_ent a s))"

text \<open>What a write of \<open>m\<close> bytes at \<open>offset\<close> does.\<close>

definition file_written :: "nat \<Rightarrow> (nat \<Rightarrow> u8) \<Rightarrow> int \<Rightarrow> int \<Rightarrow> fs \<Rightarrow> fs \<Rightarrow> bool" where
  "file_written a buffer m offset s s' \<longleftrightarrow> inode_length a s' = max (inode_length a s) (offset + m) \<and>
     (\<forall>b. b \<noteq> a \<longrightarrow> inodes s' b = inodes s b) \<and> inodes s' a = (inodes s a)\<lparr>ilength := inode_length a s'\<rparr> \<and>
     (\<forall>k. k div 512 < MAX_INDEX \<longrightarrow> file_byte a s' k =
        (if nat offset \<le> k \<and> k < nat (offset + m) then buffer (k - nat offset) else file_byte a s k))"

lemma sectors_of: "0 \<le> x \<Longrightarrow> x < 2 ^ 31 - 512 \<Longrightarrow> bytes_to_sectors x = nat ((x + 511) div 512)"
proof -
  assume "0 \<le> x" "x < 2 ^ 31 - 512"
  then have "wrap_off (x + 511) = x + 511" "(x + 511) div 512 mod 2 ^ 32 = (x + 511) div 512" by (simp_all add: wrap_off_def)
  then show ?thesis using \<open>0 \<le> x\<close> by (simp add: bytes_to_sectors_def to_size_def off_div_def)
qed

lemma below_sectors: "0 \<le> x \<Longrightarrow> j < nat ((x + 511) div 512) \<longleftrightarrow> 512 * int j < x"
proof -
  assume "0 \<le> x"
  define q where "q = (x + 511) div 512"
  have "512 * q \<le> x + 511" "x + 511 < 512 * q + 512"
    using mult_div_mod_eq [of 512 "x + 511"] pos_mod_bound [of 512 "x + 511"] pos_mod_sign [of 512 "x + 511"] unfolding q_def by linarith+
  then show ?thesis unfolding q_def [symmetric] by linarith
qed

lemma release_inodes:
  "release_sector_handle i h c b (s\<lparr>inodes := f\<rparr>) = map_option (\<lambda>s. s\<lparr>inodes := f\<rparr>) (release_sector_handle i h c b s)"
  by (auto simp: release_sector_handle_def split: option.splits bind_splits)

lemma view_inodes [simp]: "fsv (s\<lparr>inodes := f\<rparr>) = fsv s" "fsz (s\<lparr>inodes := f\<rparr>) = fsz s" "used_sectors (s\<lparr>inodes := f\<rparr>) = used_sectors s"
  "calm n H (s\<lparr>inodes := f\<rparr>) = calm n H s"
  by (simp_all add: fsv_def fsz_def used_sectors_def calm_def)

lemma no_sector_zero: "calm n H s \<Longrightarrow> fsv s NO_SECTOR k = 0"
  using calm_size [of n H s] by (simp add: fsv_def view_def fsz_def)

lemma dir_at_length: "dir_at (clip (write32 d 0 w)) j = dir_at d j" if "j < ON_INODE_DIR_SIZE"
proof -
  have "3 + j < 128" using that by (simp add: ON_INODE_DIR_SIZE_def)
  then have "word_at (clip (write32 d 0 w)) (3 + j) = word_at (write32 d 0 w) (3 + j)" by (rule word_at_clip)
  then show ?thesis unfolding dir_at_def by (simp add: word_at_def read32_write32_other)
qed

text \<open>The tree in the main sector and the tree in a copy of it are the same.\<close>

lemma file_ent_copy:
  assumes "\<And>k. k < 512 \<Longrightarrow> fsv s (main_of a s) k = d k" "valid r"
  shows "node (file_ent a s) r = node (ent d (fsv s)) r"
  unfolding file_ent_def by (rule ent_node_cong [OF _ _ assms(2)]) (use assms(1) in auto)

lemma tree_eq:
  assumes "\<And>r. valid r \<Longrightarrow> node E' r = node E r"
  shows "nodes E' = nodes E" "inner_nodes E' = inner_nodes E" "tree_inj E' = tree_inj E" "j < MAX_INDEX \<Longrightarrow> node E' (path j) = node E (path j)"
  using nodes_cong [of E' E] assms valid_path by auto

section \<open>Writing\<close>

text \<open>A file that got new sectors and then new bytes: what the whole call has done to it.\<close>

lemma inv_after_write:
  assumes "file_inv FM a s" "0 \<le> offset" "0 \<le> m" "calm n H s'"
    and main: "main_of a s' = main_of a s" "fsz s' = fsz s"
    and ok: "file_ok a (inode_length a s') s'" "insert (main_of a s') (nodes (file_ent a s')) \<subseteq> used_sectors s' - FM"
    and leaves: "\<And>j. j < MAX_INDEX \<Longrightarrow> node (file_ent a s') (path j) \<noteq> NO_SECTOR \<Longrightarrow> 512 * int j < inode_length a s'"
    and w: "file_written a buffer m offset s s'"
  shows "file_inv FM a s'"
proof -
  have len: "inode_length a s' = max (inode_length a s) (offset + m)" using w by (simp add: file_written_def)
  have "file_byte a s' k = 0" if k: "inode_length a s' \<le> int k" "k div 512 < MAX_INDEX" for k
  proof -
    have "\<not> k < nat (offset + m)" "inode_length a s \<le> int k" using k(1) len assms(2,3) by auto
    then show ?thesis using w k(2) assms(1) by (auto simp: file_written_def file_inv_def)
  qed
  then show ?thesis unfolding file_inv_def using ok leaves by blast
qed

text \<open>A write within the file does not call \<open>bw\<close> at all.\<close>

lemma write_within:
  assumes c: "calm n H s" "1 < n" and ok: "file_ok a (inode_length a s) s" and mH: "main_of a s \<notin> H"
    and d: "deny_write_cnt (inodes s a) = 0" and o: "0 \<le> offset" "0 \<le> m" "offset + m \<le> inode_length a s"
  shows "\<exists>s'. inode_write_at mem bw a buffer m offset s = Some (s', m) \<and> frame {} s s' \<and> fs_map s' = fs_map s \<and> same_tree a s s' \<and>
    (\<forall>x. x \<notin> leaves a s \<longrightarrow> fsv s' x = fsv s x) \<and> file_written a buffer m offset s s'"
proof -
  have len: "0 \<le> inode_length a s" "inode_length a s < 2 ^ 31" and mx: "main_of a s < fsz s" using ok by (simp_all add: file_ok_def)
  have n: "0 < n" using c(2) by simp
  obtain s1 e where t: "get_sector_handle mem (main_of a s) True s = Some (s1, Some e)" "held (main_of a s) True s s1 e" "fsv s1 = fsv s"
    using take_held [OF c(1) n mx] mH by blast
  obtain s2 where r: "release_sector_handle (main_of a s) (Some e) True True s1 = Some s2" "frame {} s s2" "fsv s2 = fsv s" "fs_map s2 = fs_map s"
    using held_release [OF t(2) held_start [OF t(2)], of True] t(3) held_fields(1) [OF t(2)] by auto
  note sv = same_view [OF r(2,3), of a]
  obtain s' where w: "write_loop mem a (inode_length a s) buffer m offset 0 s2 = Some (s', 0 + m)" "frame {} s2 s'" "fs_map s' = fs_map s2"
    "same_tree a s2 s'" "\<forall>x. x \<notin> leaves a s2 \<longrightarrow> fsv s' x = fsv s2 x"
    "\<forall>k. k div 512 < MAX_INDEX \<longrightarrow> file_byte a s' k =
      (if nat offset \<le> k \<and> k < nat (offset + m) then buffer (nat 0 + (k - nat offset)) else file_byte a s2 k)"
    using write_loop_ok [OF calm_frame [OF c(1) r(2)] c(2) same_tree_file_ok [OF sv(4) ok] o order_refl] by blast
  have f': "frame {} s s'" using frame_trans [OF r(2) w(2)] .
  have min: "wrap_off (offset + m) = offset + m" using o len by (simp add: wrap_off_def)
  have run: "inode_write_at mem bw a buffer m offset s = Some (s', m)"
    using d t(1) r(1) w(1) o(3) min by (simp add: inode_write_at_def Let_def main_of_def inode_length_def)
  have il': "inode_length a s' = inode_length a s" using frame_inodes [OF f'] by (simp add: inode_length_def)
  have fw: "file_written a buffer m offset s s'" unfolding file_written_def
    using il' o(3) frame_inodes [OF f'] w(6) sv(3) by (simp add: inode_length_def)
  have "leaves a s2 = leaves a s" using sv(1) by (simp add: leaves_def)
  then have "\<forall>x. x \<notin> leaves a s \<longrightarrow> fsv s' x = fsv s x" using w(5) r(3) by simp
  then show ?thesis using run f' w(3) r(4) same_tree_trans [OF sv(4) w(4)] fw by (intro exI [of _ s']) simp
qed

context map_file
begin

lemma write_in_place:
  assumes c: "calm n H s" "1 < n" and v: "volume_ok fm_ok FM s" and f: "file_inv FM a s" "file_sectors a s \<inter> H = {}"
    and d: "deny_write_cnt (inodes s a) = 0" and o: "0 \<le> offset" "0 \<le> m" "offset + m \<le> inode_length a s"
  shows "\<exists>s'. inode_write_at mem bw a buffer m offset s = Some (s', m) \<and> calm n H s' \<and> volume_ok fm_ok FM s' \<and> fsz s' = fsz s \<and>
    file_written a buffer m offset s s' \<and> file_inv FM a s' \<and> file_sectors a s' \<subseteq> file_sectors a s \<union> free_sectors s \<and>
    used_sectors s \<subseteq> used_sectors s' \<and> open_inodes s' = open_inodes s \<and>
    (\<forall>x \<in> used_sectors s. x \<notin> FM \<longrightarrow> x \<notin> file_sectors a s \<longrightarrow> fsv s' x = fsv s x)"
proof -
  have ok: "file_ok a (inode_length a s) s" using f(1) by (simp add: file_inv_def)
  have mH: "main_of a s \<notin> H" using f(2) by (auto simp: file_sectors_def)
  obtain s' where w: "inode_write_at mem bw a buffer m offset s = Some (s', m)" "frame {} s s'" "fs_map s' = fs_map s" "same_tree a s s'"
    "\<forall>x. x \<notin> leaves a s \<longrightarrow> fsv s' x = fsv s x" "file_written a buffer m offset s s'"
    using write_within [OF c ok mH d o] by blast
  note sn = same_tree_nodes [OF w(4)] and us = used_cong [OF w(3)]
  have m': "main_of a s' = main_of a s" "fsz s' = fsz s" using w(4) by (simp_all add: same_tree_def)
  have il': "inode_length a s' = inode_length a s" using frame_inodes [OF w(2)] by (simp add: inode_length_def)
  have "FM \<inter> leaves a s = {}" using f(1) by (auto simp: file_inv_def leaves_def)
  then have vol: "volume_ok fm_ok FM s'" using vol_ok_step [OF v frame_inodes [OF w(2)] m'(2) w(3)] w(5) by auto
  have "node (file_ent a s') (path j) = node (file_ent a s) (path j)" if "j < MAX_INDEX" for j
    using w(4) valid_path [OF that] by (simp add: same_tree_def)
  then have inv: "file_inv FM a s'"
    by (intro inv_after_write [OF f(1) o(1,2) calm_frame [OF c(1) w(2)] m' _ _ _ w(6)])
      (use same_tree_file_ok [OF w(4) ok] il' f(1) us sn m' in \<open>auto simp: file_inv_def\<close>)
  have "leaves a s \<subseteq> file_sectors a s" by (auto simp: leaves_def file_sectors_def)
  then have "\<forall>x \<in> used_sectors s. x \<notin> FM \<longrightarrow> x \<notin> file_sectors a s \<longrightarrow> fsv s' x = fsv s x" using w(5) by blast
  moreover have "file_sectors a s' = file_sectors a s" using sn(1) m' by (simp add: file_sectors_def)
  moreover have "open_inodes s' = open_inodes s" using w(2) by (simp add: frame_def)
  ultimately show ?thesis using w(1,6) vol inv us m'(2) calm_frame [OF c(1) w(2)] by (intro exI [of _ s']) simp
qed

text \<open>Storing the new length: only the first word of the main sector changes.\<close>

lemma set_length_ok:
  assumes h: "held (main_of a s) True s0 s1 e" "frame {e} s1 s" and nm: "main_of a s \<notin> nodes (file_ent a s)"
  shows "\<exists>t. set_length a e len s = t\<lparr>inodes := (inodes s)(a := (inodes s a)\<lparr>ilength := len\<rparr>)\<rparr> \<and> frame {e} s1 t \<and>
    fs_map t = fs_map s \<and> fsv t = (fsv s)(main_of a s := clip (write32 (sector_data e s) 0 (of_int len))) \<and>
    (\<forall>r. valid r \<longrightarrow> node (ent (fsv t (main_of a s)) (fsv t)) r = node (file_ent a s) r)"
proof -
  let ?f = "write32 (sector_data e s) 0 (of_int len)" let ?t = "set_data e ?f s" let ?m = "main_of a s"
  note hs = held_set [OF h, of ?f]
  have eq: "set_length a e len s = ?t\<lparr>inodes := (inodes s)(a := (inodes s a)\<lparr>ilength := len\<rparr>)\<rparr>"
    by (simp add: set_length_def set_data_def Let_def)
  have "node (ent (fsv ?t ?m) (fsv ?t)) r = node (file_ent a s) r" if "valid r" for r
  proof (rule node_cong [OF _ _ that])
    show "ent (fsv ?t ?m) (fsv ?t) None j = file_ent a s None j" if j: "j < ON_INODE_DIR_SIZE" for j
    proof -
      have "dir_at (sector_data e s) j = dir_at (fsv s ?m) j" by (rule dir_at_cong [OF held_data [OF h] j])
      then show ?thesis using dir_at_length [OF j] hs(2) by (simp add: file_ent_def)
    qed
    show "ent (fsv ?t ?m) (fsv ?t) (Some x) j = file_ent a s (Some x) j" if "x \<in> inner_nodes (file_ent a s)" for x j
      using that inner_subset nm hs(2) by (auto simp: file_ent_def)
  qed
  then show ?thesis using eq hs by blast
qed

lemma write_growing:
  assumes c: "calm n H s" "3 < n" and v: "volume_ok fm_ok FM s" "H \<inter> FM = {}" "H \<subseteq> used_sectors s" "a \<noteq> fa"
    and f: "file_inv FM a s" "file_sectors a s \<inter> H = {}" and d: "deny_write_cnt (inodes s a) = 0"
    and o: "0 \<le> offset" "0 \<le> m" "inode_length a s < offset + m" "offset + m \<le> 512 * int MAX_INDEX"
    and free: "3 * (bytes_to_sectors (offset + m) - bytes_to_sectors (inode_length a s)) \<le> card (free_sectors s)"
  shows "\<exists>s'. inode_write_at mem bw a buffer m offset s = Some (s', m) \<and> calm n H s' \<and> volume_ok fm_ok FM s' \<and> fsz s' = fsz s \<and>
    file_written a buffer m offset s s' \<and> file_inv FM a s' \<and> file_sectors a s' \<subseteq> file_sectors a s \<union> free_sectors s \<and>
    used_sectors s \<subseteq> used_sectors s' \<and> open_inodes s' = open_inodes s \<and>
    (\<forall>x \<in> used_sectors s. x \<notin> FM \<longrightarrow> x \<notin> file_sectors a s \<longrightarrow> fsv s' x = fsv s x)"
proof -
  let ?E = "file_ent a s" let ?m = "main_of a s" let ?len = "inode_length a s" let ?new = "offset + m"
  have ok: "file_ok a ?len s" using f(1) by (simp add: file_inv_def)
  have fo: "?m < fsz s" "tree_inj ?E" "?m \<notin> nodes ?E" "0 \<le> ?len" using ok by (simp_all add: file_ok_def)
  have us: "?m \<in> used_sectors s - FM" "nodes ?E \<subseteq> used_sectors s - FM" using f(1) by (simp_all add: file_inv_def)
  have MAX: "512 * int MAX_INDEX = 1048576000" by (simp add: MAX_INDEX_def)
  define lo hi where "lo = bytes_to_sectors ?len" and "hi = bytes_to_sectors ?new"
  have lo: "\<And>j. j < lo \<longleftrightarrow> 512 * int j < ?len" and hi: "\<And>j. j < hi \<longleftrightarrow> 512 * int j < ?new"
    using sectors_of below_sectors o MAX fo(4) by (simp_all add: lo_def hi_def)
  have lohi: "lo \<le> hi" "hi \<le> MAX_INDEX"
  proof -
    show "lo \<le> hi" using lo [of hi] hi [of hi] o(3) by (metis leI less_irrefl less_trans)
    show "hi \<le> MAX_INDEX" using hi [of MAX_INDEX] o(4) by (metis leI not_le)
  qed
  have n: "0 < n" "2 < n - 1" "1 < n - 1" using c(2) by auto
  have mH: "?m \<notin> H" using f(2) by (auto simp: file_sectors_def)
  obtain s1 e where t: "get_sector_handle mem ?m True s = Some (s1, Some e)" "held ?m True s s1 e" "calm (n - 1) (insert ?m H) s1" "fsv s1 = fsv s"
    using take_held [OF c(1) n(1) fo(1)] mH by blast
  note tf = held_fields [OF t(2)]
  have us1: "used_sectors s1 = used_sectors s" "free_sectors s1 = free_sectors s" using used_cong [OF tf(1)] tf(5) by (simp_all add: free_sectors_def)
  have v1: "volume_ok fm_ok FM s1" using vol_ok_step [OF v(1) tf(2,5,1)] t(4) by simp
  have p1: "ptr_ok (Slot e) {?m} s1" unfolding ptr_ok_def using t(2) held_start [OF t(2)] by auto
  let ?d = "fsv s ?m"
  have ent1: "ent ?d (fsv s1) = ?E" using t(4) by (simp add: file_ent_def)
  have t1: "tree_at FM (insert ?m H) (Slot e) ?d s1" unfolding tree_at_def ent1
    using held_data [OF t(2) held_start [OF t(2)]] t(4) fo(2,3) us us1(1) f(2) by (auto simp: file_sectors_def)
  have "insert ?m H \<inter> FM = {}" "insert ?m H \<subseteq> used_sectors s1" "lo + (hi - lo) \<le> MAX_INDEX" "3 * (hi - lo) \<le> card (free_sectors s1)"
    using v(2,3) us us1 lohi free by (auto simp: lo_def hi_def)
  note ar = alloc_range_ok [OF t(3) n(2) v1 this(1,2) p1 _ t1 this(3,4), of mem, unfolded ent1]
  have "{?m} \<subseteq> insert ?m H" by simp
  from ar [OF this] obtain s2 d2 where
    g: "alloc_range mem bw (Slot e) (hi - lo) lo s1 = Some (s2, lo + (hi - lo))" "ptr_frame (Slot e) s1 s2" "volume_ok fm_ok FM s2"
      and "card (free_sectors s1) \<le> card (free_sectors s2) + 3 * (hi - lo)"
      and g4: "tree_at FM (insert ?m H) (Slot e) d2 s2" and "\<forall>k < 12. d2 k = ?d k"
      and g5: "stretched ?E (ent d2 (fsv s2)) lo (lo + (hi - lo))"
      and g6: "new_zero ?E (ent d2 (fsv s2)) s2" and g7: "others_kept (FM \<union> {?m}) ?E (ent d2 (fsv s2)) s1 s2"
    by (elim exE conjE)
  note g = g g4 g5 g6 g7
  have f2: "frame {e} s1 s2" using g(2) by (simp add: ptr_frame_def)
  have in2: "inodes s2 = inodes s" "fsz s2 = fsz s" using frame_inodes [OF f2] frame_size [OF f2] tf by simp_all
  have m2: "main_of a s2 = ?m" "inode_length a s2 = ?len" using in2 by (simp_all add: main_of_def inode_length_def)
  have "fsv s2 (main_of a s2) k = d2 k" if "k < 512" for k using held_data [OF t(2) f2 that] g(4) that m2 by (simp add: tree_at_def)
  from tree_eq [OF file_ent_copy [OF this]] have e2: "nodes (file_ent a s2) = nodes (ent d2 (fsv s2))"
    "inner_nodes (file_ent a s2) = inner_nodes (ent d2 (fsv s2))" "tree_inj (file_ent a s2)"
    "\<And>j. j < MAX_INDEX \<Longrightarrow> node (file_ent a s2) (path j) = node (ent d2 (fsv s2)) (path j)"
    using g(5) by (auto simp: stretched_def)
  have st: "\<And>r. valid r \<Longrightarrow> node ?E r \<noteq> NO_SECTOR \<Longrightarrow> node (ent d2 (fsv s2)) r = node ?E r"
    "\<And>j. lo \<le> j \<Longrightarrow> j < hi \<Longrightarrow> node (ent d2 (fsv s2)) (path j) \<noteq> NO_SECTOR"
    "\<And>j. j < MAX_INDEX \<Longrightarrow> node (ent d2 (fsv s2)) (path j) \<noteq> NO_SECTOR \<Longrightarrow> node ?E (path j) \<noteq> NO_SECTOR \<or> j < hi"
    using g(5) unfolding stretched_def le_add_diff_inverse [OF lohi(1)] by blast+
  have nd2: "nodes (file_ent a s2) \<subseteq> used_sectors s2 - FM - insert ?m H" using g(4) e2(1) by (simp add: tree_at_def)
  have ok2: "file_ok a ?new s2"
  proof -
    have "j < MAX_INDEX \<and> node (file_ent a s2) (path j) \<noteq> NO_SECTOR" if "512 * int j < ?new" for j
    proof -
      have j: "j < hi" "j < MAX_INDEX" using that hi [of j] lohi(2) by simp_all
      show ?thesis
      proof (cases "j < lo")
        case True
        then have "node ?E (path j) \<noteq> NO_SECTOR" using lo [of j] ok by (simp add: file_ok_def)
        then show ?thesis using st(1) [OF valid_path [OF j(2)]] e2(4) j(2) by simp
      next
        case False then show ?thesis using st(2) j e2(4) by simp
      qed
    qed
    moreover have "used_sectors s2 \<subseteq> {..<fsz s2}" using used_below g(3) by (simp add: volume_ok_def)
    ultimately show ?thesis unfolding file_ok_def using in2(2) m2 fo(1,4) nd2 e2(3) o MAX by auto
  qed
  have zero2: "file_byte a s2 k = file_byte a s k" if k: "k div 512 < MAX_INDEX" for k
  proof -
    let ?j = "k div 512"
    show ?thesis
    proof (cases "node ?E (path ?j) = NO_SECTOR")
      case True
      have z: "file_byte a s k = 0" using True no_sector_zero [OF c(1)] by (simp add: file_byte_def)
      show ?thesis
      proof (cases "node (ent d2 (fsv s2)) (path ?j) = NO_SECTOR")
        case True then show ?thesis using z e2(4) [OF k] no_sector_zero [OF calm_frame [OF t(3) f2]] by (simp add: file_byte_def)
      next
        case False
        then have "fsv s2 (node (ent d2 (fsv s2)) (path ?j)) = (\<lambda>_. 0)" using g(6) True k by (simp add: new_zero_def)
        then show ?thesis using z e2(4) [OF k] by (simp add: file_byte_def)
      qed
    next
      case False
      note vk = valid_path [OF k]
      have x: "node ?E (path ?j) \<in> nodes ?E" "node ?E (path ?j) \<notin> inner_nodes ?E"
        using node_in_nodes [OF vk False] node_leaf [OF fo(2) vk length_path(1) False] by auto
      have "node ?E (path ?j) \<in> used_sectors s1" "node ?E (path ?j) \<notin> FM \<union> {?m}" using x(1) us us1(1) fo(3) by auto
      then have "fsv s2 (node ?E (path ?j)) = fsv s1 (node ?E (path ?j))" using g(7) x(2) by (simp add: others_kept_def)
      then show ?thesis using st(1) [OF vk False] e2(4) [OF k] t(4) by (simp add: file_byte_def)
    qed
  qed
  obtain s3 where w: "write_loop mem a ?new buffer m offset 0 s2 = Some (s3, 0 + m)" "frame {} s2 s3" "fs_map s3 = fs_map s2"
    "same_tree a s2 s3" "\<forall>x. x \<notin> leaves a s2 \<longrightarrow> fsv s3 x = fsv s2 x"
    "\<forall>k. k div 512 < MAX_INDEX \<longrightarrow> file_byte a s3 k =
      (if nat offset \<le> k \<and> k < nat ?new then buffer (nat 0 + (k - nat offset)) else file_byte a s2 k)"
    using write_loop_ok [OF calm_frame [OF t(3) f2] n(3) ok2 o(1,2) order_refl order_refl] by blast
  note sn = same_tree_nodes [OF w(4)]
  have f3: "frame {e} s1 s3" using frame_trans [OF f2 frame_mono [OF w(2)]] by simp
  have m3: "main_of a s3 = ?m" "inodes s3 = inodes s" using w(4) m2 frame_inodes [OF w(2)] in2 by (simp_all add: same_tree_def)
  have h3: "held (main_of a s3) True s s1 e" using t(2) m3 by simp
  have nm3: "main_of a s3 \<notin> nodes (file_ent a s3)" using m3 sn(1) nd2 by auto
  obtain u where u: "set_length a e ?new s3 = u\<lparr>inodes := (inodes s3)(a := (inodes s3 a)\<lparr>ilength := ?new\<rparr>)\<rparr>" "frame {e} s1 u"
    "fs_map u = fs_map s3" "fsv u = (fsv s3)(?m := clip (write32 (sector_data e s3) 0 (of_int ?new)))"
    "\<forall>r. valid r \<longrightarrow> node (ent (fsv u ?m) (fsv u)) r = node (file_ent a s3) r"
    using set_length_ok [OF h3 f3 nm3, of ?new] m3(1) by auto
  obtain s5 where r: "release_sector_handle ?m (Some e) True True u = Some s5" "frame {} s s5" "fsv s5 = fsv u" "fs_map s5 = fs_map u"
    using held_release [OF t(2) u(2), of True] by blast
  define s' where "s' = s5\<lparr>inodes := (inodes s3)(a := (inodes s3 a)\<lparr>ilength := ?new\<rparr>)\<rparr>"
  have min: "wrap_off ?new = ?new" using o MAX by (simp add: wrap_off_def)
  have run: "inode_write_at mem bw a buffer m offset s = Some (s', m)"
    using d t(1) g(1) lohi(1) w(1) u(1) r(1) o(3) min
    by (simp add: inode_write_at_def Let_def main_of_def [symmetric] inode_length_def [symmetric] lo_def [symmetric] hi_def [symmetric]
        release_inodes s'_def)
  have in': "inodes s' = (inodes s)(a := (inodes s a)\<lparr>ilength := ?new\<rparr>)" "fsv s' = fsv u" "fsz s' = fsz s" "fs_map s' = fs_map s2"
    using m3(2) r(3,4) frame_size [OF r(2)] u(3) w(3) by (simp_all add: s'_def)
  have m': "main_of a s' = ?m" "inode_length a s' = ?new" using in'(1) by (simp_all add: main_of_def inode_length_def)
  have "node (file_ent a s') q = node (file_ent a s2) q" if "valid q" for q
  proof -
    have "file_ent a s' = ent (fsv u ?m) (fsv u)" unfolding file_ent_def m' in'(2) ..
    moreover have "node (file_ent a s3) q = node (file_ent a s2) q" using w(4) that by (simp add: same_tree_def)
    ultimately show ?thesis using u(5) that by simp
  qed
  from tree_eq [OF this] have te: "nodes (file_ent a s') = nodes (file_ent a s2)" "inner_nodes (file_ent a s') = inner_nodes (file_ent a s2)"
    "tree_inj (file_ent a s') = tree_inj (file_ent a s2)"
    "\<And>j. j < MAX_INDEX \<Longrightarrow> node (file_ent a s') (path j) = node (file_ent a s2) (path j)" by blast+
  have us': "used_sectors s' = used_sectors s2" using used_cong [OF in'(4)] .
  have ok': "file_ok a ?new s'" using ok2 te in' m' in2(2) m2(1) unfolding file_ok_def by metis
  have byte': "file_byte a s' k = file_byte a s3 k" if k: "k div 512 < MAX_INDEX" for k
  proof -
    let ?x = "node (file_ent a s2) (path (k div 512))"
    have x3: "node (file_ent a s3) (path (k div 512)) = ?x" using w(4) valid_path [OF k] by (simp add: same_tree_def)
    have "?x \<noteq> ?m"
    proof
      assume x: "?x = ?m"
      have "?m \<noteq> NO_SECTOR" using t(2) by (simp add: held_def)
      then have "?m \<in> nodes (file_ent a s2)" using node_in_nodes [OF valid_path [OF k], of "file_ent a s2"] x by simp
      then show False using nd2 by blast
    qed
    then show ?thesis using te(4) [OF k] x3 in'(2) u(4) by (simp add: file_byte_def)
  qed
  have calm': "calm n H s'" using calm_frame [OF c(1) r(2)] by (simp add: s'_def)
  have fw: "file_written a buffer m offset s s'" unfolding file_written_def
    using m'(2) o(3) in'(1) w(6) byte' zero2 by simp
  have sub: "insert (main_of a s') (nodes (file_ent a s')) \<subseteq> used_sectors s' - FM"
    using te(1) nd2 us' m'(1) us(1) g(7) us1(1) by (auto simp: others_kept_def)
  have inv: "file_inv FM a s'"
  proof (rule inv_after_write [OF f(1) o(1,2) calm' m'(1) in'(3) _ sub _ fw])
    show "file_ok a (inode_length a s') s'" using ok' m'(2) by simp
    fix j assume j: "j < MAX_INDEX" "node (file_ent a s') (path j) \<noteq> NO_SECTOR"
    then have "node ?E (path j) \<noteq> NO_SECTOR \<or> j < hi" using st(3) te(4) e2(4) by simp
    then show "512 * int j < inode_length a s'" using f(1) j(1) hi [of j] m'(2) o(3) by (auto simp: file_inv_def)
  qed
  have fsub: "file_sectors a s' \<subseteq> file_sectors a s \<union> free_sectors s"
    using te(1) m'(1) e2(1) g(7) us1(2) by (auto simp: file_sectors_def others_kept_def from_free_def)
  have lv: "leaves a s2 \<subseteq> file_sectors a s \<union> free_sectors s" using e2(1) g(7) us1(2) by (auto simp: leaves_def file_sectors_def others_kept_def from_free_def)
  have out: "fsv s' x = fsv s x" if x: "x \<in> used_sectors s" "x \<notin> FM" "x \<notin> file_sectors a s" for x
  proof -
    have "x \<notin> leaves a s2" using lv x(1,3) by (auto simp: free_sectors_def)
    moreover have "x \<noteq> ?m" "x \<notin> inner_nodes ?E" using x(3) inner_subset by (auto simp: file_sectors_def)
    ultimately show ?thesis using in'(2) u(4) w(5) g(7) x(1,2) us1(1) t(4) by (simp add: others_kept_def)
  qed
  have "volume_ok fm_ok FM s5"
  proof (rule vol_ok_step [OF g(3)])
    show "inodes s5 = inodes s2" "fsz s5 = fsz s2" "fs_map s5 = fs_map s2" using frame_inodes [OF r(2)] frame_size [OF r(2)] in2 r(4) u(3) w(3) by simp_all
    have "FM \<inter> leaves a s2 = {}" "?m \<notin> FM" using nd2 us(1) by (auto simp: leaves_def)
    then show "\<forall>x \<in> FM. fsv s5 x = fsv s2 x" using r(3) u(4) w(5) by auto
  qed
  moreover have "s' = s5\<lparr>inodes := (inodes s5)(a := (inodes s a)\<lparr>ilength := ?new\<rparr>)\<rparr>" using frame_inodes [OF r(2)] m3(2) by (simp add: s'_def)
  ultimately have vol: "volume_ok fm_ok FM s'" using vol_ok_other_inode v(4) by simp
  have "open_inodes s' = open_inodes s" using r(2) by (simp add: s'_def frame_def)
  moreover have "used_sectors s \<subseteq> used_sectors s'" using us' g(7) us1(1) by (simp add: others_kept_def)
  ultimately show ?thesis using run calm' vol in'(3) fw inv fsub out by (intro exI [of _ s']) blast
qed

text \<open>Both cases.\<close>

lemma write_ok:
  assumes c: "calm n H s" "3 < n" and v: "volume_ok fm_ok FM s" "H \<inter> FM = {}" "H \<subseteq> used_sectors s" "a \<noteq> fa"
    and f: "file_inv FM a s" "file_sectors a s \<inter> H = {}" and d: "deny_write_cnt (inodes s a) = 0"
    and o: "0 \<le> offset" "0 \<le> m" "offset + m \<le> 512 * int MAX_INDEX"
    and free: "3 * (bytes_to_sectors (offset + m) - bytes_to_sectors (inode_length a s)) \<le> card (free_sectors s)"
  shows "\<exists>s'. inode_write_at mem bw a buffer m offset s = Some (s', m) \<and> calm n H s' \<and> volume_ok fm_ok FM s' \<and> fsz s' = fsz s \<and>
    file_written a buffer m offset s s' \<and> file_inv FM a s' \<and> file_sectors a s' \<subseteq> file_sectors a s \<union> free_sectors s \<and>
    used_sectors s \<subseteq> used_sectors s' \<and> open_inodes s' = open_inodes s \<and>
    (\<forall>x \<in> used_sectors s. x \<notin> FM \<longrightarrow> x \<notin> file_sectors a s \<longrightarrow> fsv s' x = fsv s x)"
proof (cases "inode_length a s < offset + m")
  case True
  then show ?thesis using write_growing [OF c v f d o(1,2) True o(3) free] by simp
next
  case False
  then have "1 < n" "offset + m \<le> inode_length a s" using c(2) by auto
  then show ?thesis using write_in_place [OF c(1) _ v(1) f d o(1,2)] by simp
qed

end

section \<open>Contents\<close>

definition contents :: "nat \<Rightarrow> fs \<Rightarrow> u8 list" where
  "contents a s = map (file_byte a s) [0..<nat (inode_length a s)]"

text \<open>Replacing a slice of a sequence, with zeros up to where it starts.\<close>

definition write_spec :: "nat \<Rightarrow> u8 list \<Rightarrow> u8 list \<Rightarrow> u8 list" where
  "write_spec off bs c = take off (c @ replicate (off - length c) 0) @ bs @ drop (off + length bs) c"

lemma write_spec_nth:
  assumes "k < max (length c) (off + length bs)"
  shows "write_spec off bs c ! k = (if k < off then (if k < length c then c ! k else 0) else if k < off + length bs then bs ! (k - off) else c ! k)"
  using assms by (auto simp: write_spec_def nth_append min_def)

lemma length_write_spec [simp]: "length (write_spec off bs c) = max (length c) (off + length bs)"
  by (auto simp: write_spec_def)

lemma contents_written:
  assumes "file_inv FM a s" "file_inv FM a s'" "file_written a buffer m offset s s'" "0 \<le> offset" "0 \<le> m"
  shows "contents a s' = write_spec (nat offset) (map buffer [0..<nat m]) (contents a s)"
proof (rule nth_equalityI)
  have len: "inode_length a s' = max (inode_length a s) (offset + m)" using assms(3) by (simp add: file_written_def)
  have l0: "0 \<le> inode_length a s" using assms(1) by (simp add: file_inv_def file_ok_def)
  show "length (contents a s') = length (write_spec (nat offset) (map buffer [0..<nat m]) (contents a s))"
    using len assms(4,5) l0 by (simp add: contents_def nat_add_distrib max_def)
  fix k assume "k < length (contents a s')"
  then have k: "int k < inode_length a s'" by (simp add: contents_def)
  have "512 * int (k div 512) < inode_length a s'" using k sector_start [of "int k"] by simp
  then have kd: "k div 512 < MAX_INDEX" using assms(2) by (simp add: file_inv_def file_ok_def)
  have b: "file_byte a s' k = (if nat offset \<le> k \<and> k < nat (offset + m) then buffer (k - nat offset) else file_byte a s k)"
    using assms(3) kd by (simp add: file_written_def)
  have z: "file_byte a s k = 0" if "inode_length a s \<le> int k" using assms(1) kd that by (simp add: file_inv_def)
  have e: "nat (offset + m) = nat offset + nat m" using assms(4,5) by (simp add: nat_add_distrib)
  have lc: "length (contents a s) = nat (inode_length a s)" "\<And>i. i < nat (inode_length a s) \<Longrightarrow> contents a s ! i = file_byte a s i"
    by (simp_all add: contents_def)
  have kc: "contents a s' ! k = file_byte a s' k" using k by (simp add: contents_def)
  have "k < max (length (contents a s)) (nat offset + length (map buffer [0..<nat m]))" using k len lc(1) assms(4,5) by auto
  note w = write_spec_nth [OF this]
  have mb: "map buffer [0..<nat m] ! (k - nat offset) = buffer (k - nat offset)" if "\<not> k < nat offset" "k < nat offset + nat m"
  proof -
    have "k - nat offset < nat m" using that by simp
    then show ?thesis by simp
  qed
  show "contents a s' ! k = write_spec (nat offset) (map buffer [0..<nat m]) (contents a s) ! k"
  proof (cases "k < nat (inode_length a s)")
    case True
    then show ?thesis unfolding w kc using b e lc mb by simp
  next
    case False
    then have "inode_length a s \<le> int k" by simp
    moreover from this have "int k < offset + m" using k len by simp
    then have "k < nat offset + nat m" using assms(4,5) by linarith
    ultimately show ?thesis unfolding w kc using False b z e lc(1) mb by simp
  qed
qed

lemma read_contents:
  assumes "calm n H s" "1 < n" "file_ok a (inode_length a s) s" "0 \<le> offset" "0 \<le> m"
  shows "\<exists>s'. inode_read_at mem a m offset s = Some (s', take (nat m) (drop (nat offset) (contents a s))) \<and>
    frame {} s s' \<and> fsv s' = fsv s \<and> fs_map s' = fs_map s"
proof -
  have "map (\<lambda>k. file_byte a s (nat offset + k)) [0..<nat (min m (inode_length a s - offset))] = take (nat m) (drop (nat offset) (contents a s))"
  proof (rule nth_equalityI)
    show l: "length (map (\<lambda>k. file_byte a s (nat offset + k)) [0..<nat (min m (inode_length a s - offset))]) =
        length (take (nat m) (drop (nat offset) (contents a s)))" using assms(4,5) by (simp add: contents_def)
    fix i assume "i < length (map (\<lambda>k. file_byte a s (nat offset + k)) [0..<nat (min m (inode_length a s - offset))])"
    then have i: "i < nat (min m (inode_length a s - offset))" by simp
    then have "nat offset + i < nat (inode_length a s)" "i < nat m" using assms(4) by linarith+
    then show "map (\<lambda>k. file_byte a s (nat offset + k)) [0..<nat (min m (inode_length a s - offset))] ! i =
        take (nat m) (drop (nat offset) (contents a s)) ! i" using i by (simp add: contents_def)
  qed
  then show ?thesis using read_loop_ok [OF assms(1-4), of mem m] by (simp add: inode_read_at_def)
qed

end
