(* ===== verification/FreeMapFile.thy ===== *)
theory FreeMapFile
  imports InodeWrite
begin

text \<open>
  The file of the free map: \<^verbatim>\<open>bitmap_write\<close> of \<^verbatim>\<open>src/Project5/src/lib/kernel/bitmap.c\<close> stores the bits of the map
  in it by \<^verbatim>\<open>file_write_at\<close>, which is \<^verbatim>\<open>inode_write_at\<close> on the inode of the file. The file is created
  with the size of the map, so the call never grows it; what it promises is the interface \<^verbatim>\<open>map_file\<close>
  that growing any other file relies on.
\<close>

section \<open>Storing the map\<close>

text \<open>The elements of the map as bytes in memory.\<close>

definition map_bytes :: "bitmap \<Rightarrow> nat \<Rightarrow> u8" where
  "map_bytes b k = (if k < 4 * length (bits b) then ucast (drop_bit (8 * (k mod 4)) (bits b ! (k div 4))) else 0)"

text \<open>
  \<^verbatim>\<open>bitmap_write\<close> on the file whose inode is at \<open>fa\<close>. Growing that file would allocate from the free map
  whose lock is held already, and a second \<^verbatim>\<open>lock_acquire\<close> fails its assertion.
\<close>

definition bitmap_write :: "(u32 \<Rightarrow> bool) \<Rightarrow> nat \<Rightarrow> map_writer" where
  "bitmap_write mem fa b s = do {
     let n = int (byte_cnt (bit_cnt b));
     (s, r) \<leftarrow> inode_write_at mem (\<lambda>_ _. None) fa (map_bytes b) n 0 s;
     Some (s, r = n) }"

section \<open>The interface\<close>

text \<open>The file of the free map is as long as the map, its sectors are \<open>FM\<close>, and it may be written.\<close>

definition fm_ok :: "nat \<Rightarrow> nat set \<Rightarrow> fs \<Rightarrow> bool" where
  "fm_ok fa FM s \<longleftrightarrow> file_ok fa (inode_length fa s) s \<and> deny_write_cnt (inodes s fa) = 0 \<and>
     inode_length fa s = int (byte_cnt (fsz s)) \<and> file_sectors fa s = FM"

lemma fm_ok_same_tree:
  assumes "fm_ok fa FM s" "same_tree fa s s'" "inodes s' fa = inodes s fa"
  shows "fm_ok fa FM s'"
proof -
  have l: "inode_length fa s' = inode_length fa s" using assms(3) by (simp add: inode_length_def)
  have t: "main_of fa s' = main_of fa s" "fsz s' = fsz s" using assms(2) by (simp_all add: same_tree_def)
  have "file_sectors fa s' = file_sectors fa s" using same_tree_nodes(1) [OF assms(2)] t(1) by (simp add: file_sectors_def)
  moreover have "file_ok fa (inode_length fa s') s'" using assms(1) same_tree_file_ok [OF assms(2)] unfolding l fm_ok_def by blast
  ultimately show ?thesis using assms(1,3) l t unfolding fm_ok_def by simp
qed

text \<open>A file depends on its own sectors only.\<close>

lemma file_ent_local:
  assumes "\<And>x. x \<in> file_sectors a s \<Longrightarrow> fsv s' x = fsv s x" "main_of a s' = main_of a s" "valid p"
  shows "node (file_ent a s') p = node (file_ent a s) p"
proof -
  have "fsv s' (main_of a s) = fsv s (main_of a s)" using assms(1) by (simp add: file_sectors_def)
  moreover have "fsv s' x = fsv s x" if "x \<in> inner_nodes (file_ent a s)" for x
    using assms(1) [of x] that inner_subset by (auto simp: file_sectors_def)
  ultimately show ?thesis unfolding file_ent_def assms(2)
    by (intro ent_node_cong [OF _ _ assms(3)]) (auto simp: file_ent_def)
qed

lemma same_tree_local:
  "(\<And>x. x \<in> file_sectors a s \<Longrightarrow> fsv s' x = fsv s x) \<Longrightarrow> main_of a s' = main_of a s \<Longrightarrow> fsz s' = fsz s \<Longrightarrow> same_tree a s s'"
  unfolding same_tree_def using file_ent_local by blast

interpretation fmf: map_file "bitmap_write mem fa" "fm_ok fa FM" FM fa for mem fa FM
proof unfold_locales
  fix s n H b
  assume ok: "fm_ok fa FM s" and c: "calm n H s" "1 < n" and H: "H \<inter> FM = {}" and b: "bitmap_ok b" "bit_cnt b = fsz s"
  have f: "file_ok fa (inode_length fa s) s" "deny_write_cnt (inodes s fa) = 0" "inode_length fa s = int (byte_cnt (fsz s))" "file_sectors fa s = FM"
    using ok unfolding fm_ok_def by blast+
  have mH: "main_of fa s \<notin> H" using f(4) H by (auto simp: file_sectors_def)
  obtain s' where w: "inode_write_at mem (\<lambda>_ _. None) fa (map_bytes b) (int (byte_cnt (fsz s))) 0 s = Some (s', int (byte_cnt (fsz s)))"
    "frame {} s s'" "fs_map s' = fs_map s" "same_tree fa s s'" "\<forall>x. x \<notin> leaves fa s \<longrightarrow> fsv s' x = fsv s x"
    using write_within [OF c f(1) mH f(2) order_refl, of "int (byte_cnt (fsz s))" mem "\<lambda>_ _. None" "map_bytes b"] f(3) by auto
  have "fm_ok fa FM s'" using fm_ok_same_tree [OF ok w(4)] frame_inodes [OF w(2)] by simp
  moreover have "leaves fa s \<subseteq> FM" using f(4) by (auto simp: leaves_def file_sectors_def)
  ultimately show "\<exists>s'. bitmap_write mem fa b s = Some (s', True) \<and> frame {} s s' \<and> fs_map s' = fs_map s \<and> fm_ok fa FM s' \<and>
      (\<forall>x. x \<notin> FM \<longrightarrow> fsv s' x = fsv s x)" using w b(2) by (intro exI [of _ s']) (auto simp: bitmap_write_def)
next
  fix s s' assume ok: "fm_ok fa FM s" and i: "inodes s' fa = inodes s fa" and z: "fsz s' = fsz s" and v: "\<forall>x \<in> FM. fsv s' x = fsv s x"
  have "file_sectors fa s = FM" using ok unfolding fm_ok_def by blast
  then have "same_tree fa s s'" using same_tree_local [of fa s s'] v z i by (simp add: main_of_def)
  then show "fm_ok fa FM s'" using fm_ok_same_tree [OF ok _ i] by blast
qed

end
