(* ===== verification/Volume.thy ===== *)
theory Volume
  imports FreeMapFile
begin

text \<open>
  The files of a volume together: \<^verbatim>\<open>inode_read_at\<close> and \<^verbatim>\<open>inode_write_at\<close> on any of them read and write that
  file as a sequence of bytes and leave the others alone, growth and its allocations included.
\<close>

section \<open>Open files of a volume\<close>

text \<open>
  \<open>fa\<close> is the inode of the free map, \<open>A\<close> are other inodes in memory: each is a file in order, and no two
  files share a sector. No sector of the cache is held.
\<close>

definition volume :: "nat \<Rightarrow> nat set \<Rightarrow> fs \<Rightarrow> bool" where
  "volume fa A s \<longleftrightarrow> calm 8 {} s \<and> volume_ok (fm_ok fa (file_sectors fa s)) (file_sectors fa s) s \<and> fa \<notin> A \<and>
     (\<forall>a \<in> A. file_inv (file_sectors fa s) a s) \<and>
     (\<forall>a \<in> A. \<forall>b \<in> A. a \<noteq> b \<longrightarrow> file_sectors a s \<inter> file_sectors b s = {})"

lemma volumeD:
  assumes "volume fa A s"
  shows "calm 8 {} s" "volume_ok (fm_ok fa (file_sectors fa s)) (file_sectors fa s) s" "fa \<notin> A"
    "a \<in> A \<Longrightarrow> file_inv (file_sectors fa s) a s" "a \<in> A \<Longrightarrow> a \<noteq> fa"
    "a \<in> A \<Longrightarrow> b \<in> A \<Longrightarrow> a \<noteq> b \<Longrightarrow> file_sectors a s \<inter> file_sectors b s = {}"
  using assms by (auto simp: volume_def)

lemma file_inv_parts:
  assumes "file_inv FM a s"
  shows "file_ok a (inode_length a s) s" "file_sectors a s \<subseteq> used_sectors s - FM"
  using assms by (simp_all add: file_inv_def file_sectors_def)

text \<open>A file depends on its inode and its own sectors.\<close>

lemma file_local:
  assumes v: "\<forall>x \<in> file_sectors a s. fsv s' x = fsv s x" and i: "inodes s' a = inodes s a" and z: "fsz s' = fsz s"
    and c: "calm n H s" "calm n' H' s'"
  shows "same_tree a s s'" "file_sectors a s' = file_sectors a s" "inode_length a s' = inode_length a s"
    "k div 512 < MAX_INDEX \<Longrightarrow> file_byte a s' k = file_byte a s k"
proof -
  have m: "main_of a s' = main_of a s" using i by (simp add: main_of_def)
  show t: "same_tree a s s'" using same_tree_local [OF _ m z] v by blast
  show "file_sectors a s' = file_sectors a s" using same_tree_nodes(1) [OF t] m by (simp add: file_sectors_def)
  show "inode_length a s' = inode_length a s" using i by (simp add: inode_length_def)
  assume k: "k div 512 < MAX_INDEX"
  let ?x = "node (file_ent a s) (path (k div 512))"
  have e: "node (file_ent a s') (path (k div 512)) = ?x" using t valid_path [OF k] by (simp add: same_tree_def)
  show "file_byte a s' k = file_byte a s k"
  proof (cases "?x = NO_SECTOR")
    case True
    then show ?thesis using e no_sector_zero [OF c(1)] no_sector_zero [OF c(2)] by (simp add: file_byte_def)
  next
    case False
    then have "?x \<in> file_sectors a s" using node_in_nodes [OF valid_path [OF k]] by (simp add: file_sectors_def)
    then show ?thesis using e v by (simp add: file_byte_def)
  qed
qed

lemma file_inv_local:
  assumes v: "\<forall>x \<in> file_sectors a s. fsv s' x = fsv s x" and i: "inodes s' a = inodes s a" and z: "fsz s' = fsz s"
    and c: "calm n H s" "calm n' H' s'" and f: "file_inv FM a s" and u: "file_sectors a s \<subseteq> used_sectors s'"
  shows "file_inv FM a s'" "contents a s' = contents a s"
proof -
  note l = file_local [OF v i z c]
  have ok: "file_ok a (inode_length a s) s" using f by (simp add: file_inv_def)
  have ok': "file_ok a (inode_length a s') s'" using same_tree_file_ok [OF l(1) ok] l(3) by simp
  have sub: "insert (main_of a s') (nodes (file_ent a s')) \<subseteq> used_sectors s' - FM"
    using l(2) f u unfolding file_sectors_def file_inv_def by blast
  have lv: "512 * int j < inode_length a s'" if "j < MAX_INDEX" "node (file_ent a s') (path j) \<noteq> NO_SECTOR" for j
    using that f l(1,3) valid_path [OF that(1)] by (simp add: file_inv_def same_tree_def)
  have zr: "file_byte a s' k = 0" if "inode_length a s' \<le> int k" "k div 512 < MAX_INDEX" for k
    using that f l(3) l(4) [OF that(2)] by (simp add: file_inv_def)
  show "file_inv FM a s'" unfolding file_inv_def using ok' sub lv zr by blast
  have "file_byte a s' k = file_byte a s k" if "k < nat (inode_length a s)" for k
  proof -
    have "512 * int (k div 512) < inode_length a s" using that sector_start [of "int k"] by simp
    then show ?thesis using ok by (intro l(4)) (simp add: file_ok_def)
  qed
  then show "contents a s' = contents a s" using l(3) by (simp add: contents_def)
qed

section \<open>Writing\<close>

lemma write_volume:
  assumes v: "volume fa A s" and a: "a \<in> A" and d: "deny_write_cnt (inodes s a) = 0"
    and o: "0 \<le> offset" "0 \<le> m" "offset + m \<le> 512 * int MAX_INDEX"
    and free: "3 * (bytes_to_sectors (offset + m) - bytes_to_sectors (inode_length a s)) \<le> card (free_sectors s)"
  shows "\<exists>s'. inode_write_at mem (bitmap_write mem fa) a buffer m offset s = Some (s', m) \<and> volume fa A s' \<and>
    contents a s' = write_spec (nat offset) (map buffer [0..<nat m]) (contents a s) \<and> (\<forall>b \<in> A. b \<noteq> a \<longrightarrow> contents b s' = contents b s) \<and>
    open_inodes s' = open_inodes s \<and> (\<forall>b. b \<noteq> a \<longrightarrow> inodes s' b = inodes s b) \<and>
    inodes s' a = (inodes s a)\<lparr>ilength := inode_length a s'\<rparr> \<and> inode_length a s' = max (inode_length a s) (offset + m) \<and>
    (\<forall>x \<in> used_sectors s. x \<notin> file_sectors fa s \<longrightarrow> x \<notin> file_sectors a s \<longrightarrow> fsv s' x = fsv s x)"
proof -
  let ?FM = "file_sectors fa s"
  note vd = volumeD [OF v]
  note inv = vd(4) [OF a]
  obtain s' where w: "inode_write_at mem (bitmap_write mem fa) a buffer m offset s = Some (s', m)" "calm 8 {} s'"
    "volume_ok (fm_ok fa ?FM) ?FM s'" "fsz s' = fsz s" "file_written a buffer m offset s s'" "file_inv ?FM a s'"
    "file_sectors a s' \<subseteq> file_sectors a s \<union> free_sectors s" "used_sectors s \<subseteq> used_sectors s'" "open_inodes s' = open_inodes s"
    "\<forall>x \<in> used_sectors s. x \<notin> ?FM \<longrightarrow> x \<notin> file_sectors a s \<longrightarrow> fsv s' x = fsv s x"
    using fmf.write_ok [where mem = mem and mema = mem and buffer = buffer, OF vd(1) _ vd(2) _ _ vd(5) [OF a] inv _ d o free] by auto
  have FM: "file_sectors fa s' = ?FM" using w(3) unfolding volume_ok_def fm_ok_def by blast
  have oth: "file_inv ?FM b s' \<and> contents b s' = contents b s \<and> file_sectors b s' = file_sectors b s" if b: "b \<in> A" "b \<noteq> a" for b
  proof -
    have sub: "file_sectors b s \<subseteq> used_sectors s - ?FM" using file_inv_parts(2) [OF vd(4) [OF b(1)]] .
    have "file_sectors a s \<inter> file_sectors b s = {}" using vd(6) [OF a b(1)] b(2) by simp
    then have x: "\<forall>x \<in> file_sectors b s. fsv s' x = fsv s x" using w(10) sub by blast
    have i: "inodes s' b = inodes s b" using w(5) b(2) by (simp add: file_written_def)
    have "file_sectors b s \<subseteq> used_sectors s'" using sub w(8) by blast
    then show ?thesis using file_inv_local [OF x i w(4) vd(1) w(2) vd(4) [OF b(1)]] file_local(2) [OF x i w(4) vd(1) w(2)] by blast
  qed
  have disj: "file_sectors a s' \<inter> file_sectors b s' = {}" if b: "b \<in> A" "b \<noteq> a" for b
  proof -
    have "file_sectors b s \<subseteq> used_sectors s" using file_inv_parts(2) [OF vd(4) [OF b(1)]] by blast
    then show ?thesis using oth [OF b] w(7) vd(6) [OF a b(1)] b(2) by (auto simp: free_sectors_def)
  qed
  have "file_sectors b s' \<inter> file_sectors c s' = {}" if "b \<in> A" "c \<in> A" "b \<noteq> c" for b c
    using that disj [of b] disj [of c] oth [of b] oth [of c] vd(6) [of b c] by (cases "b = a"; cases "c = a") (simp_all add: Int_commute)
  moreover have "file_inv ?FM b s'" if "b \<in> A" for b using that oth [of b] w(6) by (cases "b = a") simp_all
  ultimately have vol: "volume fa A s'" unfolding volume_def FM using w(2,3) vd(3) by blast
  have cont: "contents a s' = write_spec (nat offset) (map buffer [0..<nat m]) (contents a s)" by (rule contents_written [OF inv w(6,5) o(1,2)])
  have "inode_length a s' = max (inode_length a s) (offset + m)" "\<forall>b. b \<noteq> a \<longrightarrow> inodes s' b = inodes s b"
    "inodes s' a = (inodes s a)\<lparr>ilength := inode_length a s'\<rparr>" using w(5) by (simp_all add: file_written_def)
  then show ?thesis using w(1,9,10) vol cont oth by (intro exI [of _ s']) blast
qed

section \<open>Reading\<close>

lemma frame_volume:
  assumes v: "volume fa A s" and f: "frame {} s s'" "fsv s' = fsv s" "fs_map s' = fs_map s"
  shows "volume fa A s'" "a \<in> A \<Longrightarrow> contents a s' = contents a s" "free_sectors s' = free_sectors s"
proof -
  let ?FM = "file_sectors fa s"
  note vd = volumeD [OF v]
  have z: "fsz s' = fsz s" and i: "inodes s' = inodes s" and c: "calm 8 {} s'" and u: "used_sectors s' = used_sectors s"
    using frame_size [OF f(1)] frame_inodes [OF f(1)] calm_frame [OF vd(1) f(1)] used_cong [OF f(3)] by simp_all
  have sec: "file_sectors b s' = file_sectors b s" for b using file_local(2) [OF _ _ z vd(1) c, of b] f(2) i by simp
  have inv: "file_inv ?FM b s' \<and> contents b s' = contents b s" if "b \<in> A" for b
    using file_inv_local [OF _ _ z vd(1) c vd(4) [OF that]] file_inv_parts(2) [OF vd(4) [OF that]] f(2) i u by (simp add: subset_iff)
  have "volume_ok (fm_ok fa ?FM) ?FM s'" using fmf.vol_ok_step [OF vd(2) i z f(3)] f(2) by simp
  then show "volume fa A s'" unfolding volume_def sec using c vd(3,6) inv by blast
  show "a \<in> A \<Longrightarrow> contents a s' = contents a s" using inv by blast
  show "free_sectors s' = free_sectors s" using z u by (simp add: free_sectors_def)
qed

lemma read_volume:
  assumes v: "volume fa A s" and a: "a \<in> A" and o: "0 \<le> offset" "0 \<le> m"
  shows "\<exists>s'. inode_read_at mem a m offset s = Some (s', take (nat m) (drop (nat offset) (contents a s))) \<and> volume fa A s' \<and>
    (\<forall>b \<in> A. contents b s' = contents b s) \<and> open_inodes s' = open_inodes s \<and> inodes s' = inodes s \<and> free_sectors s' = free_sectors s \<and>
    frame {} s s' \<and> fsv s' = fsv s \<and> fs_map s' = fs_map s"
proof -
  note vd = volumeD [OF v]
  have n: "1 < (8 :: nat)" by simp
  obtain s' where r: "inode_read_at mem a m offset s = Some (s', take (nat m) (drop (nat offset) (contents a s)))"
    "frame {} s s'" "fsv s' = fsv s" "fs_map s' = fs_map s"
    using read_contents [OF vd(1) n file_inv_parts(1) [OF vd(4) [OF a]] o, of mem] by blast
  note f = frame_volume [OF v r(2-4)]
  have "open_inodes s' = open_inodes s" "inodes s' = inodes s" using r(2) by (simp_all add: frame_def)
  then show ?thesis using r f by (intro exI [of _ s']) blast
qed

end
