(* ===== verification/VolumeProps.thy ===== *)
theory VolumeProps
  imports Volume
begin

text \<open>
  The properties of reading and writing files, and a small volume they apply to: the free map is in
  the file of sector 0, with the data sector 4 behind the index sectors 2 and 3, and sectors 1 and 5 hold the
  inodes of an empty directory and of an empty file.
\<close>

section \<open>A small volume\<close>

definition small_disk :: "nat \<Rightarrow> nat \<Rightarrow> u8" where
  "small_disk i =
     (if i = 0 then put_word (\<lambda>_. 255) 3 2 else if i = 1 then (\<lambda>_. 255) else if i = 5 then put_word (put_word (\<lambda>_. 255) 0 0) 2 0
      else if i = 2 then put_word (\<lambda>_. 255) 0 3 else if i = 3 then put_word (\<lambda>_. 255) 0 4 else (\<lambda>_. 0))"

definition small_volume :: "cache \<Rightarrow> fs" where
  "small_volume c = \<lparr>buffer_cache = c, fs_map = \<lparr>free_map = \<lparr>bit_cnt = 100, bits = [63, 0, 0, 0]\<rparr>, free_map_file = True\<rparr>,
     inodes = (\<lambda>a. \<lparr>isector = a, open_cnt = 1, removed = False, deny_write_cnt = 0, is_dir = (if a = 1 then 1 else 0), ilength = (if a = 0 then 16 else 0)\<rparr>),
     open_inodes = [5, 1, 0], disk_inode = (\<lambda>_. 0)\<rparr>"

lemma word_at_ones: "word_at (\<lambda>_. 255) j = NO_SECTOR"
  by (simp add: word_at_def read32_def NO_SECTOR_def)

definition small :: "cache \<Rightarrow> bool" where
  "small c \<longleftrightarrow> idle c \<and> device_size c = 100 \<and> (\<forall>i < 100. \<forall>k < 512. view c i k = small_disk i k)"

lemma small_exists: "\<exists>c. small c"
proof -
  have "\<exists>c'. cache_init (\<lambda>_. True) [[], [], [], []] (sample_cache\<lparr>device := small_disk\<rparr>) = Some c' \<and> idle c' \<and> device c' = small_disk \<and>
    device_size c' = 100 \<and> (\<forall>i < 100. \<forall>k < 512. view c' i k = small_disk i k)"
    using cache_init_ok [of "\<lambda>_. True" "[[], [], [], []]" "sample_cache\<lparr>device := small_disk\<rparr>"]
    by (simp add: sample_cache_def SECTOR_COUNT_def NO_SECTOR_def BLOCK_SECTOR_SIZE_def)
  then show ?thesis unfolding small_def by blast
qed

lemma small_word: "small c \<Longrightarrow> i < 100 \<Longrightarrow> j < 128 \<Longrightarrow> word_at (fsv (small_volume c) i) j = word_at (small_disk i) j"
  by (intro word_at_cong) (simp_all add: small_def small_volume_def fsv_def)

lemma small_calm: "small c \<Longrightarrow> calm 8 {} (small_volume c)"
  by (auto simp: small_def small_volume_def calm_def idle_def SECTOR_COUNT_def unowned_def)

lemma small_simps:
  "small c \<Longrightarrow> fsz (small_volume c) = 100" "inode_length a (small_volume c) = (if a = 0 then 16 else 0)" "main_of a (small_volume c) = a"
  "deny_write_cnt (inodes (small_volume c) a) = 0" "inode_is_dir 1 (small_volume c)"
  by (simp_all add: small_def small_volume_def fsz_def inode_length_def main_of_def inode_is_dir_def)

lemma small_used: "used_sectors (small_volume c) = {0, 1, 2, 3, 4, 5}"
proof -
  have b: "bit_at \<lparr>bit_cnt = 100, bits = [63, 0, 0, 0]\<rparr> x \<longleftrightarrow> x < 6" if "x < 100" for x
  proof -
    have m: "(63 :: u32) = mask 6" by (simp add: mask_eq_exp_minus_1)
    show ?thesis
    proof (cases "x < 32")
      case True
      then show ?thesis by (simp add: bit_at_def elem_idx_def ELEM_BITS_def m bit_mask_iff)
    next
      case False
      define q where "q = x div 32"
      have "1 \<le> q" "q < 4" using that False div_le_mono [of 32 x 32] by (simp_all add: q_def less_mult_imp_div_less)
      then have "q = 1 \<or> q = 2 \<or> q = 3" by linarith
      then show ?thesis using False by (auto simp: bit_at_def elem_idx_def ELEM_BITS_def numeral_2_eq_2 numeral_3_eq_3 simp flip: q_def)
    qed
  qed
  have "used_sectors (small_volume c) = {x. x < 100 \<and> x < 6}"
    by (auto simp: small_volume_def used_sectors_def used_bits_def b)
  also have "\<dots> = {..<6}" by auto
  also have "\<dots> = {0, 1, 2, 3, 4, 5}" by (auto simp: lessThan_Suc numeral_eq_Suc)
  finally show ?thesis .
qed

lemma small_words:
  assumes "small c" "j < 128"
  shows "word_at (fsv (small_volume c) 0) j = (if j = 3 then 2 else NO_SECTOR)" "b \<in> {1, 5} \<Longrightarrow> 3 \<le> j \<Longrightarrow> word_at (fsv (small_volume c) b) j = NO_SECTOR"
    "word_at (fsv (small_volume c) 2) j = (if j = 0 then 3 else NO_SECTOR)" "word_at (fsv (small_volume c) 3) j = (if j = 0 then 4 else NO_SECTOR)"
  using small_word [OF assms(1) _ assms(2)] by (auto simp: small_disk_def word_at_put_word word_at_ones)

text \<open>The paths of a tree.\<close>

lemma valid_paths: "valid p \<Longrightarrow> (\<exists>i < 125. p = [i]) \<or> (\<exists>i < 125. \<exists>j < 128. p = [j, i]) \<or> (\<exists>i < 125. \<exists>j < 128. \<exists>k < 128. p = [k, j, i])"
  by (cases p; cases "tl p"; cases "tl (tl p)") (auto simp: valid_def REDIRECTION_LEVEL_def ON_INODE_DIR_SIZE_def)

lemma small_tree0:
  assumes "small c" "valid p"
  shows "node (file_ent 0 (small_volume c)) p = (if p = [0] then 2 else if p = [0, 0] then 3 else if p = [0, 0, 0] then 4 else NO_SECTOR)"
proof -
  let ?E = "file_ent 0 (small_volume c)"
  have n: "2 \<noteq> NO_SECTOR" "3 \<noteq> NO_SECTOR" "4 \<noteq> NO_SECTOR" by (simp_all add: NO_SECTOR_def)
  have n1: "node ?E [i] = (if i = 0 then 2 else NO_SECTOR)" if "i < 125" for i
    using that by (simp add: file_ent_def small_simps dir_at_def small_words [OF assms(1)])
  have n2: "node ?E [j, i] = (if i = 0 \<and> j = 0 then 3 else NO_SECTOR)" if "i < 125" "j < 128" for i j
  proof -
    have "node ?E [j, i] = (if node ?E [i] = NO_SECTOR then NO_SECTOR else word_at (fsv (small_volume c) (node ?E [i])) j)"
      by (simp add: file_ent_def)
    then show ?thesis unfolding n1 [OF that(1)] using n small_words(3) [OF assms(1) that(2)] by auto
  qed
  have n3: "node ?E [k, j, i] = (if i = 0 \<and> j = 0 \<and> k = 0 then 4 else NO_SECTOR)" if "i < 125" "j < 128" "k < 128" for i j k
  proof -
    have "node ?E [k, j, i] = (if node ?E [j, i] = NO_SECTOR then NO_SECTOR else word_at (fsv (small_volume c) (node ?E [j, i])) k)"
      by (simp add: file_ent_def)
    then show ?thesis unfolding n2 [OF that(1,2)] using n small_words(4) [OF assms(1) that(3)] by auto
  qed
  from valid_paths [OF assms(2)] show ?thesis using n1 n2 n3 by (elim disjE exE conjE) auto
qed

lemma small_tree1:
  assumes "small c" "b \<in> {1, 5}" "valid p"
  shows "node (file_ent b (small_volume c)) p = NO_SECTOR"
proof -
  let ?E = "file_ent b (small_volume c)"
  have n1: "node ?E [i] = NO_SECTOR" if "i < 125" for i
    using that small_words(2) [OF assms(1) _ assms(2), of "3 + i"] by (simp add: file_ent_def small_simps dir_at_def)
  from valid_paths [OF assms(3)] show ?thesis using n1 node_NO_append [of ?E] by (elim disjE exE conjE) (auto dest: n1)
qed

lemma small_files:
  assumes "small c"
  shows "file_sectors 0 (small_volume c) = {0, 2, 3, 4}" "file_ok 0 16 (small_volume c)"
    "b \<in> {1, 5} \<Longrightarrow> file_sectors b (small_volume c) = {b}" "b \<in> {1, 5} \<Longrightarrow> file_ok b 0 (small_volume c)"
proof -
  have v: "valid [0]" "valid [0, 0]" "valid [0, 0, 0]" by (simp_all add: valid_def REDIRECTION_LEVEL_def ON_INODE_DIR_SIZE_def)
  have n: "2 \<noteq> NO_SECTOR" "3 \<noteq> NO_SECTOR" "4 \<noteq> NO_SECTOR" by (simp_all add: NO_SECTOR_def)
  let ?E = "file_ent 0 (small_volume c)" let ?F = "file_ent b (small_volume c)"
  note t0 = small_tree0 [OF assms] and t1 = small_tree1 [OF assms]
  have "nodes ?E \<subseteq> {2, 3, 4}" using t0 by (auto simp: nodes_def split: if_splits)
  moreover have "{2, 3, 4} \<subseteq> nodes ?E" using node_in_nodes [OF v(1), of ?E] node_in_nodes [OF v(2), of ?E] node_in_nodes [OF v(3), of ?E] t0 [OF v(1)] t0 [OF v(2)] t0 [OF v(3)] n by simp
  ultimately have N: "nodes ?E = {2, 3, 4}" by blast
  show "file_sectors 0 (small_volume c) = {0, 2, 3, 4}" using N by (simp add: file_sectors_def small_simps)
  have i: "tree_inj ?E" unfolding tree_inj_def using t0 n by (auto split: if_splits)
  have "path 0 = [0, 0, 0]" by (simp add: path_def)
  then have "j < MAX_INDEX \<and> node ?E (path j) \<noteq> NO_SECTOR" if "512 * int j < 16" for j
    using that t0 [OF v(3)] n(3) by (cases j) (simp_all add: MAX_INDEX_def)
  moreover have "main_of 0 (small_volume c) \<notin> nodes ?E" "main_of 0 (small_volume c) < fsz (small_volume c)" "nodes ?E \<subseteq> {..<fsz (small_volume c)}"
    using N small_simps(1) [OF assms] by (simp_all add: small_simps)
  ultimately show "file_ok 0 16 (small_volume c)" unfolding file_ok_def using i by simp
  assume b: "b \<in> {1, 5}"
  have M: "nodes ?F = {}" "tree_inj ?F" using t1 [OF b] by (auto simp: nodes_def tree_inj_def)
  show "file_sectors b (small_volume c) = {b}" using M by (simp add: file_sectors_def small_simps)
  show "file_ok b 0 (small_volume c)" unfolding file_ok_def using M small_simps(1) [OF assms] b by (auto simp: small_simps)
qed

lemma small_volume_ok:
  assumes "small c"
  shows "volume 0 {1, 5} (small_volume c)" "contents 1 (small_volume c) = []" "card (free_sectors (small_volume c)) = 94"
proof -
  let ?s = "small_volume c"
  note f = small_files [OF assms] and z = small_simps(1) [OF assms]
  have "bitmap_ok (free_map (fs_map ?s))" by (simp add: small_volume_def bitmap_ok_def elem_cnt_def ELEM_BITS_def)
  then have m: "map_ok ?s" using z by (simp add: map_ok_def fmap_ok_def small_volume_def)
  have b: "byte_cnt 100 = 16" by (simp add: byte_cnt_def elem_cnt_def ELEM_BITS_def)
  have vo: "volume_ok (fm_ok 0 {0, 2, 3, 4}) {0, 2, 3, 4} ?s"
    unfolding volume_ok_def fm_ok_def using m f(1,2) z b by (simp add: small_simps small_used)
  have inv: "file_inv {0, 2, 3, 4} a ?s" if a: "a \<in> {1, 5}" for a
  proof -
    have nd: "node (file_ent a ?s) (path j) = NO_SECTOR" if "j < MAX_INDEX" for j using small_tree1 [OF assms a valid_path [OF that]] .
    have sub: "insert (main_of a ?s) (nodes (file_ent a ?s)) \<subseteq> used_sectors ?s - {0, 2, 3, 4}"
      unfolding small_used using f(3) [OF a] a unfolding file_sectors_def by auto
    have "file_byte a ?s k = 0" if "k div 512 < MAX_INDEX" for k using nd [OF that] no_sector_zero [OF small_calm [OF assms]] by (simp add: file_byte_def)
    moreover have "inode_length a ?s = 0" using a by (auto simp: small_simps)
    ultimately show ?thesis unfolding file_inv_def using f(4) [OF a] sub nd by simp
  qed
  have "file_sectors a ?s \<inter> file_sectors a' ?s = {}" if "a \<in> {1, 5}" "a' \<in> {1, 5}" "a \<noteq> a'" for a a' using that f(3) by simp
  then show "volume 0 {1, 5} ?s" unfolding volume_def f(1) using small_calm [OF assms] vo inv by simp
  show "contents 1 ?s = []" by (simp add: contents_def small_simps)
  have "free_sectors ?s = {6..<100}" using z by (auto simp: free_sectors_def small_used)
  then show "card (free_sectors ?s) = 94" by simp
qed

section \<open>Properties\<close>

text \<open>
  C1: \<^verbatim>\<open>inode_write_at\<close> writes a file as a sequence of bytes. On a volume in order, a write of \<open>m\<close> bytes at any
  offset, within the file or behind its end, returns \<open>m\<close> when three free sectors are left for every data sector
  that the file lacks (two index sectors may be needed on the way). Afterwards the file has the new bytes at that offset, zeros between its
  old end and the offset, and its old bytes elsewhere; all other files are as before; and the volume is in order again.
\<close>

theorem inode_write_at_spec:
  assumes "volume fa A s" "a \<in> A" "deny_write_cnt (inodes s a) = 0" "0 \<le> offset" "0 \<le> m" "offset + m \<le> 512 * int MAX_INDEX"
    "3 * (bytes_to_sectors (offset + m) - bytes_to_sectors (inode_length a s)) \<le> card (free_sectors s)"
  shows "\<exists>s'. inode_write_at mem (bitmap_write mem fa) a buffer m offset s = Some (s', m) \<and> volume fa A s' \<and>
    contents a s' = write_spec (nat offset) (map buffer [0..<nat m]) (contents a s) \<and>
    (\<forall>b \<in> A. b \<noteq> a \<longrightarrow> contents b s' = contents b s)"
  using write_volume [OF assms, of mem buffer] by (elim exE conjE) (intro exI conjI; assumption)

theorem inode_write_at_spec_witness:
  "\<exists>s s'. volume 0 {1, 5} s \<and> contents 1 s = [] \<and> inode_write_at (\<lambda>_. True) (bitmap_write (\<lambda>_. True) 0) 1 (\<lambda>k. of_nat k + 7) 3 2 s = Some (s', 3) \<and>
    contents 1 s' = [0, 0, 7, 8, 9]"
proof -
  from small_exists obtain c where c: "small c" by blast
  let ?s = "small_volume c"
  note v = small_volume_ok [OF c]
  have b: "3 * (bytes_to_sectors (2 + 3) - bytes_to_sectors (inode_length 1 ?s)) \<le> card (free_sectors ?s)"
    by (simp add: v(3) small_simps bytes_to_sectors_def to_size_def off_div_def wrap_off_def)
  have m: "2 + 3 \<le> 512 * int MAX_INDEX" by (simp add: MAX_INDEX_def)
  from inode_write_at_spec [OF v(1) _ small_simps(4) _ _ m b, of "\<lambda>_. True" "\<lambda>k. of_nat k + 7"]
  obtain s' where "inode_write_at (\<lambda>_. True) (bitmap_write (\<lambda>_. True) 0) 1 (\<lambda>k. of_nat k + 7) 3 2 ?s = Some (s', 3)"
    "contents 1 s' = write_spec (nat 2) (map (\<lambda>k. of_nat k + 7) [0..<nat 3]) (contents 1 ?s)" by auto
  then show ?thesis using v(1,2) by (intro exI [of _ ?s] exI [of _ s']) (simp add: write_spec_def numeral_eq_Suc)
qed

text \<open>
  C14: \<^verbatim>\<open>inode_read_at\<close> copies the bytes of the file from the offset on, as many as asked for or as there are, and
  changes no file.
\<close>

theorem inode_read_at_spec:
  assumes "volume fa A s" "a \<in> A" "0 \<le> offset" "0 \<le> m"
  shows "\<exists>s'. inode_read_at mem a m offset s = Some (s', take (nat m) (drop (nat offset) (contents a s))) \<and> volume fa A s' \<and>
    (\<forall>b \<in> A. contents b s' = contents b s)"
  using read_volume [OF assms, of mem] by (elim exE conjE) (intro exI conjI; assumption)

theorem inode_read_at_spec_witness:
  "\<exists>s s'. volume 0 {1, 5} s \<and> contents 1 s = [0, 0, 7, 8, 9] \<and> inode_read_at (\<lambda>_. True) 1 10 1 s = Some (s', [0, 7, 8, 9])"
proof -
  from small_exists obtain c where c: "small c" by blast
  let ?s = "small_volume c"
  note v = small_volume_ok [OF c]
  have b: "3 * (bytes_to_sectors (2 + 3) - bytes_to_sectors (inode_length 1 ?s)) \<le> card (free_sectors ?s)"
    by (simp add: v(3) small_simps bytes_to_sectors_def to_size_def off_div_def wrap_off_def)
  have m: "2 + 3 \<le> 512 * int MAX_INDEX" by (simp add: MAX_INDEX_def)
  from write_volume [OF v(1) _ small_simps(4) _ _ m b, of "\<lambda>_. True" "\<lambda>k. of_nat k + 7"]
  obtain s' where s': "volume 0 {1, 5} s'" "contents 1 s' = write_spec (nat 2) (map (\<lambda>k. of_nat k + 7) [0..<nat 3]) (contents 1 ?s)" by auto
  then have "contents 1 s' = [0, 0, 7, 8, 9]" using v(2) by (simp add: write_spec_def numeral_eq_Suc)
  moreover from this obtain s'' where "inode_read_at (\<lambda>_. True) 1 10 1 s' = Some (s'', [0, 7, 8, 9])"
    using inode_read_at_spec [OF s'(1), of 1 1 10 "\<lambda>_. True"] by (auto simp: numeral_eq_Suc)
  ultimately show ?thesis using s'(1) by blast
qed

end
