(* ===== verification/File.thy ===== *)
theory File
  imports VolumeProps
begin

text \<open>
  Open files, \<^verbatim>\<open>src/Project5/src/filesys/file.c\<close>: an inode with a position. An inode keeps the number of its
  files that deny writes to it. Whether \<^verbatim>\<open>calloc\<close> finds room is an argument; the lock in the structure is
  set up here and not used.
\<close>

section \<open>Operations\<close>

record open_file =
  finode :: nat
  pos :: int
  deny_write :: bool
  fis_dir :: bool

definition file_open :: "(u32 \<Rightarrow> bool) \<Rightarrow> map_writer \<Rightarrow> bool \<Rightarrow> nat option \<Rightarrow> fs \<Rightarrow> (fs \<times> open_file option) option" where
  "file_open mem bw room p s = (case p of
     Some a \<Rightarrow>
       if room \<and> \<not> inode_is_removed a s
       then Some (s, Some \<lparr>finode = a, pos = 0, deny_write = False, fis_dir = inode_is_dir a s\<rparr>)
       else do { s \<leftarrow> inode_close mem bw (Some a) s; Some (s, None) }
   | None \<Rightarrow> do { s \<leftarrow> inode_close mem bw None s; Some (s, None) })"

definition file_reopen :: "(u32 \<Rightarrow> bool) \<Rightarrow> map_writer \<Rightarrow> bool \<Rightarrow> open_file \<Rightarrow> fs \<Rightarrow> (fs \<times> open_file option) option" where
  "file_reopen mem bw room f s = (let (s, p) = inode_reopen (Some (finode f)) s in file_open mem bw room p s)"

definition file_deny_write :: "open_file \<Rightarrow> fs \<Rightarrow> (fs \<times> open_file) option" where
  "file_deny_write f s =
     (if \<not> deny_write f then do { s \<leftarrow> inode_deny_write (finode f) s; Some (s, f\<lparr>deny_write := True\<rparr>) } else Some (s, f))"

definition file_allow_write :: "open_file \<Rightarrow> fs \<Rightarrow> (fs \<times> open_file) option" where
  "file_allow_write f s =
     (if deny_write f then do { s \<leftarrow> inode_allow_write (finode f) s; Some (s, f\<lparr>deny_write := False\<rparr>) } else Some (s, f))"

definition file_close :: "(u32 \<Rightarrow> bool) \<Rightarrow> map_writer \<Rightarrow> open_file option \<Rightarrow> fs \<Rightarrow> fs option" where
  "file_close mem bw p s = (case p of
     None \<Rightarrow> Some s
   | Some f \<Rightarrow> do { (s, f) \<leftarrow> file_allow_write f s; inode_close mem bw (Some (finode f)) s })"

definition file_get_inode :: "open_file \<Rightarrow> nat" where
  "file_get_inode f = finode f"

definition file_read :: "(u32 \<Rightarrow> bool) \<Rightarrow> open_file \<Rightarrow> int \<Rightarrow> fs \<Rightarrow> (fs \<times> open_file \<times> u8 list) option" where
  "file_read mem f n s = do {
     (s, bs) \<leftarrow> inode_read_at mem (finode f) n (pos f) s;
     Some (s, f\<lparr>pos := wrap_off (pos f + int (length bs))\<rparr>, bs) }"

definition file_read_at :: "(u32 \<Rightarrow> bool) \<Rightarrow> open_file \<Rightarrow> int \<Rightarrow> int \<Rightarrow> fs \<Rightarrow> (fs \<times> u8 list) option" where
  "file_read_at mem f n file_ofs s = inode_read_at mem (finode f) n file_ofs s"

definition file_write :: "(u32 \<Rightarrow> bool) \<Rightarrow> map_writer \<Rightarrow> open_file \<Rightarrow> (nat \<Rightarrow> u8) \<Rightarrow> int \<Rightarrow> fs \<Rightarrow> (fs \<times> open_file \<times> int) option" where
  "file_write mem bw f buffer n s = do {
     (s, w) \<leftarrow> inode_write_at mem bw (finode f) buffer n (pos f) s;
     Some (s, f\<lparr>pos := wrap_off (pos f + w)\<rparr>, w) }"

definition file_write_at :: "(u32 \<Rightarrow> bool) \<Rightarrow> map_writer \<Rightarrow> open_file \<Rightarrow> (nat \<Rightarrow> u8) \<Rightarrow> int \<Rightarrow> int \<Rightarrow> fs \<Rightarrow> (fs \<times> int) option" where
  "file_write_at mem bw f buffer n file_ofs s = inode_write_at mem bw (finode f) buffer n file_ofs s"

definition file_length :: "open_file \<Rightarrow> fs \<Rightarrow> int" where
  "file_length f s = inode_length (finode f) s"

definition file_seek :: "open_file \<Rightarrow> int \<Rightarrow> open_file option" where
  "file_seek f new_pos = do { ASSERT (new_pos \<ge> 0); Some (f\<lparr>pos := new_pos\<rparr>) }"

definition file_tell :: "open_file \<Rightarrow> int" where
  "file_tell f = pos f"

definition file_set_dir :: "open_file option \<Rightarrow> bool \<Rightarrow> open_file option" where
  "file_set_dir p d = map_option (\<lambda>f. f\<lparr>fis_dir := d\<rparr>) p"

definition file_is_dir :: "open_file option \<Rightarrow> bool" where
  "file_is_dir p = (case p of None \<Rightarrow> False | Some f \<Rightarrow> fis_dir f)"

section \<open>Files as a sequence of bytes with a position\<close>

lemma wrap_off_id: "- (2 ^ 31) \<le> x \<Longrightarrow> x < 2 ^ 31 \<Longrightarrow> wrap_off x = x"
  by (simp add: wrap_off_def)

lemma max_index_off: "x \<le> 512 * int MAX_INDEX \<Longrightarrow> x < 2 ^ 31"
  by (simp add: MAX_INDEX_def)

text \<open>
  C15: what \<^verbatim>\<open>file_write\<close> puts into a file, \<^verbatim>\<open>file_read\<close> gets back after \<^verbatim>\<open>file_seek\<close> to the old position; both calls move
  the position by the number of bytes.
\<close>

theorem file_write_read:
  assumes v: "volume fa A s" and f: "finode f \<in> A" "deny_write_cnt (inodes s (finode f)) = 0" and p: "0 \<le> pos f" "0 \<le> n"
    and room: "pos f + n \<le> 512 * int MAX_INDEX"
      "3 * (bytes_to_sectors (pos f + n) - bytes_to_sectors (file_length f s)) \<le> card (free_sectors s)"
  shows "\<exists>s1 f1 f2 s3 f3. file_write mem (bitmap_write mem fa) f buffer n s = Some (s1, f1, n) \<and> file_tell f1 = file_tell f + n \<and>
    file_length f1 s1 = max (file_length f s) (file_tell f + n) \<and> file_seek f1 (file_tell f) = Some f2 \<and>
    file_read mem f2 n s1 = Some (s3, f3, map buffer [0..<nat n]) \<and> file_tell f3 = file_tell f1 \<and> volume fa A s3"
proof -
  let ?bs = "map buffer [0..<nat n]"
  have w: "wrap_off (pos f + n) = pos f + n" using max_index_off [OF room(1)] p by (simp add: wrap_off_id)
  obtain s1 where s1: "inode_write_at mem (bitmap_write mem fa) (finode f) buffer n (pos f) s = Some (s1, n)" "volume fa A s1"
    "contents (finode f) s1 = write_spec (nat (pos f)) ?bs (contents (finode f) s)"
    "inode_length (finode f) s1 = max (inode_length (finode f) s) (pos f + n)"
    using write_volume [OF v f p room(1) room(2) [unfolded file_length_def], of mem buffer] by blast
  let ?f1 = "f\<lparr>pos := pos f + n\<rparr>"
  have "drop (nat (pos f)) (write_spec (nat (pos f)) ?bs c) = ?bs @ drop (nat (pos f) + nat n) c" for c
    by (simp add: write_spec_def)
  then have r: "take (nat n) (drop (nat (pos f)) (contents (finode f) s1)) = ?bs" by (simp add: s1(3))
  obtain s3 where s3: "inode_read_at mem (finode f) n (pos f) s1 = Some (s3, ?bs)" "volume fa A s3"
    using read_volume [OF s1(2) f(1) p, of mem] r by auto
  have fw: "file_write mem (bitmap_write mem fa) f buffer n s = Some (s1, ?f1, n)" using s1(1) w by (simp add: file_write_def)
  have fr: "file_read mem f n s1 = Some (s3, ?f1, ?bs)" using s3(1) w p(2) by (simp add: file_read_def)
  have sk: "file_seek ?f1 (pos f) = Some f" using p(1) by (simp add: file_seek_def)
  show ?thesis using fw fr sk s1(4) s3(2) by (intro exI [of _ s1] exI [of _ ?f1] exI [of _ f] exI [of _ s3]) (simp add: file_tell_def file_length_def)
qed

definition small_file :: open_file where
  "small_file = \<lparr>finode = 1, pos = 0, deny_write = False, fis_dir = True\<rparr>"

theorem file_write_read_witness:
  "\<exists>s s1 f1 f2 s3 f3. file_write (\<lambda>_. True) (bitmap_write (\<lambda>_. True) 0) small_file (\<lambda>k. of_nat k + 7) 3 s = Some (s1, f1, 3) \<and>
    file_seek f1 0 = Some f2 \<and> file_read (\<lambda>_. True) f2 3 s1 = Some (s3, f3, [7, 8, 9])"
proof -
  from small_exists obtain c where c: "small c" by blast
  let ?s = "small_volume c"
  note v = small_volume_ok [OF c]
  have b: "3 * (bytes_to_sectors (pos small_file + 3) - bytes_to_sectors (file_length small_file ?s)) \<le> card (free_sectors ?s)"
    by (simp add: small_file_def file_length_def v(3) small_simps bytes_to_sectors_def to_size_def off_div_def wrap_off_def)
  have m: "pos small_file + 3 \<le> 512 * int MAX_INDEX" by (simp add: small_file_def MAX_INDEX_def)
  have i: "finode small_file \<in> {1, 5}" "0 \<le> pos small_file" "file_tell small_file = 0" by (simp_all add: small_file_def file_tell_def)
  from file_write_read [OF v(1) i(1) small_simps(4) i(2) _ m b, of "\<lambda>_. True" "\<lambda>k. of_nat k + 7"] i(3)
  obtain s1 f1 f2 s3 f3 where "file_write (\<lambda>_. True) (bitmap_write (\<lambda>_. True) 0) small_file (\<lambda>k. of_nat k + 7) 3 ?s = Some (s1, f1, 3)"
    "file_seek f1 0 = Some f2" "file_read (\<lambda>_. True) f2 3 s1 = Some (s3, f3, [7, 8, 9])" by (auto simp: numeral_eq_Suc)
  then show ?thesis by blast
qed

text \<open>
  After \<^verbatim>\<open>file_deny_write\<close> no file with the same inode can write to it: \<^verbatim>\<open>file_write\<close> returns 0 and changes nothing.
  \<^verbatim>\<open>file_allow_write\<close> gives the inode back as it was.
\<close>

theorem file_deny_write_blocks:
  assumes "\<not> deny_write f" "0 \<le> deny_write_cnt (inodes s (finode f))" "deny_write_cnt (inodes s (finode f)) < open_cnt (inodes s (finode f))"
    "finode g = finode f" "- (2 ^ 31) \<le> pos g" "pos g < 2 ^ 31"
  shows "\<exists>s1 f1. file_deny_write f s = Some (s1, f1) \<and> file_write mem bw g buffer n s1 = Some (s1, g, 0) \<and>
    file_deny_write f1 s1 = Some (s1, f1) \<and> file_allow_write f1 s1 = Some (s, f)"
  using assms by (simp add: file_deny_write_def file_allow_write_def inode_deny_write_def inode_allow_write_def file_write_def inode_write_at_def
      Let_def wrap_off_id)

theorem file_deny_write_blocks_witness:
  "\<exists>s1 f1. file_deny_write small_file (small_volume sample_cache) = Some (s1, f1) \<and>
    file_write (\<lambda>_. True) (\<lambda>_ _. None) (small_file\<lparr>pos := 5\<rparr>) (\<lambda>_. 1) 100 s1 = Some (s1, small_file\<lparr>pos := 5\<rparr>, 0)"
  using file_deny_write_blocks [of small_file "small_volume sample_cache" "small_file\<lparr>pos := 5\<rparr>" "\<lambda>_. True" "\<lambda>_ _. None" "\<lambda>_. 1" 100]
  by (auto simp: small_file_def small_volume_def)

end
