(* ===== verification/Directory.thy ===== *)
theory Directory
  imports File
begin

text \<open>
  Directories, \<^verbatim>\<open>src/Project5/src/filesys/directory.c\<close>: files of entries of 32 bytes, each with a sector number, a
  name of up to 25 bytes that ends with 0, a flag and one byte of padding. Names are the bytes of a string without the
  final 0. \<open>junk\<close> is what the local variable of a function held before, and \<open>alloc\<close> gives the
  address that \<^verbatim>\<open>malloc\<close> returns for a new inode, if there is room.
\<close>

section \<open>Entries\<close>

definition NAME_MAX :: nat where "NAME_MAX = 25"

definition ENTRY_SIZE :: nat where "ENTRY_SIZE = 32"

record dir =
  dinode :: nat
  dpos :: int
  dir_lock :: bool

definition entry_sector :: "u8 list \<Rightarrow> nat" where
  "entry_sector e = unat (read32 (\<lambda>k. e ! k) 0)"

definition entry_name :: "u8 list \<Rightarrow> u8 list" where
  "entry_name e = take (NAME_MAX + 1) (drop 4 e)"

definition entry_in_use :: "u8 list \<Rightarrow> bool" where
  "entry_in_use e \<longleftrightarrow> e ! 30 \<noteq> 0"

text \<open>\<^verbatim>\<open>strcmp\<close> of a string with the array of a name: not finding a difference within the array is \<^term>\<open>None\<close>.\<close>

fun str_equal :: "u8 list \<Rightarrow> u8 list \<Rightarrow> bool option" where
  "str_equal cs [] = None"
| "str_equal [] (b # bs) = Some (b = 0)"
| "str_equal (c # cs) (b # bs) = (if c = b then str_equal cs bs else Some False)"

text \<open>The entry that \<^verbatim>\<open>dir_add\<close> writes: \<^verbatim>\<open>strlcpy\<close> leaves the bytes behind the name as they were.\<close>

definition fill_entry :: "u8 list \<Rightarrow> u8 list \<Rightarrow> nat \<Rightarrow> u8 list" where
  "fill_entry e name sector =
     (let w = (of_nat sector :: u32); n = take NAME_MAX name @ [0]
      in [ucast w, ucast (drop_bit 8 w), ucast (drop_bit 16 w), ucast (drop_bit 24 w)] @ n @ drop (4 + length n) (e[30 := 1]))"

section \<open>Locks\<close>

text \<open>The lock of a directory, by one thread: acquiring it twice or releasing it when it is not held fails an assertion.\<close>

definition dir_lock_acquire :: "dir \<Rightarrow> dir option" where
  "dir_lock_acquire d = do { ASSERT (\<not> dir_lock d); Some (d\<lparr>dir_lock := True\<rparr>) }"

definition dir_lock_release :: "dir \<Rightarrow> dir option" where
  "dir_lock_release d = do { ASSERT (dir_lock d); Some (d\<lparr>dir_lock := False\<rparr>) }"

section \<open>Opening\<close>

text \<open>A null inode faults in \<^verbatim>\<open>inode_is_dir\<close>.\<close>

definition dir_open :: "(u32 \<Rightarrow> bool) \<Rightarrow> map_writer \<Rightarrow> bool \<Rightarrow> nat option \<Rightarrow> fs \<Rightarrow> (fs \<times> dir option) option" where
  "dir_open mem bw room p s = (case p of
     None \<Rightarrow> None
   | Some a \<Rightarrow>
       if \<not> inode_is_dir a s then Some (s, None)
       else if room \<and> \<not> inode_is_removed a s then Some (s, Some \<lparr>dinode = a, dpos = 0, dir_lock = False\<rparr>)
       else do { s \<leftarrow> inode_close mem bw (Some a) s; Some (s, None) })"

definition dir_open_root :: "(u32 \<Rightarrow> bool) \<Rightarrow> map_writer \<Rightarrow> (fs \<Rightarrow> nat option) \<Rightarrow> bool \<Rightarrow> fs \<Rightarrow> (fs \<times> dir option) option" where
  "dir_open_root mem bw alloc room s = do {
     (s, p) \<leftarrow> inode_open mem (alloc s) ROOT_DIR_SECTOR s;
     dir_open mem bw room p s }"

definition dir_reopen :: "(u32 \<Rightarrow> bool) \<Rightarrow> map_writer \<Rightarrow> bool \<Rightarrow> dir \<Rightarrow> fs \<Rightarrow> (fs \<times> dir option) option" where
  "dir_reopen mem bw room d s = (let (s, p) = inode_reopen (Some (dinode d)) s in dir_open mem bw room p s)"

definition dir_close :: "(u32 \<Rightarrow> bool) \<Rightarrow> map_writer \<Rightarrow> dir option \<Rightarrow> fs \<Rightarrow> fs option" where
  "dir_close mem bw p s = (case p of None \<Rightarrow> Some s | Some d \<Rightarrow> inode_close mem bw (Some (dinode d)) s)"

definition dir_get_inode :: "dir \<Rightarrow> nat" where
  "dir_get_inode d = dinode d"

section \<open>Loops over the entries\<close>

text \<open>Reading changes no inode, and what is read lies within the file.\<close>

lemma get_handle_inodes: "get_sector_handle mem i b s = Some (s', h) \<Longrightarrow> inodes s' = inodes s"
  by (auto simp: get_sector_handle_def split: if_splits bind_splits)

lemma release_handle_inodes: "release_sector_handle i h c b s = Some s' \<Longrightarrow> inodes s' = inodes s"
  by (auto simp: release_sector_handle_def split: if_splits bind_splits option.splits)

lemma seek_levels_inodes: "seek_levels mem ids x par q s = Some (s', r) \<Longrightarrow> inodes s' = inodes s"
  by (induction mem ids x par q s rule: seek_levels.induct)
    (auto simp: Let_def split: bind_splits option.splits dest!: get_handle_inodes release_handle_inodes)

lemma byte_to_sector_inodes: "byte_to_sector mem a p b s = Some (s', x) \<Longrightarrow> inodes s' = inodes s"
  by (auto simp: byte_to_sector_def get_inode_sector_def Let_def split: if_splits bind_splits option.splits prod.splits
      dest!: get_handle_inodes release_handle_inodes seek_levels_inodes)

lemma read_loop_inodes: "read_loop mem a n offset s = Some (s', bs) \<Longrightarrow> inodes s' = inodes s \<and> (bs \<noteq> [] \<longrightarrow> offset < inode_length a s)"
proof (induction mem a n offset s arbitrary: bs rule: read_loop.induct)
  case (1 mem a n offset s)
  show ?case
  proof (cases "n > 0")
    case False
    then show ?thesis using "1.prems" by (simp add: read_loop.simps)
  next
    case True
    then obtain s1 x where b: "byte_to_sector mem a offset False s = Some (s1, x)"
      using "1.prems" by (auto simp: read_loop.simps [of mem a n] split: bind_splits)
    have l: "inode_length a s1 = inode_length a s" using byte_to_sector_inodes [OF b] by (simp add: inode_length_def)
    show ?thesis
    proof (cases "chunk_size n (inode_length a s1) offset \<le> 0")
      case True
      then show ?thesis using "1.prems" b \<open>n > 0\<close> byte_to_sector_inodes [OF b] by (simp add: read_loop.simps [of mem a n])
    next
      case False
      then have "offset < inode_length a s" using l by (simp add: chunk_size_def)
      moreover from "1.prems" b \<open>n > 0\<close> False obtain s2 h where g: "get_sector_handle mem x False s1 = Some (s2, h)"
        by (auto simp: read_loop.simps [of mem a n] Let_def split: bind_splits)
      moreover from "1.prems" b \<open>n > 0\<close> False g obtain e s3 rest where "h = Some e" "0 \<le> off_mod offset"
        "release_sector_handle x h False False s2 = Some s3"
        "read_loop mem a (n - chunk_size n (inode_length a s1) offset) (offset + chunk_size n (inode_length a s1) offset) s3 = Some (s', rest)"
        by (auto simp: read_loop.simps [of mem a n] Let_def split: bind_splits option.splits)
      ultimately show ?thesis using "1.IH" [OF \<open>n > 0\<close> b refl] False byte_to_sector_inodes [OF b] get_handle_inodes release_handle_inodes
        by (fastforce simp: Let_def)
    qed
  qed
qed

lemma read_at_inodes:
  assumes "inode_read_at mem a n offset s = Some (s', bs)"
  shows "inode_length a s' = inode_length a s" "bs \<noteq> [] \<Longrightarrow> offset < inode_length a s" "inodes s' = inodes s"
  using read_loop_inodes [of mem a n offset s s' bs] assms by (auto simp: inode_read_at_def inode_length_def)

lemma read_progress:
  "inode_read_at mem a 32 p s = Some (s', e) \<Longrightarrow> length e = ENTRY_SIZE \<Longrightarrow> nat (inode_length a s' - (p + 32)) < nat (inode_length a s - p)"
  using read_at_inodes [of mem a 32 p s s' e] by (cases e) (auto simp: ENTRY_SIZE_def)

text \<open>The loop of \<^verbatim>\<open>lookup\<close>: the first entry in use with that name, and where it is.\<close>

function lookup_loop :: "(u32 \<Rightarrow> bool) \<Rightarrow> nat \<Rightarrow> u8 list \<Rightarrow> int \<Rightarrow> fs \<Rightarrow> (fs \<times> (u8 list \<times> int) option) option" where
  "lookup_loop mem a name ofs s =
     (case inode_read_at mem a 32 ofs s of
        None \<Rightarrow> None
      | Some (s', e) \<Rightarrow>
          if length e = ENTRY_SIZE then
            (case (if entry_in_use e then str_equal name (entry_name e) else Some False) of
               None \<Rightarrow> None
             | Some True \<Rightarrow> Some (s', Some (e, ofs))
             | Some False \<Rightarrow> lookup_loop mem a name (ofs + 32) s')
          else Some (s', None))"
  by pat_completeness auto
termination by (relation "measure (\<lambda>(mem, a, name, ofs, s). nat (inode_length a s - ofs))") (auto dest: read_progress)

definition lookup :: "(u32 \<Rightarrow> bool) \<Rightarrow> dir \<Rightarrow> u8 list \<Rightarrow> fs \<Rightarrow> (fs \<times> dir \<times> (u8 list \<times> int) option) option" where
  "lookup mem d name s = do {
     d \<leftarrow> dir_lock_acquire d;
     (s, r) \<leftarrow> lookup_loop mem (dinode d) name 0 s;
     d \<leftarrow> dir_lock_release d;
     Some (s, d, r) }"

definition dir_lookup :: "(u32 \<Rightarrow> bool) \<Rightarrow> (fs \<Rightarrow> nat option) \<Rightarrow> dir \<Rightarrow> u8 list \<Rightarrow> fs \<Rightarrow> (fs \<times> dir \<times> nat option) option" where
  "dir_lookup mem alloc d name s = do {
     (s, d, r) \<leftarrow> lookup mem d name s;
     case r of
       None \<Rightarrow> Some (s, d, None)
     | Some (e, _) \<Rightarrow> do { (s, p) \<leftarrow> inode_open mem (alloc s) (entry_sector e) s; Some (s, d, p) } }"

text \<open>
  The loop of \<^verbatim>\<open>dir_add\<close>: the offset of the first entry not in use, or the end of the file, and what the
  variable holds then. A short read changes the first bytes only.
\<close>

function free_slot_loop :: "(u32 \<Rightarrow> bool) \<Rightarrow> nat \<Rightarrow> u8 list \<Rightarrow> int \<Rightarrow> fs \<Rightarrow> (fs \<times> u8 list \<times> int) option" where
  "free_slot_loop mem a e ofs s =
     (case inode_read_at mem a 32 ofs s of
        None \<Rightarrow> None
      | Some (s', bs) \<Rightarrow>
          if length bs = ENTRY_SIZE then
            (if \<not> entry_in_use bs then Some (s', bs, ofs) else free_slot_loop mem a bs (ofs + 32) s')
          else Some (s', bs @ drop (length bs) e, ofs))"
  by pat_completeness auto
termination by (relation "measure (\<lambda>(mem, a, e, ofs, s). nat (inode_length a s - ofs))") (auto dest: read_progress)

definition dir_add :: "(u32 \<Rightarrow> bool) \<Rightarrow> map_writer \<Rightarrow> u8 list \<Rightarrow> dir \<Rightarrow> u8 list \<Rightarrow> nat \<Rightarrow> fs \<Rightarrow> (fs \<times> dir \<times> bool) option" where
  "dir_add mem bw junk d name sector s =
     (if name = [] \<or> length name > NAME_MAX then Some (s, d, False)
      else do {
        (s, d, r) \<leftarrow> lookup mem d name s;
        case r of
          Some _ \<Rightarrow> Some (s, d, False)
        | None \<Rightarrow> do {
            d \<leftarrow> dir_lock_acquire d;
            (s, e, ofs) \<leftarrow> free_slot_loop mem (dinode d) junk 0 s;
            (s, n) \<leftarrow> inode_write_at mem bw (dinode d) (\<lambda>k. fill_entry e name sector ! k) 32 ofs s;
            d \<leftarrow> dir_lock_release d;
            Some (s, d, n = 32) } })"

text \<open>The end of \<^verbatim>\<open>dir_remove\<close>, which every way through the function reaches.\<close>

definition remove_done :: "(u32 \<Rightarrow> bool) \<Rightarrow> map_writer \<Rightarrow> nat option \<Rightarrow> bool \<Rightarrow> dir \<Rightarrow> fs \<Rightarrow> (fs \<times> dir \<times> bool) option" where
  "remove_done mem bw p success d s = do {
     d \<leftarrow> dir_lock_release d;
     s \<leftarrow> inode_close mem bw p s;
     Some (s, d, success) }"

definition dir_remove :: "(u32 \<Rightarrow> bool) \<Rightarrow> map_writer \<Rightarrow> (fs \<Rightarrow> nat option) \<Rightarrow> dir \<Rightarrow> u8 list \<Rightarrow> fs \<Rightarrow> (fs \<times> dir \<times> bool) option" where
  "dir_remove mem bw alloc d name s = do {
     (s, d, r) \<leftarrow> lookup mem d name s;
     case r of
       None \<Rightarrow> remove_done mem bw None False d s
     | Some (e, ofs) \<Rightarrow> do {
         (s, p) \<leftarrow> inode_open mem (alloc s) (entry_sector e) s;
         case p of
           None \<Rightarrow> remove_done mem bw None False d s
         | Some i \<Rightarrow> do {
             d \<leftarrow> dir_lock_acquire d;
             (s, n) \<leftarrow> inode_write_at mem bw (dinode d) (\<lambda>k. e[30 := 0] ! k) 32 ofs s;
             if n \<noteq> 32 then remove_done mem bw (Some i) False d s
             else remove_done mem bw (Some i) True d (inode_remove i s) } } }"

text \<open>The loop of \<^verbatim>\<open>dir_readdir\<close> from position \<open>p\<close>: the new position and the name, skipping the names \<^verbatim>\<open>.\<close> and \<^verbatim>\<open>..\<close>.\<close>

function readdir_loop :: "(u32 \<Rightarrow> bool) \<Rightarrow> nat \<Rightarrow> int \<Rightarrow> fs \<Rightarrow> (fs \<times> int \<times> u8 list option) option" where
  "readdir_loop mem a p s =
     (case inode_read_at mem a 32 p s of
        None \<Rightarrow> None
      | Some (s', e) \<Rightarrow>
          if length e = ENTRY_SIZE then
            (if entry_in_use e then
               (case str_equal [46] (entry_name e) of
                  None \<Rightarrow> None
                | Some True \<Rightarrow> readdir_loop mem a (p + 32) s'
                | Some False \<Rightarrow>
                    (case str_equal [46, 46] (entry_name e) of
                       None \<Rightarrow> None
                     | Some True \<Rightarrow> readdir_loop mem a (p + 32) s'
                     | Some False \<Rightarrow>
                         if 0 \<in> set (entry_name e) then Some (s', p + 32, Some (takeWhile (\<lambda>c. c \<noteq> 0) (entry_name e))) else None))
             else readdir_loop mem a (p + 32) s')
          else Some (s', p, None))"
  by pat_completeness auto
termination by (relation "measure (\<lambda>(mem, a, p, s). nat (inode_length a s - p))") (auto dest: read_progress)

definition dir_readdir :: "(u32 \<Rightarrow> bool) \<Rightarrow> dir \<Rightarrow> fs \<Rightarrow> (fs \<times> dir \<times> u8 list option) option" where
  "dir_readdir mem d s = do {
     d \<leftarrow> dir_lock_acquire d;
     (s, p, r) \<leftarrow> readdir_loop mem (dinode d) (dpos d) s;
     d \<leftarrow> dir_lock_release d;
     Some (s, d\<lparr>dpos := p\<rparr>, r) }"

function count_loop :: "(u32 \<Rightarrow> bool) \<Rightarrow> nat \<Rightarrow> int \<Rightarrow> int \<Rightarrow> fs \<Rightarrow> (fs \<times> int \<times> int) option" where
  "count_loop mem a p n s =
     (case inode_read_at mem a 32 p s of
        None \<Rightarrow> None
      | Some (s', e) \<Rightarrow>
          if length e = ENTRY_SIZE then count_loop mem a (p + 32) (if entry_in_use e then n + 1 else n) s' else Some (s', p, n))"
  by pat_completeness auto
termination by (relation "measure (\<lambda>(mem, a, p, n, s). nat (inode_length a s - p))") (auto dest: read_progress)

declare lookup_loop.simps [simp del] free_slot_loop.simps [simp del] readdir_loop.simps [simp del] count_loop.simps [simp del]

definition dir_num_entries :: "(u32 \<Rightarrow> bool) \<Rightarrow> dir \<Rightarrow> fs \<Rightarrow> (fs \<times> dir \<times> int) option" where
  "dir_num_entries mem d s = do {
     d \<leftarrow> dir_lock_acquire d;
     (s, p, n) \<leftarrow> count_loop mem (dinode d) (dpos d) 0 s;
     d \<leftarrow> dir_lock_release d;
     Some (s, d\<lparr>dpos := p\<rparr>, n - 2) }"

text \<open>A directory that could not be opened fails the assertion of \<^verbatim>\<open>dir_add\<close>.\<close>

definition dir_create :: "(u32 \<Rightarrow> bool) \<Rightarrow> map_writer \<Rightarrow> (fs \<Rightarrow> nat option) \<Rightarrow> bool \<Rightarrow> u8 list \<Rightarrow> nat \<Rightarrow> nat \<Rightarrow> nat \<Rightarrow> fs \<Rightarrow> (fs \<times> bool) option" where
  "dir_create mem bw alloc room junk sector parent entry_cnt s = do {
     (s, ok) \<leftarrow> inode_create mem bw room sector (wrap_off (int (entry_cnt * 32))) True s;
     if \<not> ok then Some (s, False)
     else do {
       (s, p) \<leftarrow> inode_open mem (alloc s) sector s;
       (s, r) \<leftarrow> dir_open mem bw room p s;
       d \<leftarrow> r;
       (s, d, a1) \<leftarrow> dir_add mem bw junk d [46] sector s;
       (s, d, a2) \<leftarrow> dir_add mem bw junk d [46, 46] parent s;
       ASSERT (a1 \<and> a2);
       s \<leftarrow> dir_close mem bw (Some d) s;
       Some (s, True) } }"

end
