(* ===== verification/InodeFree.thy ===== *)
theory InodeFree
  imports VolumeProps
begin

text \<open>
  Deleting a file: \<^verbatim>\<open>inode_close\<close> of the last opener of a removed inode walks the tree of sectors and gives
  exactly the sectors of that file back to the free map.
\<close>

section \<open>Loops\<close>

lemma for_each_append: "for_each f (xs @ ys) s = Option.bind (for_each f xs s) (for_each f ys)"
  by (induction xs arbitrary: s) (auto split: bind_splits)

lemma for_each_upt:
  assumes "I 0 s" "\<forall>i t. i < n \<longrightarrow> I i t \<longrightarrow> (\<exists>t'. f i t = Some t' \<and> I (Suc i) t')"
  shows "\<exists>t. for_each f [0..<n] s = Some t \<and> I n t"
  using assms
proof (induction n)
  case (Suc n)
  then obtain t where t: "for_each f [0..<n] s = Some t" "I n t" by (meson less_Suc_eq)
  moreover obtain t' where "f n t = Some t'" "I (Suc n) t'" using Suc.prems(2) t(2) by blast
  ultimately show ?case by (auto simp: for_each_append)
qed simp

section \<open>Subtrees\<close>

text \<open>The sectors at and below a node.\<close>

definition subtree :: "entries \<Rightarrow> nat list \<Rightarrow> nat set" where
  "subtree E p = {node E (q @ p) | q. valid (q @ p) \<and> node E (q @ p) \<noteq> NO_SECTOR}"

lemma subtree_empty: "node E p = NO_SECTOR \<Longrightarrow> p \<noteq> [] \<Longrightarrow> subtree E p = {}"
  using node_NO_append [of E p] by (auto simp: subtree_def)

lemma subtree_nodes: "subtree E p \<subseteq> nodes E"
  by (auto simp: subtree_def nodes_def)

lemma subtree_all: "nodes E = (\<Union>i < ON_INODE_DIR_SIZE. subtree E [i])"
proof
  show "(\<Union>i < ON_INODE_DIR_SIZE. subtree E [i]) \<subseteq> nodes E" using subtree_nodes by blast
  show "nodes E \<subseteq> (\<Union>i < ON_INODE_DIR_SIZE. subtree E [i])"
  proof
    fix x assume "x \<in> nodes E"
    then obtain p where p: "valid p" "x = node E p" "node E p \<noteq> NO_SECTOR" by (auto simp: nodes_def)
    then have e: "p = butlast p @ [last p]" "last p < ON_INODE_DIR_SIZE" by (simp_all add: valid_def)
    then have "x \<in> subtree E [last p]" unfolding subtree_def using p by (smt (verit) mem_Collect_eq)
    then show "x \<in> (\<Union>i < ON_INODE_DIR_SIZE. subtree E [i])" using e(2) by blast
  qed
qed

lemma subtree_step:
  assumes "valid p" "node E p \<noteq> NO_SECTOR" "length p < REDIRECTION_LEVEL"
  shows "subtree E p = insert (node E p) (\<Union>i < 128. subtree E (i # p))"
proof
  show "subtree E p \<subseteq> insert (node E p) (\<Union>i < 128. subtree E (i # p))"
  proof
    fix x assume "x \<in> subtree E p"
    then obtain q where q: "valid (q @ p)" "x = node E (q @ p)" "node E (q @ p) \<noteq> NO_SECTOR" by (auto simp: subtree_def)
    show "x \<in> insert (node E p) (\<Union>i < 128. subtree E (i # p))"
    proof (cases "q = []")
      case True then show ?thesis using q by simp
    next
      case False
      then have e: "q @ p = butlast q @ (last q # p)" by simp
      have "last q < 128" using q(1) False by (auto simp: valid_def)
      moreover have "x \<in> subtree E (last q # p)" unfolding subtree_def using q unfolding e by blast
      ultimately show ?thesis by blast
    qed
  qed
  have "node E p \<in> subtree E p" unfolding subtree_def using assms(1,2) by (intro CollectI exI [of _ "[]"]) simp
  moreover have "subtree E (i # p) \<subseteq> subtree E p" for i
  proof
    fix x assume "x \<in> subtree E (i # p)"
    then obtain q where "valid (q @ i # p)" "x = node E (q @ i # p)" "node E (q @ i # p) \<noteq> NO_SECTOR" by (auto simp: subtree_def)
    then show "x \<in> subtree E p" unfolding subtree_def by (intro CollectI exI [of _ "q @ [i]"]) simp
  qed
  ultimately show "insert (node E p) (\<Union>i < 128. subtree E (i # p)) \<subseteq> subtree E p" by blast
qed

lemma subtree_leaf:
  assumes "valid p" "node E p \<noteq> NO_SECTOR" "length p = REDIRECTION_LEVEL"
  shows "subtree E p = {node E p}"
proof -
  have "q = []" if "valid (q @ p)" for q using that assms(3) by (auto simp: valid_def)
  then have "x = node E p" if "x \<in> subtree E p" for x using that unfolding subtree_def by fastforce
  moreover have "node E p \<in> subtree E p" unfolding subtree_def using assms(1,2) by (intro CollectI exI [of _ "[]"]) simp
  ultimately show ?thesis by blast
qed

text \<open>Different subtrees have no sector in common, and no node lies below its own children.\<close>

lemma suffix_conflict: "q @ i # p = r @ j # p \<Longrightarrow> i = j"
proof -
  assume "q @ i # p = r @ j # p"
  then have "(q @ [i]) @ p = (r @ [j]) @ p" by simp
  then show "i = j" by simp
qed

lemma subtree_disjoint:
  assumes "tree_inj E" "i \<noteq> j"
  shows "subtree E (i # p) \<inter> subtree E (j # p) = {}"
proof -
  have False if "valid (q @ i # p)" "valid (r @ j # p)" "node E (q @ i # p) \<noteq> NO_SECTOR" "node E (q @ i # p) = node E (r @ j # p)" for q r
    using assms that suffix_conflict [of q i p r j] unfolding tree_inj_def by blast
  then show ?thesis unfolding subtree_def by fastforce
qed

lemma subtree_above:
  assumes "tree_inj E" "valid p" "node E p \<noteq> NO_SECTOR"
  shows "node E p \<notin> subtree E (i # p)"
proof
  assume "node E p \<in> subtree E (i # p)"
  then obtain q where "valid (q @ i # p)" "node E p = node E (q @ i # p)" by (auto simp: subtree_def)
  then have "p = q @ i # p" using assms unfolding tree_inj_def by blast
  then have "length p = length (q @ i # p)" by metis
  then show False by simp
qed

text \<open>What freeing the sectors \<open>X\<close> does.\<close>

definition freed :: "(fs \<Rightarrow> bool) \<Rightarrow> nat set \<Rightarrow> nat set \<Rightarrow> fs \<Rightarrow> fs \<Rightarrow> bool" where
  "freed ok FM X s s' \<longleftrightarrow> used_sectors s' = used_sectors s - X \<and> volume_ok ok FM s' \<and> frame {} s s' \<and> (\<forall>y. y \<notin> FM \<longrightarrow> fsv s' y = fsv s y)"

lemma freed_trans:
  assumes "freed ok FM X s s'" "freed ok FM Y s' s''"
  shows "freed ok FM (X \<union> Y) s s''"
proof -
  have "frame {} s s''" using assms frame_trans unfolding freed_def by blast
  then show ?thesis using assms by (auto simp: freed_def)
qed

lemma freed_refl: "volume_ok ok FM s \<Longrightarrow> calm n H s \<Longrightarrow> freed ok FM {} s s"
  by (auto simp: freed_def intro: frame_refl calm_cache_ok)

section \<open>Giving sectors back\<close>

context map_file
begin

lemma dealloc_sector_ok:
  assumes v: "volume_ok fm_ok FM s" and c: "calm n H s" "1 < n" "H \<inter> FM = {}" and x: "x \<in> used_sectors s" "x \<notin> FM"
  shows "\<exists>s'. dealloc_sector bw x s = Some s' \<and> used_sectors s' = used_sectors s - {x} \<and> volume_ok fm_ok FM s' \<and> frame {} s s' \<and>
    (\<forall>y. y \<notin> FM \<longrightarrow> fsv s' y = fsv s y)"
proof -
  let ?m = "fs_map s"
  have m: "fmap_ok ?m" "bit_cnt (free_map ?m) = fsz s" "fm_ok s" "FM \<subseteq> used_sectors s" using v by (auto simp: volume_ok_def map_ok_def)
  have "x \<le> bit_cnt (free_map ?m)" "{x..<x + 1} \<subseteq> used_bits (free_map ?m)" using x(1) by (auto simp: used_sectors_def used_bits_def)
  from fm.free [OF m(1) this] obtain m' where r: "free_map_release ?m x 1 = Some m'" "fmap_ok m'" "bit_cnt (free_map m') = fsz s"
    "used_bits (free_map m') = used_bits (free_map ?m) - {x..<x + 1}" using m(2) by auto
  let ?s1 = "s\<lparr>fs_map := m'\<rparr>"
  have "fm_ok ?s1" using fm_stable [OF m(3), of ?s1] by simp
  moreover have "bitmap_ok (free_map m')" using r(2) by (simp add: fmap_ok_def)
  ultimately obtain s' where s': "bw (free_map m') ?s1 = Some (s', True)" "frame {} ?s1 s'" "fs_map s' = m'" "fm_ok s'" "\<forall>y. y \<notin> FM \<longrightarrow> fsv s' y = fsv ?s1 y"
    using bw_law [of ?s1 n H "free_map m'"] c r(3) by auto
  have f: "frame {} s s'" using s'(2) by (simp add: frame_def)
  have u: "used_sectors s' = used_sectors s - {x}" using r(4) s'(3) by (auto simp: used_sectors_def)
  have "volume_ok fm_ok FM s'" using s'(3,4) r(2,3) frame_size [OF f] u m(4) x(2) by (auto simp: volume_ok_def map_ok_def)
  then show ?thesis using r(1) s'(1,5) f u by (intro exI [of _ s']) (simp add: dealloc_sector_def)
qed

lemma clean_level_ok:
  assumes "REDIRECTION_LEVEL = length p + n" "valid p" "volume_ok fm_ok FM s" "calm (n + k) H s" "1 < k" "H \<inter> FM = {}"
    "tree_inj (ent d V)" "subtree (ent d V) p \<subseteq> used_sectors s - FM" "subtree (ent d V) p \<inter> H = {}" "\<forall>y \<in> subtree (ent d V) p. fsv s y = V y"
  shows "\<exists>s'. clean_level mem bw n (node (ent d V) p) s = Some s' \<and> freed fm_ok FM (subtree (ent d V) p) s s'"
  using assms
proof (induction n arbitrary: p s H)
  case 0
  let ?E = "ent d V"
  have p: "p \<noteq> []" using 0(2) by (simp add: valid_def)
  show ?case
  proof (cases "node ?E p = NO_SECTOR")
    case True
    then show ?thesis using freed_refl [OF 0(3,4)] subtree_empty [OF True p] by simp
  next
    case False
    have st: "subtree ?E p = {node ?E p}" using subtree_leaf [OF 0(2) False] 0(1) by simp
    have c: "calm k H s" using 0(4) by simp
    obtain s' where "dealloc_sector bw (node ?E p) s = Some s'" "freed fm_ok FM {node ?E p} s s'"
      using dealloc_sector_ok [OF 0(3) c 0(5,6), of "node ?E p"] 0(8) st by (auto simp: freed_def)
    then show ?thesis using False st by auto
  qed
next
  case (Suc n)
  let ?E = "ent d V" let ?x = "node (ent d V) p"
  have p: "p \<noteq> []" "length p < REDIRECTION_LEVEL" using Suc(2,3) by (auto simp: valid_def)
  show ?case
  proof (cases "?x = NO_SECTOR")
    case True
    then show ?thesis using freed_refl [OF Suc(4,5)] subtree_empty [OF True p(1)] by simp
  next
    case False
    note st = subtree_step [OF Suc(3) False p(2)]
    have x: "?x \<in> used_sectors s" "?x \<notin> FM" "?x \<notin> H" "fsv s ?x = V ?x" using Suc(9,10,11) st by auto
    have xz: "?x < fsz s" using x(1) Suc(4) used_below by (auto simp: volume_ok_def)
    obtain s1 e where t: "get_sector_handle mem ?x True s = Some (s1, Some e)" "held ?x True s s1 e" "calm (n + k) (insert ?x H) s1" "fsv s1 = fsv s"
      using take_held [OF Suc(5) _ xz, of True mem] x(3) by auto
    have us1: "used_sectors s1 = used_sectors s" using used_cong [OF held_fields(1) [OF t(2)]] .
    have v1: "volume_ok fm_ok FM s1" using vol_ok_step [OF Suc(4) held_fields(2,5,1) [OF t(2)]] t(4) by simp
    let ?U = "\<lambda>i. \<Union>j < i. subtree ?E (j # p)"
    have step: "\<exists>s3. clean_level mem bw n (word_at (sector_data e s2) i) s2 = Some s3 \<and> freed fm_ok FM (?U (Suc i)) s1 s3"
      if i: "i < 128" and I: "freed fm_ok FM (?U i) s1 s2" for i s2
    proof -
      have f2: "used_sectors s2 = used_sectors s1 - ?U i" "volume_ok fm_ok FM s2" "frame {} s1 s2" "\<forall>y. y \<notin> FM \<longrightarrow> fsv s2 y = fsv s1 y"
        using I by (simp_all add: freed_def)
      have "word_at (sector_data e s2) i = word_at (fsv s2 ?x) i" using held_data [OF t(2) f2(3)] i by (intro word_at_cong) simp_all
      also have "\<dots> = node ?E (i # p)" using f2(4) t(4) x(2,4) False p(1) by simp
      finally have w: "word_at (sector_data e s2) i = node ?E (i # p)" .
      have v: "valid (i # p)" using Suc(3) p i by (simp add: valid_def)
      have sub: "subtree ?E (i # p) \<subseteq> subtree ?E p" using st i by auto
      have "subtree ?E (i # p) \<inter> subtree ?E (j # p) = {}" if "j < i" for j using subtree_disjoint [OF Suc(8), of i j p] that by simp
      then have "subtree ?E (i # p) \<inter> ?U i = {}" by blast
      then have s2: "subtree ?E (i # p) \<subseteq> used_sectors s2 - FM" using f2(1) us1 Suc(9) sub by auto
      have hx: "subtree ?E (i # p) \<inter> insert ?x H = {}" using Suc(10) sub subtree_above [OF Suc(8,3) False, of i] by auto
      have "y \<notin> FM \<and> fsv s y = V y" if "y \<in> subtree ?E (i # p)" for y using that sub Suc(9,11) by blast
      then have "\<forall>y \<in> subtree ?E (i # p). fsv s2 y = V y" using f2(4) t(4) by simp
      then obtain s3 where s3: "clean_level mem bw n (node ?E (i # p)) s2 = Some s3" "freed fm_ok FM (subtree ?E (i # p)) s2 s3"
        using Suc(1) [OF _ v f2(2) calm_frame [OF t(3) f2(3)] Suc(6) _ Suc(8) s2 hx] Suc(2,7) x(2) by auto
      have "?U (Suc i) = ?U i \<union> subtree ?E (i # p)" by (auto simp: lessThan_Suc)
      then show ?thesis using w s3 freed_trans [OF I s3(2)] by simp
    qed
    have "freed fm_ok FM (?U 0) s1 s1" using freed_refl [OF v1 t(3)] by simp
    from for_each_upt [of "\<lambda>i. freed fm_ok FM (?U i) s1" s1 128 "\<lambda>i s. clean_level mem bw n (word_at (sector_data e s) i) s"] this step obtain s2 where
      s2: "for_each (\<lambda>i s. clean_level mem bw n (word_at (sector_data e s) i) s) [0..<128] s1 = Some s2" "freed fm_ok FM (?U 128) s1 s2" by blast
    have f2: "frame {} s1 s2" "volume_ok fm_ok FM s2" "used_sectors s2 = used_sectors s1 - ?U 128" "\<forall>y. y \<notin> FM \<longrightarrow> fsv s2 y = fsv s1 y" using s2(2) by (simp_all add: freed_def)
    obtain s3 where r: "release_sector_handle ?x (Some e) False True s2 = Some s3" "frame {} s s3" "fsv s3 = fsv s2" "fs_map s3 = fs_map s2"
      using held_release [OF t(2) frame_mono [OF f2(1)], of False] f2(1) by auto
    have us3: "used_sectors s3 = used_sectors s - ?U 128" using used_cong [OF r(4)] f2(3) us1 by simp
    have i3: "inodes s3 = inodes s2" "fsz s3 = fsz s2"
      using frame_inodes [OF r(2)] frame_inodes [OF f2(1)] held_fields(2,5) [OF t(2)] frame_size [OF r(2)] frame_size [OF f2(1)] by simp_all
    have v3: "volume_ok fm_ok FM s3" using vol_ok_step [OF f2(2) i3 r(4)] r(3) by simp
    have c3: "calm (Suc n + k) H s3" "1 < Suc n + k" using calm_frame [OF Suc(5) r(2)] Suc(6) by simp_all
    have "?x \<notin> ?U 128" using subtree_above [OF Suc(8,3) False] by auto
    then have x3: "?x \<in> used_sectors s3" using x(1) us3 by simp
    obtain s' where s': "dealloc_sector bw ?x s3 = Some s'" "freed fm_ok FM {?x} s3 s'"
      using dealloc_sector_ok [OF v3 c3 Suc(7) x3 x(2)] by (auto simp: freed_def)
    have "freed fm_ok FM (?U 128) s s3" unfolding freed_def using us3 v3 r(2,3) f2(4) t(4) by simp
    from freed_trans [OF this s'(2)] have "freed fm_ok FM (subtree ?E p) s s'" using st by simp
    then show ?thesis using False t(1) s2(1) r(1) s'(1) by (simp add: freed_def)
  qed
qed

text \<open>The whole tree of a file whose inode is held.\<close>

lemma inode_dir_cleanup_ok:
  assumes h: "held m True s s1 e" "fsv s1 = fsv s" "calm (2 + k) H s1" "1 < k" "H \<inter> FM = {}" and v: "volume_ok fm_ok FM s1"
    and E: "E = ent (fsv s m) (fsv s)" "tree_inj E" "nodes E \<subseteq> used_sectors s1 - FM" "nodes E \<inter> H = {}" and m: "m \<in> H"
  shows "\<exists>s2. inode_dir_cleanup mem bw (Slot e) s1 = Some s2 \<and> frame {e} s1 s2 \<and> volume_ok fm_ok FM s2 \<and> used_sectors s2 = used_sectors s1 - nodes E \<and>
    (\<forall>y. y \<notin> FM \<longrightarrow> y \<noteq> m \<longrightarrow> fsv s2 y = fsv s1 y)"
proof -
  let ?U = "\<lambda>i. \<Union>j < i. subtree E [j]"
  define I where "I = (\<lambda>i s2. frame {e} s1 s2 \<and> volume_ok fm_ok FM s2 \<and> used_sectors s2 = used_sectors s1 - ?U i \<and>
    (\<forall>y. y \<notin> FM \<longrightarrow> y \<noteq> m \<longrightarrow> fsv s2 y = fsv s1 y) \<and> (\<forall>j. i \<le> j \<longrightarrow> j < ON_INODE_DIR_SIZE \<longrightarrow> dir_at (fsv s2 m) j = dir_at (fsv s m) j))"
  define f where "f = (\<lambda>i s. do {
      s \<leftarrow> clean_level mem bw 2 (dir_at (sector_data e s) i) s;
      Some (set_data e (put_dir (sector_data e s) i NO_SECTOR) s) })"
  have mn: "m \<notin> FM" "m \<notin> nodes E" using m h(5) E(4) by auto
  have step: "\<exists>s4. f i s2 = Some s4 \<and> I (Suc i) s4" if i: "i < ON_INODE_DIR_SIZE" and I: "I i s2" for i s2
  proof -
    have f2: "frame {e} s1 s2" "volume_ok fm_ok FM s2" "used_sectors s2 = used_sectors s1 - ?U i" "\<And>y. y \<notin> FM \<Longrightarrow> y \<noteq> m \<Longrightarrow> fsv s2 y = fsv s1 y"
      "\<And>j. i \<le> j \<Longrightarrow> j < ON_INODE_DIR_SIZE \<Longrightarrow> dir_at (fsv s2 m) j = dir_at (fsv s m) j" using I by (simp_all add: I_def)
    have "dir_at (sector_data e s2) i = dir_at (fsv s2 m) i" using held_data [OF h(1) f2(1)] i by (intro dir_at_cong) simp_all
    then have w: "dir_at (sector_data e s2) i = node E [i]" using f2(5) i by (simp add: E(1))
    have lv: "REDIRECTION_LEVEL = length [i] + 2" "valid [i]" using i by (simp_all add: valid_def REDIRECTION_LEVEL_def ON_INODE_DIR_SIZE_def)
    have sub: "subtree E [i] \<subseteq> nodes E" by (rule subtree_nodes)
    have "subtree E [i] \<inter> subtree E [j] = {}" if "j < i" for j using subtree_disjoint [OF E(2), of i j "[]"] that by simp
    then have s2: "subtree E [i] \<subseteq> used_sectors s2 - FM" using f2(3) E(3) sub by auto
    have H: "subtree E [i] \<inter> H = {}" using E(4) sub by blast
    have "\<forall>y \<in> subtree E [i]. fsv s2 y = fsv s y" using f2(4) h(2) E(3) sub mn(2) by auto
    then obtain s3 where s3: "clean_level mem bw 2 (node E [i]) s2 = Some s3" "freed fm_ok FM (subtree E [i]) s2 s3"
      using clean_level_ok [OF lv f2(2) calm_frame [OF h(3) f2(1)] h(4,5), where mem = mem and d = "fsv s m" and V = "fsv s"] E(1,2) s2 H by auto
    have f3: "frame {} s2 s3" "volume_ok fm_ok FM s3" "used_sectors s3 = used_sectors s2 - subtree E [i]" "\<And>y. y \<notin> FM \<Longrightarrow> fsv s3 y = fsv s2 y"
      using s3(2) by (simp_all add: freed_def)
    have f13: "frame {e} s1 s3" using frame_trans [OF f2(1) frame_mono [OF f3(1)]] by simp
    let ?d = "put_dir (sector_data e s3) i NO_SECTOR" let ?s4 = "set_data e (put_dir (sector_data e s3) i NO_SECTOR) s3"
    note hs = held_set [OF h(1) f13, of ?d]
    have z: "inodes ?s4 = inodes s3" "fsz ?s4 = fsz s3"
      using frame_inodes [OF hs(1)] frame_inodes [OF f13] frame_size [OF hs(1)] frame_size [OF f13] by simp_all
    have v4: "volume_ok fm_ok FM ?s4" using vol_ok_step [OF f3(2) z hs(3)] hs(2) mn(1) by auto
    have u4: "used_sectors ?s4 = used_sectors s1 - ?U (Suc i)" using used_cong [OF hs(3)] f3(3) f2(3) by (auto simp: lessThan_Suc)
    have d4: "dir_at (fsv ?s4 m) j = dir_at (fsv s m) j" if j: "Suc i \<le> j" "j < ON_INODE_DIR_SIZE" for j
    proof -
      have "dir_at (fsv ?s4 m) j = dir_at ?d j" using hs(2) j(2) by (simp add: dir_at_def ON_INODE_DIR_SIZE_def)
      also have "\<dots> = dir_at (sector_data e s3) j" using j(1) by (simp add: dir_at_put_dir NO_SECTOR_def)
      also have "\<dots> = dir_at (fsv s3 m) j" using held_data [OF h(1) f13] j(2) by (intro dir_at_cong) simp_all
      finally show ?thesis using f3(4) mn(1) f2(5) j by simp
    qed
    have "I (Suc i) ?s4" unfolding I_def using hs(1,2) v4 u4 d4 f2(4) f3(4) by auto
    then show ?thesis using w s3(1) by (simp add: f_def)
  qed
  have "I 0 s1" unfolding I_def using held_start [OF h(1)] v h(2) by simp
  from for_each_upt [of I s1 ON_INODE_DIR_SIZE f] this step obtain s2 where s2: "for_each f [0..<ON_INODE_DIR_SIZE] s1 = Some s2" "I ON_INODE_DIR_SIZE s2" by blast
  have "REDIRECTION_LEVEL - 1 = 2" by (simp add: REDIRECTION_LEVEL_def)
  then have "inode_dir_cleanup mem bw (Slot e) s1 = Some s2" using s2(1) by (simp add: inode_dir_cleanup_def f_def)
  then show ?thesis using s2(2) subtree_all [of E] by (intro exI [of _ s2]) (auto simp: I_def)
qed

text \<open>Taking one sector back releases its parent under the wrong number, which fails an assertion of the cache.\<close>

lemma deallocate_panics:
  assumes v: "volume_ok fm_ok FM s" and c: "calm n H s" "1 < n" "H \<inter> FM = {}"
    and d: "\<And>k. k < 512 \<Longrightarrow> disk_data p s k = d k" and E: "E = ent d (fsv s)" "tree_inj E" "nodes E \<subseteq> used_sectors s - FM" "nodes E \<inter> H = {}"
    and i: "idx < MAX_INDEX" "node E (path idx) \<noteq> NO_SECTOR"
  shows "deallocate_inode_sector mem bw p idx s = None"
proof -
  let ?x = "node E (path idx)" let ?y = "node E (tl (path idx))"
  have vp: "valid (path idx)" using valid_path [OF i(1)] .
  obtain j q where q: "path idx = j # q" "q \<noteq> []" unfolding path_def by blast
  have y: "?y \<noteq> NO_SECTOR" "valid q" using i(2) valid_Cons [of j q] vp q by (auto split: if_splits)
  have xy: "?x \<in> nodes E" "?y \<in> nodes E" using node_in_nodes [OF vp i(2)] node_in_nodes [OF y(2), of E] y(1) q(1) by simp_all
  have tq: "tl (path idx) = q" "path idx \<noteq> q" using q(1) by simp_all
  have ne: "?x \<noteq> ?y" using E(2) vp y(2) i(2) tq(2) unfolding tree_inj_def tq(1) by blast
  have z: "nodes E \<subseteq> {..<fsz s}" using E(3) used_below v by (auto simp: volume_ok_def)
  obtain s1 pos where g: "get_inode_sector mem p idx s = Some (s1, ?x, ?y, pos)" "frame {} s s1" "fsv s1 = fsv s" "fs_map s1 = fs_map s"
    using get_inode_sector_ok [OF c(1) _ z [unfolded E(1)] d, of mem idx] c(2) i unfolding E(1) by auto
  have v1: "volume_ok fm_ok FM s1" using vol_ok_step [OF v frame_inodes [OF g(2)] frame_size [OF g(2)] g(4)] g(3) by simp
  have x: "?x \<in> used_sectors s1" "?x \<notin> FM" using xy(1) E(3) used_cong [OF g(4)] by auto
  obtain s2 where s2: "dealloc_sector bw ?x s1 = Some s2" "frame {} s1 s2"
    using dealloc_sector_ok [OF v1 calm_frame [OF c(1) g(2)] c(2,3) x] by blast
  have c2: "calm n H s2" using calm_frame [OF calm_frame [OF c(1) g(2)] s2(2)] .
  have yz: "?y < fsz s2" "?y \<notin> H \<or> \<not> True" using xy(2) z E(4) frame_size [OF g(2)] frame_size [OF s2(2)] by auto
  obtain s3 e where t: "get_sector_handle mem ?y True s2 = Some (s3, Some e)" "held ?y True s2 s3 e" using take_held [OF c2 _ yz, of mem] c(2) by auto
  note hs = held_slot [OF t(2) held_set(1) [OF t(2) held_start [OF t(2)], of "put_word (sector_data e s3) pos NO_SECTOR"]]
  have "release_sector_handle ?x (Some e) True True (set_data e (put_word (sector_data e s3) pos NO_SECTOR) s3) = None"
    using hs(2) ne i(2) by (simp add: release_sector_handle_def release_sector_def slot_index_def)
  then show ?thesis using g(1) s2(1) t(1) i(2) y(1) by (simp add: deallocate_inode_sector_def)
qed

end

section \<open>Closing a removed file\<close>

lemma state_updates [simp]:
  "fsv (s\<lparr>open_inodes := x\<rparr>) = fsv s" "fsz (s\<lparr>open_inodes := x\<rparr>) = fsz s" "used_sectors (s\<lparr>open_inodes := x\<rparr>) = used_sectors s"
  "calm n H (s\<lparr>open_inodes := x\<rparr>) = calm n H s"
  by (simp_all add: fsv_def fsz_def used_sectors_def calm_def)

lemma file_close_volume:
  assumes v: "volume fa A s" "a \<in> A" "open_cnt (inodes s a) = 1" "removed (inodes s a)"
  shows "\<exists>s'. inode_close mem (bitmap_write mem fa) (Some a) s = Some s' \<and> volume fa (A - {a}) s' \<and>
    free_sectors s' = free_sectors s \<union> file_sectors a s \<and> (\<forall>b \<in> A. b \<noteq> a \<longrightarrow> contents b s' = contents b s) \<and>
    open_inodes s' = remove1 a (open_inodes s) \<and> (\<forall>b. b \<noteq> a \<longrightarrow> inodes s' b = inodes s b)"
proof -
  let ?FM = "file_sectors fa s" let ?bw = "bitmap_write mem fa" let ?m = "main_of a s" let ?E = "file_ent a s"
  note vd = volumeD [OF v(1)]
  define s0 where "s0 = s\<lparr>inodes := (inodes s)(a := (inodes s a)\<lparr>open_cnt := 0\<rparr>), open_inodes := remove1 a (open_inodes s)\<rparr>"
  have s0: "fsv s0 = fsv s" "fsz s0 = fsz s" "used_sectors s0 = used_sectors s" "calm 8 {} s0" "main_of a s0 = ?m" "fs_map s0 = fs_map s"
    using vd(1) by (simp_all add: s0_def main_of_def)
  have v0: "volume_ok (fm_ok fa ?FM) ?FM s0"
  proof -
    have "volume_ok (fm_ok fa ?FM) ?FM (s\<lparr>inodes := (inodes s)(a := (inodes s a)\<lparr>open_cnt := 0\<rparr>)\<rparr>)" (is "volume_ok _ _ ?t")
      by (rule fmf.vol_ok_other_inode [OF vd(2) vd(5) [OF v(2)]])
    then show ?thesis by (rule fmf.vol_ok_step) (simp_all add: s0_def)
  qed
  have inv: "file_ok a (inode_length a s) s" and fs: "file_sectors a s \<subseteq> used_sectors s - ?FM" using file_inv_parts [OF vd(4) [OF v(2)]] by blast+
  have ok: "?m < fsz s" "tree_inj ?E" "?m \<notin> nodes ?E" using inv by (simp_all add: file_ok_def)
  have mu: "?m \<in> used_sectors s" "?m \<notin> ?FM" and ne: "nodes ?E \<subseteq> used_sectors s - ?FM" using fs by (auto simp: file_sectors_def)
  obtain s1 e where t: "get_sector_handle mem ?m True s0 = Some (s1, Some e)" "held ?m True s0 s1 e" "calm 7 {?m} s1" "fsv s1 = fsv s0"
    using take_held [OF s0(4), of ?m True mem] ok(1) s0(2) by auto
  have u1: "used_sectors s1 = used_sectors s" using used_cong [OF held_fields(1) [OF t(2)]] s0(3) by simp
  have v1: "volume_ok (fm_ok fa ?FM) ?FM s1" using fmf.vol_ok_step [OF v0 held_fields(2,5,1) [OF t(2)]] t(4) by simp
  have E: "?E = ent (fsv s0 ?m) (fsv s0)" by (simp add: file_ent_def s0(1))
  have c1: "calm (2 + 5) {?m} s1" using t(3) by simp
  obtain s2 where c: "inode_dir_cleanup mem ?bw (Slot e) s1 = Some s2" "frame {e} s1 s2" "volume_ok (fm_ok fa ?FM) ?FM s2"
    "used_sectors s2 = used_sectors s1 - nodes ?E" "\<forall>y. y \<notin> ?FM \<longrightarrow> y \<noteq> ?m \<longrightarrow> fsv s2 y = fsv s1 y"
    using fmf.inode_dir_cleanup_ok [OF t(2,4) c1 _ _ v1 E ok(2), of mem mem] mu(2) ne u1 ok(3) by auto
  obtain s3 where r: "release_sector_handle ?m (Some e) True True s2 = Some s3" "frame {} s0 s3" "fsv s3 = fsv s2" "fs_map s3 = fs_map s2"
    using held_release [OF t(2) c(2), of True] by auto
  have z3: "inodes s3 = inodes s2" "fsz s3 = fsz s2" "used_sectors s3 = used_sectors s2"
    using frame_inodes [OF r(2)] frame_inodes [OF c(2)] held_fields(2,5) [OF t(2)] frame_size [OF r(2)] frame_size [OF c(2)] used_cong [OF r(4)] by simp_all
  have v3: "volume_ok (fm_ok fa ?FM) ?FM s3" using fmf.vol_ok_step [OF c(3) z3(1,2) r(4)] r(3) by simp
  have c3: "calm 8 {} s3" using calm_frame [OF s0(4) r(2)] .
  have m3: "?m \<in> used_sectors s3" using z3(3) c(4) u1 mu(1) ok(3) by simp
  obtain s' where d: "dealloc_sector ?bw ?m s3 = Some s'" "used_sectors s' = used_sectors s3 - {?m}" "volume_ok (fm_ok fa ?FM) ?FM s'"
    "frame {} s3 s'" "\<forall>y. y \<notin> ?FM \<longrightarrow> fsv s' y = fsv s3 y"
    using fmf.dealloc_sector_ok [OF v3 c3 _ _ m3 mu(2), of mem] by auto
  have run: "inode_close mem ?bw (Some a) s = Some s'"
    using v(3,4) t(1) c(1) r(1) d(1) by (simp add: inode_close_def Let_def s0_def main_of_def)
  have ih: "inodes s' = inodes s0" "fsz s' = fsz s" "open_inodes s' = open_inodes s0" "calm 8 {} s'"
    using d(4) r(2) frame_size [OF d(4)] frame_size [OF r(2)] s0(2) calm_frame [OF c3 d(4)] by (simp_all add: frame_def)
  have us': "used_sectors s' = used_sectors s - file_sectors a s" using d(2) z3(3) c(4) u1 by (auto simp: file_sectors_def)
  have FM: "file_sectors fa s' = ?FM" using d(3) unfolding volume_ok_def fm_ok_def by blast
  have oth: "file_inv ?FM b s' \<and> contents b s' = contents b s \<and> file_sectors b s' = file_sectors b s" if b: "b \<in> A" "b \<noteq> a" for b
  proof -
    have sub: "file_sectors b s \<subseteq> used_sectors s - ?FM" using file_inv_parts(2) [OF vd(4) [OF b(1)]] .
    have dj: "file_sectors a s \<inter> file_sectors b s = {}" using vd(6) [OF v(2) b(1)] b(2) by simp
    have "x \<noteq> ?m \<and> x \<notin> ?FM" if "x \<in> file_sectors b s" for x using that sub dj by (auto simp: file_sectors_def)
    then have x: "\<forall>x \<in> file_sectors b s. fsv s' x = fsv s x" using d(5) r(3) c(5) t(4) s0(1) by simp
    have i: "inodes s' b = inodes s b" using ih(1) b(2) by (simp add: s0_def)
    have "file_sectors b s \<subseteq> used_sectors s'" using sub dj us' by blast
    then show ?thesis using file_inv_local [OF x i ih(2) vd(1) ih(4) vd(4) [OF b(1)]] file_local(2) [OF x i ih(2) vd(1) ih(4)] by blast
  qed
  have "volume fa (A - {a}) s'" unfolding volume_def FM using ih(4) d(3) vd(3,6) oth by auto
  moreover have "free_sectors s' = free_sectors s \<union> file_sectors a s" using us' ih(2) fs used_below [of s] vd(2) by (auto simp: free_sectors_def volume_ok_def)
  ultimately show ?thesis using run oth ih(1,3) by (intro exI [of _ s']) (simp add: s0_def)
qed

text \<open>The counters and flags of an inode do not matter to its file.\<close>

lemma volume_flags:
  assumes v: "volume fa A s" and s': "s' = s\<lparr>inodes := g, open_inodes := l\<rparr>"
    and g: "\<forall>b \<in> insert fa A. isector (g b) = isector (inodes s b) \<and> ilength (g b) = ilength (inodes s b)"
      "deny_write_cnt (g fa) = deny_write_cnt (inodes s fa)"
  shows "volume fa A s'" "b \<in> A \<Longrightarrow> contents b s' = contents b s" "free_sectors s' = free_sectors s" "b \<in> A \<Longrightarrow> file_sectors b s' = file_sectors b s"
proof -
  have f: "fsv s' = fsv s" "fsz s' = fsz s" "used_sectors s' = used_sectors s" "calm n H s' = calm n H s" "fs_map s' = fs_map s" for n H by (simp_all add: s')
  have b: "main_of b s' = main_of b s" "inode_length b s' = inode_length b s" "file_ent b s' = file_ent b s" "file_byte b s' = file_byte b s"
    "file_sectors b s' = file_sectors b s" if "b \<in> insert fa A" for b
  proof -
    have "isector (g b) = isector (inodes s b)" "ilength (g b) = ilength (inodes s b)" using g(1) that by blast+
    then show m: "main_of b s' = main_of b s" "inode_length b s' = inode_length b s" by (simp_all add: s' main_of_def inode_length_def)
    then show e: "file_ent b s' = file_ent b s" by (simp add: file_ent_def f(1))
    show "file_byte b s' = file_byte b s" by (rule ext) (simp add: file_byte_def f(1) e)
    show "file_sectors b s' = file_sectors b s" by (simp add: file_sectors_def m(1) e)
  qed
  note vd = volumeD [OF v]
  have ok: "file_ok b len s' = file_ok b len s" if "b \<in> insert fa A" for b len using b [OF that] by (simp add: file_ok_def f(2))
  have inv: "file_inv FM b s' = file_inv FM b s" if "b \<in> insert fa A" for b FM using b [OF that] ok [OF that] by (simp add: file_inv_def f(3))
  have "fm_ok fa FM s' = fm_ok fa FM s" for FM using b [of fa] ok [of fa] g(2) by (simp add: fm_ok_def f(2) s')
  then have "volume_ok (fm_ok fa FM) FM s' = volume_ok (fm_ok fa FM) FM s" for FM by (simp add: volume_ok_def f(3) map_ok_def f(2,5))
  then show "volume fa A s'" using v b inv by (simp add: volume_def f(4))
  show "b \<in> A \<Longrightarrow> contents b s' = contents b s" "b \<in> A \<Longrightarrow> file_sectors b s' = file_sectors b s" using b [of b] by (simp_all add: contents_def)
  show "free_sectors s' = free_sectors s" by (simp add: free_sectors_def f)
qed

lemma volume_remove: "volume fa A s \<Longrightarrow> a \<noteq> fa \<Longrightarrow> volume fa A (inode_remove a s)"
  by (rule volume_flags(1) [where g = "(inodes s)(a := (inodes s a)\<lparr>removed := True\<rparr>)" and l = "open_inodes s"]) (simp_all add: inode_remove_def)

text \<open>
  C5: deleting a file. \<^verbatim>\<open>inode_close\<close> by the last opener of an inode that \<^verbatim>\<open>inode_remove\<close> has marked gives back exactly the sectors of
  its file: the inode, the index sectors and the data sectors become free, no other sector does, and all other files keep their contents.
\<close>

theorem inode_close_frees:
  assumes "volume fa A s" "a \<in> A" "open_cnt (inodes s a) = 1"
  shows "\<exists>s'. inode_close mem (bitmap_write mem fa) (Some a) (inode_remove a s) = Some s' \<and> volume fa (A - {a}) s' \<and>
    free_sectors s' = free_sectors s \<union> file_sectors a s \<and> (\<forall>b \<in> A. b \<noteq> a \<longrightarrow> contents b s' = contents b s) \<and>
    open_inodes s' = remove1 a (open_inodes s)"
proof -
  let ?s = "inode_remove a s"
  have f: "a \<noteq> fa" using volumeD(5) [OF assms(1,2)] .
  note vf = volume_flags [where s' = ?s and g = "(inodes s)(a := (inodes s a)\<lparr>removed := True\<rparr>)" and l = "open_inodes s", OF assms(1)]
  have v: "volume fa A ?s" by (rule volume_remove [OF assms(1) f])
  have "open_cnt (inodes ?s a) = 1" "removed (inodes ?s a)" "open_inodes ?s = open_inodes s" using assms(3) by (simp_all add: inode_remove_def)
  moreover have "free_sectors ?s = free_sectors s" "\<And>b. b \<in> A \<Longrightarrow> contents b ?s = contents b s" "file_sectors a ?s = file_sectors a s"
    using vf(2-4) f assms(2) by (simp_all add: inode_remove_def)
  ultimately show ?thesis using file_close_volume [OF v assms(2), of mem] by auto
qed

theorem inode_close_frees_witness:
  "\<exists>s s1 s2. volume 0 {1, 5} s \<and> inode_write_at (\<lambda>_. True) (bitmap_write (\<lambda>_. True) 0) 1 (\<lambda>k. of_nat k) 700 0 s = Some (s1, 700) \<and>
    inode_close (\<lambda>_. True) (bitmap_write (\<lambda>_. True) 0) (Some 1) (inode_remove 1 s1) = Some s2 \<and> volume 0 {5} s2 \<and> file_sectors 1 s1 \<subseteq> free_sectors s2"
proof -
  from small_exists obtain c where c: "small c" by blast
  let ?s = "small_volume c"
  note v = small_volume_ok [OF c]
  have b: "3 * (bytes_to_sectors (0 + 700) - bytes_to_sectors (inode_length 1 ?s)) \<le> card (free_sectors ?s)"
    by (simp add: v(3) small_simps bytes_to_sectors_def to_size_def off_div_def wrap_off_def)
  have m: "0 + 700 \<le> 512 * int MAX_INDEX" by (simp add: MAX_INDEX_def)
  have o: "open_cnt (inodes ?s 1) = 1" by (simp add: small_volume_def)
  obtain s1 where s1: "inode_write_at (\<lambda>_. True) (bitmap_write (\<lambda>_. True) 0) 1 (\<lambda>k. of_nat k) 700 0 ?s = Some (s1, 700)" "volume 0 {1, 5} s1"
    "inodes s1 1 = (inodes ?s 1)\<lparr>ilength := inode_length 1 s1\<rparr>"
    using write_volume [OF v(1) _ small_simps(4) _ _ m b, of "\<lambda>_. True" "\<lambda>k. of_nat k"] by auto
  obtain s2 where "inode_close (\<lambda>_. True) (bitmap_write (\<lambda>_. True) 0) (Some 1) (inode_remove 1 s1) = Some s2" "volume 0 ({1, 5} - {1}) s2"
    "free_sectors s2 = free_sectors s1 \<union> file_sectors 1 s1" using inode_close_frees [OF s1(2), of 1 "\<lambda>_. True"] s1(3) o by auto
  then show ?thesis using v(1) s1(1) by (intro exI [of _ ?s] exI [of _ s1] exI [of _ s2]) simp
qed

end
