(* ===== verification/DirSpec.thy ===== *)
theory DirSpec
  imports Directory InodeFree
begin

text \<open>
  Directories as maps from names to sectors: \<^verbatim>\<open>lookup\<close>, \<^verbatim>\<open>dir_add\<close>, \<^verbatim>\<open>dir_remove\<close> and \<^verbatim>\<open>dir_readdir\<close> of \<^verbatim>\<open>directory.c\<close> on the
  contents of the file that holds the entries.
\<close>

section \<open>The entries of a directory\<close>

definition slots :: "u8 list \<Rightarrow> u8 list list" where
  "slots c = map (\<lambda>i. take ENTRY_SIZE (drop (ENTRY_SIZE * i) c)) [0..<length c div ENTRY_SIZE]"

definition ename :: "u8 list \<Rightarrow> u8 list" where
  "ename e = takeWhile (\<lambda>b. b \<noteq> 0) (entry_name e)"

definition names :: "u8 list \<Rightarrow> u8 list \<Rightarrow> bool" where
  "names name e \<longleftrightarrow> entry_in_use e \<and> ename e = name"

definition dir_map :: "u8 list \<Rightarrow> u8 list \<Rightarrow> nat option" where
  "dir_map c name = map_option entry_sector (find (names name) (slots c))"

text \<open>Whole entries only, the names in use end within their entries, and no two of them are equal.\<close>

definition dir_ok :: "u8 list \<Rightarrow> bool" where
  "dir_ok c \<longleftrightarrow> length c mod ENTRY_SIZE = 0 \<and> (\<forall>e \<in> set (slots c). entry_in_use e \<longrightarrow> 0 \<in> set (entry_name e)) \<and>
     (\<forall>i < length (slots c). \<forall>j < length (slots c). names (ename (slots c ! j)) (slots c ! i) \<longrightarrow> entry_in_use (slots c ! j) \<longrightarrow> i = j)"

lemma length_slots [simp]: "length (slots c) = length c div ENTRY_SIZE"
  by (simp add: slots_def)

lemma slot_nth: "i < length c div ENTRY_SIZE \<Longrightarrow> slots c ! i = take ENTRY_SIZE (drop (ENTRY_SIZE * i) c)"
  by (simp add: slots_def)

lemma slot_length: "i < length c div ENTRY_SIZE \<Longrightarrow> length (slots c ! i) = ENTRY_SIZE"
proof -
  assume "i < length c div ENTRY_SIZE"
  then have "ENTRY_SIZE * Suc i \<le> ENTRY_SIZE * (length c div ENTRY_SIZE)" by (simp only: mult_le_mono2 Suc_leI)
  also have "\<dots> \<le> length c" by simp
  finally have "ENTRY_SIZE * i + ENTRY_SIZE \<le> length c" by simp
  then show ?thesis using \<open>i < _\<close> by (simp add: slot_nth)
qed

lemma slot_end: "length c mod ENTRY_SIZE = 0 \<Longrightarrow> drop (ENTRY_SIZE * (length c div ENTRY_SIZE)) c = []"
  by (metis drop_all mult_div_mod_eq add.right_neutral order_refl)

lemma str_equal_name: "0 \<in> set bs \<Longrightarrow> 0 \<notin> set cs \<Longrightarrow> str_equal cs bs = Some (takeWhile (\<lambda>b. b \<noteq> 0) bs = cs)"
  by (induction cs bs rule: str_equal.induct) auto

text \<open>Reading the entry at a position.\<close>

text \<open>Nothing changed but what the cache holds.\<close>

definition quiet :: "nat \<Rightarrow> nat set \<Rightarrow> fs \<Rightarrow> fs \<Rightarrow> bool" where
  "quiet fa A s s' \<longleftrightarrow> volume fa A s' \<and> (\<forall>b \<in> A. contents b s' = contents b s) \<and> open_inodes s' = open_inodes s \<and> inodes s' = inodes s \<and>
     free_sectors s' = free_sectors s \<and> frame {} s s' \<and> fsv s' = fsv s \<and> fs_map s' = fs_map s"

lemma quiet_trans: "quiet fa A s s' \<Longrightarrow> quiet fa A s' s'' \<Longrightarrow> quiet fa A s s''"
  using frame_trans [of "{}" s s' s''] by (simp add: quiet_def)

lemma quiet_refl: "volume fa A s \<Longrightarrow> quiet fa A s s"
  using frame_refl [OF calm_cache_ok [OF volumeD(1)]] by (simp add: quiet_def)

lemma quiet_sectors:
  assumes "quiet fa A s s'"
  shows "file_sectors b s' = file_sectors b s" "used_sectors s' = used_sectors s" "fsv s' = fsv s"
  using assms by (simp_all add: quiet_def file_sectors_def main_of_def file_ent_def used_sectors_def)

lemma read_slot:
  assumes "volume fa A s" "a \<in> A" "length (contents a s) mod ENTRY_SIZE = 0" "i \<le> length (slots (contents a s))"
  shows "\<exists>s'. inode_read_at mem a 32 (32 * int i) s = Some (s', if i < length (slots (contents a s)) then slots (contents a s) ! i else []) \<and> quiet fa A s s'"
proof -
  let ?c = "contents a s"
  obtain s' where r: "inode_read_at mem a 32 (32 * int i) s = Some (s', take (nat 32) (drop (nat (32 * int i)) ?c))" "quiet fa A s s'"
    using read_volume [OF assms(1,2), of "32 * int i" 32 mem] by (auto simp: quiet_def)
  have "nat (32 * int i) = ENTRY_SIZE * i" "nat 32 = ENTRY_SIZE" by (simp_all add: ENTRY_SIZE_def nat_mult_distrib)
  then have "take (nat 32) (drop (nat (32 * int i)) ?c) = (if i < length (slots ?c) then slots ?c ! i else [])"
    using assms(4) slot_nth [of i ?c] slot_end [OF assms(3)] by (cases "i < length (slots ?c)") auto
  then show ?thesis using r by auto
qed

section \<open>Searching\<close>

lemma lookup_loop_ok:
  assumes "volume fa A s" "a \<in> A" "dir_ok (contents a s)" "0 \<notin> set name" "i \<le> length (slots (contents a s))"
  shows "\<exists>s'. lookup_loop mem a name (32 * int i) s = Some (s', map_option (\<lambda>j. (slots (contents a s) ! j, 32 * int j))
      (find (\<lambda>j. names name (slots (contents a s) ! j)) [i..<length (slots (contents a s))])) \<and> quiet fa A s s'"
  using assms
proof (induction "length (slots (contents a s)) - i" arbitrary: i s)
  case 0
  then have i: "i = length (slots (contents a s))" by simp
  obtain s' where "inode_read_at mem a 32 (32 * int i) s = Some (s', [])" "quiet fa A s s'"
    using read_slot [OF 0(2,3) _ 0(6), of mem] 0(4) i by (auto simp: dir_ok_def)
  then show ?case unfolding lookup_loop.simps [of mem a name "32 * int i" s] i [symmetric] by (simp add: ENTRY_SIZE_def)
next
  case (Suc n)
  let ?S = "slots (contents a s)"
  have i: "i < length ?S" using Suc(2) by simp
  let ?e = "?S ! i"
  obtain s1 where r: "inode_read_at mem a 32 (32 * int i) s = Some (s1, ?e)" "quiet fa A s s1"
    using read_slot [OF Suc(3,4) _ Suc(7), of mem] Suc(5) i by (auto simp: dir_ok_def)
  have q: "volume fa A s1" "contents a s1 = contents a s" using r(2) Suc(4) by (simp_all add: quiet_def)
  have le: "length ?e = ENTRY_SIZE" using slot_length i by simp
  have up: "[i..<length ?S] = i # [Suc i..<length ?S]" using i upt_conv_Cons by blast
  have "?e \<in> set ?S" using i by simp
  then have "entry_in_use ?e \<Longrightarrow> str_equal name (entry_name ?e) = Some (ename ?e = name)"
    using Suc(5) str_equal_name [OF _ Suc(6), of "entry_name ?e"] by (simp add: dir_ok_def ename_def)
  then have t: "(if entry_in_use ?e then str_equal name (entry_name ?e) else Some False) = Some (names name ?e)" by (auto simp: names_def)
  note u = lookup_loop.simps [of mem a name "32 * int i" s]
  show ?case
  proof (cases "names name ?e")
    case True
    then show ?thesis using r(2) up t unfolding u by (simp add: r(1) le)
  next
    case False
    have "n = length (slots (contents a s1)) - Suc i" "Suc i \<le> length (slots (contents a s1))" using Suc(2) i q(2) by simp_all
    from Suc(1) [OF this(1) q(1) Suc(4) _ Suc(6) this(2)] obtain s' where
      s': "lookup_loop mem a name (32 * int (Suc i)) s1 = Some (s', map_option (\<lambda>j. (?S ! j, 32 * int j)) (find (\<lambda>j. names name (?S ! j)) [Suc i..<length ?S]))"
      "quiet fa A s1 s'" using Suc(5) q(2) by auto
    then show ?thesis using s' quiet_trans [OF r(2) s'(2)] False up t unfolding u by (simp add: r(1) le add.commute)
  qed
qed

lemma find_map: "find P (map f xs) = map_option f (find (\<lambda>x. P (f x)) xs)"
  by (induction xs) auto

lemma find_index: "map_option ((!) xs) (find (\<lambda>j. P (xs ! j)) [0..<length xs]) = find P xs"
  using find_map [of P "(!) xs" "[0..<length xs]"] by (simp add: map_nth)

lemma find_append: "find P (xs @ ys) = (case find P xs of None \<Rightarrow> find P ys | Some x \<Rightarrow> Some x)"
  by (induction xs) auto

lemma find_update: "\<not> P y \<Longrightarrow> \<not> P (xs ! j) \<Longrightarrow> find P (xs[j := y]) = find P xs"
  by (induction xs arbitrary: j) (auto split: nat.splits)

lemma find_update_new: "P y \<Longrightarrow> find P xs = None \<Longrightarrow> j < length xs \<Longrightarrow> find P (xs[j := y]) = Some y"
  by (induction xs arbitrary: j) (auto split: nat.splits if_splits)

text \<open>The index of the entry that \<^verbatim>\<open>lookup\<close> finds.\<close>

definition slot_of_name :: "u8 list \<Rightarrow> u8 list \<Rightarrow> nat option" where
  "slot_of_name c name = find (\<lambda>j. names name (slots c ! j)) [0..<length (slots c)]"

lemma dir_map_slot: "dir_map c name = map_option (\<lambda>j. entry_sector (slots c ! j)) (slot_of_name c name)"
  unfolding dir_map_def slot_of_name_def find_index [of "slots c" "names name", symmetric] by (simp add: option.map_comp comp_def)

lemma slot_of_name_Some: "slot_of_name c name = Some j \<Longrightarrow> j < length (slots c) \<and> names name (slots c ! j)"
  by (auto simp: slot_of_name_def find_Some_iff)

lemma name_lookup_ok:
  assumes "volume fa A s" "dinode d \<in> A" "\<not> dir_lock d" "dir_ok (contents (dinode d) s)" "0 \<notin> set name"
  shows "\<exists>s'. lookup mem d name s = Some (s', d, map_option (\<lambda>j. (slots (contents (dinode d) s) ! j, 32 * int j)) (slot_of_name (contents (dinode d) s) name)) \<and>
    quiet fa A s s'"
proof -
  obtain s' where "lookup_loop mem (dinode d) name 0 s = Some (s', map_option (\<lambda>j. (slots (contents (dinode d) s) ! j, 32 * int j)) (slot_of_name (contents (dinode d) s) name))"
    "quiet fa A s s'" using lookup_loop_ok [OF assms(1,2,4,5), of 0 mem] by (auto simp: slot_of_name_def)
  moreover have "d\<lparr>dir_lock := False\<rparr> = d" using assms(3) by simp
  ultimately show ?thesis using assms(3) by (simp add: lookup_def dir_lock_acquire_def dir_lock_release_def)
qed

section \<open>Adding\<close>

lemma free_slot_loop_ok:
  assumes "volume fa A s" "a \<in> A" "length (contents a s) mod ENTRY_SIZE = 0" "length e = ENTRY_SIZE" "i \<le> length (slots (contents a s))"
  shows "\<exists>s' e' j. free_slot_loop mem a e (32 * int i) s = Some (s', e', 32 * int j) \<and> quiet fa A s s' \<and> length e' = ENTRY_SIZE \<and>
    j \<le> length (slots (contents a s)) \<and> (j < length (slots (contents a s)) \<longrightarrow> \<not> entry_in_use (slots (contents a s) ! j))"
  using assms
proof (induction "length (slots (contents a s)) - i" arbitrary: i s e)
  case 0
  let ?S = "slots (contents a s)"
  have i: "\<not> i < length ?S" using 0(1) by simp
  obtain s' where "inode_read_at mem a 32 (32 * int i) s = Some (s', [])" "quiet fa A s s'"
    using read_slot [OF 0(2,3,4,6), of mem] i by auto
  moreover from this(1) have "free_slot_loop mem a e (32 * int i) s = Some (s', e, 32 * int i)"
    unfolding free_slot_loop.simps [of mem a e "32 * int i" s] by (simp add: ENTRY_SIZE_def)
  ultimately show ?case using i 0(5,6) by blast
next
  case (Suc n)
  let ?S = "slots (contents a s)"
  have i: "i < length ?S" using Suc(2) by simp
  let ?e = "?S ! i"
  obtain s1 where r: "inode_read_at mem a 32 (32 * int i) s = Some (s1, ?e)" "quiet fa A s s1"
    using read_slot [OF Suc(3,4,5,7), of mem] i by auto
  have q: "volume fa A s1" "contents a s1 = contents a s" using r(2) Suc(4) by (simp_all add: quiet_def)
  have le: "length ?e = ENTRY_SIZE" using slot_length i by simp
  note u = free_slot_loop.simps [of mem a e "32 * int i" s]
  show ?case
  proof (cases "entry_in_use ?e")
    case False
    then show ?thesis using r(2) le Suc(7) unfolding u by (intro exI [of _ s1] exI [of _ ?e] exI [of _ i]) (simp add: r(1))
  next
    case True
    have "n = length (slots (contents a s1)) - Suc i" "Suc i \<le> length (slots (contents a s1))" using Suc(2) i q(2) by simp_all
    from Suc(1) [OF this(1) q(1) Suc(4) _ le this(2)] obtain s' e' j where
      s': "free_slot_loop mem a ?e (32 * int (Suc i)) s1 = Some (s', e', 32 * int j)" "quiet fa A s1 s'" "length e' = ENTRY_SIZE"
      "j \<le> length ?S" "j < length ?S \<longrightarrow> \<not> entry_in_use (?S ! j)" using Suc(5) q(2) by auto
    then show ?thesis using s' quiet_trans [OF r(2) s'(2)] True unfolding u
      by (intro exI [of _ s'] exI [of _ e'] exI [of _ j]) (simp add: r(1) le add.commute)
  qed
qed

text \<open>What an entry holds after it was filled.\<close>

lemma fill_entry_ok:
  assumes "length e = ENTRY_SIZE" "length name \<le> NAME_MAX" "0 \<notin> set name" "sector < 2 ^ 32"
  shows "length (fill_entry e name sector) = ENTRY_SIZE" "entry_sector (fill_entry e name sector) = sector"
    "ename (fill_entry e name sector) = name" "entry_in_use (fill_entry e name sector)" "0 \<in> set (entry_name (fill_entry e name sector))"
proof -
  let ?w = "of_nat sector :: u32" let ?f = "fill_entry e name sector"
  have n: "take NAME_MAX name = name" using assms(2) by simp
  have f: "?f = [ucast ?w, ucast (drop_bit 8 ?w), ucast (drop_bit 16 ?w), ucast (drop_bit 24 ?w)] @ name @ [0] @ drop (5 + length name) (e[30 := 1])"
    by (simp add: fill_entry_def n Let_def)
  show "length ?f = ENTRY_SIZE" using assms(1,2) by (simp add: f ENTRY_SIZE_def NAME_MAX_def)
  have "read32 (\<lambda>k. ?f ! k) 0 = read32 (write32 (\<lambda>_. 0) 0 ?w) 0" by (intro read32_cong) (auto simp: f write32_def nth_Cons split: nat.splits)
  then show "entry_sector ?f = sector" using assms(4) by (simp add: entry_sector_def read32_write32_same unat_of_nat take_bit_nat_eq_self)
  have nm: "entry_name ?f = take (NAME_MAX + 1) (name @ 0 # drop (5 + length name) (e[30 := 1]))" by (simp add: entry_name_def f)
  then have "entry_name ?f = name @ 0 # take (NAME_MAX - length name) (drop (5 + length name) (e[30 := 1]))"
    using assms(2) by (simp add: Suc_diff_le)
  then show "ename ?f = name" "0 \<in> set (entry_name ?f)" using assms(3) by (simp_all add: ename_def takeWhile_append)
  have "?f ! 30 = e[30 := 1] ! 30" using assms(1,2) by (simp add: f nth_append nth_Cons' NAME_MAX_def ENTRY_SIZE_def)
  then show "entry_in_use ?f" using assms(1) by (simp add: entry_in_use_def ENTRY_SIZE_def)
qed

text \<open>Writing one entry.\<close>

lemma slot_byte: "i < length c div ENTRY_SIZE \<Longrightarrow> k < ENTRY_SIZE \<Longrightarrow> slots c ! i ! k = c ! (ENTRY_SIZE * i + k) \<and> ENTRY_SIZE * i + k < length c"
  using slot_nth [of i c] slot_length [of i c] by simp

lemma slots_write:
  assumes c: "length c mod ENTRY_SIZE = 0" and e: "length e = ENTRY_SIZE" and j: "j \<le> length (slots c)"
  shows "slots (write_spec (ENTRY_SIZE * j) e c) = (if j < length (slots c) then (slots c)[j := e] else slots c @ [e])"
    "length (write_spec (ENTRY_SIZE * j) e c) mod ENTRY_SIZE = 0"
proof -
  let ?c = "write_spec (ENTRY_SIZE * j) e c" let ?n = "length (slots c)"
  let ?R = "if j < ?n then (slots c)[j := e] else slots c @ [e]"
  have lc: "length c = ENTRY_SIZE * ?n" using mult_div_mod_eq [of ENTRY_SIZE "length c"] c by simp
  have len: "length ?c = ENTRY_SIZE * max ?n (Suc j)"
    using e lc by (simp only: length_write_spec) (simp add: max_def ENTRY_SIZE_def)
  then show "length ?c mod ENTRY_SIZE = 0" by simp
  have ls: "length (slots ?c) = max ?n (Suc j)" using len by (simp add: ENTRY_SIZE_def)
  show "slots ?c = ?R"
  proof (rule nth_equalityI)
    show "length (slots ?c) = length ?R" using ls j by auto
    fix i assume "i < length (slots ?c)"
    then have i: "i < length ?c div ENTRY_SIZE" "i < max ?n (Suc j)" using ls by simp_all
    show "slots ?c ! i = ?R ! i"
    proof (rule nth_equalityI)
      have "length (?R ! i) = ENTRY_SIZE" using i(2) j e slot_length [of i c] by (auto simp: nth_list_update nth_append)
      then show "length (slots ?c ! i) = length (?R ! i)" using slot_length [OF i(1)] by simp
      fix k assume "k < length (slots ?c ! i)"
      then have k: "k < ENTRY_SIZE" using slot_length [OF i(1)] by simp
      have b: "slots ?c ! i ! k = ?c ! (ENTRY_SIZE * i + k)" and "ENTRY_SIZE * i + k < length ?c" using slot_byte [OF i(1) k] by simp_all
      then have w: "?c ! (ENTRY_SIZE * i + k) = (if ENTRY_SIZE * i + k < ENTRY_SIZE * j then (if ENTRY_SIZE * i + k < length c then c ! (ENTRY_SIZE * i + k) else 0)
          else if ENTRY_SIZE * i + k < ENTRY_SIZE * j + length e then e ! (ENTRY_SIZE * i + k - ENTRY_SIZE * j) else c ! (ENTRY_SIZE * i + k))"
        by (intro write_spec_nth) simp
      have cm: "ENTRY_SIZE * i + k < ENTRY_SIZE * j \<longleftrightarrow> i < j" "ENTRY_SIZE * i + k < ENTRY_SIZE * j + ENTRY_SIZE \<longleftrightarrow> i \<le> j"
        using k by (auto simp: ENTRY_SIZE_def)
      consider "i < j" "i < ?n" | "i = j" | "j < i" "i < ?n" using i(2) j by linarith
      then show "slots ?c ! i ! k = ?R ! i ! k"
      proof cases
        case 1
        then show ?thesis using b w cm slot_byte [of i c k] k by (simp add: nth_append)
      next
        case 2
        then show ?thesis using b w cm k j e by (auto simp: nth_append)
      next
        case 3
        then show ?thesis using b w cm slot_byte [of i c k] k e by simp
      qed
    qed
  qed
qed

text \<open>A free slot gets an entry with a new name.\<close>

lemma dir_map_add:
  assumes "dir_ok c" "length e = ENTRY_SIZE" "j \<le> length (slots c)" "j < length (slots c) \<longrightarrow> \<not> entry_in_use (slots c ! j)"
    "entry_in_use e" "0 \<in> set (entry_name e)" "ename e = name" "dir_map c name = None"
  shows "dir_map (write_spec (ENTRY_SIZE * j) e c) = (dir_map c)(name \<mapsto> entry_sector e)" "dir_ok (write_spec (ENTRY_SIZE * j) e c)"
proof -
  have m: "length c mod ENTRY_SIZE = 0" using assms(1) by (simp add: dir_ok_def)
  note sw = slots_write [OF m assms(2,3)]
  let ?c = "write_spec (ENTRY_SIZE * j) e c"
  have no: "find (names name) (slots c) = None" using assms(8) by (simp add: dir_map_def)
  have nth: "slots ?c ! i = (if i = j then e else slots c ! i)" "i \<noteq> j \<Longrightarrow> i < length (slots c)" if "i < length (slots ?c)" for i
    using that sw(1) assms(3) by (auto simp: nth_append nth_list_update split: if_splits)
  have sub: "set (slots ?c) \<subseteq> insert e (set (slots c))" using sw(1) set_update_subset_insert [of "slots c" j e] by auto
  have "i = k" if i: "i < length (slots ?c)" "k < length (slots ?c)" "names (ename (slots ?c ! k)) (slots ?c ! i)" "entry_in_use (slots ?c ! k)" for i k
  proof -
    have new: "\<not> names name (slots c ! l)" if "l < length (slots c)" for l using no that by (auto simp: find_None_iff)
    have "k = j" if "i = j"
    proof (rule ccontr)
      assume k: "k \<noteq> j"
      then have "slots ?c ! k = slots c ! k" "k < length (slots c)" "slots ?c ! i = e" using nth [OF i(2)] nth [OF i(1)] that by simp_all
      then show False using new [of k] i(3,4) assms(7) by (simp add: names_def)
    qed
    moreover have "i = j" if "k = j"
    proof (rule ccontr)
      assume k: "i \<noteq> j"
      then have "slots ?c ! i = slots c ! i" "i < length (slots c)" "slots ?c ! k = e" using nth [OF i(2)] nth [OF i(1)] that by simp_all
      then show False using new [of i] i(3,4) assms(7) by (simp add: names_def)
    qed
    moreover have "i = k" if "i \<noteq> j" "k \<noteq> j" using that i nth [OF i(1)] nth [OF i(2)] assms(1) by (simp add: dir_ok_def)
    ultimately show ?thesis by blast
  qed
  then show "dir_ok ?c" using sub assms(1,6) sw(2) unfolding dir_ok_def by blast
  have y: "names n e \<longleftrightarrow> n = name" for n using assms(5,7) by (auto simp: names_def)
  have free: "\<not> names n (slots c ! j)" if "j < length (slots c)" for n using assms(4) that by (simp add: names_def)
  show "dir_map ?c = (dir_map c)(name \<mapsto> entry_sector e)"
  proof
    fix n
    show "dir_map ?c n = ((dir_map c)(name \<mapsto> entry_sector e)) n"
    proof (cases "j < length (slots c)")
      case True
      then show ?thesis using sw(1) y no find_update_new [of "names name" e "slots c" j] find_update [of "names n" e "slots c" j] free [OF True, of n]
        by (auto simp: dir_map_def)
    next
      case False
      then show ?thesis using sw(1) y no by (auto simp: dir_map_def find_append split: option.splits)
    qed
  qed
qed

lemma entry_sectors: "0 \<le> x \<Longrightarrow> x + 32 \<le> 512 * int MAX_INDEX \<Longrightarrow> bytes_to_sectors (x + 32) - bytes_to_sectors x \<le> 1"
proof -
  assume x: "0 \<le> x" "x + 32 \<le> 512 * int MAX_INDEX"
  then have b: "bytes_to_sectors (x + 32) = nat ((x + 32 + 511) div 512)" "bytes_to_sectors x = nat ((x + 511) div 512)"
    by (simp_all add: sectors_of MAX_INDEX_def)
  have "(x + 32 + 511) div 512 \<le> (x + 511 + 512 * 1) div 512" by (rule zdiv_mono1) simp_all
  also have "\<dots> = (x + 511) div 512 + 1" using div_mult_self2 [of 512 "x + 511" 1] by simp
  finally show ?thesis using b by linarith
qed

lemma contents_length: "volume fa A s \<Longrightarrow> a \<in> A \<Longrightarrow> int (length (contents a s)) = inode_length a s"
  using volumeD(4) [of fa A s a] by (simp add: contents_def file_inv_def file_ok_def)

lemma take_entry: "length e = ENTRY_SIZE \<Longrightarrow> map (\<lambda>k. e ! k) [0..<nat 32] = e"
  by (metis ENTRY_SIZE_def map_nth nat_numeral)

text \<open>Writing an entry into a slot, or behind the last one.\<close>

lemma write_entry:
  assumes v: "volume fa A s" "a \<in> A" "deny_write_cnt (inodes s a) = 0" and m: "length (contents a s) mod ENTRY_SIZE = 0"
    and e: "length e = ENTRY_SIZE" and j: "j \<le> length (slots (contents a s))"
    and room: "j < length (slots (contents a s)) \<or> (inode_length a s + 32 \<le> 512 * int MAX_INDEX \<and> 3 \<le> card (free_sectors s))"
  shows "\<exists>s'. inode_write_at mem (bitmap_write mem fa) a (\<lambda>k. e ! k) 32 (32 * int j) s = Some (s', 32) \<and> volume fa A s' \<and>
    contents a s' = write_spec (ENTRY_SIZE * j) e (contents a s) \<and> (\<forall>b \<in> A. b \<noteq> a \<longrightarrow> contents b s' = contents b s) \<and>
    open_inodes s' = open_inodes s \<and> (\<forall>b. b \<noteq> a \<longrightarrow> inodes s' b = inodes s b) \<and> inodes s' a = (inodes s a)\<lparr>ilength := inode_length a s'\<rparr> \<and>
    (j < length (slots (contents a s)) \<longrightarrow> free_sectors s' = free_sectors s) \<and>
    (\<forall>x \<in> used_sectors s. x \<notin> file_sectors fa s \<longrightarrow> x \<notin> file_sectors a s \<longrightarrow> fsv s' x = fsv s x)"
proof -
  let ?n = "length (slots (contents a s))"
  have "length (contents a s) = 32 * ?n" using mult_div_mod_eq [of ENTRY_SIZE "length (contents a s)"] unfolding m by (simp add: ENTRY_SIZE_def)
  then have ln: "inode_length a s = 32 * int ?n" using contents_length [OF v(1,2)] by linarith
  have o: "0 \<le> 32 * int j" "nat (32 * int j) = ENTRY_SIZE * j" by (simp_all add: ENTRY_SIZE_def nat_mult_distrib)
  have lm: "inode_length a s \<le> 512 * int MAX_INDEX"
  proof -
    have ok: "file_ok a (inode_length a s) s" using volumeD(4) [OF v(1,2)] by (simp add: file_inv_def)
    have "512 * int MAX_INDEX < inode_length a s \<longrightarrow> MAX_INDEX < MAX_INDEX" using ok unfolding file_ok_def by blast
    then show ?thesis by simp
  qed
  have fit: "32 * int j + 32 \<le> 512 * int MAX_INDEX \<and> 3 * (bytes_to_sectors (32 * int j + 32) - bytes_to_sectors (inode_length a s)) \<le> card (free_sectors s)"
  proof (cases "j < ?n")
    case True
    then have le: "32 * int j + 32 \<le> inode_length a s" using ln by simp
    moreover have "bytes_to_sectors (32 * int j + 32) \<le> bytes_to_sectors (inode_length a s)"
      using le lm sectors_of [of "32 * int j + 32"] sectors_of [of "inode_length a s"]
      by (simp add: MAX_INDEX_def nat_mono zdiv_mono1)
    ultimately show ?thesis using lm by simp
  next
    case False
    then have "32 * int j = inode_length a s" "inode_length a s + 32 \<le> 512 * int MAX_INDEX" "3 \<le> card (free_sectors s)" using j ln room by auto
    then show ?thesis using entry_sectors [of "inode_length a s"] o(1) by simp
  qed
  have f: "32 * int j + 32 \<le> 512 * int MAX_INDEX" "3 * (bytes_to_sectors (32 * int j + 32) - bytes_to_sectors (inode_length a s)) \<le> card (free_sectors s)"
    using fit by simp_all
  have z: "(0 :: int) \<le> 32" "1 < (8 :: nat)" by simp_all
  have same: "free_sectors s' = free_sectors s" if w: "inode_write_at mem (bitmap_write mem fa) a (\<lambda>k. e ! k) 32 (32 * int j) s = Some (s', 32)" and j: "j < ?n" for s'
  proof -
    have le: "32 * int j + 32 \<le> inode_length a s" using j ln by simp
    obtain s'' where "inode_write_at mem (bitmap_write mem fa) a (\<lambda>k. e ! k) 32 (32 * int j) s = Some (s'', 32)" "frame {} s s''" "fs_map s'' = fs_map s"
      using write_within [OF volumeD(1) [OF v(1)] z(2) file_inv_parts(1) [OF volumeD(4) [OF v(1,2)]] _ v(3) o(1) z(1) le] by blast
    then show ?thesis using w frame_size [of "{}" s s'] used_cong [of s' s] by (simp add: free_sectors_def)
  qed
  obtain s' where w: "inode_write_at mem (bitmap_write mem fa) a (\<lambda>k. e ! k) 32 (32 * int j) s = Some (s', 32)" "volume fa A s'"
    "contents a s' = write_spec (ENTRY_SIZE * j) e (contents a s)" "\<forall>b \<in> A. b \<noteq> a \<longrightarrow> contents b s' = contents b s"
    "open_inodes s' = open_inodes s" "\<forall>b. b \<noteq> a \<longrightarrow> inodes s' b = inodes s b" "inodes s' a = (inodes s a)\<lparr>ilength := inode_length a s'\<rparr>"
    "\<forall>x \<in> used_sectors s. x \<notin> file_sectors fa s \<longrightarrow> x \<notin> file_sectors a s \<longrightarrow> fsv s' x = fsv s x"
    using write_volume [OF v o(1) z(1) f, of mem "\<lambda>k. e ! k"] unfolding o(2) take_entry [OF e] by blast
  then show ?thesis using same [OF w(1)] by blast
qed

lemma dir_add_ok:
  assumes v: "volume fa A s" and d: "dinode d \<in> A" "\<not> dir_lock d" "deny_write_cnt (inodes s (dinode d)) = 0" "dir_ok (contents (dinode d) s)"
    and n: "name \<noteq> []" "length name \<le> NAME_MAX" "0 \<notin> set name" and x: "sector < 2 ^ 32" "length junk = ENTRY_SIZE"
    and room: "inode_length (dinode d) s + 32 \<le> 512 * int MAX_INDEX" "3 \<le> card (free_sectors s)"
  shows "\<exists>s' ok. dir_add mem (bitmap_write mem fa) junk d name sector s = Some (s', d, ok) \<and> volume fa A s' \<and>
    (ok \<longleftrightarrow> dir_map (contents (dinode d) s) name = None) \<and> dir_ok (contents (dinode d) s') \<and>
    dir_map (contents (dinode d) s') = (if ok then (dir_map (contents (dinode d) s))(name \<mapsto> sector) else dir_map (contents (dinode d) s)) \<and>
    (\<forall>b \<in> A. b \<noteq> dinode d \<longrightarrow> contents b s' = contents b s) \<and> open_inodes s' = open_inodes s \<and>
    (\<forall>b. b \<noteq> dinode d \<longrightarrow> inodes s' b = inodes s b) \<and> inodes s' (dinode d) = (inodes s (dinode d))\<lparr>ilength := inode_length (dinode d) s'\<rparr> \<and>
    (\<forall>x \<in> used_sectors s. x \<notin> file_sectors fa s \<longrightarrow> x \<notin> file_sectors (dinode d) s \<longrightarrow> fsv s' x = fsv s x)"
proof -
  let ?a = "dinode d" let ?c = "contents (dinode d) s"
  obtain s1 where l: "lookup mem d name s = Some (s1, d, map_option (\<lambda>j. (slots ?c ! j, 32 * int j)) (slot_of_name ?c name))" "quiet fa A s s1"
    using name_lookup_ok [OF v d(1,2,4) n(3), of mem] by blast
  have q: "volume fa A s1" "\<And>b. b \<in> A \<Longrightarrow> contents b s1 = contents b s" "inodes s1 = inodes s" "free_sectors s1 = free_sectors s"
    "open_inodes s1 = open_inodes s" using l(2) by (simp_all add: quiet_def)
  have guard: "\<not> (name = [] \<or> NAME_MAX < length name)" using n by simp
  show ?thesis
  proof (cases "slot_of_name ?c name")
    case (Some j)
    then have "dir_add mem (bitmap_write mem fa) junk d name sector s = Some (s1, d, False)" using l(1) guard by (simp add: dir_add_def)
    moreover have "dir_map ?c name \<noteq> None" using Some by (simp add: dir_map_slot)
    moreover have "inodes s1 ?a = (inodes s ?a)\<lparr>ilength := inode_length ?a s1\<rparr>" by (cases "inodes s ?a") (simp add: q(3) inode_length_def)
    ultimately show ?thesis using q(1,2,3,5) d(1,3,4) quiet_sectors(3) [OF l(2)] by (intro exI [of _ s1] exI [of _ False]) simp
  next
    case None
    have m: "length ?c mod ENTRY_SIZE = 0" using d(4) by (simp add: dir_ok_def)
    obtain s2 e j where fr: "free_slot_loop mem ?a junk 0 s1 = Some (s2, e, 32 * int j)" "quiet fa A s1 s2" "length e = ENTRY_SIZE"
      "j \<le> length (slots ?c)" "j < length (slots ?c) \<longrightarrow> \<not> entry_in_use (slots ?c ! j)"
      using free_slot_loop_ok [OF q(1) d(1) _ x(2), of 0 mem] m q(2) [OF d(1)] by auto
    have q2: "volume fa A s2" "\<And>b. b \<in> A \<Longrightarrow> contents b s2 = contents b s" "inodes s2 = inodes s" "free_sectors s2 = free_sectors s"
      "open_inodes s2 = open_inodes s" using quiet_trans [OF l(2) fr(2)] by (simp_all add: quiet_def)
    let ?e = "fill_entry e name sector"
    note fe = fill_entry_ok [OF fr(3) n(2,3) x(1)]
    have il: "inode_length ?a s2 = inode_length ?a s" using q2(3) by (simp add: inode_length_def)
    obtain s' where w: "inode_write_at mem (bitmap_write mem fa) ?a (\<lambda>k. ?e ! k) 32 (32 * int j) s2 = Some (s', 32)" "volume fa A s'"
      "contents ?a s' = write_spec (ENTRY_SIZE * j) ?e ?c" "\<forall>b \<in> A. b \<noteq> ?a \<longrightarrow> contents b s' = contents b s2"
      "open_inodes s' = open_inodes s2" "\<forall>b. b \<noteq> ?a \<longrightarrow> inodes s' b = inodes s2 b" "inodes s' ?a = (inodes s2 ?a)\<lparr>ilength := inode_length ?a s'\<rparr>"
      "\<forall>x \<in> used_sectors s2. x \<notin> file_sectors fa s2 \<longrightarrow> x \<notin> file_sectors ?a s2 \<longrightarrow> fsv s' x = fsv s2 x"
      using write_entry [OF q2(1) d(1) _ _ fe(1), of j mem] d(3) m fr(4) room q2(3,4) q2(2) [OF d(1)] il by auto
    have none: "dir_map ?c name = None" using None by (simp add: dir_map_slot)
    have dd: "d\<lparr>dir_lock := False\<rparr> = d" using d(2) by simp
    have "dir_add mem (bitmap_write mem fa) junk d name sector s = Some (s', d, True)"
      using l(1) None guard fr(1) w(1) d(2) dd by (simp add: dir_add_def dir_lock_acquire_def dir_lock_release_def)
    then show ?thesis using w(2-8) quiet_sectors [OF quiet_trans [OF l(2) fr(2)]] q2(3,5) d(3) none dir_map_add [OF d(4) fe(1) fr(4,5) fe(4,5,3) none] fe(2) q2(2)
      by (intro exI [of _ s'] exI [of _ True]) simp
  qed
qed

text \<open>
  C3: a directory is a map from names to sectors, and \<^verbatim>\<open>dir_add\<close> enters a name. It fails when the name is there
  already, and then the directory is as it was; otherwise the new entry takes a free slot or extends the file, the map gains exactly that name,
  and no other file changes.
\<close>

theorem dir_add_spec:
  assumes v: "volume fa A s" and d: "dinode d \<in> A" "\<not> dir_lock d" "deny_write_cnt (inodes s (dinode d)) = 0" "dir_ok (contents (dinode d) s)"
    and n: "name \<noteq> []" "length name \<le> NAME_MAX" "0 \<notin> set name" and x: "sector < 2 ^ 32" "length junk = ENTRY_SIZE"
    and room: "inode_length (dinode d) s + 32 \<le> 512 * int MAX_INDEX" "3 \<le> card (free_sectors s)"
  shows "\<exists>s' ok. dir_add mem (bitmap_write mem fa) junk d name sector s = Some (s', d, ok) \<and> volume fa A s' \<and>
    (ok \<longleftrightarrow> dir_map (contents (dinode d) s) name = None) \<and> dir_ok (contents (dinode d) s') \<and>
    dir_map (contents (dinode d) s') = (if ok then (dir_map (contents (dinode d) s))(name \<mapsto> sector) else dir_map (contents (dinode d) s)) \<and>
    (\<forall>b \<in> A. b \<noteq> dinode d \<longrightarrow> contents b s' = contents b s)"
proof -
  from dir_add_ok [OF v d n x room, of mem] obtain s' ok where
    "dir_add mem (bitmap_write mem fa) junk d name sector s = Some (s', d, ok)" "volume fa A s'"
    "ok \<longleftrightarrow> dir_map (contents (dinode d) s) name = None" "dir_ok (contents (dinode d) s')"
    "dir_map (contents (dinode d) s') = (if ok then (dir_map (contents (dinode d) s))(name \<mapsto> sector) else dir_map (contents (dinode d) s))"
    "\<forall>b \<in> A. b \<noteq> dinode d \<longrightarrow> contents b s' = contents b s" by blast
  then show ?thesis by blast
qed

definition small_dir :: dir where
  "small_dir = \<lparr>dinode = 1, dpos = 0, dir_lock = False\<rparr>"

lemma small_dir_ok: "dir_ok []" "dir_map [] = Map.empty"
  by (auto simp: dir_ok_def dir_map_def slots_def)

lemma small_dir_simps [simp]: "dinode small_dir = 1" "\<not> dir_lock small_dir" "dpos small_dir = 0"
  by (simp_all add: small_dir_def)

theorem dir_add_spec_witness:
  "\<exists>s s'. volume 0 {1, 5} s \<and> dir_add (\<lambda>_. True) (bitmap_write (\<lambda>_. True) 0) (replicate 32 5) small_dir [97, 98] 7 s = Some (s', small_dir, True) \<and>
    volume 0 {1, 5} s' \<and> dir_ok (contents 1 s') \<and> dir_map (contents 1 s') = [[97, 98] \<mapsto> 7]"
proof -
  from small_exists obtain c where c: "small c" by blast
  let ?s = "small_volume c"
  note v = small_volume_ok [OF c]
  have "\<exists>s' ok. dir_add (\<lambda>_. True) (bitmap_write (\<lambda>_. True) 0) (replicate 32 5) small_dir [97, 98] 7 ?s = Some (s', small_dir, ok) \<and> volume 0 {1, 5} s' \<and>
    (ok \<longleftrightarrow> dir_map (contents (dinode small_dir) ?s) [97, 98] = None) \<and> dir_ok (contents (dinode small_dir) s') \<and>
    dir_map (contents (dinode small_dir) s') = (if ok then (dir_map (contents (dinode small_dir) ?s))([97, 98] \<mapsto> 7) else dir_map (contents (dinode small_dir) ?s)) \<and>
    (\<forall>b \<in> {1, 5}. b \<noteq> dinode small_dir \<longrightarrow> contents b s' = contents b ?s)"
    by (rule dir_add_spec [OF v(1)]) (use v(2,3) small_dir_ok(1) in \<open>simp_all add: small_simps NAME_MAX_def ENTRY_SIZE_def MAX_INDEX_def\<close>)
  then show ?thesis using v(1,2) small_dir_ok(2) by auto
qed

section \<open>Removing\<close>

text \<open>The slot of a name is marked free.\<close>

lemma dir_map_remove:
  assumes ok: "dir_ok c" and j: "slot_of_name c name = Some j" and e: "e = (slots c ! j)[30 := 0]"
  shows "dir_map (write_spec (ENTRY_SIZE * j) e c) = (dir_map c)(name := None)" "dir_ok (write_spec (ENTRY_SIZE * j) e c)"
proof -
  let ?c = "write_spec (ENTRY_SIZE * j) e c"
  have m: "length c mod ENTRY_SIZE = 0" using ok by (simp add: dir_ok_def)
  have jn: "j < length (slots c)" "names name (slots c ! j)" using slot_of_name_Some [OF j] by simp_all
  have le: "length e = ENTRY_SIZE" using e slot_length jn(1) by simp
  note sw = slots_write [OF m le, of j]
  have S: "slots ?c = (slots c)[j := e]" using sw(1) jn(1) by simp
  have free: "\<not> entry_in_use e" using e slot_length [of j c] jn(1) by (simp add: entry_in_use_def ENTRY_SIZE_def)
  have uniq: "\<not> names name (slots c ! i)" if "i < length (slots c)" "i \<noteq> j" for i
    using that ok jn unfolding dir_ok_def by (auto simp: names_def)
  have none: "find (names name) (slots ?c) = None"
  proof -
    have "\<not> names name (slots ?c ! i)" if "i < length (slots c)" for i
      using uniq [OF that] free that by (cases "i = j") (simp_all add: S names_def)
    then show ?thesis unfolding find_None_iff in_set_conv_nth by (metis S length_list_update)
  qed
  have "find (names n) (slots ?c) = find (names n) (slots c)" if "n \<noteq> name" for n
    unfolding S using that free jn(2) by (intro find_update) (auto simp: names_def)
  then show "dir_map ?c = (dir_map c)(name := None)" using none by (auto simp: dir_map_def)
  have "x = e \<or> x \<in> set (slots c)" if "x \<in> set (slots ?c)" for x using that S set_update_subset_insert [of "slots c" j e] by auto
  moreover have "i = k" if i: "i < length (slots ?c)" "k < length (slots ?c)" "names (ename (slots ?c ! k)) (slots ?c ! i)" "entry_in_use (slots ?c ! k)" for i k
  proof -
    have "i \<noteq> j" "k \<noteq> j" using i jn(1) free by (auto simp: S names_def)
    then show ?thesis using i ok by (simp add: S dir_ok_def)
  qed
  ultimately show "dir_ok ?c" using ok free sw(2) jn(1) unfolding dir_ok_def by (metis less_imp_le)
qed

text \<open>
  \<^verbatim>\<open>dir_remove\<close> stops the kernel when the name is not in the directory: it jumps to its end, which releases a lock that
  it does not hold.
\<close>

theorem dir_remove_missing:
  assumes "volume fa A s" "dinode d \<in> A" "\<not> dir_lock d" "dir_ok (contents (dinode d) s)" "0 \<notin> set name" "dir_map (contents (dinode d) s) name = None"
  shows "dir_remove mem bw alloc d name s = None"
proof -
  have "slot_of_name (contents (dinode d) s) name = None" using assms(6) by (simp add: dir_map_slot)
  then show ?thesis using name_lookup_ok [OF assms(1-5), of mem] assms(3) by (auto simp: dir_remove_def remove_done_def dir_lock_release_def)
qed

theorem dir_remove_missing_witness:
  "\<exists>s. volume 0 {1, 5} s \<and> dir_map (contents 1 s) [97] = None \<and> dir_remove (\<lambda>_. True) (bitmap_write (\<lambda>_. True) 0) (\<lambda>_. Some 9) small_dir [97] s = None"
proof -
  from small_exists obtain c where c: "small c" by blast
  note v = small_volume_ok [OF c]
  have "dir_remove (\<lambda>_. True) (bitmap_write (\<lambda>_. True) 0) (\<lambda>_. Some 9) small_dir [97] (small_volume c) = None"
    by (rule dir_remove_missing [OF v(1)]) (use v(2) small_dir_ok in simp_all)
  then show ?thesis using v(1,2) small_dir_ok(2) by auto
qed

end
