(* ===== verification/DirRemove.thy ===== *)
theory DirRemove
  imports DirSpec
begin

text \<open>
  \<^verbatim>\<open>dir_remove\<close> of a file that is open, and the listing of a directory by \<^verbatim>\<open>dir_readdir\<close>.
\<close>

section \<open>Removing the name of an open file\<close>

text \<open>Changing the counters and flags of one inode.\<close>

lemma volume_flag:
  assumes "volume fa A s" "i \<in> A" "isector v = isector (inodes s i)" "ilength v = ilength (inodes s i)"
  shows "volume fa A (s\<lparr>inodes := (inodes s)(i := v)\<rparr>)" "b \<in> A \<Longrightarrow> contents b (s\<lparr>inodes := (inodes s)(i := v)\<rparr>) = contents b s"
    "free_sectors (s\<lparr>inodes := (inodes s)(i := v)\<rparr>) = free_sectors s"
proof -
  have f: "i \<noteq> fa" using volumeD(5) [OF assms(1,2)] .
  note vf = volume_flags [where g = "(inodes s)(i := v)" and l = "open_inodes s" and s' = "s\<lparr>inodes := (inodes s)(i := v)\<rparr>", OF assms(1)]
  show "volume fa A (s\<lparr>inodes := (inodes s)(i := v)\<rparr>)" using vf(1) assms(3,4) f by simp
  show "b \<in> A \<Longrightarrow> contents b (s\<lparr>inodes := (inodes s)(i := v)\<rparr>) = contents b s" using vf(2) assms(3,4) f by simp
  show "free_sectors (s\<lparr>inodes := (inodes s)(i := v)\<rparr>) = free_sectors s" using vf(3) assms(3,4) f by simp
qed

lemma dir_eq: "\<not> dir_lock d \<Longrightarrow> d\<lparr>dir_lock := False\<rparr> = d"
  by simp

lemma dir_remove_ok:
  assumes v: "volume fa A s" and d: "dinode d \<in> A" "\<not> dir_lock d" "deny_write_cnt (inodes s (dinode d)) = 0" "dir_ok (contents (dinode d) s)"
    and n: "0 \<notin> set name" "dir_map (contents (dinode d) s) name = Some x"
    and i: "find (\<lambda>a. isector (inodes s a) = x) (open_inodes s) = Some i" "i \<in> A" "i \<noteq> dinode d" "0 < open_cnt (inodes s i)"
  shows "\<exists>s'. dir_remove mem (bitmap_write mem fa) alloc d name s = Some (s', d, True) \<and> volume fa A s' \<and>
    dir_ok (contents (dinode d) s') \<and> dir_map (contents (dinode d) s') = (dir_map (contents (dinode d) s))(name := None) \<and>
    (\<forall>b \<in> A. b \<noteq> dinode d \<longrightarrow> contents b s' = contents b s) \<and> inodes s' i = (inodes s i)\<lparr>removed := True\<rparr> \<and>
    inodes s' (dinode d) = (inodes s (dinode d))\<lparr>ilength := inode_length (dinode d) s'\<rparr> \<and> free_sectors s' = free_sectors s"
proof -
  let ?a = "dinode d" let ?c = "contents (dinode d) s" let ?bw = "bitmap_write mem fa"
  obtain j where j: "slot_of_name ?c name = Some j" "entry_sector (slots ?c ! j) = x" using n(2) by (auto simp: dir_map_slot)
  have jl: "j < length (slots ?c)" using slot_of_name_Some [OF j(1)] by simp
  obtain s1 where l: "lookup mem d name s = Some (s1, d, Some (slots ?c ! j, 32 * int j))" "quiet fa A s s1"
    using name_lookup_ok [OF v d(1,2,4) n(1), of mem] j(1) by auto
  have q: "volume fa A s1" "\<And>b. b \<in> A \<Longrightarrow> contents b s1 = contents b s" "inodes s1 = inodes s" "open_inodes s1 = open_inodes s"
    "free_sectors s1 = free_sectors s" using l(2) by (simp_all add: quiet_def)
  define s2 where "s2 = s1\<lparr>inodes := (inodes s1)(i := (inodes s1 i)\<lparr>open_cnt := open_cnt (inodes s1 i) + 1\<rparr>)\<rparr>"
  have op: "inode_open mem (alloc s1) x s1 = Some (s2, Some i)" using i(1) q(3,4) by (simp add: inode_open_def inode_reopen_def s2_def)
  note v2 = volume_flag [OF q(1) i(2), of "(inodes s1 i)\<lparr>open_cnt := open_cnt (inodes s1 i) + 1\<rparr>"]
  have c2: "volume fa A s2" "\<And>b. b \<in> A \<Longrightarrow> contents b s2 = contents b s" "free_sectors s2 = free_sectors s" using v2 q(2,5) by (simp_all add: s2_def)
  have i2: "inodes s2 i = (inodes s i)\<lparr>open_cnt := open_cnt (inodes s i) + 1\<rparr>" "deny_write_cnt (inodes s2 ?a) = 0" "inodes s2 ?a = inodes s ?a"
    using q(3) d(3) i(3) by (simp_all add: s2_def)
  let ?e = "(slots ?c ! j)[30 := 0]"
  have m: "length ?c mod ENTRY_SIZE = 0" using d(4) by (simp add: dir_ok_def)
  have le: "length ?e = ENTRY_SIZE" using slot_length jl by simp
  obtain s3 where w: "inode_write_at mem ?bw ?a (\<lambda>k. ?e ! k) 32 (32 * int j) s2 = Some (s3, 32)" "volume fa A s3"
    "contents ?a s3 = write_spec (ENTRY_SIZE * j) ?e ?c" "\<And>b. b \<in> A \<Longrightarrow> b \<noteq> ?a \<Longrightarrow> contents b s3 = contents b s" "\<And>b. b \<noteq> ?a \<Longrightarrow> inodes s3 b = inodes s2 b"
    "inodes s3 ?a = (inodes s2 ?a)\<lparr>ilength := inode_length ?a s3\<rparr>" "free_sectors s3 = free_sectors s2"
    using write_entry [OF c2(1) d(1) i2(2) _ le, of j mem] m jl c2(2) d(1) by auto
  have i3: "inodes s3 i = (inodes s i)\<lparr>open_cnt := open_cnt (inodes s i) + 1\<rparr>" using w(5) [OF i(3)] i2(1) by simp
  let ?v = "(inodes s i)\<lparr>removed := True\<rparr>"
  let ?s5 = "s3\<lparr>inodes := (inodes s3)(i := ?v)\<rparr>"
  have cl: "inode_close mem ?bw (Some i) (inode_remove i s3) = Some ?s5"
    using i3 i(4) by (simp add: inode_close_def inode_remove_def Let_def)
  have "dir_remove mem ?bw alloc d name s = Some (?s5, d, True)"
    using l(1) j(2) op w(1) cl d(2) dir_eq [OF d(2)] by (simp add: dir_remove_def remove_done_def dir_lock_acquire_def dir_lock_release_def)
  moreover have v5: "volume fa A ?s5" "\<And>b. b \<in> A \<Longrightarrow> contents b ?s5 = contents b s3" "free_sectors ?s5 = free_sectors s3" using volume_flag [OF w(2) i(2), of ?v] i3 by simp_all
  moreover have "inodes ?s5 ?a = (inodes s ?a)\<lparr>ilength := inode_length ?a ?s5\<rparr>" using w(6) i2(3) i(3) by (simp add: inode_length_def)
  ultimately show ?thesis using dir_map_remove [OF d(4) j(1) refl] w(3,4,7) c2(3) d(1) by (intro exI [of _ ?s5]) simp
qed

text \<open>The small volume after one name was entered.\<close>

lemma small_named:
  "\<exists>s. volume 0 {1, 5} s \<and> dir_ok (contents 1 s) \<and> dir_map (contents 1 s) = [[97] \<mapsto> 5] \<and> open_inodes s = [5, 1, 0] \<and>
    isector (inodes s 5) = 5 \<and> open_cnt (inodes s 5) = 1 \<and> deny_write_cnt (inodes s 1) = 0 \<and>
    inode_is_dir 1 s \<and> \<not> inode_is_removed 1 s \<and> open_cnt (inodes s 1) = 1 \<and> \<not> inode_is_dir 5 s \<and>
    inodes s 5 = \<lparr>isector = 5, open_cnt = 1, removed = False, deny_write_cnt = 0, is_dir = 0, ilength = 0\<rparr> \<and> read32 (fsv s 5) 0 = 0 \<and> read32 (fsv s 5) 8 = 0"
proof -
  from small_exists obtain c where c: "small c" by blast
  let ?s = "small_volume c"
  note v = small_volume_ok [OF c]
  have "\<exists>s' ok. dir_add (\<lambda>_. True) (bitmap_write (\<lambda>_. True) 0) (replicate 32 0) small_dir [97] 5 ?s = Some (s', small_dir, ok) \<and> volume 0 {1, 5} s' \<and>
    (ok \<longleftrightarrow> dir_map (contents (dinode small_dir) ?s) [97] = None) \<and> dir_ok (contents (dinode small_dir) s') \<and>
    dir_map (contents (dinode small_dir) s') = (if ok then (dir_map (contents (dinode small_dir) ?s))([97] \<mapsto> 5) else dir_map (contents (dinode small_dir) ?s)) \<and>
    (\<forall>b \<in> {1, 5}. b \<noteq> dinode small_dir \<longrightarrow> contents b s' = contents b ?s) \<and> open_inodes s' = open_inodes ?s \<and>
    (\<forall>b. b \<noteq> dinode small_dir \<longrightarrow> inodes s' b = inodes ?s b) \<and>
    inodes s' (dinode small_dir) = (inodes ?s (dinode small_dir))\<lparr>ilength := inode_length (dinode small_dir) s'\<rparr> \<and>
    (\<forall>x \<in> used_sectors ?s. x \<notin> file_sectors 0 ?s \<longrightarrow> x \<notin> file_sectors (dinode small_dir) ?s \<longrightarrow> fsv s' x = fsv ?s x)"
    by (rule dir_add_ok [OF v(1)]) (use v(2,3) small_dir_ok(1) in \<open>simp_all add: small_simps NAME_MAX_def ENTRY_SIZE_def MAX_INDEX_def\<close>)
  then obtain s where s: "volume 0 {1, 5} s" "dir_ok (contents 1 s)" "dir_map (contents 1 s) = [[97] \<mapsto> 5]" "open_inodes s = open_inodes ?s"
    "\<forall>b. b \<noteq> 1 \<longrightarrow> inodes s b = inodes ?s b" "inodes s 1 = (inodes ?s 1)\<lparr>ilength := inode_length 1 s\<rparr>"
    "\<forall>x \<in> used_sectors ?s. x \<notin> file_sectors 0 ?s \<longrightarrow> x \<notin> file_sectors 1 ?s \<longrightarrow> fsv s x = fsv ?s x" using v(2) small_dir_ok(2) by auto
  have "fsv s 5 = fsv ?s 5" using s(7) by (simp add: small_used small_files [OF c])
  moreover have "word_at (fsv ?s 5) 0 = 0" "word_at (fsv ?s 5) 2 = 0"
    using small_word [OF c, of 5 0] small_word [OF c, of 5 2] by (simp_all add: small_disk_def word_at_put_word)
  ultimately have "read32 (fsv s 5) 0 = 0" "read32 (fsv s 5) 8 = 0" by (simp_all add: word_at_def unat_eq_0)
  with s show ?thesis by (intro exI [of _ s]) (simp add: small_volume_def inode_is_dir_def inode_is_removed_def)
qed

text \<open>
  C16: \<^verbatim>\<open>dir_remove\<close> takes the name of an open file out of its directory and marks the file for deletion. The file itself stays as it is for
  those who have it open; the directory loses that name and no other.
\<close>

theorem dir_remove_open:
  assumes v: "volume fa A s" and d: "dinode d \<in> A" "\<not> dir_lock d" "deny_write_cnt (inodes s (dinode d)) = 0" "dir_ok (contents (dinode d) s)"
    and n: "0 \<notin> set name" "dir_map (contents (dinode d) s) name = Some x"
    and i: "find (\<lambda>a. isector (inodes s a) = x) (open_inodes s) = Some i" "i \<in> A" "i \<noteq> dinode d" "0 < open_cnt (inodes s i)"
  shows "\<exists>s'. dir_remove mem (bitmap_write mem fa) alloc d name s = Some (s', d, True) \<and> volume fa A s' \<and>
    dir_ok (contents (dinode d) s') \<and> dir_map (contents (dinode d) s') = (dir_map (contents (dinode d) s))(name := None) \<and>
    (\<forall>b \<in> A. b \<noteq> dinode d \<longrightarrow> contents b s' = contents b s) \<and> inodes s' i = (inodes s i)\<lparr>removed := True\<rparr>"
proof -
  from dir_remove_ok [OF v d n i, of mem alloc] obtain s' where "dir_remove mem (bitmap_write mem fa) alloc d name s = Some (s', d, True)" "volume fa A s'"
    "dir_ok (contents (dinode d) s')" "dir_map (contents (dinode d) s') = (dir_map (contents (dinode d) s))(name := None)"
    "\<forall>b \<in> A. b \<noteq> dinode d \<longrightarrow> contents b s' = contents b s" "inodes s' i = (inodes s i)\<lparr>removed := True\<rparr>" by blast
  then show ?thesis by blast
qed

theorem dir_remove_open_witness:
  "\<exists>s s'. volume 0 {1, 5} s \<and> dir_map (contents 1 s) = [[97] \<mapsto> 5] \<and>
    dir_remove (\<lambda>_. True) (bitmap_write (\<lambda>_. True) 0) (\<lambda>_. None) small_dir [97] s = Some (s', small_dir, True) \<and>
    dir_map (contents 1 s') = Map.empty \<and> removed (inodes s' 5)"
proof -
  from small_named obtain s where s: "volume 0 {1, 5} s" "dir_ok (contents 1 s)" "dir_map (contents 1 s) = [[97] \<mapsto> 5]" "open_inodes s = [5, 1, 0]"
    "isector (inodes s 5) = 5" "open_cnt (inodes s 5) = 1" "deny_write_cnt (inodes s 1) = 0" by blast
  have i: "find (\<lambda>a. isector (inodes s a) = 5) (open_inodes s) = Some 5" "0 < open_cnt (inodes s 5)" using s(4,5,6) by simp_all
  have "\<exists>s'. dir_remove (\<lambda>_. True) (bitmap_write (\<lambda>_. True) 0) (\<lambda>_. None) small_dir [97] s = Some (s', small_dir, True) \<and> volume 0 {1, 5} s' \<and>
    dir_ok (contents (dinode small_dir) s') \<and> dir_map (contents (dinode small_dir) s') = (dir_map (contents (dinode small_dir) s))([97] := None) \<and>
    (\<forall>b \<in> {1, 5}. b \<noteq> dinode small_dir \<longrightarrow> contents b s' = contents b s) \<and> inodes s' 5 = (inodes s 5)\<lparr>removed := True\<rparr>"
    by (rule dir_remove_open [OF s(1), where x = 5]) (use s i in simp_all)
  then show ?thesis using s(1,3) by auto
qed

section \<open>Listing\<close>

text \<open>The names that a listing shows, with the position behind each.\<close>

definition shown :: "u8 list \<Rightarrow> bool" where
  "shown e \<longleftrightarrow> entry_in_use e \<and> ename e \<noteq> [46] \<and> ename e \<noteq> [46, 46]"

lemma readdir_loop_ok:
  assumes "volume fa A s" "a \<in> A" "dir_ok (contents a s)" "i \<le> length (slots (contents a s))"
  shows "\<exists>s'. readdir_loop mem a (32 * int i) s = Some (s', case find (\<lambda>j. shown (slots (contents a s) ! j)) [i..<length (slots (contents a s))] of
      None \<Rightarrow> (32 * int (length (slots (contents a s))), None)
    | Some j \<Rightarrow> (32 * int (Suc j), Some (ename (slots (contents a s) ! j)))) \<and> quiet fa A s s'"
  using assms
proof (induction "length (slots (contents a s)) - i" arbitrary: i s)
  case 0
  then have i: "i = length (slots (contents a s))" by simp
  obtain s' where r: "inode_read_at mem a 32 (32 * int i) s = Some (s', [])" "quiet fa A s s'"
    using read_slot [OF 0(2,3) _ 0(5), of mem] 0(4) i by (auto simp: dir_ok_def)
  then show ?case unfolding readdir_loop.simps [of mem a "32 * int i" s] i [symmetric] by (simp add: ENTRY_SIZE_def)
next
  case (Suc n)
  let ?S = "slots (contents a s)"
  have i: "i < length ?S" using Suc(2) by simp
  let ?e = "?S ! i"
  obtain s1 where r: "inode_read_at mem a 32 (32 * int i) s = Some (s1, ?e)" "quiet fa A s s1"
    using read_slot [OF Suc(3,4) _ Suc(6), of mem] Suc(5) i by (auto simp: dir_ok_def)
  have q: "volume fa A s1" "contents a s1 = contents a s" using r(2) Suc(4) by (simp_all add: quiet_def)
  have le: "length ?e = ENTRY_SIZE" using slot_length i by simp
  have up: "[i..<length ?S] = i # [Suc i..<length ?S]" using i upt_conv_Cons by blast
  have "?e \<in> set ?S" using i by simp
  then have z: "entry_in_use ?e \<Longrightarrow> 0 \<in> set (entry_name ?e)" using Suc(5) by (simp add: dir_ok_def)
  have t: "str_equal cs (entry_name ?e) = Some (ename ?e = cs)" if "entry_in_use ?e" "0 \<notin> set cs" for cs
    using str_equal_name [OF z [OF that(1)] that(2)] by (simp add: ename_def)
  have dots: "str_equal [46] (entry_name ?e) = Some (ename ?e = [46])" "str_equal [46, 46] (entry_name ?e) = Some (ename ?e = [46, 46])"
    if "entry_in_use ?e" using t [OF that, of "[46]"] t [OF that, of "[46, 46]"] by simp_all
  note u = readdir_loop.simps [of mem a "32 * int i" s]
  show ?case
  proof (cases "shown ?e")
    case True
    then show ?thesis using r(2) up dots z unfolding u by (auto simp: r(1) le shown_def ename_def add.commute)
  next
    case False
    have "n = length (slots (contents a s1)) - Suc i" "Suc i \<le> length (slots (contents a s1))" using Suc(2) i q(2) by simp_all
    from Suc(1) [OF this(1) q(1) Suc(4) Suc(5) [folded q(2)] this(2), unfolded q(2)] obtain s' where
      s': "readdir_loop mem a (32 * int (Suc i)) s1 = Some (s', case find (\<lambda>j. shown (?S ! j)) [Suc i..<length ?S] of
        None \<Rightarrow> (32 * int (length ?S), None) | Some j \<Rightarrow> (32 * int (Suc j), Some (ename (?S ! j))))"
      "quiet fa A s1 s'" by blast
    have step: "readdir_loop mem a (32 * int i) s = readdir_loop mem a (32 * int (Suc i)) s1"
      using False dots unfolding u by (auto simp: r(1) le shown_def add.commute)
    show ?thesis unfolding step s'(1) using quiet_trans [OF r(2) s'(2)] False up by simp
  qed
qed

lemma find_filter:
  assumes "i \<le> length S"
  shows "case find (\<lambda>j. P (S ! j)) [i..<length S] of None \<Rightarrow> filter P (drop i S) = []
    | Some j \<Rightarrow> i \<le> j \<and> j < length S \<and> filter P (drop i S) = S ! j # filter P (drop (Suc j) S)"
  using assms
proof (induction "length S - i" arbitrary: i)
  case (Suc n)
  then have i: "i < length S" by simp
  then have "[i..<length S] = i # [Suc i..<length S]" "drop i S = S ! i # drop (Suc i) S" using upt_conv_Cons Cons_nth_drop_Suc by metis+
  moreover have "case find (\<lambda>j. P (S ! j)) [Suc i..<length S] of None \<Rightarrow> filter P (drop (Suc i) S) = []
    | Some j \<Rightarrow> Suc i \<le> j \<and> j < length S \<and> filter P (drop (Suc i) S) = S ! j # filter P (drop (Suc j) S)" using Suc i by simp
  ultimately show ?case using i by (cases "P (S ! i)") (auto split: option.splits)
qed simp

text \<open>Listing a directory: \<^verbatim>\<open>dir_readdir\<close> until it has no more names.\<close>

partial_function (option) list_dir :: "(u32 \<Rightarrow> bool) \<Rightarrow> dir \<Rightarrow> fs \<Rightarrow> (fs \<times> dir \<times> u8 list list) option" where
  "list_dir mem d s = do {
     (s, d, r) \<leftarrow> dir_readdir mem d s;
     case r of
       None \<Rightarrow> Some (s, d, [])
     | Some name \<Rightarrow> do { (s, d, ns) \<leftarrow> list_dir mem d s; Some (s, d, name # ns) } }"

lemma list_dir_from:
  assumes "volume fa A s" "dinode d \<in> A" "\<not> dir_lock d" "dir_ok (contents (dinode d) s)" "dpos d = 32 * int i" "i \<le> length (slots (contents (dinode d) s))"
  shows "\<exists>s'. list_dir mem d s = Some (s', d\<lparr>dpos := 32 * int (length (slots (contents (dinode d) s)))\<rparr>,
      map ename (filter shown (drop i (slots (contents (dinode d) s))))) \<and> quiet fa A s s'"
  using assms
proof (induction "length (slots (contents (dinode d) s)) - i" arbitrary: i s d rule: less_induct)
  case less
  let ?a = "dinode d" let ?S = "slots (contents (dinode d) s)"
  let ?r = "find (\<lambda>j. shown (?S ! j)) [i..<length ?S]"
  note ff = find_filter [OF less(7), of shown]
  obtain s1 where r: "readdir_loop mem ?a (32 * int i) s = Some (s1, case ?r of None \<Rightarrow> (32 * int (length ?S), None)
      | Some j \<Rightarrow> (32 * int (Suc j), Some (ename (?S ! j))))" "quiet fa A s s1" using readdir_loop_ok [OF less(2,3,5,7)] by blast
  have lk: "dir_lock_acquire d = Some (d\<lparr>dir_lock := True\<rparr>)" "dir_lock_release (d\<lparr>dir_lock := True\<rparr>) = Some d"
    using less(4) by (simp_all add: dir_lock_acquire_def dir_lock_release_def)
  show ?case
  proof (cases ?r)
    case None
    then have "dir_readdir mem d s = Some (s1, d\<lparr>dpos := 32 * int (length ?S)\<rparr>, None)"
      using r(1) lk less(6) by (simp add: dir_readdir_def)
    then show ?thesis using r(2) ff None by (subst list_dir.simps) simp
  next
    case (Some j)
    then have j: "i \<le> j" "j < length ?S" "filter shown (drop i ?S) = ?S ! j # filter shown (drop (Suc j) ?S)" using ff by simp_all
    let ?d = "d\<lparr>dpos := 32 * int (Suc j)\<rparr>"
    have rd: "dir_readdir mem d s = Some (s1, ?d, Some (ename (?S ! j)))" using r(1) lk less(6) Some by (simp add: dir_readdir_def)
    have q: "volume fa A s1" "contents ?a s1 = contents ?a s" using r(2) less(3) by (simp_all add: quiet_def)
    have "length (slots (contents (dinode ?d) s1)) - Suc j < length ?S - i" using q(2) j(1,2) by simp
    from less(1) [OF this q(1)] obtain s' where s': "list_dir mem ?d s1 = Some (s', ?d\<lparr>dpos := 32 * int (length ?S)\<rparr>, map ename (filter shown (drop (Suc j) ?S)))"
      "quiet fa A s1 s'" using less(3,4,5) j(2) q(2) by auto
    show ?thesis using rd s'(1) j(3) quiet_trans [OF r(2) s'(2)] by (subst list_dir.simps) simp
  qed
qed

text \<open>
  C17: listing a directory from its start ends, and shows the names of all entries in use, in the order of their slots, once each and without
  the names \<^verbatim>\<open>.\<close> and \<^verbatim>\<open>..\<close>; the names shown are those of the map.
\<close>

theorem dir_readdir_lists:
  assumes "volume fa A s" "dinode d \<in> A" "\<not> dir_lock d" "dir_ok (contents (dinode d) s)" "dpos d = 0"
  shows "\<exists>s' d' ns. list_dir mem d s = Some (s', d', ns) \<and> ns = map ename (filter shown (slots (contents (dinode d) s))) \<and>
    distinct ns \<and> set ns = dom (dir_map (contents (dinode d) s)) - {[46], [46, 46]} \<and> volume fa A s'"
proof -
  let ?c = "contents (dinode d) s" let ?S = "slots (contents (dinode d) s)"
  obtain s' d' where l: "list_dir mem d s = Some (s', d', map ename (filter shown ?S))" "volume fa A s'"
    using list_dir_from [OF assms(1-4), of 0 mem] assms(5) by (auto simp: quiet_def)
  have u: "i = j" if "i < length ?S" "j < length ?S" "shown (?S ! i)" "shown (?S ! j)" "ename (?S ! i) = ename (?S ! j)" for i j
    using that assms(4) by (simp add: dir_ok_def shown_def names_def)
  have "distinct (map ename (filter shown xs))" if "\<forall>i < length xs. \<forall>j < length xs. shown (xs ! i) \<longrightarrow> shown (xs ! j) \<longrightarrow> ename (xs ! i) = ename (xs ! j) \<longrightarrow> i = j" for xs
    using that
  proof (induction xs)
    case (Cons x xs)
    have "ename y \<noteq> ename x" if y: "shown x" "shown y" "y \<in> set xs" for y
    proof
      assume e: "ename y = ename x"
      obtain k where "k < length xs" "xs ! k = y" using y(3) by (auto simp: in_set_conv_nth)
      then show False using Cons.prems [rule_format, of 0 "Suc k"] y(1,2) e by simp
    qed
    moreover have "distinct (map ename (filter shown xs))" using Cons.prems by (intro Cons.IH) fastforce
    ultimately show ?case by (cases "shown x") fastforce+
  qed simp
  then have ds: "distinct (map ename (filter shown ?S))" using u by blast
  have "set (map ename (filter shown ?S)) = dom (dir_map ?c) - {[46], [46, 46]}"
    by (auto simp: dir_map_def dom_def shown_def names_def find_Some_iff2 find_None_iff split: option.splits)
  then show ?thesis using l ds by blast
qed

theorem dir_readdir_lists_witness:
  "\<exists>s s' d'. volume 0 {1, 5} s \<and> list_dir (\<lambda>_. True) small_dir s = Some (s', d', [[97]])"
proof -
  from small_named obtain s where s: "volume 0 {1, 5} s" "dir_ok (contents 1 s)" "dir_map (contents 1 s) = [[97] \<mapsto> 5]" by blast
  from dir_readdir_lists [OF s(1), of small_dir "\<lambda>_. True"] s(2,3) obtain s' d' ns where
    l: "list_dir (\<lambda>_. True) small_dir s = Some (s', d', ns)" "distinct ns" "set ns = {[97]}" by auto
  then have "length ns = 1" using distinct_card [OF l(2)] by simp
  then have "ns = [[97]]" using l(3) by (cases ns) auto
  then show ?thesis using s(1) l(1) by blast
qed

end
