(* ===== verification/Stdlib.thy ===== *)
theory Stdlib
  imports Prelude
begin

text \<open>
  \<^verbatim>\<open>src/Project5/src/lib/stdlib.c\<close>: heap sort and binary search on arrays of bytes, and the conversion
  of strings to integers. An array of \<open>cnt\<close> elements of \<open>size\<close> bytes is a list of bytes; indices are
  \<^verbatim>\<open>size_t\<close> values, with the wrap-around of products written out, and an access outside the array is
  \<^term>\<open>None\<close>. A comparison function receives the bytes of two elements; the auxiliary data is part of
  the function.
\<close>

section \<open>Sorting\<close>

type_synonym compare = "u8 list \<Rightarrow> u8 list \<Rightarrow> int"

definition byte_at :: "u8 list \<Rightarrow> nat \<Rightarrow> u8 option" where
  "byte_at xs i = (if i < length xs then Some (xs ! i) else None)"

definition set_byte :: "u8 list \<Rightarrow> nat \<Rightarrow> u8 \<Rightarrow> u8 list option" where
  "set_byte xs i v = (if i < length xs then Some (xs[i := v]) else None)"

definition elem_at :: "u8 list \<Rightarrow> nat \<Rightarrow> nat \<Rightarrow> u8 list option" where
  "elem_at array p sz = (if p + sz \<le> length array then Some (take sz (drop p array)) else None)"

text \<open>The loop of \<^verbatim>\<open>do_swap\<close> from byte \<open>i\<close>, with \<open>n\<close> bytes left.\<close>

fun swap_loop :: "u8 list \<Rightarrow> nat \<Rightarrow> nat \<Rightarrow> nat \<Rightarrow> nat \<Rightarrow> u8 list option" where
  "swap_loop array a b i 0 = Some array"
| "swap_loop array a b i (Suc n) = do {
     t \<leftarrow> byte_at array (a + i);
     bi \<leftarrow> byte_at array (b + i);
     array \<leftarrow> set_byte array (a + i) bi;
     array \<leftarrow> set_byte array (b + i) t;
     swap_loop array a b (i + 1) n }"

definition do_swap :: "u8 list \<Rightarrow> nat \<Rightarrow> nat \<Rightarrow> nat \<Rightarrow> u8 list option" where
  "do_swap array a_idx b_idx sz =
     (let a = (a_idx - 1) * sz; b = (b_idx - 1) * sz in swap_loop array a b 0 sz)"

definition do_compare :: "u8 list \<Rightarrow> nat \<Rightarrow> nat \<Rightarrow> nat \<Rightarrow> compare \<Rightarrow> int option" where
  "do_compare array a_idx b_idx sz compare = do {
     a \<leftarrow> elem_at array ((a_idx - 1) * sz) sz;
     b \<leftarrow> elem_at array ((b_idx - 1) * sz) sz;
     Some (compare a b) }"

text \<open>One comparison of \<^verbatim>\<open>heapify\<close>: the greater of the element at \<open>max\<close> and the child \<open>c\<close>, if there is one.\<close>

definition greater_child :: "u8 list \<Rightarrow> nat \<Rightarrow> nat \<Rightarrow> nat \<Rightarrow> nat \<Rightarrow> compare \<Rightarrow> nat option" where
  "greater_child array c mx cnt sz compare =
     (if c \<le> cnt then do { r \<leftarrow> do_compare array c mx sz compare; Some (if r > 0 then c else mx) }
      else Some mx)"

partial_function (option) heapify :: "u8 list \<Rightarrow> nat \<Rightarrow> nat \<Rightarrow> nat \<Rightarrow> compare \<Rightarrow> u8 list option" where
  "heapify array i cnt sz compare = do {
     let left = (2 * i) mod 2 ^ 32;
     let right = (2 * i + 1) mod 2 ^ 32;
     mx \<leftarrow> greater_child array left i cnt sz compare;
     mx \<leftarrow> greater_child array right mx cnt sz compare;
     if mx = i then Some array
     else do {
       array \<leftarrow> do_swap array i mx sz;
       heapify array mx cnt sz compare } }"

fun build_heap :: "u8 list \<Rightarrow> nat \<Rightarrow> nat \<Rightarrow> nat \<Rightarrow> compare \<Rightarrow> u8 list option" where
  "build_heap array 0 cnt sz compare = Some array"
| "build_heap array (Suc i) cnt sz compare = do {
     array \<leftarrow> heapify array (Suc i) cnt sz compare;
     build_heap array i cnt sz compare }"

fun sort_heap :: "u8 list \<Rightarrow> nat \<Rightarrow> nat \<Rightarrow> compare \<Rightarrow> u8 list option" where
  "sort_heap array 0 sz compare = Some array"
| "sort_heap array (Suc 0) sz compare = Some array"
| "sort_heap array (Suc (Suc i)) sz compare = do {
     array \<leftarrow> do_swap array 1 (Suc (Suc i)) sz;
     array \<leftarrow> heapify array 1 (Suc i) sz compare;
     sort_heap array (Suc i) sz compare }"

definition sort_array :: "u8 list \<Rightarrow> nat \<Rightarrow> nat \<Rightarrow> compare \<Rightarrow> u8 list option" where
  "sort_array array cnt sz compare = do {
     ASSERT (sz > 0);
     array \<leftarrow> build_heap array (cnt div 2) cnt sz compare;
     sort_heap array cnt sz compare }"

definition qsort :: "u8 list \<Rightarrow> nat \<Rightarrow> nat \<Rightarrow> compare \<Rightarrow> u8 list option" where
  "qsort array cnt sz compare = sort_array array cnt sz compare"

section \<open>Searching\<close>

lemma middle_less: "0 < sz \<Longrightarrow> (d div sz) div 2 * sz < d" if "0 < d" for d sz :: nat
proof -
  assume "0 < sz"
  show ?thesis
  proof (cases "d div sz = 0")
    case False
    then have "(d div sz) div 2 < d div sz" by simp
    then have "(d div sz) div 2 * sz < d div sz * sz" using \<open>0 < sz\<close> by simp
    also have "\<dots> \<le> d" by simp
    finally show ?thesis .
  qed (use that in simp)
qed

text \<open>
  Pointers into the array are offsets. The result is the offset of a match, or \<^term>\<open>None\<close> inside the
  \<open>Some\<close> for a null pointer; a division by zero stops the machine.
\<close>

function search_loop :: "u8 list \<Rightarrow> u8 list \<Rightarrow> nat \<Rightarrow> nat \<Rightarrow> nat \<Rightarrow> compare \<Rightarrow> nat option option" where
  "search_loop key array first final sz compare =
     (if first < final then
        if sz = 0 then None
        else do {
          let rng = (final - first) div sz;
          let middle = first + rng div 2 * sz;
          m \<leftarrow> elem_at array middle sz;
          let cmp = compare key m;
          if cmp < 0 then search_loop key array first middle sz compare
          else if cmp > 0 then search_loop key array (middle + sz) final sz compare
          else Some (Some middle) }
      else Some None)"
  by pat_completeness auto

termination
proof (relation "measure (\<lambda>(key, array, first, final, sz, compare). final - first)", goal_cases)
  case (2 key array first final sz compare rng middle m cmp)
  then show ?case using middle_less [of "final - first" sz] by simp
qed auto

definition binary_search :: "u8 list \<Rightarrow> u8 list \<Rightarrow> nat \<Rightarrow> nat \<Rightarrow> compare \<Rightarrow> nat option option" where
  "binary_search key array cnt sz compare = search_loop key array 0 (sz * cnt) sz compare"

definition bsearch :: "u8 list \<Rightarrow> u8 list \<Rightarrow> nat \<Rightarrow> nat \<Rightarrow> compare \<Rightarrow> nat option option" where
  "bsearch key array cnt sz compare = binary_search key array cnt sz compare"

section \<open>Strings to integers\<close>

text \<open>A string is the bytes from its start; it must contain a terminator, else the read leaves the memory.\<close>

definition isspace :: "int \<Rightarrow> bool" where
  "isspace c \<longleftrightarrow> c = 32 \<or> c = 12 \<or> c = 10 \<or> c = 13 \<or> c = 9 \<or> c = 11"

definition isdigit :: "int \<Rightarrow> bool" where
  "isdigit c \<longleftrightarrow> c \<ge> 48 \<and> c \<le> 57"

fun skip_space :: "u8 list \<Rightarrow> u8 list" where
  "skip_space [] = []"
| "skip_space (c # s) = (if isspace (uint c) then skip_space s else c # s)"

fun parse_digits :: "u8 list \<Rightarrow> u32 \<Rightarrow> u32 option" where
  "parse_digits [] v = None"
| "parse_digits (c # s) v = (if isdigit (sint c) then parse_digits s (v * 10 - of_int (sint c - 48)) else Some v)"

definition atoi :: "u8 list \<Rightarrow> int option" where
  "atoi s = do {
     let s = skip_space s;
     (c, _) \<leftarrow> (case s of [] \<Rightarrow> None | c # s \<Rightarrow> Some (c, s));
     let negative = (c = 45);
     let s = (if c = 43 \<or> c = 45 then tl s else s);
     v \<leftarrow> parse_digits s 0;
     Some (sint (if \<not> negative then - v else v)) }"

section \<open>Arrays as sequences of elements\<close>

definition rep :: "nat \<Rightarrow> u8 list \<Rightarrow> u8 list list \<Rightarrow> bool" where
  "rep sz array xs \<longleftrightarrow> array = concat xs \<and> (\<forall>x \<in> set xs. length x = sz)"

lemma rep_length: "rep sz array xs \<Longrightarrow> length array = length xs * sz"
  unfolding rep_def by (induction xs arbitrary: array) auto

lemma rep_drop:
  "rep sz array xs \<Longrightarrow> k \<le> length xs \<Longrightarrow> drop (k * sz) array = concat (drop k xs)"
proof (induction k arbitrary: xs array)
  case (Suc k)
  then obtain x ys where xs: "xs = x # ys" by (cases xs) auto
  then have "rep sz (concat ys) ys" "length x = sz" "array = x @ concat ys" using Suc.prems(1) by (auto simp: rep_def)
  with Suc.IH [of "concat ys" ys] Suc.prems(2) xs show ?case by (simp add: add.commute)
qed (simp add: rep_def)

lemma elem_at_ok:
  assumes "rep sz array xs" "k < length xs"
  shows "elem_at array (k * sz) sz = Some (xs ! k)"
proof -
  have "drop (k * sz) array = xs ! k @ concat (drop (Suc k) xs)"
    using rep_drop [OF assms(1), of k] assms(2) Cons_nth_drop_Suc [OF assms(2)] by (metis concat.simps(2) less_imp_le)
  moreover have "length (xs ! k) = sz" using assms by (simp add: rep_def)
  moreover have "k * sz + sz \<le> length array"
    using mult_le_mono1 [of "Suc k" "length xs" sz] assms(2) by (simp add: rep_length [OF assms(1)])
  ultimately show ?thesis by (simp add: elem_at_def)
qed

lemma rep_nth:
  assumes "rep sz array xs" "j < length array"
  shows "array ! j = xs ! (j div sz) ! (j mod sz)" and "j div sz < length xs" and "0 < sz"
proof -
  have l: "length array = length xs * sz" using rep_length [OF assms(1)] .
  then show sz: "0 < sz" using assms(2) by (cases sz) auto
  then show k: "j div sz < length xs" using assms(2) l by (simp add: less_mult_imp_div_less)
  have "array ! j = drop (j div sz * sz) array ! (j mod sz)"
    using le_trans [OF div_times_less_eq_dividend [of j sz] less_imp_le [OF assms(2)]] by (subst nth_drop) simp_all
  also have "\<dots> = xs ! (j div sz) ! (j mod sz)"
  proof -
    have "xs ! (j div sz) = take sz (drop (j div sz * sz) array)"
      using elem_at_ok [OF assms(1) k] by (simp add: elem_at_def split: if_splits)
    with mod_less_divisor [OF sz] show ?thesis by simp
  qed
  finally show "array ! j = xs ! (j div sz) ! (j mod sz)" .
qed

lemma rep_eqI:
  assumes "length array = length xs * sz" "\<forall>x \<in> set xs. length x = sz"
    "\<And>j. j < length array \<Longrightarrow> array ! j = xs ! (j div sz) ! (j mod sz)"
  shows "rep sz array xs"
proof -
  have c: "rep sz (concat xs) xs" using assms(2) by (simp add: rep_def)
  have "array = concat xs"
    by (rule nth_equalityI) (use assms rep_length [OF c] rep_nth(1) [OF c] in auto)
  with c show ?thesis by simp
qed

lemma swap_loop_ok:
  "a + (i + n) \<le> length array \<Longrightarrow> b + (i + n) \<le> length array \<Longrightarrow> a + (i + n) \<le> b \<or> b + (i + n) \<le> a \<Longrightarrow>
   \<exists>array'. swap_loop array a b i n = Some array' \<and> length array' = length array \<and>
     (\<forall>j < length array. array' ! j = (if a + i \<le> j \<and> j < a + (i + n) then array ! (b + (j - a))
        else if b + i \<le> j \<and> j < b + (i + n) then array ! (a + (j - b)) else array ! j))"
proof (induction n arbitrary: array i)
  case (Suc n)
  let ?arr = "array[a + i := array ! (b + i), b + i := array ! (a + i)]"
  have "swap_loop array a b i (Suc n) = swap_loop ?arr a b (i + 1) n"
    using Suc.prems by (simp add: byte_at_def set_byte_def)
  moreover obtain array' where array': "swap_loop ?arr a b (i + 1) n = Some array'" "length array' = length array"
    "\<forall>j < length array. array' ! j = (if a + (i + 1) \<le> j \<and> j < a + (i + 1 + n) then ?arr ! (b + (j - a))
        else if b + (i + 1) \<le> j \<and> j < b + (i + 1 + n) then ?arr ! (a + (j - b)) else ?arr ! j)"
    using Suc.IH [where array = ?arr and i = "i + 1"] Suc.prems by auto
  moreover have "array' ! j = (if a + i \<le> j \<and> j < a + (i + Suc n) then array ! (b + (j - a))
        else if b + i \<le> j \<and> j < b + (i + Suc n) then array ! (a + (j - b)) else array ! j)" if j: "j < length array" for j
  proof -
    have d: "a + i \<noteq> b + i" using Suc.prems(3) by auto
    have arr: "?arr ! m = (if m = b + i then array ! (a + i) else if m = a + i then array ! (b + i) else array ! m)" if "m < length array" for m
      using that d Suc.prems by (simp add: nth_list_update)
    consider "j = a + i" | "j = b + i" | "a + i < j" "j < a + (i + Suc n)" | "b + i < j" "j < b + (i + Suc n)"
      | "j < a + i \<or> a + (i + Suc n) \<le> j" "j < b + i \<or> b + (i + Suc n) \<le> j"
      by linarith
    then show ?thesis
    proof cases
      case 3
      then have "b + (j - a) < length array" "b + (j - a) \<noteq> b + i" "b + (j - a) \<noteq> a + i" using Suc.prems by linarith+
      with 3 array'(3) j show ?thesis by (simp add: arr)
    next
      case 4
      then have in_b: "a + (j - b) < length array" "a + (j - b) \<noteq> b + i" "a + (j - b) \<noteq> a + i" using Suc.prems by linarith+
      have out_a: "j < a + i \<or> a + (i + Suc n) \<le> j" using 4 Suc.prems(3) by linarith
      then have "array' ! j = ?arr ! (a + (j - b))" using 4 array'(3) j by (elim disjE) simp_all
      with 4 in_b out_a show ?thesis by (elim disjE) (simp_all add: arr)
    next
      case 5
      then have "j \<noteq> a + i" "j \<noteq> b + i" by linarith+
      with 5 array'(3) j show ?thesis by (elim disjE) (simp_all add: arr)
    next
      case 1
      with Suc.prems(3) array'(3) j d show ?thesis by (elim disjE) (simp_all add: arr)
    next
      case 2
      with Suc.prems(3) array'(3) j d show ?thesis by (elim disjE) (simp_all add: arr)
    qed
  qed
  ultimately show ?case by auto
qed auto

lemma block_iff: "0 < sz \<Longrightarrow> k * sz \<le> j \<and> j < k * sz + sz \<longleftrightarrow> j div sz = k" for k sz j :: nat
proof
  assume "k * sz \<le> j \<and> j < k * sz + sz"
  then show "j div sz = k" by (intro div_nat_eqI) (auto simp: mult.commute)
next
  assume "0 < sz" "j div sz = k"
  then show "k * sz \<le> j \<and> j < k * sz + sz"
    using div_times_less_eq_dividend [of j sz] dividend_less_div_times [of sz j] by auto
qed

lemma do_swap_ok:
  assumes r: "rep sz array xs" and i: "a < length xs" "b < length xs" "a \<noteq> b"
  shows "\<exists>array'. do_swap array (Suc a) (Suc b) sz = Some array' \<and> rep sz array' (xs[a := xs ! b, b := xs ! a])"
proof -
  have l: "length array = length xs * sz" using rep_length [OF r] .
  have "Suc k * sz \<le> length array" if "k < length xs" for k
    unfolding l using that by (intro mult_le_mono1) simp
  then have le: "a * sz + (0 + sz) \<le> length array" "b * sz + (0 + sz) \<le> length array"
    using i by (simp_all add: add.commute)
  have dis: "a * sz + (0 + sz) \<le> b * sz \<or> b * sz + (0 + sz) \<le> a * sz"
    using i(3) mult_le_mono1 [of "Suc a" b sz] mult_le_mono1 [of "Suc b" a sz]
    by (cases a b rule: linorder_cases) (simp_all add: add.commute)
  obtain array' where array': "swap_loop array (a * sz) (b * sz) 0 sz = Some array'" "length array' = length array"
     "\<forall>j < length array. array' ! j = (if a * sz + 0 \<le> j \<and> j < a * sz + (0 + sz) then array ! (b * sz + (j - a * sz))
        else if b * sz + 0 \<le> j \<and> j < b * sz + (0 + sz) then array ! (a * sz + (j - b * sz)) else array ! j)"
    using swap_loop_ok [OF le dis] by blast
  have "rep sz array' (xs[a := xs ! b, b := xs ! a])"
  proof (rule rep_eqI)
    show "\<forall>x \<in> set (xs[a := xs ! b, b := xs ! a]). length x = sz"
      using r i by (auto simp: rep_def in_set_conv_nth nth_list_update)
    fix j assume "j < length array'"
    then have j: "j < length array" using array'(2) by simp
    note sz = rep_nth(3) [OF r j]
    have nth: "array ! (k * sz + (j - k' * sz)) = xs ! k ! (j mod sz)" if "k < length xs" "j div sz = k'" for k k'
    proof -
      have "j - k' * sz = j mod sz" using that(2) by (auto simp: minus_div_mult_eq_mod)
      moreover have "k * sz + j mod sz < length array"
        using le_trans [OF _ mult_le_mono1 [of "Suc k" "length xs" sz]] that(1) sz l mod_less_divisor [OF sz, of j]
        by (metis Suc_leI add.commute add_less_cancel_right less_le_trans mult_Suc mult_le_mono1)
      ultimately show ?thesis
        using rep_nth(1) [OF r, of "k * sz + j mod sz"] sz by (simp add: div_mult_self3 mod_mult_self3)
    qed
    show "array' ! j = xs[a := xs ! b, b := xs ! a] ! (j div sz) ! (j mod sz)"
      using array'(3) [rule_format, OF j] block_iff [OF sz, of a j] block_iff [OF sz, of b j] nth [of b a] nth [of a b]
        rep_nth(1,2) [OF r j] i by (auto simp: nth_list_update)
  qed (use array'(2) l in simp)
  with array'(1) show ?thesis by (auto simp: do_swap_def)
qed

section \<open>Heap sort\<close>

text \<open>
  The contract of a comparison function: a \<^verbatim>\<open>strcmp\<close>-type result of a total preorder. Such a function
  gives a strict weak order.
\<close>

locale compare_func =
  fixes cmp :: "'a \<Rightarrow> 'a \<Rightarrow> int"
  assumes sign: "cmp a b > 0 \<longleftrightarrow> cmp b a < 0"
    and trans: "cmp a b \<le> 0 \<Longrightarrow> cmp b c \<le> 0 \<Longrightarrow> cmp a c \<le> 0"

sublocale compare_func \<subseteq> less_func "\<lambda>a b. cmp a b < 0"
proof
  fix a b c
  show "cmp a b < 0 \<Longrightarrow> \<not> cmp b a < 0" using sign [of b a] by auto
  show "\<not> cmp b a < 0 \<Longrightarrow> \<not> cmp c b < 0 \<Longrightarrow> \<not> cmp c a < 0"
    using trans [of a b c] sign [of a b] sign [of b c] sign [of a c] by (auto simp: not_less)
qed

text \<open>
  \<open>above cmp xs j c\<close>: the element with 1-based index \<open>c\<close> is not greater than the one with index \<open>j\<close>.
  In a heap this holds for every element and its children.
\<close>

definition above :: "('a \<Rightarrow> 'a \<Rightarrow> int) \<Rightarrow> 'a list \<Rightarrow> nat \<Rightarrow> nat \<Rightarrow> bool" where
  "above cmp xs j c \<longleftrightarrow> \<not> cmp (xs ! (c - 1)) (xs ! (j - 1)) > 0"

definition heap_from :: "('a \<Rightarrow> 'a \<Rightarrow> int) \<Rightarrow> 'a list \<Rightarrow> nat \<Rightarrow> nat \<Rightarrow> bool" where
  "heap_from cmp xs lo cnt \<longleftrightarrow> (\<forall>c. c \<le> cnt \<longrightarrow> lo \<le> c div 2 \<longrightarrow> above cmp xs (c div 2) c)"

text \<open>A heap except that the element with index \<open>i\<close> may be too small.\<close>

definition heap_but :: "('a \<Rightarrow> 'a \<Rightarrow> int) \<Rightarrow> 'a list \<Rightarrow> nat \<Rightarrow> nat \<Rightarrow> nat \<Rightarrow> bool" where
  "heap_but cmp xs lo cnt i \<longleftrightarrow>
     (\<forall>c. c \<le> cnt \<longrightarrow> lo \<le> c div 2 \<longrightarrow> c div 2 \<noteq> i \<longrightarrow> above cmp xs (c div 2) c) \<and>
     (\<forall>c. c \<le> cnt \<longrightarrow> c div 2 = i \<longrightarrow> lo \<le> i div 2 \<longrightarrow> above cmp xs (i div 2) c)"

context compare_func
begin

lemma above_trans: "above cmp xs a b \<Longrightarrow> above cmp xs b c \<Longrightarrow> above cmp xs a c"
  unfolding above_def using trans by (auto simp: not_less)

lemma above_refl: "above cmp xs a a"
  unfolding above_def using sign [of "xs ! (a - 1)" "xs ! (a - 1)"] by linarith

lemma above_total: "above cmp xs a b \<or> above cmp xs b a"
  unfolding above_def using sign [of "xs ! (a - 1)" "xs ! (b - 1)"] by linarith

text \<open>The root of a heap is a greatest element.\<close>

lemma heap_root:
  assumes "heap_from cmp xs 1 cnt" "1 \<le> c" "c \<le> cnt"
  shows "above cmp xs 1 c"
  using assms(2,3)
proof (induction c rule: less_induct)
  case (less c)
  show ?case
  proof (cases "c = 1")
    case False
    then have "1 \<le> c div 2" "c div 2 < c" using less.prems by auto
    with less.IH [of "c div 2"] less.prems(2) have "above cmp xs 1 (c div 2)" by simp
    moreover have "above cmp xs (c div 2) c"
      using assms(1) less.prems(2) \<open>1 \<le> c div 2\<close> by (simp add: heap_from_def)
    ultimately show ?thesis by (rule above_trans)
  qed (simp add: above_refl)
qed

text \<open>Exchanging the element that may be too small with its greatest child moves the defect down.\<close>

lemma heap_but_swap:
  assumes but: "heap_but cmp xs lo cnt i" and lo: "1 \<le> lo" "lo \<le> i" and m: "m div 2 = i" "m \<le> cnt" "cnt \<le> length xs"
    and greater: "\<not> above cmp xs i m" and greatest: "\<And>c. c \<le> cnt \<Longrightarrow> c div 2 = i \<Longrightarrow> above cmp xs m c"
  shows "heap_but cmp (xs[i - 1 := xs ! (m - 1), m - 1 := xs ! (i - 1)]) lo cnt m"
proof -
  let ?ys = "xs[i - 1 := xs ! (m - 1), m - 1 := xs ! (i - 1)]"
  define f where "f k = (if k = i then m else if k = m then i else k)" for k
  have im: "1 \<le> i" "i < m" using lo m by auto
  have nth: "?ys ! (k - 1) = xs ! (f k - 1)" if "1 \<le> k" "k \<le> cnt" for k
    using that im m by (auto simp: f_def nth_list_update)
  have ab: "above cmp ?ys j c = above cmp xs (f j) (f c)" if "1 \<le> j" "j \<le> cnt" "1 \<le> c" "c \<le> cnt" for j c
    unfolding above_def nth [OF that(1,2)] nth [OF that(3,4)] by (rule refl)
  have mi: "above cmp xs m i" using greater above_total by blast
  show ?thesis
    unfolding heap_but_def
  proof (intro conjI allI impI)
    fix c assume c: "c \<le> cnt" "lo \<le> c div 2" "c div 2 \<noteq> m"
    have rng: "1 \<le> c div 2" "c div 2 \<le> cnt" "1 \<le> c" using c lo by linarith+
    have "above cmp xs (f (c div 2)) (f c)"
    proof (cases "c div 2 = i")
      case True
      then have "f (c div 2) = m" "c \<noteq> i" using im rng by (auto simp: f_def)
      then show ?thesis
        using greatest [of c] c True mi by (auto simp: f_def)
    next
      case False
      then have p: "f (c div 2) = c div 2" using c(3) by (simp add: f_def)
      show ?thesis
      proof (cases "c = i")
        case True
        then have "f c = m" by (simp add: f_def)
        moreover have "above cmp xs (i div 2) m"
          using but True c(2) m by (auto simp: heap_but_def)
        ultimately show ?thesis using p True by simp
      next
        case c_i: False
        then have "f c = c" using False m by (auto simp: f_def)
        then show ?thesis using p but c False by (auto simp: heap_but_def)
      qed
    qed
    then show "above cmp ?ys (c div 2) c" using ab rng c(1) by simp
  next
    fix c assume c: "c \<le> cnt" "c div 2 = m" "lo \<le> m div 2"
    have "c \<noteq> i" "c \<noteq> m" using im c by auto
    then have f: "f c = c" "f (m div 2) = m" using m by (auto simp: f_def)
    have "above cmp xs m c" using but c im m lo by (auto simp: heap_but_def)
    then show "above cmp ?ys (m div 2) c"
      using ab [of "m div 2" c] f c im m by auto
  qed
qed

text \<open>The choice among an element and its two children.\<close>

lemma max_child:
  assumes "m1 = (if 2 * i \<le> cnt \<and> \<not> above cmp xs i (2 * i) then 2 * i else i)"
    "m2 = (if 2 * i + 1 \<le> cnt \<and> \<not> above cmp xs m1 (2 * i + 1) then 2 * i + 1 else m1)" "1 \<le> i"
  shows "c \<le> cnt \<Longrightarrow> c div 2 = i \<Longrightarrow> above cmp xs m2 c"
    and "m2 \<noteq> i \<Longrightarrow> m2 div 2 = i \<and> m2 \<le> cnt \<and> \<not> above cmp xs i m2"
proof -
  assume c: "c \<le> cnt" "c div 2 = i"
  then consider "c = 2 * i" | "c = 2 * i + 1" by linarith
  then show "above cmp xs m2 c"
  proof cases
    case 1
    then have "above cmp xs m1 c" using assms(1) c(1) above_refl by auto
    then show ?thesis using assms(2) above_total above_trans by (metis (no_types, lifting))
  next
    case 2
    then show ?thesis using assms(2) c(1) above_refl by auto
  qed
next
  assume m2: "m2 \<noteq> i"
  have "\<not> above cmp xs i m2"
  proof
    assume i: "above cmp xs i m2"
    then have "m2 = 2 * i + 1" "\<not> above cmp xs m1 (2 * i + 1)" using assms m2 by (auto split: if_splits)
    moreover from this have "above cmp xs m2 m1" using above_total by auto
    ultimately show False using i above_trans [of xs i m2 m1] assms(1) by (auto split: if_splits)
  qed
  then show "m2 div 2 = i \<and> m2 \<le> cnt \<and> \<not> above cmp xs i m2" using assms m2 by (auto split: if_splits)
qed

end

lemma greater_child_ok:
  assumes "rep sz array xs" "cnt \<le> length xs" "1 \<le> c" "1 \<le> m" "m \<le> length xs"
  shows "greater_child array c m cnt sz cmp = Some (if c \<le> cnt \<and> \<not> above cmp xs m c then c else m)"
  using elem_at_ok [OF assms(1), of "c - 1"] elem_at_ok [OF assms(1), of "m - 1"] assms
  by (auto simp: greater_child_def do_compare_def above_def)

lemma mset_take_swap:
  assumes "a < cnt" "b < cnt" "cnt \<le> length xs"
  shows "mset (take cnt (xs[a := xs ! b, b := xs ! a])) = mset (take cnt xs)"
proof -
  have "take cnt (xs[a := xs ! b, b := xs ! a]) = (take cnt xs)[a := take cnt xs ! b, b := take cnt xs ! a]"
    using assms by (simp add: take_update_swap)
  then show ?thesis using mset_swap [of b "take cnt xs" a] assms by simp
qed

lemma heapify_ok:
  assumes cmp: "compare_func cmp"
  shows "rep sz array xs \<Longrightarrow> cnt \<le> length xs \<Longrightarrow> cnt < 2 ^ 31 \<Longrightarrow> 1 \<le> lo \<Longrightarrow> lo \<le> i \<Longrightarrow> i \<le> cnt \<Longrightarrow> heap_but cmp xs lo cnt i \<Longrightarrow>
    \<exists>array' xs'. heapify array i cnt sz cmp = Some array' \<and> rep sz array' xs' \<and> heap_from cmp xs' lo cnt \<and>
      length xs' = length xs \<and> drop cnt xs' = drop cnt xs \<and> mset (take cnt xs') = mset (take cnt xs)"
proof (induction "cnt - i" arbitrary: array xs i rule: less_induct)
  case less
  define m1 where "m1 = (if 2 * i \<le> cnt \<and> \<not> above cmp xs i (2 * i) then 2 * i else i)"
  define m2 where "m2 = (if 2 * i + 1 \<le> cnt \<and> \<not> above cmp xs m1 (2 * i + 1) then 2 * i + 1 else m1)"
  have i: "1 \<le> i" using less.prems by simp
  have m1: "1 \<le> m1" "m1 \<le> length xs" using less.prems i by (auto simp: m1_def)
  have lr: "(2 * i) mod 2 ^ 32 = 2 * i" "(2 * i + 1) mod 2 ^ 32 = 2 * i + 1" using less.prems by simp_all
  have step: "heapify array i cnt sz cmp = (if m2 = i then Some array
      else do { array \<leftarrow> do_swap array i m2 sz; heapify array m2 cnt sz cmp })"
  proof -
    have "greater_child array (2 * i) i cnt sz cmp = Some m1" "greater_child array (2 * i + 1) m1 cnt sz cmp = Some m2"
      unfolding m2_def using greater_child_ok [OF less.prems(1,2)] i m1 less.prems(2,6) by (simp_all add: m1_def)
    then show ?thesis unfolding heapify.simps [of array i] lr Let_def by simp
  qed
  note mx = compare_func.max_child [OF cmp m1_def m2_def i]
  show ?case
  proof (cases "m2 = i")
    case True
    have "heap_from cmp xs lo cnt"
      using less.prems(7) mx(1) True by (auto simp: heap_from_def heap_but_def)
    with True step less.prems(1) show ?thesis by auto
  next
    case False
    then have m2: "m2 div 2 = i" "m2 \<le> cnt" "\<not> above cmp xs i m2" using mx(2) by auto
    then have lt: "i < m2" "Suc (i - 1) = i" "Suc (m2 - 1) = m2" using i by auto
    let ?xs = "xs[i - 1 := xs ! (m2 - 1), m2 - 1 := xs ! (i - 1)]"
    obtain array1 where array1: "do_swap array i m2 sz = Some array1" "rep sz array1 ?xs"
    proof -
      have "i - 1 < length xs" "m2 - 1 < length xs" "i - 1 \<noteq> m2 - 1" using lt m2(2) less.prems(2,6) by linarith+
      from do_swap_ok [OF less.prems(1) this] that show ?thesis unfolding lt by blast
    qed
    have hb: "heap_but cmp ?xs lo cnt m2"
      by (rule compare_func.heap_but_swap [OF cmp less.prems(7,4,5) m2(1,2) less.prems(2) m2(3)]) (rule mx(1))
    obtain array' xs' where ih: "heapify array1 m2 cnt sz cmp = Some array'" "rep sz array' xs'" "heap_from cmp xs' lo cnt"
      "length xs' = length ?xs" "drop cnt xs' = drop cnt ?xs" "mset (take cnt xs') = mset (take cnt ?xs)"
      using less.hyps [OF _ array1(2) _ less.prems(3,4) _ m2(2) hb] lt(1) m2(2) less.prems(2,5)
      unfolding length_list_update by (meson diff_less_mono2 le_trans less_imp_le less_le_trans)
    have "drop cnt ?xs = drop cnt xs" "mset (take cnt ?xs) = mset (take cnt xs)"
      using mset_take_swap [of "i - 1" cnt "m2 - 1" xs] lt m2(2) less.prems(2) by (simp_all add: drop_update_cancel)
    with False step array1(1) ih show ?thesis by (intro exI [of _ array'] exI [of _ xs']) simp
  qed
qed

lemma heap_but_start: "heap_from cmp xs (Suc i) cnt \<Longrightarrow> heap_but cmp xs i cnt i" if "1 \<le> i"
  using that by (auto simp: heap_from_def heap_but_def)

lemma build_heap_ok:
  assumes cmp: "compare_func cmp"
  shows "rep sz array xs \<Longrightarrow> cnt \<le> length xs \<Longrightarrow> cnt < 2 ^ 31 \<Longrightarrow> i \<le> cnt \<Longrightarrow> heap_from cmp xs (Suc i) cnt \<Longrightarrow>
    \<exists>array' xs'. build_heap array i cnt sz cmp = Some array' \<and> rep sz array' xs' \<and> heap_from cmp xs' 1 cnt \<and>
      length xs' = length xs \<and> drop cnt xs' = drop cnt xs \<and> mset (take cnt xs') = mset (take cnt xs)"
proof (induction i arbitrary: array xs)
  case (Suc i)
  obtain array1 ys where 1: "heapify array (Suc i) cnt sz cmp = Some array1" "rep sz array1 ys" "heap_from cmp ys (Suc i) cnt"
    "length ys = length xs" "drop cnt ys = drop cnt xs" "mset (take cnt ys) = mset (take cnt xs)"
    using heapify_ok [OF cmp Suc.prems(1-3), of "Suc i" "Suc i"] heap_but_start [OF _ Suc.prems(5)] Suc.prems(4) by auto
  from Suc.IH [OF 1(2) _ Suc.prems(3) _ 1(3)] 1 Suc.prems(2,4) show ?case by auto
qed auto

lemma heap_but_root:
  assumes "heap_from cmp xs 1 (Suc n)" "1 \<le> n" "Suc n \<le> length xs"
  shows "heap_but cmp (xs[0 := xs ! n, n := xs ! 0]) 1 n 1"
proof -
  have "above cmp (xs[0 := xs ! n, n := xs ! 0]) (c div 2) c" if "c \<le> n" "1 \<le> c div 2" "c div 2 \<noteq> 1" for c
  proof -
    have "0 \<noteq> c - 1" "n \<noteq> c - 1" "0 \<noteq> c div 2 - 1" "n \<noteq> c div 2 - 1" using that by linarith+
    then show ?thesis using assms(1) that by (simp add: above_def heap_from_def)
  qed
  then show ?thesis by (auto simp: heap_but_def)
qed

lemma sort_heap_ok:
  assumes cmp: "compare_func cmp"
  shows "rep sz array xs \<Longrightarrow> n \<le> length xs \<Longrightarrow> n < 2 ^ 31 \<Longrightarrow> heap_from cmp xs 1 n \<Longrightarrow>
    sorted_wrt (\<lambda>a b. \<not> cmp a b > 0) (drop n xs) \<Longrightarrow> (\<forall>a \<in> set (take n xs). \<forall>b \<in> set (drop n xs). \<not> cmp a b > 0) \<Longrightarrow>
    \<exists>array' xs'. sort_heap array n sz cmp = Some array' \<and> rep sz array' xs' \<and> sorted_wrt (\<lambda>a b. \<not> cmp a b > 0) xs' \<and> mset xs' = mset xs"
proof (induction n arbitrary: array xs)
  case (Suc m)
  show ?case
  proof (cases m)
    case 0
    with Suc.prems show ?thesis by (cases xs) auto
  next
    case m: (Suc n)
    note prems = Suc.prems [unfolded m]
    let ?n = "Suc n" and ?ys = "xs[0 := xs ! Suc n, Suc n := xs ! 0]"
    obtain array1 where array1: "do_swap array 1 (Suc ?n) sz = Some array1" "rep sz array1 ?ys"
    proof -
      have "0 < length xs" "Suc n < length xs" "0 \<noteq> Suc n" using prems(2) by linarith+
      from do_swap_ok [OF prems(1) this] that show ?thesis by auto
    qed
    have hb: "heap_but cmp ?ys 1 ?n 1" using heap_but_root [OF prems(4)] prems(2) by simp
    have n: "?n \<le> length ?ys" "?n < 2 ^ 31" "1 \<le> ?n" using prems(2,3) by simp_all
    obtain array2 zs where
      z: "heapify array1 1 ?n sz cmp = Some array2" "rep sz array2 zs" "heap_from cmp zs 1 ?n"
      "length zs = length ?ys" "drop ?n zs = drop ?n ?ys" "mset (take ?n zs) = mset (take ?n ?ys)"
      using heapify_ok [OF cmp array1(2) n(1,2) order_refl order_refl n(3) hb] by blast
    have ys: "drop ?n ?ys = xs ! 0 # drop (Suc ?n) xs"
      using Cons_nth_drop_Suc [of ?n ?ys] prems(2) by (simp add: drop_update_cancel)
    have split: "mset us = mset (take ?n us) + mset (drop ?n us)" for us :: "u8 list list"
      by (metis append_take_drop_id mset_append)
    have "mset ?ys = mset xs" using prems(2) by (intro mset_swap) auto
    then have mz: "mset zs = mset xs" using split [of zs] split [of ?ys] z(5,6) by simp
    have sub: "set (take ?n ?ys) \<subseteq> set (take (Suc ?n) xs)"
      using mset_eq_setD [OF mset_take_swap [of 0 "Suc ?n" ?n xs]] prems(2) set_take_subset_set_take [of ?n "Suc ?n" ?ys] by simp
    have root: "\<not> cmp a (xs ! 0) > 0" if a: "a \<in> set (take (Suc ?n) xs)" for a
    proof -
      obtain k where "k < Suc ?n" "a = xs ! k" using a by (auto simp: in_set_conv_nth)
      then show ?thesis
        using compare_func.heap_root [OF cmp prems(4), of "Suc k"] by (simp add: above_def)
    qed
    have set_z: "set (take ?n zs) = set (take ?n ?ys)" using mset_eq_setD [OF z(6)] .
    have x0: "xs ! 0 \<in> set (take (Suc ?n) xs)" using prems(2) by (cases xs) auto
    have "sorted_wrt (\<lambda>a b. \<not> cmp a b > 0) (drop ?n zs)"
      using prems(5,6) x0 unfolding z(5) ys by simp
    moreover have "\<forall>a \<in> set (take ?n zs). \<forall>b \<in> set (drop ?n zs). \<not> cmp a b > 0"
      using prems(6) root sub unfolding z(5) ys set_z by auto
    ultimately obtain array' xs' where "sort_heap array2 ?n sz cmp = Some array'" "rep sz array' xs'"
      "sorted_wrt (\<lambda>a b. \<not> cmp a b > 0) xs'" "mset xs' = mset zs"
      using Suc.IH [unfolded m, OF z(2) _ _ z(3)] prems(2,3) z(4) by auto
    with array1(1) z(1) mz m show ?thesis by auto
  qed
qed auto

lemma sort_array_ok:
  assumes "compare_func cmp" "0 < sz" "rep sz array xs" "length xs < 2 ^ 31"
  shows "\<exists>array' xs'. sort_array array (length xs) sz cmp = Some array' \<and> rep sz array' xs' \<and>
    sorted_wrt (\<lambda>a b. cmp a b \<le> 0) xs' \<and> mset xs' = mset xs"
proof -
  have "heap_from cmp xs (Suc (length xs div 2)) (length xs)"
    unfolding heap_from_def using div_le_mono [of _ "length xs" 2] by (auto simp: Suc_le_eq not_less [symmetric])
  from build_heap_ok [OF assms(1,3) _ assms(4) _ this] obtain array1 ys where
    1: "build_heap array (length xs div 2) (length xs) sz cmp = Some array1" "rep sz array1 ys" "heap_from cmp ys 1 (length xs)"
    "length ys = length xs" "mset ys = mset xs"
    by (auto dest: sym [of "length _"])
  have "length ys < 2 ^ 31" using 1(4) assms(4) by simp
  with sort_heap_ok [OF assms(1) 1(2), of "length ys"] 1(3,4) obtain array' xs' where
    "sort_heap array1 (length ys) sz cmp = Some array'" "rep sz array' xs'"
    "sorted_wrt (\<lambda>a b. \<not> cmp a b > 0) xs'" "mset xs' = mset ys"
    by auto
  with 1 assms(2) show ?thesis by (auto simp: sort_array_def not_less)
qed

section \<open>Binary search\<close>

declare search_loop.simps [simp del]

lemma search_loop_ok:
  assumes "rep sz array xs" "0 < sz" "compare_func cmp" "sorted_wrt (\<lambda>a b. cmp a b \<le> 0) xs"
  shows "lo \<le> hi \<Longrightarrow> hi \<le> length xs \<Longrightarrow> \<forall>k < lo. cmp key (xs ! k) > 0 \<Longrightarrow> \<forall>k. hi \<le> k \<and> k < length xs \<longrightarrow> cmp key (xs ! k) < 0 \<Longrightarrow>
    \<exists>r. search_loop key array (lo * sz) (hi * sz) sz cmp = Some r \<and>
      (case r of None \<Rightarrow> \<forall>x \<in> set xs. cmp key x \<noteq> 0 | Some p \<Rightarrow> \<exists>k < length xs. p = k * sz \<and> cmp key (xs ! k) = 0)"
proof (induction "hi - lo" arbitrary: lo hi rule: less_induct)
  case less
  show ?case
  proof (cases "lo < hi")
    case False
    then have "cmp key (xs ! k) \<noteq> 0" if "k < length xs" for k
      using less.prems(3) [rule_format, of k] less.prems(4) [rule_format, of k] that by (cases "k < lo") auto
    then have "\<forall>x \<in> set xs. cmp key x \<noteq> 0" by (auto simp: in_set_conv_nth)
    moreover have "search_loop key array (lo * sz) (hi * sz) sz cmp = Some None"
      using False by (simp add: search_loop.simps)
    ultimately show ?thesis by auto
  next
    case True
    define mid where "mid = lo + (hi - lo) div 2"
    have mid: "lo \<le> mid" "mid < hi" "mid < length xs" using True less.prems(2) by (auto simp: mid_def)
    have "(hi * sz - lo * sz) div sz = hi - lo" using assms(2) by (simp flip: diff_mult_distrib)
    then have m: "lo * sz + (hi * sz - lo * sz) div sz div 2 * sz = mid * sz"
      by (simp add: mid_def add_mult_distrib)
    have step: "search_loop key array (lo * sz) (hi * sz) sz cmp =
      (let c = cmp key (xs ! mid) in if c < 0 then search_loop key array (lo * sz) (mid * sz) sz cmp
       else if c > 0 then search_loop key array (Suc mid * sz) (hi * sz) sz cmp else Some (Some (mid * sz)))"
      using True assms(2) by (subst search_loop.simps) (simp only: m Let_def elem_at_ok [OF assms(1) mid(3)], simp add: add.commute)
    have le: "cmp (xs ! a) (xs ! b) \<le> 0" if "a < b" "b < length xs" for a b
      using assms(4) that by (simp add: sorted_wrt_iff_nth_less)
    note lf = assms(3) [THEN compare_func.trans] and sign = assms(3) [THEN compare_func.sign]
    consider "cmp key (xs ! mid) < 0" | "cmp key (xs ! mid) > 0" | "cmp key (xs ! mid) = 0" by linarith
    then show ?thesis
    proof cases
      case 1
      have "cmp key (xs ! k) < 0" if "mid \<le> k" "k < length xs" for k
      proof (rule ccontr)
        assume "\<not> cmp key (xs ! k) < 0"
        then have k: "cmp (xs ! k) key \<le> 0" using sign [of key "xs ! k"] sign [of "xs ! k" key] by linarith
        show False
        proof (cases "k = mid")
          case False
          then have "cmp (xs ! mid) key \<le> 0" using lf [OF le k] that by simp
          then show False using 1 sign [of "xs ! mid" key] by linarith
        qed (use 1 \<open>\<not> cmp key (xs ! k) < 0\<close> in simp)
      qed
      with less.hyps [of mid lo] less.prems(3) mid step 1 show ?thesis by simp
    next
      case 2
      have "cmp key (xs ! k) > 0" if "k < Suc mid" for k
      proof (cases "k = mid")
        case False
        have "\<not> cmp key (xs ! k) \<le> 0"
          using lf [OF _ le, of key k mid] that False mid(3) 2 by auto
        then show ?thesis by simp
      qed (use 2 in simp)
      with less.hyps [of hi "Suc mid"] less.prems(2,4) mid step 2 show ?thesis by simp
    next
      case 3
      with step mid(3) show ?thesis by auto
    qed
  qed
qed

section \<open>Decimal numbers\<close>

text \<open>The decimal digits of a number, as the reference for the conversion.\<close>

fun digits :: "nat \<Rightarrow> u8 list" where
  "digits n = (if n < 10 then [of_nat (48 + n)] else digits (n div 10) @ [of_nat (48 + n mod 10)])"

declare digits.simps [simp del]

lemma sint_digit: "d < 10 \<Longrightarrow> sint (of_nat (48 + d) :: u8) = 48 + int d"
proof -
  assume d: "d < 10"
  then have "d \<in> {0, 1, 2, 3, 4, 5, 6, 7, 8, 9}" by auto
  then show ?thesis by (elim insertE) simp_all
qed

lemma parse_digits_ok: "parse_digits (digits n @ s) v = parse_digits s (v * 10 ^ length (digits n) - of_nat n)"
proof (induction n arbitrary: s v rule: digits.induct)
  case (1 n)
  show ?case
  proof (cases "n < 10")
    case True
    then show ?thesis using sint_digit [OF True] by (simp add: digits.simps isdigit_def)
  next
    case False
    have "n mod 10 < 10" "n mod 10 \<le> 9" by simp_all
    have dm: "of_nat n = (of_nat (n div 10) * 10 + of_nat (n mod 10) :: u32)"
      by (metis div_mult_mod_eq of_nat_add of_nat_mult of_nat_numeral)
    from False 1 sint_digit [OF \<open>n mod 10 < 10\<close>] \<open>n mod 10 \<le> 9\<close> show ?thesis
      by (simp add: digits.simps [of n] isdigit_def dm algebra_simps)
  qed
qed

lemma digits_hd: "\<exists>d < 10. \<exists>ds. digits n = of_nat (48 + d) # ds"
proof (induction n rule: digits.induct)
  case (1 n)
  then show ?case by (cases "n < 10") (auto simp: digits.simps [of n])
qed

lemma skip_space_ok: "\<forall>c \<in> set sp. isspace (uint c) \<Longrightarrow> \<not> isspace (uint c) \<Longrightarrow> skip_space (sp @ c # s) = c # s"
  by (induction sp) auto

lemma sint_u32: "- (2 ^ 31) \<le> i \<Longrightarrow> i < 2 ^ 31 \<Longrightarrow> sint (of_int i :: u32) = i"
  by (simp add: signed_of_int signed_take_bit_int_eq_self)

lemma atoi_ok:
  assumes "\<forall>c \<in> set sp. isspace (uint c)" "\<not> isdigit (sint c)"
  shows "n < 2 ^ 31 \<Longrightarrow> sign \<in> {[], [43]} \<Longrightarrow> atoi (sp @ sign @ digits n @ c # rest) = Some (int n)"
    and "n \<le> 2 ^ 31 \<Longrightarrow> atoi (sp @ 45 # digits n @ c # rest) = Some (- int n)"
proof -
  obtain d ds where d: "d < 10" "digits n = of_nat (48 + d) # ds" using digits_hd by blast
  have p: "parse_digits (digits n @ c # rest) 0 = Some (- of_nat n)"
    using assms(2) by (simp add: parse_digits_ok)
  have d': "of_nat (48 + d) \<noteq> (43 :: u8)" "of_nat (48 + d) \<noteq> (45 :: u8)" "\<not> isspace (uint (of_nat (48 + d) :: u8))"
  proof -
    from d(1) have "d \<in> {0, 1, 2, 3, 4, 5, 6, 7, 8, 9}" by auto
    then show "of_nat (48 + d) \<noteq> (43 :: u8)" "of_nat (48 + d) \<noteq> (45 :: u8)" "\<not> isspace (uint (of_nat (48 + d) :: u8))"
      by (elim insertE; simp add: isspace_def)+
  qed
  have pos: "sint (of_nat n :: u32) = int n" if "n < 2 ^ 31" using sint_u32 [of "int n"] that by simp
  have neg: "sint (- of_nat n :: u32) = - int n" if "n \<le> 2 ^ 31" using sint_u32 [of "- int n"] that by simp
  show "atoi (sp @ sign @ digits n @ c # rest) = Some (int n)" if n: "n < 2 ^ 31" "sign \<in> {[], [43]}"
  proof -
    consider "sign = []" | "sign = [43]" using n(2) by blast
    then show ?thesis
    proof cases
      case 1
      then have "skip_space (sp @ sign @ digits n @ c # rest) = digits n @ c # rest"
        using skip_space_ok [OF assms(1) d'(3)] d(2) by simp
      then show ?thesis using p d d' pos [OF n(1)] unfolding atoi_def by simp
    next
      case 2
      then have "skip_space (sp @ sign @ digits n @ c # rest) = 43 # digits n @ c # rest"
        using skip_space_ok [OF assms(1), of 43] by (simp add: isspace_def)
      then show ?thesis using p pos [OF n(1)] unfolding atoi_def by simp
    qed
  qed
  show "atoi (sp @ 45 # digits n @ c # rest) = Some (- int n)" if "n \<le> 2 ^ 31"
  proof -
    have "skip_space (sp @ 45 # digits n @ c # rest) = 45 # digits n @ c # rest"
      using skip_space_ok [OF assms(1), of 45] by (simp add: isspace_def)
    then show ?thesis using p neg [OF that] unfolding atoi_def by simp
  qed
qed

section \<open>Properties\<close>

text \<open>
  C36: the array sort terminates on every array of fewer than \<open>2 ^ 31\<close> elements and every comparison
  function that meets its contract, and leaves the same elements in ascending order.
\<close>

theorem sort_correct:
  assumes "compare_func cmp" "0 < sz" "rep sz array xs" "length xs < 2 ^ 31"
  shows "\<exists>array' xs'. sort_array array (length xs) sz cmp = Some array' \<and> rep sz array' xs' \<and>
    sorted_wrt (\<lambda>a b. cmp a b \<le> 0) xs' \<and> mset xs' = mset xs"
  using assms by (rule sort_array_ok)

text \<open>Comparison by the first byte.\<close>

definition first_byte :: compare where
  "first_byte a b = uint (hd a) - uint (hd b)"

lemma compare_func_first_byte: "compare_func first_byte"
  by unfold_locales (auto simp: first_byte_def)

theorem sort_correct_witness:
  "\<exists>array' xs'. sort_array [3, 0, 1, 7, 2, 9] (length [[3, 0], [1, 7], [2, 9 :: u8]]) 2 first_byte = Some array' \<and> rep 2 array' xs' \<and>
    sorted_wrt (\<lambda>a b. first_byte a b \<le> 0) xs' \<and> mset xs' = mset [[3, 0], [1, 7], [2, 9]]"
  by (rule sort_correct [OF compare_func_first_byte]) (simp_all add: rep_def)

text \<open>
  C37: binary search of a sorted array terminates; it returns the address of a matching element, and
  null exactly when there is none.
\<close>

theorem binary_search_correct:
  assumes "compare_func cmp" "0 < sz" "rep sz array xs" "sorted_wrt (\<lambda>a b. cmp a b \<le> 0) xs"
  shows "\<exists>r. binary_search key array (length xs) sz cmp = Some r \<and>
    (case r of None \<Rightarrow> \<forall>x \<in> set xs. cmp key x \<noteq> 0 | Some p \<Rightarrow> \<exists>k < length xs. p = k * sz \<and> cmp key (xs ! k) = 0)"
  using search_loop_ok [OF assms(3,2,1,4), of 0 "length xs" key] by (simp add: binary_search_def mult.commute)

theorem binary_search_correct_witness:
  "\<exists>r. binary_search [2, 5] [1, 0, 2, 0, 3, 0] (length [[1, 0], [2, 0], [3, 0 :: u8]]) 2 first_byte = Some r \<and>
    (case r of None \<Rightarrow> \<forall>x \<in> set [[1, 0], [2, 0], [3, 0]]. first_byte [2, 5] x \<noteq> 0
     | Some p \<Rightarrow> \<exists>k < length [[1, 0], [2, 0], [3, 0 :: u8]]. p = k * 2 \<and> first_byte [2, 5] ([[1, 0], [2, 0], [3, 0]] ! k) = 0)"
  by (rule binary_search_correct [OF compare_func_first_byte]) (simp_all add: rep_def first_byte_def)

text \<open>
  Reading back the decimal digits of every number an \<^verbatim>\<open>int\<close> can hold, the smallest one included,
  behind any white space and an optional sign, and followed by anything that is not a digit, gives
  the number.
\<close>

theorem atoi_roundtrip:
  assumes "\<forall>c \<in> set sp. isspace (uint c)" "\<not> isdigit (sint c)" "- (2 ^ 31) \<le> i" "i < 2 ^ 31"
  shows "atoi (sp @ (if i < 0 then [45] else []) @ digits (nat \<bar>i\<bar>) @ c # rest) = Some i"
  using atoi_ok(1) [OF assms(1,2), of "nat \<bar>i\<bar>" "[]" rest] atoi_ok(2) [OF assms(1,2), of "nat \<bar>i\<bar>" rest] assms(3,4)
  by (auto simp: nat_less_iff nat_le_iff)

theorem atoi_roundtrip_witness:
  "atoi ([32, 9] @ (if - (2 ^ 31) < (0 :: int) then [45] else []) @ digits (nat \<bar>- (2 ^ 31)\<bar>) @ 0 # []) = Some (- (2 ^ 31))"
  by (rule atoi_roundtrip) (simp_all add: isspace_def isdigit_def)

end
