(* ===== verification/CString.thy ===== *)
theory CString
  imports Stdlib
begin

text \<open>
  \<^verbatim>\<open>src/Project5/src/lib/string.c\<close>: blocks of memory and zero-terminated strings. The memory is a
  function from addresses to bytes, and a pointer an address. The loops over strings end at a zero
  byte; a string without one makes them run on, so they are partial functions.
\<close>

section \<open>Blocks\<close>

type_synonym mem = "nat \<Rightarrow> u8"

text \<open>\<^verbatim>\<open>while (size-- > 0) *dst++ = *src++;\<close>\<close>

fun copy_up :: "mem \<Rightarrow> ptr \<Rightarrow> ptr \<Rightarrow> nat \<Rightarrow> mem" where
  "copy_up m dst src 0 = m"
| "copy_up m dst src (Suc n) = copy_up (m(dst := m src)) (dst + 1) (src + 1) n"

text \<open>\<^verbatim>\<open>while (size-- > 0) *--dst = *--src;\<close>\<close>

fun copy_down :: "mem \<Rightarrow> ptr \<Rightarrow> ptr \<Rightarrow> nat \<Rightarrow> mem" where
  "copy_down m dst src 0 = m"
| "copy_down m dst src (Suc n) = copy_down (m(dst - 1 := m (src - 1))) (dst - 1) (src - 1) n"

definition memcpy :: "mem \<Rightarrow> ptr \<Rightarrow> ptr \<Rightarrow> nat \<Rightarrow> (mem \<times> ptr) option" where
  "memcpy m dst src n = do {
     ASSERT (dst \<noteq> NULL \<or> n = 0);
     ASSERT (src \<noteq> NULL \<or> n = 0);
     Some (copy_up m dst src n, dst) }"

text \<open>The result is the moving pointer, which the forward loop leaves behind the block.\<close>

definition memmove :: "mem \<Rightarrow> ptr \<Rightarrow> ptr \<Rightarrow> nat \<Rightarrow> (mem \<times> ptr) option" where
  "memmove m dst src n = do {
     ASSERT (dst \<noteq> NULL \<or> n = 0);
     ASSERT (src \<noteq> NULL \<or> n = 0);
     if dst < src then Some (copy_up m dst src n, dst + n)
     else Some (copy_down m (dst + n) (src + n) n, dst) }"

fun memcmp_loop :: "mem \<Rightarrow> ptr \<Rightarrow> ptr \<Rightarrow> nat \<Rightarrow> int" where
  "memcmp_loop m a b 0 = 0"
| "memcmp_loop m a b (Suc n) =
     (if m a \<noteq> m b then (if m a > m b then 1 else -1) else memcmp_loop m (a + 1) (b + 1) n)"

definition memcmp :: "mem \<Rightarrow> ptr \<Rightarrow> ptr \<Rightarrow> nat \<Rightarrow> int option" where
  "memcmp m a b n = do {
     ASSERT (a \<noteq> NULL \<or> n = 0);
     ASSERT (b \<noteq> NULL \<or> n = 0);
     Some (memcmp_loop m a b n) }"

fun memchr_loop :: "mem \<Rightarrow> ptr \<Rightarrow> u8 \<Rightarrow> nat \<Rightarrow> ptr" where
  "memchr_loop m block ch 0 = NULL"
| "memchr_loop m block ch (Suc n) = (if m block = ch then block else memchr_loop m (block + 1) ch n)"

definition memchr :: "mem \<Rightarrow> ptr \<Rightarrow> int \<Rightarrow> nat \<Rightarrow> ptr option" where
  "memchr m block ch n = do {
     ASSERT (block \<noteq> NULL \<or> n = 0);
     Some (memchr_loop m block (of_int ch) n) }"

fun memset_loop :: "mem \<Rightarrow> ptr \<Rightarrow> u8 \<Rightarrow> nat \<Rightarrow> mem" where
  "memset_loop m dst v 0 = m"
| "memset_loop m dst v (Suc n) = memset_loop (m(dst := v)) (dst + 1) v n"

definition memset :: "mem \<Rightarrow> ptr \<Rightarrow> int \<Rightarrow> nat \<Rightarrow> (mem \<times> ptr) option" where
  "memset m dst v n = do {
     ASSERT (dst \<noteq> NULL \<or> n = 0);
     Some (memset_loop m dst (of_int v) n, dst) }"

section \<open>Strings\<close>

partial_function (option) strcmp_loop :: "mem \<Rightarrow> ptr \<Rightarrow> ptr \<Rightarrow> int option" where
  "strcmp_loop m a b =
     (if m a \<noteq> 0 \<and> m a = m b then strcmp_loop m (a + 1) (b + 1)
      else Some (if m a < m b then -1 else if m a > m b then 1 else 0))"

definition strcmp :: "mem \<Rightarrow> ptr \<Rightarrow> ptr \<Rightarrow> int option" where
  "strcmp m a b = do { ASSERT (a \<noteq> NULL); ASSERT (b \<noteq> NULL); strcmp_loop m a b }"

partial_function (option) strchr_loop :: "mem \<Rightarrow> ptr \<Rightarrow> u8 \<Rightarrow> ptr option" where
  "strchr_loop m s c =
     (if m s = c then Some s else if m s = 0 then Some NULL else strchr_loop m (s + 1) c)"

definition strchr :: "mem \<Rightarrow> ptr \<Rightarrow> u8 \<Rightarrow> ptr option" where
  "strchr m s c = do { ASSERT (s \<noteq> NULL); strchr_loop m s c }"

partial_function (option) strlen_loop :: "mem \<Rightarrow> ptr \<Rightarrow> ptr option" where
  "strlen_loop m p = (if m p \<noteq> 0 then strlen_loop m (p + 1) else Some p)"

definition strlen :: "mem \<Rightarrow> ptr \<Rightarrow> nat option" where
  "strlen m s = do { ASSERT (s \<noteq> NULL); p \<leftarrow> strlen_loop m s; Some (p - s) }"

fun strnlen_loop :: "mem \<Rightarrow> ptr \<Rightarrow> nat \<Rightarrow> nat" where
  "strnlen_loop m s 0 = 0"
| "strnlen_loop m s (Suc n) = (if m s \<noteq> 0 then Suc (strnlen_loop m (s + 1) n) else 0)"

definition strnlen :: "mem \<Rightarrow> ptr \<Rightarrow> nat \<Rightarrow> nat" where
  "strnlen m s maxlen = strnlen_loop m s maxlen"

text \<open>
  The loop of \<^verbatim>\<open>strcspn\<close> and \<^verbatim>\<open>strspn\<close>: the length of the initial part whose characters are
  (\<open>skip\<close>) or are not in the given set.
\<close>

partial_function (option) span_loop :: "bool \<Rightarrow> mem \<Rightarrow> ptr \<Rightarrow> ptr \<Rightarrow> nat \<Rightarrow> nat option" where
  "span_loop skip m s chars len =
     (if m (s + len) \<noteq> 0 then do {
        p \<leftarrow> strchr m chars (m (s + len));
        if (p \<noteq> NULL) \<noteq> skip then Some len else span_loop skip m s chars (len + 1) }
      else Some len)"

definition strcspn :: "mem \<Rightarrow> ptr \<Rightarrow> ptr \<Rightarrow> nat option" where
  "strcspn m s stop = span_loop False m s stop 0"

definition strspn :: "mem \<Rightarrow> ptr \<Rightarrow> ptr \<Rightarrow> nat option" where
  "strspn m s skip = span_loop True m s skip 0"

partial_function (option) strpbrk :: "mem \<Rightarrow> ptr \<Rightarrow> ptr \<Rightarrow> ptr option" where
  "strpbrk m s stop =
     (if m s \<noteq> 0 then do {
        p \<leftarrow> strchr m stop (m s);
        if p \<noteq> NULL then Some s else strpbrk m (s + 1) stop }
      else Some NULL)"

partial_function (option) strrchr_loop :: "mem \<Rightarrow> ptr \<Rightarrow> u8 \<Rightarrow> ptr \<Rightarrow> ptr option" where
  "strrchr_loop m s c p =
     (if m s \<noteq> 0 then strrchr_loop m (s + 1) c (if m s = c then s else p) else Some p)"

definition strrchr :: "mem \<Rightarrow> ptr \<Rightarrow> u8 \<Rightarrow> ptr option" where
  "strrchr m s c = strrchr_loop m s c NULL"

text \<open>The loop of \<^verbatim>\<open>strstr\<close> from position \<open>i\<close>, with \<open>n\<close> positions left.\<close>

fun strstr_loop :: "mem \<Rightarrow> ptr \<Rightarrow> ptr \<Rightarrow> nat \<Rightarrow> nat \<Rightarrow> nat \<Rightarrow> ptr option" where
  "strstr_loop m haystack needle needle_len i 0 = Some NULL"
| "strstr_loop m haystack needle needle_len i (Suc n) = do {
     r \<leftarrow> memcmp m (haystack + i) needle needle_len;
     if r = 0 then Some (haystack + i) else strstr_loop m haystack needle needle_len (i + 1) n }"

definition strstr :: "mem \<Rightarrow> ptr \<Rightarrow> ptr \<Rightarrow> ptr option" where
  "strstr m haystack needle = do {
     haystack_len \<leftarrow> strlen m haystack;
     needle_len \<leftarrow> strlen m needle;
     if haystack_len \<ge> needle_len
     then strstr_loop m haystack needle needle_len 0 (haystack_len - needle_len + 1)
     else Some NULL }"

text \<open>The two loops of \<^verbatim>\<open>strtok_r\<close>; the first returns \<^term>\<open>(s, True)\<close> when it meets the end.\<close>

partial_function (option) skip_delimiters :: "mem \<Rightarrow> ptr \<Rightarrow> ptr \<Rightarrow> (ptr \<times> bool) option" where
  "skip_delimiters m s delimiters = do {
     p \<leftarrow> strchr m delimiters (m s);
     if p \<noteq> NULL then if m s = 0 then Some (s, True) else skip_delimiters m (s + 1) delimiters
     else Some (s, False) }"

partial_function (option) skip_token :: "mem \<Rightarrow> ptr \<Rightarrow> ptr \<Rightarrow> ptr option" where
  "skip_token m s delimiters = do {
     p \<leftarrow> strchr m delimiters (m s);
     if p = NULL then skip_token m (s + 1) delimiters else Some s }"

text \<open>\<open>save_ptr\<close> is the value of the variable; the results are the memory, its new value and the token.\<close>

definition strtok_r :: "mem \<Rightarrow> ptr \<Rightarrow> ptr \<Rightarrow> ptr \<Rightarrow> (mem \<times> ptr \<times> ptr) option" where
  "strtok_r m s delimiters save_ptr = do {
     ASSERT (delimiters \<noteq> NULL);
     let s = (if s = NULL then save_ptr else s);
     ASSERT (s \<noteq> NULL);
     (s, ended) \<leftarrow> skip_delimiters m s delimiters;
     if ended then Some (m, s, NULL)
     else do {
       let token = s;
       s \<leftarrow> skip_token m s delimiters;
       if m s \<noteq> 0 then Some (m(s := 0), s + 1, token) else Some (m, s, token) } }"

definition strlcpy :: "mem \<Rightarrow> ptr \<Rightarrow> ptr \<Rightarrow> nat \<Rightarrow> (mem \<times> nat) option" where
  "strlcpy m dst src n = do {
     ASSERT (dst \<noteq> NULL);
     ASSERT (src \<noteq> NULL);
     src_len \<leftarrow> strlen m src;
     if n > 0 then do {
       let dst_len = n - 1;
       let dst_len = (if src_len < dst_len then src_len else dst_len);
       (m, _) \<leftarrow> memcpy m dst src dst_len;
       Some (m(dst + dst_len := 0), src_len) }
     else Some (m, src_len) }"

definition strlcat :: "mem \<Rightarrow> ptr \<Rightarrow> ptr \<Rightarrow> nat \<Rightarrow> (mem \<times> nat) option" where
  "strlcat m dst src n = do {
     ASSERT (dst \<noteq> NULL);
     ASSERT (src \<noteq> NULL);
     src_len \<leftarrow> strlen m src;
     dst_len \<leftarrow> strlen m dst;
     if n > 0 \<and> dst_len < n then do {
       let copy_cnt = n - dst_len - 1;
       let copy_cnt = (if src_len < copy_cnt then src_len else copy_cnt);
       (m, _) \<leftarrow> memcpy m (dst + dst_len) src copy_cnt;
       Some (m(dst + dst_len + copy_cnt := 0), src_len + dst_len) }
     else Some (m, src_len + dst_len) }"

section \<open>Copying\<close>

lemma copy_up_ok:
  "dst \<le> src \<or> src + n \<le> dst \<Longrightarrow> copy_up m dst src n = (\<lambda>a. if a \<in> {dst..<dst + n} then m (src + (a - dst)) else m a)"
proof (induction n arbitrary: m dst src)
  case (Suc n)
  have d: "dst + 1 \<le> src + 1 \<or> src + 1 + n \<le> dst + 1" using Suc.prems by auto
  show ?case
  proof
    fix a
    show "copy_up m dst src (Suc n) a = (if a \<in> {dst..<dst + Suc n} then m (src + (a - dst)) else m a)"
    proof (cases "a \<in> {Suc dst..<dst + Suc n}")
      case True
      then have "src + (a - dst) \<noteq> dst" "src + 1 + (a - (dst + 1)) = src + (a - dst)" using Suc.prems by auto
      with True show ?thesis unfolding copy_up.simps Suc.IH [OF d] by simp
    qed (auto simp: Suc.IH [OF d, simplified])
  qed
qed auto

lemma copy_down_ok:
  "src \<le> dst \<or> dst + n \<le> src \<Longrightarrow> copy_down m (dst + n) (src + n) n = (\<lambda>a. if a \<in> {dst..<dst + n} then m (src + (a - dst)) else m a)"
proof (induction n arbitrary: m)
  case (Suc n)
  have d: "src \<le> dst \<or> dst + n \<le> src" using Suc.prems by auto
  show ?case
  proof
    fix a
    show "copy_down m (dst + Suc n) (src + Suc n) (Suc n) a = (if a \<in> {dst..<dst + Suc n} then m (src + (a - dst)) else m a)"
    proof (cases "a \<in> {dst..<dst + n}")
      case True
      then have "src + (a - dst) \<noteq> dst + n" using Suc.prems by auto
      with True show ?thesis by (simp add: Suc.IH [OF d])
    qed (auto simp: Suc.IH [OF d])
  qed
qed auto

lemma memset_ok: "memset_loop m dst v n = (\<lambda>a. if a \<in> {dst..<dst + n} then v else m a)"
  by (induction n arbitrary: m dst) (auto simp: fun_eq_iff)

section \<open>Strings as sequences of characters\<close>

fun str_at :: "mem \<Rightarrow> ptr \<Rightarrow> u8 list \<Rightarrow> bool" where
  "str_at m p [] \<longleftrightarrow> m p = 0"
| "str_at m p (c # cs) \<longleftrightarrow> c \<noteq> 0 \<and> m p = c \<and> str_at m (p + 1) cs"

lemma str_at_append: "str_at m p (as @ bs) \<longleftrightarrow> 0 \<notin> set as \<and> (\<forall>i < length as. m (p + i) = as ! i) \<and> str_at m (p + length as) bs"
  by (induction as arbitrary: p) (auto simp: All_less_Suc2)

lemma str_at_iff: "str_at m p cs \<longleftrightarrow> 0 \<notin> set cs \<and> (\<forall>i < length cs. m (p + i) = cs ! i) \<and> m (p + length cs) = 0"
  using str_at_append [of m p cs "[]"] by simp

lemma str_at_frame: "(\<And>a. p \<le> a \<Longrightarrow> a \<le> p + length cs \<Longrightarrow> m' a = m a) \<Longrightarrow> str_at m' p cs \<longleftrightarrow> str_at m p cs"
  by (simp add: str_at_iff)

lemma strlen_loop_ok: "str_at m p cs \<Longrightarrow> strlen_loop m p = Some (p + length cs)"
  by (induction cs arbitrary: p) (subst strlen_loop.simps, simp)+

lemma strlen_ok: "str_at m p cs \<Longrightarrow> p \<noteq> NULL \<Longrightarrow> strlen m p = Some (length cs)"
  by (simp add: strlen_def strlen_loop_ok)

text \<open>A search finds a nonzero character exactly when the string has it, and always finds the terminator.\<close>

lemma strchr_loop_ok:
  "str_at m p cs \<Longrightarrow> strchr_loop m p c =
     Some (if c = 0 then p + length cs else if c \<in> set cs then p + length (takeWhile (\<lambda>x. x \<noteq> c) cs) else NULL)"
  by (induction cs arbitrary: p) (subst strchr_loop.simps, auto)+

lemma strchr_ok: "str_at m p cs \<Longrightarrow> p \<noteq> NULL \<Longrightarrow> \<exists>q. strchr m p c = Some q \<and> (q = NULL \<longleftrightarrow> c \<noteq> 0 \<and> c \<notin> set cs)"
  by (simp add: strchr_def strchr_loop_ok)

lemma span_loop_ok:
  assumes "str_at m q ds" "q \<noteq> NULL"
  shows "str_at m (p + k) cs \<Longrightarrow> span_loop skip m p q k = Some (k + length (takeWhile (\<lambda>c. (c \<in> set ds) = skip) cs))"
proof (induction cs arbitrary: k)
  case (Cons c cs)
  obtain r where r: "strchr m q c = Some r" "r = NULL \<longleftrightarrow> c \<noteq> 0 \<and> c \<notin> set ds"
    using strchr_ok [OF assms, of c] by blast
  from Cons.prems have "m (p + k) = c" "c \<noteq> 0" "str_at m (p + (k + 1)) cs" by simp_all
  with r Cons.IH [of "k + 1"] show ?case by (subst span_loop.simps) auto
qed (subst span_loop.simps, simp)

lemma skip_delimiters_ok:
  assumes "str_at m q ds" "q \<noteq> NULL"
  shows "str_at m p cs \<Longrightarrow> skip_delimiters m p q =
     Some (p + length (takeWhile (\<lambda>c. c \<in> set ds) cs), dropWhile (\<lambda>c. c \<in> set ds) cs = [])"
proof (induction cs arbitrary: p)
  case Nil
  then show ?case using strchr_ok [OF assms, of 0] by (subst skip_delimiters.simps) auto
next
  case (Cons c cs)
  obtain r where "strchr m q c = Some r" "r = NULL \<longleftrightarrow> c \<noteq> 0 \<and> c \<notin> set ds"
    using strchr_ok [OF assms, of c] by blast
  with Cons show ?case by (subst skip_delimiters.simps) auto
qed

lemma skip_token_ok:
  assumes "str_at m q ds" "q \<noteq> NULL"
  shows "str_at m p cs \<Longrightarrow> skip_token m p q = Some (p + length (takeWhile (\<lambda>c. c \<notin> set ds) cs))"
proof (induction cs arbitrary: p)
  case Nil
  then show ?case using strchr_ok [OF assms, of 0] by (subst skip_token.simps) auto
next
  case (Cons c cs)
  obtain r where "strchr m q c = Some r" "r = NULL \<longleftrightarrow> c \<noteq> 0 \<and> c \<notin> set ds"
    using strchr_ok [OF assms, of c] by blast
  with Cons show ?case by (subst skip_token.simps) auto
qed

section \<open>Tokens\<close>

text \<open>The reference: maximal nonempty runs of characters that are no delimiters.\<close>

function tokens :: "u8 set \<Rightarrow> u8 list \<Rightarrow> u8 list list" where
  "tokens ds cs = (case dropWhile (\<lambda>c. c \<in> ds) cs of [] \<Rightarrow> []
     | c # cs' \<Rightarrow> (c # takeWhile (\<lambda>c. c \<notin> ds) cs') # tokens ds (dropWhile (\<lambda>c. c \<notin> ds) cs'))"
  by pat_completeness auto
termination
proof (relation "measure (\<lambda>(ds, cs). length cs)", goal_cases)
  case (2 ds cs c cs')
  have "length (dropWhile (\<lambda>c. c \<notin> ds) cs') \<le> length cs'" by (rule length_dropWhile_le)
  also have "length cs' < length (dropWhile (\<lambda>c. c \<in> ds) cs)" using 2 by simp
  also have "\<dots> \<le> length cs" by (rule length_dropWhile_le)
  finally show ?case by simp
qed simp

declare tokens.simps [simp del]

text \<open>One call: the token, what remains behind it, and the memory.\<close>

lemma tokens_Nil: "dropWhile (\<lambda>c. c \<in> ds) cs = [] \<Longrightarrow> tokens ds cs = []"
  by (simp add: tokens.simps del: dropWhile_eq_Nil_conv)

lemma tokens_Cons: "dropWhile (\<lambda>c. c \<in> ds) cs = c # cs' \<Longrightarrow>
    tokens ds cs = (c # takeWhile (\<lambda>c. c \<notin> ds) cs') # tokens ds (dropWhile (\<lambda>c. c \<notin> ds) cs')"
  by (subst tokens.simps) simp

lemma tokens_delimiter: "x \<in> ds \<Longrightarrow> tokens ds (x # xs) = tokens ds xs"
  by (simp add: tokens.simps [of ds "x # xs"] tokens.simps [of ds xs])

lemma strtok_r_end:
  assumes d: "str_at m q ds" "q \<noteq> NULL" and s: "str_at m p cs" "p \<noteq> NULL" "s = p \<or> s = NULL \<and> save = p"
    and none: "dropWhile (\<lambda>c. c \<in> set ds) cs = []"
  shows "strtok_r m s q save = Some (m, p + length cs, NULL)"
proof -
  have "length (takeWhile (\<lambda>c. c \<in> set ds) cs) = length cs" using none by (metis append.right_neutral takeWhile_dropWhile_id)
  moreover have "(if s = NULL then save else s) = p" using s by auto
  ultimately show ?thesis using d(2) s(2) none unfolding strtok_r_def by (simp add: skip_delimiters_ok [OF d s(1)])
qed

lemma strtok_r_token:
  assumes d: "str_at m q ds" "q \<noteq> NULL" and s: "str_at m p cs" "p \<noteq> NULL" "s = p \<or> s = NULL \<and> save = p"
    and some: "dropWhile (\<lambda>c. c \<in> set ds) cs = c # cs'"
  shows "\<exists>m' save' t rest. strtok_r m s q save = Some (m', save', t) \<and> t \<noteq> NULL \<and> p \<le> t \<and> save' \<noteq> NULL \<and>
    str_at m' t (c # takeWhile (\<lambda>c. c \<notin> set ds) cs') \<and> str_at m' save' rest \<and>
    tokens (set ds) rest = tokens (set ds) (dropWhile (\<lambda>c. c \<notin> set ds) cs') \<and> length rest < length cs \<and>
    (t + length (c # takeWhile (\<lambda>c. c \<notin> set ds) cs') < save' \<or> rest = []) \<and> p < save' \<and> save' + length rest = p + length cs \<and>
    (\<forall>a. a \<notin> {p..<p + length cs} \<longrightarrow> m' a = m a)"
proof -
  let ?D = "\<lambda>c. c \<in> set ds" and ?N = "\<lambda>c. c \<notin> set ds"
  let ?pre = "takeWhile ?D cs"
  let ?t = "p + length ?pre" and ?tok = "takeWhile ?N (c # cs')" and ?rest = "dropWhile ?N (c # cs')"
  let ?e = "?t + length ?tok"
  have c: "c \<notin> set ds" using some by (metis dropWhile_eq_Cons_conv)
  have split: "str_at m p (?pre @ ?tok @ ?rest)" using s(1) unfolding takeWhile_dropWhile_id by (simp flip: some)
  then have tok: "0 \<notin> set ?tok" "\<forall>i < length ?tok. m (?t + i) = ?tok ! i" "str_at m ?e ?rest"
    unfolding str_at_append by auto
  have at: "str_at m ?t (c # cs')" using split unfolding str_at_append takeWhile_dropWhile_id by blast
  have "length cs = length (?pre @ ?tok @ ?rest)" unfolding takeWhile_dropWhile_id by (simp flip: some)
  then have len: "?e + length ?rest = p + length cs" by simp
  have s': "(if s = NULL then save else s) = p" using s by auto
  have run: "strtok_r m s q save = (if m ?e \<noteq> 0 then Some (m(?e := 0), ?e + 1, ?t) else Some (m, ?e, ?t))"
    using d(2) s(2) some unfolding strtok_r_def s' by (simp add: skip_delimiters_ok [OF d s(1)] skip_token_ok [OF d at] Let_def del: takeWhile.simps)
  have tok_eq: "?tok = c # takeWhile ?N cs'" using c by simp
  show ?thesis
  proof (cases ?rest)
    case Nil
    then have "m ?e = 0" using tok(3) by simp
    then have "strtok_r m s q save = Some (m, ?e, ?t)" "str_at m ?t ?tok" "str_at m ?e []"
      using run tok by (simp_all add: str_at_iff del: takeWhile.simps)
    moreover have "?e = p + length cs" using len Nil by simp
    moreover have "dropWhile ?N cs' = []" using Nil c by simp
    ultimately show ?thesis
      using c s(2) some unfolding tok_eq
      by - (rule exI [of _ m], rule exI [of _ ?e], rule exI [of _ ?t], rule exI [of _ "[]"], auto simp del: dropWhile_eq_Nil_conv)
  next
    case (Cons x xs)
    then have x: "x \<in> set ds" using dropWhile_eq_Cons_conv [of ?N "c # cs'"] by auto
    let ?m = "m(?e := 0)"
    have at_e: "m ?e \<noteq> 0" "str_at m (?e + 1) xs" using tok(3) Cons by simp_all
    have "strtok_r m s q save = Some (?m, ?e + 1, ?t)" using run at_e(1) by simp
    moreover have "str_at ?m ?t ?tok" using tok(1,2) unfolding str_at_iff by (simp del: takeWhile.simps)
    moreover have "str_at ?m (?e + 1) xs" using at_e(2) by (subst str_at_frame) auto
    moreover have "tokens (set ds) xs = tokens (set ds) (dropWhile ?N cs')"
      using Cons c tokens_delimiter [OF x, of xs] by simp
    moreover have "?e + 1 + length xs = p + length cs" using len Cons by simp
    ultimately show ?thesis
      using c s(2) unfolding tok_eq
      by - (rule exI [of _ ?m], rule exI [of _ "?e + 1"], rule exI [of _ ?t], rule exI [of _ xs], auto)
  qed
qed

text \<open>
  The documented use of \<^verbatim>\<open>strtok_r\<close>: the first call with the string, the others with a null pointer,
  until it returns null. The result is the sequence of the tokens' addresses.
\<close>

partial_function (option) strtok_all :: "mem \<Rightarrow> ptr \<Rightarrow> ptr \<Rightarrow> ptr \<Rightarrow> (mem \<times> ptr list) option" where
  "strtok_all m s delimiters save = do {
     (m, save, token) \<leftarrow> strtok_r m s delimiters save;
     if token = NULL then Some (m, [])
     else do { (m, ts) \<leftarrow> strtok_all m NULL delimiters save; Some (m, token # ts) } }"

lemma strtok_all_ok:
  "str_at m q ds \<Longrightarrow> q \<noteq> NULL \<Longrightarrow> str_at m p cs \<Longrightarrow> p \<noteq> NULL \<Longrightarrow> s = p \<or> s = NULL \<and> save = p \<Longrightarrow>
   q + length ds < p \<or> p + length cs < q \<Longrightarrow>
   \<exists>m' ts. strtok_all m s q save = Some (m', ts) \<and> list_all2 (str_at m') ts (tokens (set ds) cs) \<and>
     (\<forall>a. a \<notin> {p..<p + length cs} \<longrightarrow> m' a = m a)"
proof (induction "length cs" arbitrary: m p cs s save rule: less_induct)
  case less
  show ?case
  proof (cases "dropWhile (\<lambda>c. c \<in> set ds) cs")
    case Nil
    from strtok_r_end [OF less.prems(1-5) Nil] tokens_Nil [OF Nil] show ?thesis
      by (subst strtok_all.simps) auto
  next
    case (Cons c cs')
    let ?tok = "c # takeWhile (\<lambda>c. c \<notin> set ds) cs'"
    obtain m1 save1 t rest where r: "strtok_r m s q save = Some (m1, save1, t)" "t \<noteq> NULL" "p \<le> t" "save1 \<noteq> NULL"
      "str_at m1 t ?tok" "str_at m1 save1 rest"
      "tokens (set ds) rest = tokens (set ds) (dropWhile (\<lambda>c. c \<notin> set ds) cs')" "length rest < length cs"
      "t + length ?tok < save1 \<or> rest = []" "p < save1" "save1 + length rest = p + length cs"
      "\<forall>a. a \<notin> {p..<p + length cs} \<longrightarrow> m1 a = m a"
      using strtok_r_token [OF less.prems(1-5) Cons] by blast
    have ds: "str_at m1 q ds"
      using less.prems(1,6) r(12) by (subst str_at_frame [where m = m]) auto
    have "q + length ds < save1 \<or> save1 + length rest < q" using less.prems(6) r(10,11) by linarith
    then obtain m2 ts where ih: "strtok_all m1 NULL q save1 = Some (m2, ts)" "list_all2 (str_at m2) ts (tokens (set ds) rest)"
      "\<forall>a. a \<notin> {save1..<save1 + length rest} \<longrightarrow> m2 a = m1 a"
      using less.hyps [OF r(8) ds less.prems(2) r(6,4), of NULL save1] by blast
    have "str_at m2 t ?tok"
      using r(5,9) ih(3) by (subst str_at_frame [where m = m1]) auto
    moreover have "strtok_all m s q save = Some (m2, t # ts)"
      using r(1,2) ih(1) by (subst strtok_all.simps) simp
    moreover have "\<forall>a. a \<notin> {p..<p + length cs} \<longrightarrow> m2 a = m a"
      using ih(3) r(10,11,12) by auto
    ultimately show ?thesis using ih(2) r(7) tokens_Cons [OF Cons] by auto
  qed
qed

section \<open>Comparison\<close>

text \<open>The order of strings, on the sequences of characters.\<close>

fun lex_cmp :: "u8 list \<Rightarrow> u8 list \<Rightarrow> int" where
  "lex_cmp [] [] = 0"
| "lex_cmp [] (b # bs) = -1"
| "lex_cmp (a # as) [] = 1"
| "lex_cmp (a # as) (b # bs) = (if a = b then lex_cmp as bs else if a < b then -1 else 1)"

lemma strcmp_loop_ok: "str_at m a as \<Longrightarrow> str_at m b bs \<Longrightarrow> strcmp_loop m a b = Some (lex_cmp as bs)"
proof (induction as bs arbitrary: a b rule: lex_cmp.induct)
  case (4 x as y bs)
  then show ?case by (subst strcmp_loop.simps) auto
qed (subst strcmp_loop.simps, auto simp: word_gt_0)+

lemma lex_cmp_sign: "lex_cmp as bs > 0 \<longleftrightarrow> lex_cmp bs as < 0"
  by (induction as bs rule: lex_cmp.induct) auto

lemma lex_cmp_trans: "lex_cmp as bs \<le> 0 \<Longrightarrow> lex_cmp bs cs \<le> 0 \<Longrightarrow> lex_cmp as cs \<le> 0"
proof (induction as cs arbitrary: bs rule: lex_cmp.induct)
  case (3 a as)
  then show ?case by (cases bs) auto
next
  case (4 a as c cs)
  then show ?case by (cases bs) (auto split: if_splits)
qed auto

lemma lex_cmp_zero: "lex_cmp as bs = 0 \<longleftrightarrow> as = bs"
  by (induction as bs rule: lex_cmp.induct) auto

interpretation sc: compare_func lex_cmp
  by unfold_locales (rule lex_cmp_sign, rule lex_cmp_trans)

section \<open>Properties\<close>

text \<open>
  \<^verbatim>\<open>memmove\<close> copies the old contents of the source to the destination however the two overlap and
  changes nothing else. It returns the destination when that is not below the source, and otherwise
  the address behind it.
\<close>

theorem memmove_overlap:
  assumes "dst \<noteq> NULL" "src \<noteq> NULL"
  shows "memmove m dst src n =
    Some (\<lambda>a. if a \<in> {dst..<dst + n} then m (src + (a - dst)) else m a, if dst < src then dst + n else dst)"
  using assms copy_up_ok [of dst src n m] copy_down_ok [of src dst n m] by (simp add: memmove_def)

theorem memmove_overlap_witness:
  "memmove (\<lambda>a. of_nat a) 10 12 4 =
    Some (\<lambda>a. if a \<in> {10..<10 + 4} then of_nat (12 + (a - 10)) else of_nat a, if 10 < (12 :: nat) then 10 + 4 else 10)"
  by (rule memmove_overlap) simp_all

text \<open>
  C38: the documented loop over \<^verbatim>\<open>strtok_r\<close> terminates and yields exactly the maximal runs of
  characters that are no delimiters, in order, each as a terminated string; nothing outside the
  string is written.
\<close>

theorem strtok_tokens:
  assumes "str_at m q ds" "str_at m p cs" "q \<noteq> NULL" "p \<noteq> NULL" "q + length ds < p \<or> p + length cs < q"
  shows "\<exists>m' ts. strtok_all m p q save = Some (m', ts) \<and> list_all2 (str_at m') ts (tokens (set ds) cs) \<and>
    (\<forall>a. a \<notin> {p..<p + length cs} \<longrightarrow> m' a = m a)"
  using strtok_all_ok [OF assms(1,3,2,4) _ assms(5), of p save] by simp

definition words_mem :: mem where
  "words_mem a = (if 100 \<le> a \<and> a < 107 then [32, 97, 98, 32, 32, 99, 0] ! (a - 100) else if a = 50 then 32 else 0)"

theorem strtok_tokens_witness:
  "\<exists>m' ts. strtok_all words_mem 100 50 0 = Some (m', ts) \<and> list_all2 (str_at m') ts [[97, 98], [99]]"
proof -
  have "tokens (set [32]) [32, 97, 98, 32, 32, 99] = [[97, 98], [99 :: u8]]" by (simp add: tokens.simps)
  moreover have "str_at words_mem 50 [32]" "str_at words_mem 100 [32, 97, 98, 32, 32, 99]"
    by (simp_all add: words_mem_def)
  ultimately show ?thesis
    using strtok_tokens [of words_mem 50 "[32]" 100 "[32, 97, 98, 32, 32, 99]" 0] by auto
qed

text \<open>
  C39: \<^verbatim>\<open>strlcpy\<close> never writes outside the given size, leaves a terminated string with as much of the
  source as fits, and returns the length of the source.
\<close>

theorem strlcpy_bounded:
  assumes "str_at m src cs" "src \<noteq> NULL" "dst \<noteq> NULL" "0 < n" "dst + n \<le> src \<or> src + length cs < dst"
  shows "\<exists>m'. strlcpy m dst src n = Some (m', length cs) \<and> str_at m' dst (take (n - 1) cs) \<and> str_at m' src cs \<and>
    (\<forall>a. a \<notin> {dst..<dst + n} \<longrightarrow> m' a = m a)"
proof -
  define k where "k = (if length cs < n - 1 then length cs else n - 1)"
  let ?m = "(copy_up m dst src k)(dst + k := 0)"
  have k: "k \<le> length cs" "k < n" "length (take (n - 1) cs) = k" using assms(4) by (auto simp: k_def)
  have "dst \<le> src \<or> src + k \<le> dst" using assms(5) k by auto
  note m = copy_up_ok [OF this, of m]
  have "strlcpy m dst src n = Some (?m, length cs)"
    using assms(2-4) strlen_ok [OF assms(1,2)] by (simp add: strlcpy_def memcpy_def Let_def k_def)
  moreover have frame: "\<forall>a. a \<notin> {dst..<dst + n} \<longrightarrow> ?m a = m a" using k by (auto simp: m)
  moreover have "str_at ?m dst (take (n - 1) cs)"
    using assms(1) k unfolding str_at_iff k(3) by (auto simp: m dest: in_set_takeD)
  moreover have "str_at ?m src cs"
  proof (subst str_at_frame [where m = m])
    fix a assume "src \<le> a" "a \<le> src + length cs"
    then have "a \<notin> {dst..<dst + n}" using assms(5) by auto
    with frame show "?m a = m a" by blast
  qed (rule assms(1))
  ultimately show ?thesis by blast
qed

theorem strlcpy_bounded_witness:
  "\<exists>m'. strlcpy words_mem 10 101 3 = Some (m', length [97, 98, 32, 32, 99 :: u8]) \<and> str_at m' 10 (take (3 - 1) [97, 98, 32, 32, 99]) \<and>
    str_at m' 101 [97, 98, 32, 32, 99] \<and> (\<forall>a. a \<notin> {10..<10 + 3} \<longrightarrow> m' a = words_mem a)"
  by (rule strlcpy_bounded) (simp_all add: words_mem_def)

end
