(* ===== verification/Filesys.thy ===== *)
theory Filesys
  imports DirRemove CString
begin

text \<open>
  The file system as a whole: \<^verbatim>\<open>src/Project5/src/filesys/filesys.c\<close>, with the functions of \<^verbatim>\<open>free-map.c\<close> that
  work on the file of the free map. Path names are the bytes of a string without the final 0. The loop over
  \<^verbatim>\<open>strtok_r\<close> is a recursion over the tokens of the path, which is what the theory \<^verbatim>\<open>CString\<close> shows of it.
\<close>

section \<open>The file of the free map\<close>

definition bytes_word :: "u8 list \<Rightarrow> nat \<Rightarrow> u32" where
  "bytes_word bs j = read32 (\<lambda>k. bs ! k) (4 * j)"

text \<open>Opening the file: a null pointer is a panic. Returns the address of its inode.\<close>

definition open_map_file :: "(u32 \<Rightarrow> bool) \<Rightarrow> (fs \<Rightarrow> nat option) \<Rightarrow> bool \<Rightarrow> fs \<Rightarrow> (fs \<times> nat) option" where
  "open_map_file mem alloc room s = do {
     (s, p) \<leftarrow> inode_open mem (alloc s) FREE_MAP_SECTOR s;
     (s, f) \<leftarrow> file_open mem (\<lambda>_ _. None) room p s;
     f \<leftarrow> f;
     Some (s\<lparr>fs_map := (fs_map s)\<lparr>free_map_file := True\<rparr>\<rparr>, finode f) }"

definition free_map_open :: "(u32 \<Rightarrow> bool) \<Rightarrow> (fs \<Rightarrow> nat option) \<Rightarrow> bool \<Rightarrow> fs \<Rightarrow> (fs \<times> nat) option" where
  "free_map_open mem alloc room s = do {
     (s, fa) \<leftarrow> open_map_file mem alloc room s;
     let b = free_map (fs_map s);
     (s, bs) \<leftarrow> (if bit_cnt b > 0 then inode_read_at mem fa (int (byte_cnt (bit_cnt b))) 0 s else Some (s, []));
     let bytes = bs @ map (map_bytes b) [length bs..<byte_cnt (bit_cnt b)];
     (b, ok) \<leftarrow> bitmap_read b (map (bytes_word bytes) [0..<elem_cnt (bit_cnt b)], length bs);
     ASSERT ok;
     Some (s\<lparr>fs_map := (fs_map s)\<lparr>free_map := b\<rparr>\<rparr>, fa) }"

definition free_map_close :: "(u32 \<Rightarrow> bool) \<Rightarrow> map_writer \<Rightarrow> nat \<Rightarrow> fs \<Rightarrow> fs option" where
  "free_map_close mem bw fa s = file_close mem bw (Some \<lparr>finode = fa, pos = 0, deny_write = False, fis_dir = False\<rparr>) s"

text \<open>Before the file exists the map is not written, so the allocations of \<^verbatim>\<open>inode_create\<close> need no writer.\<close>

definition free_map_create :: "(u32 \<Rightarrow> bool) \<Rightarrow> (fs \<Rightarrow> nat option) \<Rightarrow> bool \<Rightarrow> fs \<Rightarrow> (fs \<times> nat) option" where
  "free_map_create mem alloc room s = do {
     (s, ok) \<leftarrow> inode_create mem (\<lambda>_ _. None) room FREE_MAP_SECTOR (int (bitmap_file_size (free_map (fs_map s)))) False s;
     ASSERT ok;
     (s, fa) \<leftarrow> open_map_file mem alloc room s;
     (s, ok) \<leftarrow> bitmap_write mem fa (free_map (fs_map s)) s;
     ASSERT ok;
     Some (s, fa) }"

section \<open>Starting and stopping\<close>

definition do_format :: "(u32 \<Rightarrow> bool) \<Rightarrow> (fs \<Rightarrow> nat option) \<Rightarrow> bool \<Rightarrow> u8 list \<Rightarrow> fs \<Rightarrow> fs option" where
  "do_format mem alloc room junk s = do {
     (s, fa) \<leftarrow> free_map_create mem alloc room s;
     (s, ok) \<leftarrow> dir_create mem (bitmap_write mem fa) alloc room junk ROOT_DIR_SECTOR ROOT_DIR_SECTOR 16 s;
     ASSERT ok;
     free_map_close mem (bitmap_write mem fa) fa s }"

text \<open>
  \<open>words\<close> are the blocks that \<^verbatim>\<open>malloc\<close> finds for the map. The pointer to the file of the map is null at first, and \<^verbatim>\<open>do_format\<close> leaves it
  set when it closes the file.
\<close>

definition filesys_init :: "(u32 \<Rightarrow> bool) \<Rightarrow> (nat \<Rightarrow> u32 list option) \<Rightarrow> (fs \<Rightarrow> nat option) \<Rightarrow> bool \<Rightarrow> u8 list \<Rightarrow> bool \<Rightarrow> fs \<Rightarrow> (fs \<times> nat) option" where
  "filesys_init mem words alloc room junk format s = do {
     let s = inode_init s;
     m \<leftarrow> free_map_init room words (device_size (buffer_cache s));
     let s = s\<lparr>fs_map := m\<rparr>;
     s \<leftarrow> (if format then do_format mem alloc room junk s else Some s);
     free_map_open mem alloc room s }"

definition filesys_done :: "(u32 \<Rightarrow> bool) \<Rightarrow> nat \<Rightarrow> int \<Rightarrow> fs \<Rightarrow> fs option" where
  "filesys_done mem fa t s = do {
     c \<leftarrow> sector_cache_flush True t (buffer_cache s);
     free_map_close mem (bitmap_write mem fa) fa (s\<lparr>buffer_cache := c\<rparr>) }"

section \<open>Paths\<close>

definition MAX_PATH_LEN :: nat where "MAX_PATH_LEN = 256"

definition PATH_DELIM_CHAR :: u8 where "PATH_DELIM_CHAR = 47"

text \<open>The loop of \<^verbatim>\<open>approach_leaf\<close>: \<open>d\<close> and \<open>last\<close> are the directory and the name reached, \<open>ts\<close> the tokens to come.\<close>

fun walk :: "(u32 \<Rightarrow> bool) \<Rightarrow> map_writer \<Rightarrow> (fs \<Rightarrow> nat option) \<Rightarrow> bool \<Rightarrow> dir \<Rightarrow> u8 list \<Rightarrow> u8 list list \<Rightarrow> fs \<Rightarrow> (fs \<times> (dir \<times> u8 list) option) option" where
  "walk mem bw alloc room d last_identifier [] s = Some (s, Some (d, last_identifier))"
| "walk mem bw alloc room d last_identifier (t # ts) s = do {
     (s, d, p) \<leftarrow> dir_lookup mem alloc d last_identifier s;
     s \<leftarrow> dir_close mem bw (Some d) s;
     case p of
       None \<Rightarrow> Some (s, None)
     | Some i \<Rightarrow> do {
         (s, r) \<leftarrow> dir_open mem bw room (Some i) s;
         case r of
           None \<Rightarrow> Some (s, None)
         | Some d \<Rightarrow> walk mem bw alloc room d t ts s } }"

text \<open>
  The last name is copied to an array of \<^verbatim>\<open>NAME_MAX + 1\<close> bytes with the bound \<^verbatim>\<open>MAX_PATH_LEN + 1\<close>: a longer name is written past its
  end. \<open>pwd\<close> is the working directory of the thread.
\<close>

definition approach_leaf :: "(u32 \<Rightarrow> bool) \<Rightarrow> map_writer \<Rightarrow> (fs \<Rightarrow> nat option) \<Rightarrow> bool \<Rightarrow> dir option \<Rightarrow> u8 list \<Rightarrow> fs \<Rightarrow> (fs \<times> (dir \<times> u8 list) option) option" where
  "approach_leaf mem bw alloc room pwd pathname s =
     (if pathname = [] \<or> length pathname > MAX_PATH_LEN then Some (s, None)
      else do {
        (s, r) \<leftarrow> (if hd pathname = PATH_DELIM_CHAR then dir_open_root mem bw alloc room s
                  else do { d \<leftarrow> pwd; dir_reopen mem bw room d s });
        case r of
          None \<Rightarrow> Some (s, None)
        | Some d \<Rightarrow>
            (case tokens {PATH_DELIM_CHAR} pathname of
               [] \<Rightarrow> do { s \<leftarrow> dir_close mem bw (Some d) s; Some (s, None) }
             | t # ts \<Rightarrow> do {
                 (s, r) \<leftarrow> walk mem bw alloc room d t ts s;
                 case r of
                   None \<Rightarrow> Some (s, None)
                 | Some (d, filename) \<Rightarrow> do { ASSERT (length filename \<le> NAME_MAX); Some (s, Some (d, filename)) } }) })"

section \<open>Files by name\<close>

text \<open>
  Both panics of \<^verbatim>\<open>filesys_create\<close> are \<^term>\<open>None\<close>. When the name is taken, only the sector of the new inode is given back.
\<close>

definition filesys_create :: "(u32 \<Rightarrow> bool) \<Rightarrow> map_writer \<Rightarrow> (fs \<Rightarrow> nat option) \<Rightarrow> bool \<Rightarrow> u8 list \<Rightarrow> dir option \<Rightarrow> u8 list \<Rightarrow> int \<Rightarrow> bool \<Rightarrow> fs \<Rightarrow> (fs \<times> bool) option" where
  "filesys_create mem bw alloc room junk pwd pathname initial_size dir s = do {
     (s, r) \<leftarrow> approach_leaf mem bw alloc room pwd pathname s;
     case r of
       None \<Rightarrow> Some (s, False)
     | Some (containing_dir, filename) \<Rightarrow> do {
         let dir_inode_sector = inode_get_inumber (dir_get_inode containing_dir) s;
         (s, r) \<leftarrow> alloc_sector bw s;
         inode_sector \<leftarrow> r;
         ASSERT (inode_sector \<noteq> 0);
         (s, file_created) \<leftarrow>
           (if dir then dir_create mem bw alloc room junk inode_sector dir_inode_sector (to_size initial_size) s
            else inode_create mem bw room inode_sector initial_size False s);
         ASSERT file_created;
         (s, d, success) \<leftarrow> dir_add mem bw junk containing_dir filename inode_sector s;
         s \<leftarrow> (if \<not> success then dealloc_sector bw inode_sector s else Some s);
         s \<leftarrow> dir_close mem bw (Some d) s;
         Some (s, success) } }"

definition filesys_open :: "(u32 \<Rightarrow> bool) \<Rightarrow> map_writer \<Rightarrow> (fs \<Rightarrow> nat option) \<Rightarrow> bool \<Rightarrow> dir option \<Rightarrow> u8 list \<Rightarrow> fs \<Rightarrow> (fs \<times> open_file option) option" where
  "filesys_open mem bw alloc room pwd pathname s =
     (if pathname = [PATH_DELIM_CHAR] then do {
        (s, p) \<leftarrow> inode_open mem (alloc s) ROOT_DIR_SECTOR s;
        file_open mem bw room p s }
      else do {
        (s, r) \<leftarrow> approach_leaf mem bw alloc room pwd pathname s;
        case r of
          None \<Rightarrow> Some (s, None)
        | Some (containing_dir, filename) \<Rightarrow> do {
            (s, d, p) \<leftarrow> dir_lookup mem alloc containing_dir filename s;
            s \<leftarrow> dir_close mem bw (Some d) s;
            file_open mem bw room p s } })"

text \<open>\<^verbatim>\<open>inode_is_dir\<close> faults on the null pointer of a name that is not there; the inode of a file that is no directory is not closed.\<close>

definition filesys_remove :: "(u32 \<Rightarrow> bool) \<Rightarrow> map_writer \<Rightarrow> (fs \<Rightarrow> nat option) \<Rightarrow> bool \<Rightarrow> dir option \<Rightarrow> u8 list \<Rightarrow> fs \<Rightarrow> (fs \<times> bool) option" where
  "filesys_remove mem bw alloc room pwd pathname s = do {
     (s, r) \<leftarrow> approach_leaf mem bw alloc room pwd pathname s;
     case r of
       None \<Rightarrow> Some (s, False)
     | Some (containing_dir, filename) \<Rightarrow> do {
         (s, containing_dir, p) \<leftarrow> dir_lookup mem alloc containing_dir filename s;
         i \<leftarrow> p;
         (s, forbid) \<leftarrow>
           (if inode_is_dir i s then do {
              (s, r) \<leftarrow> dir_open mem bw room (Some i) s;
              child \<leftarrow> r;
              (s, child, n) \<leftarrow> dir_num_entries mem child s;
              s \<leftarrow> dir_close mem bw (Some child) s;
              Some (s, n > 0) }
            else Some (s, False));
         if forbid then do { s \<leftarrow> dir_close mem bw (Some containing_dir) s; Some (s, False) }
         else do {
           (s, containing_dir, success) \<leftarrow> dir_remove mem bw alloc containing_dir filename s;
           s \<leftarrow> dir_close mem bw (Some containing_dir) s;
           Some (s, success) } } }"

end
