(* ===== verification/FilesysProps.thy ===== *)
theory FilesysProps
  imports Filesys
begin

text \<open>
  Files by name: opening a file of the working directory, and what \<^verbatim>\<open>filesys_remove\<close> leaves behind.
\<close>

section \<open>A name in the working directory\<close>

lemma tokens_one: "t \<noteq> [] \<Longrightarrow> c \<notin> set t \<Longrightarrow> tokens {c} t = [t]"
proof -
  assume t: "t \<noteq> []" "c \<notin> set t"
  then obtain x xs where x: "t = x # xs" "x \<noteq> c" "c \<notin> set xs" by (cases t) auto
  then have d: "takeWhile (\<lambda>y. y \<noteq> c) xs = xs" "dropWhile (\<lambda>y. y \<noteq> c) xs = []" by (auto simp: takeWhile_eq_all_conv dropWhile_eq_Nil_conv)
  have "tokens {c} [] = []" by (simp add: tokens.simps)
  then show ?thesis using x(1,2) by (simp add: tokens.simps [of "{c}" "x # xs"] d)
qed

definition local_name :: "u8 list \<Rightarrow> bool" where
  "local_name t \<longleftrightarrow> t \<noteq> [] \<and> length t \<le> NAME_MAX \<and> 0 \<notin> set t \<and> PATH_DELIM_CHAR \<notin> set t"

text \<open>The working directory \<open>d\<close> is open and not deleted.\<close>

definition pwd_ok :: "nat set \<Rightarrow> dir \<Rightarrow> fs \<Rightarrow> bool" where
  "pwd_ok A d s \<longleftrightarrow> dinode d \<in> A \<and> inode_is_dir (dinode d) s \<and> \<not> inode_is_removed (dinode d) s \<and> 0 < open_cnt (inodes s (dinode d)) \<and>
     dir_ok (contents (dinode d) s)"

definition add_opener :: "nat \<Rightarrow> int \<Rightarrow> fs \<Rightarrow> fs" where
  "add_opener a k s = s\<lparr>inodes := (inodes s)(a := (inodes s a)\<lparr>open_cnt := open_cnt (inodes s a) + k\<rparr>)\<rparr>"

lemma add_opener_volume:
  assumes "volume fa A s" "a \<in> A"
  shows "volume fa A (add_opener a k s)" "b \<in> A \<Longrightarrow> contents b (add_opener a k s) = contents b s" "free_sectors (add_opener a k s) = free_sectors s"
  using volume_flag [OF assms, of "(inodes s a)\<lparr>open_cnt := open_cnt (inodes s a) + k\<rparr>"] by (simp_all add: add_opener_def)

lemma add_opener_simps [simp]:
  "inodes (add_opener a k s) b = (if b = a then (inodes s a)\<lparr>open_cnt := open_cnt (inodes s a) + k\<rparr> else inodes s b)"
  "open_inodes (add_opener a k s) = open_inodes s"
  by (simp_all add: add_opener_def)

lemma close_one: "1 < open_cnt (inodes s a) \<Longrightarrow> inode_close mem bw (Some a) s = Some (add_opener a (-1) s)"
  by (simp add: inode_close_def add_opener_def Let_def)

lemma approach_local:
  assumes "local_name t" "pwd_ok A d s"
  shows "approach_leaf mem bw alloc True (Some d) t s = Some (add_opener (dinode d) 1 s, Some (\<lparr>dinode = dinode d, dpos = 0, dir_lock = False\<rparr>, t))"
proof -
  have t: "t \<noteq> []" "length t \<le> 25" "hd t \<noteq> PATH_DELIM_CHAR" "tokens {PATH_DELIM_CHAR} t = [t]"
    using assms(1) tokens_one [of t PATH_DELIM_CHAR] by (cases t; auto simp: local_name_def NAME_MAX_def)+
  have "dir_reopen mem bw True d s = Some (add_opener (dinode d) 1 s, Some \<lparr>dinode = dinode d, dpos = 0, dir_lock = False\<rparr>)"
    using assms(2) by (simp add: dir_reopen_def inode_reopen_def dir_open_def pwd_ok_def inode_is_dir_def inode_is_removed_def add_opener_def)
  then show ?thesis using t by (simp add: approach_leaf_def MAX_PATH_LEN_def NAME_MAX_def)
qed

text \<open>Looking up the name of a file that is open.\<close>

lemma dir_lookup_open:
  assumes v: "volume fa A s" and d: "dinode d \<in> A" "\<not> dir_lock d" "dir_ok (contents (dinode d) s)"
    and n: "0 \<notin> set name" "dir_map (contents (dinode d) s) name = Some x"
    and i: "find (\<lambda>a. isector (inodes s a) = x) (open_inodes s) = Some i" "i \<in> A"
  shows "\<exists>s1. dir_lookup mem alloc d name s = Some (add_opener i 1 s1, d, Some i) \<and> quiet fa A s s1"
proof -
  let ?c = "contents (dinode d) s"
  obtain j where j: "slot_of_name ?c name = Some j" "entry_sector (slots ?c ! j) = x" using n(2) by (auto simp: dir_map_slot)
  obtain s1 where l: "lookup mem d name s = Some (s1, d, Some (slots ?c ! j, 32 * int j))" "quiet fa A s s1"
    using name_lookup_ok [OF v d n(1), of mem] j(1) by auto
  have q: "inodes s1 = inodes s" "open_inodes s1 = open_inodes s" using l(2) by (simp_all add: quiet_def)
  have "inode_open mem (alloc s1) x s1 = Some (add_opener i 1 s1, Some i)" using i(1) q by (simp add: inode_open_def inode_reopen_def add_opener_def)
  then show ?thesis using l j(2) by (intro exI [of _ s1]) (simp add: dir_lookup_def)
qed

lemma find_opener: "find (\<lambda>b. isector (inodes (add_opener a k s) b) = x) l = find (\<lambda>b. isector (inodes s b) = x) l"
  by (rule find_cong) auto

text \<open>The state once a file that nobody has open is opened: \<open>i\<close> is the address of its new inode, \<open>x\<close> its sector.\<close>

definition load_inode :: "nat \<Rightarrow> nat \<Rightarrow> fs \<Rightarrow> fs" where
  "load_inode i x s = s\<lparr>inodes := (inodes s)(i := \<lparr>isector = x, open_cnt = 1, removed = False, deny_write_cnt = 0,
     is_dir = read32 (fsv s x) 8, ilength = sint (read32 (fsv s x) 0)\<rparr>), open_inodes := i # open_inodes s\<rparr>"

lemma load_inode_simps [simp]:
  "inodes (load_inode i x s) b = (if b = i then \<lparr>isector = x, open_cnt = 1, removed = False, deny_write_cnt = 0,
     is_dir = read32 (fsv s x) 8, ilength = sint (read32 (fsv s x) 0)\<rparr> else inodes s b)"
  "open_inodes (load_inode i x s) = i # open_inodes s" "fsv (load_inode i x s) = fsv s" "fsz (load_inode i x s) = fsz s"
  "fs_map (load_inode i x s) = fs_map s" "free_sectors (load_inode i x s) = free_sectors s"
  by (simp_all add: load_inode_def free_sectors_def used_sectors_def)

lemma load_add_opener: "i \<noteq> a \<Longrightarrow> load_inode i x (add_opener a k s) = add_opener a k (load_inode i x s)"
  by (simp add: load_inode_def add_opener_def fun_upd_twist)

lemma inode_open_closed:
  assumes "calm 8 {} s" "x < fsz s" "find (\<lambda>a. isector (inodes s a) = x) (open_inodes s) = None"
  shows "\<exists>s1. inode_open mem (Some i) x s = Some (load_inode i x s1, Some i) \<and> frame {} s s1 \<and> fsv s1 = fsv s \<and> fs_map s1 = fs_map s"
proof -
  obtain s1 e s2 where p: "get_sector_handle mem x True s = Some (s1, Some e)" "\<forall>k < 512. sector_data e s1 k = fsv s x k"
    "release_sector_handle x (Some e) False True s1 = Some s2" "frame {} s s2" "fsv s2 = fsv s" "fs_map s2 = fs_map s"
    using peek_word [OF assms(1) _ assms(2), of True 0 mem] by auto
  have "read32 (sector_data e s1) b = read32 (fsv s x) b" if "b < 500" for b using p(2) that by (intro read32_cong) simp
  then have "inode_open mem (Some i) x s = Some (load_inode i x s2, Some i)"
    using assms(3) p(1,3,5) by (simp add: inode_open_def load_inode_def)
  then show ?thesis using p(4-6) by blast
qed

lemma load_frame:
  assumes "frame {} s s'" "fsv s' = fsv s"
  shows "frame {} (load_inode i x s) (load_inode i x s')"
  using assms by (simp add: frame_def load_inode_def)

text \<open>
  The file of the inode sector \<open>x\<close> beside the files of \<open>A\<close>: \<open>i\<close> is its inode in memory, with \<open>k\<close> openers, or the address
  that \<^verbatim>\<open>malloc\<close> returns for it when nobody has it open. The file is no directory.
\<close>

definition stored :: "nat \<Rightarrow> nat set \<Rightarrow> nat \<Rightarrow> nat \<Rightarrow> nat \<Rightarrow> (fs \<Rightarrow> nat option) \<Rightarrow> fs \<Rightarrow> bool" where
  "stored fa A x i k alloc s = (case find (\<lambda>a. isector (inodes s a) = x) (open_inodes s) of
     Some j \<Rightarrow> j = i \<and> 0 < k \<and> open_cnt (inodes s i) = int k \<and> \<not> inode_is_dir i s \<and> volume fa (insert i A) s
   | None \<Rightarrow> k = 0 \<and> (\<forall>t. alloc t = Some i) \<and> \<not> inode_is_dir i (load_inode i x s) \<and> volume fa (insert i A) (load_inode i x s))"

lemma stored_opener:
  assumes "stored fa A x i k alloc s" "a \<in> A" "i \<notin> A"
  shows "stored fa A x i k alloc (add_opener a m s)"
proof -
  have ne: "i \<noteq> a" using assms(2,3) by blast
  have d: "inode_is_dir i (add_opener a m s) = inode_is_dir i s" for s by (simp add: inode_is_dir_def)
  have "volume fa (insert i A) (add_opener a m s)" if "volume fa (insert i A) s" for s using add_opener_volume(1) [OF that] assms(2) by simp
  then show ?thesis using assms(1) ne d unfolding stored_def add_opener_simps(2) find_opener by (auto simp: load_add_opener split: option.splits)
qed

text \<open>Its first look-up opens it once more.\<close>

lemma stored_lookup:
  assumes v: "volume fa A s" and d: "dinode d \<in> A" "\<not> dir_lock d" "dir_ok (contents (dinode d) s)"
    and n: "0 \<notin> set name" "dir_map (contents (dinode d) s) name = Some x" and i: "stored fa A x i k alloc s" "i \<notin> A"
  shows "\<exists>s'. dir_lookup mem alloc d name s = Some (s', d, Some i) \<and> volume fa (insert i A) s' \<and> contents (dinode d) s' = contents (dinode d) s \<and>
    find (\<lambda>a. isector (inodes s' a) = x) (open_inodes s') = Some i \<and> open_cnt (inodes s' i) = int k + 1 \<and> \<not> inode_is_dir i s' \<and>
    inodes s' (dinode d) = inodes s (dinode d) \<and> free_sectors s' = free_sectors s"
proof (cases "find (\<lambda>a. isector (inodes s a) = x) (open_inodes s)")
  case (Some j)
  then have o: "j = i" "open_cnt (inodes s i) = int k" "\<not> inode_is_dir i s" "volume fa (insert i A) s" using i(1) by (simp_all add: stored_def)
  obtain s1 where l: "dir_lookup mem alloc d name s = Some (add_opener i 1 s1, d, Some i)" "quiet fa (insert i A) s s1"
    using dir_lookup_open [OF o(4) _ d(2,3) n, of i mem alloc] d(1) Some o(1) by auto
  have q: "volume fa (insert i A) s1" "contents (dinode d) s1 = contents (dinode d) s" "inodes s1 = inodes s" "open_inodes s1 = open_inodes s"
    "free_sectors s1 = free_sectors s" using l(2) d(1) by (simp_all add: quiet_def)
  note a = add_opener_volume [OF q(1), where a = i and k = 1]
  have ne: "i \<noteq> dinode d" using d(1) i(2) by blast
  have "find (\<lambda>a. isector (inodes (add_opener i 1 s1) a) = x) (open_inodes s) = Some i"
    using find_opener [of i 1 s1 x] Some o(1) q(3) by simp
  moreover have "open_cnt (inodes (add_opener i 1 s1) i) = int k + 1" "\<not> inode_is_dir i (add_opener i 1 s1)"
    "inodes (add_opener i 1 s1) (dinode d) = inodes s (dinode d)" using o(2,3) q(3) ne by (simp_all add: inode_is_dir_def)
  ultimately show ?thesis using l(1) a d(1) q by (intro exI [of _ "add_opener i 1 s1"]) simp
next
  case None
  then have o: "k = 0" "\<forall>t. alloc t = Some i" "\<not> inode_is_dir i (load_inode i x s)" "volume fa (insert i A) (load_inode i x s)"
    using i(1) by (simp_all add: stored_def)
  have ne: "i \<noteq> dinode d" using d(1) i(2) by blast
  let ?c = "contents (dinode d) s"
  obtain j where j: "slot_of_name ?c name = Some j" "entry_sector (slots ?c ! j) = x" using n(2) by (auto simp: dir_map_slot)
  obtain s1 where l: "lookup mem d name s = Some (s1, d, Some (slots ?c ! j, 32 * int j))" "quiet fa A s s1"
    using name_lookup_ok [OF v d n(1), of mem] j(1) by auto
  have q: "calm 8 {} s1" "fsz s1 = fsz s" "fsv s1 = fsv s" "fs_map s1 = fs_map s" "frame {} s s1" "inodes s1 = inodes s" "open_inodes s1 = open_inodes s"
    using l(2) frame_size by (auto simp: quiet_def volume_def)
  have "file_ok i (inode_length i (load_inode i x s)) (load_inode i x s)" using file_inv_parts(1) [OF volumeD(4) [OF o(4)]] by simp
  then have x: "x < fsz s" by (simp add: file_ok_def main_of_def)
  obtain s2 where op: "inode_open mem (Some i) x s1 = Some (load_inode i x s2, Some i)" "frame {} s1 s2" "fsv s2 = fsv s1" "fs_map s2 = fs_map s1"
    using inode_open_closed [OF q(1), of x mem i] x None q(2,6,7) by auto
  have f2: "frame {} s s2" "fsv s2 = fsv s" "fs_map s2 = fs_map s" using frame_trans [OF q(5) op(2)] op(3,4) q(3,4) by simp_all
  note fv = frame_volume [OF o(4) load_frame [OF f2(1,2)]]
  have i2: "inodes s2 = inodes s" "open_inodes s2 = open_inodes s" using f2(1) by (simp_all add: frame_def)
  have "contents (dinode d) (load_inode i x s2) = contents (dinode d) (load_inode i x s)" using fv(2) f2 d(1) by simp
  also have "\<dots> = ?c" using ne by (simp add: contents_def inode_length_def file_byte_def file_ent_def main_of_def)
  finally have "contents (dinode d) (load_inode i x s2) = ?c" .
  moreover have "dir_lookup mem alloc d name s = Some (load_inode i x s2, d, Some i)" using l(1) j(2) op(1) o(2) by (simp add: dir_lookup_def)
  moreover have "\<not> inode_is_dir i (load_inode i x s2)" using o(3) f2(2) by (simp add: inode_is_dir_def)
  moreover have "volume fa (insert i A) (load_inode i x s2)" using fv(1) f2 by simp
  moreover have "free_sectors (load_inode i x s2) = free_sectors s" using fv(3) f2 by simp
  ultimately show ?thesis using o(1) ne i2 by (intro exI [of _ "load_inode i x s2"]) simp
qed

text \<open>\<open>k\<close> openers of the inode \<open>i\<close> close it.\<close>

primrec closes :: "(u32 \<Rightarrow> bool) \<Rightarrow> map_writer \<Rightarrow> nat \<Rightarrow> nat \<Rightarrow> fs \<Rightarrow> fs option" where
  "closes mem bw i 0 s = Some s"
| "closes mem bw i (Suc k) s = do { s \<leftarrow> inode_close mem bw (Some i) s; closes mem bw i k s }"

lemma closes_openers: "int k < open_cnt (inodes s i) \<Longrightarrow> closes mem bw i k s = Some (add_opener i (- int k) s)"
proof (induction k arbitrary: s)
  case 0 then show ?case by (simp add: add_opener_def)
next
  case (Suc k)
  then have "inode_close mem bw (Some i) s = Some (add_opener i (-1) s)" by (intro close_one) simp
  moreover have "closes mem bw i k (add_opener i (-1) s) = Some (add_opener i (- int k) (add_opener i (-1) s))" using Suc by simp
  moreover have "add_opener i (- int k) (add_opener i (-1) s) = add_opener i (- int (Suc k)) s" by (simp add: add_opener_def algebra_simps)
  ultimately show ?case by simp
qed

lemma used_not_free: "volume fa A s \<Longrightarrow> i \<in> A \<Longrightarrow> file_sectors i s \<inter> free_sectors s = {}"
  using file_inv_parts(2) [OF volumeD(4), of fa A s i] by (auto simp: free_sectors_def)

text \<open>
  C18: a file that \<^verbatim>\<open>filesys_remove\<close> removes is never deleted, as \<^verbatim>\<open>inode_close\<close> gives sectors back to the free map only when the last
  opener closes: the first look-up of \<^verbatim>\<open>filesys_remove\<close> opens the inode, and nothing closes it. Take a file of the working directory that is
  no directory, with \<open>k\<close> openers (\<open>k = 0\<close>: nobody has it open). Its name leaves the directory; when all of the \<open>k\<close> openers have closed it as
  well, it is still marked as removed and has one opener, and no sector was given back.
\<close>

theorem filesys_remove_leaks:
  assumes v: "volume fa A s" and d: "pwd_ok A d s" "deny_write_cnt (inodes s (dinode d)) = 0"
    and n: "local_name name" "dir_map (contents (dinode d) s) name = Some x" and i: "stored fa A x i k alloc s" "i \<notin> A"
  shows "\<exists>s' s''. filesys_remove mem (bitmap_write mem fa) alloc True (Some d) name s = Some (s', True) \<and>
    dir_map (contents (dinode d) s') = (dir_map (contents (dinode d) s))(name := None) \<and>
    closes mem (bitmap_write mem fa) i k s' = Some s'' \<and> volume fa (insert i A) s'' \<and>
    isector (inodes s'' i) = x \<and> removed (inodes s'' i) \<and> open_cnt (inodes s'' i) = 1 \<and> free_sectors s'' = free_sectors s \<and> file_sectors i s'' \<inter> free_sectors s'' = {}"
proof -
  let ?a = "dinode d" let ?bw = "bitmap_write mem fa" let ?d = "\<lparr>dinode = dinode d, dpos = 0, dir_lock = False\<rparr>"
  have a: "?a \<in> A" "dir_ok (contents ?a s)" "0 < open_cnt (inodes s ?a)" and z: "0 \<notin> set name" using d(1) n(1) by (auto simp: pwd_ok_def local_name_def)
  have ne: "i \<noteq> ?a" using a(1) i(2) by blast
  let ?s1 = "add_opener ?a 1 s"
  note o1 = add_opener_volume [OF v a(1), where k = 1]
  note ap = approach_local [OF n(1) d(1), of mem ?bw alloc]
  obtain s3 where l: "dir_lookup mem alloc ?d name ?s1 = Some (s3, ?d, Some i)" "volume fa (insert i A) s3" "contents ?a s3 = contents ?a s"
    "find (\<lambda>b. isector (inodes s3 b) = x) (open_inodes s3) = Some i" "open_cnt (inodes s3 i) = int k + 1" "\<not> inode_is_dir i s3"
    "inodes s3 ?a = inodes ?s1 ?a" "free_sectors s3 = free_sectors s"
    using stored_lookup [OF o1(1), of ?d name x i k alloc mem] stored_opener [OF i(1) a(1) i(2), of 1] a(1,2) o1(2,3) z n(2) i(2) by auto
  obtain s4 where r: "dir_remove mem ?bw alloc ?d name s3 = Some (s4, ?d, True)" "volume fa (insert i A) s4"
    "dir_map (contents ?a s4) = (dir_map (contents ?a s))(name := None)" "inodes s4 i = (inodes s3 i)\<lparr>removed := True\<rparr>"
    "inodes s4 ?a = (inodes s3 ?a)\<lparr>ilength := inode_length ?a s4\<rparr>" "free_sectors s4 = free_sectors s3"
    using dir_remove_ok [OF l(2), of ?d name x i mem alloc] a(1,2) l(3-5,7) d(2) ne z n(2) by auto
  let ?s5 = "add_opener ?a (-1) s4" let ?s6 = "add_opener i (- int k) ?s5"
  have "inode_close mem ?bw (Some ?a) s4 = Some ?s5" using a(3) r(5) l(7) by (intro close_one) simp
  then have run: "filesys_remove mem ?bw alloc True (Some d) name s = Some (?s5, True)"
    using ap l(1,6) r(1) by (simp add: filesys_remove_def dir_close_def)
  note o5 = add_opener_volume [OF r(2), of ?a, where k = "-1"]
  note o6 = add_opener_volume [OF o5(1), of i, where k = "- int k"]
  have i5: "removed (inodes ?s5 i)" "open_cnt (inodes ?s5 i) = int k + 1" using r(4) l(5) ne by simp_all
  have cl: "closes mem ?bw i k ?s5 = Some ?s6" using i5(2) by (intro closes_openers) simp
  have v6: "volume fa (insert i A) ?s6" "free_sectors ?s6 = free_sectors s" using o6 o5(3) a(1) r(6) l(8) by simp_all
  have "dir_map (contents ?a ?s5) = (dir_map (contents ?a s))(name := None)" using o5(2) a(1) r(3) by simp
  moreover have "isector (inodes ?s6 i) = x" using l(4) r(4) ne by (auto simp: find_Some_iff)
  moreover have "removed (inodes ?s6 i)" "open_cnt (inodes ?s6 i) = 1" using i5 by simp_all
  ultimately show ?thesis using run cl v6 used_not_free [OF v6(1), of i] by blast
qed

lemma volume_subset: "volume fa A s \<Longrightarrow> B \<subseteq> A \<Longrightarrow> volume fa B s"
  unfolding volume_def by blast

text \<open>The small volume with one name in its directory, while nobody has the file of that name open.\<close>

lemma small_closed:
  "\<exists>s. volume 0 {1} s \<and> dir_ok (contents 1 s) \<and> dir_map (contents 1 s) = [[97] \<mapsto> 5] \<and> open_inodes s = [1, 0] \<and>
    isector (inodes s 1) \<noteq> 5 \<and> isector (inodes s 0) \<noteq> 5 \<and> deny_write_cnt (inodes s 1) = 0 \<and> inode_is_dir 1 s \<and> \<not> inode_is_removed 1 s \<and>
    open_cnt (inodes s 1) = 1 \<and> \<not> inode_is_dir 5 (load_inode 5 5 s) \<and> volume 0 {5, 1} (load_inode 5 5 s)"
proof -
  from small_named obtain s where s: "volume 0 {1, 5} s" "dir_ok (contents 1 s)" "dir_map (contents 1 s) = [[97] \<mapsto> 5]" "open_inodes s = [5, 1, 0]"
    "deny_write_cnt (inodes s 1) = 0" "inode_is_dir 1 s" "\<not> inode_is_removed 1 s" "open_cnt (inodes s 1) = 1" "\<not> inode_is_dir 5 s"
    "inodes s 5 = \<lparr>isector = 5, open_cnt = 1, removed = False, deny_write_cnt = 0, is_dir = 0, ilength = 0\<rparr>"
    "read32 (fsv s 5) 0 = 0" "read32 (fsv s 5) 8 = 0" by blast
  let ?s = "s\<lparr>open_inodes := [1, 0]\<rparr>"
  have "fsv ?s = fsv s" by (simp add: fsv_def)
  then have l: "load_inode 5 5 ?s = s" using s(4,10-12) by (simp add: load_inode_def fun_upd_idem)
  have v: "volume 0 {1, 5} ?s" "contents 1 ?s = contents 1 s"
    using volume_flags(1,2) [where g = "inodes s" and l = "[1, 0]" and s' = ?s, OF s(1)] by simp_all
  have m: "main_of b s \<in> file_sectors b s" for b by (simp add: file_sectors_def)
  have "file_sectors 1 s \<inter> file_sectors 5 s = {}" using volumeD(6) [OF s(1), of 1 5] by simp
  moreover have "file_sectors 5 s \<subseteq> used_sectors s - file_sectors 0 s" using file_inv_parts(2) [OF volumeD(4) [OF s(1)]] by simp
  ultimately have "main_of 1 s \<noteq> main_of 5 s" "main_of 0 s \<noteq> main_of 5 s" using m [of 0] m [of 1] m [of 5] by auto
  then have "isector (inodes ?s 1) \<noteq> 5" "isector (inodes ?s 0) \<noteq> 5" using s(10) by (simp_all add: main_of_def)
  moreover have "volume 0 {1} ?s" using volume_subset [OF v(1)] by simp
  ultimately show ?thesis using s v(2) l by (intro exI [of _ ?s]) (simp add: insert_commute inode_is_dir_def inode_is_removed_def)
qed

theorem filesys_remove_leaks_witness:
  "\<exists>s s'. volume 0 {1} s \<and> open_inodes s = [1, 0] \<and> dir_map (contents 1 s) = [[97] \<mapsto> 5] \<and>
    filesys_remove (\<lambda>_. True) (bitmap_write (\<lambda>_. True) 0) (\<lambda>_. Some 5) True (Some small_dir) [97] s = Some (s', True) \<and>
    dir_map (contents 1 s') = Map.empty \<and> isector (inodes s' 5) = 5 \<and> removed (inodes s' 5) \<and> open_cnt (inodes s' 5) = 1 \<and> free_sectors s' = free_sectors s"
proof -
  from small_closed obtain s where s: "volume 0 {1} s" "dir_ok (contents 1 s)" "dir_map (contents 1 s) = [[97] \<mapsto> 5]" "open_inodes s = [1, 0]"
    "isector (inodes s 1) \<noteq> 5" "isector (inodes s 0) \<noteq> 5" "deny_write_cnt (inodes s 1) = 0" "inode_is_dir 1 s" "\<not> inode_is_removed 1 s"
    "open_cnt (inodes s 1) = 1" "\<not> inode_is_dir 5 (load_inode 5 5 s)" "volume 0 {5, 1} (load_inode 5 5 s)" by blast
  have i: "stored 0 {1} 5 5 0 (\<lambda>_. Some 5) s" using s(4-6,11,12) by (simp add: stored_def)
  have "\<exists>s' s''. filesys_remove (\<lambda>_. True) (bitmap_write (\<lambda>_. True) 0) (\<lambda>_. Some 5) True (Some small_dir) [97] s = Some (s', True) \<and>
    dir_map (contents (dinode small_dir) s') = (dir_map (contents (dinode small_dir) s))([97] := None) \<and>
    closes (\<lambda>_. True) (bitmap_write (\<lambda>_. True) 0) 5 0 s' = Some s'' \<and> volume 0 (insert 5 {1}) s'' \<and>
    isector (inodes s'' 5) = 5 \<and> removed (inodes s'' 5) \<and> open_cnt (inodes s'' 5) = 1 \<and> free_sectors s'' = free_sectors s \<and>
    file_sectors 5 s'' \<inter> free_sectors s'' = {}"
    by (rule filesys_remove_leaks [OF s(1) _ _ _ _ i]) (use s in \<open>simp_all add: pwd_ok_def local_name_def NAME_MAX_def PATH_DELIM_CHAR_def\<close>)
  then show ?thesis using s(1,3,4) by auto
qed

text \<open>
  C19: \<^verbatim>\<open>filesys_remove\<close> of a name that is not in the working directory stops the kernel: \<^verbatim>\<open>inode_is_dir\<close> reads through the null pointer
  that the look-up left.
\<close>

theorem filesys_remove_missing:
  assumes v: "volume fa A s" and d: "pwd_ok A d s" and n: "local_name name" "dir_map (contents (dinode d) s) name = None"
  shows "filesys_remove mem bw alloc True (Some d) name s = None"
proof -
  let ?a = "dinode d" let ?d = "\<lparr>dinode = dinode d, dpos = 0, dir_lock = False\<rparr>"
  have a: "?a \<in> A" "dir_ok (contents ?a s)" and z: "0 \<notin> set name" using d n(1) by (auto simp: pwd_ok_def local_name_def)
  note o1 = add_opener_volume [OF v a(1), where k = 1]
  have c: "contents ?a (add_opener ?a 1 s) = contents ?a s" using o1(2) [OF a(1)] .
  have "slot_of_name (contents ?a s) name = None" using n(2) by (simp add: dir_map_slot)
  then obtain s2 where "lookup mem ?d name (add_opener ?a 1 s) = Some (s2, ?d, None)"
    using name_lookup_ok [OF o1(1), of ?d name mem] a z c by auto
  then have "dir_lookup mem alloc ?d name (add_opener ?a 1 s) = Some (s2, ?d, None)" by (simp add: dir_lookup_def)
  then show ?thesis using approach_local [OF n(1) d, of mem bw alloc] by (simp add: filesys_remove_def)
qed

theorem filesys_remove_missing_witness:
  "\<exists>s. volume 0 {1, 5} s \<and> filesys_remove (\<lambda>_. True) (bitmap_write (\<lambda>_. True) 0) (\<lambda>_. None) True (Some small_dir) [98] s = None"
proof -
  from small_named obtain s where s: "volume 0 {1, 5} s" "dir_ok (contents 1 s)" "dir_map (contents 1 s) = [[97] \<mapsto> 5]"
    "inode_is_dir 1 s" "\<not> inode_is_removed 1 s" "open_cnt (inodes s 1) = 1" by blast
  have "filesys_remove (\<lambda>_. True) (bitmap_write (\<lambda>_. True) 0) (\<lambda>_. None) True (Some small_dir) [98] s = None"
    by (rule filesys_remove_missing [OF s(1)]) (use s in \<open>simp_all add: pwd_ok_def local_name_def NAME_MAX_def PATH_DELIM_CHAR_def\<close>)
  then show ?thesis using s(1) by blast
qed

end
