(* ===== verification/Malloc.thy ===== *)
theory Malloc
  imports Palloc
begin

unbundle bit_operations_syntax

text \<open>
  The allocator of small blocks, \<^verbatim>\<open>src/Project5/src/threads/malloc.c\<close>: a page (an arena) is cut into blocks of one size, and each
  size has a list of free blocks; larger requests get pages of their own. The header of an arena is kept
  apart from the bytes of memory, as \<open>arenas\<close>: a page without a header is one whose first word is not the magic number. The
  lists are sequences, which is what the list theories show of \<^verbatim>\<open>list.c\<close>. The locks make each call one step.
\<close>

section \<open>State\<close>

definition ARENA_SIZE :: nat where "ARENA_SIZE = 12"

record desc =
  block_size :: nat
  blocks_per_arena :: nat
  block_list :: "nat list"

text \<open>An arena with the magic number; \<open>adesc\<close> is the number of its descriptor.\<close>

record arena =
  adesc :: "nat option"
  free_cnt :: nat

record heap =
  descs :: "desc list"
  pages :: palloc
  arenas :: "nat \<Rightarrow> arena option"

section \<open>Operations\<close>

text \<open>The loop of \<^verbatim>\<open>malloc_init\<close>, which starts at 16.\<close>

function init_descs :: "nat \<Rightarrow> desc list" where
  "init_descs n =
     (if 0 < n \<and> n < PGSIZE div 2
      then \<lparr>block_size = n, blocks_per_arena = (PGSIZE - ARENA_SIZE) div n, block_list = []\<rparr> # init_descs (2 * n)
      else [])"
  by pat_completeness auto
termination by (relation "measure (\<lambda>n. PGSIZE - n)") auto

declare init_descs.simps [simp del]

definition malloc_init :: "heap \<Rightarrow> heap option" where
  "malloc_init s = do {
     let ds = init_descs 16;
     ASSERT (length ds \<le> 10);
     Some (s\<lparr>descs := ds\<rparr>) }"

text \<open>The smallest descriptor for a request.\<close>

fun find_desc :: "desc list \<Rightarrow> nat \<Rightarrow> nat option" where
  "find_desc [] n = None"
| "find_desc (d # ds) n = (if block_size d \<ge> n then Some 0 else map_option Suc (find_desc ds n))"

definition block_to_arena :: "nat \<Rightarrow> heap \<Rightarrow> (nat \<times> arena) option" where
  "block_to_arena b s = do {
     let a = pg_round_down b;
     ASSERT (a \<noteq> 0);
     ar \<leftarrow> arenas s a;
     ASSERT (case adesc ar of None \<Rightarrow> True | Some i \<Rightarrow> (pg_ofs b + 2 ^ 32 - ARENA_SIZE) mod 2 ^ 32 mod block_size (descs s ! i) = 0);
     ASSERT (adesc ar \<noteq> None \<or> pg_ofs b = ARENA_SIZE);
     Some (a, ar) }"

definition arena_to_block :: "nat \<Rightarrow> nat \<Rightarrow> heap \<Rightarrow> nat option" where
  "arena_to_block a idx s = do {
     ASSERT (a \<noteq> 0);
     ar \<leftarrow> arenas s a;
     i \<leftarrow> adesc ar;
     ASSERT (idx < blocks_per_arena (descs s ! i));
     Some (a + ARENA_SIZE + idx * block_size (descs s ! i)) }"

definition set_list :: "nat \<Rightarrow> nat list \<Rightarrow> heap \<Rightarrow> heap" where
  "set_list i l s = s\<lparr>descs := (descs s)[i := (descs s ! i)\<lparr>block_list := l\<rparr>]\<rparr>"

text \<open>The loop that adds the blocks \<open>idx\<close> onwards of a new arena to the free list.\<close>

fun push_blocks :: "nat \<Rightarrow> nat \<Rightarrow> nat \<Rightarrow> nat \<Rightarrow> heap \<Rightarrow> heap option" where
  "push_blocks i a idx 0 s = Some s"
| "push_blocks i a idx (Suc n) s = do {
     b \<leftarrow> arena_to_block a idx s;
     push_blocks i a (idx + 1) n (set_list i (block_list (descs s ! i) @ [b]) s) }"

text \<open>The number of pages is computed in 32 bits.\<close>

definition malloc :: "nat \<Rightarrow> heap \<Rightarrow> (heap \<times> nat) option" where
  "malloc n s =
     (if n = 0 then Some (s, 0)
      else case find_desc (descs s) n of
        None \<Rightarrow> do {
          let page_cnt = (n + ARENA_SIZE + PGSIZE - 1) mod 2 ^ 32 div PGSIZE;
          (f, a) \<leftarrow> palloc_get_multiple 0 page_cnt (pages s);
          let s = s\<lparr>pages := f\<rparr>;
          if a = 0 then Some (s, 0)
          else Some (s\<lparr>arenas := (arenas s)(a \<mapsto> \<lparr>adesc = None, free_cnt = page_cnt\<rparr>)\<rparr>, a + ARENA_SIZE) }
      | Some i \<Rightarrow> do {
          (s, ok) \<leftarrow>
            (if block_list (descs s ! i) = [] then do {
               (f, a) \<leftarrow> palloc_get_page 0 (pages s);
               let s = s\<lparr>pages := f\<rparr>;
               if a = 0 then Some (s, False)
               else do {
                 let cnt = blocks_per_arena (descs s ! i);
                 s \<leftarrow> push_blocks i a 0 cnt (s\<lparr>arenas := (arenas s)(a \<mapsto> \<lparr>adesc = Some i, free_cnt = cnt\<rparr>)\<rparr>);
                 Some (s, True) } }
             else Some (s, True));
          if \<not> ok then Some (s, 0)
          else case block_list (descs s ! i) of
            [] \<Rightarrow> None
          | b # l \<Rightarrow> do {
              let s = set_list i l s;
              (a, ar) \<leftarrow> block_to_arena b s;
              Some (s\<lparr>arenas := (arenas s)(a \<mapsto> ar\<lparr>free_cnt := (free_cnt ar + 2 ^ 32 - 1) mod 2 ^ 32\<rparr>)\<rparr>, b) } })"

definition set_memory :: "((nat \<Rightarrow> u8) \<Rightarrow> nat \<Rightarrow> u8) \<Rightarrow> heap \<Rightarrow> heap" where
  "set_memory f s = s\<lparr>pages := (pages s)\<lparr>memory := f (memory (pages s))\<rparr>\<rparr>"

definition calloc :: "nat \<Rightarrow> nat \<Rightarrow> heap \<Rightarrow> (heap \<times> nat) option" where
  "calloc a b s =
     (let n = (a * b) mod 2 ^ 32 in
      if n < a \<or> n < b then Some (s, 0)
      else do {
        (s, p) \<leftarrow> malloc n s;
        Some (if p \<noteq> 0 then set_memory (fill p 0 n) s else s, p) })"

definition size_of_block :: "nat \<Rightarrow> heap \<Rightarrow> nat option" where
  "size_of_block b s = do {
     (a, ar) \<leftarrow> block_to_arena b s;
     Some (case adesc ar of Some i \<Rightarrow> block_size (descs s ! i) | None \<Rightarrow> PGSIZE * free_cnt ar - pg_ofs b) }"

text \<open>The loop that takes the blocks \<open>idx\<close> onwards of an arena off the free list.\<close>

fun remove_blocks :: "nat \<Rightarrow> nat \<Rightarrow> nat \<Rightarrow> nat \<Rightarrow> heap \<Rightarrow> heap option" where
  "remove_blocks i a idx 0 s = Some s"
| "remove_blocks i a idx (Suc n) s = do {
     b \<leftarrow> arena_to_block a idx s;
     remove_blocks i a (idx + 1) n (set_list i (remove1 b (block_list (descs s ! i))) s) }"

text \<open>Giving pages back overwrites them, and the header with them.\<close>

definition free_pages :: "nat \<Rightarrow> nat \<Rightarrow> heap \<Rightarrow> heap option" where
  "free_pages a n s = do {
     f \<leftarrow> palloc_free_multiple a n (pages s);
     Some (s\<lparr>pages := f, arenas := (arenas s)(a := None)\<rparr>) }"

definition free :: "nat \<Rightarrow> heap \<Rightarrow> heap option" where
  "free p s =
     (if p = 0 then Some s
      else do {
        (a, ar) \<leftarrow> block_to_arena p s;
        case adesc ar of
          Some i \<Rightarrow> do {
            let s = set_memory (fill p 0xcc (block_size (descs s ! i))) s;
            let s = set_list i (p # block_list (descs s ! i)) s;
            let cnt = (free_cnt ar + 1) mod 2 ^ 32;
            let s = s\<lparr>arenas := (arenas s)(a \<mapsto> ar\<lparr>free_cnt := cnt\<rparr>)\<rparr>;
            if cnt \<ge> blocks_per_arena (descs s ! i) then do {
              ASSERT (cnt = blocks_per_arena (descs s ! i));
              s \<leftarrow> remove_blocks i a 0 cnt s;
              free_pages a 1 s }
            else Some s }
        | None \<Rightarrow> free_pages a (free_cnt ar) s })"

definition realloc :: "nat \<Rightarrow> nat \<Rightarrow> heap \<Rightarrow> (heap \<times> nat) option" where
  "realloc old_block new_size s =
     (if new_size = 0 then do { s \<leftarrow> free old_block s; Some (s, 0) }
      else do {
        (s, new_block) \<leftarrow> malloc new_size s;
        if old_block \<noteq> 0 \<and> new_block \<noteq> 0 then do {
          old_size \<leftarrow> size_of_block old_block s;
          let min_size = min new_size old_size;
          let s = set_memory (\<lambda>m x. if x \<in> {new_block..<new_block + min_size} then m (old_block + (x - new_block)) else m x) s;
          s \<leftarrow> free old_block s;
          Some (s, new_block) }
        else Some (s, new_block) })"

end
