(* ===== verification/MallocProps.thy ===== *)
theory MallocProps
  imports Malloc
begin

unbundle bit_operations_syntax

text \<open>
  What \<^verbatim>\<open>malloc\<close>, \<^verbatim>\<open>calloc\<close>, \<^verbatim>\<open>realloc\<close> and \<^verbatim>\<open>free\<close> promise: a map from the addresses of the blocks in use to
  their sizes, in which no two blocks share a byte.
\<close>

section \<open>Runs of pages\<close>

definition page_run :: "nat \<Rightarrow> nat \<Rightarrow> nat set" where
  "page_run a n = (\<lambda>k. a + 4096 * k) ` {..<n}"

lemma page_run_one [simp]: "page_run a (Suc 0) = {a}"
  by (auto simp: page_run_def)

lemma first_in_page_run: "0 < n \<Longrightarrow> a \<in> page_run a n"
  by (auto simp: page_run_def image_iff intro!: bexI [of _ 0])

lemma page_run_addr: "page_run (page_addr p i) n = page_addr p ` {i..<i + n}"
proof -
  have "{i..<i + n} = (\<lambda>k. i + k) ` {..<n}"
    using image_add_atLeastLessThan [of i 0 n] by (simp add: atLeast0LessThan add.commute)
  then show ?thesis by (auto simp: page_run_def page_addr_def image_image algebra_simps)
qed

lemma page_run_bytes:
  assumes "a mod 4096 = 0" "x \<in> {a..<a + 4096 * n}"
  shows "4096 * (x div 4096) \<in> page_run a n"
proof -
  obtain c where c: "a = 4096 * c" using assms(1) by auto
  then have "c \<le> x div 4096" "x div 4096 < c + n" using assms(2) by auto
  then show ?thesis unfolding page_run_def c by (intro image_eqI [of _ _ "x div 4096 - c"]) (auto simp: algebra_simps)
qed

lemma bytes_disjoint:
  assumes "a mod 4096 = 0" "a' mod 4096 = 0" "page_run a n \<inter> page_run a' n' = {}"
  shows "{a..<a + 4096 * n} \<inter> {a'..<a' + 4096 * n'} = {}"
  using page_run_bytes [OF assms(1)] page_run_bytes [OF assms(2)] assms(3) by (meson disjoint_iff)

abbreviation kernel_pages :: "palloc \<Rightarrow> nat set" where
  "kernel_pages f \<equiv> used_pages (kernel_pool f)"

text \<open>No run of \<open>n\<close> free pages is left.\<close>

definition no_run :: "nat \<Rightarrow> palloc \<Rightarrow> bool" where
  "no_run n f \<longleftrightarrow> (\<forall>i. i + n \<le> bit_cnt (used_map (kernel_pool f)) \<longrightarrow> {i..<i + n} \<inter> used_bits (used_map (kernel_pool f)) \<noteq> {})"

lemma kernel_get:
  assumes "palloc_ok f" "0 < n"
  shows "\<exists>f' a. palloc_get_multiple 0 n f = Some (f', a) \<and> palloc_ok f' \<and> memory f' = memory f \<and>
    (if a = 0 then f' = f \<and> no_run n f
     else a mod 4096 = 0 \<and> page_run a n \<inter> kernel_pages f = {} \<and> kernel_pages f' = kernel_pages f \<union> page_run a n)"
proof -
  have k: "pool_of 0 g = kernel_pool g" "other_pool 0 g = user_pool g" for g
    by (simp_all add: pool_of_def other_pool_def)
  note get = palloc_get_multiple_ok [OF assms, of 0, unfolded k]
  obtain f' a where r: "palloc_get_multiple 0 n f = Some (f', a)"
    using get by auto
  have f': "palloc_ok f'" "user_pool f' = user_pool f" "base (kernel_pool f') = base (kernel_pool f)"
    using get by (simp_all add: r)
  show ?thesis
  proof (cases "a = 0")
    case True
    with get have "f' = f" "no_run n f" by (simp_all add: r no_run_def)
    with True r f'(1) show ?thesis by simp
  next
    case False
    then obtain i where i: "a = page_addr (kernel_pool f) i" "{i..<i + n} \<inter> used_bits (used_map (kernel_pool f)) = {}"
       "used_bits (used_map (kernel_pool f')) = used_bits (used_map (kernel_pool f)) \<union> {i..<i + n}" "memory f' = memory f"
      using get False by (auto simp: r)
    have pa: "page_addr (kernel_pool f') = page_addr (kernel_pool f)"
      by (simp add: fun_eq_iff page_addr_def f'(3))
    have "a mod 4096 = 0"
      using page_addr_no(2) [of "kernel_pool f" i] assms(1) i(1) by (simp add: palloc_ok_def pg_ofs_mod)
    moreover have "page_run a n \<inter> kernel_pages f = {}" "kernel_pages f' = kernel_pages f \<union> page_run a n"
      using i(2,3) by (auto simp: i(1) page_run_addr used_pages_def pa)
    ultimately show ?thesis using r f'(1) i(4) False by auto
  qed
qed

lemma kernel_free:
  assumes "palloc_ok f" "0 < n" "page_run a n \<subseteq> kernel_pages f"
  shows "\<exists>f'. palloc_free_multiple a n f = Some f' \<and> palloc_ok f' \<and> kernel_pages f' = kernel_pages f - page_run a n \<and>
    memory f' = fill a 0xcc (4096 * n) (memory f)"
proof -
  let ?p = "kernel_pool f"
  have p: "pool_ok ?p" using assms(1) by (simp add: palloc_ok_def)
  obtain i where i: "a = page_addr ?p i" "i \<in> used_bits (used_map ?p)"
    using first_in_page_run [OF assms(2)] assms(3) by (fastforce simp: used_pages_def)
  have sub: "{i..<i + n} \<subseteq> used_bits (used_map ?p)"
    using assms(3) by (auto simp: i(1) page_run_addr used_pages_def)
  then have le: "i + n \<le> bit_cnt (used_map ?p)"
    using assms(2) by (auto simp: used_bits_def dest: subsetD [of _ _ "i + n - 1"])
  obtain b where b: "release_run (used_map ?p) i n = Some b" "bitmap_ok b" "bit_cnt b = bit_cnt (used_map ?p)"
    "used_bits b = used_bits (used_map ?p) - {i..<i + n}"
    using release_run_ok(1) [of "used_map ?p" i n] p le sub by (auto simp: pool_ok_def)
  have "palloc_free_multiple a n f = Some (f\<lparr>kernel_pool := ?p\<lparr>used_map := b\<rparr>, memory := fill a 0xcc (4096 * n) (memory f)\<rparr>)"
    using palloc_free_multiple_eq [OF assms(1), of a 0 i n] i(1) le assms(2) b(1) by (simp add: pool_of_def)
  moreover have "page_addr (?p\<lparr>used_map := b\<rparr>) = page_addr ?p"
    by (simp add: fun_eq_iff page_addr_def)
  then have "used_pages (?p\<lparr>used_map := b\<rparr>) = kernel_pages f - page_run a n"
    by (auto simp: used_pages_def i(1) page_run_addr b(4))
  ultimately show ?thesis
    using assms(1) b(2,3) by (auto simp: palloc_ok_def pool_ok_def pool_end_def)
qed

section \<open>Arenas and blocks\<close>

text \<open>The descriptors keep the sizes that \<^verbatim>\<open>malloc_init\<close> gives them.\<close>

definition sizes :: "nat list" where "sizes = [16, 32, 64, 128, 256, 512, 1024]"

lemma init_descs_eq: "init_descs 16 = map (\<lambda>n. \<lparr>block_size = n, blocks_per_arena = 4084 div n, block_list = []\<rparr>) sizes"
  by (simp add: init_descs.simps sizes_def ARENA_SIZE_def)

definition descs_ok :: "heap \<Rightarrow> bool" where
  "descs_ok s \<longleftrightarrow> map block_size (descs s) = sizes \<and> map blocks_per_arena (descs s) = map (\<lambda>n. 4084 div n) sizes"

abbreviation bsize :: "heap \<Rightarrow> nat \<Rightarrow> nat" where "bsize s i \<equiv> block_size (descs s ! i)"
abbreviation bcount :: "heap \<Rightarrow> nat \<Rightarrow> nat" where "bcount s i \<equiv> blocks_per_arena (descs s ! i)"
abbreviation flist :: "heap \<Rightarrow> nat \<Rightarrow> nat list" where "flist s i \<equiv> block_list (descs s ! i)"

lemma length_sizes: "length sizes = 7"
  by (simp add: sizes_def)

lemma descs_ok_len: "descs_ok s \<Longrightarrow> length (descs s) = 7"
  unfolding descs_ok_def sizes_def by (auto dest: arg_cong [of _ _ length])

lemma descs_ok_nth:
  assumes "descs_ok s" "i < length (descs s)"
  shows "bsize s i = sizes ! i" and "bcount s i = 4084 div sizes ! i"
proof -
  have "map block_size (descs s) ! i = sizes ! i" "map blocks_per_arena (descs s) ! i = map (\<lambda>n. 4084 div n) sizes ! i"
    using assms(1) unfolding descs_ok_def by metis+
  then show "bsize s i = sizes ! i" "bcount s i = 4084 div sizes ! i"
    using assms(2) descs_ok_len [OF assms(1)] length_sizes by simp_all
qed

lemma descs_ok_bounds:
  assumes "descs_ok s" "i < length (descs s)"
  shows "0 < bsize s i" and "2 < bcount s i" and "bcount s i < 256" and "bcount s i * bsize s i \<le> 4084"
proof -
  have "i \<in> {0, 1, 2, 3, 4, 5, 6}" using assms descs_ok_len by fastforce
  then show "0 < bsize s i" "2 < bcount s i" "bcount s i < 256" "bcount s i * bsize s i \<le> 4084"
    unfolding descs_ok_nth [OF assms] by (auto simp: sizes_def)
qed

text \<open>The addresses of the blocks of an arena at \<open>a\<close>, and the pages of an arena.\<close>

definition blocks :: "heap \<Rightarrow> nat \<Rightarrow> nat \<Rightarrow> nat set" where
  "blocks s i a = (\<lambda>k. a + 12 + k * bsize s i) ` {..<bcount s i}"

definition npages :: "arena \<Rightarrow> nat" where
  "npages ar = (case adesc ar of None \<Rightarrow> free_cnt ar | Some _ \<Rightarrow> 1)"

definition extent :: "heap \<Rightarrow> nat \<Rightarrow> nat option" where
  "extent s a = map_option npages (arenas s a)"

text \<open>Arenas have pages of the kernel pool, each its own.\<close>

definition space_ok :: "palloc \<Rightarrow> (nat \<Rightarrow> nat option) \<Rightarrow> bool" where
  "space_ok f N \<longleftrightarrow> palloc_ok f \<and>
     (\<forall>a n. N a = Some n \<longrightarrow> a \<noteq> 0 \<and> a mod 4096 = 0 \<and> 0 < n \<and> page_run a n \<subseteq> kernel_pages f) \<and>
     (\<forall>a a' n n'. N a = Some n \<longrightarrow> N a' = Some n' \<longrightarrow> a \<noteq> a' \<longrightarrow> page_run a n \<inter> page_run a' n' = {})"

text \<open>Free blocks are blocks of arenas, and the arenas know how many of theirs are free.\<close>

definition lists_ok :: "heap \<Rightarrow> bool" where
  "lists_ok s \<longleftrightarrow>
     (\<forall>a ar i. arenas s a = Some ar \<longrightarrow> adesc ar = Some i \<longrightarrow>
        i < length (descs s) \<and> free_cnt ar = card (set (flist s i) \<inter> blocks s i a)) \<and>
     (\<forall>i < length (descs s). distinct (flist s i) \<and>
        (\<forall>b \<in> set (flist s i). \<exists>a ar. arenas s a = Some ar \<and> adesc ar = Some i \<and> b \<in> blocks s i a))"

text \<open>\<open>full s\<close> are the arenas without a block in use; between calls there are none.\<close>

definition full :: "heap \<Rightarrow> nat set" where
  "full s = {a. \<exists>ar i. arenas s a = Some ar \<and> adesc ar = Some i \<and> free_cnt ar \<ge> bcount s i}"

text \<open>The pages of the kernel that belong to nobody here.\<close>

definition others :: "heap \<Rightarrow> nat set" where
  "others s = {x \<in> kernel_pages (pages s). \<forall>a n. extent s a = Some n \<longrightarrow> x \<notin> page_run a n}"

definition heap_wf :: "heap \<Rightarrow> bool" where
  "heap_wf s \<longleftrightarrow> descs_ok s \<and> space_ok (pages s) (extent s) \<and> lists_ok s"

definition heap_ok :: "heap \<Rightarrow> bool" where
  "heap_ok s \<longleftrightarrow> heap_wf s \<and> full s = {}"

text \<open>The blocks in use, with their sizes.\<close>

definition live :: "heap \<Rightarrow> nat \<Rightarrow> nat option" where
  "live s b = (case arenas s (pg_round_down b) of None \<Rightarrow> None
     | Some ar \<Rightarrow> (case adesc ar of
         None \<Rightarrow> if pg_ofs b = 12 then Some (4096 * free_cnt ar - 12) else None
       | Some i \<Rightarrow> if b \<in> blocks s i (pg_round_down b) \<and> b \<notin> set (flist s i) then Some (bsize s i) else None))"

lemma pg_round_down_div: "pg_round_down b = 4096 * (b div 4096)"
  by (simp add: pg_round_down_def PGBITS_def push_bit_eq_mult drop_bit_eq_div)

lemma pg_split: "pg_round_down p + pg_ofs p = p"
  by (simp add: pg_round_down_div pg_ofs_mod)

lemma pg_round_down_in: "a mod 4096 = 0 \<Longrightarrow> k < 4096 \<Longrightarrow> pg_round_down (a + k) = a"
  by (auto simp: pg_round_down_div)

lemma block_within:
  assumes "descs_ok s" "i < length (descs s)" "k < bcount s i"
  shows "12 + k * bsize s i + bsize s i \<le> 4096"
proof -
  have "Suc k * bsize s i \<le> bcount s i * bsize s i" using assms(3) by (intro mult_le_mono1) simp
  then show ?thesis using descs_ok_bounds(4) [OF assms(1,2)] by simp
qed

lemma block_page:
  assumes "descs_ok s" "i < length (descs s)" "a mod 4096 = 0" "b \<in> blocks s i a"
  shows "pg_round_down b = a" and "b + bsize s i \<le> a + 4096" and "12 \<le> pg_ofs b" and "(pg_ofs b - 12) mod bsize s i = 0"
proof -
  obtain k where k: "k < bcount s i" "b = a + (12 + k * bsize s i)"
    using assms(4) by (auto simp: blocks_def add.assoc)
  have lt: "12 + k * bsize s i < 4096" and le: "12 + k * bsize s i + bsize s i \<le> 4096"
    using block_within [OF assms(1,2) k(1)] descs_ok_bounds(1) [OF assms(1,2)] by simp_all
  show "pg_round_down b = a" unfolding k(2) using assms(3) lt by (rule pg_round_down_in)
  show "b + bsize s i \<le> a + 4096" using le k(2) by simp
  have "b mod 4096 = 12 + k * bsize s i" using mod_add_left_eq [of a 4096 "12 + k * bsize s i"] k(2) assms(3) lt by simp
  then show "12 \<le> pg_ofs b" "(pg_ofs b - 12) mod bsize s i = 0" by (simp_all add: pg_ofs_mod)
qed

lemma card_blocks:
  assumes "descs_ok s" "i < length (descs s)"
  shows "card (blocks s i a) = bcount s i" and "finite (blocks s i a)"
proof -
  have "inj_on (\<lambda>k. a + 12 + k * bsize s i) {..<bcount s i}"
    using descs_ok_bounds(1) [OF assms] by (auto simp: inj_on_def)
  then show "card (blocks s i a) = bcount s i" by (simp add: blocks_def card_image)
qed (simp add: blocks_def)

section \<open>Facts of well-formed heaps\<close>

lemma heap_wf_arena:
  assumes "heap_wf s" "arenas s a = Some ar"
  shows "a \<noteq> 0" and "a mod 4096 = 0" and "0 < npages ar" and "page_run a (npages ar) \<subseteq> kernel_pages (pages s)"
  using assms by (auto simp: heap_wf_def space_ok_def extent_def)

lemma heap_wf_small:
  assumes "heap_wf s" "arenas s a = Some ar" "adesc ar = Some i"
  shows "i < length (descs s)" and "free_cnt ar = card (set (flist s i) \<inter> blocks s i a)"
  using assms by (auto simp: heap_wf_def lists_ok_def)

lemma heap_wf_descs: "heap_wf s \<Longrightarrow> descs_ok s"
  by (simp add: heap_wf_def)

lemma heap_wf_free:
  assumes "heap_wf s" "i < length (descs s)"
  shows "distinct (flist s i)"
    and "b \<in> set (flist s i) \<Longrightarrow> \<exists>ar. arenas s (pg_round_down b) = Some ar \<and> adesc ar = Some i \<and> b \<in> blocks s i (pg_round_down b)"
proof -
  show "distinct (flist s i)" using assms by (simp add: heap_wf_def lists_ok_def)
  assume "b \<in> set (flist s i)"
  then obtain a ar where a: "arenas s a = Some ar" "adesc ar = Some i" "b \<in> blocks s i a"
    using assms unfolding heap_wf_def lists_ok_def by blast
  have "pg_round_down b = a"
    using block_page(1) [OF heap_wf_descs [OF assms(1)] assms(2) heap_wf_arena(2) [OF assms(1) a(1)] a(3)] .
  with a show "\<exists>ar. arenas s (pg_round_down b) = Some ar \<and> adesc ar = Some i \<and> b \<in> blocks s i (pg_round_down b)" by blast
qed

lemma live_here:
  assumes "arenas s (pg_round_down p) = Some ar" "live s p = Some m"
  shows "adesc ar = None \<and> pg_ofs p = 12 \<and> m = 4096 * free_cnt ar - 12 \<or>
    (\<exists>i. adesc ar = Some i \<and> p \<in> blocks s i (pg_round_down p) \<and> p \<notin> set (flist s i) \<and> m = bsize s i)"
  using assms by (auto simp: live_def split: option.splits if_splits)

text \<open>A block lies inside its arena, and behind the header.\<close>

lemma live_inside:
  assumes "heap_wf s" "live s p = Some m"
  shows "\<exists>ar. arenas s (pg_round_down p) = Some ar \<and> pg_round_down p + 12 \<le> p \<and> p + m \<le> pg_round_down p + 4096 * npages ar"
proof -
  let ?a = "pg_round_down p"
  obtain ar where ar: "arenas s ?a = Some ar" using assms(2) by (auto simp: live_def split: option.splits)
  note p = pg_split [of p]
  show ?thesis
  proof (cases "adesc ar")
    case None
    with ar assms(2) have "pg_ofs p = 12" "m = 4096 * free_cnt ar - 12" by (auto simp: live_def split: if_splits)
    moreover have "0 < free_cnt ar" using heap_wf_arena(3) [OF assms(1) ar] None by (simp add: npages_def)
    ultimately show ?thesis using ar None p by (auto simp: npages_def)
  next
    case (Some i)
    with ar assms(2) have b: "p \<in> blocks s i ?a" "m = bsize s i" by (auto simp: live_def split: if_splits)
    note bp = block_page [OF heap_wf_descs [OF assms(1)] heap_wf_small(1) [OF assms(1) ar Some] heap_wf_arena(2) [OF assms(1) ar] b(1)]
    show ?thesis using ar Some b(2) bp(2,3) p by (auto simp: npages_def)
  qed
qed

lemma blocks_disjoint:
  assumes "p \<in> blocks s i a" "q \<in> blocks s i a" "p \<noteq> q"
  shows "{p..<p + bsize s i} \<inter> {q..<q + bsize s i} = {}"
proof -
  obtain k l where k: "p = a + 12 + k * bsize s i" "q = a + 12 + l * bsize s i" using assms(1,2) by (auto simp: blocks_def)
  with assms(3) have "k < l \<or> l < k" by (metis nat_neq_iff)
  then have "Suc k * bsize s i \<le> l * bsize s i \<or> Suc l * bsize s i \<le> k * bsize s i"
    by (metis Suc_leI mult_le_mono1)
  then show ?thesis by (auto simp: k)
qed

lemma live_disjoint:
  assumes "heap_wf s" "live s p = Some m" "live s q = Some n" "p \<noteq> q"
  shows "{p..<p + m} \<inter> {q..<q + n} = {}"
proof -
  let ?a = "pg_round_down p" and ?b = "pg_round_down q"
  obtain ar where ar: "arenas s ?a = Some ar" "?a + 12 \<le> p" "p + m \<le> ?a + 4096 * npages ar"
    using live_inside [OF assms(1,2)] by blast
  obtain br where br: "arenas s ?b = Some br" "?b + 12 \<le> q" "q + n \<le> ?b + 4096 * npages br"
    using live_inside [OF assms(1,3)] by blast
  show ?thesis
  proof (cases "?a = ?b")
    case False
    then have "page_run ?a (npages ar) \<inter> page_run ?b (npages br) = {}"
      using assms(1) ar(1) br(1) by (auto simp: heap_wf_def space_ok_def extent_def)
    then have "{?a..<?a + 4096 * npages ar} \<inter> {?b..<?b + 4096 * npages br} = {}"
      using heap_wf_arena(2) [OF assms(1)] ar(1) br(1) by (intro bytes_disjoint) auto
    moreover have "{p..<p + m} \<subseteq> {?a..<?a + 4096 * npages ar}" "{q..<q + n} \<subseteq> {?b..<?b + 4096 * npages br}"
      using ar(2,3) br(2,3) by auto
    ultimately show ?thesis by blast
  next
    case True
    have "pg_ofs p \<noteq> pg_ofs q" using True assms(4) by (metis mult_div_mod_eq pg_ofs_mod pg_round_down_div)
    with live_here [OF ar(1) assms(2)] live_here [of s q br n, folded True] assms(3) ar(1) br(1) True
    obtain i where "p \<in> blocks s i ?a" "q \<in> blocks s i ?a" "m = bsize s i" "n = bsize s i" by auto
    then show ?thesis using blocks_disjoint assms(4) by blast
  qed
qed

lemma live_not_null: "heap_wf s \<Longrightarrow> live s p = Some m \<Longrightarrow> p \<noteq> 0"
  using live_inside by fastforce

section \<open>Changes of a heap\<close>

lemma descs_set_list:
  "descs (set_list i l s) ! j = (if j = i \<and> i < length (descs s) then (descs s ! i)\<lparr>block_list := l\<rparr> else descs s ! j)"
  by (cases "i < length (descs s)") (simp_all add: set_list_def nth_list_update list_update_beyond)

lemma set_list_simps [simp]:
  "arenas (set_list i l s) = arenas s" "pages (set_list i l s) = pages s" "length (descs (set_list i l s)) = length (descs s)"
  "bsize (set_list i l s) j = bsize s j" "bcount (set_list i l s) j = bcount s j"
  by (simp_all add: descs_set_list) (simp_all add: set_list_def)

lemma flist_set_list [simp]: "i < length (descs s) \<Longrightarrow> flist (set_list i l s) j = (if j = i then l else flist s j)"
  by (simp add: descs_set_list)

lemma blocks_cong:
  "blocks (set_list i l s) = blocks s" "blocks (s\<lparr>arenas := A\<rparr>) = blocks s" "blocks (s\<lparr>pages := f\<rparr>) = blocks s"
  "blocks (s\<lparr>pages := f, arenas := A\<rparr>) = blocks s"
  by (simp_all add: blocks_def fun_eq_iff)

lemma descs_ok_cong:
  "i < length (descs s) \<Longrightarrow> descs_ok (set_list i l s) = descs_ok s" "descs_ok (s\<lparr>arenas := A\<rparr>) = descs_ok s"
  "descs_ok (s\<lparr>pages := f\<rparr>) = descs_ok s"
proof -
  assume i: "i < length (descs s)"
  have "map block_size (descs (set_list i l s)) = map block_size (descs s)"
    "map blocks_per_arena (descs (set_list i l s)) = map blocks_per_arena (descs s)"
    by (auto simp: list_eq_iff_nth_eq)
  then show "descs_ok (set_list i l s) = descs_ok s" by (simp add: descs_ok_def)
qed (simp_all add: descs_ok_def)

lemma space_ok_add:
  assumes "space_ok f N" "palloc_ok f'" "page_run a n \<inter> kernel_pages f = {}" "kernel_pages f' = kernel_pages f \<union> page_run a n"
    "a \<noteq> 0" "a mod 4096 = 0" "0 < n"
  shows "space_ok f' (N(a \<mapsto> n))" and "N a = None"
proof -
  have "page_run a n \<inter> page_run b m = {}" "page_run b m \<inter> page_run a n = {}" if "N b = Some m" for b m
    using assms(1,3) that by (auto simp: space_ok_def)
  then show "space_ok f' (N(a \<mapsto> n))"
    using assms unfolding space_ok_def by (auto 4 4 split: if_splits)
  show "N a = None"
  proof (rule ccontr)
    assume "N a \<noteq> None"
    then obtain m where "N a = Some m" by auto
    then have "a \<in> kernel_pages f" using assms(1) first_in_page_run unfolding space_ok_def by blast
    then show False using first_in_page_run [OF assms(7)] assms(3) by blast
  qed
qed

lemma space_ok_del:
  assumes "space_ok f N" "palloc_ok f'" "N a = Some n" "kernel_pages f' = kernel_pages f - page_run a n"
  shows "space_ok f' (N(a := None))"
proof -
  have "page_run b m \<subseteq> kernel_pages f'" if "N b = Some m" "b \<noteq> a" for b m
    using assms(1,3,4) that unfolding space_ok_def by blast
  then show ?thesis using assms(1,2) unfolding space_ok_def by (auto split: if_splits)
qed

text \<open>The blocks of other arenas are elsewhere.\<close>

lemma blocks_apart:
  assumes "heap_wf s" "i < length (descs s)" "a mod 4096 = 0" "a' mod 4096 = 0" "a \<noteq> a'"
  shows "blocks s i a \<inter> blocks s i a' = {}"
  using block_page(1) [OF heap_wf_descs [OF assms(1)] assms(2) assms(3)]
    block_page(1) [OF heap_wf_descs [OF assms(1)] assms(2) assms(4)] assms(5) by (metis disjoint_iff)

text \<open>A new list of free blocks, which differs from the old one in the blocks of one arena only.\<close>

definition relist :: "nat \<Rightarrow> nat \<Rightarrow> nat list \<Rightarrow> heap \<Rightarrow> heap" where
  "relist i a l s = (set_list i l s)\<lparr>arenas := (arenas s)(a \<mapsto> (the (arenas s a))\<lparr>free_cnt := card (set l \<inter> blocks s i a)\<rparr>)\<rparr>"

lemma relist_extent:
  assumes "arenas s a = Some ar" "adesc ar = Some i"
  shows "extent (relist i a l s) = extent s" and "others (relist i a l s) = others s"
proof -
  show "extent (relist i a l s) = extent s" using assms by (auto simp: extent_def relist_def fun_eq_iff npages_def)
  then show "others (relist i a l s) = others s" by (simp add: others_def relist_def)
qed

lemma relist_simps:
  assumes "arenas s a = Some ar" "i < length (descs s)"
  shows "arenas (relist i a l s) = (arenas s)(a \<mapsto> ar\<lparr>free_cnt := card (set l \<inter> blocks s i a)\<rparr>)" "pages (relist i a l s) = pages s"
    "length (descs (relist i a l s)) = length (descs s)" "bsize (relist i a l s) j = bsize s j" "bcount (relist i a l s) j = bcount s j"
    "flist (relist i a l s) j = (if j = i then l else flist s j)" "blocks (relist i a l s) = blocks s" "descs_ok (relist i a l s) = descs_ok s"
  using assms by (auto simp: relist_def blocks_cong descs_ok_cong)

lemma relist_lists_ok:
  assumes wf: "heap_wf s" and ar: "arenas s a = Some ar" "adesc ar = Some i" and l: "distinct l" "set l - blocks s i a = set (flist s i) - blocks s i a"
  shows "lists_ok (relist i a l s)"
proof -
  have i: "i < length (descs s)" by (rule heap_wf_small(1) [OF wf ar])
  note A = relist_simps [OF ar(1) i, of l]
  have other: "set l \<inter> blocks s i b = set (flist s i) \<inter> blocks s i b" if "arenas s b = Some br" "b \<noteq> a" for b br
    using blocks_apart [OF wf i heap_wf_arena(2) [OF wf that(1)] heap_wf_arena(2) [OF wf ar(1)] that(2)] l(2) by blast
  show ?thesis
    unfolding lists_ok_def A
  proof (intro conjI allI impI)
    fix b br j
    assume b: "((arenas s)(a \<mapsto> ar\<lparr>free_cnt := card (set l \<inter> blocks s i a)\<rparr>)) b = Some br" "adesc br = Some j"
    then show "j < length (descs s)" using i ar heap_wf_small(1) [OF wf] by (auto split: if_splits)
    show "free_cnt br = card (set (if j = i then l else flist s j) \<inter> blocks s j b)"
    proof (cases "b = a")
      case True then show ?thesis using b ar by auto
    next
      case False then show ?thesis using b heap_wf_small(2) [OF wf, of b br j] other by auto
    qed
  next
    fix j assume j: "j < length (descs s)"
    show "distinct (if j = i then l else flist s j)" using l(1) heap_wf_free(1) [OF wf j] by simp
    show "\<forall>b \<in> set (if j = i then l else flist s j). \<exists>a' ar'. ((arenas s)(a \<mapsto> ar\<lparr>free_cnt := card (set l \<inter> blocks s i a)\<rparr>)) a' = Some ar' \<and>
      adesc ar' = Some j \<and> b \<in> blocks s j a'"
    proof
      fix b assume b: "b \<in> set (if j = i then l else flist s j)"
      show "\<exists>a' ar'. ((arenas s)(a \<mapsto> ar\<lparr>free_cnt := card (set l \<inter> blocks s i a)\<rparr>)) a' = Some ar' \<and> adesc ar' = Some j \<and> b \<in> blocks s j a'"
      proof (cases "j = i \<and> b \<in> blocks s i a")
        case True then show ?thesis using ar(2) by (intro exI [of _ a]) auto
      next
        case False
        then have "b \<in> set (flist s j)" using b l(2) by (auto split: if_splits)
        from heap_wf_free(2) [OF wf j this] obtain ar' where "arenas s (pg_round_down b) = Some ar'" "adesc ar' = Some j" "b \<in> blocks s j (pg_round_down b)"
          by blast
        then show ?thesis using ar by (intro exI [of _ "pg_round_down b"]) auto
      qed
    qed
  qed
qed

lemma relist_ok:
  assumes wf: "heap_wf s" and ar: "arenas s a = Some ar" "adesc ar = Some i" and l: "distinct l" "set l - blocks s i a = set (flist s i) - blocks s i a"
  shows "heap_wf (relist i a l s)"
    and "live (relist i a l s) p = (if pg_round_down p \<noteq> a then live s p else if p \<in> blocks s i a \<and> p \<notin> set l then Some (bsize s i) else None)"
    and "full (relist i a l s) = full s - {a} \<union> (if bcount s i \<le> card (set l \<inter> blocks s i a) then {a} else {})"
proof -
  let ?s = "relist i a l s"
  have i: "i < length (descs s)" by (rule heap_wf_small(1) [OF wf ar])
  note A = relist_simps [OF ar(1) i, of l]
  have "lists_ok ?s" "extent ?s = extent s" using relist_lists_ok [OF assms] relist_extent(1) [OF ar] by simp_all
  then show "heap_wf ?s" using wf by (simp add: heap_wf_def A)
  show "live ?s p = (if pg_round_down p \<noteq> a then live s p else if p \<in> blocks s i a \<and> p \<notin> set l then Some (bsize s i) else None)"
  proof (cases "pg_round_down p = a")
    case True then show ?thesis using ar(2) by (simp add: live_def A)
  next
    case False
    have "p \<in> set l \<longleftrightarrow> p \<in> set (flist s i)" if "p \<in> blocks s i (pg_round_down p)"
      using that l(2) block_page(1) [OF heap_wf_descs [OF wf] i heap_wf_arena(2) [OF wf ar(1)], of p] False by blast
    then show ?thesis using False by (auto simp: live_def A split: option.splits)
  qed
  show "full ?s = full s - {a} \<union> (if bcount s i \<le> card (set l \<inter> blocks s i a) then {a} else {})"
    using ar by (auto simp: full_def A split: if_splits)
qed

text \<open>A new arena, for one large block or with a free list that does not know of it yet.\<close>

lemma add_arena_ok:
  assumes wf: "heap_wf s" and f: "palloc_ok f" "page_run a (npages ar) \<inter> kernel_pages (pages s) = {}"
      "kernel_pages f = kernel_pages (pages s) \<union> page_run a (npages ar)" "a \<noteq> 0" "a mod 4096 = 0" "0 < npages ar"
    and ar: "\<forall>i. adesc ar = Some i \<longrightarrow> i < length (descs s) \<and> free_cnt ar = 0"
  shows "heap_wf (s\<lparr>pages := f, arenas := (arenas s)(a \<mapsto> ar)\<rparr>)"
    and "arenas s a = None" and "pg_round_down p \<noteq> a \<Longrightarrow> live (s\<lparr>pages := f, arenas := (arenas s)(a \<mapsto> ar)\<rparr>) p = live s p"
    and "full (s\<lparr>pages := f, arenas := (arenas s)(a \<mapsto> ar)\<rparr>) = full s"
    and "i < length (descs s) \<Longrightarrow> set (flist s i) \<inter> blocks s i a = {}"
    and "others (s\<lparr>pages := f, arenas := (arenas s)(a \<mapsto> ar)\<rparr>) = others s"
proof -
  let ?s = "s\<lparr>pages := f, arenas := (arenas s)(a \<mapsto> ar)\<rparr>"
  have E: "extent ?s = (extent s)(a \<mapsto> npages ar)" by (auto simp: extent_def)
  have sp: "space_ok f (extent ?s)" "extent s a = None"
    unfolding E using space_ok_add [OF _ f] wf by (simp_all add: heap_wf_def)
  then show none: "arenas s a = None" by (simp add: extent_def)
  show "others ?s = others s"
    using f(2,3) sp(2) unfolding others_def E by (auto split: if_splits)
  show unlisted: "set (flist s i) \<inter> blocks s i a = {}" if i: "i < length (descs s)" for i
    using heap_wf_free(2) [OF wf i] none block_page(1) [OF heap_wf_descs [OF wf] i f(5)] by fastforce
  have "lists_ok ?s"
    unfolding lists_ok_def blocks_cong
  proof (intro conjI allI impI ballI)
    fix b br j
    assume b: "arenas ?s b = Some br" "adesc br = Some j"
    then show "j < length (descs ?s)" using ar heap_wf_small(1) [OF wf] by (auto split: if_splits)
    show "free_cnt br = card (set (flist ?s j) \<inter> blocks s j b)"
      using b ar heap_wf_small(2) [OF wf, of b br j] unlisted by (auto split: if_splits)
  next
    fix j assume j: "j < length (descs ?s)"
    then show "distinct (flist ?s j)" using heap_wf_free(1) [OF wf] by simp
    fix b assume "b \<in> set (flist ?s j)"
    then obtain br where "arenas s (pg_round_down b) = Some br" "adesc br = Some j" "b \<in> blocks s j (pg_round_down b)"
      using heap_wf_free(2) [OF wf, of j b] j by auto
    then show "\<exists>a br. arenas ?s a = Some br \<and> adesc br = Some j \<and> b \<in> blocks s j a"
      using none by (intro exI [of _ "pg_round_down b"]) auto
  qed
  then show "heap_wf ?s" using wf sp(1) by (simp add: heap_wf_def descs_ok_cong)
  show "pg_round_down p \<noteq> a \<Longrightarrow> live ?s p = live s p"
    by (simp add: live_def blocks_cong split: option.split)
  have "0 < bcount s i" if "adesc ar = Some i" for i
    using ar that descs_ok_bounds(2) [OF heap_wf_descs [OF wf], of i] by simp
  then show "full ?s = full s" using ar none by (force simp: full_def)
qed

text \<open>An arena without free blocks on the list can go, with its pages.\<close>

lemma drop_arena_ok:
  assumes wf: "heap_wf s" and ar: "arenas s a = Some ar" "\<forall>i. adesc ar = Some i \<longrightarrow> set (flist s i) \<inter> blocks s i a = {}"
    and f: "palloc_ok f" "kernel_pages f = kernel_pages (pages s) - page_run a (npages ar)"
  shows "heap_wf (s\<lparr>pages := f, arenas := (arenas s)(a := None)\<rparr>)"
    and "live (s\<lparr>pages := f, arenas := (arenas s)(a := None)\<rparr>) p = (if pg_round_down p = a then None else live s p)"
    and "full (s\<lparr>pages := f, arenas := (arenas s)(a := None)\<rparr>) = full s - {a}"
    and "others (s\<lparr>pages := f, arenas := (arenas s)(a := None)\<rparr>) = others s"
proof -
  let ?s = "s\<lparr>pages := f, arenas := (arenas s)(a := None)\<rparr>"
  have E: "extent ?s = (extent s)(a := None)" by (auto simp: extent_def)
  show "others ?s = others s"
  proof -
    have "extent s a = Some (npages ar)" using ar(1) by (simp add: extent_def)
    then have "x \<notin> page_run a (npages ar) \<and> (\<forall>b n. ((extent s)(a := None)) b = Some n \<longrightarrow> x \<notin> page_run b n) \<longleftrightarrow>
        (\<forall>b n. extent s b = Some n \<longrightarrow> x \<notin> page_run b n)" for x
      by (auto split: if_splits) (metis option.inject)
    then show ?thesis using f(2) unfolding others_def E by auto
  qed
  have "space_ok f (extent ?s)"
    unfolding E using space_ok_del [OF _ f(1) _ f(2), of "extent s"] wf ar(1) by (simp add: heap_wf_def extent_def)
  moreover have "lists_ok ?s"
    unfolding lists_ok_def blocks_cong
  proof (intro conjI allI impI ballI)
    fix b br j
    assume "arenas ?s b = Some br" "adesc br = Some j"
    then show "j < length (descs ?s)" "free_cnt br = card (set (flist ?s j) \<inter> blocks s j b)"
      using heap_wf_small [OF wf, of b br j] by (auto split: if_splits)
  next
    fix j assume j: "j < length (descs ?s)"
    then show "distinct (flist ?s j)" using heap_wf_free(1) [OF wf] by simp
    fix b assume "b \<in> set (flist ?s j)"
    then obtain br where "arenas s (pg_round_down b) = Some br" "adesc br = Some j" "b \<in> blocks s j (pg_round_down b)" "b \<in> set (flist s j)"
      using heap_wf_free(2) [OF wf, of j b] j by auto
    then show "\<exists>a br. arenas ?s a = Some br \<and> adesc br = Some j \<and> b \<in> blocks s j a"
      using ar by (intro exI [of _ "pg_round_down b"]) auto
  qed
  ultimately show "heap_wf ?s" using wf by (simp add: heap_wf_def descs_ok_cong)
  show "live ?s p = (if pg_round_down p = a then None else live s p)" "full ?s = full s - {a}"
    by (auto simp: live_def blocks_cong full_def split: option.split)
qed

section \<open>Lists of blocks\<close>

lemma arena_to_block_eq:
  assumes "arenas s a = Some ar" "adesc ar = Some i" "a \<noteq> 0" "k < bcount s i"
  shows "arena_to_block a k s = Some (a + 12 + k * bsize s i)"
  using assms by (simp add: arena_to_block_def ARENA_SIZE_def)

lemma set_list_again: "set_list i l (set_list i l' s) = set_list i l s"
  by (cases "i < length (descs s)") (simp_all add: set_list_def list_update_beyond)

lemma set_list_arenas: "set_list i l (s\<lparr>arenas := A\<rparr>) = (set_list i l s)\<lparr>arenas := A\<rparr>"
  by (cases s) (simp add: set_list_def)

lemma push_blocks_eq:
  assumes "arenas s a = Some ar" "adesc ar = Some i" "a \<noteq> 0" "k + n \<le> bcount s i" "i < length (descs s)"
  shows "push_blocks i a k n s = Some (set_list i (flist s i @ map (\<lambda>k. a + 12 + k * bsize s i) [k..<k + n]) s)"
  using assms
proof (induction n arbitrary: k s)
  case 0
  then show ?case by (simp add: set_list_def)
next
  case (Suc n)
  then show ?case
    using upt_conv_Cons [of k "Suc (k + n)"] by (simp add: arena_to_block_eq set_list_again)
qed

lemma remove_blocks_eq:
  assumes "arenas s a = Some ar" "adesc ar = Some i" "a \<noteq> 0" "k + n \<le> bcount s i" "i < length (descs s)" "distinct (flist s i)"
  shows "remove_blocks i a k n s = Some (set_list i (filter (\<lambda>b. b \<notin> (\<lambda>k. a + 12 + k * bsize s i) ` {k..<k + n}) (flist s i)) s)"
  using assms
proof (induction n arbitrary: k s)
  case 0
  then show ?case by (simp add: set_list_def)
next
  case (Suc n)
  have "{k..<k + Suc n} = insert k {Suc k..<Suc k + n}" by auto
  with Suc show ?case
    by (simp add: arena_to_block_eq set_list_again distinct_remove1_removeAll removeAll_filter_not_eq conj_commute eq_commute [of "a + 12 + k * bsize s i"])
qed

lemma block_to_arena_eq:
  assumes "descs_ok s" "arenas s a = Some ar" "a = pg_round_down b" "a \<noteq> 0"
    "case adesc ar of None \<Rightarrow> pg_ofs b = 12 | Some i \<Rightarrow> i < length (descs s) \<and> b \<in> blocks s i a"
  shows "block_to_arena b s = Some (a, ar)"
proof (cases "adesc ar")
  case None
  with assms show ?thesis by (simp add: block_to_arena_def ARENA_SIZE_def)
next
  case (Some i)
  have "a mod 4096 = 0" by (simp add: assms(3) pg_round_down_div)
  with Some assms(5) have b: "12 \<le> pg_ofs b" "(pg_ofs b - 12) mod bsize s i = 0"
    using block_page(3,4) [OF assms(1), of i a b] by simp_all
  have "pg_ofs b + 2 ^ 32 - 12 = (pg_ofs b - 12) + 2 ^ 32" "pg_ofs b < 4096" using b(1) by (simp_all add: pg_ofs_mod)
  then have "(pg_ofs b + 2 ^ 32 - 12) mod 2 ^ 32 = pg_ofs b - 12" by (simp only: mod_add_self2) simp
  with Some b(2) assms(2-4) show ?thesis by (simp add: block_to_arena_def ARENA_SIZE_def)
qed

section \<open>malloc\<close>

text \<open>Which descriptor a request gets.\<close>

lemma find_desc_Some: "find_desc ds n = Some i \<Longrightarrow> i < length ds \<and> n \<le> block_size (ds ! i)"
  by (induction ds arbitrary: i) (auto split: if_splits)

lemma find_desc_None: "find_desc ds n = None \<longleftrightarrow> (\<forall>d \<in> set ds. block_size d < n)"
  by (induction ds) auto

lemma find_desc_large:
  assumes "descs_ok s"
  shows "find_desc (descs s) n = None \<longleftrightarrow> 1024 < n"
proof -
  have "(\<forall>d \<in> set (descs s). block_size d < n) \<longleftrightarrow> (\<forall>m \<in> set (map block_size (descs s)). m < n)" by simp
  also have "map block_size (descs s) = sizes" using assms by (simp add: descs_ok_def)
  also have "(\<forall>m \<in> set sizes. m < n) \<longleftrightarrow> 1024 < n" by (auto simp: sizes_def)
  finally show ?thesis by (simp only: find_desc_None)
qed

lemma bounded_mod_dec: "0 < c \<Longrightarrow> c < 256 \<Longrightarrow> (c + 2 ^ 32 - 1) mod 2 ^ 32 = c - (1 :: nat)"
proof -
  assume c: "0 < c" "c < 256"
  then have "c + 2 ^ 32 - 1 = (c - 1) + 2 ^ 32" by simp
  then show ?thesis using c by (simp only: mod_add_self2) simp
qed

text \<open>Taking the first free block.\<close>

definition take_block :: "nat \<Rightarrow> heap \<Rightarrow> (heap \<times> nat) option" where
  "take_block i s = (case flist s i of
     [] \<Rightarrow> None
   | b # l \<Rightarrow> do {
       let s = set_list i l s;
       (a, ar) \<leftarrow> block_to_arena b s;
       Some (s\<lparr>arenas := (arenas s)(a \<mapsto> ar\<lparr>free_cnt := (free_cnt ar + 2 ^ 32 - 1) mod 2 ^ 32\<rparr>)\<rparr>, b) })"

lemma take_block_ok:
  assumes wf: "heap_wf s" and i: "i < length (descs s)" and l: "flist s i = b # l"
  shows "\<exists>s'. take_block i s = Some (s', b) \<and> heap_wf s' \<and> full s' = full s - {pg_round_down b} \<and> pages s' = pages s \<and> others s' = others s \<and>
    live s b = None \<and> live s' = (live s)(b \<mapsto> bsize s i)"
proof -
  let ?a = "pg_round_down b"
  obtain ar where ar: "arenas s ?a = Some ar" "adesc ar = Some i" "b \<in> blocks s i ?a"
    using heap_wf_free(2) [OF wf i, of b] l by auto
  note D = heap_wf_descs [OF wf]
  have dist: "distinct l" "b \<notin> set l" using heap_wf_free(1) [OF wf i] l by simp_all
  have cnt: "free_cnt ar = card (set (flist s i) \<inter> blocks s i ?a)" by (rule heap_wf_small(2) [OF wf ar(1,2)])
  have dec: "card (set l \<inter> blocks s i ?a) = free_cnt ar - 1" "0 < free_cnt ar"
    unfolding cnt l using ar(3) dist(2) by simp_all
  have le: "free_cnt ar \<le> bcount s i"
    unfolding cnt using card_mono [OF card_blocks(2) [OF D i], of "set (flist s i) \<inter> blocks s i ?a" ?a] card_blocks(1) [OF D i] by simp
  have full: "card (set l \<inter> blocks s i ?a) < bcount s i" "free_cnt ar < 256"
    using dec le descs_ok_bounds(3) [OF D i] by simp_all
  have bta: "block_to_arena b (set_list i l s) = Some (?a, ar)"
    using ar i D heap_wf_arena(1) [OF wf ar(1)] by (intro block_to_arena_eq) (simp_all add: descs_ok_cong blocks_cong)
  then have "take_block i s = Some (relist i ?a l s, b)"
    using l ar(1) dec(1) bounded_mod_dec [OF dec(2) full(2)] by (simp add: take_block_def relist_def)
  moreover have sub: "set l - blocks s i ?a = set (flist s i) - blocks s i ?a" using l ar(3) by auto
  note R = relist_ok [OF wf ar(1,2) dist(1) sub]
  have "live s b = None" using ar l by (simp add: live_def)
  moreover have "live (relist i ?a l s) p = ((live s)(b \<mapsto> bsize s i)) p" for p
    unfolding R(2) using ar l dist by (auto simp: live_def)
  moreover have "pages (relist i ?a l s) = pages s" by (simp add: relist_def)
  ultimately show ?thesis using R(1,3) full(1) relist_extent(2) [OF ar(1,2)] by auto
qed

text \<open>Making a new arena for an empty list.\<close>

definition new_arena :: "nat \<Rightarrow> heap \<Rightarrow> (heap \<times> bool) option" where
  "new_arena i s = do {
     (f, a) \<leftarrow> palloc_get_page 0 (pages s);
     let s = s\<lparr>pages := f\<rparr>;
     if a = 0 then Some (s, False)
     else do {
       let cnt = bcount s i;
       s \<leftarrow> push_blocks i a 0 cnt (s\<lparr>arenas := (arenas s)(a \<mapsto> \<lparr>adesc = Some i, free_cnt = cnt\<rparr>)\<rparr>);
       Some (s, True) } }"

lemma new_arena_ok:
  assumes ok: "heap_ok s" and i: "i < length (descs s)" and l: "flist s i = []"
  shows "\<exists>s' r. new_arena i s = Some (s', r) \<and> memory (pages s') = memory (pages s) \<and>
    (if r then heap_wf s' \<and> length (descs s') = length (descs s) \<and> bsize s' i = bsize s i \<and> live s' = live s \<and> others s' = others s \<and>
       (\<exists>b l. flist s' i = b # l \<and> full s' = {pg_round_down b})
     else s' = s \<and> no_run 1 (pages s))"
proof -
  have wf: "heap_wf s" and full: "full s = {}" using ok by (simp_all add: heap_ok_def)
  note D = heap_wf_descs [OF wf]
  obtain f a where f: "palloc_get_multiple 0 1 (pages s) = Some (f, a)" "palloc_ok f" "memory f = memory (pages s)"
    "if a = 0 then f = pages s \<and> no_run 1 (pages s)
     else a mod 4096 = 0 \<and> page_run a 1 \<inter> kernel_pages (pages s) = {} \<and> kernel_pages f = kernel_pages (pages s) \<union> page_run a 1"
    using kernel_get [of "pages s" 1] wf by (auto simp: heap_wf_def space_ok_def)
  show ?thesis
  proof (cases "a = 0")
    case True
    then have "new_arena i s = Some (s, False)" using f by (simp add: new_arena_def palloc_get_page_def)
    then show ?thesis using True f by (intro exI [of _ s] exI [of _ False]) simp
  next
    case False
    let ?ar = "\<lparr>adesc = Some i, free_cnt = 0\<rparr>"
    let ?s = "s\<lparr>pages := f, arenas := (arenas s)(a \<mapsto> ?ar)\<rparr>"
    let ?l = "map (\<lambda>k. a + 12 + k * bsize s i) [0..<bcount s i]"
    have al: "a mod 4096 = 0" using f(4) False by simp
    note A = add_arena_ok [OF wf f(2), of a ?ar]
    have S: "heap_wf ?s" "arenas s a = None" "full ?s = {}" "\<And>p. pg_round_down p \<noteq> a \<Longrightarrow> live ?s p = live s p" "others ?s = others s"
      using A f(4) False i full by (simp_all add: npages_def)
    have set: "set ?l = blocks ?s i a" by (auto simp: blocks_def)
    have dist: "distinct ?l" using descs_ok_bounds(1) [OF D i] by (auto simp: distinct_map inj_on_def)
    have card: "card (set ?l \<inter> blocks ?s i a) = bcount s i" using card_blocks(1) [OF D i, of a] by (simp add: set blocks_cong del: set_map)
    have sub: "set ?l - blocks ?s i a = set (flist ?s i) - blocks ?s i a" using set l by simp
    note R = relist_ok [OF S(1) _ _ dist sub, of ?ar, simplified card]
    let ?s' = "relist i a ?l ?s"
    have "new_arena i s = Some (?s', True)"
      using f(1) False l i card push_blocks_eq [of "s\<lparr>pages := f, arenas := (arenas s)(a \<mapsto> \<lparr>adesc = Some i, free_cnt = bcount s i\<rparr>)\<rparr>" a _ i 0 "bcount s i"]
      by (simp add: new_arena_def palloc_get_page_def relist_def set_list_arenas Let_def)
    moreover have "live ?s' p = live s p" for p
      using R(2) [of p] S(2,4) set by (auto simp: live_def)
    moreover have "flist ?s' i = ?l" using i by (simp add: relist_def)
    moreover have "?l = (a + 12) # map (\<lambda>k. a + 12 + k * bsize s i) [1..<bcount s i]"
      using descs_ok_bounds(2) [OF D i] by (simp add: upt_conv_Cons)
    moreover have "pg_round_down (a + 12) = a" using al by (intro pg_round_down_in) simp_all
    moreover have "memory (pages ?s') = memory (pages s)" "length (descs ?s') = length (descs s)" "bsize ?s' i = bsize s i"
      using f(3) by (simp_all add: relist_def)
    moreover have "heap_wf ?s'" "full ?s' = {a}" using R(1,3) S(3) card by simp_all
    moreover have "others ?s' = others s" using relist_extent(2) [of ?s a ?ar i] S(5) by simp
    ultimately show ?thesis by (intro exI [of _ ?s'] exI [of _ True]) (simp add: fun_eq_iff)
  qed
qed

lemma malloc_small:
  assumes "0 < n" "find_desc (descs s) n = Some i"
  shows "malloc n s = do {
    (s, ok) \<leftarrow> (if flist s i = [] then new_arena i s else Some (s, True));
    if \<not> ok then Some (s, 0) else take_block i s }"
  using assms unfolding malloc_def new_arena_def take_block_def by simp

text \<open>\<open>served\<close> is the outcome of a request: null and no change when the pages are missing, or a new block.\<close>

definition served :: "nat \<Rightarrow> heap \<Rightarrow> heap \<Rightarrow> nat \<Rightarrow> bool" where
  "served n s s' p \<longleftrightarrow> heap_ok s' \<and> memory (pages s') = memory (pages s) \<and>
     (if p = 0 then s' = s \<and> (n = 0 \<or> no_run ((n + 4107) div 4096) (pages s))
      else live s p = None \<and> (\<exists>m \<ge> n. live s' = (live s)(p \<mapsto> m)) \<and> others s' = others s)"

lemma malloc_small_served:
  assumes ok: "heap_ok s" and n: "0 < n" "n \<le> 1024"
  shows "\<exists>s' p. malloc n s = Some (s', p) \<and> served n s s' p"
proof -
  have wf: "heap_wf s" and full: "full s = {}" using ok by (simp_all add: heap_ok_def)
  obtain i where fd: "find_desc (descs s) n = Some i"
    using find_desc_large [OF heap_wf_descs [OF wf], of n] n(2) by fastforce
  have i: "i < length (descs s)" and le: "n \<le> bsize s i" using find_desc_Some [OF fd] by simp_all
  have pc: "(n + 4107) div 4096 = 1" using n by (simp add: div_nat_eqI)
  show ?thesis
  proof (cases "flist s i")
    case (Cons b l)
    obtain s' where "take_block i s = Some (s', b)" "heap_wf s'" "full s' = {}" "pages s' = pages s" "others s' = others s" "live s b = None"
      "live s' = (live s)(b \<mapsto> bsize s i)"
      using take_block_ok [OF wf i Cons] full by auto
    moreover from this have "b \<noteq> 0" using live_not_null [of s' b] by simp
    ultimately show ?thesis using malloc_small [OF n(1) fd] Cons le by (auto simp: served_def heap_ok_def)
  next
    case Nil
    obtain s1 r where s1: "new_arena i s = Some (s1, r)" "memory (pages s1) = memory (pages s)"
      "if r then heap_wf s1 \<and> length (descs s1) = length (descs s) \<and> bsize s1 i = bsize s i \<and> live s1 = live s \<and> others s1 = others s \<and>
         (\<exists>b l. flist s1 i = b # l \<and> full s1 = {pg_round_down b})
       else s1 = s \<and> no_run 1 (pages s)"
      using new_arena_ok [OF ok i Nil] by blast
    show ?thesis
    proof (cases r)
      case False
      then show ?thesis using s1 malloc_small [OF n(1) fd] Nil ok pc by (simp add: served_def)
    next
      case True
      then obtain b l where b: "flist s1 i = b # l" "full s1 = {pg_round_down b}" "heap_wf s1" "i < length (descs s1)"
        "bsize s1 i = bsize s i" "live s1 = live s" "others s1 = others s" using s1(3) i by auto
      obtain s' where "take_block i s1 = Some (s', b)" "heap_wf s'" "full s' = {}" "pages s' = pages s1" "others s' = others s" "live s b = None"
        "live s' = (live s)(b \<mapsto> bsize s i)"
        using take_block_ok [OF b(3,4,1)] b(2,5-7) by auto
      moreover from this have "b \<noteq> 0" using live_not_null [of s' b] by simp
      ultimately show ?thesis using malloc_small [OF n(1) fd] Nil s1(1,2) True le by (auto simp: served_def heap_ok_def)
    qed
  qed
qed

text \<open>The number of pages of a large request is computed in 32 bits.\<close>

definition pages_asked :: "nat \<Rightarrow> nat" where
  "pages_asked n = (n + 4107) mod 2 ^ 32 div 4096"

lemma malloc_large:
  assumes ok: "heap_ok s" and n: "1024 < n" and c: "0 < pages_asked n"
  shows "\<exists>s' p. malloc n s = Some (s', p) \<and> heap_ok s' \<and> memory (pages s') = memory (pages s) \<and> others s' = others s \<and>
    (if p = 0 then s' = s \<and> no_run (pages_asked n) (pages s)
     else live s p = None \<and> live s' = (live s)(p \<mapsto> 4096 * pages_asked n - 12))"
proof -
  have wf: "heap_wf s" and full: "full s = {}" using ok by (simp_all add: heap_ok_def)
  have fd: "find_desc (descs s) n = None" using find_desc_large [OF heap_wf_descs [OF wf]] n by simp
  let ?c = "pages_asked n"
  have pc: "(n + ARENA_SIZE + PGSIZE - 1) mod 2 ^ 32 div PGSIZE = ?c" by (simp add: pages_asked_def ARENA_SIZE_def add.commute)
  obtain f a where f: "palloc_get_multiple 0 ?c (pages s) = Some (f, a)" "palloc_ok f" "memory f = memory (pages s)"
    "if a = 0 then f = pages s \<and> no_run ?c (pages s)
     else a mod 4096 = 0 \<and> page_run a ?c \<inter> kernel_pages (pages s) = {} \<and> kernel_pages f = kernel_pages (pages s) \<union> page_run a ?c"
    using kernel_get [OF _ c, of "pages s"] wf by (auto simp: heap_wf_def space_ok_def)
  show ?thesis
  proof (cases "a = 0")
    case True
    then have "malloc n s = Some (s, 0)" using f fd pc n unfolding malloc_def by (simp add: Let_def)
    then show ?thesis using True f ok by simp
  next
    case False
    let ?ar = "\<lparr>adesc = None, free_cnt = ?c\<rparr>"
    let ?s = "s\<lparr>pages := f, arenas := (arenas s)(a \<mapsto> ?ar)\<rparr>"
    have al: "a mod 4096 = 0" using f(4) False by simp
    then have a: "pg_round_down (a + 12) = a" "pg_ofs (a + 12) = 12"
      using pg_round_down_in [of a 12] by (auto simp: pg_ofs_mod mod_add_left_eq [of a, symmetric])
    have S: "heap_wf ?s" "arenas s a = None" "full ?s = {}" "\<And>p. pg_round_down p \<noteq> a \<Longrightarrow> live ?s p = live s p" "others ?s = others s"
      using add_arena_ok [OF wf f(2), of a ?ar] f(4) False full c by (simp_all add: npages_def)
    have L: "live ?s p = ((live s)(a + 12 \<mapsto> 4096 * ?c - 12)) p" for p
    proof (cases "pg_round_down p = a")
      case False
      then show ?thesis using S(4) [OF False] a(1) by auto
    next
      case True
      have "p = a + 12 \<longleftrightarrow> pg_ofs p = 12" using True a(2) pg_split [of p] by metis
      then show ?thesis using True S(2) by (simp add: live_def)
    qed
    have "malloc n s = Some (?s, a + 12)"
      using f(1) False fd pc n unfolding malloc_def by (simp add: Let_def ARENA_SIZE_def)
    moreover have "live s (a + 12) = None" using a(1) S(2) by (simp add: live_def)
    moreover have "live ?s = (live s)(a + 12 \<mapsto> 4096 * ?c - 12)" using L by (rule ext)
    ultimately show ?thesis using S(1,3,5) f(3) by (simp add: heap_ok_def)
  qed
qed

lemma malloc_large_served:
  assumes ok: "heap_ok s" and n: "1024 < n" "n + 4107 < 2 ^ 32"
  shows "\<exists>s' p. malloc n s = Some (s', p) \<and> served n s s' p"
proof -
  have c: "pages_asked n = (n + 4107) div 4096" using n(2) by (simp add: pages_asked_def)
  have ge: "n \<le> 4096 * pages_asked n - 12" and pos: "0 < pages_asked n" unfolding c using n(1) by (simp_all add: div_greater_zero_iff)
  obtain s' p where r: "malloc n s = Some (s', p)" "heap_ok s'" "memory (pages s') = memory (pages s)" "others s' = others s"
    "if p = 0 then s' = s \<and> no_run (pages_asked n) (pages s)
     else live s p = None \<and> live s' = (live s)(p \<mapsto> 4096 * pages_asked n - 12)"
    using malloc_large [OF ok n(1) pos] by blast
  then have "served n s s' p" using ge c by (cases "p = 0") (auto simp: served_def)
  with r(1) show ?thesis by blast
qed

lemma malloc_served:
  assumes "heap_ok s" "n + 4107 < 2 ^ 32"
  shows "\<exists>s' p. malloc n s = Some (s', p) \<and> served n s s' p"
proof -
  consider "n = 0" | "0 < n" "n \<le> 1024" | "1024 < n" by linarith
  then show ?thesis
  proof cases
    case 1
    then show ?thesis using assms(1) by (simp add: malloc_def served_def)
  qed (use malloc_small_served malloc_large_served assms in blast)+
qed

section \<open>free\<close>

lemma live_block:
  assumes "heap_wf s" "live s p = Some m" "arenas s (pg_round_down p) = Some ar"
  shows "block_to_arena p s = Some (pg_round_down p, ar)"
  using live_here [OF assms(3,2)] heap_wf_small(1) [OF assms(1,3)] heap_wf_arena(1) [OF assms(1,3)]
  by (intro block_to_arena_eq [OF heap_wf_descs [OF assms(1)] assms(3)]) (auto split: option.split)

text \<open>
  \<open>given_back\<close> is what \<^verbatim>\<open>free\<close> does: the block is gone, and the bytes of the other blocks are as they were.
\<close>

definition same_bytes :: "heap \<Rightarrow> heap \<Rightarrow> nat \<Rightarrow> nat \<Rightarrow> bool" where
  "same_bytes s s' q k \<longleftrightarrow> (\<forall>x \<in> {q..<q + k}. memory (pages s') x = memory (pages s) x)"

definition given_back :: "nat \<Rightarrow> heap \<Rightarrow> heap \<Rightarrow> bool" where
  "given_back p s s' \<longleftrightarrow> heap_ok s' \<and> live s' = (live s)(p := None) \<and> others s' = others s \<and>
     (\<forall>q k. live s' q = Some k \<longrightarrow> same_bytes s s' q k)"

text \<open>Filling a region that meets no block in use is not seen.\<close>

lemma same_bytes_fill:
  assumes "memory (pages s') = fill a v n (memory (pages s))" "{a..<a + n} \<inter> {q..<q + k} = {}"
  shows "same_bytes s s' q k"
  unfolding same_bytes_def assms(1) fill_def using assms(2) by (meson disjoint_iff)

lemma same_bytes_trans: "same_bytes s s1 q k \<Longrightarrow> same_bytes s1 s2 q k \<Longrightarrow> same_bytes s s2 q k"
  by (simp add: same_bytes_def)

lemma arena_unseen:
  assumes "heap_wf s" "arenas s a = Some ar" "live s q = Some k" "pg_round_down q \<noteq> a"
  shows "{a..<a + 4096 * npages ar} \<inter> {q..<q + k} = {}"
proof -
  let ?b = "pg_round_down q"
  obtain br where br: "arenas s ?b = Some br" "?b + 12 \<le> q" "q + k \<le> ?b + 4096 * npages br"
    using live_inside [OF assms(1,3)] by blast
  then have "page_run a (npages ar) \<inter> page_run ?b (npages br) = {}"
    using assms by (auto simp: heap_wf_def space_ok_def extent_def)
  then have "{a..<a + 4096 * npages ar} \<inter> {?b..<?b + 4096 * npages br} = {}"
    using heap_wf_arena(2) [OF assms(1)] assms(2) br(1) by (intro bytes_disjoint) auto
  moreover have "{q..<q + k} \<subseteq> {?b..<?b + 4096 * npages br}" using br(2,3) by auto
  ultimately show ?thesis by blast
qed

text \<open>Giving an arena back.\<close>

lemma free_pages_ok:
  assumes wf: "heap_wf s" and ar: "arenas s a = Some ar" "\<forall>i. adesc ar = Some i \<longrightarrow> set (flist s i) \<inter> blocks s i a = {}"
  shows "\<exists>s'. free_pages a (npages ar) s = Some s' \<and> heap_wf s' \<and> full s' = full s - {a} \<and> others s' = others s \<and>
    (\<forall>p. live s' p = (if pg_round_down p = a then None else live s p)) \<and>
    memory (pages s') = fill a 0xcc (4096 * npages ar) (memory (pages s))"
proof -
  note A = heap_wf_arena [OF wf ar(1)]
  obtain f where f: "palloc_free_multiple a (npages ar) (pages s) = Some f" "palloc_ok f"
    "kernel_pages f = kernel_pages (pages s) - page_run a (npages ar)" "memory f = fill a 0xcc (4096 * npages ar) (memory (pages s))"
    using kernel_free [OF _ A(3,4)] wf by (auto simp: heap_wf_def space_ok_def)
  then have "free_pages a (npages ar) s = Some (s\<lparr>pages := f, arenas := (arenas s)(a := None)\<rparr>)"
    by (simp add: free_pages_def)
  then show ?thesis using drop_arena_ok [OF wf ar f(2,3)] f(4) by simp
qed

lemma free_pages_relist: "free_pages a n (relist i a l s) = free_pages a n (set_list i l s)"
  by (simp add: free_pages_def relist_def)

lemma free_large:
  assumes ok: "heap_ok s" and p: "live s p = Some m" "arenas s (pg_round_down p) = Some ar" "adesc ar = None"
  shows "\<exists>s'. free p s = Some s' \<and> given_back p s s'"
proof -
  let ?a = "pg_round_down p"
  have wf: "heap_wf s" and full: "full s = {}" using ok by (simp_all add: heap_ok_def)
  obtain s' where s': "free_pages ?a (npages ar) s = Some s'" "heap_wf s'" "full s' = {}"
    "\<forall>q. live s' q = (if pg_round_down q = ?a then None else live s q)"
    "memory (pages s') = fill ?a 0xcc (4096 * npages ar) (memory (pages s))" "others s' = others s"
    using free_pages_ok [OF wf p(2)] p(3) full by auto
  have "free p s = Some s'"
    using live_block [OF wf p(1,2)] live_not_null [OF wf p(1)] s'(1) p(3) by (simp add: free_def npages_def)
  moreover have "live s' q = ((live s)(p := None)) q" for q
  proof (cases "pg_round_down q = ?a \<and> q \<noteq> p")
    case True
    have "pg_ofs p = 12" using live_here [OF p(2,1)] p(3) by simp
    with True have "pg_ofs q \<noteq> 12" using pg_split [of p] pg_split [of q] by metis
    then have "live s q = None" using True p(2,3) by (simp add: live_def)
    then show ?thesis using True s'(4) by simp
  qed (use s'(4) in auto)
  moreover have "same_bytes s s' q k" if "live s' q = Some k" for q k
    using same_bytes_fill [OF s'(5)] arena_unseen [OF wf p(2), of q k] that s'(4) by (simp split: if_splits)
  ultimately show ?thesis using s'(2,3,6) by (auto simp: given_back_def heap_ok_def)
qed

text \<open>The first steps of \<^verbatim>\<open>free\<close> for a small block.\<close>

definition push_block :: "nat \<Rightarrow> nat \<Rightarrow> heap \<Rightarrow> heap" where
  "push_block i p s = relist i (pg_round_down p) (p # flist s i) (set_memory (fill p 0xcc (bsize s i)) s)"

lemma set_memory_simps [simp]:
  "arenas (set_memory g s) = arenas s" "descs (set_memory g s) = descs s" "memory (pages (set_memory g s)) = g (memory (pages s))"
  "kernel_pool (pages (set_memory g s)) = kernel_pool (pages s)" "palloc_ok (pages (set_memory g s)) = palloc_ok (pages s)"
  by (simp_all add: set_memory_def)

lemma set_memory_same [simp]:
  "blocks (set_memory g s) = blocks s" "heap_wf (set_memory g s) = heap_wf s" "live (set_memory g s) = live s"
  "full (set_memory g s) = full s" "others (set_memory g s) = others s" "heap_ok (set_memory g s) = heap_ok s"
proof -
  show b: "blocks (set_memory g s) = blocks s" by (simp add: blocks_def fun_eq_iff)
  have "lists_ok (set_memory g s) = lists_ok s" "extent (set_memory g s) = extent s" "descs_ok (set_memory g s) = descs_ok s"
    "space_ok (pages (set_memory g s)) N = space_ok (pages s) N" for N
    by (simp_all only: lists_ok_def extent_def [abs_def] descs_ok_def space_ok_def set_memory_simps b)
  then show "heap_wf (set_memory g s) = heap_wf s" "others (set_memory g s) = others s" by (simp_all add: heap_wf_def others_def)
  moreover show "full (set_memory g s) = full s" by (simp add: full_def)
  ultimately show "heap_ok (set_memory g s) = heap_ok s" by (simp add: heap_ok_def)
  show "live (set_memory g s) = live s" by (simp only: live_def [abs_def] b set_memory_simps)
qed

lemma push_block_ok:
  assumes ok: "heap_ok s" and p: "live s p = Some m" "arenas s (pg_round_down p) = Some ar" "adesc ar = Some i"
  shows "heap_wf (push_block i p s)" and "live (push_block i p s) = (live s)(p := None)"
    and "full (push_block i p s) = (if bcount s i \<le> free_cnt ar + 1 then {pg_round_down p} else {})"
    and "card (set (p # flist s i) \<inter> blocks s i (pg_round_down p)) = free_cnt ar + 1"
    and "i < length (descs s)" "p \<in> blocks s i (pg_round_down p)" "m = bsize s i"
    and "free_cnt ar < bcount s i" and "others (push_block i p s) = others s"
proof -
  let ?a = "pg_round_down p" and ?s = "set_memory (fill p 0xcc (bsize s i)) s"
  have wf: "heap_wf s" and full: "full s = {}" using ok by (simp_all add: heap_ok_def)
  show i: "i < length (descs s)" by (rule heap_wf_small(1) [OF wf p(2,3)])
  have h: "p \<in> blocks s i ?a" "p \<notin> set (flist s i)" "m = bsize s i" using live_here [OF p(2,1)] p(3) by auto
  then show "p \<in> blocks s i ?a" "m = bsize s i" by simp_all
  show card: "card (set (p # flist s i) \<inter> blocks s i ?a) = free_cnt ar + 1"
    using h heap_wf_small(2) [OF wf p(2,3)] by simp
  show "free_cnt ar < bcount s i" using full p(2,3) by (force simp: full_def)
  have dist: "distinct (p # flist s i)" using h(2) heap_wf_free(1) [OF wf i] by simp
  have sub: "set (p # flist s i) - blocks ?s i ?a = set (flist ?s i) - blocks ?s i ?a" using h(1) by auto
  note R = relist_ok [OF _ _ p(3) dist sub, folded push_block_def, unfolded set_memory_same set_memory_simps, OF wf p(2)]
  show "heap_wf (push_block i p s)" by (rule R(1))
  show "others (push_block i p s) = others s" using relist_extent(2) [of ?s ?a ar i] p(2,3) by (simp add: push_block_def)
  show "full (push_block i p s) = (if bcount s i \<le> free_cnt ar + 1 then {?a} else {})"
    using R(3) full card by simp
  have "live (push_block i p s) q = ((live s)(p := None)) q" for q
    unfolding R(2) using p(2,3) h by (auto simp: live_def)
  then show "live (push_block i p s) = (live s)(p := None)" by (rule ext)
qed

lemma free_small_eq:
  assumes ok: "heap_ok s" and p: "live s p = Some m" "arenas s (pg_round_down p) = Some ar" "adesc ar = Some i"
  shows "free p s =
    (if free_cnt ar + 1 < bcount s i then Some (push_block i p s)
     else do { s \<leftarrow> remove_blocks i (pg_round_down p) 0 (bcount s i) (push_block i p s); free_pages (pg_round_down p) 1 s })"
proof -
  have wf: "heap_wf s" using ok by (simp add: heap_ok_def)
  note P = push_block_ok [OF ok p]
  have "free_cnt ar + 1 \<le> bcount s i" "free_cnt ar + 1 < 2 ^ 32"
    using P(8) descs_ok_bounds(3) [OF heap_wf_descs [OF wf] P(5)] by simp_all
  then show ?thesis
    using live_block [OF wf p(1,2)] live_not_null [OF wf p(1)] p(2,3) P(4)
    by (simp add: free_def push_block_def relist_def Let_def)
qed

lemma push_block_same:
  assumes "heap_ok s" "live s p = Some m" "arenas s (pg_round_down p) = Some ar" "adesc ar = Some i" "live (push_block i p s) q = Some k"
  shows "same_bytes s (push_block i p s) q k"
proof -
  have wf: "heap_wf s" using assms(1) by (simp add: heap_ok_def)
  note P = push_block_ok [OF assms(1-4)]
  have mem: "memory (pages (push_block i p s)) = fill p 0xcc m (memory (pages s))" by (simp add: push_block_def relist_def P(7))
  then show ?thesis
    using same_bytes_fill [OF mem] live_disjoint [OF wf assms(2), of q k] assms(5) by (simp add: P(2) split: if_splits)
qed

text \<open>The last block of an arena takes the arena with it.\<close>

lemma free_small_last:
  assumes ok: "heap_ok s" and p: "live s p = Some m" "arenas s (pg_round_down p) = Some ar" "adesc ar = Some i"
    and last: "\<not> free_cnt ar + 1 < bcount s i"
  shows "\<exists>s'. free p s = Some s' \<and> given_back p s s'"
proof -
  let ?a = "pg_round_down p" and ?s = "push_block i p s"
  have wf: "heap_wf s" using ok by (simp add: heap_ok_def)
  note P = push_block_ok [OF ok p]
  let ?l = "filter (\<lambda>b. b \<notin> blocks s i ?a) (flist s i)"
  let ?ar = "ar\<lparr>free_cnt := free_cnt ar + 1\<rparr>"
  have S: "arenas ?s ?a = Some ?ar" "adesc ?ar = Some i" "blocks ?s = blocks s" "flist ?s i = p # flist s i" "bcount ?s i = bcount s i"
    "bsize ?s i = bsize s i" "length (descs ?s) = length (descs s)"
    using p P(4,5) by (simp_all add: push_block_def relist_def blocks_cong)
  have rm: "remove_blocks i ?a 0 (bcount s i) ?s = Some (set_list i ?l ?s)"
    using remove_blocks_eq [OF S(1,2), of 0 "bcount s i"] heap_wf_arena(1) [OF wf p(2)] heap_wf_free(1) [OF P(1), of i] P(5,6)
    by (simp add: S atLeast0LessThan flip: blocks_def)
  have l: "distinct ?l" "set ?l - blocks ?s i ?a = set (flist ?s i) - blocks ?s i ?a" "set ?l \<inter> blocks ?s i ?a = {}"
    using heap_wf_free(1) [OF P(1), of i] P(5,6) unfolding S by auto
  let ?r = "relist i ?a ?l ?s"
  note R = relist_ok [OF P(1) S(1,2) l(1,2)]
  have ra: "arenas ?r = (arenas ?s)(?a \<mapsto> ?ar\<lparr>free_cnt := 0\<rparr>)" "blocks ?r i ?a = blocks s i ?a" "flist ?r i = ?l" "memory (pages ?r) = memory (pages ?s)"
    using S l(3) P(5) by (simp_all add: relist_def blocks_cong)
  have oth: "others ?r = others s" using relist_extent(2) [OF S(1,2)] P(9) by simp
  obtain s' where s': "free_pages ?a 1 ?r = Some s'" "heap_wf s'" "full s' = full ?r - {?a}"
    "\<forall>q. live s' q = (if pg_round_down q = ?a then None else live ?r q)"
    "memory (pages s') = fill ?a 0xcc 4096 (memory (pages ?s))" "others s' = others s"
    using free_pages_ok [OF R(1), of ?a "?ar\<lparr>free_cnt := 0\<rparr>"] ra S(2) l(3) oth unfolding S(3) by (auto simp: npages_def)
  have "free p s = Some s'"
    using free_small_eq [OF ok p] last rm s'(1) by (simp add: free_pages_relist)
  moreover have "full s' = {}" using s'(3) R(3) P(3) last by auto
  moreover have none: "live ?s q = None" if "pg_round_down q = ?a" for q
  proof -
    have "set (p # flist s i) \<inter> blocks s i ?a = blocks s i ?a"
      using P(4,8) last card_blocks [OF heap_wf_descs [OF wf] P(5), of ?a] by (intro card_subset_eq) auto
    then show ?thesis using that S by (auto simp: live_def)
  qed
  have live: "live s' q = live ?s q" for q using s'(4) R(2) [of q] none by simp
  have "same_bytes s s' q k" if q: "live s' q = Some k" for q k
  proof -
    have ne: "pg_round_down q \<noteq> ?a" using q s'(4) by auto
    have "same_bytes ?s s' q k"
      using same_bytes_fill [OF s'(5)] arena_unseen [OF P(1) S(1) _ ne] q live by (simp add: npages_def p(3))
    moreover have "same_bytes s ?s q k" using push_block_same [OF ok p] q live by auto
    ultimately show ?thesis using same_bytes_trans by blast
  qed
  moreover have "live s' = (live s)(p := None)" using live P(2) by (simp add: fun_eq_iff)
  ultimately show ?thesis using s'(2,6) by (auto simp: given_back_def heap_ok_def)
qed

lemma free_ok:
  assumes ok: "heap_ok s" and p: "live s p = Some m"
  shows "\<exists>s'. free p s = Some s' \<and> given_back p s s'"
proof -
  have wf: "heap_wf s" using ok by (simp add: heap_ok_def)
  obtain ar where ar: "arenas s (pg_round_down p) = Some ar" using live_inside [OF wf p] by blast
  show ?thesis
  proof (cases "adesc ar")
    case None
    show ?thesis by (rule free_large [OF ok p ar None])
  next
    case (Some i)
    show ?thesis
    proof (cases "free_cnt ar + 1 < bcount s i")
      case True
      then show ?thesis
        using free_small_eq [OF ok p ar Some] push_block_ok(1-3,9) [OF ok p ar Some] push_block_same [OF ok p ar Some]
        by (simp add: given_back_def heap_ok_def)
    qed (rule free_small_last [OF ok p ar Some])
  qed
qed

section \<open>The contract of an allocator\<close>

text \<open>
  What the clients of \<^verbatim>\<open>malloc\<close> and \<^verbatim>\<open>free\<close> rely on, with \<open>wr\<close> for their own writes to memory; \<^verbatim>\<open>calloc\<close> and \<^verbatim>\<open>realloc\<close> are such clients.
\<close>

definition kept :: "(nat \<Rightarrow> nat option) \<Rightarrow> (nat \<Rightarrow> u8) \<Rightarrow> (nat \<Rightarrow> u8) \<Rightarrow> bool" where
  "kept L m m' \<longleftrightarrow> (\<forall>q k. L q = Some k \<longrightarrow> (\<forall>x \<in> {q..<q + k}. m' x = m x))"

locale allocator =
  fixes ok :: "'s \<Rightarrow> bool"
    and used :: "'s \<Rightarrow> nat \<Rightarrow> nat option"
    and byte :: "'s \<Rightarrow> nat \<Rightarrow> u8"
    and wr :: "((nat \<Rightarrow> u8) \<Rightarrow> nat \<Rightarrow> u8) \<Rightarrow> 's \<Rightarrow> 's"
    and get :: "nat \<Rightarrow> 's \<Rightarrow> ('s \<times> nat) option"
    and put :: "nat \<Rightarrow> 's \<Rightarrow> 's option"
    and limit :: nat
  assumes wr: "ok (wr g s) = ok s" "used (wr g s) = used s" "byte (wr g s) = g (byte s)"
    and apart: "ok s \<Longrightarrow> used s p = Some m \<Longrightarrow> used s q = Some n \<Longrightarrow> p \<noteq> q \<Longrightarrow> {p..<p + m} \<inter> {q..<q + n} = {}"
    and get_used: "ok s \<Longrightarrow> n < limit \<Longrightarrow> get n s = Some (s', p) \<Longrightarrow> p \<noteq> 0 \<Longrightarrow>
      ok s' \<and> byte s' = byte s \<and> used s p = None \<and> (\<exists>m \<ge> n. used s' = (used s)(p \<mapsto> m))"
    and put_used: "ok s \<Longrightarrow> used s p = Some m \<Longrightarrow>
      \<exists>s'. put p s = Some s' \<and> ok s' \<and> used s' = (used s)(p := None) \<and> kept (used s') (byte s) (byte s')"
begin

text \<open>Writing to a new block does not touch the others.\<close>

lemma fresh_write:
  assumes "ok s" "n < limit" "get n s = Some (s', p)" "p \<noteq> 0" "\<And>x. x \<notin> {p..<p + n} \<Longrightarrow> g (byte s) x = byte s x"
  shows "kept (used s) (byte s) (byte (wr g s'))"
  unfolding kept_def
proof (intro allI impI ballI)
  fix q k x
  assume q: "used s q = Some k" "x \<in> {q..<q + k}"
  obtain m where m: "ok s'" "byte s' = byte s" "used s p = None" "n \<le> m" "used s' = (used s)(p \<mapsto> m)"
    using get_used [OF assms(1-4)] by blast
  have "{p..<p + m} \<inter> {q..<q + k} = {}"
    using q(1) m(3,5) by (intro apart [OF m(1)]) auto
  then have "x \<notin> {p..<p + m}" using q(2) by blast
  then have "x \<notin> {p..<p + n}" using m(4) by auto
  then show "byte (wr g s') x = byte s x" by (simp add: wr m(2) assms(5))
qed

lemma moved:
  assumes "ok s" "n < limit" "used s old = Some k" "get n s = Some (s1, p)" "p \<noteq> 0"
    and g: "\<And>x. x \<notin> {p..<p + n} \<Longrightarrow> g (byte s) x = byte s x"
  shows "\<exists>s2 m. put old (wr g s1) = Some s2 \<and> ok s2 \<and> n \<le> m \<and> used s p = None \<and> used s2 = (used s)(old := None, p \<mapsto> m) \<and>
    (\<forall>x \<in> {p..<p + m}. byte s2 x = g (byte s) x) \<and> kept ((used s)(old := None)) (byte s) (byte s2)"
proof -
  obtain m where m: "ok s1" "byte s1 = byte s" "used s p = None" "n \<le> m" "used s1 = (used s)(p \<mapsto> m)"
    using get_used [OF assms(1,2,4,5)] by blast
  have ne: "p \<noteq> old" using m(3) assms(3) by auto
  obtain s2 where s2: "put old (wr g s1) = Some s2" "ok s2" "used s2 = (used s)(old := None, p \<mapsto> m)"
    "kept (used s2) (g (byte s)) (byte s2)"
    using put_used [of "wr g s1" old k] m ne assms(3) by (auto simp: wr fun_upd_twist)
  have "kept (used s) (byte s) (g (byte s))" using fresh_write [of s n s1 p g, OF assms(1,2,4,5) g] by (simp add: wr m(2))
  then have "kept ((used s)(old := None)) (byte s) (byte s2)"
    using s2(4) m(3) by (auto simp: kept_def s2(3) split: if_splits)
  moreover have "\<forall>x \<in> {p..<p + m}. byte s2 x = g (byte s) x" using s2(4) [unfolded kept_def, rule_format, of p m] s2(3) by simp
  ultimately show ?thesis using s2(1-3) m(3,4) by blast
qed

lemma get_put:
  assumes "ok s" "n < limit" "get n s = Some (s1, p)" "p \<noteq> 0"
  shows "\<exists>s2. put p s1 = Some s2 \<and> ok s2 \<and> used s2 = used s \<and> kept (used s) (byte s) (byte s2)"
proof -
  obtain m where m: "ok s1" "byte s1 = byte s" "used s p = None" "used s1 = (used s)(p \<mapsto> m)"
    using get_used [OF assms] by blast
  obtain s2 where "put p s1 = Some s2" "ok s2" "used s2 = (used s1)(p := None)" "kept (used s2) (byte s1) (byte s2)"
    using put_used [OF m(1), of p m] m(4) by auto
  moreover have "(used s1)(p := None) = used s" using m(3,4) by (auto simp: fun_eq_iff)
  ultimately show ?thesis using m(2) by auto
qed

end

abbreviation hbyte :: "heap \<Rightarrow> nat \<Rightarrow> u8" where "hbyte s \<equiv> memory (pages s)"

definition LIMIT :: nat where "LIMIT = 2 ^ 32 - 4107"

interpretation ma: allocator heap_ok live hbyte set_memory malloc free LIMIT
proof
  show "heap_ok s \<Longrightarrow> live s p = Some m \<Longrightarrow> live s q = Some n \<Longrightarrow> p \<noteq> q \<Longrightarrow> {p..<p + m} \<inter> {q..<q + n} = {}" for s p m q n
    using live_disjoint unfolding heap_ok_def by blast
  show "heap_ok s' \<and> hbyte s' = hbyte s \<and> live s p = None \<and> (\<exists>m \<ge> n. live s' = (live s)(p \<mapsto> m))"
    if "heap_ok s" "n < LIMIT" "malloc n s = Some (s', p)" "p \<noteq> 0" for s n s' p
    using malloc_served [OF that(1), of n] that(2-4) by (auto simp: served_def LIMIT_def)
  show "\<exists>s'. free p s = Some s' \<and> heap_ok s' \<and> live s' = (live s)(p := None) \<and> kept (live s') (hbyte s) (hbyte s')"
    if "heap_ok s" "live s p = Some m" for s p m
    using free_ok [OF that] by (auto simp: given_back_def kept_def same_bytes_def)
qed simp_all

section \<open>Properties\<close>

text \<open>A heap without blocks in use has no arenas left.\<close>

lemma no_blocks_no_arenas:
  assumes "heap_ok s" "live s = Map.empty"
  shows "arenas s a = None" and "kernel_pages (pages s) = others s"
proof -
  have wf: "heap_wf s" and full: "full s = {}" using assms(1) by (simp_all add: heap_ok_def)
  show none: "arenas s a = None" for a
  proof (rule ccontr)
    assume "arenas s a \<noteq> None"
    then obtain ar where ar: "arenas s a = Some ar" by auto
    note al = heap_wf_arena(2) [OF wf ar]
    show False
    proof (cases "adesc ar")
      case None
      have "pg_round_down (a + 12) = a" "pg_ofs (a + 12) = 12"
        using al pg_round_down_in [of a 12] by (auto simp: pg_ofs_mod mod_add_left_eq [of a, symmetric])
      then have "live s (a + 12) \<noteq> None" using ar None by (simp add: live_def)
      then show False using assms(2) by simp
    next
      case (Some i)
      have i: "i < length (descs s)" and cnt: "free_cnt ar = card (set (flist s i) \<inter> blocks s i a)" using heap_wf_small [OF wf ar Some] .
      have "free_cnt ar < card (blocks s i a)" using full ar Some card_blocks(1) [OF heap_wf_descs [OF wf] i] by (force simp: full_def)
      then obtain b where b: "b \<in> blocks s i a" "b \<notin> set (flist s i)" unfolding cnt by (metis Int_absorb1 Int_commute less_irrefl subsetI)
      then have "live s b \<noteq> None" using block_page(1) [OF heap_wf_descs [OF wf] i al b(1)] ar Some by (simp add: live_def)
      then show False using assms(2) by simp
    qed
  qed
  then show "kernel_pages (pages s) = others s" by (simp add: others_def extent_def)
qed

lemma malloc_init_ok:
  assumes "palloc_ok (pages s)" "arenas s = Map.empty"
  shows "\<exists>s'. malloc_init s = Some s' \<and> heap_ok s' \<and> live s' = Map.empty \<and> pages s' = pages s"
proof -
  let ?s = "s\<lparr>descs := init_descs 16\<rparr>"
  have "length (init_descs 16) = 7" by (simp add: init_descs_eq length_sizes)
  then have "malloc_init s = Some ?s" by (simp add: malloc_init_def)
  moreover have "descs_ok ?s" by (simp add: descs_ok_def init_descs_eq comp_def)
  moreover have "extent ?s = (\<lambda>_. None)" "live ?s = Map.empty" "full ?s = {}" by (simp_all add: extent_def live_def full_def assms(2) fun_eq_iff)
  moreover have "lists_ok ?s" by (simp add: lists_ok_def assms(2) init_descs_eq)
  ultimately show ?thesis using assms(1) by (auto simp: heap_ok_def heap_wf_def space_ok_def)
qed

lemma size_of_block_live:
  assumes "heap_wf s" "live s p = Some m"
  shows "size_of_block p s = Some m"
proof -
  obtain ar where ar: "arenas s (pg_round_down p) = Some ar" using live_inside [OF assms] by blast
  then show ?thesis using live_block [OF assms ar] live_here [OF ar assms(2)] by (auto simp: size_of_block_def)
qed

text \<open>The heap after start-up, over two pools of four free pages, and one with a block of 100 bytes.\<close>

definition fresh_heap :: heap where
  "fresh_heap = \<lparr>descs = init_descs 16, pages = two_pools, arenas = Map.empty\<rparr>"

lemma fresh_heap_ok: "heap_ok fresh_heap" "live fresh_heap = Map.empty"
  using malloc_init_ok [of "fresh_heap"] palloc_ok_two_pools
  by (auto simp: fresh_heap_def malloc_init_def Let_def)

lemma fresh_heap_served:
  assumes "0 < n" "n \<le> 1024"
  shows "\<exists>s p m. malloc n fresh_heap = Some (s, p) \<and> heap_ok s \<and> live s p = Some m \<and> n \<le> m \<and> \<not> no_run 1 (pages fresh_heap)"
proof -
  have run: "\<not> no_run 1 (pages fresh_heap)"
    by (simp add: no_run_def fresh_heap_def two_pools_def four_pages_def used_bits_def bit_at_def elem_idx_def) (rule exI [of _ 0], simp)
  moreover obtain s p where r: "malloc n fresh_heap = Some (s, p)" "served n fresh_heap s p"
    using malloc_served [OF fresh_heap_ok(1), of n] assms(2) by auto
  moreover have "(n + 4107) div 4096 = 1" using assms by (simp add: div_nat_eqI)
  ultimately have "p \<noteq> 0" using assms(1) by (cases "p = 0") (simp_all add: served_def)
  with r run show ?thesis by (auto simp: served_def)
qed

text \<open>
  C10: in a heap in order, malloc returns null and changes nothing when the request is empty or the
  kernel has no run of pages of the size needed; otherwise it returns a new block of at least the size asked for,
  which shares no byte with a block in use, and leaves the contents of memory alone. This holds for requests that do not wrap
  around in 32 bits.
\<close>

theorem malloc_spec:
  assumes "heap_ok s" "n + 4107 < 2 ^ 32"
  shows "\<exists>s' p. malloc n s = Some (s', p) \<and> heap_ok s' \<and> hbyte s' = hbyte s \<and> others s' = others s \<and>
    (if p = 0 then s' = s \<and> (n = 0 \<or> no_run ((n + 4107) div 4096) (pages s))
     else \<exists>m \<ge> n. live s p = None \<and> live s' = (live s)(p \<mapsto> m) \<and>
       (\<forall>q k. live s q = Some k \<longrightarrow> {p..<p + m} \<inter> {q..<q + k} = {}))"
proof -
  obtain s' p where r: "malloc n s = Some (s', p)" "served n s s' p" using malloc_served [OF assms] by blast
  have "{p..<p + m} \<inter> {q..<q + k} = {}" if "live s' = (live s)(p \<mapsto> m)" "live s p = None" "live s q = Some k" for m q k
    using r(2) that by (intro ma.apart [of s']) (auto simp: served_def)
  then show ?thesis using r by (cases "p = 0") (auto simp: served_def)
qed

theorem malloc_spec_witness:
  "\<exists>s p m. malloc 100 fresh_heap = Some (s, p) \<and> p \<noteq> 0 \<and> 100 \<le> m \<and> live s p = Some m \<and> heap_ok s"
proof -
  obtain s p m where "malloc 100 fresh_heap = Some (s, p)" "live s p = Some m" "heap_ok s"
    using fresh_heap_served [of 100] by auto
  moreover from this have "p \<noteq> 0" using live_not_null by (auto simp: heap_ok_def)
  ultimately show ?thesis using malloc_spec [OF fresh_heap_ok(1), of 100] by auto
qed

text \<open>
  C11: free of a block in use ends without a failed assertion and removes exactly that block; every
  other block keeps its place, its size and its bytes, and when no block is left all pages are back with the page allocator.
\<close>

theorem free_spec:
  assumes "heap_ok s" "live s p = Some m"
  shows "\<exists>s'. free p s = Some s' \<and> heap_ok s' \<and> live s' = (live s)(p := None) \<and>
    (\<forall>q k. live s' q = Some k \<longrightarrow> (\<forall>x \<in> {q..<q + k}. hbyte s' x = hbyte s x)) \<and>
    (if live s' = Map.empty then kernel_pages (pages s') = others s else others s' = others s)"
proof -
  obtain s' where r: "free p s = Some s'" "given_back p s s'" using free_ok [OF assms] by blast
  have "kernel_pages (pages s') = others s" if "live s' = Map.empty"
    using no_blocks_no_arenas(2) [OF _ that] r(2) by (simp add: given_back_def)
  then show ?thesis using r by (auto simp: given_back_def same_bytes_def)
qed

theorem free_spec_witness:
  "\<exists>s p s'. malloc 100 fresh_heap = Some (s, p) \<and> p \<noteq> 0 \<and> free p s = Some s' \<and> heap_ok s' \<and> live s' p = None"
proof -
  obtain s p m where s: "malloc 100 fresh_heap = Some (s, p)" "live s p = Some m" "heap_ok s"
    using fresh_heap_served [of 100] by auto
  moreover from this have "p \<noteq> 0" using live_not_null by (auto simp: heap_ok_def)
  ultimately show ?thesis using free_spec [OF s(3,2)] by (metis fun_upd_same)
qed

text \<open>
  C12: realloc of a block in use to a size that does not wrap around returns null and changes
  nothing, or moves the block to a new place: the new block has at least the size asked for and begins with the bytes of the old one, as
  many as both have room for; the old block is gone and all other blocks keep their bytes.
\<close>

theorem realloc_spec:
  assumes "heap_ok s" "live s old = Some k" "0 < n" "n + 4107 < 2 ^ 32"
  shows "\<exists>s' p. realloc old n s = Some (s', p) \<and> heap_ok s' \<and>
    (if p = 0 then s' = s
     else live s p = None \<and> (\<exists>m \<ge> n. live s' = (live s)(old := None, p \<mapsto> m)) \<and> (\<forall>j < min n k. hbyte s' (p + j) = hbyte s (old + j)) \<and>
       (\<forall>q l. q \<noteq> old \<longrightarrow> live s q = Some l \<longrightarrow> (\<forall>x \<in> {q..<q + l}. hbyte s' x = hbyte s x)))"
proof -
  have lim: "n < LIMIT" and wf: "heap_wf s" using assms(1,4) by (simp_all add: LIMIT_def heap_ok_def)
  obtain s1 p where r: "malloc n s = Some (s1, p)" "served n s s1 p" using malloc_served [OF assms(1,4)] by blast
  have old: "old \<noteq> 0" by (rule live_not_null [OF wf assms(2)])
  show ?thesis
  proof (cases "p = 0")
    case True
    then show ?thesis using r assms(1,3) by (simp add: realloc_def served_def)
  next
    case False
    let ?g = "\<lambda>m x. if x \<in> {p..<p + min n k} then m (old + (x - p)) else m x :: u8"
    have s1: "heap_wf s1" "live s1 old = Some k" using r(2) False assms(2) by (auto simp: served_def heap_ok_def)
    have g: "?g (hbyte s) x = hbyte s x" if "x \<notin> {p..<p + n}" for x using that by auto
    obtain s2 m where s2: "free old (set_memory ?g s1) = Some s2" "heap_ok s2" "n \<le> m" "live s p = None"
      "live s2 = (live s)(old := None, p \<mapsto> m)" "\<forall>x \<in> {p..<p + m}. hbyte s2 x = ?g (hbyte s) x"
      "kept ((live s)(old := None)) (hbyte s) (hbyte s2)"
      using ma.moved [of s n old k s1 p ?g, OF assms(1) lim assms(2) r(1) False g] by blast
    have "realloc old n s = Some (s2, p)"
      using r(1) assms(3) old False size_of_block_live [OF s1] s2(1) by (simp add: realloc_def Let_def)
    moreover have "hbyte s2 (p + j) = hbyte s (old + j)" if "j < min n k" for j
      using bspec [OF s2(6), of "p + j"] that s2(3) by simp
    moreover have "hbyte s2 x = hbyte s x" if "q \<noteq> old" "live s q = Some l" "x \<in> {q..<q + l}" for q l x
      using s2(7) [unfolded kept_def, rule_format, of q l x] that by simp
    ultimately show ?thesis using s2(2-5) False by auto
  qed
qed

theorem realloc_spec_witness:
  "\<exists>s p s' q. malloc 100 fresh_heap = Some (s, p) \<and> p \<noteq> 0 \<and> realloc p 50 s = Some (s', q) \<and> heap_ok s' \<and>
     (q = 0 \<or> hbyte s' (q + 3) = hbyte s (p + 3))"
proof -
  obtain s p m where s: "malloc 100 fresh_heap = Some (s, p)" "live s p = Some m" "heap_ok s" "100 \<le> m"
    using fresh_heap_served [of 100] by auto
  moreover from this have "p \<noteq> 0" using live_not_null by (auto simp: heap_ok_def)
  moreover obtain s' q where "realloc p 50 s = Some (s', q)" "heap_ok s'" "q = 0 \<or> (\<forall>j < min 50 m. hbyte s' (q + j) = hbyte s (p + j))"
    using realloc_spec [OF s(3,2), of 50] by (auto split: if_splits)
  ultimately show ?thesis by fastforce
qed

text \<open>
  calloc returns null, or a new block whose first \<open>a * b\<close> bytes are zero; the blocks in use keep
  their bytes. The product must not wrap around.
\<close>

theorem calloc_spec:
  assumes "heap_ok s" "a * b + 4107 < 2 ^ 32"
  shows "\<exists>s' p. calloc a b s = Some (s', p) \<and> heap_ok s' \<and>
    (if p = 0 then s' = s \<and> (a * b = 0 \<or> no_run ((a * b + 4107) div 4096) (pages s))
     else live s p = None \<and> (\<exists>m \<ge> a * b. live s' = (live s)(p \<mapsto> m)) \<and> (\<forall>x \<in> {p..<p + a * b}. hbyte s' x = 0) \<and>
       (\<forall>q k. live s q = Some k \<longrightarrow> (\<forall>x \<in> {q..<q + k}. hbyte s' x = hbyte s x)))"
proof (cases "a * b < a \<or> a * b < b")
  case True
  then have "a * b = 0" by auto
  then show ?thesis using True assms(1) by (auto simp: calloc_def)
next
  case False
  have lim: "a * b < LIMIT" using assms(2) by (simp add: LIMIT_def)
  obtain s1 p where r: "malloc (a * b) s = Some (s1, p)" "served (a * b) s s1 p" using malloc_served [OF assms] by blast
  have c: "calloc a b s = Some (if p \<noteq> 0 then set_memory (fill p 0 (a * b)) s1 else s1, p)"
    using r(1) False assms(2) by (auto simp: calloc_def Let_def)
  show ?thesis
  proof (cases "p = 0")
    case True
    then show ?thesis using c r(2) assms(1) by (intro exI [of _ s1] exI [of _ p]) (simp add: served_def)
  next
    case ne: False
    have "kept (live s) (hbyte s) (hbyte (set_memory (fill p 0 (a * b)) s1))"
      by (rule ma.fresh_write [OF assms(1) lim r(1) ne]) (auto simp: fill_def)
    moreover have "\<forall>x \<in> {p..<p + a * b}. hbyte (set_memory (fill p 0 (a * b)) s1) x = 0" by (simp add: fill_def)
    ultimately show ?thesis using c r(2) ne unfolding served_def kept_def by (intro exI [of _ "set_memory (fill p 0 (a * b)) s1"] exI [of _ p]) simp
  qed
qed

text \<open>The overflow check of calloc does not see every overflow: a request for more than 4 GB gets 128 kB.\<close>

lemma calloc_overflow: "calloc 0x10001 0x10001 s = calloc 0x20001 1 s"
  by (simp add: calloc_def)

text \<open>A request for all of memory wraps around to one page and is served.\<close>

lemma malloc_wraps:
  assumes "heap_ok s" "\<not> no_run 1 (pages s)"
  shows "\<exists>s' p. malloc (2 ^ 32 - 1) s = Some (s', p) \<and> p \<noteq> 0 \<and> live s' p = Some 4084"
proof -
  have c: "pages_asked (2 ^ 32 - 1) = 1" by (simp add: pages_asked_def)
  obtain s' p where "malloc (2 ^ 32 - 1) s = Some (s', p)"
    "if p = 0 then s' = s \<and> no_run 1 (pages s) else live s p = None \<and> live s' = (live s)(p \<mapsto> 4096 * 1 - 12)"
    using malloc_large [OF assms(1), of "2 ^ 32 - 1", unfolded c] by auto
  with assms(2) show ?thesis by (auto split: if_splits)
qed

end
