(* ===== verification/Spec2Isabelle.thy ===== *)
theory Spec2Isabelle
  imports KListOrdered Arithmetic ThreadProps Restore FilesysProps MallocProps
begin

text \<open>
  \<^bold>\<open>The program.\<close> The repository holds six operating-systems projects in C: a shell (\<^verbatim>\<open>Project1\<close>), four
  stages of a Pintos kernel (\<^verbatim>\<open>Project2\<close> threads and scheduling, \<^verbatim>\<open>Project3\<close> system calls, \<^verbatim>\<open>Project4\<close> virtual
  memory, \<^verbatim>\<open>Project5\<close> file system) and a web server (\<^verbatim>\<open>Project6\<close>). The development is about the kernel.
  Files that several stages share are modelled from their last version (\<^verbatim>\<open>Project5\<close>), the scheduler and
  the synchronisation primitives from \<^verbatim>\<open>Project2\<close>, where they were written.

  \<^bold>\<open>Conventions.\<close> A call that stops the machine (a failed assertion, a panic, a processor fault) or runs
  forever is \<^term>\<open>None\<close>; a theorem that a call is \<open>Some\<close> result says that it returns. Loops whose
  termination depends on the data are \<^verbatim>\<open>partial_function (option)\<close>; no model uses fuel. Machine integers
  are words where wrap-around matters, and natural numbers with \<^verbatim>\<open>mod 2 ^ 32\<close> written out for sizes and
  addresses. Null is 0. In the models of its clients, what \<^verbatim>\<open>malloc\<close> returns is an argument.

  \<^bold>\<open>Parts, theories and what they show.\<close>

  \<^item> \<^verbatim>\<open>lib/kernel/list.c\<close>: theory \<^verbatim>\<open>KList\<close> has every operation on a heap of \<^verbatim>\<open>prev\<close> and \<^verbatim>\<open>next\<close> fields,
    \<^verbatim>\<open>KListRefine\<close> that well-formed lists represent sequences and each operation the operation on
    sequences, \<^verbatim>\<open>KListSort\<close> the in-place merge sort, \<^verbatim>\<open>KListOrdered\<close> ordered insertion, maximum, removal
    of duplicates and the properties. The comparison contract is the locale \<^verbatim>\<open>less_func\<close>, the queue
    contract \<^verbatim>\<open>fifo_queue\<close> (theory \<^verbatim>\<open>Prelude\<close>).

  \<^item> \<^verbatim>\<open>lib/arithmetic.c\<close> and \<^verbatim>\<open>threads/fixed_point.h\<close>: theories \<^verbatim>\<open>Arithmetic\<close> (64-bit division on a 32-bit
    processor is exact; the remainder is cut to 32 bits) and \<^verbatim>\<open>FixedPoint\<close>.

  \<^item> \<^verbatim>\<open>threads/thread.c\<close>, \<^verbatim>\<open>threads/synch.c\<close>, \<^verbatim>\<open>devices/timer.c\<close>: \<^verbatim>\<open>Thread\<close> and \<^verbatim>\<open>Synch\<close> model the state of the
    scheduler as a record and each operation up to the point where it gives up the processor; the
    rest is a pending continuation of the thread. \<^verbatim>\<open>Sched\<close> and \<^verbatim>\<open>SynchInv\<close> state the invariant and show that
    every operation keeps it, \<^verbatim>\<open>KernelSteps\<close> the step relation of the whole thread system, \<^verbatim>\<open>SchedProps\<close>
    and \<^verbatim>\<open>Donation\<close> scheduling and priority donation, \<^verbatim>\<open>ThreadProps\<close> the properties.

  \<^item> \<^verbatim>\<open>lib/kernel/bitmap.c\<close> and its clients \<^verbatim>\<open>filesys/free-map.c\<close>, \<^verbatim>\<open>vm/swap.c\<close> and \<^verbatim>\<open>threads/palloc.c\<close>: theories
    \<^verbatim>\<open>Bitmap\<close> (packed bits are a list of Booleans, a scan is first fit), \<^verbatim>\<open>Allocators\<close> and \<^verbatim>\<open>Palloc\<close>. The
    contract between them is the locale \<^verbatim>\<open>run_allocator\<close> (and \<^verbatim>\<open>complete_allocator\<close>), interpreted on the
    bitmap and on the free map.

  \<^item> \<^verbatim>\<open>threads/malloc.c\<close>: theory \<^verbatim>\<open>Malloc\<close> has every operation, on the page allocator and the free lists of the block sizes.
    \<^verbatim>\<open>MallocProps\<close> shows that the blocks in use are a map from addresses to sizes without overlaps. The contract of
    \<^verbatim>\<open>malloc\<close> and \<^verbatim>\<open>free\<close> is the locale \<^verbatim>\<open>allocator\<close>, interpreted on them; \<^verbatim>\<open>calloc\<close> and \<^verbatim>\<open>realloc\<close> are its clients. Requests
    within 4107 bytes of \<open>2 ^ 32\<close>, whose page count wraps around, are excluded.

  \<^item> \<^verbatim>\<open>userprog/pagedir.c\<close> and \<^verbatim>\<open>threads/pte.h\<close>: theory \<^verbatim>\<open>PageDir\<close>, two-level page tables in the bytes of the
    memory that \<^verbatim>\<open>Palloc\<close> hands out; a new mapping changes one translation and no other.

  \<^item> \<^verbatim>\<open>vm/supplemental_page.c\<close>, \<^verbatim>\<open>vm/vm_util.c\<close> and the fault handler of \<^verbatim>\<open>userprog/exception.c\<close>: \<^verbatim>\<open>SupplTable\<close> (the
    table of a process is a map from pages, by the hash table's contract), \<^verbatim>\<open>Paging\<close> (the operations on
    the joined state of page tables, frames, swap and records), \<^verbatim>\<open>Eviction\<close> (the clock stops at a page of
    the best class, which loses its frame and is saved) and \<^verbatim>\<open>Restore\<close> (the page comes back unchanged).

  \<^item> \<^verbatim>\<open>lib/kernel/hash.c\<close>: theory \<^verbatim>\<open>Hash\<close>. The contract \<^verbatim>\<open>elem_table\<close> gives the laws of a finite map; the hash
    table is an interpretation for every pair of functions that meets \<^verbatim>\<open>hash_funcs\<close>. Buckets are
    sequences, which is what the list theories show of \<^verbatim>\<open>list.c\<close>. Theory \<^verbatim>\<open>KeyTable\<close> is the case of tables
    whose elements are looked up by a number.

  \<^item> \<^verbatim>\<open>lib/stdlib.c\<close> and \<^verbatim>\<open>lib/string.c\<close>: theories \<^verbatim>\<open>Stdlib\<close> (heap sort and binary search of byte arrays under the
    contract \<^verbatim>\<open>compare_func\<close>, decimal numbers) and \<^verbatim>\<open>CString\<close> (blocks and zero-terminated strings).

  \<^item> \<^verbatim>\<open>filesys/cache.c\<close>: theory \<^verbatim>\<open>Cache\<close>, the write-back cache of 64 sectors. Its clients see an array of sectors, which is
    the locale \<^verbatim>\<open>sector_store\<close>; taking, changing and releasing a sector, evictions and flushes implement it.

  \<^item> \<^verbatim>\<open>filesys/inode.c\<close>: theory \<^verbatim>\<open>Inode\<close> has every operation on the cache and the free map. \<^verbatim>\<open>InodeTree\<close> is the tree of index
    sectors as a mathematical object, \<^verbatim>\<open>InodeOps\<close> and \<^verbatim>\<open>InodeIO\<close> follow look-ups, reads and writes through the cache, \<^verbatim>\<open>InodeAlloc\<close> and
    \<^verbatim>\<open>InodeGrow\<close> the growth of a file, \<^verbatim>\<open>InodeWrite\<close> joins them to the specification of a write. An allocation writes the free map to a file
    of the same volume: the locale \<^verbatim>\<open>map_file\<close> says what that call promises, and \<^verbatim>\<open>FreeMapFile\<close> interprets it on
    \<^verbatim>\<open>bitmap_write\<close>, that is on \<^verbatim>\<open>inode_write_at\<close> within the file of the map. \<^verbatim>\<open>Volume\<close> and \<^verbatim>\<open>VolumeProps\<close> are about all open files of a
    volume together, \<^verbatim>\<open>InodeFree\<close> about deleting one.

  \<^item> \<^verbatim>\<open>filesys/file.c\<close>, \<^verbatim>\<open>filesys/directory.c\<close>, \<^verbatim>\<open>filesys/filesys.c\<close> and the rest of \<^verbatim>\<open>free-map.c\<close>: theories \<^verbatim>\<open>File\<close>, \<^verbatim>\<open>Directory\<close> and \<^verbatim>\<open>Filesys\<close>.
    \<^verbatim>\<open>DirSpec\<close> and \<^verbatim>\<open>DirRemove\<close> show that a directory is a map from names to sectors, \<^verbatim>\<open>FilesysProps\<close> what happens to names of
    the working directory.

  \<^bold>\<open>Bounds.\<close> Sorting is shown for fewer than \<open>2 ^ 31\<close> elements, where child indices do not wrap around; an
  array in 32-bit memory has no more unless its elements are single bytes. String addresses do not
  wrap around.

  The theorems about files ask for eight sectors of the cache that nobody holds (a call holds at most five at a time),
  for offsets within the 1000 MiB that the tree of a file reaches, and, where a file grows, for three free sectors
  per new data sector, because a path may need two new index sectors. Files are open ones: a closed file is a set of
  sectors that no open file has. \<^verbatim>\<open>stored\<close> (theory \<^verbatim>\<open>FilesysProps\<close>) also admits one that is opened by its first look-up.

  \<^bold>\<open>Small differences.\<close> Counts of openers and of clock ticks are integers without a bound, as are sizes in files and bitmaps far
  below \<open>2 ^ 32\<close>. The buckets of a hash table, the free lists of \<^verbatim>\<open>malloc\<close> and the lists of threads and frames are sequences. The part of
  the fault handler that prints and kills the process is the result \<^term>\<open>False\<close>.

  \<^bold>\<open>Not modelled.\<close> Of the kernel: mappings of whole files, system calls and
  process loading, formatted output, device drivers and the boot code. The
  shell and the web server. Interrupts are modelled as steps between operations, not inside them.
\<close>

end
